(* ===== verification/Prelude.thy ===== *)
theory Prelude
  imports Main "HOL-Library.Word" "HOL-Library.Multiset"
begin

unbundle bit_operations_syntax

text \<open>
  Shared vocabulary of the development: the theorem collections the component theories
  extend, and the generic facts on lists, numbers and machine words that several of them use.

  \<^item> \<open>mark_simps\<close>: membership of a set number in the result of a mark operation.
  \<^item> \<open>code_simps\<close>: refinement equations between operations on acceptance codes and
    operations on acceptance formulas.
  \<^item> \<open>sat_simps\<close>: the truth value of a formula built by an acceptance operation.
\<close>

named_theorems mark_simps \<open>bit-level membership in acceptance marks\<close>
named_theorems code_simps \<open>refinement of acceptance codes to formulas\<close>
named_theorems sat_simps \<open>truth of acceptance formulas\<close>

type_synonym u16 = "16 word"
type_synonym u32 = "32 word"

section \<open>Machine words as sets of bits\<close>

definition bits :: "'n::len word \<Rightarrow> nat set" where
  "bits w = {i. bit w i}"

lemma mem_bits [simp]: "i \<in> bits w \<longleftrightarrow> bit w i"
  by (simp add: bits_def)

lemma bits_bound: "i \<in> bits (w :: 'n::len word) \<Longrightarrow> i < LENGTH('n)"
  by (simp add: bit_imp_le_length)

lemma finite_bits [simp]: "finite (bits (w :: 'n::len word))"
  by (rule finite_subset [of _ "{..<LENGTH('n)}"]) (auto dest: bits_bound)

lemma bits_inject: "bits v = bits w \<longleftrightarrow> v = w"
  by (auto simp: bits_def set_eq_iff intro: bit_word_eqI)

lemma bits_0 [simp]: "bits 0 = {}"
  by (simp add: bits_def)

lemma bits_empty_iff [simp]: "bits w = {} \<longleftrightarrow> w = 0"
  by (metis bits_0 bits_inject)

lemma bits_and [simp]: "bits (v AND w) = bits v \<inter> bits w"
  by (auto simp: bits_def bit_simps)

lemma bits_or [simp]: "bits (v OR w) = bits v \<union> bits w"
  by (auto simp: bits_def bit_simps)

lemma bits_xor: "bits (v XOR w) = (bits v - bits w) \<union> (bits w - bits v)"
  by (auto simp: bits_def bit_simps)

lemma bits_not: "bits (NOT (w :: 'n::len word)) = {..<LENGTH('n)} - bits w"
  by (auto simp: bits_def bit_simps dest: bit_imp_le_length)

lemma bits_diff [simp]: "bits (v AND NOT w) = bits v - bits w"
  by (auto simp: bits_def bit_simps bit_imp_le_length)

lemma word_and_eq_iff_subset: "v AND w = v \<longleftrightarrow> bits v \<subseteq> bits w"
  by (auto simp: set_eq_iff simp flip: bits_inject)

lemma word_and_zero_iff_disjoint: "v AND w = 0 \<longleftrightarrow> bits v \<inter> bits w = {}"
  by (metis bits_and bits_empty_iff)

lemma word_nonzero_bit: "w \<noteq> 0 \<longleftrightarrow> (\<exists>i. bit w i)" for w :: "'n::len word"
  using bits_empty_iff [of w] by (auto simp: bits_def)

lemma same_div_mod_iff: "i div n = s div n \<Longrightarrow> i mod n = s mod n \<longleftrightarrow> i = s"
  for i n s :: nat
  by (metis div_mult_mod_eq)

lemma uminus_mod_int:
  "0 \<le> x \<Longrightarrow> x < m \<Longrightarrow> (- x) mod m = (if x = 0 then 0 else m - x)" for x m :: int
  by (simp add: zmod_zminus1_eq_if mod_pos_pos_trivial)

section \<open>Lists\<close>

lemma take_length_append [simp]: "take (length xs) (xs @ ys) = xs"
  by simp

lemma length_concat_le:
  "x \<in> set xss \<Longrightarrow> length x \<le> length (concat xss)"
  by (induction xss) auto

lemma sum_list_map_mono:
  "(\<And>x. x \<in> set xs \<Longrightarrow> f x \<le> g x) \<Longrightarrow> sum_list (map f xs) \<le> sum_list (map g xs)"
  for f g :: "'a \<Rightarrow> nat"
  by (induction xs) (auto intro: add_mono)

lemma list_update_append_left:
  "i < length xs \<Longrightarrow> (xs @ ys)[i := v] = xs[i := v] @ ys"
  by (simp add: list_update_append)

text \<open>
  In-place loops over an array: \<open>for (i = hi - 1; i >= lo; --i) d[i] = f(i, d)\<close> where the
  right-hand side reads no entry above \<open>i\<close>, and the ascending loop whose right-hand side
  reads no entry below \<open>i\<close>.
\<close>

lemma length_fold_update [simp]:
  "length (fold (\<lambda>i d. d[i := f i d]) is d) = length d"
  by (induction "is" arbitrary: d) auto

lemma nth_fold_update_desc:
  assumes f: "\<And>i d d'. length d = length d' \<Longrightarrow> (\<forall>k\<le>i. d ! k = d' ! k) \<Longrightarrow> f i d = f i d'"
    and "j < length d"
  shows "fold (\<lambda>i d. d[i := f i d]) (rev [lo..<hi]) d ! j
    = (if lo \<le> j \<and> j < hi then f j d else d ! j)"
  using assms(2)
proof (induction hi arbitrary: d)
  case (Suc hi)
  let ?d = "d[hi := f hi d]"
  show ?case
  proof (cases "lo \<le> hi")
    case True
    then have "fold (\<lambda>i d. d[i := f i d]) (rev [lo..<Suc hi]) d
        = fold (\<lambda>i d. d[i := f i d]) (rev [lo..<hi]) ?d" by simp
    moreover have "j < hi \<Longrightarrow> f j ?d = f j d" by (rule f) auto
    ultimately show ?thesis using True Suc.prems by (auto simp: Suc.IH nth_list_update less_Suc_eq)
  qed auto
qed simp

lemma nth_update_outside_fold:
  "k \<ge> length d \<Longrightarrow> fold (\<lambda>i d. d[i := f i d]) is d ! k = d ! k"
proof (induction "is" arbitrary: d)
  case (Cons i "is")
  have "d[i := v] ! k = d ! k" for v
    using Cons.prems by (cases "i = k") (auto simp: list_update_beyond)
  with Cons show ?case by simp
qed simp

lemma nth_fold_update_asc:
  assumes f: "\<And>i d d'. length d = length d' \<Longrightarrow> (\<forall>k\<ge>i. d ! k = d' ! k) \<Longrightarrow> f i d = f i d'"
    and "j < length d"
  shows "fold (\<lambda>i d. d[i := f i d]) [0..<hi] d ! j = (if j < hi then f j d else d ! j)"
  using assms(2)
proof (induction hi arbitrary: j)
  case (Suc hi)
  let ?d = "fold (\<lambda>i d. d[i := f i d]) [0..<hi] d"
  have "f hi ?d = f hi d"
  proof (rule f)
    show "\<forall>k\<ge>hi. ?d ! k = d ! k"
      by (metis Suc.IH length_fold_update linorder_not_less nth_update_outside_fold)
  qed simp
  with Suc show ?case by (auto simp: nth_list_update less_Suc_eq)
qed simp

section \<open>Sorting\<close>

text \<open>Sorting with the comparison the caller provides.\<close>

fun insert_by :: "('a \<Rightarrow> 'a \<Rightarrow> bool) \<Rightarrow> 'a \<Rightarrow> 'a list \<Rightarrow> 'a list" where
  "insert_by lt x [] = [x]"
| "insert_by lt x (y # ys) = (if lt y x then y # insert_by lt x ys else x # y # ys)"

definition sort_by :: "('a \<Rightarrow> 'a \<Rightarrow> bool) \<Rightarrow> 'a list \<Rightarrow> 'a list" where
  "sort_by lt xs = foldr (insert_by lt) xs []"

lemma mset_insert_by [simp]: "mset (insert_by lt x ys) = add_mset x (mset ys)"
  by (induction ys) auto

lemma mset_sort_by [simp]: "mset (sort_by lt xs) = mset xs"
  unfolding sort_by_def by (induction xs) auto

lemma set_sort_by [simp]: "set (sort_by lt xs) = set xs"
  by (metis mset_sort_by set_mset_mset)

lemma length_sort_by [simp]: "length (sort_by lt xs) = length xs"
  by (metis mset_sort_by size_mset)

end
