(* ===== verification/Trival.thy ===== *)
theory Trival
  imports Prelude
begin

text \<open>
  Kleene's three-valued logic, \<^verbatim>\<open>spot/misc/trival.hh\<close>.  The class keeps one field
  \<open>val_\<close> of an enumeration with the representations \<open>-1\<close>, \<open>0\<close> and \<open>1\<close>.  The connectives
  are those of the C++ operators; the lemmas relate them to the strong Kleene tables and to
  the truth order, in which they are the minimum, the maximum and the reversal.
\<close>

datatype value_t = no_value | maybe_value | yes_value

type_synonym trival = value_t

definition repr_t :: "trival \<Rightarrow> int" where
  "repr_t v = (case v of no_value \<Rightarrow> -1 | maybe_value \<Rightarrow> 0 | yes_value \<Rightarrow> 1)"

definition from_repr_t :: "int \<Rightarrow> trival option" where
  "from_repr_t r = (if r = -1 then Some no_value else if r = 0 then Some maybe_value
     else if r = 1 then Some yes_value else None)"

definition trival_of_bool :: "bool \<Rightarrow> trival" where
  "trival_of_bool v = (if v then yes_value else no_value)"

definition trival_maybe :: trival where
  "trival_maybe = maybe_value"

definition is_known :: "trival \<Rightarrow> bool" where
  "is_known t \<longleftrightarrow> t \<noteq> maybe_value"

definition is_maybe :: "trival \<Rightarrow> bool" where
  "is_maybe t \<longleftrightarrow> t = maybe_value"

definition is_true :: "trival \<Rightarrow> bool" where
  "is_true t \<longleftrightarrow> t = yes_value"

definition is_false :: "trival \<Rightarrow> bool" where
  "is_false t \<longleftrightarrow> t = no_value"

definition trival_not :: "trival \<Rightarrow> trival" where
  "trival_not t = (if t = yes_value then no_value
     else if t = no_value then yes_value else maybe_value)"

definition trival_and :: "trival \<Rightarrow> trival \<Rightarrow> trival" where
  "trival_and a b = (if a = no_value \<or> b = no_value then trival_of_bool False
     else if a = maybe_value \<or> b = maybe_value then trival_maybe
     else trival_of_bool True)"

definition trival_or :: "trival \<Rightarrow> trival \<Rightarrow> trival" where
  "trival_or a b = (if a = yes_value \<or> b = yes_value then trival_of_bool True
     else if a = maybe_value \<or> b = maybe_value then trival_maybe
     else trival_of_bool False)"

definition trival_print :: "trival \<Rightarrow> string" where
  "trival_print v = (if v = no_value then ''no'' else if v = maybe_value then ''maybe'' else ''yes'')"

lemmas trival_defs = repr_t_def from_repr_t_def trival_of_bool_def trival_maybe_def is_known_def
  is_maybe_def is_true_def is_false_def trival_not_def trival_and_def trival_or_def

text \<open>
  The truth order of the class is the order of the representations.
\<close>

instantiation value_t :: linorder
begin

definition less_eq_value_t :: "value_t \<Rightarrow> value_t \<Rightarrow> bool" where
  "less_eq_value_t a b \<longleftrightarrow> repr_t a \<le> repr_t b"

definition less_value_t :: "value_t \<Rightarrow> value_t \<Rightarrow> bool" where
  "less_value_t a b \<longleftrightarrow> repr_t a < repr_t b"

instance
proof
  fix x y z :: value_t
  show "x < y \<longleftrightarrow> x \<le> y \<and> \<not> y \<le> x"
    by (auto simp: less_eq_value_t_def less_value_t_def)
  show "x \<le> x" by (simp add: less_eq_value_t_def)
  show "x \<le> y \<Longrightarrow> y \<le> z \<Longrightarrow> x \<le> z" by (simp add: less_eq_value_t_def)
  show "x \<le> y \<Longrightarrow> y \<le> x \<Longrightarrow> x = y"
    by (cases x; cases y) (auto simp: less_eq_value_t_def repr_t_def)
  show "x \<le> y \<or> y \<le> x" by (auto simp: less_eq_value_t_def)
qed

end

lemma trival_and_min: "trival_and a b = min a b"
  by (cases a; cases b) (auto simp: trival_defs min_def less_eq_value_t_def)

lemma trival_or_max: "trival_or a b = max a b"
  by (cases a; cases b) (auto simp: trival_defs max_def less_eq_value_t_def)

lemma repr_t_not: "repr_t (trival_not a) = - repr_t a"
  by (cases a) (auto simp: trival_defs)

lemma from_repr_t_repr_t [simp]: "from_repr_t (repr_t t) = Some t"
  by (cases t) (auto simp: trival_defs)

text \<open>
  Each three-valued result stands for the set of Booleans it allows: a decided value allows
  itself only, \<open>maybe\<close> allows both.  The connectives never exclude a Boolean that the
  corresponding connective produces from allowed arguments, and a decided result is produced
  whatever the undecided arguments turn out to be.
\<close>

definition allows :: "trival \<Rightarrow> bool \<Rightarrow> bool" where
  "allows t b \<longleftrightarrow> t = maybe_value \<or> t = trival_of_bool b"

lemma allows_simps [simp]:
  "allows maybe_value b" "allows yes_value b \<longleftrightarrow> b" "allows no_value b \<longleftrightarrow> \<not> b"
  by (auto simp: allows_def trival_of_bool_def)

lemma allows_of_bool [simp]: "allows (trival_of_bool a) b \<longleftrightarrow> (a = b)"
  by (auto simp: trival_of_bool_def)

lemma kleene_and_exact:
  "allows (trival_and s t) c \<longleftrightarrow> (\<exists>a b. allows s a \<and> allows t b \<and> c = (a \<and> b))"
  by (cases s; cases t; cases c) (auto simp: trival_defs)

lemma kleene_or_exact:
  "allows (trival_or s t) c \<longleftrightarrow> (\<exists>a b. allows s a \<and> allows t b \<and> c = (a \<or> b))"
  by (cases s; cases t; cases c) (auto simp: trival_defs)

lemma kleene_not_exact:
  "allows (trival_not s) c \<longleftrightarrow> (\<exists>a. allows s a \<and> c = (\<not> a))"
  by (cases s; cases c) (auto simp: trival_defs)

text \<open>
  The three connectives are exactly Kleene's: a result allows a Boolean if and
  only if the Boolean connective can produce it from Booleans the arguments allow, and in the
  order of the representations they are the minimum, the maximum and the opposite.
\<close>

theorem trival_kleene:
  "(allows (trival_and s t) c \<longleftrightarrow> (\<exists>a b. allows s a \<and> allows t b \<and> c = (a \<and> b)))
   \<and> (allows (trival_or s t) c \<longleftrightarrow> (\<exists>a b. allows s a \<and> allows t b \<and> c = (a \<or> b)))
   \<and> (allows (trival_not s) c \<longleftrightarrow> (\<exists>a. allows s a \<and> c = (\<not> a)))
   \<and> trival_and s t = min s t \<and> trival_or s t = max s t \<and> repr_t (trival_not s) = - repr_t s
   \<and> from_repr_t (repr_t s) = Some s"
  by (intro conjI kleene_and_exact kleene_or_exact kleene_not_exact trival_and_min trival_or_max
      repr_t_not from_repr_t_repr_t)

end
