(* ===== verification/Bitset.thy ===== *)
theory Bitset
  imports Prelude
begin

unbundle bit_operations_syntax

text \<open>
  Fixed-size bit sets, \<^verbatim>\<open>spot/misc/bitset.hh\<close>.  An object of class
  \<^verbatim>\<open>bitset<N>\<close> holds an array \<open>data\<close> of \<open>N\<close> unsigned words; it is modelled by the list of
  these \<open>32\<close>-bit words, lowest first, so that \<open>N\<close> is the length of the list.  The in-place
  loops of the shifts are folds over the index range in the order of the source, and every
  loop over the words is a recursion over the list.  \<open>bs_bits\<close> (the set of the bit numbers
  that are set) and \<open>bs_int\<close> (the number the words spell) are the two abstractions.

  The checked build (\<^verbatim>\<open>SPOT_DEBUG\<close>, and the Python bindings) raises on a bit number or a
  shift that is out of range; the unchecked one assumes it is in range.  The model raises.
\<close>

datatype bitset_error = bit_shift_too_big | bit_out_of_bounds

type_synonym bitset = "u32 list"

abbreviation word_bits :: nat where
  "word_bits \<equiv> 32"

definition bs_of_word :: "nat \<Rightarrow> u32 \<Rightarrow> bitset" where
  "bs_of_word N s = s # replicate (N - 1) 0"

definition bs_zero :: "nat \<Rightarrow> bitset" where
  "bs_zero N = bs_of_word N 0"

definition bs_one :: "nat \<Rightarrow> bitset" where
  "bs_one N = bs_of_word N 1"

definition bs_mone :: "nat \<Rightarrow> bitset" where
  "bs_mone N = replicate N (- 1)"

fun bs_bool :: "bitset \<Rightarrow> bool" where
  "bs_bool [] = False"
| "bs_bool (v # vs) = (if v \<noteq> 0 then True else bs_bool vs)"

fun bs_eq :: "bitset \<Rightarrow> bitset \<Rightarrow> bool" where
  "bs_eq (v # vs) (w # ws) = (if v \<noteq> w then False else bs_eq vs ws)"
| "bs_eq _ _ = True"

fun bs_less :: "bitset \<Rightarrow> bitset \<Rightarrow> bool" where
  "bs_less (v # vs) (w # ws) = (if v < w then True else if v > w then False else bs_less vs ws)"
| "bs_less _ _ = False"

fun bs_less_eq :: "bitset \<Rightarrow> bitset \<Rightarrow> bool" where
  "bs_less_eq (v # vs) (w # ws) = (if v < w then True else if v > w then False else bs_less_eq vs ws)"
| "bs_less_eq _ _ = True"

definition bs_set :: "bitset \<Rightarrow> nat \<Rightarrow> bitset_error + bitset" where
  "bs_set d s = (if s \<ge> word_bits * length d then Inl bit_out_of_bounds
     else Inr (d[s div word_bits := d ! (s div word_bits) OR push_bit (s mod word_bits) 1]))"

definition bs_clear :: "bitset \<Rightarrow> nat \<Rightarrow> bitset_error + bitset" where
  "bs_clear d s = (if s \<ge> word_bits * length d then Inl bit_out_of_bounds
     else Inr (d[s div word_bits := d ! (s div word_bits) AND NOT (push_bit (s mod word_bits) 1)]))"

definition bs_shl :: "bitset \<Rightarrow> nat \<Rightarrow> bitset_error + bitset" where
  "bs_shl d s =
    (let N = length d in
     if s \<ge> word_bits * N then Inl bit_shift_too_big
     else if N = 1 then Inr (d[0 := push_bit s (d ! 0)])
     else if s = 0 then Inr d
     else
       let wshift = s div word_bits; offset = s mod word_bits;
           d1 = (if offset = 0
                 then fold (\<lambda>i d. d[i := d ! (i - wshift)]) (rev [wshift..<N]) d
                 else
                   let sub_offset = word_bits - offset;
                       d0 = fold (\<lambda>i d. d[i := push_bit offset (d ! (i - wshift))
                                               OR drop_bit sub_offset (d ! (i - wshift - 1))])
                              (rev [Suc wshift..<N]) d
                   in d0[wshift := push_bit offset (d0 ! 0)])
       in Inr (replicate wshift 0 @ drop wshift d1))"

definition bs_shr :: "bitset \<Rightarrow> nat \<Rightarrow> bitset_error + bitset" where
  "bs_shr d s =
    (let N = length d in
     if s \<ge> word_bits * N then Inl bit_shift_too_big
     else if N = 1 then Inr (d[0 := drop_bit s (d ! 0)])
     else if s = 0 then Inr d
     else
       let wshift = s div word_bits; offset = s mod word_bits; limit = N - wshift - 1;
           d1 = (if offset = 0
                 then fold (\<lambda>i d. d[i := d ! (i + wshift)]) [0..<Suc limit] d
                 else
                   let sub_offset = word_bits - offset;
                       d0 = fold (\<lambda>i d. d[i := drop_bit offset (d ! (i + wshift))
                                               OR push_bit sub_offset (d ! (i + wshift + 1))])
                              [0..<limit] d
                   in d0[limit := drop_bit offset (d0 ! (N - 1))])
       in Inr (take (Suc limit) d1 @ replicate (N - Suc limit) 0))"

definition bs_not :: "bitset \<Rightarrow> bitset" where
  "bs_not d = map NOT d"

definition bs_and :: "bitset \<Rightarrow> bitset \<Rightarrow> bitset" where
  "bs_and d e = map2 (AND) d e"

definition bs_or :: "bitset \<Rightarrow> bitset \<Rightarrow> bitset" where
  "bs_or d e = map2 (OR) d e"

definition bs_xor :: "bitset \<Rightarrow> bitset \<Rightarrow> bitset" where
  "bs_xor d e = map2 (XOR) d e"

fun bs_minus :: "bitset \<Rightarrow> u32 \<Rightarrow> bitset" where
  "bs_minus [] s = []"
| "bs_minus (v # vs) s = (if s = 0 then v # vs
     else if v \<ge> s then (v - s) # bs_minus vs 0
     else (v - s) # bs_minus vs 1)"

fun bs_neg_loop :: "u32 \<Rightarrow> bitset \<Rightarrow> bitset" where
  "bs_neg_loop carry [] = []"
| "bs_neg_loop carry (v # vs) =
     (let v1 = v + carry; carry1 = (if v1 < carry then 2 else 1)
      in (- v1) # bs_neg_loop carry1 vs)"

definition bs_uminus :: "bitset \<Rightarrow> bitset" where
  "bs_uminus d = bs_neg_loop 0 d"

text \<open>
  The GCC builtins on one word, and the portable loops the source has beside them.
\<close>

definition builtin_popcount :: "u32 \<Rightarrow> nat" where
  "builtin_popcount v = length (filter (bit v) [0..<word_bits])"

definition builtin_ctz :: "u32 \<Rightarrow> nat" where
  "builtin_ctz v = length (takeWhile (\<lambda>i. \<not> bit v i) [0..<word_bits])"

definition builtin_clz :: "u32 \<Rightarrow> nat" where
  "builtin_clz v = length (takeWhile (\<lambda>i. \<not> bit v i) (rev [0..<word_bits]))"

fun bs_count :: "bitset \<Rightarrow> nat" where
  "bs_count [] = 0"
| "bs_count (v # vs) = builtin_popcount v + bs_count vs"

fun bs_highest_loop :: "bitset \<Rightarrow> nat" where
  "bs_highest_loop [] = 0"
| "bs_highest_loop (v # vs) = (if v = 0 then bs_highest_loop vs
     else length vs * word_bits + (word_bits - builtin_clz v) - 1)"

definition bs_highest :: "bitset \<Rightarrow> nat" where
  "bs_highest d = bs_highest_loop (rev d)"

fun bs_lowest_loop :: "nat \<Rightarrow> bitset \<Rightarrow> nat" where
  "bs_lowest_loop res [] = 0"
| "bs_lowest_loop res (v # vs) = (if v = 0 then bs_lowest_loop (res + word_bits) vs
     else res + builtin_ctz v)"

definition bs_lowest :: "bitset \<Rightarrow> nat" where
  "bs_lowest d = bs_lowest_loop 0 d"

section \<open>Abstractions\<close>

fun bs_bit :: "bitset \<Rightarrow> nat \<Rightarrow> bool" where
  "bs_bit [] i = False"
| "bs_bit (w # ws) i = (if i < word_bits then bit w i else bs_bit ws (i - word_bits))"

definition bs_bits :: "bitset \<Rightarrow> nat set" where
  "bs_bits d = {i. bs_bit d i}"

fun bs_int :: "bitset \<Rightarrow> int" where
  "bs_int [] = 0"
| "bs_int (w # ws) = uint w + 2 ^ word_bits * bs_int ws"

lemma mem_bs_bits [simp]: "i \<in> bs_bits d \<longleftrightarrow> bs_bit d i"
  by (simp add: bs_bits_def)

lemma bs_bit_nth: "bs_bit d i \<longleftrightarrow> i < word_bits * length d \<and> bit (d ! (i div word_bits)) (i mod word_bits)"
proof (induction d arbitrary: i)
  case (Cons w ws)
  show ?case
  proof (cases "i < 32")
    case False
    then have "i div 32 = Suc ((i - 32) div 32)" "i mod 32 = (i - 32) mod 32"
      by (simp_all add: le_div_geq le_mod_geq)
    with False show ?thesis by (auto simp: Cons.IH)
  qed auto
qed simp

lemma bs_bit_at:
  assumes "i = word_bits * k + r" and "r < word_bits"
  shows "bs_bit d i \<longleftrightarrow> k < length d \<and> bit (d ! k) r"
proof -
  have "i div 32 = k" "i mod 32 = r" using assms by simp_all
  moreover have "i < 32 * length d \<longleftrightarrow> k < length d"
    using assms by (metis calculation(1) div_less_iff_less_mult mult.commute zero_less_numeral)
  ultimately show ?thesis by (simp add: bs_bit_nth)
qed

lemma bs_bit_bound: "bs_bit d i \<Longrightarrow> i < word_bits * length d"
  by (simp add: bs_bit_nth)

lemma bs_bits_eqI:
  assumes "length d = length e" and "bs_bits d = bs_bits e"
  shows "d = e"
proof (rule nth_equalityI [OF assms(1)], rule bit_word_eqI)
  fix k n assume k: "k < length d" and n: "n < LENGTH(32)"
  from assms(2) have "bs_bit d (32 * k + n) = bs_bit e (32 * k + n)"
    by (metis mem_bs_bits)
  then show "bit (d ! k) n = bit (e ! k) n"
    using k n assms(1) by (simp add: bs_bit_nth)
qed

lemma bit_bs_int: "bit (bs_int d) i \<longleftrightarrow> bs_bit d i"
proof (induction d arbitrary: i)
  case (Cons w ws)
  have "uint w + 2 ^ 32 * bs_int ws = concat_bit 32 (uint w) (bs_int ws)"
    using uint_lt2p [of w]
    by (simp add: concat_bit_eq push_bit_eq_mult take_bit_int_eq_self mult.commute)
  then show ?case
    by (auto simp: Cons.IH bit_concat_bit_iff bit_uint_iff)
qed simp

lemma bs_int_nonneg: "0 \<le> bs_int d"
  by (induction d) auto

lemma bs_int_less: "bs_int d < 2 ^ (word_bits * length d)"
proof (induction d)
  case (Cons w ws)
  have "uint w < 2 ^ 32" using uint_lt2p [of w] by simp
  moreover have "bs_int ws + 1 \<le> 2 ^ (32 * length ws)" using Cons.IH by simp
  then have "2 ^ 32 * (bs_int ws + 1) \<le> 2 ^ 32 * (2 ^ (32 * length ws) :: int)"
    by (rule mult_left_mono) simp
  ultimately show ?case by (simp add: power_add algebra_simps)
qed simp

section \<open>Bitwise operations\<close>

lemma length_bs_ops [simp]:
  "length (bs_not d) = length d"
  "length d = length e \<Longrightarrow> length (bs_and d e) = length e"
  "length d = length e \<Longrightarrow> length (bs_or d e) = length e"
  "length d = length e \<Longrightarrow> length (bs_xor d e) = length e"
  "0 < N \<Longrightarrow> length (bs_of_word N s) = N"
  "0 < N \<Longrightarrow> length (bs_zero N) = N"
  "0 < N \<Longrightarrow> length (bs_one N) = N"
  "length (bs_mone N) = N"
  by (simp_all add: bs_not_def bs_and_def bs_or_def bs_xor_def bs_of_word_def bs_zero_def
      bs_one_def bs_mone_def)

lemma bs_bit_replicate_0 [simp]: "\<not> bs_bit (replicate n 0) i"
  by (induction n arbitrary: i) auto

lemma bs_bits_zero: "bs_bits (bs_zero N) = {}"
  by (auto simp: bs_bits_def bs_zero_def bs_of_word_def)

lemma bs_bits_mone: "bs_bits (bs_mone N) = {..<word_bits * N}"
  by (auto simp: bs_bit_nth bs_mone_def less_mult_imp_div_less mult.commute)

lemma bs_bool_iff: "bs_bool d \<longleftrightarrow> bs_bits d \<noteq> {}"
proof (induction d)
  case (Cons v vs)
  have "(\<exists>i. bs_bit (v # vs) i) \<longleftrightarrow> (\<exists>i<32. bit v i) \<or> (\<exists>i. bs_bit vs i)"
  proof
    assume "\<exists>i. bs_bit (v # vs) i"
    then show "(\<exists>i<32. bit v i) \<or> (\<exists>i. bs_bit vs i)" by (auto split: if_splits)
  next
    assume "(\<exists>i<32. bit v i) \<or> (\<exists>i. bs_bit vs i)"
    then show "\<exists>i. bs_bit (v # vs) i"
    proof
      assume "\<exists>i. bs_bit vs i"
      then obtain i where "bs_bit vs i" ..
      then have "bs_bit (v # vs) (i + 32)" by simp
      then show ?thesis ..
    qed auto
  qed
  moreover have "(\<exists>i<32. bit v i) \<longleftrightarrow> v \<noteq> 0"
    using word_nonzero_bit [of v] bit_imp_le_length [of v] by auto
  ultimately show ?case using Cons.IH by (auto simp: bs_bits_def)
qed (simp add: bs_bits_def)

lemma bs_bit_map2:
  assumes "length d = length e" and "\<And>v w n. n < word_bits \<Longrightarrow> bit (f v w) n \<longleftrightarrow> g (bit v n) (bit w n)"
    and "\<not> g False False"
  shows "bs_bit (map2 f d e) i \<longleftrightarrow> g (bs_bit d i) (bs_bit e i)"
  using assms(1)
proof (induction d e arbitrary: i rule: list_induct2)
  case (Cons v vs w ws)
  then show ?case by (simp add: assms(2))
qed (simp add: assms(3))

lemma bs_bits_and: "length d = length e \<Longrightarrow> bs_bits (bs_and d e) = bs_bits d \<inter> bs_bits e"
  by (rule set_eqI) (auto simp: bs_and_def bs_bit_map2 [where g = "(\<and>)"] bit_simps)

lemma bs_bits_or: "length d = length e \<Longrightarrow> bs_bits (bs_or d e) = bs_bits d \<union> bs_bits e"
  by (rule set_eqI) (auto simp: bs_or_def bs_bit_map2 [where g = "(\<or>)"] bit_simps)

lemma bs_bits_xor: "length d = length e \<Longrightarrow>
    bs_bits (bs_xor d e) = (bs_bits d - bs_bits e) \<union> (bs_bits e - bs_bits d)"
  by (rule set_eqI) (auto simp: bs_xor_def bs_bit_map2 [where g = "(\<noteq>)"] bit_simps)

lemma bs_bits_not: "bs_bits (bs_not d) = {..<word_bits * length d} - bs_bits d"
  by (auto simp: bs_bit_nth bs_not_def bit_simps less_mult_imp_div_less mult.commute)

lemma bs_eq_iff: "length d = length e \<Longrightarrow> bs_eq d e \<longleftrightarrow> d = e"
  by (induction d e rule: list_induct2) auto

section \<open>The order\<close>

text \<open>
  The comparison starts at the lowest word, so with several words it is not the numeric
  order; it is still a strict linear order, with \<open>operator<=\<close> as its reflexive closure.
\<close>

lemma bs_less_irrefl: "\<not> bs_less d d"
  by (induction d) auto

lemma bs_less_eq_iff: "length d = length e \<Longrightarrow> bs_less_eq d e \<longleftrightarrow> bs_less d e \<or> d = e"
  by (induction d e rule: list_induct2) auto

lemma bs_less_trans:
  "length d = length e \<Longrightarrow> length e = length f \<Longrightarrow> bs_less d e \<Longrightarrow> bs_less e f \<Longrightarrow> bs_less d f"
proof (induction d e f rule: list_induct3)
  case (Cons u us v vs w ws)
  then show ?case by (auto split: if_splits)
qed simp

lemma bs_less_total: "length d = length e \<Longrightarrow> bs_less d e \<or> d = e \<or> bs_less e d"
  by (induction d e rule: list_induct2) auto

section \<open>Setting and clearing one bit\<close>

lemma bs_set_bits:
  assumes "s < word_bits * length d"
  shows "\<exists>e. bs_set d s = Inr e \<and> length e = length d \<and> bs_bits e = insert s (bs_bits d)"
proof -
  let ?e = "d[s div 32 := d ! (s div 32) OR push_bit (s mod 32) 1]"
  have *: "s div 32 < length d" using assms by (simp add: less_mult_imp_div_less mult.commute)
  have "bs_bit ?e i \<longleftrightarrow> i = s \<or> bs_bit d i" for i
  proof (cases "i div 32 = s div 32")
    case True
    then have "i mod 32 = s mod 32 \<longleftrightarrow> i = s" by (rule same_div_mod_iff)
    with True * show ?thesis using assms by (auto simp: bs_bit_nth bit_simps)
  qed (use assms in \<open>auto simp: bs_bit_nth\<close>)
  then have "bs_bits ?e = insert s (bs_bits d)" by (auto simp only: set_eq_iff mem_bs_bits insert_iff Diff_iff empty_iff)
  moreover have "bs_set d s = Inr ?e" using assms by (simp only: bs_set_def not_le [symmetric] if_False)
  ultimately show ?thesis by (intro exI conjI) simp_all
qed

lemma bs_clear_bits:
  assumes "s < word_bits * length d"
  shows "\<exists>e. bs_clear d s = Inr e \<and> length e = length d \<and> bs_bits e = bs_bits d - {s}"
proof -
  let ?e = "d[s div 32 := d ! (s div 32) AND NOT (push_bit (s mod 32) 1)]"
  have *: "s div 32 < length d" using assms by (simp add: less_mult_imp_div_less mult.commute)
  have "bs_bit ?e i \<longleftrightarrow> i \<noteq> s \<and> bs_bit d i" for i
  proof (cases "i div 32 = s div 32")
    case True
    then have "i mod 32 = s mod 32 \<longleftrightarrow> i = s" by (rule same_div_mod_iff)
    with True * show ?thesis using assms by (auto simp: bs_bit_nth bit_simps)
  qed (use assms in \<open>auto simp: bs_bit_nth\<close>)
  then have "bs_bits ?e = bs_bits d - {s}" by (auto simp only: set_eq_iff mem_bs_bits insert_iff Diff_iff empty_iff)
  moreover have "bs_clear d s = Inr ?e" using assms by (simp only: bs_clear_def not_le [symmetric] if_False)
  ultimately show ?thesis by (intro exI conjI) simp_all
qed

section \<open>Shifts\<close>

text \<open>
  One word of a shifted bit set: the word \<open>wshift\<close> places away moved by \<open>offset\<close>, completed
  with the bits that cross the word boundary.
\<close>

definition shl_word :: "bitset \<Rightarrow> nat \<Rightarrow> nat \<Rightarrow> u32" where
  "shl_word d s i =
     (if i < s div word_bits then 0
      else push_bit (s mod word_bits) (d ! (i - s div word_bits))
        OR (if i = s div word_bits then 0
            else drop_bit (word_bits - s mod word_bits) (d ! (i - s div word_bits - 1))))"

definition shr_word :: "bitset \<Rightarrow> nat \<Rightarrow> nat \<Rightarrow> u32" where
  "shr_word d s i =
     (if i + s div word_bits \<ge> length d then 0
      else drop_bit (s mod word_bits) (d ! (i + s div word_bits))
        OR (if Suc (i + s div word_bits) = length d then 0
            else push_bit (word_bits - s mod word_bits) (d ! (i + s div word_bits + 1))))"

lemma drop_bit_full: "drop_bit word_bits (w :: u32) = 0"
  by (rule bit_word_eqI) (simp add: bit_simps)

lemma push_bit_full: "push_bit word_bits (w :: u32) = 0"
  by (rule bit_word_eqI) (simp add: bit_simps)

lemma bs_shl_words:
  assumes "s < word_bits * length d"
  shows "bs_shl d s = Inr (map (shl_word d s) [0..<length d])"
proof -
  let ?w = "s div 32" and ?o = "s mod 32" and ?N = "length d"
  have w: "?w < ?N" using assms by (simp add: less_mult_imp_div_less mult.commute)
  consider (one) "?N = 1" | (zero) "?N \<noteq> 1" "s = 0" | (shift) "?N \<noteq> 1" "s \<noteq> 0" by blast
  then show ?thesis
  proof cases
    case one
    then obtain v where "d = [v]" by (metis One_nat_def length_0_conv length_Suc_conv)
    moreover have "s < 32" using assms one by simp
    ultimately show ?thesis by (simp add: bs_shl_def shl_word_def)
  next
    case zero
    then show ?thesis using assms
      by (auto simp: bs_shl_def shl_word_def drop_bit_full intro!: nth_equalityI)
  next
    case shift
    define d1 where "d1 = (if ?o = 0
        then fold (\<lambda>i d. d[i := d ! (i - ?w)]) (rev [?w..<?N]) d
        else (fold (\<lambda>i d. d[i := push_bit ?o (d ! (i - ?w)) OR drop_bit (32 - ?o) (d ! (i - ?w - 1))])
               (rev [Suc ?w..<?N]) d)[?w := push_bit ?o
              (fold (\<lambda>i d. d[i := push_bit ?o (d ! (i - ?w)) OR drop_bit (32 - ?o) (d ! (i - ?w - 1))])
               (rev [Suc ?w..<?N]) d ! 0)])"
    have len: "length d1 = ?N" by (simp add: d1_def)
    have "bs_shl d s = Inr (replicate ?w 0 @ drop ?w d1)"
      using shift assms by (simp add: bs_shl_def d1_def Let_def)
    moreover have "d1 ! i = shl_word d s i" if "?w \<le> i" "i < ?N" for i
      using that w shift(2) le_less_trans [OF le0 w]
      by (auto simp: d1_def shl_word_def nth_fold_update_desc drop_bit_full nth_list_update)
    then have "replicate ?w 0 @ drop ?w d1 = map (shl_word d s) [0..<?N]"
      using w len by (auto intro!: nth_equalityI simp: nth_append shl_word_def)
    ultimately show ?thesis by simp
  qed
qed

lemma bs_shr_words:
  assumes "s < word_bits * length d"
  shows "bs_shr d s = Inr (map (shr_word d s) [0..<length d])"
proof -
  let ?w = "s div 32" and ?o = "s mod 32" and ?N = "length d"
  let ?l = "?N - ?w - 1"
  have w: "?w < ?N" using assms by (simp add: less_mult_imp_div_less mult.commute)
  consider (one) "?N = 1" | (zero) "?N \<noteq> 1" "s = 0" | (shift) "?N \<noteq> 1" "s \<noteq> 0" by blast
  then show ?thesis
  proof cases
    case one
    then obtain v where "d = [v]" by (metis One_nat_def length_0_conv length_Suc_conv)
    moreover have "s < 32" using assms one by simp
    ultimately show ?thesis by (simp add: bs_shr_def shr_word_def)
  next
    case zero
    then show ?thesis using assms
      by (auto simp: bs_shr_def shr_word_def push_bit_full intro!: nth_equalityI)
  next
    case shift
    define d1 where "d1 = (if ?o = 0
        then fold (\<lambda>i d. d[i := d ! (i + ?w)]) [0..<Suc ?l] d
        else (fold (\<lambda>i d. d[i := drop_bit ?o (d ! (i + ?w)) OR push_bit (32 - ?o) (d ! (i + ?w + 1))])
               [0..<?l] d)[?l := drop_bit ?o
              (fold (\<lambda>i d. d[i := drop_bit ?o (d ! (i + ?w)) OR push_bit (32 - ?o) (d ! (i + ?w + 1))])
               [0..<?l] d ! (?N - 1))])"
    have len: "length d1 = ?N" by (simp add: d1_def)
    have "bs_shr d s = Inr (take (Suc ?l) d1 @ replicate (?N - Suc ?l) 0)"
      using shift assms by (simp add: bs_shr_def d1_def Let_def)
    moreover have "d1 ! i = shr_word d s i" if "i \<le> ?l" for i
      using that w shift(2)
      by (auto simp del: upt_Suc simp: d1_def shr_word_def nth_fold_update_asc push_bit_full
          nth_list_update)
    then have "take (Suc ?l) d1 @ replicate (?N - Suc ?l) 0 = map (shr_word d s) [0..<?N]"
      using w len by (auto intro!: nth_equalityI simp: nth_append shr_word_def)
    ultimately show ?thesis by simp
  qed
qed

lemma bs_shl_bits:
  assumes "s < word_bits * length d"
  shows "\<exists>e. bs_shl d s = Inr e \<and> length e = length d
    \<and> bs_bits e = {i. s \<le> i \<and> i < word_bits * length d \<and> i - s \<in> bs_bits d}"
proof (intro exI conjI)
  let ?e = "map (shl_word d s) [0..<length d]"
  show "bs_shl d s = Inr ?e" by (rule bs_shl_words [OF assms])
  show "length ?e = length d" by simp
  have "bs_bit ?e i \<longleftrightarrow> s \<le> i \<and> bs_bit d (i - s)" if i: "i < 32 * length d" for i
  proof -
    define q r w b where "q = i div 32" and "r = i mod 32" and "w = s div 32" and "b = s mod 32"
    have i_eq: "i = 32 * q + r" and s_eq: "s = 32 * w + b" and r: "r < 32" and b: "b < 32"
      by (simp_all add: q_def r_def w_def b_def)
    have q: "q < length d" using i i_eq by simp
    have e: "bs_bit ?e i \<longleftrightarrow> bit (shl_word d s q) r"
      using i q by (simp add: bs_bit_nth q_def r_def)
    consider "q < w" | "q = w" | "w < q" by linarith
    then show ?thesis
    proof cases
      case 1
      then have "32 * q + 32 \<le> 32 * w" by simp
      then have "\<not> s \<le> i" using i_eq s_eq r by linarith
      with 1 show ?thesis unfolding e by (simp add: shl_word_def w_def [symmetric])
    next
      case 2
      then show ?thesis using i_eq s_eq r b q
        by (auto simp: e shl_word_def w_def [symmetric] b_def [symmetric] bit_simps bs_bit_nth)
    next
      case 3
      then obtain k where k: "q = w + Suc k" using less_imp_Suc_add by auto
      have "i - s = 32 * Suc k + r - b" "s \<le> i" using i_eq s_eq r b k by simp_all
      then have "bs_bit d (i - s) \<longleftrightarrow> (if b \<le> r then bit (d ! Suc k) (r - b) else bit (d ! k) (32 + r - b))"
      proof (cases "b \<le> r")
        case True
        then have "i - s = 32 * Suc k + (r - b)" using \<open>i - s = _\<close> by simp
        from bs_bit_at [OF this] True show ?thesis using r q k by simp
      next
        case False
        then have "i - s = 32 * k + (32 + r - b)" using \<open>i - s = _\<close> b by simp
        from bs_bit_at [OF this] False show ?thesis using q k by simp
      qed
      then show ?thesis using k r b \<open>s \<le> i\<close>
        by (auto simp: e shl_word_def w_def [symmetric] b_def [symmetric] bit_simps
            dest: bit_imp_le_length)
    qed
  qed
  then show "bs_bits ?e = {i. s \<le> i \<and> i < 32 * length d \<and> i - s \<in> bs_bits d}"
    using bs_bit_bound [of ?e] by fastforce
qed

lemma bs_shr_bits:
  assumes "s < word_bits * length d"
  shows "\<exists>e. bs_shr d s = Inr e \<and> length e = length d \<and> bs_bits e = {i. i + s \<in> bs_bits d}"
proof (intro exI conjI)
  let ?e = "map (shr_word d s) [0..<length d]"
  show "bs_shr d s = Inr ?e" by (rule bs_shr_words [OF assms])
  show "length ?e = length d" by simp
  have "bs_bit ?e i \<longleftrightarrow> bs_bit d (i + s)" if i: "i < 32 * length d" for i
  proof -
    define q r w b where "q = i div 32" and "r = i mod 32" and "w = s div 32" and "b = s mod 32"
    have i_eq: "i = 32 * q + r" and s_eq: "s = 32 * w + b" and r: "r < 32" and b: "b < 32"
      by (simp_all add: q_def r_def w_def b_def)
    have q: "q < length d" using i i_eq by simp
    have e: "bs_bit ?e i \<longleftrightarrow> bit (shr_word d s q) r"
      using i q by (simp add: bs_bit_nth q_def r_def)
    have sum: "i + s = 32 * (q + w) + (r + b)" using i_eq s_eq by simp
    have "bs_bit d (i + s) \<longleftrightarrow> (if r + b < 32 then q + w < length d \<and> bit (d ! (q + w)) (r + b)
        else Suc (q + w) < length d \<and> bit (d ! Suc (q + w)) (r + b - 32))"
    proof (cases "r + b < 32")
      case True
      then show ?thesis using bs_bit_at [OF sum] by simp
    next
      case False
      then have "i + s = 32 * Suc (q + w) + (r + b - 32)" using sum by simp
      from bs_bit_at [OF this] False show ?thesis using r b by simp
    qed
    then show ?thesis using r b
      by (auto simp: e shr_word_def w_def [symmetric] b_def [symmetric] bit_simps not_le
          add.commute [of b r] dest: bit_imp_le_length)
  qed
  then show "bs_bits ?e = {i. i + s \<in> bs_bits d}"
    using bs_bit_bound [of ?e] bs_bit_bound [of d] by fastforce
qed

section \<open>Arithmetic\<close>

lemma bs_minus_0 [simp]: "bs_minus d 0 = d"
  by (cases d) auto

lemma length_bs_minus [simp]: "length (bs_minus d s) = length d"
  by (induction d s rule: bs_minus.induct) auto

lemma uint_minus_borrow:
  fixes v s :: u32
  shows "uint (v - s) = uint v - uint s + (if s \<le> v then 0 else 2 ^ word_bits)"
  by (simp add: uint_sub_if_size word_le_def word_size)

lemma bs_int_minus:
  "bs_int (bs_minus d s) =
     bs_int d - uint s + (if uint s \<le> bs_int d then 0 else 2 ^ (word_bits * length d))
   \<or> d = []"
proof (induction d s rule: bs_minus.induct)
  case (2 v vs s)
  have nn: "0 \<le> bs_int vs" by (rule bs_int_nonneg)
  have us: "uint s < 2 ^ 32" using uint_lt2p [of s] by simp
  show ?case
  proof (cases "s \<le> v")
    case True
    then have "uint s \<le> uint v" by (simp add: word_le_def)
    moreover have "0 \<le> 2 ^ 32 * bs_int vs" using nn by simp
    ultimately have "uint s \<le> uint v + 2 ^ 32 * bs_int vs" by linarith
    with True show ?thesis by (auto simp: uint_minus_borrow)
  next
    case False
    then have sv: "uint v < uint s" by (simp add: word_le_def)
    then have s0: "s \<noteq> 0" by auto
    show ?thesis
    proof (cases vs)
      case Nil
      then show ?thesis using False sv s0 by (simp add: uint_minus_borrow)
    next
      case (Cons a list)
      have IH: "bs_int (bs_minus vs 1) = bs_int vs - 1
          + (if 1 \<le> bs_int vs then 0 else 2 ^ (32 * length vs))"
        using 2(2) [OF s0] False Cons by simp
      have "uint s \<le> uint v + 2 ^ 32 * bs_int vs \<longleftrightarrow> 1 \<le> bs_int vs"
      proof (cases "1 \<le> bs_int vs")
        case True
        then have "2 ^ 32 * 1 \<le> 2 ^ 32 * bs_int vs" by (intro mult_left_mono) simp_all
        with True us show ?thesis using uint_nonnegative [of v] by linarith
      next
        case False
        then have "bs_int vs = 0" using nn by linarith
        with False sv show ?thesis by simp
      qed
      then show ?thesis using False s0
        by (auto simp: uint_minus_borrow IH algebra_simps power_add)
    qed
  qed
qed simp

lemma bs_int_minus_mod:
  assumes "d \<noteq> []"
  shows "bs_int (bs_minus d s) = (bs_int d - uint s) mod 2 ^ (word_bits * length d)"
proof -
  have us: "uint s < 2 ^ 32" using uint_lt2p [of s] by simp
  also have "(2 :: int) ^ 32 \<le> 2 ^ (32 * length d)" using assms
    by (intro power_increasing) (simp_all add: Suc_le_eq)
  finally have us: "uint s < 2 ^ (32 * length d)" .
  show ?thesis
  proof (cases "uint s \<le> bs_int d")
    case True
    then have "0 \<le> bs_int d - uint s" "bs_int d - uint s < 2 ^ (32 * length d)"
      using bs_int_less [of d] uint_nonnegative [of s] by linarith+
    then show ?thesis using bs_int_minus [of d s] assms True by (simp add: mod_pos_pos_trivial)
  next
    case False
    let ?M = "2 ^ (32 * length d) :: int"
    have "0 \<le> bs_int d - uint s + ?M" "bs_int d - uint s + ?M < ?M"
      using False us bs_int_nonneg [of d] by linarith+
    then have "(bs_int d - uint s + ?M) mod ?M = bs_int d - uint s + ?M"
      by (rule mod_pos_pos_trivial)
    then show ?thesis using bs_int_minus [of d s] assms False by simp
  qed
qed

text \<open>
  Negation.  With one word it is two's complement negation.  With two words the loop carries
  \<open>1\<close> into the second word whatever the first one was, so the result is right exactly when
  the first word is not zero.
\<close>

lemma length_bs_neg_loop [simp]: "length (bs_neg_loop c d) = length d"
  by (induction c d rule: bs_neg_loop.induct) (auto simp: Let_def)

lemma bs_uminus_one: "bs_uminus [v] = [- v]"
  by (simp add: bs_uminus_def)

lemma bs_uminus_two: "bs_uminus [v, w] = [- v, NOT w]"
proof -
  have "- (w + 1) = NOT w" by (simp add: not_eq_complement)
  then show ?thesis by (simp add: bs_uminus_def add.commute)
qed

lemma uint_not: "uint (NOT w) = 2 ^ word_bits - 1 - uint w" for w :: u32
  by (simp add: unsigned_not_eq take_bit_not_eq_mask_diff mask_eq_exp_minus_1 bintr_uint)

lemma uint_uminus: "uint (- v) = (if v = 0 then 0 else 2 ^ word_bits - uint v)" for v :: u32
proof (cases "v = 0")
  case False
  then have "0 < uint v" "uint v < 2 ^ 32"
    using uint_lt2p [of v] by (auto simp: uint_nonnegative order_less_le uint_0_iff)
  then have "(- uint v) mod 2 ^ 32 = 2 ^ 32 - uint v"
    by (subst zmod_zminus1_eq_if) simp
  with False show ?thesis by (simp add: uint_word_ariths(4))
qed simp

lemma bs_int_uminus_two:
  "bs_int (bs_uminus [v, w]) = (- bs_int [v, w]) mod 2 ^ (2 * word_bits) \<longleftrightarrow> v \<noteq> 0"
proof -
  let ?x = "uint v + 2 ^ 32 * uint w" and ?M = "2 ^ (2 * 32) :: int"
  have uv: "uint v < 2 ^ 32" and uw: "uint w < 2 ^ 32" and nv: "0 \<le> uint v" and nw: "0 \<le> uint w"
    using uint_lt2p [of v] uint_lt2p [of w] by simp_all
  have x: "0 \<le> ?x" "?x < ?M" using bs_int_less [of "[v, w]"] nv nw by simp_all
  have neg: "(- ?x) mod ?M = (if ?x = 0 then 0 else ?M - ?x)"
    using x by (rule uminus_mod_int)
  have lhs: "bs_int (bs_uminus [v, w]) = (if v = 0 then 0 else 2 ^ 32 - uint v) + 2 ^ 32 * (2 ^ 32 - 1 - uint w)"
    by (simp only: bs_uminus_two bs_int.simps uint_not uint_uminus mult_zero_right add_0_right)
  show ?thesis
  proof (cases "v = 0")
    case True
    then have "?x = 2 ^ 32 * uint w" by simp
    then show ?thesis using True lhs neg nw uw by (auto simp: algebra_simps)
  next
    case False
    then have "0 < uint v" using nv by (simp add: order_less_le uint_0_iff)
    then have "0 < ?x" using nw by (intro add_pos_nonneg) simp_all
    then have "?x \<noteq> 0" by linarith
    then show ?thesis using False lhs neg by simp
  qed
qed

section \<open>Counting and extreme bits\<close>

lemma finite_bs_bits [simp]: "finite (bs_bits d)"
  by (rule finite_subset [of _ "{..<32 * length d}"]) (auto dest: bs_bit_bound)

lemma bs_bits_Cons: "bs_bits (v # vs) = bits v \<union> (\<lambda>i. i + word_bits) ` bs_bits vs"
proof (rule set_eqI)
  fix i
  have "i \<in> (\<lambda>i. i + 32) ` bs_bits vs \<longleftrightarrow> 32 \<le> i \<and> bs_bit vs (i - 32)"
    by (auto simp: image_iff intro!: bexI [of _ "i - 32"])
  then show "i \<in> bs_bits (v # vs) \<longleftrightarrow> i \<in> bits v \<union> (\<lambda>i. i + 32) ` bs_bits vs"
    using bit_imp_le_length [of v i] by auto
qed

lemma popcount_card: "builtin_popcount v = card (bits v)"
proof -
  have "set (filter (bit v) [0..<32]) = bits v"
    using bit_imp_le_length [of v] by auto
  moreover have "distinct (filter (bit v) [0..<32])" by simp
  ultimately show ?thesis unfolding builtin_popcount_def by (metis distinct_card)
qed

lemma bs_count_card: "bs_count d = card (bs_bits d)"
proof (induction d)
  case (Cons v vs)
  have "bits v \<inter> (\<lambda>i. i + 32) ` bs_bits vs = {}"
    using bit_imp_le_length [of v] by fastforce
  then have "card (bs_bits (v # vs)) = card (bits v) + card ((\<lambda>i. i + 32) ` bs_bits vs)"
    unfolding bs_bits_Cons by (intro card_Un_disjoint) auto
  also have "card ((\<lambda>i. i + 32) ` bs_bits vs) = card (bs_bits vs)"
    by (rule card_image) (simp add: inj_on_def)
  finally show ?case using Cons.IH by (simp add: popcount_card)
qed (simp add: bs_bits_def)

lemma takeWhile_upt:
  assumes "k < n" and "P k" and "\<forall>j<k. \<not> P j"
  shows "takeWhile (\<lambda>i. \<not> P i) [0..<n] = [0..<k]"
proof -
  have "[0..<n] = [0..<k] @ k # [Suc k..<n]"
    using assms(1) by (metis le0 less_imp_le_nat upt_add_eq_append upt_conv_Cons le_add_diff_inverse)
  then show ?thesis using assms(2,3) by (auto simp: takeWhile_append)
qed

lemma takeWhile_rev_upt:
  assumes "k < n" and "P k" and "\<forall>j>k. \<not> P j"
  shows "takeWhile (\<lambda>i. \<not> P i) (rev [0..<n]) = rev [Suc k..<n]"
proof -
  have "[0..<n] = [0..<k] @ k # [Suc k..<n]"
    using assms(1) by (metis le0 less_imp_le_nat upt_add_eq_append upt_conv_Cons le_add_diff_inverse)
  then show ?thesis using assms(2,3) by (auto simp: takeWhile_append)
qed

lemma builtin_ctz:
  assumes "v \<noteq> 0"
  shows "bit v (builtin_ctz v) \<and> (\<forall>j < builtin_ctz v. \<not> bit v j)"
proof -
  obtain i where "bit v i" using assms word_nonzero_bit by blast
  then obtain k where k: "bit v k" "\<forall>j<k. \<not> bit v j"
    using exists_least_iff [of "bit v"] by blast
  then have "k < 32" using bit_imp_le_length [of v k] by simp
  with k show ?thesis by (simp add: builtin_ctz_def takeWhile_upt)
qed

lemma builtin_clz:
  assumes "v \<noteq> 0"
  shows "builtin_clz v < word_bits \<and> bit v (word_bits - Suc (builtin_clz v))
    \<and> (\<forall>j > word_bits - Suc (builtin_clz v). \<not> bit v j)"
proof -
  define k where "k = Max (bits v)"
  have "bits v \<noteq> {}" using assms by simp
  then have k: "bit v k" "\<forall>j>k. \<not> bit v j"
    unfolding k_def using Max_in [of "bits v"] Max_ge [of "bits v"] by (auto simp: not_less [symmetric])
  then have "k < 32" using bit_imp_le_length [of v k] by simp
  with k have "builtin_clz v = 31 - k" by (simp add: builtin_clz_def takeWhile_rev_upt)
  with k \<open>k < 32\<close> show ?thesis by simp
qed

lemma bs_lowest_loop:
  "bs_bool d \<Longrightarrow> \<exists>k. bs_lowest_loop res d = res + k \<and> bs_bit d k \<and> (\<forall>j<k. \<not> bs_bit d j)"
proof (induction d arbitrary: res)
  case (Cons v vs)
  show ?case
  proof (cases "v = 0")
    case True
    with Cons.prems have "bs_bool vs" by simp
    from Cons.IH [OF this, of "res + 32"] obtain k where
      "bs_lowest_loop (res + 32) vs = res + 32 + k" "bs_bit vs k" "\<forall>j<k. \<not> bs_bit vs j" by blast
    then show ?thesis using True by (intro exI [of _ "k + 32"]) auto
  next
    case False
    note ctz = builtin_ctz [OF False]
    then have "builtin_ctz v < 32" using bit_imp_le_length [of v "builtin_ctz v"] by simp
    with False ctz show ?thesis by (intro exI [of _ "builtin_ctz v"]) auto
  qed
qed simp

lemma bs_lowest_Min: "bs_bool d \<Longrightarrow> bs_lowest d = Min (bs_bits d)"
proof -
  assume "bs_bool d"
  from bs_lowest_loop [OF this, of 0] have "bs_bit d (bs_lowest d)" "\<forall>j<bs_lowest d. \<not> bs_bit d j"
    by (auto simp: bs_lowest_def)
  then show ?thesis by (intro Min_eqI [symmetric]) (auto simp: not_less [symmetric])
qed

lemma bs_bit_append:
  "bs_bit (d @ e) i = (if i < word_bits * length d then bs_bit d i else bs_bit e (i - word_bits * length d))"
proof (induction d arbitrary: i)
  case (Cons v vs)
  show ?case
  proof (cases "i < 32")
    case False
    then have "i - 32 < 32 * length vs \<longleftrightarrow> i < 32 * length (v # vs)"
      and "i - 32 - 32 * length vs = i - 32 * length (v # vs)" by auto
    with False Cons.IH [of "i - 32"] show ?thesis by simp
  qed simp
qed simp

lemma bs_bool_append [simp]: "bs_bool (d @ e) \<longleftrightarrow> bs_bool d \<or> bs_bool e"
  by (induction d) auto

lemma bs_highest_loop:
  "bs_bool d \<Longrightarrow> bs_bit d (bs_highest_loop (rev d)) \<and> (\<forall>j > bs_highest_loop (rev d). \<not> bs_bit d j)"
proof (induction d rule: rev_induct)
  case (snoc v vs)
  show ?case
  proof (cases "v = 0")
    case True
    with snoc show ?thesis by (auto simp: bs_bit_append dest: bs_bit_bound)
  next
    case False
    define k where "k = 32 - Suc (builtin_clz v)"
    have k: "k < 32" "bit v k" "\<forall>j>k. \<not> bit v j"
      and "bs_highest_loop (rev (vs @ [v])) = 32 * length vs + k"
      using False builtin_clz [OF False] by (simp_all add: k_def)
    moreover have "bs_bit (vs @ [v]) (32 * length vs + k)"
      using k by (simp add: bs_bit_append)
    moreover have "\<not> bs_bit (vs @ [v]) j" if "j > 32 * length vs + k" for j
      using k that by (auto simp: bs_bit_append)
    ultimately show ?thesis by simp
  qed
qed simp

lemma bs_highest_Max: "bs_bool d \<Longrightarrow> bs_highest d = Max (bs_bits d)"
  using bs_highest_loop [of d]
  by (intro Max_eqI [symmetric]) (auto simp: bs_highest_def not_less [symmetric])

section \<open>The interface the acceptance marks rely on\<close>

text \<open>
  What class \<open>mark_t\<close> uses of a bit vector: the bitwise connectives, the two constants and
  the test for emptiness, specified by the set of bit numbers a vector holds.
\<close>

locale bit_vector =
  fixes ok :: "'b \<Rightarrow> bool" and elems :: "'b \<Rightarrow> nat set" and width :: nat
    and zero ones :: 'b and test :: "'b \<Rightarrow> bool"
    and conj disj xor :: "'b \<Rightarrow> 'b \<Rightarrow> 'b" and compl :: "'b \<Rightarrow> 'b"
  assumes ok_zero: "ok zero" and ok_ones: "ok ones"
    and ok_conj: "ok x \<Longrightarrow> ok y \<Longrightarrow> ok (conj x y)" and ok_disj: "ok x \<Longrightarrow> ok y \<Longrightarrow> ok (disj x y)"
    and ok_xor: "ok x \<Longrightarrow> ok y \<Longrightarrow> ok (xor x y)" and ok_compl: "ok x \<Longrightarrow> ok (compl x)"
    and elems_zero: "elems zero = {}" and elems_ones: "elems ones = {..<width}"
    and elems_conj: "ok x \<Longrightarrow> ok y \<Longrightarrow> elems (conj x y) = elems x \<inter> elems y"
    and elems_disj: "ok x \<Longrightarrow> ok y \<Longrightarrow> elems (disj x y) = elems x \<union> elems y"
    and elems_xor: "ok x \<Longrightarrow> ok y \<Longrightarrow> elems (xor x y) = (elems x - elems y) \<union> (elems y - elems x)"
    and elems_compl: "ok x \<Longrightarrow> elems (compl x) = {..<width} - elems x"
    and elems_width: "ok x \<Longrightarrow> elems x \<subseteq> {..<width}"
    and elems_inject: "ok x \<Longrightarrow> ok y \<Longrightarrow> elems x = elems y \<Longrightarrow> x = y"
    and test_iff: "ok x \<Longrightarrow> test x \<longleftrightarrow> elems x \<noteq> {}"
begin

lemma elems_minus: "ok x \<Longrightarrow> ok y \<Longrightarrow> elems (conj x (compl y)) = elems x - elems y"
  using elems_width by (auto simp: elems_conj elems_compl ok_compl)

lemma subset_test: "ok x \<Longrightarrow> ok y \<Longrightarrow> \<not> test (conj x (compl y)) \<longleftrightarrow> elems x \<subseteq> elems y"
  by (auto simp: test_iff ok_conj ok_compl elems_minus)

lemma compl_within: "ok x \<Longrightarrow> ok y \<Longrightarrow> elems y \<subseteq> elems x \<Longrightarrow> elems (xor x y) = elems x - elems y"
  by (auto simp: elems_xor)

end

text \<open>
  Two bit vectors of one width, and a representation of the first by the second that keeps
  the elements: every operation is then computed on the representation.
\<close>

locale bit_vector_rep =
  a: bit_vector ok elems width zero ones test conj disj xor compl +
  c: bit_vector ok' elems' width zero' ones' test' conj' disj' xor' compl'
  for ok :: "'b \<Rightarrow> bool" and elems width zero ones test conj disj xor compl
    and ok' :: "'c \<Rightarrow> bool" and elems' zero' ones' test' conj' disj' xor' compl' +
  fixes rep :: "'b \<Rightarrow> 'c"
  assumes rep_ok: "ok x \<Longrightarrow> ok' (rep x)" and rep_elems: "ok x \<Longrightarrow> elems' (rep x) = elems x"
begin

lemma rep_eqI: "ok x \<Longrightarrow> ok' y \<Longrightarrow> elems' y = elems x \<Longrightarrow> rep x = y"
  by (simp add: c.elems_inject rep_ok rep_elems)

lemma rep_conj: "ok x \<Longrightarrow> ok y \<Longrightarrow> rep (conj x y) = conj' (rep x) (rep y)"
  by (simp add: rep_eqI a.ok_conj c.ok_conj rep_ok rep_elems c.elems_conj a.elems_conj)

lemma rep_disj: "ok x \<Longrightarrow> ok y \<Longrightarrow> rep (disj x y) = disj' (rep x) (rep y)"
  by (simp add: rep_eqI a.ok_disj c.ok_disj rep_ok rep_elems c.elems_disj a.elems_disj)

lemma rep_xor: "ok x \<Longrightarrow> ok y \<Longrightarrow> rep (xor x y) = xor' (rep x) (rep y)"
  by (simp add: rep_eqI a.ok_xor c.ok_xor rep_ok rep_elems c.elems_xor a.elems_xor)

lemma rep_compl: "ok x \<Longrightarrow> rep (compl x) = compl' (rep x)"
  by (simp add: rep_eqI a.ok_compl c.ok_compl rep_ok rep_elems c.elems_compl a.elems_compl)

lemma rep_constants: "rep zero = zero'" "rep ones = ones'"
  by (simp_all add: rep_eqI a.ok_zero c.ok_zero a.ok_ones c.ok_ones a.elems_zero c.elems_zero
      a.elems_ones c.elems_ones)

lemma rep_test: "ok x \<Longrightarrow> test x = test' (rep x)"
  by (simp add: a.test_iff c.test_iff rep_ok rep_elems)

lemma rep_inject: "ok x \<Longrightarrow> ok y \<Longrightarrow> rep x = rep y \<longleftrightarrow> x = y"
  using a.elems_inject rep_elems by metis

end

interpretation words: bit_vector "\<lambda>_. True" bits "LENGTH('n::len)" "0 :: 'n word" "NOT 0" "\<lambda>w. w \<noteq> 0"
  "(AND)" "(OR)" "(XOR)" NOT
  by unfold_locales (auto simp: bits_xor bits_not bits_inject dest: bits_bound)

lemma bs_bit_bound_Suc: "bs_bit d i \<Longrightarrow> length d = Suc n \<Longrightarrow> i < word_bits + word_bits * n"
  using bs_bit_bound [of d i] by simp

interpretation bitsets: bit_vector "\<lambda>d. length d = Suc n" bs_bits "word_bits * Suc n" "bs_zero (Suc n)"
  "bs_mone (Suc n)" bs_bool bs_and bs_or bs_xor bs_not for n
  by unfold_locales (auto simp: bs_bits_zero bs_bits_mone bs_bits_and bs_bits_or bs_bits_xor
      bs_bits_not bs_bool_iff bs_bits_eqI dest: bs_bit_bound_Suc)

section \<open>Properties of bit sets\<close>

text \<open>
  For every number of words, the two shifts, which move whole words and then
  carry bits between neighbours, move each bit by the shift count; bits that leave the
  \<open>N * 32\<close> positions are dropped.
\<close>

theorem bs_shifts:
  assumes "s < word_bits * length d"
  shows "(\<exists>e. bs_shl d s = Inr e \<and> length e = length d
      \<and> bs_bits e = {i. s \<le> i \<and> i < word_bits * length d \<and> i - s \<in> bs_bits d})
    \<and> (\<exists>e. bs_shr d s = Inr e \<and> length e = length d \<and> bs_bits e = {i. i + s \<in> bs_bits d})"
  using bs_shl_bits [OF assms] bs_shr_bits [OF assms] by blast

theorem bs_shifts_witness:
  "\<exists>e. bs_shl [0xF0000000, 1] 40 = Inr e \<and> length e = 2"
  using bs_shifts [of 40 "[0xF0000000, 1]"] by auto

text \<open>
  Subtraction of one word from a bit set is subtraction modulo \<open>2 ^ (N * 32)\<close> of
  the numbers they denote.
\<close>

theorem bs_minus_modular:
  assumes "d \<noteq> []"
  shows "bs_int (bs_minus d s) = (bs_int d - uint s) mod 2 ^ (word_bits * length d)"
  by (rule bs_int_minus_mod [OF assms])

theorem bs_minus_modular_witness:
  "bs_int (bs_minus [0, 0] 1) = 2 ^ 64 - 1"
  using bs_minus_modular [of "[0, 0]" 1] by simp

text \<open>
  Property C36: unary minus is two's complement negation for one word.  For two words it is
  so exactly when the low word is not zero, since the carry of the loop is always one.
\<close>

theorem bs_uminus_carry:
  "bs_int (bs_uminus [v]) = (- bs_int [v]) mod 2 ^ word_bits
   \<and> (bs_int (bs_uminus [v, w]) = (- bs_int [v, w]) mod 2 ^ (2 * word_bits) \<longleftrightarrow> v \<noteq> 0)"
proof
  show "bs_int (bs_uminus [v]) = (- bs_int [v]) mod 2 ^ word_bits"
    by (simp add: bs_uminus_one uint_word_ariths)
qed (rule bs_int_uminus_two)

text \<open>
  \<open>count\<close>, \<open>highest\<close> and \<open>lowest\<close> are the cardinality, the maximum and the minimum
  of the set of bit numbers, and \<open>set\<close> and \<open>clear\<close> insert and delete one number.
\<close>

theorem bs_set_view:
  assumes "s < word_bits * length d"
  shows "bs_count d = card (bs_bits d)
    \<and> (bs_bits d \<noteq> {} \<longrightarrow> bs_highest d = Max (bs_bits d) \<and> bs_lowest d = Min (bs_bits d))
    \<and> (\<exists>e. bs_set d s = Inr e \<and> length e = length d \<and> bs_bits e = insert s (bs_bits d))
    \<and> (\<exists>e. bs_clear d s = Inr e \<and> length e = length d \<and> bs_bits e = bs_bits d - {s})"
  using bs_count_card [of d] bs_highest_Max [of d] bs_lowest_Min [of d] bs_bool_iff [of d]
    bs_set_bits [OF assms] bs_clear_bits [OF assms] by blast

theorem bs_set_view_witness:
  "\<exists>e. bs_set [0, 0] 40 = Inr e \<and> bs_bits e = insert 40 (bs_bits [0, 0])"
  using bs_set_view [of 40 "[0, 0]"] by auto

end
