(* ===== verification/Mark.thy ===== *)
theory Mark
  imports Bitset
begin

unbundle bit_operations_syntax

text \<open>
  Acceptance marks, class \<^verbatim>\<open>acc_cond::mark_t\<close> of \<^verbatim>\<open>spot/twa/acc.hh\<close>.  A mark is a set
  of acceptance set numbers kept in a bit set of \<^verbatim>\<open>SPOT_MAX_ACCSETS\<close> bits, a constant
  fixed when Spot is configured.  The model is polymorphic in that constant: a mark is an
  \<open>'n word\<close>, and \<open>LENGTH('n)\<close> is \<open>max_accsets()\<close>.  The field \<open>id\<close>, the array of \<open>32\<close>-bit words
  of \<^verbatim>\<open>bitset.hh\<close>, is \<open>mark_id\<close>; the refinement lemmas at the end of the theory show that
  every operation below is computed on \<open>id\<close> by the operation of class \<open>bitset\<close>, for every
  configuration \<^verbatim>\<open>configure\<close> allows (a multiple of \<open>32\<close>).
\<close>

datatype acc_error =
    Too_many_sets                \<comment> \<open>\<open>report_too_many_sets()\<close>\<close>
  | Fin_not_supported            \<comment> \<open>\<open>accepting_sets()\<close> on an acceptance that uses \<open>Fin\<close>\<close>
  | Syntax_error string          \<comment> \<open>\<open>parse_error\<close>, with the input at which it is raised\<close>
  | Unknown_option char          \<comment> \<open>\<open>acc_cond::name()\<close>\<close>
  | Unreachable                  \<comment> \<open>\<open>SPOT_UNREACHABLE()\<close>\<close>

type_synonym 'n mark_t = "'n word"

definition max_accsets :: "'n::len itself \<Rightarrow> nat" where
  "max_accsets TYPE('n) = LENGTH('n)"

definition mark_id :: "'n::len mark_t \<Rightarrow> bitset" where
  "mark_id m = map (\<lambda>i. ucast (drop_bit (word_bits * i) m)) [0..<LENGTH('n) div word_bits]"

definition mark_set :: "'n::len mark_t \<Rightarrow> nat \<Rightarrow> 'n mark_t" where
  "mark_set m u = m OR push_bit u 1"

definition mark_clear :: "'n::len mark_t \<Rightarrow> nat \<Rightarrow> 'n mark_t" where
  "mark_clear m u = m AND NOT (push_bit u 1)"

fun mark_of_range :: "'n::len mark_t \<Rightarrow> nat list \<Rightarrow> acc_error + 'n mark_t" where
  "mark_of_range m [] = Inr m"
| "mark_of_range m (i # is) = (if i < LENGTH('n) then mark_of_range (mark_set m i) is else Inl Too_many_sets)"

definition mark_t :: "nat list \<Rightarrow> acc_error + 'n::len mark_t" where
  "mark_t vals = mark_of_range 0 vals"

definition mark_all :: "'n::len mark_t" where
  "mark_all = NOT 0"

definition mark_less :: "'n::len mark_t \<Rightarrow> 'n mark_t \<Rightarrow> bool" where
  "mark_less m o' = bs_less (mark_id m) (mark_id o')"

definition mark_less_eq :: "'n::len mark_t \<Rightarrow> 'n mark_t \<Rightarrow> bool" where
  "mark_less_eq m o' = bs_less_eq (mark_id m) (mark_id o')"

definition mark_has :: "'n::len mark_t \<Rightarrow> nat \<Rightarrow> bool" where
  "mark_has m u \<longleftrightarrow> m AND push_bit u 1 \<noteq> 0"

definition mark_minus :: "'n::len mark_t \<Rightarrow> 'n mark_t \<Rightarrow> 'n mark_t" where
  "mark_minus m r = m AND NOT r"

definition mark_shl :: "'n::len mark_t \<Rightarrow> nat \<Rightarrow> acc_error + 'n mark_t" where
  "mark_shl m i = (if i \<ge> LENGTH('n) then Inl Too_many_sets else Inr (push_bit i m))"

definition mark_shr :: "'n::len mark_t \<Rightarrow> nat \<Rightarrow> acc_error + 'n mark_t" where
  "mark_shr m i = (if i \<ge> LENGTH('n) then Inl Too_many_sets else Inr (drop_bit i m))"

definition mark_subset :: "'n::len mark_t \<Rightarrow> 'n mark_t \<Rightarrow> bool" where
  "mark_subset m o' \<longleftrightarrow> \<not> (mark_minus m o' \<noteq> 0)"

definition mark_proper_subset :: "'n::len mark_t \<Rightarrow> 'n mark_t \<Rightarrow> bool" where
  "mark_proper_subset m o' \<longleftrightarrow> m \<noteq> o' \<and> mark_subset m o'"

definition mark_count :: "'n::len mark_t \<Rightarrow> nat" where
  "mark_count m = length (filter (bit m) [0..<LENGTH('n)])"

definition mark_max_set :: "'n::len mark_t \<Rightarrow> nat" where
  "mark_max_set m = (if m \<noteq> 0 then last (filter (bit m) [0..<LENGTH('n)]) + 1 else 0)"

definition mark_min_set :: "'n::len mark_t \<Rightarrow> nat" where
  "mark_min_set m = (if m \<noteq> 0 then hd (filter (bit m) [0..<LENGTH('n)]) + 1 else 0)"

definition mark_lowest :: "bitset \<Rightarrow> bitset" where
  "mark_lowest id' = bs_and id' (bs_uminus id')"

definition mark_is_singleton :: "'n::len mark_t \<Rightarrow> bool" where
  "mark_is_singleton m \<longleftrightarrow> mark_count m = 1"

definition mark_has_many :: "'n::len mark_t \<Rightarrow> bool" where
  "mark_has_many m \<longleftrightarrow> mark_count m > 1"

fun mark_remove_some :: "'n::len mark_t \<Rightarrow> nat \<Rightarrow> 'n mark_t" where
  "mark_remove_some m 0 = m"
| "mark_remove_some m (Suc n) = mark_remove_some (m AND (m - 1)) n"

section \<open>Membership\<close>

lemma bit_mark_set [simp]: "bit (mark_set m u) i \<longleftrightarrow> bit m i \<or> (i = u \<and> i < LENGTH('n))"
  for m :: "'n::len mark_t"
  by (auto simp: mark_set_def bit_simps)

lemma bit_mark_clear [simp]: "bit (mark_clear m u) i \<longleftrightarrow> bit m i \<and> i \<noteq> u"
  by (auto simp: mark_clear_def bit_simps dest: bit_imp_le_length)

lemma bits_mark_clear [simp]: "bits (mark_clear m u) = bits m - {u}"
  by (auto simp: bits_def)

lemma bits_mark_set: "u < LENGTH('n) \<Longrightarrow> bits (mark_set m u) = insert u (bits m)"
  for m :: "'n::len mark_t"
  by (auto simp: bits_def)

lemma mark_has_bit [simp]: "mark_has m u \<longleftrightarrow> bit m u"
  by (auto simp: mark_has_def word_nonzero_bit bit_simps dest: bit_imp_le_length)

lemma bits_mark_minus [simp]: "bits (mark_minus m r) = bits m - bits r"
  by (simp add: mark_minus_def del: bits_and)

lemma bit_mark_minus [simp]: "bit (mark_minus m r) i \<longleftrightarrow> bit m i \<and> \<not> bit r i"
  by (auto simp: mark_minus_def bit_simps bit_imp_le_length)

lemma bits_mark_all [simp]: "bits (mark_all :: 'n::len mark_t) = {..<LENGTH('n)}"
  by (auto simp: mark_all_def bits_def bit_simps)

lemma mark_subset_iff: "mark_subset m r \<longleftrightarrow> bits m \<subseteq> bits r"
  by (auto simp: mark_subset_def simp flip: bits_empty_iff)

lemma mark_proper_subset_iff: "mark_proper_subset m r \<longleftrightarrow> bits m \<subset> bits r"
  by (auto simp: mark_proper_subset_def mark_subset_iff bits_inject)

lemma mark_of_range_ok:
  "\<forall>i\<in>set is. i < LENGTH('n) \<Longrightarrow> \<exists>r. mark_of_range m is = Inr r \<and> bits r = bits m \<union> set is"
  for m :: "'n::len mark_t"
  by (induction m "is" rule: mark_of_range.induct) (auto simp: bits_mark_set)

lemma mark_of_range_too_many:
  "\<exists>i\<in>set is. i \<ge> LENGTH('n) \<Longrightarrow> mark_of_range m is = Inl Too_many_sets" for m :: "'n::len mark_t"
  by (induction m "is" rule: mark_of_range.induct) auto

lemma mark_t_singleton [simp]:
  "mark_t [u] = (if u < LENGTH('n) then Inr (2 ^ u :: 'n::len mark_t) else Inl Too_many_sets)"
  by (simp add: mark_t_def mark_set_def)

lemma mark_t_Nil [simp]: "mark_t [] = Inr 0"
  by (simp add: mark_t_def)

lemma bits_exp [simp]: "u < LENGTH('n) \<Longrightarrow> bits (2 ^ u :: 'n::len word) = {u}"
  by (auto simp: bits_def bit_simps)

section \<open>Counting and extreme sets\<close>

lemma filter_bits_sorted: "filter (bit m) [0..<LENGTH('n)] = sorted_list_of_set (bits m)"
  for m :: "'n::len mark_t"
proof (rule sorted_distinct_set_unique)
  show "set (filter (bit m) [0..<LENGTH('n)]) = set (sorted_list_of_set (bits m))"
    by (auto dest: bit_imp_le_length)
qed (auto intro: sorted_wrt_filter)

lemma mark_count_card: "mark_count m = card (bits m)"
  by (simp add: mark_count_def filter_bits_sorted)

lemma mark_is_singleton_iff: "mark_is_singleton m \<longleftrightarrow> (\<exists>i. bits m = {i})"
  by (simp add: mark_is_singleton_def mark_count_card card_1_singleton_iff)

lemma mark_is_singletonE:
  assumes "mark_is_singleton (m :: 'n::len mark_t)"
  obtains i where "i < LENGTH('n)" and "m = 2 ^ i" and "bits m = {i}"
proof -
  from assms obtain i where i: "bits m = {i}" by (auto simp: mark_is_singleton_iff)
  then have "i < LENGTH('n)" using bits_bound [of i m] by simp
  then show ?thesis using i that by (metis bits_inject bits_exp)
qed

lemma mark_is_singleton_exp [simp]: "u < LENGTH('n) \<Longrightarrow> mark_is_singleton (2 ^ u :: 'n::len mark_t)"
  by (simp add: mark_is_singleton_iff)

lemma hd_sorted_list_Min: "finite A \<Longrightarrow> A \<noteq> {} \<Longrightarrow> hd (sorted_list_of_set A) = Min A"
  for A :: "nat set"
  by (simp add: sorted_list_of_set_nonempty)

lemma last_sorted_list_Max:
  fixes A :: "nat set"
  assumes "finite A" and "A \<noteq> {}"
  shows "last (sorted_list_of_set A) = Max A"
proof -
  let ?xs = "sorted_list_of_set A"
  have ne: "?xs \<noteq> []" using assms by simp
  then have "last ?xs \<in> A" using assms last_in_set [of ?xs] by simp
  moreover have "x \<le> last ?xs" if "x \<in> A" for x
  proof -
    from that assms have "x \<in> set (butlast ?xs @ [last ?xs])" using ne by simp
    moreover have "sorted (butlast ?xs @ [last ?xs])" using ne by simp
    ultimately show ?thesis unfolding sorted_append by auto
  qed
  ultimately show ?thesis using assms(1) by (intro Max_eqI [symmetric]) auto
qed

lemma mark_min_set_Min: "m \<noteq> 0 \<Longrightarrow> mark_min_set m = Suc (Min (bits m))"
  by (simp add: mark_min_set_def filter_bits_sorted hd_sorted_list_Min)

lemma mark_max_set_Max: "m \<noteq> 0 \<Longrightarrow> mark_max_set m = Suc (Max (bits m))"
  by (simp add: mark_max_set_def filter_bits_sorted last_sorted_list_Max)

lemma bit_below_max_set: "bit m i \<Longrightarrow> i < mark_max_set m"
proof -
  assume "bit m i"
  then have "m \<noteq> 0" and "i \<le> Max (bits m)" by auto
  then show ?thesis using mark_max_set_Max [of m] by linarith
qed

lemma max_set_le_length: "mark_max_set m \<le> LENGTH('n)" for m :: "'n::len mark_t"
proof (cases "m = 0")
  case False
  then have "Max (bits m) \<in> bits m" by (intro Max_in) auto
  then have "Max (bits m) < LENGTH('n)" by (rule bits_bound)
  then show ?thesis using mark_max_set_Max [OF False] by linarith
qed (simp add: mark_max_set_def)

text \<open>The lowest set bit of a word, its predecessor and its complement.\<close>

lemma word_split_lowest:
  fixes m :: "'n::len word"
  assumes "bit m l" and "\<forall>j<l. \<not> bit m j"
  obtains h where "m = h + push_bit l 1" and "m - 1 = h OR mask l" and "- m = NOT (h OR mask l)"
    and "\<And>i. bit h i \<longleftrightarrow> bit m i \<and> i \<noteq> l"
proof -
  define h where "h = m AND NOT (push_bit l 1)"
  have h: "bit h i \<longleftrightarrow> bit m i \<and> i \<noteq> l" for i
    by (auto simp: h_def bit_simps dest: bit_imp_le_length)
  have "l < LENGTH('n)" using assms(1) by (rule bit_imp_le_length)
  then have "m = h OR push_bit l 1"
    using assms(1) by (intro bit_word_eqI) (auto simp: h bit_simps)
  also have "\<dots> = h + push_bit l 1"
    by (rule disjunctive_add [symmetric]) (auto simp: h bit_simps)
  finally have m: "m = h + push_bit l 1" .
  moreover have "h + mask l = h OR mask l"
    by (rule disjunctive_add) (use assms(2) in \<open>auto simp: h bit_simps\<close>)
  then have pred: "m - 1 = h OR mask l"
    unfolding m by (simp add: mask_eq_exp_minus_1 add_diff_eq)
  moreover have "- m = NOT (m - 1)" by (simp add: not_eq_complement)
  ultimately show ?thesis using h that by simp
qed

lemma bit_minus_one:
  fixes m :: "'n::len word"
  assumes "bit m l" and "\<forall>j<l. \<not> bit m j"
  shows "bit (m - 1) i \<longleftrightarrow> (i < l \<or> bit m i \<and> i \<noteq> l)"
proof -
  have "l < LENGTH('n)" using assms(1) by (rule bit_imp_le_length)
  with word_split_lowest [OF assms] show ?thesis by (metis bit_mask_iff bit_or_iff possible_bit_word less_trans)
qed

lemma lowest_bitE:
  assumes "m \<noteq> 0"
  obtains l where "bit m l" and "\<forall>j<l. \<not> bit m j" and "Min (bits m) = l"
proof -
  have "bits m \<noteq> {}" using assms by simp
  then have "Min (bits m) \<in> bits m" by (intro Min_in) auto
  moreover have "\<not> bit m j" if "j < Min (bits m)" for j
    using that Min_le [OF finite_bits, of j m] by (metis mem_bits not_le)
  ultimately show ?thesis using that [of "Min (bits m)"] by simp
qed

lemma bits_and_pred:
  assumes "m \<noteq> 0"
  shows "bits (m AND (m - 1)) = bits m - {Min (bits m)}"
proof -
  obtain l where l: "bit m l" "\<forall>j<l. \<not> bit m j" "Min (bits m) = l"
    using lowest_bitE [OF assms] .
  have "bit (m AND (m - 1)) i \<longleftrightarrow> bit m i \<and> i \<noteq> l" for i
    using l(2) by (auto simp: bit_and_iff bit_minus_one [OF l(1,2)])
  then show ?thesis unfolding l(3) by (simp add: set_eq_iff del: bits_and)
qed

lemma bits_and_uminus:
  assumes "m \<noteq> 0"
  shows "bits (m AND - m) = {Min (bits m)}"
proof -
  obtain l where l: "bit m l" "\<forall>j<l. \<not> bit m j" "Min (bits m) = l"
    using lowest_bitE [OF assms] .
  obtain h where h: "- m = NOT (h OR mask l)" "\<And>i. bit h i \<longleftrightarrow> bit m i \<and> i \<noteq> l"
    using word_split_lowest [OF l(1,2)] by metis
  have "bit (m AND - m) i \<longleftrightarrow> i = l" for i
    unfolding h(1) using l(1,2) bit_imp_le_length [of m i]
    by (auto simp: h(2) bit_and_iff bit_not_iff bit_or_iff bit_mask_iff)
  then show ?thesis unfolding l(3) by (simp add: set_eq_iff del: bits_and)
qed

text \<open>
  \<open>remove_some(n)\<close> removes the \<open>n\<close> smallest set numbers, and leaves nothing when there are
  fewer.
\<close>

lemma mark_remove_some_sets:
  "sorted_list_of_set (bits (mark_remove_some m n)) = drop n (sorted_list_of_set (bits m))"
proof (induction m n rule: mark_remove_some.induct)
  case (2 m n)
  show ?case
  proof (cases "m = 0")
    case False
    then have "sorted_list_of_set (bits m) = Min (bits m) # sorted_list_of_set (bits m - {Min (bits m)})"
      by (intro sorted_list_of_set_nonempty) auto
    with 2 False show ?thesis by (simp add: bits_and_pred del: bits_and)
  qed (use 2 in simp)
qed simp

section \<open>Enumerating the sets of a mark\<close>

text \<open>
  The iterator of \<open>sets()\<close> yields the lowest set number and clears it, until the mark is
  empty; \<open>fill()\<close> shifts the mark right and counts levels.  Both list the set numbers in
  increasing order.
\<close>

function mark_sets :: "'n::len mark_t \<Rightarrow> nat list" where
  "mark_sets m = (if m = 0 then []
     else (mark_min_set m - 1) # mark_sets (mark_clear m (mark_min_set m - 1)))"
  by pat_completeness auto
termination
proof (relation "measure (\<lambda>m. card (bits m))")
  fix m :: "'n::len mark_t" assume "m \<noteq> 0"
  then have "Min (bits m) \<in> bits m" by (intro Min_in) auto
  then have "card (bits m - {Min (bits m)}) < card (bits m)" by (rule card_Diff1_less [OF finite_bits])
  moreover have "mark_min_set m - 1 = Min (bits m)" using mark_min_set_Min [OF \<open>m \<noteq> 0\<close>] by simp
  ultimately show "(mark_clear m (mark_min_set m - 1), m) \<in> measure (\<lambda>m. card (bits m))"
    by (simp only: in_measure bits_mark_clear)
qed simp

declare mark_sets.simps [simp del]

lemma mark_sets_sorted: "mark_sets m = sorted_list_of_set (bits m)"
proof (induction m rule: mark_sets.induct)
  case (1 m)
  show ?case
  proof (cases "m = 0")
    case False
    then have "sorted_list_of_set (bits m) = Min (bits m) # sorted_list_of_set (bits m - {Min (bits m)})"
      by (intro sorted_list_of_set_nonempty) auto
    with 1 False show ?thesis by (subst mark_sets.simps) (simp add: mark_min_set_Min)
  qed (simp add: mark_sets.simps)
qed

lemma set_mark_sets [simp]: "set (mark_sets m) = bits m"
  by (simp add: mark_sets_sorted)

lemma mark_sets_filter [code]: "mark_sets m = filter (bit m) [0..<LENGTH('n)]" for m :: "'n::len mark_t"
  by (simp add: mark_sets_sorted filter_bits_sorted)

lemma mark_sets_eq_Nil [simp]: "mark_sets m = [] \<longleftrightarrow> m = 0"
  by (simp add: mark_sets_sorted)

function mark_fill_loop :: "nat \<Rightarrow> 'n::len mark_t \<Rightarrow> nat list" where
  "mark_fill_loop level a = (if a = 0 then []
     else (if mark_has a 0 then [level] else []) @ mark_fill_loop (Suc level) (drop_bit 1 a))"
  by pat_completeness auto
termination
proof (relation "measure (\<lambda>(level, a). mark_max_set a)")
  fix level and a :: "'n::len mark_t" assume a: "a \<noteq> 0"
  let ?b = "drop_bit 1 a"
  show "((Suc level, ?b), level, a) \<in> measure (\<lambda>(level, a). mark_max_set a)"
  proof (cases "?b = 0")
    case True
    then show ?thesis using a by (simp add: mark_max_set_Max mark_max_set_def)
  next
    case False
    then have "Max (bits ?b) \<in> bits ?b" by (intro Max_in) auto
    then have "bit a (Suc (Max (bits ?b)))" by (simp add: bit_drop_bit_eq)
    then have "Suc (Max (bits ?b)) < mark_max_set a" by (rule bit_below_max_set)
    then show ?thesis using mark_max_set_Max [OF False] by simp
  qed
qed simp

definition mark_fill :: "'n::len mark_t \<Rightarrow> nat list" where
  "mark_fill m = mark_fill_loop 0 m"

declare mark_fill_loop.simps [simp del]

lemma mark_fill_loop_sets: "mark_fill_loop level a = map (\<lambda>i. i + level) (sorted_list_of_set (bits a))"
proof (induction level a rule: mark_fill_loop.induct)
  case (1 level a)
  let ?b = "drop_bit 1 a"
  have img: "bits a = (if bit a 0 then {0} else {}) \<union> Suc ` bits ?b"
  proof (rule set_eqI)
    fix i show "i \<in> bits a \<longleftrightarrow> i \<in> (if bit a 0 then {0} else {}) \<union> Suc ` bits ?b"
      by (cases i) (auto simp: bit_drop_bit_eq)
  qed
  have "map Suc (sorted_list_of_set (bits ?b)) = sorted_list_of_set (Suc ` bits ?b)"
    by (rule sorted_distinct_set_unique)
      (auto simp: sorted_map distinct_map intro: sorted_wrt_mono_rel [OF _ sorted_sorted_list_of_set])
  moreover have "sorted_list_of_set (insert 0 (Suc ` bits ?b)) = 0 # sorted_list_of_set (Suc ` bits ?b)"
    by (subst sorted_list_of_set_insert) (auto simp: insort_is_Cons)
  ultimately have "sorted_list_of_set (bits a)
      = (if bit a 0 then [0] else []) @ map Suc (sorted_list_of_set (bits ?b))"
    by (subst img) auto
  with 1 show ?case by (subst mark_fill_loop.simps) (auto simp: mark_has_bit)
qed

lemma mark_fill_sets: "mark_fill m = mark_sets m"
  by (simp add: mark_fill_def mark_fill_loop_sets mark_sets_sorted)

section \<open>Stripping sets\<close>

text \<open>
  \<open>m.strip(y)\<close> removes the positions of \<open>y\<close> from the bit vector and closes the gaps.
\<close>

function mark_strip :: "'n::len mark_t \<Rightarrow> 'n mark_t \<Rightarrow> 'n mark_t" where
  "mark_strip xv yv =
     (if yv \<noteq> 0 \<and> xv \<noteq> 0 then
        let rm = NOT yv AND (yv - 1);
            lm = NOT (yv XOR (yv - 1))
        in mark_strip (drop_bit 1 (xv AND lm) OR (xv AND rm)) (drop_bit 1 (yv AND lm))
      else xv)"
  by pat_completeness auto

lemma strip_masks:
  fixes y :: "'n::len word"
  assumes "bit y l" and "\<forall>j<l. \<not> bit y j"
  shows "bit (NOT y AND (y - 1)) i \<longleftrightarrow> i < l"
    and "bit (NOT (y XOR (y - 1))) i \<longleftrightarrow> l < i \<and> i < LENGTH('n)"
proof -
  have l: "l < LENGTH('n)" using assms(1) by (rule bit_imp_le_length)
  show "bit (NOT y AND (y - 1)) i \<longleftrightarrow> i < l"
    using assms(2) l by (auto simp: bit_and_iff bit_not_iff bit_minus_one [OF assms] dest: bit_imp_le_length)
  show "bit (NOT (y XOR (y - 1))) i \<longleftrightarrow> l < i \<and> i < LENGTH('n)"
  proof (cases i l rule: linorder_cases)
    case less
    then show ?thesis using assms(2) by (auto simp: bit_xor_iff bit_not_iff bit_minus_one [OF assms])
  qed (use assms l in \<open>auto simp: bit_xor_iff bit_not_iff bit_minus_one [OF assms]\<close>)
qed

lemma bits_strip_step:
  fixes x y lm rm :: "'n::len word"
  assumes "\<And>i. bit rm i \<longleftrightarrow> i < l" and "\<And>i. bit lm i \<longleftrightarrow> l < i \<and> i < LENGTH('n)"
  shows "bits (drop_bit 1 (x AND lm) OR (x AND rm)) = {i. i < l \<and> bit x i} \<union> {i. l \<le> i \<and> bit x (Suc i)}"
    and "bits (drop_bit 1 (y AND lm)) = {i. l \<le> i \<and> bit y (Suc i)}"
  by (auto simp: bits_def bit_simps assms dest: bit_imp_le_length)

lemma card_strip_step:
  fixes y lm :: "'n::len word"
  assumes "bit y l" and "\<forall>j<l. \<not> bit y j" and "\<And>i. bit lm i \<longleftrightarrow> l < i \<and> i < LENGTH('n)"
  shows "card (bits (drop_bit 1 (y AND lm))) < card (bits y)"
proof -
  have "Suc ` bits (drop_bit 1 (y AND lm)) \<subseteq> bits y - {l}"
    by (auto simp: bit_simps assms(3))
  then have "card (Suc ` bits (drop_bit 1 (y AND lm))) \<le> card (bits y - {l})"
    by (intro card_mono) auto
  moreover have "card (bits y - {l}) < card (bits y)"
    using assms(1) by (intro card_Diff1_less) auto
  moreover have "card (Suc ` bits (drop_bit 1 (y AND lm))) = card (bits (drop_bit 1 (y AND lm)))"
    by (rule card_image) simp
  ultimately show ?thesis by linarith
qed

termination mark_strip
proof (relation "measure (\<lambda>(x, y). card (bits y))")
  fix xv yv rm lm :: "'n::len mark_t"
  assume "yv \<noteq> 0 \<and> xv \<noteq> 0" and lm: "lm = NOT (yv XOR (yv - 1))"
  then obtain l where l: "bit yv l" "\<forall>j<l. \<not> bit yv j" using lowest_bitE [of yv] by metis
  have "card (bits (drop_bit 1 (yv AND lm))) < card (bits yv)"
    by (rule card_strip_step [OF l]) (simp only: lm strip_masks(2) [OF l])
  then show "((drop_bit 1 (xv AND lm) OR (xv AND rm), drop_bit 1 (yv AND lm)), xv, yv)
      \<in> measure (\<lambda>(x, y). card (bits y))" by simp
qed simp

declare mark_strip.simps [simp del]

text \<open>
  The number a set gets when the sets of \<open>Y\<close> are taken out of the numbering.
\<close>

definition renumber :: "nat set \<Rightarrow> nat \<Rightarrow> nat" where
  "renumber Y i = i - card {j \<in> Y. j < i}"

lemma renumber_empty [simp]: "renumber {} i = i"
  by (simp add: renumber_def)

lemma renumber_below:
  assumes "\<forall>j\<in>Y. l \<le> j" and "i < l"
  shows "renumber Y i = i"
proof -
  have "{j \<in> Y. j < i} = {}" using assms by auto
  then show ?thesis by (simp only: renumber_def card.empty diff_zero)
qed

lemma renumber_Suc:
  assumes "l \<in> Y" and "\<forall>j\<in>Y. l \<le> j" and "finite Y" and "l \<le> i"
  shows "renumber Y (Suc i) = renumber {i. l \<le> i \<and> Suc i \<in> Y} i"
proof -
  let ?Y = "{i. l \<le> i \<and> Suc i \<in> Y}"
  have "{j \<in> Y. j < Suc i} = insert l (Suc ` {j \<in> ?Y. j < i})"
  proof (rule set_eqI)
    fix j
    have "l \<le> j'" if "Suc j' \<in> Y" "Suc j' \<noteq> l" for j'
      using assms(2) that by (metis le_SucE)
    then show "j \<in> {j \<in> Y. j < Suc i} \<longleftrightarrow> j \<in> insert l (Suc ` {j \<in> ?Y. j < i})"
      using assms by (cases j) (auto simp: image_iff)
  qed
  moreover have "finite {j \<in> ?Y. j < i}" by simp
  moreover have "l \<notin> Suc ` {j \<in> ?Y. j < i}" by auto
  ultimately have "card {j \<in> Y. j < Suc i} = Suc (card {j \<in> ?Y. j < i})"
    by (simp add: card_image)
  then show ?thesis by (simp add: renumber_def)
qed

lemma renumber_image:
  assumes "l \<in> Y" and "\<forall>j\<in>Y. l \<le> j" and "finite Y"
  shows "renumber {i. l \<le> i \<and> Suc i \<in> Y} ` ({i. i < l \<and> i \<in> X} \<union> {i. l \<le> i \<and> Suc i \<in> X}
      - {i. l \<le> i \<and> Suc i \<in> Y}) = renumber Y ` (X - Y)"
proof -
  let ?Y = "{i. l \<le> i \<and> Suc i \<in> Y}" and ?L = "{i. i < l \<and> i \<in> X}"
  let ?H = "{i. l \<le> i \<and> Suc i \<in> X \<and> Suc i \<notin> Y}"
  have "X - Y = ?L \<union> Suc ` ?H"
  proof (rule set_eqI)
    fix j show "j \<in> X - Y \<longleftrightarrow> j \<in> ?L \<union> Suc ` ?H"
    proof (cases "j < l")
      case False
      then have "j \<in> X - Y \<Longrightarrow> \<exists>k. j = Suc k \<and> l \<le> k" using assms(1)
        by (cases j) (auto simp: not_less le_Suc_eq)
      with False show ?thesis by auto
    qed (use assms(2) in auto)
  qed
  moreover have "?L \<union> {i. l \<le> i \<and> Suc i \<in> X} - ?Y = ?L \<union> ?H" by auto
  moreover have "renumber Y ` (?L \<union> Suc ` ?H) = renumber ?Y ` (?L \<union> ?H)"
    unfolding image_Un image_image
    using renumber_below [OF assms(2)] renumber_below [of ?Y l] renumber_Suc [OF assms]
    by (intro arg_cong2 [where f = "(\<union>)"] image_cong) auto
  ultimately show ?thesis by simp
qed

lemma bits_mark_strip: "bits (mark_strip x y) = renumber (bits y) ` (bits x - bits y)"
proof (induction x y rule: mark_strip.induct)
  case (1 x y)
  show ?case
  proof (cases "y \<noteq> 0 \<and> x \<noteq> 0")
    case True
    then obtain l where l: "bit y l" "\<forall>j<l. \<not> bit y j" using lowest_bitE [of y] by metis
    define rm lm where "rm = NOT y AND (y - 1)" and "lm = NOT (y XOR (y - 1))"
    define x' y' where "x' = drop_bit 1 (x AND lm) OR (x AND rm)" and "y' = drop_bit 1 (y AND lm)"
    have rm: "bit rm i \<longleftrightarrow> i < l" and lm: "bit lm i \<longleftrightarrow> l < i \<and> i < LENGTH('a)" for i
      unfolding rm_def lm_def by (rule strip_masks [OF l])+
    have x': "bits x' = {i. i < l \<and> bit x i} \<union> {i. l \<le> i \<and> bit x (Suc i)}"
      and y': "bits y' = {i. l \<le> i \<and> bit y (Suc i)}"
      unfolding x'_def y'_def by (rule bits_strip_step [OF rm lm])+
    have IH: "bits (mark_strip x' y') = renumber (bits y') ` (bits x' - bits y')"
      unfolding x'_def y'_def using 1 [OF True rm_def lm_def] .
    have "mark_strip x y = mark_strip x' y'"
      using True by (subst mark_strip.simps) (simp add: Let_def rm_def lm_def x'_def y'_def)
    also have "bits \<dots> = renumber (bits y) ` (bits x - bits y)"
      unfolding IH x' y' using renumber_image [of l "bits y" "bits x"] l
      by (metis (no_types, lifting) Collect_cong finite_bits mem_bits not_less)
    finally show ?thesis .
  next
    case False
    then show ?thesis by (subst mark_strip.simps) auto
  qed
qed

lemma renumber_strict_mono:
  assumes "finite Y" and "i \<notin> Y" and "i < j"
  shows "renumber Y i < renumber Y j"
proof -
  let ?A = "{k \<in> Y. k < i}" and ?B = "{k \<in> Y. i < k \<and> k < j}"
  have "{k \<in> Y. k < j} = ?A \<union> ?B"
  proof (rule set_eqI)
    fix k show "k \<in> {k \<in> Y. k < j} \<longleftrightarrow> k \<in> ?A \<union> ?B"
      using assms(2,3) by (cases k i rule: linorder_cases) auto
  qed
  moreover have "card (?A \<union> ?B) = card ?A + card ?B"
    using assms(1) by (intro card_Un_disjoint) auto
  moreover have "card ?A \<le> card {..<i}" using assms(1) by (intro card_mono) auto
  moreover have "card ?B \<le> card {i<..<j}" by (intro card_mono) auto
  ultimately show ?thesis using assms(3) by (simp add: renumber_def)
qed

lemma renumber_inject:
  "finite Y \<Longrightarrow> i \<notin> Y \<Longrightarrow> j \<notin> Y \<Longrightarrow> renumber Y i = renumber Y j \<longleftrightarrow> i = j"
  using renumber_strict_mono [of Y i j] renumber_strict_mono [of Y j i]
  by (metis less_irrefl linorder_neqE_nat)

lemma bit_mark_strip_renumber:
  "\<not> bit y i \<Longrightarrow> bit (mark_strip x y) (renumber (bits y) i) \<longleftrightarrow> bit x i"
proof -
  assume i: "\<not> bit y i"
  have "bit (mark_strip x y) (renumber (bits y) i) \<longleftrightarrow> renumber (bits y) i \<in> renumber (bits y) ` (bits x - bits y)"
    by (simp flip: bits_mark_strip)
  also have "\<dots> \<longleftrightarrow> bit x i"
    using i renumber_inject [OF finite_bits, of i y] by (auto simp: image_iff)
  finally show ?thesis .
qed

section \<open>Permutations and printing\<close>

definition apply_permutation :: "'n::len mark_t \<Rightarrow> nat list \<Rightarrow> 'n mark_t" where
  "apply_permutation m permut =
     fold (\<lambda>color result. if color < length permut then mark_set result (permut ! color) else result)
       (mark_sets m) 0"

lemma bit_fold_mark_set:
  "bit (fold (\<lambda>c r. if c < length p then mark_set r (p ! c) else r) cs r) i \<longleftrightarrow>
     bit r i \<or> i < LENGTH('n) \<and> (\<exists>c\<in>set cs. c < length p \<and> p ! c = i)" for r :: "'n::len mark_t"
  by (induction cs arbitrary: r) auto

lemma bits_apply_permutation:
  "bits (apply_permutation m p) = {p ! c |c. bit m c \<and> c < length p} \<inter> {..<LENGTH('n)}"
  for m :: "'n::len mark_t"
  by (auto simp: apply_permutation_def bit_fold_mark_set bits_def)

text \<open>
  The decimal digits of an unsigned number, as \<open>operator<<\<close> of the standard streams prints
  them.
\<close>

fun show_nat :: "nat \<Rightarrow> string" where
  "show_nat n = (if n < 10 then [char_of (48 + n)] else show_nat (n div 10) @ [char_of (48 + n mod 10)])"

declare show_nat.simps [simp del]

fun mark_print_sets :: "string \<Rightarrow> nat list \<Rightarrow> string" where
  "mark_print_sets comma [] = ''''"
| "mark_print_sets comma (level # levels) = comma @ show_nat level @ mark_print_sets '','' levels"

definition mark_as_string :: "'n::len mark_t \<Rightarrow> string" where
  "mark_as_string m = ''{'' @ mark_print_sets '''' (mark_fill m) @ ''}''"

section \<open>Refinement: the field \<open>id\<close>\<close>

lemma length_mark_id: "length (mark_id (m :: 'n::len mark_t)) = LENGTH('n) div word_bits"
  by (simp add: mark_id_def)

lemma bs_bits_mark_id:
  assumes "word_bits dvd LENGTH('n)"
  shows "bs_bits (mark_id (m :: 'n::len mark_t)) = bits m"
proof (rule set_eqI)
  fix i
  have eq: "32 * (LENGTH('n) div 32) = LENGTH('n)" using assms by simp
  show "i \<in> bs_bits (mark_id m) \<longleftrightarrow> i \<in> bits m"
  proof (cases "i < LENGTH('n)")
    case True
    then have k: "i div 32 < LENGTH('n) div 32" by (metis div_less_iff_less_mult eq mult.commute zero_less_numeral)
    then have "mark_id m ! (i div 32) = ucast (drop_bit (32 * (i div 32)) m)" by (simp add: mark_id_def)
    moreover have "32 * (i div 32) + i mod 32 = i" by simp
    ultimately have "bit (mark_id m ! (i div 32)) (i mod 32) \<longleftrightarrow> bit m i"
      by (simp add: bit_simps)
    with True eq show ?thesis by (simp add: bs_bit_nth length_mark_id)
  next
    case False
    then show ?thesis using eq bit_imp_le_length [of m i] by (auto simp: bs_bit_nth length_mark_id)
  qed
qed

text \<open>
  For every supported configuration the operations of \<open>mark_t\<close> are those of \<open>bitset\<close> on the
  field \<open>id\<close>.  The bitwise connectives come from the representation locale.
\<close>

lemma mark_id_Suc:
  assumes "word_bits dvd LENGTH('n)"
  shows "length (mark_id (m :: 'n::len mark_t)) = Suc (LENGTH('n) div word_bits - 1)"
proof -
  have "32 * (LENGTH('n) div 32) = LENGTH('n)" using assms by simp
  then have "0 < LENGTH('n) div 32" by (metis len_gt_0 mult_0_right neq0_conv)
  then show ?thesis by (simp add: length_mark_id)
qed

lemma mark_rep:
  assumes "word_bits dvd LENGTH('n::len)"
  defines "k \<equiv> LENGTH('n) div word_bits - 1"
  shows "bit_vector_rep (\<lambda>_. True) bits LENGTH('n) (0 :: 'n mark_t) (NOT 0) (\<lambda>m. m \<noteq> 0) (AND) (OR) (XOR) NOT
     (\<lambda>d. length d = Suc k) bs_bits (bs_zero (Suc k)) (bs_mone (Suc k)) bs_bool bs_and bs_or bs_xor bs_not
     mark_id"
proof -
  have "32 * Suc k = LENGTH('n)"
    using assms(1) mark_id_Suc [OF assms(1)] by (simp add: k_def length_mark_id)
  then have "bit_vector (\<lambda>d. length d = Suc k) bs_bits LENGTH('n) (bs_zero (Suc k)) (bs_mone (Suc k))
      bs_bool bs_and bs_or bs_xor bs_not"
    using bitsets.bit_vector_axioms [of k] by simp
  moreover have "bit_vector_rep_axioms (\<lambda>_. True) bits (\<lambda>d. length d = Suc k) bs_bits
      (mark_id :: 'n mark_t \<Rightarrow> bitset)"
    by (rule bit_vector_rep_axioms.intro)
      (simp_all add: mark_id_Suc [OF assms(1)] bs_bits_mark_id [OF assms(1)] k_def)
  ultimately show ?thesis
    by (intro bit_vector_rep.intro words.bit_vector_axioms)
qed

lemmas mark_id_conj = bit_vector_rep.rep_conj [OF mark_rep]
  and mark_id_disj = bit_vector_rep.rep_disj [OF mark_rep]
  and mark_id_xor = bit_vector_rep.rep_xor [OF mark_rep]
  and mark_id_compl = bit_vector_rep.rep_compl [OF mark_rep]
  and mark_id_test = bit_vector_rep.rep_test [OF mark_rep]
  and mark_id_eq_iff = bit_vector_rep.rep_inject [OF mark_rep]
  and mark_id_eqI = bit_vector_rep.rep_eqI [OF mark_rep]

interpretation mark32: bit_vector_rep "\<lambda>_. True" bits "LENGTH(32)" "0 :: 32 mark_t" "NOT 0" "\<lambda>m. m \<noteq> 0"
  "(AND)" "(OR)" "(XOR)" NOT "\<lambda>d. length d = Suc 0" bs_bits "bs_zero (Suc 0)" "bs_mone (Suc 0)"
  bs_bool bs_and bs_or bs_xor bs_not mark_id
  using mark_rep [where 'n = 32] by simp

interpretation mark64: bit_vector_rep "\<lambda>_. True" bits "LENGTH(64)" "0 :: 64 mark_t" "NOT 0" "\<lambda>m. m \<noteq> 0"
  "(AND)" "(OR)" "(XOR)" NOT "\<lambda>d. length d = Suc 1" bs_bits "bs_zero (Suc 1)" "bs_mone (Suc 1)"
  bs_bool bs_and bs_or bs_xor bs_not mark_id
  using mark_rep [where 'n = 64] by simp

lemma bs_int_mark_id:
  assumes "word_bits dvd LENGTH('n)"
  shows "bs_int (mark_id (m :: 'n::len mark_t)) = uint m"
proof (rule bit_eqI)
  fix i show "bit (bs_int (mark_id m)) i = bit (uint m) i"
    using bs_bits_mark_id [OF assms, of m] by (auto simp: bit_bs_int bit_uint_iff bits_def bs_bits_def
        set_eq_iff dest: bit_imp_le_length)
qed

lemma bs_int_inject: "length d = length e \<Longrightarrow> bs_int d = bs_int e \<Longrightarrow> d = e"
  by (rule bs_bits_eqI) (auto simp: bs_bits_def bit_bs_int [symmetric])

lemma mark_id_pred:
  assumes "word_bits dvd LENGTH('n)"
  shows "mark_id (m - 1 :: 'n::len mark_t) = bs_minus (mark_id m) 1"
proof (rule bs_int_inject)
  have "bs_int (bs_minus (mark_id m) 1) = (uint m - 1) mod 2 ^ LENGTH('n)"
    using assms mark_id_Suc [OF assms, of m]
    by (subst bs_int_minus_mod) (auto simp: bs_int_mark_id length_mark_id simp flip: length_greater_0_conv)
  then show "bs_int (mark_id (m - 1)) = bs_int (bs_minus (mark_id m) 1)"
    by (simp add: bs_int_mark_id [OF assms] uint_word_ariths)
qed (simp add: length_mark_id)

lemma mark_id_shift:
  assumes "word_bits dvd LENGTH('n)" and "s < LENGTH('n)"
  shows "bs_shl (mark_id (m :: 'n::len mark_t)) s = Inr (mark_id (push_bit s m))"
    and "bs_shr (mark_id m) s = Inr (mark_id (drop_bit s m))"
proof -
  have len: "32 * length (mark_id m) = LENGTH('n)" using assms(1) by (simp add: length_mark_id)
  obtain e where e: "bs_shl (mark_id m) s = Inr e" "length e = length (mark_id m)"
    "bs_bits e = {i. s \<le> i \<and> i < 32 * length (mark_id m) \<and> i - s \<in> bs_bits (mark_id m)}"
    using bs_shl_bits [of s "mark_id m"] assms(2) len by auto
  have "e = mark_id (push_bit s m)"
    using e len by (intro bs_bits_eqI) (auto simp: length_mark_id bs_bits_mark_id [OF assms(1)] bits_def bit_simps)
  then show "bs_shl (mark_id m) s = Inr (mark_id (push_bit s m))" using e by simp
  obtain e where e: "bs_shr (mark_id m) s = Inr e" "length e = length (mark_id m)"
    "bs_bits e = {i. i + s \<in> bs_bits (mark_id m)}"
    using bs_shr_bits [of s "mark_id m"] assms(2) len by auto
  have "e = mark_id (drop_bit s m)"
    using e by (intro bs_bits_eqI) (auto simp: length_mark_id bs_bits_mark_id [OF assms(1)] bits_def bit_simps add.commute)
  then show "bs_shr (mark_id m) s = Inr (mark_id (drop_bit s m))" using e by simp
qed

lemma mark_id_update:
  assumes "word_bits dvd LENGTH('n)" and "u < LENGTH('n)"
  shows "bs_set (mark_id (m :: 'n::len mark_t)) u = Inr (mark_id (mark_set m u))"
    and "bs_clear (mark_id m) u = Inr (mark_id (mark_clear m u))"
proof -
  have len: "32 * length (mark_id m) = LENGTH('n)" using assms(1) by (simp add: length_mark_id)
  obtain e where e: "bs_set (mark_id m) u = Inr e" "length e = length (mark_id m)"
    "bs_bits e = insert u (bs_bits (mark_id m))"
    using bs_set_bits [of u "mark_id m"] assms(2) len by auto
  have "e = mark_id (mark_set m u)"
    using e assms(2) by (intro bs_bits_eqI) (auto simp: length_mark_id bs_bits_mark_id [OF assms(1)] bits_mark_set)
  then show "bs_set (mark_id m) u = Inr (mark_id (mark_set m u))" using e by simp
  obtain e where e: "bs_clear (mark_id m) u = Inr e" "length e = length (mark_id m)"
    "bs_bits e = bs_bits (mark_id m) - {u}"
    using bs_clear_bits [of u "mark_id m"] assms(2) len by auto
  have "e = mark_id (mark_clear m u)"
    using e by (intro bs_bits_eqI) (auto simp: length_mark_id bs_bits_mark_id [OF assms(1)])
  then show "bs_clear (mark_id m) u = Inr (mark_id (mark_clear m u))" using e by simp
qed

lemma mark_id_counts:
  assumes "word_bits dvd LENGTH('n)"
  shows "bs_count (mark_id (m :: 'n::len mark_t)) = mark_count m"
    and "m \<noteq> 0 \<Longrightarrow> bs_highest (mark_id m) + 1 = mark_max_set m"
    and "m \<noteq> 0 \<Longrightarrow> bs_lowest (mark_id m) + 1 = mark_min_set m"
proof -
  show "bs_count (mark_id m) = mark_count m"
    by (simp add: bs_count_card mark_count_card bs_bits_mark_id [OF assms])
  assume "m \<noteq> 0"
  then have "bs_bool (mark_id m)" by (simp add: bs_bool_iff bs_bits_mark_id [OF assms])
  then show "bs_highest (mark_id m) + 1 = mark_max_set m" "bs_lowest (mark_id m) + 1 = mark_min_set m"
    using \<open>m \<noteq> 0\<close> by (simp_all add: bs_highest_Max bs_lowest_Min bs_bits_mark_id [OF assms]
        mark_max_set_Max mark_min_set_Min)
qed

text \<open>
  \<open>lowest()\<close> isolates the smallest set number when the marks fit one word.  With two words
  the faulty carry of \<open>bitset::operator-()\<close> clears the whole second word.
\<close>

lemma mark_lowest_one_word:
  "(m :: 32 mark_t) \<noteq> 0 \<Longrightarrow> bs_bits (mark_lowest (mark_id m)) = {Min (bits m)}"
proof -
  assume "m \<noteq> 0"
  have "mark_id m = [m]" by (simp add: mark_id_def)
  then have "mark_lowest (mark_id m) = [m AND - m]" by (simp add: mark_lowest_def bs_uminus_one bs_and_def)
  moreover have "bs_bits [m AND - m] = bits (m AND - m)" 
    unfolding bs_bits_Cons by (simp add: bs_bits_def)
  ultimately show ?thesis by (simp only: bits_and_uminus [OF \<open>m \<noteq> 0\<close>])
qed

lemma mark_lowest_two_words: "mark_lowest [v, w] = [v AND - v, 0]"
  by (simp add: mark_lowest_def bs_uminus_two bs_and_def)

section \<open>Properties of marks\<close>

text \<open>
  Property C33: for every supported number of sets, the operations on marks are computed on
  the array of words by the operations of \<open>bitset\<close>: connectives, tests, shifts, updates of
  one set and the counting functions.
\<close>

theorem mark_refined_by_bitset:
  fixes m n :: "'n::len mark_t"
  assumes "word_bits dvd LENGTH('n)" and "u < LENGTH('n)"
  shows "mark_id (m AND n) = bs_and (mark_id m) (mark_id n) \<and> mark_id (m OR n) = bs_or (mark_id m) (mark_id n)
    \<and> mark_id (m XOR n) = bs_xor (mark_id m) (mark_id n) \<and> mark_id (NOT m) = bs_not (mark_id m)
    \<and> (m \<noteq> 0 \<longleftrightarrow> bs_bool (mark_id m)) \<and> (mark_id m = mark_id n \<longleftrightarrow> m = n)
    \<and> mark_id (m - 1) = bs_minus (mark_id m) 1
    \<and> bs_shl (mark_id m) u = Inr (mark_id (push_bit u m)) \<and> bs_shr (mark_id m) u = Inr (mark_id (drop_bit u m))
    \<and> bs_set (mark_id m) u = Inr (mark_id (mark_set m u)) \<and> bs_clear (mark_id m) u = Inr (mark_id (mark_clear m u))
    \<and> bs_count (mark_id m) = mark_count m
    \<and> (m \<noteq> 0 \<longrightarrow> bs_highest (mark_id m) + 1 = mark_max_set m \<and> bs_lowest (mark_id m) + 1 = mark_min_set m)"
proof (intro conjI impI)
  show "m \<noteq> 0 \<longleftrightarrow> bs_bool (mark_id m)" by (rule mark_id_test [OF assms(1)]) simp
  show "mark_id m = mark_id n \<longleftrightarrow> m = n" by (rule mark_id_eq_iff [OF assms(1)]) simp_all
qed (simp_all add: mark_id_conj [OF assms(1)] mark_id_disj [OF assms(1)] mark_id_xor [OF assms(1)]
    mark_id_compl [OF assms(1)] mark_id_pred [OF assms(1)] mark_id_shift [OF assms] mark_id_update [OF assms]
    mark_id_counts [OF assms(1), simplified])

theorem mark_refined_by_bitset_witness:
  "mark_id (5 AND 12 :: 64 mark_t) = bs_and (mark_id (5 :: 64 mark_t)) (mark_id (12 :: 64 mark_t))"
  by (rule mark_refined_by_bitset [where u = 3, THEN conjunct1]) simp_all

text \<open>
  \<open>strip\<close> deletes the sets of \<open>y\<close> from \<open>x\<close> and closes the gaps: a set that is kept
  moves down by the number of deleted sets below it, and the order is preserved.
\<close>

theorem mark_strip_closes_gaps:
  "bits (mark_strip x y) = (\<lambda>i. i - card {j \<in> bits y. j < i}) ` (bits x - bits y)
   \<and> (\<forall>i j. \<not> bit y i \<and> \<not> bit y j \<and> i < j \<longrightarrow>
        i - card {k \<in> bits y. k < i} < j - card {k \<in> bits y. k < j})"
  using bits_mark_strip [of x y] renumber_strict_mono [of "bits y"]
  by (auto simp: renumber_def [abs_def])

theorem mark_strip_closes_gaps_witness:
  "bits (mark_strip 10 4 :: 32 mark_t) = (\<lambda>i. i - card {j \<in> bits (4 :: 32 mark_t). j < i}) ` (bits (10 :: 32 mark_t) - bits (4 :: 32 mark_t))"
  using mark_strip_closes_gaps [of "10 :: 32 mark_t" 4] by blast

text \<open>
  Property C35: the iterator over \<open>sets()\<close> and \<open>fill()\<close> both list the set numbers of a mark in
  increasing order, a mark is rebuilt from that list by the constructor, and \<open>remove_some(n)\<close>
  drops its first \<open>n\<close> elements.
\<close>

theorem mark_enumeration:
  "mark_sets m = sorted_list_of_set (bits m) \<and> mark_fill m = mark_sets m
   \<and> mark_t (mark_sets m) = Inr m \<and> mark_sets (mark_remove_some m n) = drop n (mark_sets m)"
proof -
  have "mark_t (mark_sets m) = Inr m"
    using mark_of_range_ok [of "mark_sets m" "0 :: 'a mark_t"] bit_imp_le_length [of m]
    by (auto simp: mark_t_def simp flip: bits_inject)
  then show ?thesis by (simp add: mark_sets_sorted mark_fill_sets mark_remove_some_sets)
qed

text \<open>
  Property C37: \<open>lowest()\<close> keeps exactly the smallest set when marks have one word; with two
  words the sets \<open>32\<close> and above are lost, and a mark of such sets only becomes empty.
\<close>

theorem mark_lowest_words:
  "((m :: 32 mark_t) \<noteq> 0 \<longrightarrow> bs_bits (mark_lowest (mark_id m)) = {Min (bits m)})
   \<and> mark_lowest [v, w] = [v AND - v, 0] \<and> mark_lowest [0, w] = [0, 0]"
  using mark_lowest_one_word by (simp add: mark_lowest_two_words)

theorem mark_lowest_words_witness:
  "bs_bits (mark_lowest (mark_id (12 :: 32 mark_t))) = {Min (bits (12 :: 32 mark_t))}"
  using mark_lowest_words [of 12] by simp

end
