(* ===== verification/AccCode.thy ===== *)
theory AccCode
  imports Mark
begin

unbundle bit_operations_syntax

text \<open>
  Acceptance formulas as they are stored, \<^verbatim>\<open>acc_cond::acc_word\<close> and
  \<^verbatim>\<open>acc_cond::acc_code\<close> of \<^verbatim>\<open>spot/twa/acc.hh\<close>, with the constructors, the comparison
  operators and the two connectives of the class.

  A code is a vector of words in a kind of reverse polish notation that every function reads
  from the back.  The model lists the words from the back: the head of the list is
  \<open>back()\<close>, a pointer \<open>pos\<close> into the vector is the list that starts at \<open>*pos\<close>, \<open>--pos\<close> is the
  tail, \<open>pos -= n\<close> drops \<open>n\<close> words, \<open>pop_back()\<close> is the tail and \<open>emplace_back(w)\<close> is \<open>w # _\<close>.
  The union \<open>acc_word\<close> is a datatype: a word holds a mark or an operator with the number of
  words of its subtree.  That number is an \<open>unsigned short\<close>, so storing a size keeps it
  modulo \<open>2 ^ 16\<close> (\<open>u16\<close>).

  \<open>acc_tree\<close> is the formula a code stands for and \<open>enc\<close> its code; \<open>wf_code\<close> are the codes of
  formulas whose sizes fit.  The refinement lemmas show that \<open>operator&=\<close> and \<open>operator|=\<close>,
  which splice the two vectors, merge their \<open>Inf\<close> (or \<open>Fin\<close>) words and re-group, compute the
  conjunction and the disjunction.
\<close>

datatype acc_op = OpInf | OpFin | OpInfNeg | OpFinNeg | OpAnd | OpOr

datatype 'm acc_word = Mark 'm | Sub acc_op nat

type_synonym 'n acc_code = "'n mark_t acc_word list"

definition u16 :: "nat \<Rightarrow> nat" where
  "u16 n = n mod 2 ^ 16"

fun is_op :: "acc_op \<Rightarrow> 'n::len mark_t acc_word \<Rightarrow> bool" where
  "is_op op (Sub op' n) = (op' = op)"
| "is_op op (Mark m) = False"

fun sub_size :: "'n::len mark_t acc_word \<Rightarrow> nat" where
  "sub_size (Sub op n) = n"
| "sub_size (Mark m) = 0"

fun word_mark :: "'n::len mark_t acc_word \<Rightarrow> 'n mark_t" where
  "word_mark (Mark m) = m"
| "word_mark (Sub op n) = 0"

definition top_is :: "acc_op \<Rightarrow> 'n::len acc_code \<Rightarrow> bool" where
  "top_is op c = (case c of [] \<Rightarrow> False | w # _ \<Rightarrow> is_op op w)"

section \<open>Constants and leaves\<close>

definition is_t :: "'n::len acc_code \<Rightarrow> bool" where
  "is_t c = (c = [] \<or> (top_is OpInf c \<and> word_mark (c ! 1) = 0))"

definition is_f :: "'n::len acc_code \<Rightarrow> bool" where
  "is_f c = (length c > 1 \<and> top_is OpFin c \<and> word_mark (c ! 1) = 0)"

definition code_f :: "'n::len acc_code" where
  "code_f = [Sub OpFin 1, Mark 0]"

definition code_t :: "'n::len acc_code" where
  "code_t = []"

definition fin :: "'n::len mark_t \<Rightarrow> 'n acc_code" where
  "fin m = [Sub OpFin 1, Mark m]"

definition fin_neg :: "'n::len mark_t \<Rightarrow> 'n acc_code" where
  "fin_neg m = [Sub OpFinNeg 1, Mark m]"

definition inf_code :: "'n::len mark_t \<Rightarrow> 'n acc_code" where
  "inf_code m = [Sub OpInf 1, Mark m]"

definition inf_neg :: "'n::len mark_t \<Rightarrow> 'n acc_code" where
  "inf_neg m = [Sub OpInfNeg 1, Mark m]"

section \<open>Comparison\<close>

fun code_eq_loop :: "'n::len acc_code \<Rightarrow> 'n acc_code \<Rightarrow> bool" where
  "code_eq_loop [] [] = True"
| "code_eq_loop (Sub op sz # ws) (Sub oop osz # vs) =
     (if oop \<noteq> op \<or> osz \<noteq> sz then False
      else if op = OpAnd \<or> op = OpOr then code_eq_loop ws vs
      else (case (ws, vs) of
          (Mark m # ws', Mark om # vs') \<Rightarrow> if om \<noteq> m then False else code_eq_loop ws' vs'
        | _ \<Rightarrow> False))"
| "code_eq_loop _ _ = False"

definition code_eq :: "'n::len acc_code \<Rightarrow> 'n acc_code \<Rightarrow> bool" where
  "code_eq c other = (if length other \<noteq> length c then False else code_eq_loop c other)"

fun op_index :: "acc_op \<Rightarrow> nat" where
  "op_index OpInf = 0"
| "op_index OpFin = 1"
| "op_index OpInfNeg = 2"
| "op_index OpFinNeg = 3"
| "op_index OpAnd = 4"
| "op_index OpOr = 5"

fun code_less_loop :: "'n::len acc_code \<Rightarrow> 'n acc_code \<Rightarrow> bool" where
  "code_less_loop (Sub op sz # ws) (Sub oop osz # vs) =
     (if op_index op < op_index oop then True
      else if op_index op > op_index oop then False
      else if sz < osz then True
      else if sz > osz then False
      else if op = OpAnd \<or> op = OpOr then code_less_loop ws vs
      else (case (ws, vs) of
          (Mark m # ws', Mark om # vs') \<Rightarrow>
            if mark_less m om then True else if mark_less om m then False
            else code_less_loop ws' vs'
        | _ \<Rightarrow> False))"
| "code_less_loop _ _ = False"

definition code_less :: "'n::len acc_code \<Rightarrow> 'n acc_code \<Rightarrow> bool" where
  "code_less c other = (if length c < length other then True
     else if length c > length other then False
     else code_less_loop c other)"

section \<open>Conjunction and disjunction\<close>

text \<open>
  The search for the position of the grouped leaf among the operands of a top-level
  connective: \<open>while (pos > start) ... pos -= pos->sub.size + 1\<close>.
\<close>

fun find_leaf :: "acc_op \<Rightarrow> nat \<Rightarrow> 'n::len acc_code \<Rightarrow> nat option" where
  "find_leaf leaf i [] = None"
| "find_leaf leaf i [w] = None"
| "find_leaf leaf i (w # v # ws) =
     (if is_op leaf w then Some i
      else find_leaf leaf (i + sub_size w + 1) (drop (sub_size w) (v # ws)))"

definition splice_words ::
    "'n::len acc_code \<Rightarrow> nat option \<Rightarrow> 'n acc_code \<Rightarrow> nat option \<Rightarrow> 'n acc_code" where
  "splice_words left left_leaf right right_leaf =
    (case (left_leaf, right_leaf) of
       (Some i, Some j) \<Rightarrow>
         let carry = word_mark (left ! (i + 1));
             left' = take i left @ drop (i + 2) left;
             right' = (if carry \<noteq> 0
                       then right[j + 1 := Mark (word_mark (right ! (j + 1)) OR carry)]
                       else right)
         in right' @ left'
     | _ \<Rightarrow> right @ left)"

definition splice :: "acc_op \<Rightarrow> acc_op \<Rightarrow> 'n::len acc_code \<Rightarrow> 'n acc_code \<Rightarrow> 'n acc_code" where
  "splice op leaf l r =
    (let left_leaf = (if top_is op l then find_leaf leaf 0 (take (sub_size (hd l)) (tl l))
                      else if top_is leaf l then Some 0 else None);
         left = (if top_is op l then tl l else l);
         right_leaf = (if top_is op r then find_leaf leaf 0 (tl r)
                       else if top_is leaf r then Some 0 else None);
         right = (if top_is op r then tl r else r);
         body = splice_words left left_leaf right right_leaf
     in Sub op (u16 (length body)) # body)"

definition and_code :: "'n::len acc_code \<Rightarrow> 'n acc_code \<Rightarrow> 'n acc_code" where
  "and_code l r =
    (if is_t l \<or> is_f r then r
     else if is_f l \<or> is_t r then l
     else if (top_is OpInf l \<and> top_is OpInf r) \<or> (top_is OpInfNeg l \<and> top_is OpInfNeg r)
     then l[1 := Mark (word_mark (l ! 1) OR word_mark (r ! 1))]
     else splice OpAnd OpInf l r)"

definition or_code :: "'n::len acc_code \<Rightarrow> 'n acc_code \<Rightarrow> 'n acc_code" where
  "or_code l r =
    (if is_t l \<or> is_f r then l
     else if is_f l \<or> is_t r then r
     else if (top_is OpFin l \<and> top_is OpFin r) \<or> (top_is OpFinNeg l \<and> top_is OpFinNeg r)
     then l[1 := Mark (word_mark (l ! 1) OR word_mark (r ! 1))]
     else splice OpOr OpFin l r)"

section \<open>Formulas\<close>

datatype 'm acc_formula =
    TT
  | TInf 'm | TFin 'm | TInfNeg 'm | TFinNeg 'm
  | TAnd "'m acc_formula list" | TOr "'m acc_formula list"

type_synonym 'n acc_tree = "'n mark_t acc_formula"

fun enc :: "'n::len acc_tree \<Rightarrow> 'n acc_code" where
  "enc TT = []"
| "enc (TInf m) = [Sub OpInf 1, Mark m]"
| "enc (TFin m) = [Sub OpFin 1, Mark m]"
| "enc (TInfNeg m) = [Sub OpInfNeg 1, Mark m]"
| "enc (TFinNeg m) = [Sub OpFinNeg 1, Mark m]"
| "enc (TAnd ts) = (let body = concat (map enc ts) in Sub OpAnd (length body) # body)"
| "enc (TOr ts) = (let body = concat (map enc ts) in Sub OpOr (length body) # body)"

text \<open>
  A formula is representable when no operator lacks operands, \<open>t\<close> does not occur below an
  operator, and the size of every subtree fits an \<open>unsigned short\<close>.
\<close>

fun node_ok :: "'n::len acc_tree \<Rightarrow> bool" where
  "node_ok TT = False"
| "node_ok (TAnd ts) = (ts \<noteq> [] \<and> list_all node_ok ts \<and> length (concat (map enc ts)) < 2 ^ 16)"
| "node_ok (TOr ts) = (ts \<noteq> [] \<and> list_all node_ok ts \<and> length (concat (map enc ts)) < 2 ^ 16)"
| "node_ok _ = True"

definition tree_ok :: "'n::len acc_tree \<Rightarrow> bool" where
  "tree_ok t = (t = TT \<or> node_ok t)"

definition wf_code :: "'n::len acc_code \<Rightarrow> bool" where
  "wf_code c = (\<exists>t. tree_ok t \<and> c = enc t)"

text \<open>
  Truth of a formula: \<open>I i\<close> says that set \<open>i\<close> is visited infinitely often, \<open>J i\<close> that its
  complement is.
\<close>

fun tree_sat :: "(nat \<Rightarrow> bool) \<Rightarrow> (nat \<Rightarrow> bool) \<Rightarrow> 'n::len acc_tree \<Rightarrow> bool" where
  "tree_sat I J TT = True"
| "tree_sat I J (TInf m) = (\<forall>i. bit m i \<longrightarrow> I i)"
| "tree_sat I J (TFin m) = (\<exists>i. bit m i \<and> \<not> I i)"
| "tree_sat I J (TInfNeg m) = (\<forall>i. bit m i \<longrightarrow> J i)"
| "tree_sat I J (TFinNeg m) = (\<exists>i. bit m i \<and> \<not> J i)"
| "tree_sat I J (TAnd ts) = list_all (tree_sat I J) ts"
| "tree_sat I J (TOr ts) = list_ex (tree_sat I J) ts"

section \<open>Structure of the codes of formulas\<close>

lemma enc_length: "node_ok t \<Longrightarrow> 2 \<le> length (enc t)"
proof (induction t rule: enc.induct)
  case (6 ts)
  then obtain u us where ts: "ts = u # us" by (cases ts) auto
  then have "2 \<le> length (enc u)" using 6 by simp
  with ts show ?case by (simp add: Let_def)
next
  case (7 ts)
  then obtain u us where ts: "ts = u # us" by (cases ts) auto
  then have "2 \<le> length (enc u)" using 7 by simp
  with ts show ?case by (simp add: Let_def)
qed auto

fun tree_op :: "'n::len acc_tree \<Rightarrow> acc_op" where
  "tree_op TT = OpInf"
| "tree_op (TInf m) = OpInf"
| "tree_op (TFin m) = OpFin"
| "tree_op (TInfNeg m) = OpInfNeg"
| "tree_op (TFinNeg m) = OpFinNeg"
| "tree_op (TAnd ts) = OpAnd"
| "tree_op (TOr ts) = OpOr"

lemma enc_Cons: "node_ok t \<Longrightarrow> enc t = Sub (tree_op t) (length (enc t) - 1) # tl (enc t)"
  by (cases t) (auto simp: Let_def)

lemma enc_eq_Nil [simp]: "enc t = [] \<longleftrightarrow> t = TT"
  by (cases t) (auto simp: Let_def)

lemma top_is_enc [simp]: "node_ok t \<Longrightarrow> top_is op (enc t) \<longleftrightarrow> tree_op t = op"
  by (subst enc_Cons) (auto simp: top_is_def)

lemma top_is_Nil [simp]: "\<not> top_is op []"
  by (simp add: top_is_def)

lemma is_t_leaf [simp]: "is_t [Sub op n, Mark m] \<longleftrightarrow> op = OpInf \<and> m = 0" "is_t []"
  by (simp_all add: is_t_def top_is_def)

lemma is_f_leaf [simp]: "is_f [Sub op n, Mark m] \<longleftrightarrow> op = OpFin \<and> m = 0" "\<not> is_f []"
  by (simp_all add: is_f_def top_is_def)

lemma is_t_enc: "tree_ok t \<Longrightarrow> is_t (enc t) \<longleftrightarrow> t = TT \<or> t = TInf 0"
  by (cases t) (auto simp: is_t_def tree_ok_def top_is_def Let_def)

lemma is_f_enc: "tree_ok t \<Longrightarrow> is_f (enc t) \<longleftrightarrow> t = TFin 0"
  by (cases t) (auto simp: is_f_def tree_ok_def top_is_def Let_def)

text \<open>
  The loop that visits the operands of a connective, \<open>--pos; ...; pos -= pos->sub.size\<close>: the
  subtrees in the order they are visited, each as the code the constructor from a word
  pointer would copy.
\<close>

fun children :: "'n::len acc_code \<Rightarrow> 'n acc_code list" where
  "children [] = []"
| "children (w # ws) = take (Suc (sub_size w)) (w # ws) # children (drop (sub_size w) ws)"

lemma children_shorter: "c \<in> set (children ws) \<Longrightarrow> length c \<le> length ws"
proof (induction ws rule: children.induct)
  case (2 w ws)
  then show ?case by (auto simp: min_def dest: order.trans)
qed simp

lemma children_enc: "list_all node_ok ts \<Longrightarrow> children (concat (map enc ts)) = map enc ts"
proof (induction ts)
  case (Cons t ts)
  then have t: "node_ok t" by simp
  then obtain ws where ws: "enc t = Sub (tree_op t) (length ws) # ws"
    using enc_Cons [OF t] by (metis length_tl)
  then have "children (enc t @ concat (map enc ts)) = enc t # children (concat (map enc ts))"
    by simp
  with Cons show ?case by simp
qed simp

lemma find_leaf_enc:
  assumes "list_all node_ok ts"
  shows "find_leaf leaf i (concat (map enc ts)) =
    (if \<exists>t\<in>set ts. tree_op t = leaf
     then Some (i + length (concat (map enc (takeWhile (\<lambda>t. tree_op t \<noteq> leaf) ts)))) else None)"
  using assms
proof (induction ts arbitrary: i)
  case (Cons t ts)
  then have t: "node_ok t" by simp
  obtain v ws where ws: "enc t = Sub (tree_op t) (length (v # ws)) # v # ws"
  proof -
    have "2 \<le> length (enc t)" by (rule enc_length [OF t])
    then obtain a v ws where "enc t = a # v # ws" by (metis Suc_le_length_iff numeral_2_eq_2)
    with enc_Cons [OF t] show ?thesis using that by simp
  qed
  then have "find_leaf leaf i (concat (map enc (t # ts))) =
      (if tree_op t = leaf then Some i
       else find_leaf leaf (i + length (enc t)) (concat (map enc ts)))"
    by simp
  with Cons show ?case by auto
qed simp

section \<open>The connectives on formulas\<close>

fun leaf_mark :: "'n::len acc_tree \<Rightarrow> 'n mark_t" where
  "leaf_mark (TInf m) = m"
| "leaf_mark (TFin m) = m"
| "leaf_mark (TInfNeg m) = m"
| "leaf_mark (TFinNeg m) = m"
| "leaf_mark _ = 0"

definition mk_leaf :: "acc_op \<Rightarrow> 'n::len mark_t \<Rightarrow> 'n acc_tree" where
  "mk_leaf op m = (if op = OpInf then TInf m else TFin m)"

definition mk_node :: "acc_op \<Rightarrow> 'n::len acc_tree list \<Rightarrow> 'n acc_tree" where
  "mk_node op ts = (if op = OpAnd then TAnd ts else TOr ts)"

fun operands :: "acc_op \<Rightarrow> 'n::len acc_tree \<Rightarrow> 'n acc_tree list" where
  "operands OpAnd (TAnd ts) = ts"
| "operands OpOr (TOr ts) = ts"
| "operands op t = [t]"

definition merge :: "acc_op \<Rightarrow> acc_op \<Rightarrow> 'n::len acc_tree list \<Rightarrow> 'n acc_tree list \<Rightarrow> 'n acc_tree list" where
  "merge op leaf ls rs =
    (if (\<exists>t\<in>set ls. tree_op t = leaf) \<and> (\<exists>t\<in>set rs. tree_op t = leaf) then
       (let P = (\<lambda>t. tree_op t \<noteq> leaf);
            m = leaf_mark (hd (dropWhile P ls)); m' = leaf_mark (hd (dropWhile P rs))
        in takeWhile P rs @ mk_leaf leaf (m' OR m) # tl (dropWhile P rs)
           @ takeWhile P ls @ tl (dropWhile P ls))
     else rs @ ls)"

definition tree_and :: "'n::len acc_tree \<Rightarrow> 'n acc_tree \<Rightarrow> 'n acc_tree" where
  "tree_and l r =
    (if l = TT \<or> l = TInf 0 \<or> r = TFin 0 then r
     else if l = TFin 0 \<or> r = TT \<or> r = TInf 0 then l
     else (case (l, r) of
         (TInf a, TInf b) \<Rightarrow> TInf (a OR b)
       | (TInfNeg a, TInfNeg b) \<Rightarrow> TInfNeg (a OR b)
       | _ \<Rightarrow> TAnd (merge OpAnd OpInf (operands OpAnd l) (operands OpAnd r))))"

definition tree_or :: "'n::len acc_tree \<Rightarrow> 'n acc_tree \<Rightarrow> 'n acc_tree" where
  "tree_or l r =
    (if l = TT \<or> l = TInf 0 \<or> r = TFin 0 then l
     else if l = TFin 0 \<or> r = TT \<or> r = TInf 0 then r
     else (case (l, r) of
         (TFin a, TFin b) \<Rightarrow> TFin (a OR b)
       | (TFinNeg a, TFinNeg b) \<Rightarrow> TFinNeg (a OR b)
       | _ \<Rightarrow> TOr (merge OpOr OpFin (operands OpOr l) (operands OpOr r))))"

lemma tree_op_leaf:
  "node_ok t \<Longrightarrow> tree_op t = OpInf \<Longrightarrow> t = TInf (leaf_mark t)"
  "node_ok t \<Longrightarrow> tree_op t = OpFin \<Longrightarrow> t = TFin (leaf_mark t)"
  by (cases t; simp)+

lemma mergeE:
  assumes "(\<exists>t\<in>set ls. tree_op t = leaf) \<and> (\<exists>t\<in>set rs. tree_op t = leaf)"
    and "list_all node_ok ls" and "list_all node_ok rs" and "leaf = OpInf \<or> leaf = OpFin"
  obtains a m b c m' d where "ls = a @ mk_leaf leaf m # b" and "rs = c @ mk_leaf leaf m' # d"
    and "\<forall>t\<in>set a. tree_op t \<noteq> leaf" and "\<forall>t\<in>set c. tree_op t \<noteq> leaf"
    and "merge op leaf ls rs = c @ mk_leaf leaf (m' OR m) # d @ a @ b"
proof -
  obtain a x b where a: "ls = a @ x # b" "tree_op x = leaf" "\<forall>t\<in>set a. tree_op t \<noteq> leaf"
    using split_list_first_prop [of ls "\<lambda>t. tree_op t = leaf"] assms(1) by auto
  obtain c y d where c: "rs = c @ y # d" "tree_op y = leaf" "\<forall>t\<in>set c. tree_op t \<noteq> leaf"
    using split_list_first_prop [of rs "\<lambda>t. tree_op t = leaf"] assms(1) by auto
  have "x = mk_leaf leaf (leaf_mark x)" "y = mk_leaf leaf (leaf_mark y)"
    using assms(2-4) a c tree_op_leaf by (auto simp: mk_leaf_def)
  moreover have "merge op leaf ls rs = c @ mk_leaf leaf (leaf_mark y OR leaf_mark x) # d @ a @ b"
    using assms(1) a c by (simp add: merge_def takeWhile_append dropWhile_append)
  ultimately show ?thesis using a c that by metis
qed

lemma length_operands:
  "node_ok t \<Longrightarrow> op = OpAnd \<or> op = OpOr \<Longrightarrow>
     length (enc t) = length (concat (map enc (operands op t))) + (if tree_op t = op then 1 else 0)"
  by (cases t) (auto simp: Let_def)

lemma operands_ok: "node_ok t \<Longrightarrow> list_all node_ok (operands op t)"
  by (cases "(op, t)" rule: operands.cases) auto

definition connects :: "acc_op \<Rightarrow> acc_op \<Rightarrow> bool" where
  "connects op leaf = ((op, leaf) = (OpAnd, OpInf) \<or> (op, leaf) = (OpOr, OpFin))"

lemma enc_mk_leaf: "connects op leaf \<Longrightarrow> enc (mk_leaf leaf k) = [Sub leaf 1, Mark k]"
  and tree_op_mk_leaf: "connects op leaf \<Longrightarrow> tree_op (mk_leaf leaf k) = leaf"
  for k :: "'n::len mark_t"
  by (auto simp: mk_leaf_def connects_def)

lemma splice_operands:
  fixes t :: "'n::len acc_tree"
  assumes "node_ok t" and "connects op leaf"
  shows "(if top_is op (enc t) then tl (enc t) else enc t) = concat (map enc (operands op t))" (is ?words)
    and "take (sub_size (hd (enc t))) (tl (enc t)) = tl (enc t)" (is ?full)
    and "(if top_is op (enc t) then find_leaf leaf 0 (tl (enc t)) else if top_is leaf (enc t) then Some 0 else None)
      = find_leaf leaf 0 (concat (map enc (operands op t)))" (is ?find)
proof -
  show ?words ?full
    using assms by (cases t; auto simp: Let_def top_is_def connects_def)+
  show ?find
    using find_leaf_enc [OF operands_ok [OF assms(1)], of leaf 0 op] assms
    by (cases t) (auto simp: Let_def top_is_def connects_def)
qed

lemma splice_words_enc:
  fixes ls rs :: "'n::len acc_tree list"
  assumes "list_all node_ok ls" and "list_all node_ok rs" and "connects op leaf"
  shows "splice_words (concat (map enc ls)) (find_leaf leaf 0 (concat (map enc ls)))
      (concat (map enc rs)) (find_leaf leaf 0 (concat (map enc rs))) = concat (map enc (merge op leaf ls rs))"
proof (cases "(\<exists>t\<in>set ls. tree_op t = leaf) \<and> (\<exists>t\<in>set rs. tree_op t = leaf)")
  case True
  have "leaf = OpInf \<or> leaf = OpFin" using assms(3) by (auto simp: connects_def)
  then obtain a m b c m' d where ac: "ls = a @ mk_leaf leaf m # b" "rs = c @ mk_leaf leaf m' # d"
      "\<forall>t\<in>set a. tree_op t \<noteq> leaf" "\<forall>t\<in>set c. tree_op t \<noteq> leaf"
      "merge op leaf ls rs = c @ mk_leaf leaf (m' OR m) # d @ a @ b"
    using mergeE [OF True assms(1,2), of op] by metis
  note leaf = enc_mk_leaf [OF assms(3)] tree_op_mk_leaf [OF assms(3)]
  have "find_leaf leaf 0 (concat (map enc ls)) = Some (length (concat (map enc a)))"
    "find_leaf leaf 0 (concat (map enc rs)) = Some (length (concat (map enc c)))"
    using ac(1-4) leaf
    by (subst find_leaf_enc; use assms(1,2) in \<open>auto simp: takeWhile_append\<close>)+
  then show ?thesis unfolding ac(5)
    by (auto simp: splice_words_def Let_def ac(1,2) leaf nth_append list_update_append)
next
  case False
  then show ?thesis using find_leaf_enc [OF assms(1), of leaf 0] find_leaf_enc [OF assms(2), of leaf 0]
    by (auto simp: splice_words_def merge_def split: option.splits)
qed

lemma length_merge:
  assumes "list_all node_ok ls" and "list_all node_ok rs" and "connects op leaf"
  shows "length (concat (map enc (merge op leaf ls rs)))
    \<le> length (concat (map enc ls)) + length (concat (map enc rs))"
proof (cases "(\<exists>t\<in>set ls. tree_op t = leaf) \<and> (\<exists>t\<in>set rs. tree_op t = leaf)")
  case True
  moreover have "leaf = OpInf \<or> leaf = OpFin" using assms(3) by (auto simp: connects_def)
  ultimately show ?thesis
    by (elim mergeE [OF _ assms(1,2), where op = op]) (auto simp: enc_mk_leaf [OF assms(3)])
qed (auto simp: merge_def)

lemma splice_enc:
  fixes l r :: "'n::len acc_tree"
  assumes "node_ok l" and "node_ok r" and "connects op leaf"
    and size: "length (concat (map enc (operands op l))) + length (concat (map enc (operands op r))) < 2 ^ 16"
  shows "splice op leaf (enc l) (enc r) = enc (mk_node op (merge op leaf (operands op l) (operands op r)))"
proof -
  let ?body = "concat (map enc (merge op leaf (operands op l) (operands op r)))"
  have "splice op leaf (enc l) (enc r) = Sub op (u16 (length ?body)) # ?body"
    unfolding splice_def Let_def splice_operands [OF assms(1,3)] splice_operands [OF assms(2,3)]
    by (simp only: splice_words_enc [OF operands_ok [OF assms(1)] operands_ok [OF assms(2)] assms(3)])
  moreover have "u16 (length ?body) = length ?body"
    using size length_merge [OF operands_ok [OF assms(1), of op] operands_ok [OF assms(2), of op] assms(3)]
    by (simp add: u16_def)
  ultimately show ?thesis using assms(3) by (auto simp: mk_node_def Let_def connects_def)
qed

lemma merge_ok:
  assumes "list_all node_ok ls" and "list_all node_ok rs" and "connects op leaf"
  shows "list_all node_ok (merge op leaf ls rs)"
proof (cases "(\<exists>t\<in>set ls. tree_op t = leaf) \<and> (\<exists>t\<in>set rs. tree_op t = leaf)")
  case True
  moreover have "leaf = OpInf \<or> leaf = OpFin" using assms(3) by (auto simp: connects_def)
  ultimately show ?thesis using assms(1,2)
    by (elim mergeE [OF _ assms(1,2), where op = op]) (auto simp: mk_leaf_def)
qed (use assms in \<open>auto simp: merge_def\<close>)

lemma merge_nonempty: "rs \<noteq> [] \<Longrightarrow> merge op leaf ls rs \<noteq> []"
  by (auto simp: merge_def Let_def)

lemma merge_sat:
  assumes "list_all node_ok ls" and "list_all node_ok rs"
  shows "list_all (tree_sat I J) (merge OpAnd OpInf ls rs) \<longleftrightarrow> list_all (tree_sat I J) (ls @ rs)"
    and "list_ex (tree_sat I J) (merge OpOr OpFin ls rs) \<longleftrightarrow> list_ex (tree_sat I J) (ls @ rs)"
proof -
  show "list_all (tree_sat I J) (merge OpAnd OpInf ls rs) \<longleftrightarrow> list_all (tree_sat I J) (ls @ rs)"
  proof (cases "(\<exists>t\<in>set ls. tree_op t = OpInf) \<and> (\<exists>t\<in>set rs. tree_op t = OpInf)")
    case True
    then show ?thesis
      by (elim mergeE [OF _ assms, where op = OpAnd]) (auto simp: mk_leaf_def bit_or_iff)
  qed (auto simp: merge_def)
  show "list_ex (tree_sat I J) (merge OpOr OpFin ls rs) \<longleftrightarrow> list_ex (tree_sat I J) (ls @ rs)"
  proof (cases "(\<exists>t\<in>set ls. tree_op t = OpFin) \<and> (\<exists>t\<in>set rs. tree_op t = OpFin)")
    case True
    then show ?thesis
      by (elim mergeE [OF _ assms, where op = OpOr]) (auto simp: mk_leaf_def bit_or_iff)
  qed (auto simp: merge_def)
qed

text \<open>
  The number of words a formula contributes to a connective: none when it is the neutral
  element, and without its own operator word when it is spliced.
\<close>

definition weight :: "acc_op \<Rightarrow> 'n::len acc_tree \<Rightarrow> nat" where
  "weight op t = (if (op = OpAnd \<and> (t = TT \<or> t = TInf 0)) \<or> (op = OpOr \<and> t = TFin 0) then 0
     else length (concat (map enc (operands op t))))"

lemma weight_le: "weight op t \<le> length (enc t)"
  by (cases "(op, t)" rule: operands.cases) (auto simp: weight_def Let_def)

lemma length_enc_weight: "length (enc t) \<le> max 2 (Suc (weight op t))"
  by (cases "(op, t)" rule: operands.cases) (auto simp: weight_def Let_def)

lemma tree_and_cases [consumes 2, case_names left right inf infneg node]:
  assumes "tree_ok l" and "tree_ok r"
  obtains (left) "tree_and l r = l" "l = TFin 0 \<or> r = TT \<or> r = TInf 0"
      "\<not> (l = TT \<or> l = TInf 0 \<or> r = TFin 0)"
  | (right) "tree_and l r = r" "l = TT \<or> l = TInf 0 \<or> r = TFin 0"
  | (inf) a b where "l = TInf a" "r = TInf b" "a \<noteq> 0" "b \<noteq> 0" "tree_and l r = TInf (a OR b)"
  | (infneg) a b where "l = TInfNeg a" "r = TInfNeg b" "tree_and l r = TInfNeg (a OR b)"
  | (node) "node_ok l" "node_ok r" "tree_and l r = mk_node OpAnd (merge OpAnd OpInf (operands OpAnd l) (operands OpAnd r))"
      "\<not> (l = TT \<or> l = TInf 0 \<or> r = TFin 0)" "\<not> (l = TFin 0 \<or> r = TT \<or> r = TInf 0)"
      "\<not> (tree_op l = OpInf \<and> tree_op r = OpInf)" "\<not> (tree_op l = OpInfNeg \<and> tree_op r = OpInfNeg)"
proof (cases "l = TT \<or> l = TInf 0 \<or> r = TFin 0")
  case True
  then show ?thesis using right by (auto simp: tree_and_def)
next
  case nt: False
  show ?thesis
  proof (cases "l = TFin 0 \<or> r = TT \<or> r = TInf 0")
    case True
    then show ?thesis using left nt by (auto simp: tree_and_def)
  next
    case False
    then have ok: "node_ok l" "node_ok r" using nt assms by (auto simp: tree_ok_def)
    show ?thesis
      using inf infneg node ok nt False
      by (cases l; cases r) (simp_all add: tree_and_def mk_node_def)
  qed
qed

lemma tree_or_cases [consumes 2, case_names left right fin finneg node]:
  assumes "tree_ok l" and "tree_ok r"
  obtains (left) "tree_or l r = l" "l = TT \<or> l = TInf 0 \<or> r = TFin 0"
  | (right) "tree_or l r = r" "l = TFin 0 \<or> r = TT \<or> r = TInf 0"
      "\<not> (l = TT \<or> l = TInf 0 \<or> r = TFin 0)"
  | (fin) a b where "l = TFin a" "r = TFin b" "a \<noteq> 0" "b \<noteq> 0" "tree_or l r = TFin (a OR b)"
  | (finneg) a b where "l = TFinNeg a" "r = TFinNeg b" "tree_or l r = TFinNeg (a OR b)"
  | (node) "node_ok l" "node_ok r" "tree_or l r = mk_node OpOr (merge OpOr OpFin (operands OpOr l) (operands OpOr r))"
      "\<not> (l = TT \<or> l = TInf 0 \<or> r = TFin 0)" "\<not> (l = TFin 0 \<or> r = TT \<or> r = TInf 0)"
      "\<not> (tree_op l = OpFin \<and> tree_op r = OpFin)" "\<not> (tree_op l = OpFinNeg \<and> tree_op r = OpFinNeg)"
proof (cases "l = TT \<or> l = TInf 0 \<or> r = TFin 0")
  case True
  then show ?thesis using left by (auto simp: tree_or_def)
next
  case nt: False
  show ?thesis
  proof (cases "l = TFin 0 \<or> r = TT \<or> r = TInf 0")
    case True
    then show ?thesis using right nt by (auto simp: tree_or_def)
  next
    case False
    then have ok: "node_ok l" "node_ok r" using nt assms by (auto simp: tree_ok_def)
    show ?thesis
      using fin finneg node ok nt False
      by (cases l; cases r) (simp_all add: tree_or_def mk_node_def)
  qed
qed

lemma and_code_enc:
  assumes "tree_ok l" and "tree_ok r" and "weight OpAnd l + weight OpAnd r < 2 ^ 16"
  shows "and_code (enc l) (enc r) = enc (tree_and l r)"
  using assms(1,2)
proof (cases rule: tree_and_cases)
  case node
  then have "weight OpAnd l = length (concat (map enc (operands OpAnd l)))"
    "weight OpAnd r = length (concat (map enc (operands OpAnd r)))" by (auto simp: weight_def)
  then have "splice OpAnd OpInf (enc l) (enc r) = enc (tree_and l r)"
    using node assms(3) by (simp add: splice_enc connects_def)
  with node show ?thesis
    by (auto simp: and_code_def is_t_enc [OF assms(1)] is_f_enc [OF assms(1)] is_t_enc [OF assms(2)] is_f_enc [OF assms(2)])
qed (auto simp: and_code_def is_t_enc [OF assms(1)] is_f_enc [OF assms(1)] is_t_enc [OF assms(2)]
    is_f_enc [OF assms(2)] top_is_def)

lemma tree_and_ok:
  assumes "tree_ok l" and "tree_ok r" and "weight OpAnd l + weight OpAnd r < 2 ^ 16"
  shows "tree_ok (tree_and l r)"
  using assms(1,2)
proof (cases rule: tree_and_cases)
  case node
  let ?ts = "merge OpAnd OpInf (operands OpAnd l) (operands OpAnd r)"
  have c: "connects OpAnd OpInf" by (simp add: connects_def)
  have "operands OpAnd r \<noteq> []" using node(2) by (cases "(OpAnd, r)" rule: operands.cases) auto
  moreover have "length (concat (map enc ?ts)) < 2 ^ 16"
    using node assms(3) length_merge [OF operands_ok [OF node(1)] operands_ok [OF node(2)] c, of OpAnd OpAnd]
    by (auto simp: weight_def)
  ultimately show ?thesis
    using node merge_ok [OF operands_ok [OF node(1)] operands_ok [OF node(2)] c] merge_nonempty
    by (simp add: tree_ok_def mk_node_def)
qed (use assms in \<open>auto simp: tree_ok_def\<close>)

lemma weight_tree_and:
  assumes "tree_ok l" and "tree_ok r"
  shows "weight OpAnd (tree_and l r) \<le> weight OpAnd l + weight OpAnd r"
  using assms(1,2)
proof (cases rule: tree_and_cases)
  case node
  have c: "connects OpAnd OpInf" by (simp add: connects_def)
  show ?thesis
    using node length_merge [OF operands_ok [OF node(1)] operands_ok [OF node(2)] c, of OpAnd OpAnd]
    by (auto simp: weight_def mk_node_def)
qed (auto simp: weight_def)

lemma tree_and_sat [sat_simps]:
  assumes "tree_ok l" and "tree_ok r"
  shows "tree_sat I J (tree_and l r) \<longleftrightarrow> tree_sat I J l \<and> tree_sat I J r"
  using assms(1,2)
proof (cases rule: tree_and_cases)
  case node
  have op: "tree_sat I J t \<longleftrightarrow> list_all (tree_sat I J) (operands OpAnd t)" for t
    by (cases "(OpAnd, t)" rule: operands.cases) auto
  show ?thesis unfolding node(3)
    using merge_sat(1) [OF operands_ok [OF node(1)] operands_ok [OF node(2)]] op [of l] op [of r]
    by (simp add: mk_node_def)
qed (auto simp: bit_or_iff)

lemma or_code_enc:
  assumes "tree_ok l" and "tree_ok r" and "weight OpOr l + weight OpOr r < 2 ^ 16"
  shows "or_code (enc l) (enc r) = enc (tree_or l r)"
  using assms(1,2)
proof (cases rule: tree_or_cases)
  case node
  then have "weight OpOr l = length (concat (map enc (operands OpOr l)))"
    "weight OpOr r = length (concat (map enc (operands OpOr r)))" by (auto simp: weight_def)
  then have "splice OpOr OpFin (enc l) (enc r) = enc (tree_or l r)"
    using node assms(3) by (simp add: splice_enc connects_def)
  with node show ?thesis
    by (auto simp: or_code_def is_t_enc [OF assms(1)] is_f_enc [OF assms(1)] is_t_enc [OF assms(2)] is_f_enc [OF assms(2)])
qed (auto simp: or_code_def is_t_enc [OF assms(1)] is_f_enc [OF assms(1)] is_t_enc [OF assms(2)]
    is_f_enc [OF assms(2)] top_is_def)

lemma tree_or_ok:
  assumes "tree_ok l" and "tree_ok r" and "weight OpOr l + weight OpOr r < 2 ^ 16"
  shows "tree_ok (tree_or l r)"
  using assms(1,2)
proof (cases rule: tree_or_cases)
  case node
  let ?ts = "merge OpOr OpFin (operands OpOr l) (operands OpOr r)"
  have c: "connects OpOr OpFin" by (simp add: connects_def)
  have "operands OpOr r \<noteq> []" using node(2) by (cases "(OpOr, r)" rule: operands.cases) auto
  moreover have "length (concat (map enc ?ts)) < 2 ^ 16"
    using node assms(3) length_merge [OF operands_ok [OF node(1)] operands_ok [OF node(2)] c, of OpOr OpOr]
    by (auto simp: weight_def)
  ultimately show ?thesis
    using node merge_ok [OF operands_ok [OF node(1)] operands_ok [OF node(2)] c] merge_nonempty
    by (simp add: tree_ok_def mk_node_def)
qed (use assms in \<open>auto simp: tree_ok_def\<close>)

lemma weight_tree_or:
  assumes "tree_ok l" and "tree_ok r"
  shows "weight OpOr (tree_or l r) \<le> weight OpOr l + weight OpOr r"
  using assms(1,2)
proof (cases rule: tree_or_cases)
  case node
  have c: "connects OpOr OpFin" by (simp add: connects_def)
  show ?thesis
    using node length_merge [OF operands_ok [OF node(1)] operands_ok [OF node(2)] c, of OpOr OpOr]
    by (auto simp: weight_def mk_node_def)
qed (auto simp: weight_def)

lemma tree_or_sat [sat_simps]:
  assumes "tree_ok l" and "tree_ok r"
  shows "tree_sat I J (tree_or l r) \<longleftrightarrow> tree_sat I J l \<or> tree_sat I J r"
  using assms(1,2)
proof (cases rule: tree_or_cases)
  case node
  have op: "tree_sat I J t \<longleftrightarrow> list_ex (tree_sat I J) (operands OpOr t)" for t
    by (cases "(OpOr, t)" rule: operands.cases) auto
  show ?thesis unfolding node(3)
    using merge_sat(2) [OF operands_ok [OF node(1)] operands_ok [OF node(2)]] op [of l] op [of r]
    by (simp add: mk_node_def)
qed (auto simp: bit_or_iff)

section \<open>The contract of the two connectives\<close>

text \<open>
  What the recursive transformations and the builders of acceptance conditions rely on: the
  code operation computes the formula operation as long as the sizes fit, the formula
  operation has the truth value of a Boolean connective, and it does not need more words
  than its operands bring.  The clients fold a connective over the operands of a node, the
  new operand first (\<open>res = rec(pos) & res\<close>) or last (\<open>res &= pair\<close>).
\<close>

locale connective =
  fixes op :: acc_op
    and comb :: "'n::len acc_code \<Rightarrow> 'n acc_code \<Rightarrow> 'n acc_code"
    and tcomb :: "'n acc_tree \<Rightarrow> 'n acc_tree \<Rightarrow> 'n acc_tree"
    and conn :: "bool \<Rightarrow> bool \<Rightarrow> bool"
  assumes comb_enc: "tree_ok l \<Longrightarrow> tree_ok r \<Longrightarrow> weight op l + weight op r < 2 ^ 16 \<Longrightarrow>
      comb (enc l) (enc r) = enc (tcomb l r)"
    and tcomb_ok: "tree_ok l \<Longrightarrow> tree_ok r \<Longrightarrow> weight op l + weight op r < 2 ^ 16 \<Longrightarrow> tree_ok (tcomb l r)"
    and weight_tcomb: "tree_ok l \<Longrightarrow> tree_ok r \<Longrightarrow> weight op (tcomb l r) \<le> weight op l + weight op r"
    and tcomb_sat: "tree_ok l \<Longrightarrow> tree_ok r \<Longrightarrow>
      tree_sat I J (tcomb l r) = conn (tree_sat I J l) (tree_sat I J r)"
    and conn_assoc: "conn a (conn b c) = conn (conn a b) c" and conn_comm: "conn a b = conn b a"
begin

lemma comb_wf:
  assumes "wf_code a" and "wf_code b" and "length a + length b < 2 ^ 16"
  shows "wf_code (comb a b)"
proof -
  from assms(1,2) obtain l r where lr: "tree_ok l" "a = enc l" "tree_ok r" "b = enc r"
    by (auto simp: wf_code_def)
  then have "weight op l + weight op r < 2 ^ 16"
    using assms(3) weight_le [of op l] weight_le [of op r] by simp
  with lr comb_enc [of l r] tcomb_ok [of l r] show ?thesis unfolding wf_code_def by auto
qed

lemma comb_tree:
  assumes "tree_ok l" and "tree_ok r" and "length (enc l) + length (enc r) < 2 ^ 16"
  shows "comb (enc l) (enc r) = enc (tcomb l r) \<and> tree_ok (tcomb l r)
    \<and> length (enc (tcomb l r)) \<le> max 2 (Suc (length (enc l) + length (enc r)))
    \<and> tree_sat I J (tcomb l r) = conn (tree_sat I J l) (tree_sat I J r)"
proof -
  have w: "weight op l + weight op r \<le> length (enc l) + length (enc r)"
    using weight_le [of op l] weight_le [of op r] by simp
  then have "length (enc (tcomb l r)) \<le> max 2 (Suc (length (enc l) + length (enc r)))"
    using length_enc_weight [of "tcomb l r" op] weight_tcomb [OF assms(1,2)] by linarith
  moreover have "weight op l + weight op r < 2 ^ 16" using w assms(3) by linarith
  ultimately show ?thesis using comb_enc tcomb_ok tcomb_sat assms(1,2) by simp
qed

lemma fold_right:
  assumes "list_all tree_ok ts" and "tree_ok u"
    and "sum_list (map (weight op) ts) + weight op u < 2 ^ 16"
  shows "fold comb (map enc ts) (enc u) = enc (fold tcomb ts u)
    \<and> tree_ok (fold tcomb ts u)
    \<and> weight op (fold tcomb ts u) \<le> sum_list (map (weight op) ts) + weight op u
    \<and> tree_sat I J (fold tcomb ts u) = fold (\<lambda>t b. conn (tree_sat I J t) b) ts (tree_sat I J u)"
  using assms
proof (induction ts arbitrary: u)
  case (Cons t ts)
  then have t: "tree_ok t" "tree_ok u" and tu: "weight op t + weight op u < 2 ^ 16" by auto
  note w = weight_tcomb [OF t]
  have "sum_list (map (weight op) ts) + weight op (tcomb t u) < 2 ^ 16"
    using Cons.prems(3) w by simp
  with Cons.IH [of "tcomb t u"] Cons.prems(1) tcomb_ok [OF t tu] w
  show ?case by (auto simp: comb_enc [OF t tu] tcomb_sat [OF t])
qed auto

lemma fold_left:
  assumes "list_all tree_ok ts" and "tree_ok u"
    and "sum_list (map (weight op) ts) + weight op u < 2 ^ 16"
  shows "foldl comb (enc u) (map enc ts) = enc (foldl tcomb u ts)
    \<and> tree_ok (foldl tcomb u ts)
    \<and> weight op (foldl tcomb u ts) \<le> sum_list (map (weight op) ts) + weight op u
    \<and> tree_sat I J (foldl tcomb u ts) = fold (\<lambda>t b. conn (tree_sat I J t) b) ts (tree_sat I J u)"
  using assms
proof (induction ts arbitrary: u)
  case (Cons t ts)
  then have t: "tree_ok u" "tree_ok t" and tu: "weight op u + weight op t < 2 ^ 16" by auto
  note w = weight_tcomb [OF t]
  have "sum_list (map (weight op) ts) + weight op (tcomb u t) < 2 ^ 16"
    using Cons.prems(3) w by simp
  with Cons.IH [of "tcomb u t"] Cons.prems(1) tcomb_ok [OF t tu] w
  show ?case by (auto simp: comb_enc [OF t tu] tcomb_sat [OF t] conn_comm)
qed auto

end

interpretation conj: connective OpAnd and_code tree_and "(\<and>)"
  by unfold_locales (auto simp: and_code_enc tree_and_ok weight_tree_and tree_and_sat)

interpretation disj: connective OpOr or_code tree_or "(\<or>)"
  by unfold_locales (auto simp: or_code_enc tree_or_ok weight_tree_or tree_or_sat)

lemma fold_conj: "fold (\<lambda>t b. P t \<and> b) ts b \<longleftrightarrow> list_all P ts \<and> b"
  by (induction ts arbitrary: b) auto

lemma fold_disj: "fold (\<lambda>t b. P t \<or> b) ts b \<longleftrightarrow> list_ex P ts \<or> b"
  by (induction ts arbitrary: b) auto

section \<open>Comparison operators\<close>

text \<open>
  A comparison loop walks the two vectors word by word; what is left to read is always the
  code of a sequence of formulas.
\<close>

definition code_seq :: "'n::len acc_code \<Rightarrow> bool" where
  "code_seq ws = (\<exists>ts. list_all node_ok ts \<and> ws = concat (map enc ts))"

lemma code_seq_Nil [simp]: "code_seq []"
  unfolding code_seq_def by (rule exI [of _ "[]"]) simp

lemma code_seq_enc: "node_ok t \<Longrightarrow> code_seq (enc t)"
  unfolding code_seq_def by (rule exI [of _ "[t]"]) simp

lemma code_seq_Cons [consumes 1, case_names node leaf]:
  assumes "code_seq (w # ws)"
  obtains (node) op n where "w = Sub op n" "op = OpAnd \<or> op = OpOr" "code_seq ws"
  | (leaf) op m ws' where "w = Sub op 1" "op \<noteq> OpAnd" "op \<noteq> OpOr" "ws = Mark m # ws'" "code_seq ws'"
proof -
  from assms obtain t ts where t: "node_ok t" "list_all node_ok ts" "w # ws = enc t @ concat (map enc ts)"
    unfolding code_seq_def by (metis concat.simps(1) list.distinct(1) list.exhaust list.pred_inject(2)
        list.simps(8,9) concat.simps(2))
  have seq: "code_seq (concat (map enc us) @ concat (map enc ts))" if "list_all node_ok us" for us
    unfolding code_seq_def using that t(2) by (intro exI [of _ "us @ ts"]) simp
  show ?thesis
  proof (cases t)
    case (TAnd us)
    then show ?thesis using t node [of OpAnd] seq [of us] by (auto simp: Let_def)
  next
    case (TOr us)
    then show ?thesis using t node [of OpOr] seq [of us] by (auto simp: Let_def)
  qed (use t leaf seq [of "[]"] in \<open>auto simp: Let_def\<close>)
qed

lemma code_eq_loop_iff: "code_seq c \<Longrightarrow> code_seq d \<Longrightarrow> code_eq_loop c d \<longleftrightarrow> c = d"
proof (induction c d rule: code_eq_loop.induct)
  case (2 op sz ws oop osz vs)
  from "2.prems"(1) show ?case
  proof (cases rule: code_seq_Cons)
    case c: (node op' n)
    from "2.prems"(2) show ?thesis
      by (cases rule: code_seq_Cons) (use c 2 in auto)
  next
    case c: (leaf op' m ws')
    from "2.prems"(2) show ?thesis
      by (cases rule: code_seq_Cons) (use c 2 in auto)
  qed
qed (auto elim: code_seq_Cons)

lemma wf_code_seq: "wf_code c \<Longrightarrow> code_seq c"
  by (auto simp: wf_code_def tree_ok_def intro: code_seq_enc)

lemma code_eq_iff: "wf_code c \<Longrightarrow> wf_code d \<Longrightarrow> code_eq c d \<longleftrightarrow> c = d"
  by (auto simp: code_eq_def code_eq_loop_iff wf_code_seq)

section \<open>Reading a code back\<close>

lemma concat_enc_inject:
  assumes "\<And>t u. t \<in> set ts \<Longrightarrow> node_ok u \<Longrightarrow> enc t = enc u \<Longrightarrow> t = u"
    and "list_all node_ok ts" "list_all node_ok us" "concat (map enc ts) = concat (map enc us)"
  shows "ts = us"
proof -
  have "map enc ts = map enc us" using assms(2-4) children_enc by metis
  then show ?thesis using assms(1,3)
    by (auto simp: list_all_iff list_eq_iff_nth_eq dest: map_eq_imp_length_eq)
qed

lemma node_inject: "node_ok t \<Longrightarrow> node_ok u \<Longrightarrow> enc t = enc u \<Longrightarrow> t = u"
proof (induction t arbitrary: u)
  case (TAnd ts)
  then obtain us where u: "u = TAnd us" by (cases u) (auto simp: Let_def)
  with TAnd show ?case by (auto simp: Let_def list_all_iff intro!: concat_enc_inject [of ts us])
next
  case (TOr ts)
  then obtain us where u: "u = TOr us" by (cases u) (auto simp: Let_def)
  with TOr show ?case by (auto simp: Let_def list_all_iff intro!: concat_enc_inject [of ts us])
next
  case (TInf m)
  then show ?case by (cases u) (auto simp: Let_def)
next
  case (TFin m)
  then show ?case by (cases u) (auto simp: Let_def)
next
  case (TInfNeg m)
  then show ?case by (cases u) (auto simp: Let_def)
next
  case (TFinNeg m)
  then show ?case by (cases u) (auto simp: Let_def)
qed simp

lemma enc_inject: "tree_ok t \<Longrightarrow> tree_ok u \<Longrightarrow> enc t = enc u \<longleftrightarrow> t = u"
  using node_inject [of t u] enc_eq_Nil [of t] enc_eq_Nil [of u] by (auto simp: tree_ok_def simp del: enc_eq_Nil)

section \<open>Properties of the codes\<close>

text \<open>
  Property C13: \<open>operator&=\<close> and \<open>operator|=\<close> implement conjunction and disjunction.  On the
  codes of two formulas whose sizes fit, the spliced vector is the code of a formula that is
  true exactly when both, respectively one, of the two are; the result takes at most one word
  more than its operands.
\<close>

theorem connectives_implemented:
  assumes "tree_ok l" and "tree_ok r" and "length (enc l) + length (enc r) < 2 ^ 16"
  shows "(\<exists>t. and_code (enc l) (enc r) = enc t \<and> tree_ok t
        \<and> (\<forall>I J. tree_sat I J t \<longleftrightarrow> tree_sat I J l \<and> tree_sat I J r)
        \<and> length (enc t) \<le> max 2 (Suc (length (enc l) + length (enc r))))
    \<and> (\<exists>t. or_code (enc l) (enc r) = enc t \<and> tree_ok t
        \<and> (\<forall>I J. tree_sat I J t \<longleftrightarrow> tree_sat I J l \<or> tree_sat I J r)
        \<and> length (enc t) \<le> max 2 (Suc (length (enc l) + length (enc r))))"
  using conj.comb_tree [OF assms] disj.comb_tree [OF assms] by blast

theorem connectives_implemented_witness:
  "\<exists>t. and_code (enc (TAnd [TFin 1, TInf 2])) (enc (TInf (4 :: 32 mark_t))) = enc t \<and> tree_ok t"
  using connectives_implemented [of "TAnd [TFin 1, TInf 2]" "TInf (4 :: 32 mark_t)"]
  by (auto simp: tree_ok_def)

text \<open>
  \<open>operator==\<close>, which compares the words back to front and skips the marks of
  connectives, is equality on well-formed codes, and two formulas with the same code are
  the same formula.
\<close>

theorem code_equality:
  assumes "tree_ok t" and "tree_ok u"
  shows "code_eq (enc t) (enc u) \<longleftrightarrow> t = u"
proof -
  have "wf_code (enc t)" "wf_code (enc u)" using assms by (auto simp: wf_code_def)
  then show ?thesis using code_eq_iff enc_inject [OF assms] by auto
qed

theorem code_equality_witness:
  "\<not> code_eq (enc (TAnd [TFin 1, TInf 2])) (enc (TAnd [TFin 1, TInf (3 :: 32 mark_t)]))"
  using code_equality [of "TAnd [TFin 1, TInf 2]" "TAnd [TFin 1, TInf (3 :: 32 mark_t)]"]
  by (simp add: tree_ok_def)

end
