(* ===== verification/AccEval.thy ===== *)
theory AccEval
  imports AccCode Trival "HOL-Library.Infinite_Set"
begin

unbundle bit_operations_syntax

text \<open>
  Evaluation of acceptance formulas: the static functions \<open>eval\<close>, \<open>partial_eval\<close> and \<open>eval_sets\<close>
  of \<^verbatim>\<open>spot/twa/acc.cc\<close> and their entry points \<open>accepting\<close>, \<open>maybe_accepting\<close>,
  \<open>inf_satisfiable\<close>, \<open>accepting_sets\<close> and \<open>check_fin_acceptance\<close>.

  Each evaluator is a recursion on the words of a code.  The loop over the operands of a
  connective runs over \<open>children\<close> of the \<open>sub.size\<close> words below the operator, in the order
  the C++ loop visits them, and stops where it stops.  The branches of \<open>InfNeg\<close> and
  \<open>FinNeg\<close> return the value that follows \<open>SPOT_UNREACHABLE()\<close> in the code; the theorems are
  about codes that have no such word (\<open>plain\<close>).

  The theorems relate the evaluators to the truth of the formula, and \<open>accepting\<close> to the
  acceptance of an ultimately periodic run.
\<close>

section \<open>Evaluation on a mark\<close>

lemma children_take_shorter [termination_simp]:
  "c \<in> set (children (take n ws)) \<Longrightarrow> length c < Suc (length ws)"
  using children_shorter by fastforce

fun eval :: "'n::len mark_t \<Rightarrow> 'n acc_code \<Rightarrow> bool" where
  "eval io (Sub OpAnd sz # ws) = list_all (eval io) (children (take sz ws))"
| "eval io (Sub OpOr sz # ws) = list_ex (eval io) (children (take sz ws))"
| "eval io (Sub OpInf sz # Mark m # ws) = (m AND io = m)"
| "eval io (Sub OpFin sz # Mark m # ws) = (m AND io \<noteq> m)"
| "eval io ws = False"

fun trival_and_loop :: "trival \<Rightarrow> trival list \<Rightarrow> trival" where
  "trival_and_loop res [] = res"
| "trival_and_loop res (v # vs) =
     (let res = trival_and res v in if is_false res then res else trival_and_loop res vs)"

fun trival_or_loop :: "trival \<Rightarrow> trival list \<Rightarrow> trival" where
  "trival_or_loop res [] = res"
| "trival_or_loop res (v # vs) =
     (let res = trival_or res v in if is_true res then res else trival_or_loop res vs)"

fun partial_eval :: "'n::len mark_t \<Rightarrow> 'n mark_t \<Rightarrow> 'n acc_code \<Rightarrow> trival" where
  "partial_eval io ap (Sub OpAnd sz # ws) =
     trival_and_loop (trival_of_bool True) (map (partial_eval io ap) (children (take sz ws)))"
| "partial_eval io ap (Sub OpOr sz # ws) =
     trival_or_loop (trival_of_bool False) (map (partial_eval io ap) (children (take sz ws)))"
| "partial_eval io ap (Sub OpInf sz # Mark m # ws) = trival_of_bool (m AND io = m)"
| "partial_eval io ap (Sub OpFin sz # Mark m # ws) =
     (if m AND ap = m then trival_of_bool False
      else if m AND io \<noteq> m then trival_of_bool True
      else trival_maybe)"
| "partial_eval io ap ws = trival_of_bool False"

fun sets_and_loop :: "'n::len mark_t \<Rightarrow> (acc_error + 'n mark_t) list \<Rightarrow> acc_error + 'n mark_t" where
  "sets_and_loop m [] = Inr m"
| "sets_and_loop m (Inl e # ss) = Inl e"
| "sets_and_loop m (Inr s # ss) = (if s \<noteq> 0 then sets_and_loop (m OR s) ss else Inr 0)"

fun sets_or_loop :: "(acc_error + 'n::len mark_t) list \<Rightarrow> acc_error + 'n mark_t" where
  "sets_or_loop [] = Inr 0"
| "sets_or_loop (Inl e # ss) = Inl e"
| "sets_or_loop (Inr s # ss) = (if s \<noteq> 0 then Inr s else sets_or_loop ss)"

fun eval_sets :: "'n::len mark_t \<Rightarrow> 'n acc_code \<Rightarrow> acc_error + 'n mark_t" where
  "eval_sets io (Sub OpAnd sz # ws) = sets_and_loop 0 (map (eval_sets io) (children (take sz ws)))"
| "eval_sets io (Sub OpOr sz # ws) = sets_or_loop (map (eval_sets io) (children (take sz ws)))"
| "eval_sets io (Sub OpInf sz # Mark m # ws) = (if m AND io = m then Inr m else Inr 0)"
| "eval_sets io ws = Inl Unreachable"

definition accepting :: "'n::len acc_code \<Rightarrow> 'n mark_t \<Rightarrow> bool" where
  "accepting c io = (if c = [] then True else eval io c)"

definition maybe_accepting :: "'n::len acc_code \<Rightarrow> 'n mark_t \<Rightarrow> 'n mark_t \<Rightarrow> trival" where
  "maybe_accepting c io ap =
     (if c = [] then trival_of_bool True else partial_eval (io OR ap) ap c)"

definition inf_satisfiable :: "'n::len acc_code \<Rightarrow> 'n mark_t \<Rightarrow> bool" where
  "inf_satisfiable c io = (\<not> is_false (maybe_accepting c io 0))"

fun check_fin_loop :: "'n::len acc_code \<Rightarrow> bool" where
  "check_fin_loop [] = False"
| "check_fin_loop (Sub op sz # ws) =
     (case op of
        OpAnd \<Rightarrow> check_fin_loop ws
      | OpOr \<Rightarrow> check_fin_loop ws
      | OpInf \<Rightarrow> check_fin_loop (drop 1 ws)
      | OpInfNeg \<Rightarrow> check_fin_loop (drop 1 ws)
      | OpFin \<Rightarrow> (case ws of Mark m # ws' \<Rightarrow> if m = 0 then check_fin_loop ws' else True | _ \<Rightarrow> True)
      | OpFinNeg \<Rightarrow> True)"
| "check_fin_loop (Mark m # ws) = False"

definition check_fin_acceptance :: "'n::len acc_code \<Rightarrow> bool" where
  "check_fin_acceptance c = (if c = [] then False else check_fin_loop c)"

section \<open>Evaluation computes the truth of the formula\<close>

fun plain :: "'n::len acc_tree \<Rightarrow> bool" where
  "plain (TAnd ts) = list_all plain ts"
| "plain (TOr ts) = list_all plain ts"
| "plain (TInfNeg m) = False"
| "plain (TFinNeg m) = False"
| "plain _ = True"

lemma mark_and_eq_iff: "m AND n = m \<longleftrightarrow> (\<forall>i. bit m i \<longrightarrow> bit n i)" for m :: "'n::len mark_t"
  by (simp add: word_and_eq_iff_subset subset_iff)

lemma enc_node: "enc (TAnd ts) = Sub OpAnd (length (concat (map enc ts))) # concat (map enc ts)"
  "enc (TOr ts) = Sub OpOr (length (concat (map enc ts))) # concat (map enc ts)"
  by (simp_all add: Let_def)

lemma eval_enc: "node_ok t \<Longrightarrow> plain t \<Longrightarrow> eval io (enc t) \<longleftrightarrow> tree_sat (bit io) J t"
proof (induction t)
  case (TAnd ts)
  then show ?case
    by (auto simp: enc_node children_enc list.pred_map list_all_iff simp del: enc.simps)
next
  case (TOr ts)
  then show ?case
    by (auto simp: enc_node children_enc list_ex_iff list_all_iff simp del: enc.simps)
qed (auto simp: mark_and_eq_iff)

lemma accepting_enc: "tree_ok t \<Longrightarrow> plain t \<Longrightarrow> accepting (enc t) io \<longleftrightarrow> tree_sat (bit io) J t"
  by (auto simp: accepting_def tree_ok_def eval_enc [where J = J])

lemma trival_and_loop_yes: "trival_and_loop r vs = yes_value \<longleftrightarrow> r = yes_value \<and> (\<forall>v\<in>set vs. v = yes_value)"
proof (induction vs arbitrary: r)
  case (Cons v vs)
  show ?case by (cases r; cases v) (simp_all add: Cons trival_defs)
qed simp

lemma trival_and_loop_no: "trival_and_loop r vs = no_value \<longleftrightarrow> r = no_value \<or> (\<exists>v\<in>set vs. v = no_value)"
proof (induction vs arbitrary: r)
  case (Cons v vs)
  show ?case by (cases r; cases v) (simp_all add: Cons trival_defs)
qed simp

lemma trival_or_loop_yes: "trival_or_loop r vs = yes_value \<longleftrightarrow> r = yes_value \<or> (\<exists>v\<in>set vs. v = yes_value)"
proof (induction vs arbitrary: r)
  case (Cons v vs)
  show ?case by (cases r; cases v) (simp_all add: Cons trival_defs)
qed simp

lemma trival_or_loop_no: "trival_or_loop r vs = no_value \<longleftrightarrow> r = no_value \<and> (\<forall>v\<in>set vs. v = no_value)"
proof (induction vs arbitrary: r)
  case (Cons v vs)
  show ?case by (cases r; cases v) (simp_all add: Cons trival_defs)
qed simp

lemmas trival_loops = trival_and_loop_yes trival_and_loop_no trival_or_loop_yes trival_or_loop_no

lemma trival_of_bool_eq [simp]:
  "trival_of_bool b = yes_value \<longleftrightarrow> b" "trival_of_bool b = no_value \<longleftrightarrow> \<not> b" "trival_of_bool b \<noteq> maybe_value"
  by (auto simp: trival_of_bool_def)

text \<open>
  A decided result of the partial evaluation: \<open>yes\<close> is the truth on the whole mark \<open>io\<close>, and
  \<open>no\<close> excludes every mark between \<open>ap\<close> and \<open>io\<close>.
\<close>

lemma partial_eval_yes:
  "node_ok t \<Longrightarrow> plain t \<Longrightarrow> partial_eval io ap (enc t) = yes_value \<Longrightarrow> tree_sat (bit io) J t"
proof (induction t)
  case (TAnd ts)
  then show ?case
    by (auto simp: enc_node children_enc trival_loops list_all_iff simp del: enc.simps)
next
  case (TOr ts)
  then show ?case
    by (force simp: enc_node children_enc trival_loops list_ex_iff list_all_iff simp del: enc.simps)
qed (auto simp: mark_and_eq_iff trival_maybe_def split: if_splits)

lemma partial_eval_no:
  assumes "bits ap \<subseteq> bits x" "bits x \<subseteq> bits io"
  shows "node_ok t \<Longrightarrow> plain t \<Longrightarrow> partial_eval io ap (enc t) = no_value \<Longrightarrow> \<not> tree_sat (bit x) J t"
proof (induction t)
  case (TAnd ts)
  then show ?case
    by (force simp: enc_node children_enc trival_loops list_ex_iff list_all_iff simp del: enc.simps)
next
  case (TOr ts)
  then show ?case
    by (force simp: enc_node children_enc trival_loops list_ex_iff list_all_iff simp del: enc.simps)
qed (use assms in \<open>auto simp: mark_and_eq_iff trival_maybe_def subset_iff split: if_splits\<close>)

lemma trival_bool_ops [simp]:
  "trival_and (trival_of_bool a) (trival_of_bool b) = trival_of_bool (a \<and> b)"
  "trival_or (trival_of_bool a) (trival_of_bool b) = trival_of_bool (a \<or> b)"
  "is_false (trival_of_bool a) \<longleftrightarrow> \<not> a" "is_true (trival_of_bool a) \<longleftrightarrow> a"
  by (auto simp: trival_defs)

lemma trival_and_loop_bool: "trival_and_loop (trival_of_bool a) (map (trival_of_bool \<circ> f) xs) = trival_of_bool (a \<and> list_all f xs)"
  by (induction xs arbitrary: a) (auto simp: Let_def)

lemma trival_or_loop_bool: "trival_or_loop (trival_of_bool a) (map (trival_of_bool \<circ> f) xs) = trival_of_bool (a \<or> list_ex f xs)"
  by (induction xs arbitrary: a) (auto simp: Let_def)

lemma partial_eval_exact:
  "node_ok t \<Longrightarrow> plain t \<Longrightarrow> partial_eval io io (enc t) = trival_of_bool (tree_sat (bit io) J t)"
proof (induction t)
  case (TAnd ts)
  then have "map (partial_eval io io) (map enc ts) = map (trival_of_bool \<circ> tree_sat (bit io) J) ts"
    by (auto simp: list_all_iff)
  with TAnd.prems show ?case
    by (simp add: enc_node children_enc trival_and_loop_bool del: enc.simps map_map)
next
  case (TOr ts)
  then have "map (partial_eval io io) (map enc ts) = map (trival_of_bool \<circ> tree_sat (bit io) J) ts"
    by (auto simp: list_all_iff)
  with TOr.prems show ?case
    by (simp add: enc_node children_enc trival_or_loop_bool del: enc.simps map_map)
qed (auto simp: mark_and_eq_iff trival_of_bool_def)

section \<open>Formulas without \<open>Fin\<close>\<close>

fun has_fin :: "'n::len acc_tree \<Rightarrow> bool" where
  "has_fin (TAnd ts) = list_ex has_fin ts"
| "has_fin (TOr ts) = list_ex has_fin ts"
| "has_fin (TFin m) = (m \<noteq> 0)"
| "has_fin (TFinNeg m) = True"
| "has_fin _ = False"

lemma check_fin_loop_enc:
  "node_ok t \<Longrightarrow> check_fin_loop (enc t @ ws) \<longleftrightarrow> has_fin t \<or> check_fin_loop ws"
proof (induction t arbitrary: ws)
  case (TAnd ts)
  have "check_fin_loop (concat (map enc us) @ ws) \<longleftrightarrow> list_ex has_fin us \<or> check_fin_loop ws"
    if "set us \<subseteq> set ts" for us
    using that TAnd by (induction us) (auto simp: list_all_iff)
  from this [of ts] show ?case by (simp add: enc_node del: enc.simps)
next
  case (TOr ts)
  have "check_fin_loop (concat (map enc us) @ ws) \<longleftrightarrow> list_ex has_fin us \<or> check_fin_loop ws"
    if "set us \<subseteq> set ts" for us
    using that TOr by (induction us) (auto simp: list_all_iff)
  from this [of ts] show ?case by (simp add: enc_node del: enc.simps)
qed auto

lemma check_fin_acceptance_enc: "tree_ok t \<Longrightarrow> check_fin_acceptance (enc t) \<longleftrightarrow> has_fin t"
  using check_fin_loop_enc [of t "[]"] by (auto simp: check_fin_acceptance_def tree_ok_def)

text \<open>Without \<open>Fin\<close>, seeing more sets never makes a formula false.\<close>

lemma finless_mono:
  assumes "\<not> has_fin t" "plain t" "bits m \<subseteq> bits n" "tree_sat (bit m) J t"
  shows "tree_sat (bit n) J t"
  using assms(1,2,4)
proof (induction t)
  case (TAnd ts)
  then show ?case by (auto simp: list_all_iff list_ex_iff)
next
  case (TOr ts)
  then show ?case by (auto simp: list_all_iff list_ex_iff)
qed (use assms(3) in \<open>auto simp: subset_iff\<close>)

text \<open>
  A formula whose leaves are all \<open>Inf\<close> of at least one set; on these \<open>eval_sets\<close> never
  reaches \<open>SPOT_UNREACHABLE()\<close> and its empty result means that the formula is false.
\<close>

fun inf_only :: "'n::len acc_tree \<Rightarrow> bool" where
  "inf_only (TAnd ts) = list_all inf_only ts"
| "inf_only (TOr ts) = list_all inf_only ts"
| "inf_only (TInf m) = (m \<noteq> 0)"
| "inf_only _ = False"

definition sets_ok :: "'n::len mark_t \<Rightarrow> 'n acc_tree \<Rightarrow> acc_error + 'n mark_t \<Rightarrow> bool" where
  "sets_ok io t r \<longleftrightarrow> (\<exists>s. r = Inr s \<and> bits s \<subseteq> bits io \<and>
     (s \<noteq> 0 \<longleftrightarrow> tree_sat (bit io) (\<lambda>_. False) t) \<and> (s \<noteq> 0 \<longrightarrow> tree_sat (bit s) (\<lambda>_. False) t))"

lemma inf_only_plain: "inf_only t \<Longrightarrow> plain t \<and> \<not> has_fin t"
  by (induction t) (auto simp: list_all_iff list_ex_iff)

lemma sets_or_loop_ok:
  assumes "list_all2 (sets_ok io) ts rs"
  shows "sets_ok io (TOr ts) (sets_or_loop rs)"
  using assms
proof (induction ts rs rule: list_all2_induct)
  case (Cons t ts r rs)
  then show ?case by (auto simp: sets_ok_def)
qed (simp add: sets_ok_def)

lemma sets_and_loop_ok:
  assumes "list_all2 (sets_ok io) ts rs" and "list_all inf_only ts"
    and "bits m \<subseteq> bits io" and "list_all (tree_sat (bit m) (\<lambda>_. False)) us"
    and "list_all inf_only us" "us @ ts \<noteq> []" "m = 0 \<longleftrightarrow> us = []"
  shows "sets_ok io (TAnd (us @ ts)) (sets_and_loop m rs)"
  using assms
proof (induction ts rs arbitrary: us m rule: list_all2_induct)
  case Nil
  have "tree_sat (bit io) (\<lambda>_. False) u" if "u \<in> set us" for u
    using that Nil finless_mono [of u m io] inf_only_plain [of u] by (auto simp: list_all_iff)
  with Nil show ?case by (auto simp: sets_ok_def list_all_iff)
next
  case (Cons t ts r rs)
  obtain s where s: "r = Inr s" "bits s \<subseteq> bits io" "s \<noteq> 0 \<longleftrightarrow> tree_sat (bit io) (\<lambda>_. False) t"
    "s \<noteq> 0 \<Longrightarrow> tree_sat (bit s) (\<lambda>_. False) t" using Cons.hyps(1) by (auto simp: sets_ok_def)
  show ?case
  proof (cases "s = 0")
    case True
    with s show ?thesis by (auto simp: sets_ok_def)
  next
    case False
    have mono: "tree_sat (bit (m OR s)) (\<lambda>_. False) u"
      if "tree_sat (bit k) (\<lambda>_. False) u" "inf_only u" "k = m \<or> k = s" for u k
      using that finless_mono [of u k "m OR s"] inf_only_plain [of u] by auto
    have "sets_ok io (TAnd ((us @ [t]) @ ts)) (sets_and_loop (m OR s) rs)"
    proof (rule Cons.IH)
      show "list_all (tree_sat (bit (m OR s)) (\<lambda>_. False)) (us @ [t])"
        using mono [of m] mono [of s] s(4) False Cons.prems by (auto simp: list_all_iff)
      show "(m OR s = 0) = (us @ [t] = [])"
        using False bits_empty_iff [of "m OR s"] bits_empty_iff [of s] by auto
    qed (use Cons.prems s in auto)
    with s False show ?thesis by simp
  qed
qed

lemma eval_sets_ok: "node_ok t \<Longrightarrow> inf_only t \<Longrightarrow> sets_ok io t (eval_sets io (enc t))"
proof (induction t)
  case (TAnd ts)
  then have "list_all2 (sets_ok io) ts (map (eval_sets io) (map enc ts))"
    by (auto simp: list_all2_conv_all_nth list_all_iff)
  from sets_and_loop_ok [OF this, of 0 "[]"] TAnd.prems show ?case
    by (simp add: enc_node children_enc del: enc.simps)
next
  case (TOr ts)
  then have "list_all2 (sets_ok io) ts (map (eval_sets io) (map enc ts))"
    by (auto simp: list_all2_conv_all_nth list_all_iff)
  from sets_or_loop_ok [OF this] TOr.prems show ?case
    by (simp add: enc_node children_enc del: enc.simps)
qed (auto simp: sets_ok_def mark_and_eq_iff)

section \<open>Runs\<close>

text \<open>
  A run gives the mark seen at each step.  It satisfies a formula when the formula is true of
  the sets it visits infinitely often; an ultimately periodic run visits the sets of its
  cycle.
\<close>

definition inf_often :: "(nat \<Rightarrow> 'n::len mark_t) \<Rightarrow> nat \<Rightarrow> bool" where
  "inf_often run i \<longleftrightarrow> infinite {n. bit (run n) i}"

definition inf_often_neg :: "(nat \<Rightarrow> 'n::len mark_t) \<Rightarrow> nat \<Rightarrow> bool" where
  "inf_often_neg run i \<longleftrightarrow> infinite {n. \<not> bit (run n) i}"

definition run_sat :: "(nat \<Rightarrow> 'n::len mark_t) \<Rightarrow> 'n acc_tree \<Rightarrow> bool" where
  "run_sat run t = tree_sat (inf_often run) (inf_often_neg run) t"

definition lasso :: "'a list \<Rightarrow> 'a list \<Rightarrow> nat \<Rightarrow> 'a" where
  "lasso u v n = (if n < length u then u ! n else v ! ((n - length u) mod length v))"

lemma infinite_lasso:
  assumes "v \<noteq> []"
  shows "infinite {n. P (lasso u v n)} \<longleftrightarrow> (\<exists>x\<in>set v. P x)"
proof
  assume "infinite {n. P (lasso u v n)}"
  then obtain n where "n \<ge> length u" "P (lasso u v n)"
    by (metis (mono_tags, lifting) infinite_nat_iff_unbounded_le mem_Collect_eq)
  then show "\<exists>x\<in>set v. P x" using assms
    by (intro bexI [of _ "v ! ((n - length u) mod length v)"]) (auto simp: lasso_def)
next
  assume "\<exists>x\<in>set v. P x"
  then obtain i where i: "i < length v" "P (v ! i)" by (auto simp: in_set_conv_nth)
  have "\<exists>n\<ge>k. P (lasso u v n)" for k
  proof (intro exI conjI)
    show "k \<le> length u + (i + k * length v)" using assms by (cases v) auto
    show "P (lasso u v (length u + (i + k * length v)))" using i by (simp add: lasso_def)
  qed
  then show "infinite {n. P (lasso u v n)}"
    by (simp add: infinite_nat_iff_unbounded_le)
qed

lemma bit_foldl_or: "bit (foldl (OR) m v) i \<longleftrightarrow> bit m i \<or> (\<exists>x\<in>set v. bit x i)" for m :: "'n::len mark_t"
  by (induction v arbitrary: m) (auto simp: bit_or_iff)

lemma inf_often_lasso: "v \<noteq> [] \<Longrightarrow> inf_often (lasso u v) i \<longleftrightarrow> bit (foldl (OR) 0 v) i"
  by (simp add: inf_often_def infinite_lasso [of v "\<lambda>m. bit m i"] bit_foldl_or)

lemma tree_sat_plain: "plain t \<Longrightarrow> tree_sat I J t = tree_sat I J' t"
  by (induction t) (auto simp: list_all_iff list_ex_iff)

section \<open>Properties of the evaluators\<close>

text \<open>
  Property C14: on every ultimately periodic run, \<open>accepting\<close> applied to the union of the
  marks of the cycle decides whether the run satisfies the acceptance formula.
\<close>

theorem accepting_lasso_run:
  assumes "v \<noteq> []" and "tree_ok t" and "plain t"
  shows "accepting (enc t) (foldl (OR) 0 v) \<longleftrightarrow> run_sat (lasso u v) t"
proof -
  have "inf_often (lasso u v) = bit (foldl (OR) 0 v)"
    using assms(1) by (simp add: inf_often_lasso fun_eq_iff)
  then show ?thesis using assms(2,3) by (simp add: run_sat_def accepting_enc)
qed

theorem accepting_lasso_run_witness:
  "accepting (enc (TAnd [TFin 1, TInf 6])) (foldl (OR) 0 [2, 4 :: 32 mark_t])
     \<and> run_sat (lasso [1, 7] [2, 4]) (TAnd [TFin 1, TInf (6 :: 32 mark_t)])"
  using accepting_lasso_run [of "[2, 4]" "TAnd [TFin 1, TInf (6 :: 32 mark_t)]" "[1, 7]"]
  by (simp add: tree_ok_def accepting_def)

text \<open>
  Property C17: a decided answer of \<open>maybe_accepting\<close> is right.  When it says \<open>yes\<close>, the sets
  \<open>io\<close> seen so far with the sets \<open>ap\<close> present everywhere are accepting; when it says \<open>no\<close>, no
  mark that contains \<open>ap\<close> and whose other sets are among \<open>io\<close> is accepting; and when every
  set is present everywhere it decides.
\<close>

theorem maybe_accepting_sound:
  assumes "tree_ok t" and "plain t"
  shows "(maybe_accepting (enc t) io ap = yes_value \<longrightarrow> accepting (enc t) (io OR ap))
    \<and> (maybe_accepting (enc t) io ap = no_value \<longrightarrow>
        (\<forall>x. bits ap \<subseteq> bits x \<and> bits x \<subseteq> bits io \<union> bits ap \<longrightarrow> \<not> accepting (enc t) x))
    \<and> maybe_accepting (enc t) 0 ap = trival_of_bool (accepting (enc t) ap)"
proof (cases "t = TT")
  case False
  then have t: "node_ok t" using assms(1) by (simp add: tree_ok_def)
  note acc = accepting_enc [OF assms, of _ "\<lambda>_. False"]
  show ?thesis
    using partial_eval_yes [OF t assms(2), of "io OR ap" ap] partial_eval_exact [OF t assms(2), of ap]
      partial_eval_no [of ap _ "io OR ap" t, OF _ _ t assms(2)] False
    by (auto simp: maybe_accepting_def acc)
qed (simp add: maybe_accepting_def accepting_def)

theorem maybe_accepting_sound_witness:
  "\<not> accepting (enc (TAnd [TFin 1, TInf 6])) (5 :: 32 mark_t)"
proof -
  have "maybe_accepting (enc (TAnd [TFin 1, TInf 6])) (6 :: 32 mark_t) 1 = no_value"
    by (simp add: maybe_accepting_def trival_of_bool_def)
      (simp add: trival_defs)
  moreover have "bits (1 :: 32 mark_t) \<subseteq> bits (5 :: 32 mark_t)"
    "bits (5 :: 32 mark_t) \<subseteq> bits (6 :: 32 mark_t) \<union> bits (1 :: 32 mark_t)"
    unfolding bits_or [symmetric] word_and_eq_iff_subset [symmetric] by simp_all
  ultimately show ?thesis
    using maybe_accepting_sound [of "TAnd [TFin 1, TInf (6 :: 32 mark_t)]" 6 1] by (simp add: tree_ok_def)
qed

text \<open>
  \<open>check_fin_acceptance\<close>, which decides what is stored in
  \<open>uses_fin_acceptance_\<close>, finds exactly the formulas with a \<open>Fin\<close> word other than \<open>f\<close>; when it
  finds none, seeing more sets keeps a formula satisfied.
\<close>

theorem check_fin_acceptance_monotone:
  assumes "tree_ok t" and "plain t"
  shows "(check_fin_acceptance (enc t) \<longleftrightarrow> has_fin t)
    \<and> (\<not> check_fin_acceptance (enc t) \<and> bits m \<subseteq> bits n \<and> accepting (enc t) m
         \<longrightarrow> accepting (enc t) n)"
  using finless_mono [of t m n "\<lambda>_. False"] assms
  by (simp add: check_fin_acceptance_enc accepting_enc [where J = "\<lambda>_. False"])

theorem check_fin_acceptance_monotone_witness:
  "accepting (enc (TOr [TFin 0, TInf 6])) (7 :: 32 mark_t)"
proof -
  have "bits (6 :: 32 mark_t) \<subseteq> bits (7 :: 32 mark_t)"
    unfolding word_and_eq_iff_subset [symmetric] by simp
  then show ?thesis
    using check_fin_acceptance_monotone [of "TOr [TFin 0, TInf (6 :: 32 mark_t)]" 6 7]
    by (simp add: tree_ok_def check_fin_acceptance_def accepting_def)
qed

end
