(* ===== verification/AccTransform.thy ===== *)
theory AccTransform
  imports AccEval
begin

unbundle bit_operations_syntax

text \<open>
  Transformations of acceptance formulas, \<^verbatim>\<open>spot/twa/acc.cc\<close>: \<open>complement\<close>, \<open>strip\<close>,
  \<open>remove\<close>, \<open>force_inf\<close>, the shift \<open>operator<<=\<close> of \<^verbatim>\<open>acc.hh\<close>, and the renaming
  \<open>apply_permutation\<close>; and the functions that read a formula:
  \<open>used_sets\<close>, \<open>used_inf_fin_sets\<close>, \<open>used_once_sets\<close>, \<open>fin_one\<close>, \<open>fin_unit\<close>, \<open>top_conjuncts\<close>,
  \<open>top_disjuncts\<close>, \<open>is_dnf\<close> and \<open>is_cnf\<close>.

  The first three rebuild the formula bottom-up with \<open>&\<close> and \<open>|\<close>.  The locale \<open>rewriting\<close> is
  what they share: a recursion on the words that maps the leaves and folds a connective over
  the results for the operands.
\<close>

section \<open>Recursive transformations\<close>

text \<open>
  \<open>do { tmp = rec(pos) & std::move(res); std::swap(tmp, res); ... } while (pos > start)\<close>:
  the result for each operand is put in front of the accumulated code.
\<close>

fun complement_rec :: "'n::len acc_code \<Rightarrow> 'n acc_code" where
  "complement_rec (Sub OpAnd sz # ws) =
     fold or_code (map complement_rec (children (take sz ws))) code_f"
| "complement_rec (Sub OpOr sz # ws) =
     fold and_code (map complement_rec (children (take sz ws))) code_t"
| "complement_rec (Sub OpFin sz # Mark m # ws) = inf_code m"
| "complement_rec (Sub OpInf sz # Mark m # ws) = fin m"
| "complement_rec (Sub OpFinNeg sz # Mark m # ws) = inf_neg m"
| "complement_rec (Sub OpInfNeg sz # Mark m # ws) = fin_neg m"
| "complement_rec ws = []"

definition complement :: "'n::len acc_code \<Rightarrow> 'n acc_code" where
  "complement c = (if is_t c then code_f else complement_rec c)"

fun strip_rec :: "'n::len acc_code \<Rightarrow> 'n mark_t \<Rightarrow> bool \<Rightarrow> bool \<Rightarrow> 'n acc_code" where
  "strip_rec (Sub OpAnd sz # ws) rem missing strip =
     fold and_code (map (\<lambda>c. strip_rec c rem missing strip) (children (take sz ws))) code_t"
| "strip_rec (Sub OpOr sz # ws) rem missing strip =
     fold or_code (map (\<lambda>c. strip_rec c rem missing strip) (children (take sz ws))) code_f"
| "strip_rec (Sub OpFin sz # Mark m # ws) rem missing strip =
     (if missing \<and> m AND rem \<noteq> 0 then code_t
      else fin (if strip then mark_strip m rem else mark_minus m rem))"
| "strip_rec (Sub OpInf sz # Mark m # ws) rem missing strip =
     (if missing \<and> m AND rem \<noteq> 0 then code_f
      else inf_code (if strip then mark_strip m rem else mark_minus m rem))"
| "strip_rec ws rem missing strip = []"

fun force_inf_rec :: "'n::len acc_code \<Rightarrow> 'n mark_t \<Rightarrow> 'n acc_code" where
  "force_inf_rec (Sub OpAnd sz # ws) rem =
     fold and_code (map (\<lambda>c. force_inf_rec c rem) (children (take sz ws))) code_t"
| "force_inf_rec (Sub OpOr sz # ws) rem =
     fold or_code (map (\<lambda>c. force_inf_rec c rem) (children (take sz ws))) code_f"
| "force_inf_rec (Sub OpFin sz # Mark m # ws) rem = fin (mark_minus m rem)"
| "force_inf_rec (Sub OpInf sz # Mark m # ws) rem = inf_code m"
| "force_inf_rec ws rem = []"

definition strip :: "'n::len acc_code \<Rightarrow> 'n mark_t \<Rightarrow> bool \<Rightarrow> 'n acc_code" where
  "strip c rem missing = (if is_t c \<or> is_f c then c else strip_rec c rem missing True)"

definition remove_sets :: "'n::len acc_code \<Rightarrow> 'n mark_t \<Rightarrow> bool \<Rightarrow> 'n acc_code" where
  "remove_sets c rem missing = (if is_t c \<or> is_f c then c else strip_rec c rem missing False)"

definition force_inf :: "'n::len acc_code \<Rightarrow> 'n mark_t \<Rightarrow> 'n acc_code" where
  "force_inf c rem = (if is_t c \<or> is_f c then c else force_inf_rec c rem)"

section \<open>Loops over the words\<close>

text \<open>
  The loops that walk over every word skip one word at a connective and two at a leaf.
\<close>

fun used_loop :: "'n::len mark_t \<Rightarrow> 'n acc_code \<Rightarrow> 'n mark_t" where
  "used_loop used (Sub op sz # w # ws) =
     (if op = OpAnd \<or> op = OpOr then used_loop used (w # ws)
      else used_loop (used OR word_mark w) ws)"
| "used_loop used ws = used"

definition used_sets :: "'n::len acc_code \<Rightarrow> 'n mark_t" where
  "used_sets c = (if is_t c \<or> is_f c then 0 else used_loop 0 c)"

fun used_inf_fin_loop :: "'n::len mark_t \<Rightarrow> 'n mark_t \<Rightarrow> 'n acc_code \<Rightarrow> 'n mark_t \<times> 'n mark_t" where
  "used_inf_fin_loop used_inf used_fin (Sub op sz # w # ws) =
     (if op = OpAnd \<or> op = OpOr then used_inf_fin_loop used_inf used_fin (w # ws)
      else if op = OpFin \<or> op = OpFinNeg
      then used_inf_fin_loop used_inf (used_fin OR word_mark w) ws
      else used_inf_fin_loop (used_inf OR word_mark w) used_fin ws)"
| "used_inf_fin_loop used_inf used_fin ws = (used_inf, used_fin)"

definition used_inf_fin_sets :: "'n::len acc_code \<Rightarrow> 'n mark_t \<times> 'n mark_t" where
  "used_inf_fin_sets c = (if is_t c \<or> is_f c then (0, 0) else used_inf_fin_loop 0 0 c)"

fun used_once_loop :: "'n::len mark_t \<Rightarrow> 'n mark_t \<Rightarrow> 'n acc_code \<Rightarrow> 'n mark_t" where
  "used_once_loop seen dups (Sub op sz # ws) =
     (if op = OpAnd \<or> op = OpOr then used_once_loop seen dups ws
      else (case ws of
          w # ws' \<Rightarrow> let m = word_mark w in used_once_loop (seen OR m) (dups OR (m AND seen)) ws'
        | [] \<Rightarrow> mark_minus seen dups))"
| "used_once_loop seen dups ws = mark_minus seen dups"

definition used_once_sets :: "'n::len acc_code \<Rightarrow> 'n mark_t" where
  "used_once_sets c = (if c = [] then 0 else used_once_loop 0 0 c)"

fun fin_one_loop :: "'n::len acc_code \<Rightarrow> int" where
  "fin_one_loop (Sub op sz # ws) =
     (if op = OpAnd \<or> op = OpOr then fin_one_loop ws
      else if op = OpFin then (case ws of w # ws' \<Rightarrow> int (mark_min_set (word_mark w)) - 1 | [] \<Rightarrow> -1)
      else fin_one_loop (drop 1 ws))"
| "fin_one_loop ws = -1"

definition fin_one :: "'n::len acc_code \<Rightarrow> int" where
  "fin_one c = (if c = [] \<or> is_f c then -1 else fin_one_loop c)"

fun fin_unit_loop :: "'n::len mark_t \<Rightarrow> 'n acc_code \<Rightarrow> 'n mark_t" where
  "fin_unit_loop res (Sub op sz # ws) =
     (case op of
        OpAnd \<Rightarrow> fin_unit_loop res ws
      | OpOr \<Rightarrow> fin_unit_loop res (drop sz ws)
      | OpFin \<Rightarrow> (case ws of
            w # ws' \<Rightarrow> let m = word_mark w in
              fin_unit_loop (if mark_is_singleton m then res OR m else res) ws'
          | [] \<Rightarrow> res)
      | _ \<Rightarrow> fin_unit_loop res (drop 1 ws))"
| "fin_unit_loop res ws = res"

definition fin_unit :: "'n::len acc_code \<Rightarrow> 'n mark_t" where
  "fin_unit c = (if c = [] \<or> is_f c then 0 else fin_unit_loop 0 c)"

text \<open>
  \<open>operator<<=\<close>: the shift of one mark raises the error of \<open>mark_t::operator<<=\<close>, which has the
  same bound.
\<close>

fun shift_loop :: "nat \<Rightarrow> 'n::len acc_code \<Rightarrow> 'n acc_code" where
  "shift_loop sets (Sub op sz # w # ws) =
     (if op = OpAnd \<or> op = OpOr then Sub op sz # shift_loop sets (w # ws)
      else Sub op sz # Mark (push_bit sets (word_mark w)) # shift_loop sets ws)"
| "shift_loop sets ws = ws"

definition code_shl :: "'n::len acc_code \<Rightarrow> nat \<Rightarrow> acc_error + 'n acc_code" where
  "code_shl c sets = (if sets \<ge> LENGTH('n) then Inl Too_many_sets
     else if c = [] then Inr c else Inr (shift_loop sets c))"

section \<open>Clauses and normal forms\<close>

definition leaf_codes :: "acc_op \<Rightarrow> 'n::len mark_t \<Rightarrow> 'n acc_code list" where
  "leaf_codes op m = map (\<lambda>d. [Sub op 1, Mark (mark_set 0 d)]) (mark_sets m)"

definition clause_split :: "acc_op \<Rightarrow> 'n::len acc_code \<Rightarrow> 'n acc_code list" where
  "clause_split inf_fin d = (if top_is inf_fin d then leaf_codes inf_fin (word_mark (d ! 1)) else [d])"

definition top_clauses :: "'n::len acc_code \<Rightarrow> acc_op \<Rightarrow> acc_op \<Rightarrow> 'n acc_code list" where
  "top_clauses c connect inf_fin =
    (case c of
       Sub op sz # ws \<Rightarrow>
         if op = connect then concat (map (clause_split inf_fin) (children ws))
         else if op = inf_fin then leaf_codes inf_fin (word_mark (ws ! 0))
         else [c]
     | _ \<Rightarrow> [c])"

definition top_disjuncts :: "'n::len acc_code \<Rightarrow> 'n acc_code list" where
  "top_disjuncts c = top_clauses c OpOr OpFin"

definition top_conjuncts :: "'n::len acc_code \<Rightarrow> 'n acc_code list" where
  "top_conjuncts c = top_clauses c OpAnd OpInf"

text \<open>
  The scope of the last conjunction seen is kept as the number of words that remain when the
  scope is left; \<open>pos > and_scope\<close> compares it with the number of words from the front to
  \<open>pos\<close>.
\<close>

fun nf_loop :: "acc_op \<Rightarrow> acc_op \<Rightarrow> acc_op \<Rightarrow> acc_op \<Rightarrow> nat \<Rightarrow> 'n::len acc_code \<Rightarrow> bool" where
  "nf_loop outer inner leaf leaf_neg scope (Sub op sz # w # ws) =
     (if op = outer then False
      else if op = inner
      then nf_loop outer inner leaf leaf_neg (min scope (Suc (Suc (length ws)) - sz)) (w # ws)
      else if (op = leaf \<or> op = leaf_neg) \<and> mark_has_many (word_mark w) \<and> Suc (Suc (length ws)) > scope
      then False
      else nf_loop outer inner leaf leaf_neg scope ws)"
| "nf_loop outer inner leaf leaf_neg scope ws = True"

definition is_dnf :: "'n::len acc_code \<Rightarrow> bool" where
  "is_dnf c = (if c = [] \<or> length c = 2 then True
     else nf_loop OpOr OpAnd OpFin OpFinNeg (Suc (length c)) (if top_is OpOr c then tl c else c))"

definition is_cnf :: "'n::len acc_code \<Rightarrow> bool" where
  "is_cnf c = (if c = [] \<or> length c = 2 then True
     else nf_loop OpAnd OpOr OpInf OpInfNeg (Suc (length c)) (if top_is OpAnd c then tl c else c))"

section \<open>Rewriting a formula\<close>

context connective
begin

lemma fold_bounded:
  assumes "list_all tree_ok us" and "tree_ok u" and "weight op u = 0"
    and "sum_list (map (length \<circ> enc) us) \<le> n" and "1 \<le> n" "n < 2 ^ 16"
  shows "fold comb (map enc us) (enc u) = enc (fold tcomb us u) \<and> tree_ok (fold tcomb us u)
    \<and> length (enc (fold tcomb us u)) \<le> Suc n
    \<and> tree_sat I J (fold tcomb us u) = fold (\<lambda>t b. conn (tree_sat I J t) b) us (tree_sat I J u)"
proof -
  have "sum_list (map (weight op) us) \<le> sum_list (map (length \<circ> enc) us)"
    by (rule sum_list_mono) (simp add: weight_le)
  then have w: "sum_list (map (weight op) us) \<le> n" using assms(4) by simp
  then have "sum_list (map (weight op) us) + weight op u < 2 ^ 16" using assms(3,6) by simp
  note fr = fold_right [OF assms(1,2) this]
  then have "weight op (fold tcomb us u) \<le> n" using w assms(3) by (auto intro: order.trans)
  then have "length (enc (fold tcomb us u)) \<le> Suc n"
    using length_enc_weight [of "fold tcomb us u" op] assms(5) by simp
  with fr show ?thesis by auto
qed

end

fun is_leaf :: "'n::len acc_tree \<Rightarrow> bool" where
  "is_leaf TT = False"
| "is_leaf (TAnd ts) = False"
| "is_leaf (TOr ts) = False"
| "is_leaf _ = True"

fun leaves :: "'n::len acc_tree \<Rightarrow> 'n acc_tree set" where
  "leaves TT = {}"
| "leaves (TAnd ts) = \<Union> (leaves ` set ts)"
| "leaves (TOr ts) = \<Union> (leaves ` set ts)"
| "leaves t = {t}"

lemma leaves_leaf: "l \<in> leaves t \<Longrightarrow> is_leaf l"
  by (induction t) auto

lemma is_leaf_leaves: "is_leaf t \<Longrightarrow> leaves t = {t} \<and> node_ok t"
  by (cases t) auto

fun rewrite :: "bool \<Rightarrow> ('n::len acc_tree \<Rightarrow> 'n acc_tree) \<Rightarrow> 'n acc_tree \<Rightarrow> 'n acc_tree" where
  "rewrite dual leaf (TAnd ts) =
     (if dual then fold tree_or (map (rewrite dual leaf) ts) (TFin 0)
      else fold tree_and (map (rewrite dual leaf) ts) TT)"
| "rewrite dual leaf (TOr ts) =
     (if dual then fold tree_and (map (rewrite dual leaf) ts) TT
      else fold tree_or (map (rewrite dual leaf) ts) (TFin 0))"
| "rewrite dual leaf t = leaf t"

locale rewriting =
  fixes rec :: "'n::len acc_code \<Rightarrow> 'n acc_code"
    and leaf :: "'n acc_tree \<Rightarrow> 'n acc_tree"
    and dual :: bool
    and ok :: "'n acc_tree \<Rightarrow> bool"
  assumes rec_and: "rec (Sub OpAnd sz # ws) =
      (if dual then fold or_code (map rec (children (take sz ws))) code_f
       else fold and_code (map rec (children (take sz ws))) code_t)"
    and rec_or: "rec (Sub OpOr sz # ws) =
      (if dual then fold and_code (map rec (children (take sz ws))) code_t
       else fold or_code (map rec (children (take sz ws))) code_f)"
    and rec_leaf: "is_leaf t \<Longrightarrow> ok t \<Longrightarrow> rec (enc t) = enc (leaf t)"
    and leaf_ok: "is_leaf t \<Longrightarrow> ok t \<Longrightarrow> tree_ok (leaf t) \<and> length (enc (leaf t)) \<le> 2"
begin

lemma rewrite_folds:
  assumes "ts \<noteq> []" "list_all node_ok ts" "length (concat (map enc ts)) < 2 ^ 16"
    and "\<And>t. t \<in> set ts \<Longrightarrow> rec (enc t) = enc (rewrite dual leaf t) \<and>
      tree_ok (rewrite dual leaf t) \<and> length (enc (rewrite dual leaf t)) \<le> length (enc t)"
  shows "fold and_code (map rec (map enc ts)) code_t = enc (fold tree_and (map (rewrite dual leaf) ts) TT)
      \<and> tree_ok (fold tree_and (map (rewrite dual leaf) ts) TT)
      \<and> length (enc (fold tree_and (map (rewrite dual leaf) ts) TT)) \<le> Suc (length (concat (map enc ts)))
      \<and> tree_sat I J (fold tree_and (map (rewrite dual leaf) ts) TT) =
          list_all (\<lambda>t. tree_sat I J (rewrite dual leaf t)) ts"
    and "fold or_code (map rec (map enc ts)) code_f = enc (fold tree_or (map (rewrite dual leaf) ts) (TFin 0))
      \<and> tree_ok (fold tree_or (map (rewrite dual leaf) ts) (TFin 0))
      \<and> length (enc (fold tree_or (map (rewrite dual leaf) ts) (TFin 0))) \<le> Suc (length (concat (map enc ts)))
      \<and> tree_sat I J (fold tree_or (map (rewrite dual leaf) ts) (TFin 0)) =
          list_ex (\<lambda>t. tree_sat I J (rewrite dual leaf t)) ts"
proof -
  have eq: "map rec (map enc ts) = map enc (map (rewrite dual leaf) ts)" using assms(4) by simp
  have ok: "list_all tree_ok (map (rewrite dual leaf) ts)" using assms(4) by (simp add: list_all_iff)
  have "sum_list (map (\<lambda>t. length (enc (rewrite dual leaf t))) ts) \<le> sum_list (map (\<lambda>t. length (enc t)) ts)"
    using assms(4) by (intro sum_list_mono) blast
  then have len: "sum_list (map (length \<circ> enc) (map (rewrite dual leaf) ts)) \<le> length (concat (map enc ts))"
    by (simp add: length_concat comp_def)
  obtain u us where "ts = u # us" using assms(1) by (cases ts) auto
  then have one: "1 \<le> length (concat (map enc ts))" using assms(2) enc_length [of u] by simp
  show "fold and_code (map rec (map enc ts)) code_t = enc (fold tree_and (map (rewrite dual leaf) ts) TT)
      \<and> tree_ok (fold tree_and (map (rewrite dual leaf) ts) TT)
      \<and> length (enc (fold tree_and (map (rewrite dual leaf) ts) TT)) \<le> Suc (length (concat (map enc ts)))
      \<and> tree_sat I J (fold tree_and (map (rewrite dual leaf) ts) TT) =
          list_all (\<lambda>t. tree_sat I J (rewrite dual leaf t)) ts"
    using conj.fold_bounded [OF ok _ _ len one assms(3), of TT I J] unfolding eq
    by (simp add: tree_ok_def weight_def code_t_def fold_conj list.pred_map comp_def)
  show "fold or_code (map rec (map enc ts)) code_f = enc (fold tree_or (map (rewrite dual leaf) ts) (TFin 0))
      \<and> tree_ok (fold tree_or (map (rewrite dual leaf) ts) (TFin 0))
      \<and> length (enc (fold tree_or (map (rewrite dual leaf) ts) (TFin 0))) \<le> Suc (length (concat (map enc ts)))
      \<and> tree_sat I J (fold tree_or (map (rewrite dual leaf) ts) (TFin 0)) =
          list_ex (\<lambda>t. tree_sat I J (rewrite dual leaf t)) ts"
    using disj.fold_bounded [OF ok _ _ len one assms(3), of "TFin 0" I J] unfolding eq
    by (simp add: tree_ok_def weight_def code_f_def fold_disj list_ex_iff comp_def)
qed

lemma rewrite_leaf:
  "is_leaf t \<Longrightarrow> ok t \<Longrightarrow> rec (enc t) = enc (rewrite dual leaf t) \<and> tree_ok (rewrite dual leaf t)
    \<and> length (enc (rewrite dual leaf t)) \<le> length (enc t)"
  using rec_leaf [of t] leaf_ok [of t] by (cases t) auto

lemma rewrite_enc:
  "node_ok t \<Longrightarrow> \<forall>l\<in>leaves t. ok l \<Longrightarrow>
    rec (enc t) = enc (rewrite dual leaf t) \<and> tree_ok (rewrite dual leaf t)
    \<and> length (enc (rewrite dual leaf t)) \<le> length (enc t)"
proof (induction t)
  case (TAnd ts)
  from TAnd have "ts \<noteq> []" "list_all node_ok ts" "length (concat (map enc ts)) < 2 ^ 16" by auto
  note folds = rewrite_folds [OF this, where I = bot and J = bot]
  show ?case using folds TAnd
    by (cases dual) (simp_all add: enc_node rec_and children_enc list_all_iff del: enc.simps)
next
  case (TOr ts)
  from TOr have "ts \<noteq> []" "list_all node_ok ts" "length (concat (map enc ts)) < 2 ^ 16" by auto
  note folds = rewrite_folds [OF this, where I = bot and J = bot]
  show ?case using folds TOr
    by (cases dual) (simp_all add: enc_node rec_or children_enc list_all_iff del: enc.simps)
qed (simp, (rule rewrite_leaf; simp)+)

lemma rewrite_weight:
  assumes "list_all node_ok ts" "\<forall>t\<in>set ts. \<forall>l\<in>leaves t. ok l"
  shows "sum_list (map (weight op) (map (rewrite dual leaf) ts)) \<le> length (concat (map enc ts))"
proof -
  have "weight op (rewrite dual leaf t) \<le> length (enc t)" if "t \<in> set ts" for t
    using that assms rewrite_enc [of t] weight_le [of op "rewrite dual leaf t"] by (auto simp: list_all_iff)
  then have "sum_list (map (\<lambda>t. weight op (rewrite dual leaf t)) ts) \<le> sum_list (map (\<lambda>t. length (enc t)) ts)"
    by (rule sum_list_mono)
  then show ?thesis by (simp add: length_concat comp_def)
qed

text \<open>
  When each leaf keeps its truth value, read on the rewritten marks, so does the formula; a
  dual rewriting negates it.
\<close>

lemma rewrite_sat:
  assumes "\<And>l. l \<in> leaves t \<Longrightarrow> tree_sat I' J' (leaf l) = (dual \<noteq> tree_sat I J l)"
    and "node_ok t" "\<forall>l\<in>leaves t. ok l"
  shows "tree_sat I' J' (rewrite dual leaf t) = (dual \<noteq> tree_sat I J t)"
  using assms
proof (induction t)
  case (TAnd ts)
  from TAnd have "ts \<noteq> []" "list_all node_ok ts" "length (concat (map enc ts)) < 2 ^ 16" by auto
  note folds = rewrite_folds [OF this, where I = I' and J = J']
  have "rec (enc t) = enc (rewrite dual leaf t) \<and>
      tree_ok (rewrite dual leaf t) \<and> length (enc (rewrite dual leaf t)) \<le> length (enc t)"
    if "t \<in> set ts" for t using that TAnd.prems rewrite_enc [of t] by (auto simp: list_all_iff)
  note folds = folds [OF this]
  have "tree_sat I' J' (rewrite dual leaf t) = (dual \<noteq> tree_sat I J t)" if "t \<in> set ts" for t
    using TAnd that by (auto simp: list_all_iff)
  with folds show ?case by (auto simp: list_all_iff list_ex_iff)
next
  case (TOr ts)
  from TOr have "ts \<noteq> []" "list_all node_ok ts" "length (concat (map enc ts)) < 2 ^ 16" by auto
  note folds = rewrite_folds [OF this, where I = I' and J = J']
  have "rec (enc t) = enc (rewrite dual leaf t) \<and>
      tree_ok (rewrite dual leaf t) \<and> length (enc (rewrite dual leaf t)) \<le> length (enc t)"
    if "t \<in> set ts" for t using that TOr.prems rewrite_enc [of t] by (auto simp: list_all_iff)
  note folds = folds [OF this]
  have "tree_sat I' J' (rewrite dual leaf t) = (dual \<noteq> tree_sat I J t)" if "t \<in> set ts" for t
    using TOr that by (auto simp: list_all_iff)
  with folds show ?case by (auto simp: list_all_iff list_ex_iff)
qed auto

end

section \<open>The three rewritings\<close>

fun dual_leaf :: "'n::len acc_tree \<Rightarrow> 'n acc_tree" where
  "dual_leaf (TFin m) = TInf m"
| "dual_leaf (TInf m) = TFin m"
| "dual_leaf (TFinNeg m) = TInfNeg m"
| "dual_leaf (TInfNeg m) = TFinNeg m"
| "dual_leaf t = t"

fun strip_leaf :: "'n::len mark_t \<Rightarrow> bool \<Rightarrow> bool \<Rightarrow> 'n acc_tree \<Rightarrow> 'n acc_tree" where
  "strip_leaf rem missing st (TFin m) = (if missing \<and> m AND rem \<noteq> 0 then TT
     else TFin (if st then mark_strip m rem else mark_minus m rem))"
| "strip_leaf rem missing st (TInf m) = (if missing \<and> m AND rem \<noteq> 0 then TFin 0
     else TInf (if st then mark_strip m rem else mark_minus m rem))"
| "strip_leaf rem missing st t = t"

fun force_leaf :: "'n::len mark_t \<Rightarrow> 'n acc_tree \<Rightarrow> 'n acc_tree" where
  "force_leaf rem (TFin m) = TFin (mark_minus m rem)"
| "force_leaf rem t = t"

lemmas leaf_code_defs = fin_def inf_code_def fin_neg_def inf_neg_def code_t_def code_f_def

interpretation dualize: rewriting complement_rec dual_leaf True "\<lambda>_. True"
proof
  show "complement_rec (enc t) = enc (dual_leaf t)" if "is_leaf t" for t
    using that by (cases t) (auto simp: leaf_code_defs)
  show "tree_ok (dual_leaf t) \<and> length (enc (dual_leaf t)) \<le> 2" if "is_leaf t" for t
    using that by (cases t) (auto simp: tree_ok_def)
qed simp_all

interpretation stripping: rewriting "\<lambda>c. strip_rec c rem missing st" "strip_leaf rem missing st" False plain
  for rem missing st
proof
  show "strip_rec (enc t) rem missing st = enc (strip_leaf rem missing st t)"
    if "is_leaf t" "plain t" for t using that by (cases t) (auto simp: leaf_code_defs)
  show "tree_ok (strip_leaf rem missing st t) \<and> length (enc (strip_leaf rem missing st t)) \<le> 2"
    if "is_leaf t" "plain t" for t using that by (cases t) (auto simp: tree_ok_def)
qed simp_all

interpretation forcing: rewriting "\<lambda>c. force_inf_rec c rem" "force_leaf rem" False plain for rem
proof
  show "force_inf_rec (enc t) rem = enc (force_leaf rem t)"
    if "is_leaf t" "plain t" for t using that by (cases t) (auto simp: leaf_code_defs)
  show "tree_ok (force_leaf rem t) \<and> length (enc (force_leaf rem t)) \<le> 2"
    if "is_leaf t" "plain t" for t using that by (cases t) (auto simp: tree_ok_def)
qed simp_all

lemma plain_leaves: "plain t \<longleftrightarrow> (\<forall>l\<in>leaves t. plain l)"
  by (induction t) (auto simp: list_all_iff)

text \<open>All marks of the leaves are within the sets \<open>Q\<close>.\<close>

definition within :: "nat set \<Rightarrow> 'n::len acc_tree \<Rightarrow> bool" where
  "within Q t \<longleftrightarrow> (\<forall>l\<in>leaves t. bits (leaf_mark l) \<subseteq> Q)"

lemma within_simps [simp]:
  "within Q TT" "within Q (TFin m) \<longleftrightarrow> bits m \<subseteq> Q" "within Q (TInf m) \<longleftrightarrow> bits m \<subseteq> Q"
  "within Q (TFinNeg m) \<longleftrightarrow> bits m \<subseteq> Q" "within Q (TInfNeg m) \<longleftrightarrow> bits m \<subseteq> Q"
  "within Q (TAnd ts) \<longleftrightarrow> list_all (within Q) ts" "within Q (TOr ts) \<longleftrightarrow> list_all (within Q) ts"
  by (auto simp: within_def list_all_iff)

lemma merge_keeps:
  assumes "list_all node_ok ls" "list_all node_ok rs" "connects op leaf" "list_all P ls" "list_all P rs"
    and "\<And>m m'. P (mk_leaf leaf m) \<Longrightarrow> P (mk_leaf leaf m') \<Longrightarrow> P (mk_leaf leaf (m' OR m))"
  shows "list_all P (merge op' leaf ls rs)"
proof (cases "(\<exists>t\<in>set ls. tree_op t = leaf) \<and> (\<exists>t\<in>set rs. tree_op t = leaf)")
  case True
  moreover have "leaf = OpInf \<or> leaf = OpFin" using assms(3) by (auto simp: connects_def)
  ultimately show ?thesis using assms(4-6)
    by (elim mergeE [OF _ assms(1,2), where op = op']) auto
qed (use assms in \<open>auto simp: merge_def\<close>)

lemma merge_plain:
  assumes "list_all node_ok ls" "list_all node_ok rs" "connects op leaf" "list_all plain ls" "list_all plain rs"
  shows "list_all plain (merge op' leaf ls rs)"
  by (rule merge_keeps [OF assms]) (auto simp: mk_leaf_def)

lemma merge_within:
  assumes "list_all node_ok ls" "list_all node_ok rs" "connects op leaf" "list_all (within Q) ls" "list_all (within Q) rs"
  shows "list_all (within Q) (merge op' leaf ls rs)"
  by (rule merge_keeps [OF assms]) (auto simp: mk_leaf_def split: if_splits)

lemma operands_within: "within Q t \<Longrightarrow> list_all (within Q) (operands op t)"
  by (cases "(op, t)" rule: operands.cases) auto

lemma operands_plain: "plain t \<Longrightarrow> list_all plain (operands op t)"
  by (cases "(op, t)" rule: operands.cases) auto

lemma tree_and_plain:
  assumes "tree_ok l" "tree_ok r" "plain l" "plain r"
  shows "plain (tree_and l r)"
  using assms(1,2)
proof (cases rule: tree_and_cases)
  case node
  have "connects OpAnd OpInf" by (simp add: connects_def)
  from merge_plain [OF operands_ok [OF node(1)] operands_ok [OF node(2)] this] node(3) assms(3,4)
  show ?thesis by (simp add: mk_node_def operands_plain)
qed (use assms in auto)

lemma tree_or_plain:
  assumes "tree_ok l" "tree_ok r" "plain l" "plain r"
  shows "plain (tree_or l r)"
  using assms(1,2)
proof (cases rule: tree_or_cases)
  case node
  have "connects OpOr OpFin" by (simp add: connects_def)
  from merge_plain [OF operands_ok [OF node(1)] operands_ok [OF node(2)] this] node(3) assms(3,4)
  show ?thesis by (simp add: mk_node_def operands_plain)
qed (use assms in auto)

lemma tree_and_within:
  assumes "tree_ok l" "tree_ok r" "within Q l" "within Q r"
  shows "within Q (tree_and l r)"
  using assms(1,2)
proof (cases rule: tree_and_cases)
  case node
  have "connects OpAnd OpInf" by (simp add: connects_def)
  from merge_within [OF operands_ok [OF node(1)] operands_ok [OF node(2)] this] node(3) assms(3,4)
  show ?thesis by (simp add: mk_node_def operands_within)
qed (use assms in auto)

lemma tree_or_within:
  assumes "tree_ok l" "tree_ok r" "within Q l" "within Q r"
  shows "within Q (tree_or l r)"
  using assms(1,2)
proof (cases rule: tree_or_cases)
  case node
  have "connects OpOr OpFin" by (simp add: connects_def)
  from merge_within [OF operands_ok [OF node(1)] operands_ok [OF node(2)] this] node(3) assms(3,4)
  show ?thesis by (simp add: mk_node_def operands_within)
qed (use assms in auto)

context connective
begin

lemma fold_keeps:
  assumes "\<And>l r. tree_ok l \<Longrightarrow> tree_ok r \<Longrightarrow> P l \<Longrightarrow> P r \<Longrightarrow> P (tcomb l r)"
    and "list_all tree_ok us" "list_all P us" "tree_ok u" "P u"
    and "sum_list (map (weight op) us) + weight op u < 2 ^ 16"
  shows "P (fold tcomb us u)"
  using assms(2-)
proof (induction us arbitrary: u)
  case (Cons t us)
  then have t: "tree_ok t" "tree_ok u" and tu: "weight op t + weight op u < 2 ^ 16" by auto
  show ?case
    using Cons.IH [of "tcomb t u"] Cons.prems tcomb_ok [OF t tu] weight_tcomb [OF t] assms(1) [OF t] by auto
qed simp

end

context rewriting
begin

lemma rewrite_keeps:
  assumes conn: "\<And>l r. tree_ok l \<Longrightarrow> tree_ok r \<Longrightarrow> P l \<Longrightarrow> P r \<Longrightarrow> P (tree_and l r)"
      "\<And>l r. tree_ok l \<Longrightarrow> tree_ok r \<Longrightarrow> P l \<Longrightarrow> P r \<Longrightarrow> P (tree_or l r)" "P TT" "P (TFin 0)"
    and "\<And>l. l \<in> leaves t \<Longrightarrow> P (leaf l)" "node_ok t" "\<forall>l\<in>leaves t. ok l"
  shows "P (rewrite dual leaf t)"
  using assms(5-)
proof (induction t)
  case (TAnd ts)
  have us: "list_all P (map (rewrite dual leaf) ts)" "list_all tree_ok (map (rewrite dual leaf) ts)"
    using TAnd rewrite_enc by (auto simp: list_all_iff)
  have w: "sum_list (map (weight op) (map (rewrite dual leaf) ts)) < 2 ^ 16" for op
    using rewrite_weight [of ts op] TAnd.prems by (auto simp: list_all_iff)
  show ?case
    using conj.fold_keeps [where P = P, OF conn(1) us(2,1), of TT]
      disj.fold_keeps [where P = P, OF conn(2) us(2,1), of "TFin 0"] w conn(3,4)
    by (cases dual) (simp_all add: tree_ok_def weight_def)
next
  case (TOr ts)
  have us: "list_all P (map (rewrite dual leaf) ts)" "list_all tree_ok (map (rewrite dual leaf) ts)"
    using TOr rewrite_enc by (auto simp: list_all_iff)
  have w: "sum_list (map (weight op) (map (rewrite dual leaf) ts)) < 2 ^ 16" for op
    using rewrite_weight [of ts op] TOr.prems by (auto simp: list_all_iff)
  show ?case
    using conj.fold_keeps [where P = P, OF conn(1) us(2,1), of TT]
      disj.fold_keeps [where P = P, OF conn(2) us(2,1), of "TFin 0"] w conn(3,4)
    by (cases dual) (simp_all add: tree_ok_def weight_def)
qed auto

lemma rewrite_plain:
  assumes "\<And>l. l \<in> leaves t \<Longrightarrow> plain (leaf l)" and "node_ok t" "\<forall>l\<in>leaves t. ok l"
  shows "plain (rewrite dual leaf t)"
  by (rule rewrite_keeps [OF tree_and_plain tree_or_plain]) (use assms in auto)

end

section \<open>Complement\<close>

lemma is_t_enc_sat: "tree_ok t \<Longrightarrow> is_t (enc t) \<Longrightarrow> tree_sat I J t"
  by (auto simp: is_t_enc)

lemma is_f_enc_sat: "tree_ok t \<Longrightarrow> is_f (enc t) \<Longrightarrow> \<not> tree_sat I J t"
  by (auto simp: is_f_enc)

lemma dual_leaf_sat: "is_leaf l \<Longrightarrow> tree_sat I J (dual_leaf l) \<longleftrightarrow> \<not> tree_sat I J l"
  by (cases l) auto

lemma dual_leaf_plain: "is_leaf l \<Longrightarrow> plain l \<Longrightarrow> plain (dual_leaf l)"
  by (cases l) auto

lemma complement_enc:
  assumes "tree_ok t"
  obtains t' where "complement (enc t) = enc t'" "tree_ok t'" "length (enc t') \<le> max 2 (length (enc t))"
    "\<And>I J. tree_sat I J t' \<longleftrightarrow> \<not> tree_sat I J t" "plain t \<Longrightarrow> plain t'"
proof (cases "is_t (enc t)")
  case True
  then show ?thesis using that [of "TFin 0"] is_t_enc_sat [OF assms True]
    by (simp add: complement_def code_f_def tree_ok_def)
next
  case False
  then have t: "node_ok t" using assms by (auto simp: tree_ok_def)
  show ?thesis
  proof (rule that [of "rewrite True dual_leaf t"])
    show "complement (enc t) = enc (rewrite True dual_leaf t)"
      using False dualize.rewrite_enc [OF t] by (simp add: complement_def)
    show "tree_sat I J (rewrite True dual_leaf t) \<longleftrightarrow> \<not> tree_sat I J t" for I J
      by (rule dualize.rewrite_sat [OF _ t, where I = I and J = J, simplified])
        (simp add: dual_leaf_sat leaves_leaf)
    show "plain (rewrite True dual_leaf t)" if "plain t"
    proof (rule dualize.rewrite_plain [OF _ t])
      fix l
      assume "l \<in> leaves t"
      moreover from this that have "plain l" using plain_leaves by auto
      ultimately show "plain (dual_leaf l)" using leaves_leaf dual_leaf_plain by auto
    qed simp
  qed (use dualize.rewrite_enc [OF t] in auto)
qed

section \<open>Removing sets\<close>

lemma mark_strip_subset:
  "(\<forall>i. bit (mark_strip m rem) i \<longrightarrow> bit (mark_strip x rem) i) \<longleftrightarrow> (\<forall>i. bit m i \<and> \<not> bit rem i \<longrightarrow> bit x i)"
proof -
  have "bit (mark_strip m rem) i \<longleftrightarrow> (\<exists>j. bit m j \<and> \<not> bit rem j \<and> i = renumber (bits rem) j)" for i
    using bits_mark_strip [of m rem] by (force simp: set_eq_iff)
  then show ?thesis by (metis bit_mark_strip_renumber)
qed

definition removed_view :: "bool \<Rightarrow> 'n::len mark_t \<Rightarrow> 'n mark_t \<Rightarrow> 'n mark_t" where
  "removed_view missing rem m = (if missing then mark_minus m rem else m OR rem)"

lemma strip_leaf_sat:
  "is_leaf l \<Longrightarrow> plain l \<Longrightarrow>
    tree_sat (bit (if st then mark_strip m rem else m)) J (strip_leaf rem missing st l) \<longleftrightarrow>
    tree_sat (bit (removed_view missing rem m)) J l"
proof (cases l)
  case (TInf n)
  then show ?thesis
    using mark_strip_subset [of n rem m]
    by (auto simp: removed_view_def bit_or_iff word_and_zero_iff_disjoint disjoint_iff)
next
  case (TFin n)
  then show ?thesis
    using mark_strip_subset [of n rem m]
    by (auto simp: removed_view_def bit_or_iff word_and_zero_iff_disjoint disjoint_iff)
qed auto

lemma strip_leaf_plain: "is_leaf l \<Longrightarrow> plain l \<Longrightarrow> plain (strip_leaf rem missing st l)"
  by (cases l) auto

lemma force_leaf_plain: "is_leaf l \<Longrightarrow> plain l \<Longrightarrow> plain (force_leaf rem l)"
  by (cases l) auto

lemma strip_rec_enc:
  assumes "node_ok t" "plain t"
  obtains t' where "strip_rec (enc t) rem missing st = enc t'" "tree_ok t'" "plain t'"
    "\<And>m J. tree_sat (bit (if st then mark_strip m rem else m)) J t'
        \<longleftrightarrow> tree_sat (bit (removed_view missing rem m)) J t"
proof (rule that [of "rewrite False (strip_leaf rem missing st) t"])
  have ok: "\<forall>l\<in>leaves t. plain l" using assms(2) plain_leaves by blast
  show "tree_sat (bit (if st then mark_strip m rem else m)) J (rewrite False (strip_leaf rem missing st) t)
      \<longleftrightarrow> tree_sat (bit (removed_view missing rem m)) J t" for m J
    by (rule stripping.rewrite_sat [OF _ assms(1) ok, where I = "bit (removed_view missing rem m)" and J = J, simplified])
      (use ok leaves_leaf strip_leaf_sat in blast)
  show "plain (rewrite False (strip_leaf rem missing st) t)"
    by (rule stripping.rewrite_plain [OF _ assms(1) ok]) (use ok leaves_leaf strip_leaf_plain in blast)
qed (use stripping.rewrite_enc [OF assms(1)] assms(2) plain_leaves in blast)+

text \<open>
  \<open>force_inf\<close> is the formula in which \<open>Fin\<close> is read as if the removed sets were seen.
\<close>

lemma force_inf_rec_enc:
  fixes t :: "'n::len acc_tree"
  assumes "node_ok t" "plain t"
  obtains t' where "force_inf_rec (enc t) rem = enc t'" "tree_ok t'" "plain t'"
    "\<And>(m :: 'n mark_t) J. bits rem \<subseteq> bits m \<Longrightarrow> tree_sat (bit m) J t' \<longleftrightarrow> tree_sat (bit m) J t"
proof (rule that [of "rewrite False (force_leaf rem) t"])
  have ok: "\<forall>l\<in>leaves t. plain l" using assms(2) plain_leaves by blast
  have leaf: "tree_sat (bit m) J (force_leaf rem l) \<longleftrightarrow> tree_sat (bit m) J l"
    if "l \<in> leaves t" "bits rem \<subseteq> bits m" for l m J
    using that leaves_leaf [of l t] by (cases l) (auto simp: subset_iff)
  show "tree_sat (bit m) J (rewrite False (force_leaf rem) t) \<longleftrightarrow> tree_sat (bit m) J t"
    if "bits rem \<subseteq> bits m" for m :: "'n mark_t" and J
    by (rule forcing.rewrite_sat [OF _ assms(1) ok, where I = "bit m" and J = J, simplified])
      (use leaf that in blast)
  show "plain (rewrite False (force_leaf rem) t)"
    by (rule forcing.rewrite_plain [OF _ assms(1) ok]) (use ok leaves_leaf force_leaf_plain in blast)
qed (use forcing.rewrite_enc [OF assms(1)] assms(2) plain_leaves in blast)+

section \<open>Properties of the transformations\<close>

text \<open>
  Property C15: \<open>complement\<close> returns a well-formed formula that a run satisfies exactly when it
  does not satisfy the original one, and that accepts exactly the marks the original
  rejects; it needs no more words, \<open>t\<close> excepted.
\<close>

theorem complement_negates:
  assumes "tree_ok t"
  shows "\<exists>t'. complement (enc t) = enc t' \<and> tree_ok t'
    \<and> (\<forall>run. run_sat run t' \<longleftrightarrow> \<not> run_sat run t)
    \<and> (plain t \<longrightarrow> (\<forall>m. accepting (complement (enc t)) m \<longleftrightarrow> \<not> accepting (enc t) m))
    \<and> length (complement (enc t)) \<le> max 2 (length (enc t))"
proof -
  obtain t' where t': "complement (enc t) = enc t'" "tree_ok t'" "length (enc t') \<le> max 2 (length (enc t))"
    "\<And>I J. tree_sat I J t' \<longleftrightarrow> \<not> tree_sat I J t" "plain t \<Longrightarrow> plain t'"
    using complement_enc [OF assms] by blast
  then show ?thesis
    using accepting_enc [OF assms, of _ bot] accepting_enc [OF t'(2), of _ bot]
    by (intro exI [of _ t']) (auto simp: run_sat_def)
qed

theorem complement_negates_witness:
  "accepting (complement (enc (TOr [TInf 1, TAnd [TFin 2, TInf 4]]))) (6 :: 32 mark_t)"
  using complement_negates [of "TOr [TInf 1, TAnd [TFin 2, TInf (4 :: 32 mark_t)]]"]
  by (auto simp: tree_ok_def accepting_def)

text \<open>
  Property C16: removing the sets \<open>rem\<close> evaluates the formula as if none of them were seen
  (\<open>missing\<close>) or as if all of them were seen; \<open>strip\<close> does the same and renumbers the other
  sets, so that it has to be read on the stripped mark.
\<close>

theorem remove_and_strip:
  assumes "tree_ok t" and "plain t"
  shows "accepting (remove_sets (enc t) rem missing) m
      = accepting (enc t) (if missing then mark_minus m rem else m OR rem)
    \<and> accepting (strip (enc t) rem missing) (mark_strip m rem)
      = accepting (enc t) (if missing then mark_minus m rem else m OR rem)
    \<and> wf_code (remove_sets (enc t) rem missing) \<and> wf_code (strip (enc t) rem missing)"
proof (cases "is_t (enc t) \<or> is_f (enc t)")
  case True
  then have "accepting (enc t) x = accepting (enc t) y" for x y
    using is_t_enc_sat [OF assms(1)] is_f_enc_sat [OF assms(1)] accepting_enc [OF assms, of _ bot] by blast
  moreover have "wf_code (enc t)" using assms(1) by (auto simp: wf_code_def)
  ultimately show ?thesis using True by (auto simp: remove_sets_def strip_def)
next
  case False
  then have t: "node_ok t" using assms(1) by (auto simp: tree_ok_def)
  obtain r where r: "strip_rec (enc t) rem missing False = enc r" "tree_ok r" "plain r"
    "\<And>m J. tree_sat (bit m) J r \<longleftrightarrow> tree_sat (bit (removed_view missing rem m)) J t"
    using strip_rec_enc [OF t assms(2), of rem missing False] by auto
  obtain s where s: "strip_rec (enc t) rem missing True = enc s" "tree_ok s" "plain s"
    "\<And>m J. tree_sat (bit (mark_strip m rem)) J s \<longleftrightarrow> tree_sat (bit (removed_view missing rem m)) J t"
    using strip_rec_enc [OF t assms(2), of rem missing True] by auto
  have "wf_code (enc r)" "wf_code (enc s)" using r s by (auto simp: wf_code_def)
  then show ?thesis
    using False r s by (simp add: remove_sets_def strip_def accepting_enc [where J = bot] assms flip: removed_view_def)
qed

theorem remove_and_strip_witness:
  "\<not> accepting (remove_sets (enc (TOr [TAnd [TInf 6, TFin 16], TFin 8])) 4 True) (14 :: 32 mark_t)
    \<and> accepting (strip (enc (TOr [TAnd [TInf 6, TFin 16], TFin 8])) 4 False) (mark_strip (10 :: 32 mark_t) 4)"
  using remove_and_strip [of "TOr [TAnd [TInf 6, TFin 16], TFin (8 :: 32 mark_t)]" 4 True 14]
    remove_and_strip [of "TOr [TAnd [TInf 6, TFin 16], TFin (8 :: 32 mark_t)]" 4 False 10]
  by (simp add: tree_ok_def) (simp add: accepting_def mark_minus_def)

text \<open>
  \<open>force_inf\<close> is an equivalent formula for every mark that has the forced sets.
\<close>

theorem force_inf_equivalent:
  fixes t :: "'n::len acc_tree"
  assumes "tree_ok t" and "plain t" and "mark_subset rem m"
  shows "accepting (force_inf (enc t) rem) m = accepting (enc t) m \<and> wf_code (force_inf (enc t) rem)"
proof (cases "is_t (enc t) \<or> is_f (enc t)")
  case False
  then have t: "node_ok t" using assms(1) by (auto simp: tree_ok_def)
  from force_inf_rec_enc [OF t assms(2), of rem] obtain r where r: "force_inf_rec (enc t) rem = enc r"
    "tree_ok r" "plain r" "\<And>(m :: 'n mark_t) J. bits rem \<subseteq> bits m \<Longrightarrow> tree_sat (bit m) J r \<longleftrightarrow> tree_sat (bit m) J t" by metis
  then have "wf_code (enc r)" by (auto simp: wf_code_def)
  with False r assms show ?thesis by (simp add: force_inf_def accepting_enc [where J = bot] mark_subset_iff)
qed (use assms in \<open>auto simp: force_inf_def wf_code_def\<close>)

theorem force_inf_equivalent_witness:
  "accepting (force_inf (enc (TOr [TAnd [TInf 6, TFin 16], TFin 8])) 8) (14 :: 32 mark_t)"
  using force_inf_equivalent [of "TOr [TAnd [TInf 6, TFin 16], TFin (8 :: 32 mark_t)]" 8 14]
  by (simp add: tree_ok_def mark_subset_def mark_minus_def) (simp add: accepting_def)

end
