(* ===== verification/AccQuery.thy ===== *)
theory AccQuery
  imports AccTransform
begin

unbundle bit_operations_syntax

text \<open>
  What the reading functions of an acceptance code return, for the definitions of theory
  \<open>AccTransform\<close>: the sets that are used, used once, or used below \<open>Inf\<close> and \<open>Fin\<close>; unit
  \<open>Fin\<close> clauses; top-level clauses; and the tests for normal forms.
\<close>

section \<open>Walking over the leaves\<close>

fun leaf_seq :: "(acc_op \<Rightarrow> bool) \<Rightarrow> 'n::len acc_tree \<Rightarrow> 'n acc_tree list" where
  "leaf_seq enter TT = []"
| "leaf_seq enter (TAnd ts) = (if enter OpAnd then concat (map (leaf_seq enter) ts) else [])"
| "leaf_seq enter (TOr ts) = (if enter OpOr then concat (map (leaf_seq enter) ts) else [])"
| "leaf_seq enter t = [t]"

abbreviation leaf_list :: "'n::len acc_tree \<Rightarrow> 'n acc_tree list" where
  "leaf_list \<equiv> leaf_seq (\<lambda>_. True)"

lemma set_leaf_list [simp]: "set (leaf_list t) = leaves t"
  by (induction t) auto

lemma leaf_seq_leaf: "l \<in> set (leaf_seq enter t) \<Longrightarrow> is_leaf l"
  by (induction t) (auto split: if_splits)

text \<open>
  A loop with state \<open>s\<close> updates the state at a leaf; at the word of a connective it either
  enters the operands, by skipping one word, or jumps over them.  It folds the update over
  the leaves that it reaches.
\<close>

locale word_walk =
  fixes enter :: "acc_op \<Rightarrow> bool" and loop :: "'s \<Rightarrow> 'n::len acc_code \<Rightarrow> 'r"
    and upd :: "'n acc_tree \<Rightarrow> 's \<Rightarrow> 's"
  assumes enter_node: "op = OpAnd \<or> op = OpOr \<Longrightarrow> enter op \<Longrightarrow> ws \<noteq> [] \<Longrightarrow>
      loop s (Sub op sz # ws) = loop s ws"
    and jump_node: "op = OpAnd \<or> op = OpOr \<Longrightarrow> \<not> enter op \<Longrightarrow>
      loop s (Sub op (length vs) # vs @ ws) = loop s ws"
    and take_leaf: "is_leaf l \<Longrightarrow> loop s (enc l @ ws) = loop (upd l s) ws"
begin

lemma walk_seq:
  assumes "\<And>t s ws. t \<in> set ts \<Longrightarrow> loop s (enc t @ ws) = loop (fold upd (leaf_seq enter t) s) ws"
  shows "loop s (concat (map enc ts) @ ws) = loop (fold upd (concat (map (leaf_seq enter) ts)) s) ws"
  using assms by (induction ts arbitrary: s) auto

lemma walk: "node_ok t \<Longrightarrow> loop s (enc t @ ws) = loop (fold upd (leaf_seq enter t) s) ws"
proof (induction t arbitrary: s ws)
  case (TAnd ts)
  have ne: "concat (map enc ts) @ ws \<noteq> []" using TAnd.prems by (cases ts) auto
  show ?case
    using walk_seq [of ts s ws] enter_node [of OpAnd, OF _ _ ne] jump_node [of OpAnd _ _ ws] TAnd
    by (cases "enter OpAnd") (simp_all add: enc_node list_all_iff del: enc.simps)
next
  case (TOr ts)
  have ne: "concat (map enc ts) @ ws \<noteq> []" using TOr.prems by (cases ts) auto
  show ?case
    using walk_seq [of ts s ws] enter_node [of OpOr, OF _ _ ne] jump_node [of OpOr _ _ ws] TOr
    by (cases "enter OpOr") (simp_all add: enc_node list_all_iff del: enc.simps)
qed (use take_leaf [of "TInf _"] take_leaf [of "TFin _"] take_leaf [of "TInfNeg _"] take_leaf [of "TFinNeg _"]
  in simp_all)

end

definition used_once_upd :: "'n::len acc_tree \<Rightarrow> 'n mark_t \<times> 'n mark_t \<Rightarrow> 'n mark_t \<times> 'n mark_t" where
  "used_once_upd l s = (fst s OR leaf_mark l, snd s OR (leaf_mark l AND fst s))"

definition inf_fin_upd :: "'n::len acc_tree \<Rightarrow> 'n mark_t \<times> 'n mark_t \<Rightarrow> 'n mark_t \<times> 'n mark_t" where
  "inf_fin_upd l s = (if tree_op l = OpFin \<or> tree_op l = OpFinNeg
     then (fst s, snd s OR leaf_mark l) else (fst s OR leaf_mark l, snd s))"

interpretation used: word_walk "\<lambda>_. True" used_loop "\<lambda>l s. s OR leaf_mark l"
proof
  show "used_loop s (Sub op sz # ws) = used_loop s ws" if "op = OpAnd \<or> op = OpOr" "ws \<noteq> []" for op ws s sz
    using that by (cases ws) auto
  show "used_loop s (enc l @ ws) = used_loop (s OR leaf_mark l) ws" if "is_leaf l" for l s ws
    using that by (cases l) auto
qed simp_all

interpretation inf_fin: word_walk "\<lambda>_. True" "\<lambda>s. used_inf_fin_loop (fst s) (snd s)" inf_fin_upd
proof
  show "used_inf_fin_loop (fst s) (snd s) (Sub op sz # ws) = used_inf_fin_loop (fst s) (snd s) ws"
    if "op = OpAnd \<or> op = OpOr" "ws \<noteq> []" for op ws s sz
    using that by (cases ws) auto
  show "used_inf_fin_loop (fst s) (snd s) (enc l @ ws) =
      used_inf_fin_loop (fst (inf_fin_upd l s)) (snd (inf_fin_upd l s)) ws" if "is_leaf l" for l s ws
    using that by (cases l) (auto simp: inf_fin_upd_def)
qed simp_all

interpretation once: word_walk "\<lambda>_. True" "\<lambda>s. used_once_loop (fst s) (snd s)" used_once_upd
proof
  show "used_once_loop (fst s) (snd s) (Sub op sz # ws) = used_once_loop (fst s) (snd s) ws"
    if "op = OpAnd \<or> op = OpOr" "ws \<noteq> []" for op ws s sz
    using that by auto
  show "used_once_loop (fst s) (snd s) (enc l @ ws) =
      used_once_loop (fst (used_once_upd l s)) (snd (used_once_upd l s)) ws" if "is_leaf l" for l s ws
    using that by (cases l) (auto simp: used_once_upd_def)
qed simp_all

section \<open>Sets used by a formula\<close>

lemma bit_fold_or:
  "bit (fold (\<lambda>l s. s OR leaf_mark l) ls s) i \<longleftrightarrow> bit s i \<or> (\<exists>l\<in>set ls. bit (leaf_mark l) i)"
  by (induction ls arbitrary: s) (auto simp: bit_or_iff)

lemma bit_fold_inf_fin:
  "(bit (fst (fold inf_fin_upd ls s)) i \<longleftrightarrow> bit (fst s) i \<or>
     (\<exists>l\<in>set ls. \<not> (tree_op l = OpFin \<or> tree_op l = OpFinNeg) \<and> bit (leaf_mark l) i)) \<and>
   (bit (snd (fold inf_fin_upd ls s)) i \<longleftrightarrow> bit (snd s) i \<or>
     (\<exists>l\<in>set ls. (tree_op l = OpFin \<or> tree_op l = OpFinNeg) \<and> bit (leaf_mark l) i))"
  by (induction ls arbitrary: s) (auto simp: inf_fin_upd_def bit_or_iff)

definition occurs :: "'n::len acc_tree \<Rightarrow> nat \<Rightarrow> nat" where
  "occurs t i = length (filter (\<lambda>l. bit (leaf_mark l) i) (leaf_list t))"

lemma bit_fold_once:
  assumes "bit (fst s) i \<longleftrightarrow> n \<ge> 1" "bit (snd s) i \<longleftrightarrow> n \<ge> 2"
  shows "(bit (fst (fold used_once_upd ls s)) i \<longleftrightarrow> n + length (filter (\<lambda>l. bit (leaf_mark l) i) ls) \<ge> 1) \<and>
    (bit (snd (fold used_once_upd ls s)) i \<longleftrightarrow> n + length (filter (\<lambda>l. bit (leaf_mark l) i) ls) \<ge> 2)"
  using assms
proof (induction ls arbitrary: s n)
  case (Cons l ls)
  show ?case
    using Cons.IH [of "used_once_upd l s" "if bit (leaf_mark l) i then Suc n else n"] Cons.prems
    by (auto simp: used_once_upd_def bit_or_iff bit_and_iff)
qed simp

lemma used_sets_enc:
  "tree_ok t \<Longrightarrow> bits (used_sets (enc t)) = {i. \<exists>l\<in>leaves t. bit (leaf_mark l) i}"
  using used.walk [of t 0 "[]"]
  by (auto simp: used_sets_def tree_ok_def is_t_enc is_f_enc bit_fold_or)

lemma used_inf_fin_enc:
  "tree_ok t \<Longrightarrow> bits (fst (used_inf_fin_sets (enc t))) =
      {i. \<exists>l\<in>leaves t. \<not> (tree_op l = OpFin \<or> tree_op l = OpFinNeg) \<and> bit (leaf_mark l) i} \<and>
    bits (snd (used_inf_fin_sets (enc t))) =
      {i. \<exists>l\<in>leaves t. (tree_op l = OpFin \<or> tree_op l = OpFinNeg) \<and> bit (leaf_mark l) i}"
  using inf_fin.walk [of t "(0, 0)" "[]"]
  by (auto simp: used_inf_fin_sets_def tree_ok_def is_t_enc is_f_enc bit_fold_inf_fin)

lemma used_once_enc: "tree_ok t \<Longrightarrow> bits (used_once_sets (enc t)) = {i. occurs t i = 1}"
  using once.walk [of t "(0, 0)" "[]"] bit_fold_once [of "(0, 0)" _ 0 "leaf_list t"]
  by (auto simp: used_once_sets_def tree_ok_def occurs_def)

lemma sat_cong:
  assumes "\<And>i l. l \<in> leaves t \<Longrightarrow> bit (leaf_mark l) i \<Longrightarrow> I i = I' i \<and> J i = J' i"
  shows "tree_sat I J t = tree_sat I' J' t"
  using assms
proof (induction t)
  case (TAnd ts)
  then have "tree_sat I J t = tree_sat I' J' t" if "t \<in> set ts" for t using that by auto
  then show ?case by (auto simp: list_all_iff)
next
  case (TOr ts)
  then have "tree_sat I J t = tree_sat I' J' t" if "t \<in> set ts" for t using that by auto
  then show ?case by (auto simp: list_ex_iff)
qed auto

section \<open>Unit clauses\<close>

definition fin_unit_upd :: "'n::len acc_tree \<Rightarrow> 'n mark_t \<Rightarrow> 'n mark_t" where
  "fin_unit_upd l res = (if tree_op l = OpFin \<and> mark_is_singleton (leaf_mark l)
     then res OR leaf_mark l else res)"

interpretation unit_fin: word_walk "\<lambda>op. op = OpAnd" fin_unit_loop fin_unit_upd
proof
  show "fin_unit_loop s (enc l @ ws) = fin_unit_loop (fin_unit_upd l s) ws" if "is_leaf l" for l s ws
    using that by (cases l) (auto simp: fin_unit_upd_def Let_def)
qed auto

lemma bit_fold_fin_unit:
  "bit (fold fin_unit_upd ls res) i \<longleftrightarrow> bit res i \<or>
     (\<exists>l\<in>set ls. tree_op l = OpFin \<and> mark_is_singleton (leaf_mark l) \<and> bit (leaf_mark l) i)"
  by (induction ls arbitrary: res) (auto simp: fin_unit_upd_def bit_or_iff)

lemma unit_leaf_sat:
  "l \<in> set (leaf_seq (\<lambda>op. op = OpAnd) t) \<Longrightarrow> tree_sat I J t \<Longrightarrow> tree_sat I J l"
  by (induction t) (auto simp: list_all_iff)

lemma fin_unit_enc:
  assumes "tree_ok t" "tree_sat I J t" "bit (fin_unit (enc t)) i"
  shows "\<not> I i"
proof -
  have "t \<noteq> TT" "\<not> is_f (enc t)" using assms is_f_enc_sat by (auto simp: fin_unit_def)
  then have "bit (fold fin_unit_upd (leaf_seq (\<lambda>op. op = OpAnd) t) 0) i"
    using assms(1,3) unit_fin.walk [of t 0 "[]"] by (auto simp: fin_unit_def tree_ok_def)
  then obtain l where l: "l \<in> set (leaf_seq (\<lambda>op. op = OpAnd) t)" "tree_op l = OpFin"
    "mark_is_singleton (leaf_mark l)" "bit (leaf_mark l) i" by (auto simp: bit_fold_fin_unit)
  then have "bits (leaf_mark l) = {i}" by (auto simp: mark_is_singleton_iff set_eq_iff)
  then show ?thesis using l unit_leaf_sat [OF l(1) assms(2)] leaf_seq_leaf [OF l(1)]
    by (cases l) (auto simp: set_eq_iff)
qed

text \<open>An early return is a state that no word changes any more.\<close>

definition fin_one_upd :: "'n::len acc_tree \<Rightarrow> int option \<Rightarrow> int option" where
  "fin_one_upd l s = (case s of Some r \<Rightarrow> Some r
     | None \<Rightarrow> if tree_op l = OpFin then Some (int (mark_min_set (leaf_mark l)) - 1) else None)"

interpretation one_fin: word_walk "\<lambda>_. True" "\<lambda>s ws. case s of Some r \<Rightarrow> r | None \<Rightarrow> fin_one_loop ws" fin_one_upd
proof
  show "(case s of Some r \<Rightarrow> r | None \<Rightarrow> fin_one_loop (enc l @ ws)) =
      (case fin_one_upd l s of Some r \<Rightarrow> r | None \<Rightarrow> fin_one_loop ws)" if "is_leaf l" for l s ws
    using that by (cases l) (auto simp: fin_one_upd_def split: option.split)
qed (auto split: option.split)

lemma fin_one_upd_simps [simp]:
  "fin_one_upd l (Some r) = Some r"
  "fin_one_upd l None = (if tree_op l = OpFin then Some (int (mark_min_set (leaf_mark l)) - 1) else None)"
  by (simp_all add: fin_one_upd_def)

lemma fold_fin_one_Some [simp]: "fold fin_one_upd ls (Some r) = Some r"
  by (induction ls) auto

lemma fold_fin_one:
  "fold fin_one_upd ls None = map_option (\<lambda>l. int (mark_min_set (leaf_mark l)) - 1) (find (\<lambda>l. tree_op l = OpFin) ls)"
  by (induction ls) auto

lemma fin_one_enc:
  "tree_ok t \<Longrightarrow> t \<noteq> TFin 0 \<Longrightarrow> fin_one (enc t) =
    (case find (\<lambda>l. tree_op l = OpFin) (leaf_list t) of None \<Rightarrow> -1
     | Some l \<Rightarrow> int (mark_min_set (leaf_mark l)) - 1)"
  using one_fin.walk [where t = t and s = None and ws = "[]"]
  by (auto simp: fin_one_def tree_ok_def is_f_enc fold_fin_one split: option.splits)

section \<open>Shifted formulas\<close>

lemma length_enc_map [simp]: "length (enc (map_acc_formula f t)) = length (enc t)"
  by (induction t) (auto simp: enc_node length_concat comp_def cong: map_cong simp del: enc.simps(6,7))

lemma shift_seq:
  assumes "\<And>t ws. t \<in> set ts \<Longrightarrow>
      shift_loop k (enc t @ ws) = enc (map_acc_formula (push_bit k) t) @ shift_loop k ws"
  shows "shift_loop k (concat (map enc ts) @ ws) =
      concat (map (\<lambda>t. enc (map_acc_formula (push_bit k) t)) ts) @ shift_loop k ws"
  using assms by (induction ts) auto

lemma shift_loop_node:
  assumes "op = OpAnd \<or> op = OpOr" "ws \<noteq> []"
  shows "shift_loop k (Sub op sz # ws) = Sub op sz # shift_loop k ws"
  using assms by (cases ws) auto

lemma shift_loop_enc:
  "node_ok t \<Longrightarrow> shift_loop k (enc t @ ws) = enc (map_acc_formula (push_bit k) t) @ shift_loop k ws"
proof (induction t arbitrary: ws)
  case (TAnd ts)
  then have "concat (map enc ts) @ ws \<noteq> []" by (cases ts) auto
  with TAnd shift_seq [of ts k ws] shift_loop_node [of OpAnd "concat (map enc ts) @ ws"] show ?case
    by (auto simp: Let_def length_concat comp_def list_all_iff)
next
  case (TOr ts)
  then have "concat (map enc ts) @ ws \<noteq> []" by (cases ts) auto
  with TOr shift_seq [of ts k ws] shift_loop_node [of OpOr "concat (map enc ts) @ ws"] show ?case
    by (auto simp: Let_def length_concat comp_def list_all_iff)
qed auto

lemma code_shl_enc:
  "tree_ok t \<Longrightarrow> k < LENGTH('n) \<Longrightarrow> code_shl (enc (t :: 'n::len acc_tree)) k = Inr (enc (map_acc_formula (push_bit k) t))"
  using shift_loop_enc [of t k "[]"] by (auto simp: code_shl_def tree_ok_def)

lemma shift_ok: "node_ok t \<Longrightarrow> node_ok (map_acc_formula f t)"
  by (induction t) (auto simp: list_all_iff length_concat comp_def)

lemma shift_plain: "plain (map_acc_formula f t) = plain t"
  by (induction t) (auto simp: list_all_iff)

lemma shift_sat:
  assumes "\<And>l i. l \<in> leaves t \<Longrightarrow> bit (leaf_mark l) i \<Longrightarrow> i + k < LENGTH('n)"
  shows "tree_sat I J (map_acc_formula (push_bit k) t) \<longleftrightarrow>
    tree_sat (\<lambda>i. I (i + k)) (\<lambda>i. J (i + k)) (t :: 'n::len acc_tree)"
  using assms
proof (induction t)
  case (TAnd ts)
  then have "tree_sat I J (map_acc_formula (push_bit k) t) = tree_sat (\<lambda>i. I (i + k)) (\<lambda>i. J (i + k)) t"
    if "t \<in> set ts" for t using that by auto
  then show ?case by (auto simp: list_all_iff)
next
  case (TOr ts)
  then have "tree_sat I J (map_acc_formula (push_bit k) t) = tree_sat (\<lambda>i. I (i + k)) (\<lambda>i. J (i + k)) t"
    if "t \<in> set ts" for t using that by auto
  then show ?case by (auto simp: list_ex_iff)
qed (auto simp: bit_push_bit_iff, (metis le_add_diff_inverse2 add_diff_cancel_right' le_add2)+)

section \<open>Clauses\<close>

lemma leaf_codes_sat:
  "list_all (\<lambda>c. accepting c m) (leaf_codes OpInf n) \<longleftrightarrow> tree_sat (bit m) J (TInf n)"
  "list_ex (\<lambda>c. accepting c m) (leaf_codes OpFin n) \<longleftrightarrow> tree_sat (bit m) J (TFin n)"
proof -
  have *: "mark_set 0 d AND m = mark_set 0 d \<longleftrightarrow> bit m d" if "bit n d" for d
    using that bit_imp_le_length [OF that] by (auto simp: mark_and_eq_iff)
  show "list_all (\<lambda>c. accepting c m) (leaf_codes OpInf n) \<longleftrightarrow> tree_sat (bit m) J (TInf n)"
    using * by (auto simp: leaf_codes_def list_all_iff accepting_def)
  show "list_ex (\<lambda>c. accepting c m) (leaf_codes OpFin n) \<longleftrightarrow> tree_sat (bit m) J (TFin n)"
    using * by (auto simp: leaf_codes_def list_ex_iff accepting_def)
qed

lemma clause_split_sat:
  assumes "node_ok u" "plain u"
  shows "list_all (\<lambda>c. accepting c m) (clause_split OpInf (enc u)) \<longleftrightarrow> tree_sat (bit m) J u"
    and "list_ex (\<lambda>c. accepting c m) (clause_split OpFin (enc u)) \<longleftrightarrow> tree_sat (bit m) J u"
proof -
  have acc: "accepting (enc u) m \<longleftrightarrow> tree_sat (bit m) J u"
    using assms by (simp add: accepting_enc tree_ok_def)
  show "list_all (\<lambda>c. accepting c m) (clause_split OpInf (enc u)) \<longleftrightarrow> tree_sat (bit m) J u"
  proof (cases "tree_op u = OpInf")
    case True
    then obtain n where "u = TInf n" using assms(1) by (cases u) auto
    then show ?thesis using leaf_codes_sat(1) [of m n J] by (simp add: clause_split_def top_is_def)
  qed (use acc assms in \<open>simp add: clause_split_def\<close>)
  show "list_ex (\<lambda>c. accepting c m) (clause_split OpFin (enc u)) \<longleftrightarrow> tree_sat (bit m) J u"
  proof (cases "tree_op u = OpFin")
    case True
    then obtain n where "u = TFin n" using assms(1) by (cases u) auto
    then show ?thesis using leaf_codes_sat(2) [of m n J] by (simp add: clause_split_def top_is_def)
  qed (use acc assms in \<open>simp add: clause_split_def\<close>)
qed

lemma clause_split_node: "op \<noteq> leaf \<Longrightarrow> clause_split leaf (Sub op n # ws) = [Sub op n # ws]"
  by (simp add: clause_split_def top_is_def)

lemma top_clauses_enc:
  assumes "node_ok t" "connect = OpAnd \<or> connect = OpOr" "leaf = OpInf \<or> leaf = OpFin"
  shows "top_clauses (enc t) connect leaf = concat (map (clause_split leaf \<circ> enc) (operands connect t))"
proof (cases "is_leaf t")
  case True
  then show ?thesis using assms by (cases t) (auto simp: top_clauses_def clause_split_def top_is_def)
next
  case False
  then show ?thesis using assms
    by (cases t) (auto simp: top_clauses_def clause_split_node
        enc_node children_enc simp del: enc.simps(6,7))
qed

lemma top_conjuncts_enc:
  assumes "tree_ok t" "plain t"
  shows "list_all (\<lambda>c. accepting c m) (top_conjuncts (enc t)) \<longleftrightarrow> tree_sat (bit m) J t"
proof (cases "t = TT")
  case False
  then have t: "node_ok t" using assms(1) by (simp add: tree_ok_def)
  have "tree_sat (bit m) J t \<longleftrightarrow> list_all (tree_sat (bit m) J) (operands OpAnd t)"
    by (cases "(OpAnd, t)" rule: operands.cases) auto
  also have "\<dots> \<longleftrightarrow> list_all (\<lambda>u. list_all (\<lambda>c. accepting c m) (clause_split OpInf (enc u))) (operands OpAnd t)"
    using operands_ok [OF t, of OpAnd] operands_plain [OF assms(2), of OpAnd] clause_split_sat(1) [of _ m J]
    by (auto simp: list_all_iff)
  finally show ?thesis using top_clauses_enc [OF t, of OpAnd OpInf]
    by (simp add: top_conjuncts_def list_all_iff)
qed (simp add: top_conjuncts_def top_clauses_def accepting_def)

lemma top_disjuncts_enc:
  assumes "tree_ok t" "plain t"
  shows "list_ex (\<lambda>c. accepting c m) (top_disjuncts (enc t)) \<longleftrightarrow> tree_sat (bit m) J t"
proof (cases "t = TT")
  case False
  then have t: "node_ok t" using assms(1) by (simp add: tree_ok_def)
  have "tree_sat (bit m) J t \<longleftrightarrow> list_ex (tree_sat (bit m) J) (operands OpOr t)"
    by (cases "(OpOr, t)" rule: operands.cases) auto
  also have "\<dots> \<longleftrightarrow> list_ex (\<lambda>u. list_ex (\<lambda>c. accepting c m) (clause_split OpFin (enc u))) (operands OpOr t)"
    using operands_ok [OF t, of OpOr] operands_plain [OF assms(2), of OpOr] clause_split_sat(2) [of _ m J]
    by (auto simp: list_all_iff list_ex_iff)
  finally show ?thesis using top_clauses_enc [OF t, of OpOr OpFin]
    by (simp add: top_disjuncts_def list_ex_iff)
qed (simp add: top_disjuncts_def top_clauses_def accepting_def)

section \<open>Normal forms\<close>

fun flat :: "acc_op \<Rightarrow> acc_op \<Rightarrow> acc_op \<Rightarrow> 'n::len acc_tree \<Rightarrow> bool" where
  "flat inner leaf leaf_neg TT = True"
| "flat inner leaf leaf_neg (TAnd ts) = (inner = OpAnd \<and> list_all (flat inner leaf leaf_neg) ts)"
| "flat inner leaf leaf_neg (TOr ts) = (inner = OpOr \<and> list_all (flat inner leaf leaf_neg) ts)"
| "flat inner leaf leaf_neg t = (\<not> ((tree_op t = leaf \<or> tree_op t = leaf_neg) \<and> mark_has_many (leaf_mark t)))"

definition clause_ok :: "acc_op \<Rightarrow> acc_op \<Rightarrow> acc_op \<Rightarrow> 'n::len acc_tree \<Rightarrow> bool" where
  "clause_ok inner leaf leaf_neg t = (is_leaf t \<or> flat inner leaf leaf_neg t)"

text \<open>
  A disjunctive normal form: a constant, a leaf, a conjunction of literals, or a disjunction
  of these; below a conjunction a \<open>Fin\<close> of several sets, which is a disjunction, is excluded.
\<close>

definition tree_dnf :: "'n::len acc_tree \<Rightarrow> bool" where
  "tree_dnf t = list_all (clause_ok OpAnd OpFin OpFinNeg) (operands OpOr t)"

definition tree_cnf :: "'n::len acc_tree \<Rightarrow> bool" where
  "tree_cnf t = list_all (clause_ok OpOr OpInf OpInfNeg) (operands OpAnd t)"

lemma nf_loop_node:
  assumes "inner = OpAnd \<or> inner = OpOr" "inner \<noteq> outer" "ws \<noteq> []"
  shows "nf_loop outer inner leaf neg scope (Sub inner sz # ws) =
    nf_loop outer inner leaf neg (min scope (Suc (length ws) - sz)) ws"
  using assms by (cases ws) auto

lemma nf_loop_outer: "ws \<noteq> [] \<Longrightarrow> \<not> nf_loop outer inner leaf neg scope (Sub outer sz # ws)"
  by (cases ws) auto

lemma nf_loop_leaf:
  assumes "is_leaf l" "{inner, outer} = {OpAnd, OpOr}"
  shows "nf_loop outer inner leaf neg scope (enc l @ ws) \<longleftrightarrow>
    \<not> ((tree_op l = leaf \<or> tree_op l = neg) \<and> mark_has_many (leaf_mark l) \<and> Suc (Suc (length ws)) > scope)
    \<and> nf_loop outer inner leaf neg scope ws"
  using assms by (cases l) (auto simp: doubleton_eq_iff)

lemma nf_loop_body:
  assumes "inner = OpAnd \<or> inner = OpOr" "inner \<noteq> outer" "vs \<noteq> []"
  shows "nf_loop outer inner leaf neg scope (Sub inner (length vs) # vs @ ws) =
    nf_loop outer inner leaf neg (min scope (Suc (length ws))) (vs @ ws)"
  using assms nf_loop_node [of inner outer "vs @ ws" leaf neg scope "length vs"] by simp

text \<open>Inside the scope of an inner connective only literals and the connective itself pass.\<close>

lemma nf_loop_inside:
  assumes "{inner, outer} = {OpAnd, OpOr}" "node_ok t" "scope \<le> Suc (length ws)"
  shows "nf_loop outer inner leaf neg scope (enc t @ ws) \<longleftrightarrow>
    flat inner leaf neg t \<and> nf_loop outer inner leaf neg scope ws"
  using assms(2,3)
proof (induction t arbitrary: ws)
  case (TAnd ts)
  have seq: "nf_loop outer inner leaf neg scope (concat (map enc us) @ ws) \<longleftrightarrow>
      list_all (flat inner leaf neg) us \<and> nf_loop outer inner leaf neg scope ws"
    if "set us \<subseteq> set ts" for us
    using that TAnd by (induction us) (auto simp: list_all_iff)
  have ne: "concat (map enc ts) \<noteq> []" using TAnd.prems by (cases ts) auto
  show ?case
  proof (cases "inner = OpAnd")
    case True
    then have "OpAnd \<noteq> outer" using assms(1) by (auto simp: doubleton_eq_iff)
    from nf_loop_body [OF _ this ne, of leaf neg scope ws] True TAnd.prems(2) seq [of ts]
    show ?thesis by (simp add: enc_node min_absorb1 del: enc.simps(6,7))
  next
    case False
    then have "outer = OpAnd" using assms(1) by (auto simp: doubleton_eq_iff)
    with False ne show ?thesis by (simp add: enc_node nf_loop_outer del: enc.simps(6,7))
  qed
next
  case (TOr ts)
  have seq: "nf_loop outer inner leaf neg scope (concat (map enc us) @ ws) \<longleftrightarrow>
      list_all (flat inner leaf neg) us \<and> nf_loop outer inner leaf neg scope ws"
    if "set us \<subseteq> set ts" for us
    using that TOr by (induction us) (auto simp: list_all_iff)
  have ne: "concat (map enc ts) \<noteq> []" using TOr.prems by (cases ts) auto
  show ?case
  proof (cases "inner = OpOr")
    case True
    then have "OpOr \<noteq> outer" using assms(1) by (auto simp: doubleton_eq_iff)
    from nf_loop_body [OF _ this ne, of leaf neg scope ws] True TOr.prems(2) seq [of ts]
    show ?thesis by (simp add: enc_node min_absorb1 del: enc.simps(6,7))
  next
    case False
    then have "outer = OpOr" using assms(1) by (auto simp: doubleton_eq_iff)
    with False ne show ?thesis by (simp add: enc_node nf_loop_outer del: enc.simps(6,7))
  qed
qed (use assms(1) in \<open>auto simp: doubleton_eq_iff\<close>)

text \<open>Outside of every scope a clause leaves the scope just behind it.\<close>

lemma nf_loop_clause:
  assumes "{inner, outer} = {OpAnd, OpOr}" "node_ok t" "Suc (length (enc t @ ws)) \<le> scope"
  shows "\<exists>scope' \<ge> Suc (length ws). nf_loop outer inner leaf neg scope (enc t @ ws) \<longleftrightarrow>
    clause_ok inner leaf neg t \<and> nf_loop outer inner leaf neg scope' ws"
proof (cases "is_leaf t")
  case True
  then have "nf_loop outer inner leaf neg scope (enc t @ ws) \<longleftrightarrow> nf_loop outer inner leaf neg scope ws"
    using nf_loop_leaf [OF True assms(1)] assms(3) is_leaf_leaves [OF True] enc_length [of t] by simp
  with True assms(3) show ?thesis by (intro exI [of _ scope]) (simp add: clause_ok_def)
next
  case False
  obtain op ts where t: "enc t = Sub op (length (concat (map enc ts))) # concat (map enc ts)"
    "ts \<noteq> []" "list_all node_ok ts" "op = OpAnd \<or> op = OpOr"
    "flat inner leaf neg t \<longleftrightarrow> inner = op \<and> list_all (flat inner leaf neg) ts"
    using assms(2) False by (cases t) (auto simp: Let_def)
  have ne: "concat (map enc ts) \<noteq> []" using t(2,3) by (cases ts) auto
  show ?thesis
  proof (cases "inner = op")
    case True
    then have "inner \<noteq> outer" using assms(1) t(4) by (auto simp: doubleton_eq_iff)
    then have "nf_loop outer inner leaf neg scope (enc t @ ws) \<longleftrightarrow>
        nf_loop outer inner leaf neg (Suc (length ws)) (concat (map enc ts) @ ws)"
      using nf_loop_body [of inner outer, OF _ _ ne, of leaf neg scope ws] t True assms(3) by (simp add: min_absorb2)
    also have "\<dots> \<longleftrightarrow> list_all (flat inner leaf neg) ts \<and> nf_loop outer inner leaf neg (Suc (length ws)) ws"
      using t(3) by (induction ts) (auto simp: nf_loop_inside [OF assms(1)])
    finally show ?thesis using t False True by (intro exI [of _ "Suc (length ws)"]) (simp add: clause_ok_def)
  next
    case no: False
    then have "outer = op" using assms(1) t(4) by (auto simp: doubleton_eq_iff)
    with no t ne False show ?thesis by (auto simp: nf_loop_outer clause_ok_def)
  qed
qed

lemma nf_loop_clauses:
  assumes "{inner, outer} = {OpAnd, OpOr}" "list_all node_ok ts" "Suc (length (concat (map enc ts))) \<le> scope"
  shows "nf_loop outer inner leaf neg scope (concat (map enc ts)) \<longleftrightarrow> list_all (clause_ok inner leaf neg) ts"
  using assms(2,3)
proof (induction ts arbitrary: scope)
  case (Cons t ts)
  then have t: "node_ok t" "list_all node_ok ts" by simp_all
  have "Suc (length (enc t @ concat (map enc ts))) \<le> scope" using Cons.prems(2) by simp
  from nf_loop_clause [OF assms(1) t(1) this, of leaf neg] show ?case
    using Cons.IH [OF t(2)] by auto
qed simp

lemma is_nf_enc:
  assumes "node_ok t" "{inner, outer} = {OpAnd, OpOr}"
  shows "nf_loop outer inner leaf neg (Suc (length (enc t))) (if top_is outer (enc t) then tl (enc t) else enc t)
    \<longleftrightarrow> list_all (clause_ok inner leaf neg) (operands outer t)"
proof (cases "tree_op t = outer")
  case True
  then have "tl (enc t) = concat (map enc (operands outer t))" "list_all node_ok (operands outer t)"
    using assms(1,2) by (cases t; auto simp: doubleton_eq_iff Let_def)+
  then show ?thesis using True assms nf_loop_clauses [OF assms(2), of "operands outer t" "Suc (length (enc t))"]
    by (simp flip: \<open>tl (enc t) = concat (map enc (operands outer t))\<close>)
next
  case False
  then have "operands outer t = [t]" using assms(2)
    by (cases "(outer, t)" rule: operands.cases) (auto simp: doubleton_eq_iff)
  then show ?thesis using False assms nf_loop_clauses [OF assms(2), of "[t]" "Suc (length (enc t))"] by simp
qed

lemma clause_ok_leaf: "length (enc t) = 2 \<Longrightarrow> node_ok t \<Longrightarrow> is_leaf t"
proof (cases t)
  case (TAnd ts)
  assume "length (enc t) = 2" "node_ok t"
  with TAnd enc_length [of "hd ts"] show ?thesis by (cases ts) (auto simp: Let_def)
next
  case (TOr ts)
  assume "length (enc t) = 2" "node_ok t"
  with TOr enc_length [of "hd ts"] show ?thesis by (cases ts) (auto simp: Let_def)
qed auto

lemma operands_leaf: "is_leaf t \<Longrightarrow> operands op t = [t]"
  by (cases "(op, t)" rule: operands.cases) auto

section \<open>Properties of the reading functions\<close>

text \<open>
  \<open>is_dnf\<close> and \<open>is_cnf\<close>, which keep the scope of the last inner connective in a
  pointer while they scan the words, recognise exactly the disjunctive and conjunctive
  normal forms.
\<close>

theorem normal_form_tests:
  assumes "tree_ok t"
  shows "(is_dnf (enc t) \<longleftrightarrow> tree_dnf t) \<and> (is_cnf (enc t) \<longleftrightarrow> tree_cnf t)"
proof (cases "t = TT \<or> is_leaf t")
  case True
  then show ?thesis
    by (cases t) (auto simp: is_dnf_def is_cnf_def tree_dnf_def tree_cnf_def operands_leaf clause_ok_def)
next
  case False
  then have t: "node_ok t" "length (enc t) \<noteq> 2" using assms clause_ok_leaf by (auto simp: tree_ok_def)
  then show ?thesis
    using False is_nf_enc [OF t(1), of OpAnd OpOr] is_nf_enc [OF t(1), of OpOr OpAnd]
    by (simp add: is_dnf_def is_cnf_def tree_dnf_def tree_cnf_def doubleton_eq_iff)
qed

theorem normal_form_tests_witness:
  "is_dnf (enc (TOr [TFin 3, TAnd [TFin 1, TInf (6 :: 32 mark_t)]]))
    \<and> \<not> is_dnf (enc (TOr [TInf 8, TAnd [TFin 3, TInf (4 :: 32 mark_t)]]))"
proof -
  have m: "mark_has_many (3 :: 32 mark_t)" "\<not> mark_has_many (1 :: 32 mark_t)"
    by (simp_all add: mark_has_many_def mark_count_def upt_rec bit_numeral_rec numeral_eq_Suc)
  have "tree_ok (TOr [TFin 3, TAnd [TFin 1, TInf (6 :: 32 mark_t)]])"
    "tree_ok (TOr [TInf 8, TAnd [TFin 3, TInf (4 :: 32 mark_t)]])" by (simp_all add: tree_ok_def)
  from this [THEN normal_form_tests] m show ?thesis by (simp add: tree_dnf_def clause_ok_def)
qed

lemma plain_leaf_cases: "plain t \<Longrightarrow> l \<in> leaves t \<Longrightarrow> \<exists>k. l = TInf k \<or> l = TFin k"
  by (induction t) (auto simp: list_all_iff)

lemma plain_leaf_sets:
  assumes "plain t"
  shows "{i. \<exists>l\<in>leaves t. \<not> (tree_op l = OpFin \<or> tree_op l = OpFinNeg) \<and> bit (leaf_mark l) i} = {i. \<exists>k. TInf k \<in> leaves t \<and> bit k i}"
    and "{i. \<exists>l\<in>leaves t. (tree_op l = OpFin \<or> tree_op l = OpFinNeg) \<and> bit (leaf_mark l) i} = {i. \<exists>k. TFin k \<in> leaves t \<and> bit k i}"
proof -
  have "tree_op l = OpFin \<and> l = TFin (leaf_mark l) \<or> tree_op l = OpInf \<and> l = TInf (leaf_mark l)" if "l \<in> leaves t" for l
    using plain_leaf_cases [OF assms that] by auto
  then show "{i. \<exists>l\<in>leaves t. \<not> (tree_op l = OpFin \<or> tree_op l = OpFinNeg) \<and> bit (leaf_mark l) i} = {i. \<exists>k. TInf k \<in> leaves t \<and> bit k i}"
    "{i. \<exists>l\<in>leaves t. (tree_op l = OpFin \<or> tree_op l = OpFinNeg) \<and> bit (leaf_mark l) i} = {i. \<exists>k. TFin k \<in> leaves t \<and> bit k i}"
    by force+
qed

text \<open>
  Property C34: acceptance depends only on the used sets: two marks that agree on \<open>used_sets\<close> are
  both accepted or both rejected.  \<open>used_sets\<close> returns the sets of all leaves, \<open>used_inf_fin_sets\<close>
  the sets of the \<open>Inf\<close> leaves and the sets of the \<open>Fin\<close> leaves, in this order, and \<open>used_once_sets\<close>
  the sets that occur in one leaf.
\<close>

theorem used_sets_suffice:
  assumes "tree_ok t" and "plain t" and "m AND used_sets (enc t) = n AND used_sets (enc t)"
  shows "accepting (enc t) m = accepting (enc t) n
    \<and> bits (used_sets (enc t)) = {i. \<exists>l\<in>leaves t. bit (leaf_mark l) i}
    \<and> bits (fst (used_inf_fin_sets (enc t))) = {i. \<exists>k. TInf k \<in> leaves t \<and> bit k i}
    \<and> bits (snd (used_inf_fin_sets (enc t))) = {i. \<exists>k. TFin k \<in> leaves t \<and> bit k i}
    \<and> fst (used_inf_fin_sets (enc t)) OR snd (used_inf_fin_sets (enc t)) = used_sets (enc t)
    \<and> bits (used_once_sets (enc t)) = {i. occurs t i = 1}"
proof (intro conjI)
  have "bit m i = bit n i" if "l \<in> leaves t" "bit (leaf_mark l) i" for l i
  proof -
    have "i \<in> bits (used_sets (enc t))" using that used_sets_enc [OF assms(1)] by auto
    then show ?thesis using assms(3) by (metis bit_and_iff mem_bits)
  qed
  then show "accepting (enc t) m = accepting (enc t) n"
    using sat_cong [of t "bit m" "bit n" bot bot] by (simp add: accepting_enc [OF assms(1,2), of _ bot])
  show "bits (used_sets (enc t)) = {i. \<exists>l\<in>leaves t. bit (leaf_mark l) i}" using used_sets_enc [OF assms(1)] by auto
  show "bits (fst (used_inf_fin_sets (enc t))) = {i. \<exists>k. TInf k \<in> leaves t \<and> bit k i}"
    "bits (snd (used_inf_fin_sets (enc t))) = {i. \<exists>k. TFin k \<in> leaves t \<and> bit k i}"
    using used_inf_fin_enc [OF assms(1)] plain_leaf_sets [OF assms(2)] by simp_all
  have "bits (fst (used_inf_fin_sets (enc t)) OR snd (used_inf_fin_sets (enc t))) = bits (used_sets (enc t))"
    using used_inf_fin_enc [OF assms(1)] used_sets_enc [OF assms(1)] by auto
  then show "fst (used_inf_fin_sets (enc t)) OR snd (used_inf_fin_sets (enc t)) = used_sets (enc t)"
    by (rule iffD1 [OF bits_inject])
qed (rule used_once_enc [OF assms(1)])
theorem used_sets_suffice_witness:
  "accepting (enc (TAnd [TFin 1, TInf 6])) (14 :: 32 mark_t) = accepting (enc (TAnd [TFin 1, TInf 6])) (6 :: 32 mark_t)"
  by (rule used_sets_suffice [THEN conjunct1])
    (simp_all add: tree_ok_def used_sets_def is_t_def is_f_def top_is_def)

text \<open>
  whenever a formula is satisfied, no set of \<open>fin_unit\<close> is visited infinitely
  often; and \<open>fin_one\<close> returns \<open>-1\<close> when the formula has no \<open>Fin\<close> leaf, and otherwise the
  lowest set of a \<open>Fin\<close> leaf, provided the constant \<open>f\<close> is not one of the leaves.
\<close>

theorem fin_unit_fin_one:
  assumes "tree_ok t" and "TFin 0 \<notin> leaves t"
  shows "(\<forall>run i. run_sat run t \<and> bit (fin_unit (enc t)) i \<longrightarrow> \<not> inf_often run i)
    \<and> ((\<forall>l\<in>leaves t. tree_op l \<noteq> OpFin) \<longrightarrow> fin_one (enc t) = -1)
    \<and> ((\<exists>l\<in>leaves t. tree_op l = OpFin) \<longrightarrow>
        (\<exists>m. TFin m \<in> leaves t \<and> fin_one (enc t) = int (Min (bits m)) \<and> bit m (Min (bits m))))"
proof (intro conjI impI allI)
  show "\<not> inf_often run i" if "run_sat run t \<and> bit (fin_unit (enc t)) i" for run i
    using that fin_unit_enc [OF assms(1)] by (auto simp: run_sat_def)
  have one: "fin_one (enc t) = (case find (\<lambda>l. tree_op l = OpFin) (leaf_list t) of None \<Rightarrow> -1
     | Some l \<Rightarrow> int (mark_min_set (leaf_mark l)) - 1)"
    using fin_one_enc [OF assms(1)] assms(2) by (cases "t = TFin 0") auto
  show "fin_one (enc t) = -1" if "\<forall>l\<in>leaves t. tree_op l \<noteq> OpFin"
  proof -
    have "find (\<lambda>l. tree_op l = OpFin) (leaf_list t) = None" using that by (auto simp: find_None_iff)
    with one show ?thesis by simp
  qed
  show "\<exists>m. TFin m \<in> leaves t \<and> fin_one (enc t) = int (Min (bits m)) \<and> bit m (Min (bits m))"
    if ex: "\<exists>l\<in>leaves t. tree_op l = OpFin"
  proof -
    have "find (\<lambda>l. tree_op l = OpFin) (leaf_list t) \<noteq> None" using ex by (auto simp: find_None_iff)
    then obtain l where l: "find (\<lambda>l. tree_op l = OpFin) (leaf_list t) = Some l" by auto
    then have "l \<in> leaves t" "tree_op l = OpFin" by (auto simp: find_Some_iff in_set_conv_nth simp flip: set_leaf_list)
    then obtain m where m: "l = TFin m" "TFin m \<in> leaves t" using leaves_leaf [of l t] by (cases l) auto
    then have "m \<noteq> 0" using assms(2) by auto
    moreover from this have "Min (bits m) \<in> bits m" using Min_in [of "bits m"] by simp
    ultimately show ?thesis using one l m by (auto simp: mark_min_set_Min)
  qed
qed

theorem fin_unit_fin_one_witness:
  "\<exists>m. TFin m \<in> leaves (TAnd [TInf (6 :: 32 mark_t), TFin 8]) \<and>
    fin_one (enc (TAnd [TInf (6 :: 32 mark_t), TFin 8])) = int (Min (bits m))"
  using fin_unit_fin_one [of "TAnd [TInf (6 :: 32 mark_t), TFin 8]"] by (auto simp: tree_ok_def)

text \<open>
  a formula is accepting on a mark exactly when all its \<open>top_conjuncts\<close> are, and
  when one of its \<open>top_disjuncts\<close> is.
\<close>

theorem top_clauses_decompose:
  assumes "tree_ok t" and "plain t"
  shows "(accepting (enc t) m \<longleftrightarrow> list_all (\<lambda>c. accepting c m) (top_conjuncts (enc t)))
    \<and> (accepting (enc t) m \<longleftrightarrow> list_ex (\<lambda>c. accepting c m) (top_disjuncts (enc t)))"
  using accepting_enc [OF assms, of m bot] top_conjuncts_enc [OF assms, of m bot]
    top_disjuncts_enc [OF assms, of m bot] by simp

theorem top_clauses_decompose_witness:
  "list_all (\<lambda>c. accepting c 6) (top_conjuncts (enc (TAnd [TFin 1, TInf (6 :: 32 mark_t)])))"
  using top_clauses_decompose [of "TAnd [TFin 1, TInf (6 :: 32 mark_t)]" 6]
  by (simp add: tree_ok_def accepting_def)

text \<open>
  \<open>operator<<\<close> renumbers the sets.  It fails exactly when the shift is not below
  the number of sets, and when no set number overflows, a mark is accepted by the formula
  if and only if the shifted mark is accepted by the shifted formula.
\<close>

theorem code_shl_renumbers:
  fixes t :: "'n::len acc_tree"
  assumes "tree_ok t" and "plain t" and "mark_max_set (used_sets (enc t)) + k \<le> LENGTH('n)" and "k < LENGTH('n)"
  shows "(\<exists>c. code_shl (enc t) k = Inr c \<and> wf_code c \<and> (\<forall>m. accepting c (push_bit k m) = accepting (enc t) m))
    \<and> (\<forall>j \<ge> LENGTH('n). code_shl (enc t) j = Inl Too_many_sets)"
proof (intro conjI exI allI)
  let ?u = "map_acc_formula (push_bit k) t"
  show "code_shl (enc t) k = Inr (enc ?u)" by (rule code_shl_enc [OF assms(1,4)])
  have ok: "tree_ok ?u" "plain ?u" using assms(1,2) shift_ok by (auto simp: tree_ok_def shift_plain)
  then show "wf_code (enc ?u)" by (auto simp: wf_code_def)
  have fits: "i + k < LENGTH('n)" if "l \<in> leaves t" "bit (leaf_mark l) i" for l i
  proof -
    have "i \<in> bits (used_sets (enc t))" using that used_sets_enc [OF assms(1)] by auto
    then have "i < mark_max_set (used_sets (enc t))" using bit_below_max_set by simp
    with assms(3) show ?thesis by simp
  qed
  fix m :: "'n mark_t"
  have "tree_sat (bit (push_bit k m)) bot ?u \<longleftrightarrow> tree_sat (\<lambda>i. bit (push_bit k m) (i + k)) (\<lambda>i. bot (i + k)) t"
    by (rule shift_sat) (rule fits)
  also have "\<dots> \<longleftrightarrow> tree_sat (bit m) bot t"
    by (rule sat_cong) (use fits in \<open>auto simp: bit_push_bit_iff\<close>)
  finally show "accepting (enc ?u) (push_bit k m) = accepting (enc t) m"
    using accepting_enc [OF ok, of _ bot] accepting_enc [OF assms(1,2), of _ bot] by simp
qed (simp add: code_shl_def)

theorem code_shl_renumbers_witness:
  "code_shl (enc (TAnd [TFin 1, TInf (8 :: 32 mark_t)])) 40 = Inl Too_many_sets"
proof -
  have "mark_max_set (9 :: 32 mark_t) \<le> 32" using max_set_le_length [of "9 :: 32 mark_t"] by simp
  then show ?thesis
    using code_shl_renumbers [of "TAnd [TFin 1, TInf (8 :: 32 mark_t)]" 0]
    by (simp add: tree_ok_def used_sets_def is_t_def is_f_def top_is_def)
qed

end
