(* ===== verification/AccBuild.thy ===== *)
theory AccBuild
  imports AccQuery
begin

unbundle bit_operations_syntax

text \<open>
  The builders of standard acceptance formulas, \<open>acc_code::buchi\<close>, \<open>cobuchi\<close>,
  \<open>generalized_buchi\<close>, \<open>generalized_co_buchi\<close>, \<open>rabin\<close>, \<open>streett\<close>, \<open>generalized_rabin\<close>
  (\<^verbatim>\<open>spot/twa/acc.hh\<close>) and \<open>parity\<close> (\<^verbatim>\<open>spot/twa/acc.cc\<close>).

  A builder that names a set out of range reports too many sets, so it returns a sum; the
  arithmetic on \<open>unsigned\<close> numbers is written out modulo \<open>2 ^ 32\<close>.  The theorems give the
  condition that each builder's formula expresses.
\<close>

fun bind_sum :: "'e + 'a \<Rightarrow> ('a \<Rightarrow> 'e + 'b) \<Rightarrow> 'e + 'b" where
  "bind_sum (Inl e) f = Inl e"
| "bind_sum (Inr x) f = f x"

definition u32_of :: "int \<Rightarrow> nat" where
  "u32_of i = nat (i mod 2 ^ 32)"

lemma u32_of_nat [simp]: "n < 2 ^ 32 \<Longrightarrow> u32_of (int n) = n"
  by (simp add: u32_of_def)

section \<open>Builders\<close>

definition inf1 :: "nat \<Rightarrow> acc_error + 'n::len acc_code" where
  "inf1 i = bind_sum (mark_t [i]) (\<lambda>m. Inr (inf_code m))"

definition fin1 :: "nat \<Rightarrow> acc_error + 'n::len acc_code" where
  "fin1 i = bind_sum (mark_t [i]) (\<lambda>m. Inr (fin m))"

definition buchi :: "acc_error + 'n::len acc_code" where
  "buchi = inf1 0"

definition cobuchi :: "acc_error + 'n::len acc_code" where
  "cobuchi = fin1 0"

definition generalized_buchi :: "nat \<Rightarrow> acc_error + 'n::len acc_code" where
  "generalized_buchi n = (if n = 0 then Inr (inf_code 0)
     else bind_sum (mark_shr mark_all (u32_of (int LENGTH('n) - int n))) (\<lambda>m. Inr (inf_code m)))"

definition generalized_co_buchi :: "nat \<Rightarrow> acc_error + 'n::len acc_code" where
  "generalized_co_buchi n = (if n = 0 then Inr (fin 0)
     else bind_sum (mark_shr mark_all (u32_of (int LENGTH('n) - int n))) (\<lambda>m. Inr (fin m)))"

fun rabin_loop :: "'n::len acc_code \<Rightarrow> nat \<Rightarrow> acc_error + 'n acc_code" where
  "rabin_loop res 0 = Inr res"
| "rabin_loop res (Suc n) =
     bind_sum (inf1 (u32_of (2 * int (Suc n) - 1))) (\<lambda>i.
     bind_sum (fin1 (u32_of (2 * int (Suc n) - 2))) (\<lambda>f.
     rabin_loop (or_code res (and_code i f)) n))"

definition rabin :: "nat \<Rightarrow> acc_error + 'n::len acc_code" where
  "rabin n = rabin_loop code_f n"

fun streett_loop :: "'n::len acc_code \<Rightarrow> nat \<Rightarrow> acc_error + 'n acc_code" where
  "streett_loop res 0 = Inr res"
| "streett_loop res (Suc n) =
     bind_sum (inf1 (u32_of (2 * int (Suc n) - 1))) (\<lambda>i.
     bind_sum (fin1 (u32_of (2 * int (Suc n) - 2))) (\<lambda>f.
     streett_loop (and_code res (or_code i f)) n))"

definition streett :: "nat \<Rightarrow> acc_error + 'n::len acc_code" where
  "streett n = streett_loop code_t n"

text \<open>
  The inner loop of \<open>generalized_rabin\<close> sets \<open>ni\<close> consecutive numbers from \<open>n\<close> on; \<open>set()\<close> does not
  check its argument.  The new pair is swapped with the result, so it comes first.
\<close>

fun set_range :: "'n::len mark_t \<Rightarrow> nat \<Rightarrow> nat \<Rightarrow> 'n mark_t \<times> nat" where
  "set_range m n 0 = (m, n)"
| "set_range m n (Suc ni) = set_range (mark_set m n) (n + 1) ni"

fun generalized_rabin_loop :: "'n::len acc_code \<Rightarrow> nat \<Rightarrow> nat list \<Rightarrow> acc_error + 'n acc_code" where
  "generalized_rabin_loop res n [] = Inr res"
| "generalized_rabin_loop res n (i # is) =
     (let f = n; (m, n) = set_range 0 (n + 1) i in
      bind_sum (fin1 f) (\<lambda>fc. generalized_rabin_loop (or_code (and_code (inf_code m) fc) res) n is))"

definition generalized_rabin :: "nat list \<Rightarrow> acc_error + 'n::len acc_code" where
  "generalized_rabin is = generalized_rabin_loop code_f 0 is"

definition parity_start :: "bool \<Rightarrow> bool \<Rightarrow> nat \<Rightarrow> bool" where
  "parity_start is_max is_odd sets = (if is_max then is_odd else (sets mod 2 = (if is_odd then 1 else 0)))"

fun parity_loop :: "bool \<Rightarrow> 'n::len acc_code \<Rightarrow> nat list \<Rightarrow> acc_error + 'n acc_code" where
  "parity_loop is_odd res [] = Inr res"
| "parity_loop is_odd res (i # is) =
     (if odd i = is_odd then bind_sum (inf1 i) (\<lambda>c. parity_loop is_odd (or_code res c) is)
      else bind_sum (fin1 i) (\<lambda>c. parity_loop is_odd (and_code res c) is))"

definition parity :: "bool \<Rightarrow> bool \<Rightarrow> nat \<Rightarrow> acc_error + 'n::len acc_code" where
  "parity is_max is_odd sets =
    (let res = (if parity_start is_max is_odd sets then code_t else code_f) in
     if sets = 0 then Inr res
     else parity_loop is_odd res (if is_max then [0..<sets] else rev [0..<sets]))"

section \<open>What a code denotes\<close>

text \<open>
  A code of at most \<open>n\<close> words that accepts exactly the marks satisfying \<open>P\<close>.  The builders
  combine such codes with the two connectives.
\<close>

definition denotes :: "'n::len acc_code \<Rightarrow> nat \<Rightarrow> ('n mark_t \<Rightarrow> bool) \<Rightarrow> bool" where
  "denotes c n P \<longleftrightarrow> (\<exists>t. tree_ok t \<and> plain t \<and> c = enc t \<and> length c \<le> n \<and>
     (\<forall>m. tree_sat (bit m) bot t = P m))"

lemma denotes_accepting: "denotes c n P \<Longrightarrow> accepting c m = P m"
  unfolding denotes_def by (elim exE conjE) (simp add: accepting_enc [of _ m bot])

lemma denotes_wf: "denotes c n P \<Longrightarrow> wf_code c"
  by (auto simp: denotes_def wf_code_def)

lemma denotes_le: "denotes c n P \<Longrightarrow> n \<le> n' \<Longrightarrow> (\<And>m. P m = Q m) \<Longrightarrow> denotes c n' Q"
  by (auto simp: denotes_def)

lemma denotes_and:
  assumes "denotes a k P" "denotes b l Q" "k + l < 2 ^ 16"
  shows "denotes (and_code a b) (max 2 (Suc (k + l))) (\<lambda>m. P m \<and> Q m)"
proof -
  obtain t u where t: "tree_ok t" "plain t" "a = enc t" "length a \<le> k" "\<And>m. tree_sat (bit m) bot t = P m"
    and u: "tree_ok u" "plain u" "b = enc u" "length b \<le> l" "\<And>m. tree_sat (bit m) bot u = Q m"
    using assms(1,2) by (auto simp: denotes_def)
  then have "length (enc t) + length (enc u) < 2 ^ 16" using assms(3) by simp
  note ct = conj.comb_tree [OF t(1) u(1) this]
  have "length (enc (tree_and t u)) \<le> max 2 (Suc (k + l))"
    using ct [of bot bot] t(3,4) u(3,4) by (auto intro: order.trans)
  then show ?thesis unfolding denotes_def
    using ct t u tree_and_plain [OF t(1) u(1)] by (intro exI [of _ "tree_and t u"]) auto
qed

lemma denotes_or:
  assumes "denotes a k P" "denotes b l Q" "k + l < 2 ^ 16"
  shows "denotes (or_code a b) (max 2 (Suc (k + l))) (\<lambda>m. P m \<or> Q m)"
proof -
  obtain t u where t: "tree_ok t" "plain t" "a = enc t" "length a \<le> k" "\<And>m. tree_sat (bit m) bot t = P m"
    and u: "tree_ok u" "plain u" "b = enc u" "length b \<le> l" "\<And>m. tree_sat (bit m) bot u = Q m"
    using assms(1,2) by (auto simp: denotes_def)
  then have "length (enc t) + length (enc u) < 2 ^ 16" using assms(3) by simp
  note ct = disj.comb_tree [OF t(1) u(1) this]
  have "length (enc (tree_or t u)) \<le> max 2 (Suc (k + l))"
    using ct [of bot bot] t(3,4) u(3,4) by (auto intro: order.trans)
  then show ?thesis unfolding denotes_def
    using ct t u tree_or_plain [OF t(1) u(1)] by (intro exI [of _ "tree_or t u"]) auto
qed

lemma denotes_t: "denotes code_t 0 (\<lambda>_. True)"
  unfolding denotes_def by (intro exI [of _ TT]) (simp add: tree_ok_def code_t_def)

lemma denotes_f: "denotes code_f 2 (\<lambda>_. False)"
  unfolding denotes_def by (intro exI [of _ "TFin 0"]) (simp add: tree_ok_def code_f_def)

lemma denotes_inf: "denotes (inf_code k) 2 (\<lambda>m. bits k \<subseteq> bits m)"
  unfolding denotes_def by (intro exI [of _ "TInf k"]) (auto simp: tree_ok_def inf_code_def)

lemma denotes_fin: "denotes (fin k) 2 (\<lambda>m. \<not> bits k \<subseteq> bits m)"
  unfolding denotes_def by (intro exI [of _ "TFin k"]) (auto simp: tree_ok_def fin_def)

lemma inf1_denotes:
  "i < LENGTH('n) \<Longrightarrow> \<exists>c :: 'n::len acc_code. inf1 i = Inr c \<and> denotes c 2 (\<lambda>m. bit m i)"
  using denotes_inf [of "2 ^ i :: 'n word"] by (auto simp: inf1_def)

lemma fin1_denotes:
  "i < LENGTH('n) \<Longrightarrow> \<exists>c :: 'n::len acc_code. fin1 i = Inr c \<and> denotes c 2 (\<lambda>m. \<not> bit m i)"
  using denotes_fin [of "2 ^ i :: 'n word"] by (auto simp: fin1_def)

lemma inf1_fin1_error:
  "i \<ge> LENGTH('n) \<Longrightarrow> (inf1 i :: acc_error + 'n::len acc_code) = Inl Too_many_sets
    \<and> (fin1 i :: acc_error + 'n::len acc_code) = Inl Too_many_sets"
  by (simp add: inf1_def fin1_def mark_t_def)

section \<open>The conditions that are built\<close>

lemma u32_of_pair:
  assumes "n < 2 ^ 31"
  shows "u32_of (2 * int (Suc n) - 1) = 2 * n + 1" "u32_of (2 * int (Suc n) - 2) = 2 * n"
proof -
  have "2 * int (Suc n) - 1 = int (2 * n + 1)" "2 * int (Suc n) - 2 = int (2 * n)" by simp_all
  then show "u32_of (2 * int (Suc n) - 1) = 2 * n + 1" "u32_of (2 * int (Suc n) - 2) = 2 * n"
    using u32_of_nat [of "2 * n + 1"] u32_of_nat [of "2 * n"] assms by simp_all
qed

lemma ex_less_Suc: "(\<exists>i<Suc n. P i) \<longleftrightarrow> P n \<or> (\<exists>i<n. P i)"
  by (auto simp: less_Suc_eq)

text \<open>One pair of a Rabin or Streett condition.\<close>

lemma pair_codes:
  assumes "2 * Suc n \<le> LENGTH('n)" "n < 2 ^ 31"
  obtains ci cf :: "'n::len acc_code" where
    "inf1 (u32_of (2 * int (Suc n) - 1)) = Inr ci" "fin1 (u32_of (2 * int (Suc n) - 2)) = Inr cf"
    "denotes (and_code ci cf) 5 (\<lambda>m. \<not> bit m (2 * n) \<and> bit m (2 * n + 1))"
    "denotes (or_code ci cf) 5 (\<lambda>m. \<not> bit m (2 * n) \<or> bit m (2 * n + 1))"
proof -
  have n: "2 * n + 1 < LENGTH('n)" "2 * n < LENGTH('n)" using assms by auto
  obtain ci cf :: "'n acc_code" where c: "inf1 (2 * n + 1) = Inr ci" "denotes ci 2 (\<lambda>m. bit m (2 * n + 1))"
    "fin1 (2 * n) = Inr cf" "denotes cf 2 (\<lambda>m. \<not> bit m (2 * n))"
    using inf1_denotes [OF n(1)] fin1_denotes [OF n(2)] by auto
  show ?thesis
  proof (rule that [of ci cf])
    show "denotes (and_code ci cf) 5 (\<lambda>m. \<not> bit m (2 * n) \<and> bit m (2 * n + 1))"
      by (rule denotes_le [OF denotes_and [OF c(2,4)]]) auto
    show "denotes (or_code ci cf) 5 (\<lambda>m. \<not> bit m (2 * n) \<or> bit m (2 * n + 1))"
      by (rule denotes_le [OF denotes_or [OF c(2,4)]]) auto
  qed (simp_all only: u32_of_pair [OF assms(2)] c)
qed

lemma rabin_loop_denotes:
  fixes res :: "'n::len acc_code"
  assumes "denotes res k P" "2 * n \<le> LENGTH('n)" "k + 6 * n < 2 ^ 16"
  shows "\<exists>c. rabin_loop res n = Inr c \<and>
    denotes c (k + 6 * n) (\<lambda>m. P m \<or> (\<exists>i<n. \<not> bit m (2 * i) \<and> bit m (2 * i + 1)))"
  using assms
proof (induction n arbitrary: res k P)
  case (Suc n)
  have n: "n < 2 ^ 31" using Suc.prems(3) by simp
  obtain ci cf :: "'n acc_code" where c:
    "inf1 (u32_of (2 * int (Suc n) - 1)) = Inr ci" "fin1 (u32_of (2 * int (Suc n) - 2)) = Inr cf"
    "denotes (and_code ci cf) 5 (\<lambda>m. \<not> bit m (2 * n) \<and> bit m (2 * n + 1))"
    using pair_codes [OF Suc.prems(2) n] by blast
  have "denotes (or_code res (and_code ci cf)) (k + 6) (\<lambda>m. P m \<or> \<not> bit m (2 * n) \<and> bit m (2 * n + 1))"
    by (rule denotes_le [OF denotes_or [OF Suc.prems(1) c(3)]]) (use Suc.prems(3) in auto)
  from Suc.IH [OF this] Suc.prems(2,3) show ?case
    by (auto simp del: of_nat_Suc simp: c(1,2) ex_less_Suc elim!: denotes_le)
qed auto

lemma streett_loop_denotes:
  fixes res :: "'n::len acc_code"
  assumes "denotes res k P" "2 * n \<le> LENGTH('n)" "k + 6 * n < 2 ^ 16"
  shows "\<exists>c. streett_loop res n = Inr c \<and>
    denotes c (k + 6 * n) (\<lambda>m. P m \<and> (\<forall>i<n. \<not> bit m (2 * i) \<or> bit m (2 * i + 1)))"
  using assms
proof (induction n arbitrary: res k P)
  case (Suc n)
  have n: "n < 2 ^ 31" using Suc.prems(3) by simp
  obtain ci cf :: "'n acc_code" where c:
    "inf1 (u32_of (2 * int (Suc n) - 1)) = Inr ci" "fin1 (u32_of (2 * int (Suc n) - 2)) = Inr cf"
    "denotes (or_code ci cf) 5 (\<lambda>m. \<not> bit m (2 * n) \<or> bit m (2 * n + 1))"
    using pair_codes [OF Suc.prems(2) n] by blast
  have "denotes (and_code res (or_code ci cf)) (k + 6) (\<lambda>m. P m \<and> (\<not> bit m (2 * n) \<or> bit m (2 * n + 1)))"
    by (rule denotes_le [OF denotes_and [OF Suc.prems(1) c(3)]]) (use Suc.prems(3) in auto)
  from Suc.IH [OF this] Suc.prems(2,3) show ?case
    by (auto simp del: of_nat_Suc simp: c(1,2) less_Suc_eq elim!: denotes_le)
qed auto

lemma pair_loops_error:
  fixes res :: "'n::len acc_code"
  assumes "LENGTH('n) < 2 * n" "n \<le> 2 ^ 31"
  shows "rabin_loop res n = Inl Too_many_sets \<and> streett_loop res n = Inl Too_many_sets"
proof -
  obtain k where k: "n = Suc k" using assms(1) by (cases n) auto
  then have "k < 2 ^ 31" "LENGTH('n) \<le> 2 * k + 1" using assms by auto
  then show ?thesis using inf1_fin1_error [of "2 * k + 1", where 'n = 'n]
    by (simp add: k u32_of_pair del: of_nat_Suc)
qed

lemma set_range_bits:
  "set_range m n k = (r, n') \<Longrightarrow> n' = n + k \<and> (\<forall>i. bit r i \<longleftrightarrow> bit m i \<or> (n \<le> i \<and> i < n + k \<and> i < LENGTH('n)))"
  for m :: "'n::len mark_t"
  by (induction m n k arbitrary: r n' rule: set_range.induct) fastforce+

text \<open>
  The pairs of a generalized Rabin condition, numbered from \<open>n\<close> on: each pair has its \<open>Fin\<close> set
  followed by its \<open>Inf\<close> sets.
\<close>

fun some_pair :: "(nat \<Rightarrow> bool) \<Rightarrow> nat \<Rightarrow> nat list \<Rightarrow> bool" where
  "some_pair I n [] = False"
| "some_pair I n (i # is) = ((\<not> I n \<and> (\<forall>j. n < j \<and> j \<le> n + i \<longrightarrow> I j)) \<or> some_pair I (n + i + 1) is)"

lemma generalized_rabin_loop_denotes:
  fixes res :: "'n::len acc_code"
  assumes "denotes res k P" "n + sum_list is + length is \<le> LENGTH('n)" "k + 6 * length is < 2 ^ 16"
  shows "\<exists>c. generalized_rabin_loop res n is = Inr c \<and>
    denotes c (k + 6 * length is) (\<lambda>m. P m \<or> some_pair (bit m) n is)"
  using assms
proof (induction "is" arbitrary: res n k P)
  case (Cons i "is")
  obtain r n' where sr: "set_range (0 :: 'n mark_t) (n + 1) i = (r, n')" by force
  have n': "n' = n + i + 1" using set_range_bits [OF sr] by simp
  have r: "bits r = {n<..n + i}"
  proof (rule set_eqI)
    fix j
    show "j \<in> bits r \<longleftrightarrow> j \<in> {n<..n + i}"
      using set_range_bits [OF sr] Cons.prems(2) by (simp add: less_Suc_eq_le) linarith
  qed
  obtain cf :: "'n acc_code" where cf: "fin1 n = Inr cf" "denotes cf 2 (\<lambda>m. \<not> bit m n)"
    using fin1_denotes [of n, where 'n = 'n] Cons.prems(2) by auto
  have "denotes (and_code (inf_code r) cf) 5 (\<lambda>m. \<not> bit m n \<and> (\<forall>j. n < j \<and> j \<le> n + i \<longrightarrow> bit m j))"
    by (rule denotes_le [OF denotes_and [OF denotes_inf cf(2)]]) (auto simp: r)
  then have "denotes (or_code (and_code (inf_code r) cf) res) (k + 6)
      (\<lambda>m. P m \<or> \<not> bit m n \<and> (\<forall>j. n < j \<and> j \<le> n + i \<longrightarrow> bit m j))"
    by (rule denotes_le [OF denotes_or [OF _ Cons.prems(1)]]) (use Cons.prems(3) in auto)
  from Cons.IH [OF this, of n'] Cons.prems(2,3) n' show ?case
    by (auto simp: sr [simplified] cf Let_def elim!: denotes_le)
qed auto

text \<open>
  The value of a chain of parity steps is decided by the last set of the chain that is seen.
\<close>

definition last_seen :: "(nat \<Rightarrow> bool) \<Rightarrow> bool \<Rightarrow> bool \<Rightarrow> nat list \<Rightarrow> bool" where
  "last_seen I is_odd b is = fold (\<lambda>i b. if I i then odd i = is_odd else b) is b"

lemma parity_loop_denotes:
  fixes res :: "'n::len acc_code"
  assumes "denotes res k P" "\<forall>i\<in>set is. i < LENGTH('n)" "k + 3 * length is < 2 ^ 16"
  shows "\<exists>c. parity_loop is_odd res is = Inr c \<and>
    denotes c (k + 3 * length is) (\<lambda>m. last_seen (bit m) is_odd (P m) is)"
  using assms
proof (induction "is" arbitrary: res k P)
  case (Cons i "is")
  have i: "i < LENGTH('n)" using Cons.prems(2) by simp
  show ?case
  proof (cases "odd i = is_odd")
    case True
    obtain ci :: "'n acc_code" where c: "inf1 i = Inr ci" "denotes ci 2 (\<lambda>m. bit m i)"
      using inf1_denotes [OF i] by auto
    have "denotes (or_code res ci) (k + 3) (\<lambda>m. if bit m i then odd i = is_odd else P m)"
      by (rule denotes_le [OF denotes_or [OF Cons.prems(1) c(2)]]) (use Cons.prems(3) True in auto)
    from Cons.IH [OF this] Cons.prems(2,3) True show ?thesis
      by (auto simp: c last_seen_def elim!: denotes_le)
  next
    case False
    obtain cf :: "'n acc_code" where c: "fin1 i = Inr cf" "denotes cf 2 (\<lambda>m. \<not> bit m i)"
      using fin1_denotes [OF i] by auto
    have "denotes (and_code res cf) (k + 3) (\<lambda>m. if bit m i then odd i = is_odd else P m)"
      by (rule denotes_le [OF denotes_and [OF Cons.prems(1) c(2)]]) (use Cons.prems(3) False in auto)
    from Cons.IH [OF this] Cons.prems(2,3) False show ?thesis
      by (auto simp: c last_seen_def elim!: denotes_le)
  qed
qed (simp add: last_seen_def)

lemma last_seen_append [simp]:
  "last_seen I is_odd b (is @ js) = last_seen I is_odd (last_seen I is_odd b is) js"
  by (simp add: last_seen_def)

lemma last_seen_single [simp]: "last_seen I is_odd b [i] = (if I i then odd i = is_odd else b)"
  "last_seen I is_odd b [] = b"
  by (simp_all add: last_seen_def)

lemma last_seen_upt:
  "last_seen I is_odd b [0..<n] = (if \<exists>i<n. I i then odd (Max {i. i < n \<and> I i}) = is_odd else b)"
proof (induction n)
  case (Suc n)
  show ?case
  proof (cases "I n")
    case True
    then have "Max {i. i < Suc n \<and> I i} = n" by (intro Max_eqI) auto
    then show ?thesis using True by auto
  next
    case False
    then have "{i. i < Suc n \<and> I i} = {i. i < n \<and> I i}" by (auto simp: less_Suc_eq)
    then show ?thesis using False Suc by (auto simp: less_Suc_eq)
  qed
qed simp

lemma last_seen_rev_upt:
  "last_seen I is_odd b (rev [0..<n]) = (if \<exists>i<n. I i then odd (Min {i. i < n \<and> I i}) = is_odd else b)"
proof (induction n arbitrary: b)
  case (Suc n)
  show ?case
  proof (cases "\<exists>i<n. I i")
    case True
    then have ne: "{i. i < n \<and> I i} \<noteq> {}" "finite {i. i < n \<and> I i}" by auto
    have "Min {i. i < Suc n \<and> I i} = Min {i. i < n \<and> I i}"
    proof (rule Min_eqI)
      show "Min {i. i < n \<and> I i} \<le> j" if "j \<in> {i. i < Suc n \<and> I i}" for j
        using that Min_le [OF ne(2)] Min_in [OF ne(2,1)] by (cases "j = n") auto
      show "Min {i. i < n \<and> I i} \<in> {i. i < Suc n \<and> I i}" using Min_in [OF ne(2,1)] by auto
    qed simp
    then show ?thesis using Suc [of "if I n then odd n = is_odd else b"] True by (auto simp: last_seen_def less_SucI)
  next
    case False
    then have "{i. i < Suc n \<and> I i} = (if I n then {n} else {})" by (auto simp: less_Suc_eq)
    then show ?thesis using Suc [of "if I n then odd n = is_odd else b"] False
      by (auto simp: last_seen_def less_Suc_eq)
  qed
qed simp

lemma generalized_mark:
  assumes "0 < n" "n \<le> LENGTH('n)" "LENGTH('n) < 2 ^ 32"
  obtains m :: "'n::len mark_t" where
    "mark_shr mark_all (u32_of (int LENGTH('n) - int n)) = Inr m" "bits m = {..<n}"
proof -
  have "u32_of (int LENGTH('n) - int n) = LENGTH('n) - n"
    using assms u32_of_nat [of "LENGTH('n) - n"] by (simp add: of_nat_diff)
  moreover have "bits (drop_bit (LENGTH('n) - n) mark_all :: 'n mark_t) = {..<n}"
    using assms(2) by (auto simp: mark_all_def bit_mask_iff)
  ultimately show ?thesis using assms that [of "drop_bit (LENGTH('n) - n) mark_all"]
    by (simp add: mark_shr_def)
qed

section \<open>Properties of the builders\<close>

lemma parity_code:
  assumes "n \<le> LENGTH('n)" and "3 * n + 2 < 2 ^ 16"
  shows "\<exists>c :: 'n::len acc_code. parity is_max is_odd n = Inr c \<and> wf_code c \<and>
    (\<forall>m. accepting c m \<longleftrightarrow>
      (if \<exists>i<n. bit m i
       then odd ((if is_max then Max else Min) {i. i < n \<and> bit m i}) = is_odd
       else (if is_max then is_odd else odd n = is_odd)))"
proof -
  let ?res = "(if parity_start is_max is_odd n then code_t else code_f) :: 'n acc_code"
  let ?is = "if is_max then [0..<n] else rev [0..<n]"
  have res: "denotes ?res 2 (\<lambda>_. parity_start is_max is_odd n)"
    using denotes_le [OF denotes_t, of 2 "\<lambda>_ :: 'n mark_t. True"] denotes_f [where 'a = 'n] by simp
  have l: "\<forall>i\<in>set ?is. i < LENGTH('n)" and len: "length ?is = n" using assms(1) by auto
  have w: "2 + 3 * length ?is < 2 ^ 16" using assms(2) len by simp
  obtain c where c: "parity_loop is_odd ?res ?is = Inr c"
    "denotes c (2 + 3 * n) (\<lambda>m. last_seen (bit m) is_odd (parity_start is_max is_odd n) ?is)"
    using parity_loop_denotes [OF res l w, of is_odd, unfolded len] by blast
  have start: "parity_start b is_odd n \<longleftrightarrow> (if b then is_odd else odd n = is_odd)" for b
    by (auto simp: parity_start_def odd_iff_mod_2_eq_one)
  have "parity is_max is_odd n = Inr c"
    using c(1) by (cases "n = 0"; cases is_max) (simp_all add: parity_def Let_def)
  moreover have "accepting c m \<longleftrightarrow>
      (if \<exists>i<n. bit m i then odd ((if is_max then Max else Min) {i. i < n \<and> bit m i}) = is_odd
       else (if is_max then is_odd else odd n = is_odd))" for m
    using denotes_accepting [OF c(2), of m]
    by (cases is_max) (simp_all only: last_seen_upt last_seen_rev_upt start if_True if_False)
  ultimately show ?thesis using denotes_wf [OF c(2)] by blast
qed

text \<open>
  Property C27: \<open>parity(max, odd, n)\<close> builds the parity condition: among the sets below \<open>n\<close>
  that are seen, the greatest (or the least) must be odd (or even).  When none is seen, the
  result is the constant the construction starts from: \<open>odd\<close> for \<open>max\<close>, and whether \<open>n\<close> has the
  wanted parity for \<open>min\<close>.
\<close>

theorem parity_condition:
  assumes "n \<le> LENGTH('n)" and "3 * n + 2 < 2 ^ 16"
  shows "\<exists>c :: 'n::len acc_code. parity is_max is_odd n = Inr c \<and> wf_code c \<and>
    (\<forall>m. accepting c m \<longleftrightarrow>
      (if \<exists>i<n. bit m i
       then odd ((if is_max then Max else Min) {i. i < n \<and> bit m i}) = is_odd
       else (if is_max then is_odd else odd n = is_odd)))"
  using parity_code [OF assms, of is_max is_odd] .

theorem parity_condition_witness:
  "\<exists>c :: 32 acc_code. parity True False 3 = Inr c \<and> \<not> accepting c 0"
  using parity_condition [where 'n = 32 and n = 3 and is_max = True and is_odd = False] by auto

text \<open>
  Property C28: \<open>rabin(n)\<close> and \<open>streett(n)\<close> build the conditions of the HOA format over \<open>2n\<close> sets,
  and report too many sets when these do not exist.
\<close>

theorem rabin_streett_condition:
  assumes "6 * n + 2 < 2 ^ 16"
  shows "(2 * n \<le> LENGTH('n) \<longrightarrow>
      (\<exists>c :: 'n::len acc_code. rabin n = Inr c \<and> wf_code c \<and>
        (\<forall>m. accepting c m \<longleftrightarrow> (\<exists>i<n. \<not> bit m (2 * i) \<and> bit m (2 * i + 1)))) \<and>
      (\<exists>c :: 'n acc_code. streett n = Inr c \<and> wf_code c \<and>
        (\<forall>m. accepting c m \<longleftrightarrow> (\<forall>i<n. \<not> bit m (2 * i) \<or> bit m (2 * i + 1)))))
    \<and> (LENGTH('n) < 2 * n \<longrightarrow>
        (rabin n :: acc_error + 'n acc_code) = Inl Too_many_sets
        \<and> (streett n :: acc_error + 'n acc_code) = Inl Too_many_sets)"
proof (intro conjI impI)
  assume n: "2 * n \<le> LENGTH('n)"
  from rabin_loop_denotes [OF denotes_f n] assms obtain c :: "'n acc_code" where
    c: "rabin_loop code_f n = Inr c"
    "denotes c (2 + 6 * n) (\<lambda>m. False \<or> (\<exists>i<n. \<not> bit m (2 * i) \<and> bit m (2 * i + 1)))" by auto
  then show "\<exists>c :: 'n acc_code. rabin n = Inr c \<and> wf_code c \<and>
      (\<forall>m. accepting c m \<longleftrightarrow> (\<exists>i<n. \<not> bit m (2 * i) \<and> bit m (2 * i + 1)))"
    using denotes_wf [OF c(2)] denotes_accepting [OF c(2)] by (auto simp: rabin_def)
  from streett_loop_denotes [OF denotes_t n] assms obtain c :: "'n acc_code" where
    d: "streett_loop code_t n = Inr c"
    "denotes c (0 + 6 * n) (\<lambda>m. True \<and> (\<forall>i<n. \<not> bit m (2 * i) \<or> bit m (2 * i + 1)))" by auto
  then show "\<exists>c :: 'n acc_code. streett n = Inr c \<and> wf_code c \<and>
      (\<forall>m. accepting c m \<longleftrightarrow> (\<forall>i<n. \<not> bit m (2 * i) \<or> bit m (2 * i + 1)))"
    using denotes_wf [OF d(2)] denotes_accepting [OF d(2)] by (auto simp: streett_def)
qed (use pair_loops_error [of n, where 'n = 'n] assms in \<open>simp_all add: rabin_def streett_def\<close>)

theorem rabin_streett_condition_witness:
  "(\<exists>c :: 32 acc_code. rabin 2 = Inr c \<and> wf_code c) \<and> (rabin 20 :: acc_error + 32 acc_code) = Inl Too_many_sets"
  using rabin_streett_condition [where 'n = 32 and n = 2] rabin_streett_condition [where 'n = 32 and n = 20]
  by auto

text \<open>
  \<open>generalized_rabin\<close> builds the disjunction of its pairs, whose sets are numbered
  consecutively; \<open>generalized_buchi(n)\<close> and \<open>generalized_co_buchi(n)\<close> require all, respectively
  not all, of the first \<open>n\<close> sets.
\<close>

theorem generalized_conditions:
  assumes "sum_list pairs + length pairs \<le> LENGTH('n)" and "6 * length pairs + 2 < 2 ^ 16"
    and "n \<le> LENGTH('n)" and "LENGTH('n) < 2 ^ 32"
  shows "(\<exists>c :: 'n::len acc_code. generalized_rabin pairs = Inr c \<and> wf_code c \<and>
        (\<forall>m. accepting c m \<longleftrightarrow> some_pair (bit m) 0 pairs))
    \<and> (\<exists>c :: 'n acc_code. generalized_buchi n = Inr c \<and> (\<forall>m. accepting c m \<longleftrightarrow> (\<forall>i<n. bit m i)))
    \<and> (\<exists>c :: 'n acc_code. generalized_co_buchi n = Inr c \<and> (\<forall>m. accepting c m \<longleftrightarrow> (\<exists>i<n. \<not> bit m i)))"
proof (intro conjI)
  from generalized_rabin_loop_denotes [OF denotes_f, of 0 pairs] assms(1,2) obtain c :: "'n acc_code" where
    c: "generalized_rabin_loop code_f 0 pairs = Inr c"
    "denotes c (2 + 6 * length pairs) (\<lambda>m. False \<or> some_pair (bit m) 0 pairs)" by auto
  then show "\<exists>c :: 'n acc_code. generalized_rabin pairs = Inr c \<and> wf_code c \<and>
        (\<forall>m. accepting c m \<longleftrightarrow> some_pair (bit m) 0 pairs)"
    using denotes_wf [OF c(2)] denotes_accepting [OF c(2)] by (auto simp: generalized_rabin_def)
  obtain k :: "'n mark_t" where k: "n = 0 \<or> mark_shr mark_all (u32_of (int LENGTH('n) - int n)) = Inr k"
    "n = 0 \<longrightarrow> k = 0" "bits k = {..<n}"
  proof (cases "n = 0")
    case False
    then obtain m :: "'n mark_t" where "mark_shr mark_all (u32_of (int LENGTH('n) - int n)) = Inr m" "bits m = {..<n}"
      using generalized_mark [OF _ assms(3,4)] by (metis gr0I)
    with False show ?thesis by (intro that [of m]) simp_all
  qed (use that [of 0] in simp)
  have "generalized_buchi n = Inr (inf_code k)" "generalized_co_buchi n = Inr (fin k)"
    using k(1,2) by (cases "n = 0"; simp add: generalized_buchi_def generalized_co_buchi_def)+
  then show "\<exists>c :: 'n acc_code. generalized_buchi n = Inr c \<and> (\<forall>m. accepting c m \<longleftrightarrow> (\<forall>i<n. bit m i))"
    "\<exists>c :: 'n acc_code. generalized_co_buchi n = Inr c \<and> (\<forall>m. accepting c m \<longleftrightarrow> (\<exists>i<n. \<not> bit m i))"
    using denotes_accepting [OF denotes_inf [of k]] denotes_accepting [OF denotes_fin [of k]] k(3) by auto
qed

theorem generalized_conditions_witness:
  "\<exists>c :: 32 acc_code. generalized_rabin [2, 0] = Inr c \<and> (\<forall>m. accepting c m \<longleftrightarrow> some_pair (bit m) 0 [2, 0])"
  using generalized_conditions [where 'n = 32 and pairs = "[2, 0]" and n = 0] by auto

end
