(* ===== verification/AccCond.thy ===== *)
theory AccCond
  imports AccBuild
begin

unbundle bit_operations_syntax

text \<open>
  Acceptance conditions, class \<^verbatim>\<open>acc_cond\<close> of \<^verbatim>\<open>spot/twa/acc.hh\<close>: a number of declared
  sets, the mark of all declared sets, the acceptance formula, and whether it uses \<open>Fin\<close>.
  The last three are kept in fields that have to be updated together; \<open>cond_inv\<close> says how they
  depend on each other, and every operation that changes or returns a condition preserves it.
\<close>

record 'm acc_cond =
  num_sets :: nat
  all_sets :: 'm
  get_acceptance :: "'m acc_word list"
  uses_fin_acceptance :: bool

type_synonym 'n cond = "'n mark_t acc_cond"

section \<open>Construction and update\<close>

definition compute_all_sets :: "nat \<Rightarrow> acc_error + 'n::len mark_t" where
  "compute_all_sets num = mark_shr mark_all (u32_of (int LENGTH('n) - int num))"

text \<open>
  \<open>num += j\<close> is computed modulo \<open>2 ^ 32\<close>.  The first component of a result is the returned
  number, \<open>-1U\<close> when nothing is added.
\<close>

definition add_sets :: "'n::len cond \<Rightarrow> nat \<Rightarrow> acc_error + (nat \<times> 'n cond)" where
  "add_sets a num =
    (if num = 0 then Inr (2 ^ 32 - 1, a)
     else let j = num_sets a; num = u32_of (int num + int j) in
       if num > LENGTH('n) then Inl Too_many_sets
       else bind_sum (compute_all_sets num) (\<lambda>m. Inr (j, a\<lparr>num_sets := num, all_sets := m\<rparr>)))"

definition add_set :: "'n::len cond \<Rightarrow> acc_error + (nat \<times> 'n cond)" where
  "add_set a = add_sets a 1"

definition acc_cond :: "nat \<Rightarrow> 'n::len acc_code \<Rightarrow> acc_error + 'n cond" where
  "acc_cond n_sets code =
    bind_sum (add_sets \<lparr>num_sets = 0, all_sets = 0, get_acceptance = code, uses_fin_acceptance = False\<rparr> n_sets)
      (\<lambda>(_, a). Inr (a\<lparr>uses_fin_acceptance := check_fin_acceptance (get_acceptance a)\<rparr>))"

definition acc_cond_of_code :: "'n::len acc_code \<Rightarrow> acc_error + 'n cond" where
  "acc_cond_of_code code = acc_cond (mark_max_set (used_sets code)) code"

definition set_acceptance :: "'n::len cond \<Rightarrow> 'n acc_code \<Rightarrow> 'n cond" where
  "set_acceptance a code = a\<lparr>get_acceptance := code, uses_fin_acceptance := check_fin_acceptance code\<rparr>"

definition set_generalized_buchi :: "'n::len cond \<Rightarrow> 'n cond" where
  "set_generalized_buchi a = set_acceptance a (inf_code (all_sets a))"

definition set_generalized_co_buchi :: "'n::len cond \<Rightarrow> 'n cond" where
  "set_generalized_co_buchi a = set_acceptance a (fin (all_sets a))"

definition cond_eq :: "'n::len cond \<Rightarrow> 'n cond \<Rightarrow> bool" where
  "cond_eq a other = (num_sets other = num_sets a \<and> code_eq (get_acceptance other) (get_acceptance a))"

definition comp :: "'n::len cond \<Rightarrow> 'n mark_t \<Rightarrow> 'n mark_t" where
  "comp a l = all_sets a XOR l"

definition cond_accepting :: "'n::len cond \<Rightarrow> 'n mark_t \<Rightarrow> bool" where
  "cond_accepting a io = accepting (get_acceptance a) io"

definition accepting_sets :: "'n::len cond \<Rightarrow> 'n mark_t \<Rightarrow> acc_error + 'n mark_t" where
  "accepting_sets a io =
    (if uses_fin_acceptance a then Inl Fin_not_supported
     else if get_acceptance a = [] then Inr 0
     else eval_sets io (get_acceptance a))"

definition cond_remove :: "'n::len cond \<Rightarrow> 'n mark_t \<Rightarrow> bool \<Rightarrow> acc_error + 'n cond" where
  "cond_remove a rem missing = acc_cond (num_sets a) (remove_sets (get_acceptance a) rem missing)"

definition cond_strip :: "'n::len cond \<Rightarrow> 'n mark_t \<Rightarrow> bool \<Rightarrow> acc_error + 'n cond" where
  "cond_strip a rem missing =
    acc_cond (u32_of (int (num_sets a) - int (mark_count (all_sets a AND rem)))) (strip (get_acceptance a) rem missing)"

definition cond_force_inf :: "'n::len cond \<Rightarrow> 'n mark_t \<Rightarrow> acc_error + 'n cond" where
  "cond_force_inf a m = acc_cond (num_sets a) (force_inf (get_acceptance a) m)"

definition restrict_to :: "'n::len cond \<Rightarrow> 'n mark_t \<Rightarrow> acc_error + 'n cond" where
  "restrict_to a rem = acc_cond (num_sets a) (remove_sets (get_acceptance a) (mark_minus (all_sets a) rem) True)"

fun map_sum_list :: "('a \<Rightarrow> 'e + 'b) \<Rightarrow> 'a list \<Rightarrow> 'e + 'b list" where
  "map_sum_list f [] = Inr []"
| "map_sum_list f (x # xs) = bind_sum (f x) (\<lambda>y. bind_sum (map_sum_list f xs) (\<lambda>ys. Inr (y # ys)))"

definition cond_top_disjuncts :: "'n::len cond \<Rightarrow> acc_error + 'n cond list" where
  "cond_top_disjuncts a = map_sum_list (acc_cond (num_sets a)) (top_clauses (get_acceptance a) OpOr OpFin)"

definition cond_top_conjuncts :: "'n::len cond \<Rightarrow> acc_error + 'n cond list" where
  "cond_top_conjuncts a = map_sum_list (acc_cond (num_sets a)) (top_clauses (get_acceptance a) OpAnd OpInf)"

section \<open>Simple classes\<close>

definition is_all :: "'n::len cond \<Rightarrow> bool" where
  "is_all a = (num_sets a = 0 \<and> is_t (get_acceptance a))"

definition is_none :: "'n::len cond \<Rightarrow> bool" where
  "is_none a = (num_sets a = 0 \<and> is_f (get_acceptance a))"

definition is_generalized_buchi :: "'n::len cond \<Rightarrow> bool" where
  "is_generalized_buchi a = ((length (get_acceptance a) = 0 \<and> num_sets a = 0) \<or>
     (length (get_acceptance a) = 2 \<and> top_is OpInf (get_acceptance a) \<and> word_mark (get_acceptance a ! 1) = all_sets a))"

definition is_generalized_co_buchi :: "'n::len cond \<Rightarrow> bool" where
  "is_generalized_co_buchi a =
     (length (get_acceptance a) = 2 \<and> top_is OpFin (get_acceptance a) \<and> word_mark (get_acceptance a ! 1) = all_sets a)"

definition is_buchi :: "'n::len cond \<Rightarrow> bool" where
  "is_buchi a = (num_sets a = 1 \<and> length (get_acceptance a) = 2 \<and> top_is OpInf (get_acceptance a) \<and> word_mark (get_acceptance a ! 1) = all_sets a)"

definition is_co_buchi :: "'n::len cond \<Rightarrow> bool" where
  "is_co_buchi a = (num_sets a = 1 \<and> is_generalized_co_buchi a)"

section \<open>Useless sets\<close>

fun useless_scan :: "nat \<Rightarrow> 'n::len mark_t \<Rightarrow> 'n mark_t list \<Rightarrow> 'n mark_t" where
  "useless_scan x all [] = all"
| "useless_scan x all (v # vs) =
     (if mark_has v x then (if all AND v = 0 then 0 else useless_scan x (all AND v) vs)
      else useless_scan x all vs)"

fun useless_loop :: "'n::len cond \<Rightarrow> 'n mark_t list \<Rightarrow> 'n mark_t \<Rightarrow> nat list \<Rightarrow> 'n mark_t" where
  "useless_loop a vs u [] = u"
| "useless_loop a vs u (x # xs) =
     (if mark_has u x then useless_loop a vs u xs
      else useless_loop a vs (u OR useless_scan x (comp a (u OR mark_set 0 x)) vs) xs)"

definition useless :: "'n::len cond \<Rightarrow> 'n mark_t list \<Rightarrow> 'n mark_t" where
  "useless a vs = useless_loop a vs 0 [0..<num_sets a]"

section \<open>Views of Rabin and Streett pairs\<close>

record 'm rs_pair =
  fin_of :: 'm
  inf_of :: 'm

type_synonym 'n rs_pairs = "'n mark_t rs_pair list"

definition rs_pair_less :: "'n::len mark_t rs_pair \<Rightarrow> 'n mark_t rs_pair \<Rightarrow> bool" where
  "rs_pair_less p o' = (mark_less (fin_of p) (fin_of o') \<or>
     (\<not> mark_less (fin_of o') (fin_of p) \<and> mark_less (inf_of p) (inf_of o')))"

definition visible :: "'n::len mark_t \<Rightarrow> 'n mark_t \<Rightarrow> bool" where
  "visible view v \<longleftrightarrow> view AND v \<noteq> 0"

definition do_view :: "('n::len mark_t rs_pair \<Rightarrow> 'n mark_t) \<Rightarrow> 'n rs_pairs \<Rightarrow> 'n mark_t" where
  "do_view filt pairs = foldl (\<lambda>res p. res OR filt p) 0 pairs"

definition view_infs :: "'n::len mark_t \<Rightarrow> 'n rs_pairs \<Rightarrow> 'n mark_t" where
  "view_infs view = do_view (\<lambda>p. if visible view (inf_of p) then inf_of p else 0)"

definition view_fins :: "'n::len mark_t \<Rightarrow> 'n rs_pairs \<Rightarrow> 'n mark_t" where
  "view_fins view = do_view (\<lambda>p. if visible view (fin_of p) then fin_of p else 0)"

definition fins_alone :: "'n::len mark_t \<Rightarrow> 'n rs_pairs \<Rightarrow> 'n mark_t" where
  "fins_alone view = do_view (\<lambda>p. if \<not> visible view (inf_of p) \<and> visible view (fin_of p) then fin_of p else 0)"

definition infs_alone :: "'n::len mark_t \<Rightarrow> 'n rs_pairs \<Rightarrow> 'n mark_t" where
  "infs_alone view = do_view (\<lambda>p. if \<not> visible view (fin_of p) \<and> visible view (inf_of p) then inf_of p else 0)"

definition paired_with_fin :: "'n::len mark_t \<Rightarrow> 'n rs_pairs \<Rightarrow> nat \<Rightarrow> 'n mark_t" where
  "paired_with_fin view pairs mark = foldl (\<lambda>res p.
     if mark_has (fin_of p) mark \<and> visible view (fin_of p) \<and> visible view (inf_of p)
     then res OR inf_of p else res) 0 pairs"

section \<open>The invariant of a condition\<close>

definition cond_inv :: "'n::len cond \<Rightarrow> bool" where
  "cond_inv a \<longleftrightarrow> num_sets a \<le> LENGTH('n) \<and> bits (all_sets a) = {..<num_sets a}
     \<and> (uses_fin_acceptance a \<longleftrightarrow> check_fin_acceptance (get_acceptance a))"

lemma compute_all_sets_ok:
  assumes "0 < n" "n \<le> LENGTH('n)" "LENGTH('n) < 2 ^ 32"
  shows "\<exists>m :: 'n::len mark_t. compute_all_sets n = Inr m \<and> bits m = {..<n}"
  using generalized_mark [OF assms] by (auto simp: compute_all_sets_def)

lemma add_sets_ok:
  assumes "num_sets (a :: 'n::len cond) + n \<le> LENGTH('n)" "LENGTH('n) < 2 ^ 32" "0 < n"
  shows "\<exists>m. add_sets a n = Inr (num_sets a, a\<lparr>num_sets := num_sets a + n, all_sets := m\<rparr>)
    \<and> bits m = {..<num_sets a + n}"
proof -
  have "u32_of (int n + int (num_sets a)) = num_sets a + n"
    using assms u32_of_nat [of "num_sets a + n"] by (simp add: add.commute)
  then show ?thesis using assms compute_all_sets_ok [of "num_sets a + n", where 'n = 'n]
    by (auto simp: add_sets_def Let_def)
qed

lemma acc_cond_ok:
  assumes "n \<le> LENGTH('n)" "LENGTH('n) < 2 ^ 32"
  shows "\<exists>a :: 'n::len cond. acc_cond n c = Inr a \<and> cond_inv a \<and> num_sets a = n \<and> get_acceptance a = c"
proof (cases "n = 0")
  case True
  then show ?thesis by (auto simp: acc_cond_def add_sets_def cond_inv_def)
next
  case False
  then show ?thesis
    using add_sets_ok [of "\<lparr>num_sets = 0, all_sets = 0, get_acceptance = c, uses_fin_acceptance = False\<rparr>" n] assms
    by (auto simp: acc_cond_def cond_inv_def)
qed

lemma cond_inv_add_sets:
  assumes "cond_inv (a :: 'n::len cond)" "num_sets a + n \<le> LENGTH('n)" "LENGTH('n) < 2 ^ 32"
  shows "\<exists>j b. add_sets a n = Inr (j, b) \<and> cond_inv b \<and> num_sets b = num_sets a + n
    \<and> get_acceptance b = get_acceptance a"
  using assms add_sets_ok [of a n] by (cases "n = 0") (auto simp: add_sets_def cond_inv_def)

lemma cond_inv_set_acceptance: "cond_inv a \<Longrightarrow> cond_inv (set_acceptance a c)"
  by (simp add: cond_inv_def set_acceptance_def)

lemma stripped_count:
  assumes "cond_inv (a :: 'n::len cond)" "LENGTH('n) < 2 ^ 32"
  shows "u32_of (int (num_sets a) - int (mark_count (all_sets a AND rem))) = card ({..<num_sets a} - bits rem)"
proof -
  have b: "bits (all_sets a AND rem) = {..<num_sets a} \<inter> bits rem" using assms(1) by (simp add: cond_inv_def)
  have "card ({..<num_sets a} - bits rem) = num_sets a - card ({..<num_sets a} \<inter> bits rem)"
    by (simp add: card_Diff_subset_Int)
  moreover have "card ({..<num_sets a} \<inter> bits rem) \<le> num_sets a"
    by (metis card_lessThan card_mono finite_lessThan inf_le1)
  moreover have "num_sets a < 2 ^ 32" using assms by (simp add: cond_inv_def)
  ultimately show ?thesis
    using u32_of_nat [of "num_sets a - card ({..<num_sets a} \<inter> bits rem)"]
    by (simp add: mark_count_card b of_nat_diff del: bits_and)
qed

lemma mark_max_set_le: "mark_max_set (m :: 'n::len mark_t) \<le> LENGTH('n)"
proof (cases "m = 0")
  case False
  then have "bits m \<noteq> {}" by (auto simp: word_nonzero_bit)
  then have "Max (bits m) \<in> bits m" by (intro Max_in) simp_all
  then show ?thesis using False bit_imp_le_length [of m] by (auto simp: mark_max_set_Max less_eq_Suc_le)
qed (simp add: mark_max_set_def)

lemma acc_cond_of_code_ok:
  "LENGTH('n) < 2 ^ 32 \<Longrightarrow> \<exists>a :: 'n::len cond. acc_cond_of_code c = Inr a \<and> cond_inv a \<and> get_acceptance a = c
    \<and> num_sets a = mark_max_set (used_sets c)"
  using acc_cond_ok [of "mark_max_set (used_sets c)" c] mark_max_set_le [of "used_sets c"]
  by (auto simp: acc_cond_of_code_def)

lemma map_acc_cond_ok:
  assumes "n \<le> LENGTH('n)" "LENGTH('n) < 2 ^ 32"
  shows "\<exists>as :: 'n::len cond list. map_sum_list (acc_cond n) cs = Inr as
    \<and> list_all2 (\<lambda>a c. cond_inv a \<and> num_sets a = n \<and> get_acceptance a = c) as cs"
proof (induction cs)
  case (Cons c cs)
  then show ?case using acc_cond_ok [OF assms, of c] by auto
qed simp

text \<open>Whatever its argument, \<open>add_sets\<close> returns a consistent condition when it returns.\<close>

lemma cond_inv_add_sets_any:
  assumes "cond_inv (a :: 'n::len cond)" "LENGTH('n) < 2 ^ 32" "add_sets a k = Inr (j, b)"
  shows "cond_inv b \<and> get_acceptance b = get_acceptance a"
proof (cases "k = 0")
  case False
  define s where "s = u32_of (int k + int (num_sets a))"
  obtain m where m: "s \<le> LENGTH('n)" "compute_all_sets s = Inr m" "b = a\<lparr>num_sets := s, all_sets := m\<rparr>"
    using assms(3) False by (cases "compute_all_sets s :: acc_error + 'n mark_t") (auto simp: add_sets_def Let_def s_def split: if_splits)
  have "s \<noteq> 0"
  proof
    assume "s = 0"
    then show False using m(2) assms(2) u32_of_nat [of "LENGTH('n)"] by (simp add: compute_all_sets_def mark_shr_def)
  qed
  then have "bits m = {..<s}" using compute_all_sets_ok [of s, where 'n = 'n] m(1,2) assms(2) by auto
  with m assms(1) show ?thesis by (simp add: cond_inv_def)
qed (use assms in \<open>simp add: add_sets_def\<close>)

text \<open>
  Property C30: the fields of a condition stay consistent.  The constructors, from a number of sets
  or from a formula, establish the invariant; \<open>add_sets\<close> keeps it whenever it returns and succeeds as
  long as the sum is a number of sets that exists; changing the formula with \<open>set_acceptance\<close> or the
  generalized setters, removing, stripping, forcing or restricting sets, and splitting the formula into
  its top disjuncts or conjuncts keep it, with the number of sets each operation promises.  Writing
  through the reference that the non-const \<open>get_acceptance\<close> returns keeps it exactly when the new
  formula uses \<open>Fin\<close> as the old one did, because the cached answer is not computed again.
\<close>

theorem cond_invariant:
  assumes "cond_inv (a :: 'n::len cond)" and "LENGTH('n) < 2 ^ 32" and "n \<le> LENGTH('n)"
  shows "(\<exists>b :: 'n cond. acc_cond n c = Inr b \<and> cond_inv b \<and> num_sets b = n \<and> get_acceptance b = c)
    \<and> (\<exists>b :: 'n cond. acc_cond_of_code c = Inr b \<and> cond_inv b \<and> num_sets b = mark_max_set (used_sets c) \<and> get_acceptance b = c)
    \<and> (num_sets a + k \<le> LENGTH('n) \<longrightarrow> (\<exists>j b. add_sets a k = Inr (j, b) \<and> cond_inv b
        \<and> num_sets b = num_sets a + k \<and> get_acceptance b = get_acceptance a))
    \<and> (\<forall>k j b. add_sets a k = Inr (j, b) \<longrightarrow> cond_inv b \<and> get_acceptance b = get_acceptance a)
    \<and> cond_inv (set_acceptance a c) \<and> cond_inv (set_generalized_buchi a) \<and> cond_inv (set_generalized_co_buchi a)
    \<and> (\<exists>b. cond_remove a rem missing = Inr b \<and> cond_inv b \<and> num_sets b = num_sets a)
    \<and> (\<exists>b. cond_strip a rem missing = Inr b \<and> cond_inv b \<and> num_sets b = card ({..<num_sets a} - bits rem))
    \<and> (\<exists>b. cond_force_inf a rem = Inr b \<and> cond_inv b \<and> num_sets b = num_sets a)
    \<and> (\<exists>b. restrict_to a rem = Inr b \<and> cond_inv b \<and> num_sets b = num_sets a)
    \<and> (\<exists>bs. cond_top_disjuncts a = Inr bs \<and> list_all2 (\<lambda>b d. cond_inv b \<and> num_sets b = num_sets a \<and> get_acceptance b = d)
        bs (top_disjuncts (get_acceptance a)))
    \<and> (\<exists>bs. cond_top_conjuncts a = Inr bs \<and> list_all2 (\<lambda>b d. cond_inv b \<and> num_sets b = num_sets a \<and> get_acceptance b = d)
        bs (top_conjuncts (get_acceptance a)))
    \<and> (cond_inv (a\<lparr>get_acceptance := c\<rparr>) \<longleftrightarrow> (check_fin_acceptance c \<longleftrightarrow> check_fin_acceptance (get_acceptance a)))"
proof -
  have num: "num_sets a \<le> LENGTH('n)" using assms(1) by (simp add: cond_inv_def)
  moreover have "card ({..<num_sets a} - bits rem) \<le> num_sets a"
    by (metis Diff_subset card_lessThan card_mono finite_lessThan)
  ultimately have card: "card ({..<num_sets a} - bits rem) \<le> LENGTH('n)" by simp
  note mk = acc_cond_ok [OF num assms(2)]
  have add: "\<forall>k j b. add_sets a k = Inr (j, b) \<longrightarrow> cond_inv b \<and> get_acceptance b = get_acceptance a"
    using cond_inv_add_sets_any [OF assms(1,2)] by blast
  have direct: "cond_inv (a\<lparr>get_acceptance := c\<rparr>) \<longleftrightarrow> (check_fin_acceptance c \<longleftrightarrow> check_fin_acceptance (get_acceptance a))"
    using assms(1) by (auto simp: cond_inv_def)
  show ?thesis
    using cond_inv_add_sets [OF assms(1), of k] acc_cond_ok [OF assms(3,2), of c] assms(2)
      acc_cond_of_code_ok [OF assms(2), of c] add direct
      mk [of "remove_sets (get_acceptance a) rem missing"]
      mk [of "force_inf (get_acceptance a) rem"]
      mk [of "remove_sets (get_acceptance a) (mark_minus (all_sets a) rem) True"]
      acc_cond_ok [OF card assms(2), of "strip (get_acceptance a) rem missing"]
      cond_inv_set_acceptance [OF assms(1)]
      map_acc_cond_ok [OF num assms(2), of "top_disjuncts (get_acceptance a)"]
      map_acc_cond_ok [OF num assms(2), of "top_conjuncts (get_acceptance a)"]
    unfolding cond_remove_def cond_strip_def cond_force_inf_def restrict_to_def stripped_count [OF assms(1,2)]
      set_generalized_buchi_def set_generalized_co_buchi_def cond_top_disjuncts_def cond_top_conjuncts_def
      top_disjuncts_def top_conjuncts_def
    by (intro conjI) blast+
qed

theorem cond_invariant_witness:
  "\<exists>b :: 32 cond. acc_cond 3 (enc (TInf 7)) = Inr b \<and> cond_inv b \<and> num_sets b = 3 \<and> get_acceptance b = enc (TInf 7)"
  by (rule cond_invariant [where a = "\<lparr>num_sets = 0, all_sets = 0, get_acceptance = [], uses_fin_acceptance = False\<rparr>",
        THEN conjunct1])
    (simp_all add: cond_inv_def check_fin_acceptance_def)

text \<open>
  Property C32: \<open>add_sets\<close> numbers the new sets consecutively: when the sum of the declared and the
  added number of sets is a number of sets that exists, the call returns the first new number, the
  number of sets declared so far, and declares the sum; adding no set returns \<open>-1U\<close>.  A sum that is
  too large and below \<open>2 ^ 32\<close> is reported.  But the sum is computed modulo \<open>2 ^ 32\<close> before it is
  compared with the maximum: a call whose sum wraps around to a small positive number is not
  reported, and the condition then declares fewer sets than before.
\<close>

theorem add_sets_overflow:
  fixes a :: "'n::len cond"
  assumes "num_sets a \<le> LENGTH('n)" and "LENGTH('n) < 2 ^ 31"
  shows "(\<forall>n. 0 < n \<and> num_sets a + n \<le> LENGTH('n) \<longrightarrow>
        (\<exists>m. add_sets a n = Inr (num_sets a, a\<lparr>num_sets := num_sets a + n, all_sets := m\<rparr>) \<and> bits m = {..<num_sets a + n}))
    \<and> add_sets a 0 = Inr (2 ^ 32 - 1, a)
    \<and> (\<forall>n. LENGTH('n) < num_sets a + n \<and> num_sets a + n < 2 ^ 32 \<longrightarrow> add_sets a n = Inl Too_many_sets)
    \<and> (\<forall>r. 0 < r \<and> r < num_sets a \<longrightarrow>
        (\<exists>m. add_sets a (2 ^ 32 - num_sets a + r) = Inr (num_sets a, a\<lparr>num_sets := r, all_sets := m\<rparr>) \<and> bits m = {..<r}))"
proof (intro conjI allI impI)
  fix n assume n: "0 < n \<and> num_sets a + n \<le> LENGTH('n)"
  show "\<exists>m. add_sets a n = Inr (num_sets a, a\<lparr>num_sets := num_sets a + n, all_sets := m\<rparr>) \<and> bits m = {..<num_sets a + n}"
    by (rule add_sets_ok) (use n assms(2) in simp_all)
next
  fix r assume r: "0 < r \<and> r < num_sets a"
  let ?n = "2 ^ 32 - num_sets a + r"
  have "int ?n + int (num_sets a) = int r + 2 ^ 32" using assms by (simp add: of_nat_diff)
  then have wrap: "u32_of (int ?n + int (num_sets a)) = r" using assms r by (simp add: u32_of_def)
  have "r \<le> LENGTH('n)" "LENGTH('n) < 2 ^ 32" using assms r by auto
  then obtain m :: "'n mark_t" where "compute_all_sets r = Inr m" "bits m = {..<r}"
    using compute_all_sets_ok [of r] r by blast
  then show "\<exists>m. add_sets a ?n = Inr (num_sets a, a\<lparr>num_sets := r, all_sets := m\<rparr>) \<and> bits m = {..<r}"
    using wrap assms r by (auto simp: add_sets_def Let_def)
next
  fix n assume n: "LENGTH('n) < num_sets a + n \<and> num_sets a + n < 2 ^ 32"
  then have "u32_of (int n + int (num_sets a)) = num_sets a + n"
    using u32_of_nat [of "num_sets a + n"] by (simp add: add.commute)
  then show "add_sets a n = Inl Too_many_sets" using n assms(1) by (auto simp: add_sets_def)
qed (simp add: add_sets_def)

theorem add_sets_overflow_witness:
  "\<exists>m m'. add_sets \<lparr>num_sets = 5, all_sets = 31 :: 32 mark_t, get_acceptance = [], uses_fin_acceptance = False\<rparr> 3
      = Inr (5, \<lparr>num_sets = 8, all_sets = m, get_acceptance = [], uses_fin_acceptance = False\<rparr>)
    \<and> add_sets \<lparr>num_sets = 5, all_sets = 31 :: 32 mark_t, get_acceptance = [], uses_fin_acceptance = False\<rparr> (2 ^ 32 - 1)
      = Inr (5, \<lparr>num_sets = 4, all_sets = m', get_acceptance = [], uses_fin_acceptance = False\<rparr>)"
proof -
  let ?a = "\<lparr>num_sets = 5, all_sets = 31 :: 32 mark_t, get_acceptance = [], uses_fin_acceptance = False\<rparr>"
  have a: "num_sets ?a \<le> LENGTH(32)" "LENGTH(32) < (2 ^ 31 :: nat)" by simp_all
  note t = add_sets_overflow [OF a]
  show ?thesis
    using t [THEN conjunct1, rule_format, of 3] t [THEN conjunct2, THEN conjunct2, THEN conjunct2, rule_format, of 4] by auto
qed

section \<open>Accepting subsets\<close>

text \<open>
  on a condition whose formula only has \<open>Inf\<close> leaves, \<open>accepting_sets\<close> returns a
  subset of the given sets that is accepting on its own, and the empty mark exactly when the
  given sets are not accepting; a condition that uses \<open>Fin\<close> is refused.  The formula \<open>f\<close> is not
  counted as using \<open>Fin\<close>, and reaches the unreachable case of \<open>eval_sets\<close>.
\<close>

theorem accepting_sets_subset:
  assumes "cond_inv a" and "get_acceptance a = enc t" and "tree_ok t" and "inf_only t"
  shows "(\<exists>s. accepting_sets a io = Inr s \<and> mark_subset s io \<and> (s \<noteq> 0 \<longleftrightarrow> cond_accepting a io)
        \<and> (s \<noteq> 0 \<longrightarrow> cond_accepting a s))
    \<and> (\<forall>b. uses_fin_acceptance b \<longrightarrow> accepting_sets b io = Inl Fin_not_supported)
    \<and> accepting_sets \<lparr>num_sets = 0, all_sets = 0, get_acceptance = code_f, uses_fin_acceptance = check_fin_acceptance code_f\<rparr> io
        = Inl Unreachable"
proof (intro conjI allI impI)
  have t: "node_ok t" "plain t" "\<not> has_fin t" using assms(3,4) inf_only_plain [of t]
    by (cases t; auto simp: tree_ok_def)+
  then have "\<not> uses_fin_acceptance a"
    using assms(1-3) check_fin_acceptance_enc [of t] by (simp add: cond_inv_def)
  then have "accepting_sets a io = eval_sets io (enc t)" "t \<noteq> TT"
    using assms(2) t(1) by (auto simp: accepting_sets_def)
  moreover obtain s where "eval_sets io (enc t) = Inr s" "bits s \<subseteq> bits io"
    "s \<noteq> 0 \<longleftrightarrow> tree_sat (bit io) (\<lambda>_. False) t" "s \<noteq> 0 \<longrightarrow> tree_sat (bit s) (\<lambda>_. False) t"
    using eval_sets_ok [OF t(1) assms(4), of io] by (auto simp: sets_ok_def)
  ultimately show "\<exists>s. accepting_sets a io = Inr s \<and> mark_subset s io \<and> (s \<noteq> 0 \<longleftrightarrow> cond_accepting a io)
        \<and> (s \<noteq> 0 \<longrightarrow> cond_accepting a s)"
    using accepting_enc [OF assms(3) t(2), of _ "\<lambda>_. False"] assms(2)
    by (auto simp: cond_accepting_def mark_subset_iff)
qed (auto simp: accepting_sets_def code_f_def check_fin_acceptance_def)

theorem accepting_sets_subset_witness:
  "\<exists>s. accepting_sets \<lparr>num_sets = 3, all_sets = 7, get_acceptance = enc (TOr [TInf 4, TInf 3]),
      uses_fin_acceptance = False\<rparr> (3 :: 32 mark_t) = Inr s \<and> mark_subset s 3"
proof -
  have "bits (7 :: 32 mark_t) = {..<3}"
  proof -
    have "bits (7 :: 32 mark_t) = bits (mask 3 :: 32 mark_t)" by (simp add: mask_eq_exp_minus_1)
    then show ?thesis by (simp add: set_eq_iff bit_mask_iff) linarith
  qed
  then have "cond_inv \<lparr>num_sets = 3, all_sets = 7 :: 32 mark_t, get_acceptance = enc (TOr [TInf 4, TInf 3]),
      uses_fin_acceptance = False\<rparr>" by (simp add: cond_inv_def check_fin_acceptance_def)
  from accepting_sets_subset [OF this, of "TOr [TInf 4, TInf 3]" 3] show ?thesis
    by (auto simp: tree_ok_def)
qed

section \<open>Sets that others imply\<close>

definition implied :: "'n::len mark_t list \<Rightarrow> nat \<Rightarrow> nat \<Rightarrow> bool" where
  "implied vs y z \<longleftrightarrow> (\<forall>v\<in>set vs. bit v y \<longrightarrow> bit v z)"

lemma useless_scan_bits:
  "bit (useless_scan x all vs) z \<Longrightarrow> bit all z \<and> implied vs x z"
  by (induction x all vs rule: useless_scan.induct)
    (auto simp: implied_def bit_and_iff word_nonzero_bit split: if_splits)

text \<open>
  Every set found useless is implied by a set that is not: when the set that implied it is
  found useless later, implication is transitive.
\<close>

definition covered :: "nat \<Rightarrow> 'n::len mark_t list \<Rightarrow> nat set \<Rightarrow> bool" where
  "covered k vs U \<longleftrightarrow> U \<subseteq> {..<k} \<and> (\<forall>z\<in>U. \<exists>y<k. y \<notin> U \<and> implied vs y z)"

lemma covered_add:
  assumes "covered k vs U" "x < k" "x \<notin> U" "\<And>z. z \<in> A \<Longrightarrow> z < k \<and> z \<noteq> x \<and> implied vs x z"
  shows "covered k vs (U \<union> A)"
  unfolding covered_def
proof (intro conjI ballI)
  fix z assume "z \<in> U \<union> A"
  show "\<exists>y<k. y \<notin> U \<union> A \<and> implied vs y z"
  proof (cases "z \<in> A")
    case False
    then obtain y where y: "y < k" "y \<notin> U" "implied vs y z"
      using \<open>z \<in> U \<union> A\<close> assms(1) by (auto simp: covered_def)
    show ?thesis
    proof (cases "y \<in> A")
      case True
      then have "implied vs x z" using y(3) assms(4) by (auto simp: implied_def)
      then show ?thesis using assms(2-4) by blast
    qed (use y in blast)
  qed (use assms in blast)
qed (use assms in \<open>auto simp: covered_def\<close>)

lemma useless_loop_covered:
  assumes "bits (all_sets a) = {..<num_sets a}" "covered (num_sets a) vs (bits u)" "set xs \<subseteq> {..<num_sets a}"
  shows "covered (num_sets a) vs (bits (useless_loop a vs u xs))"
  using assms(2,3)
proof (induction xs arbitrary: u)
  case (Cons x xs)
  show ?case
  proof (cases "bit u x")
    case False
    let ?all = "comp a (u OR mark_set 0 x)"
    have all: "bit (all_sets a) i \<longleftrightarrow> i < num_sets a" for i
      using assms(1) by (metis lessThan_iff mem_bits)
    have "bit u i \<Longrightarrow> i < num_sets a" for i using Cons.prems(1) by (auto simp: covered_def)
    moreover have "x < num_sets a" "x < LENGTH('a)"
      using Cons.prems(2) all [of x] bit_imp_le_length [of "all_sets a" x] by auto
    ultimately have "z < num_sets a \<and> z \<noteq> x" if "bit ?all z" for z
      using that by (auto simp: comp_def bit_xor_iff bit_or_iff all)
    then have "covered (num_sets a) vs (bits u \<union> bits (useless_scan x ?all vs))"
      using \<open>x < num_sets a\<close> False useless_scan_bits [of x ?all vs]
      by (intro covered_add [OF Cons.prems(1)]) (simp, simp, metis mem_bits)
    then show ?thesis using Cons.IH Cons.prems(2) False by simp
  qed (use Cons in simp)
qed simp

text \<open>
  the sets returned by \<open>useless\<close> can be dropped from a generalized B\"uchi
  condition: whenever a selection of the marks contains all the other declared sets, it
  contains the useless ones too.
\<close>

theorem useless_sets_droppable:
  assumes "cond_inv a" and "V \<subseteq> set vs" and "{..<num_sets a} - bits (useless a vs) \<subseteq> (\<Union>v\<in>V. bits v)"
  shows "{..<num_sets a} \<subseteq> (\<Union>v\<in>V. bits v)"
proof
  fix z assume z: "z \<in> {..<num_sets a}"
  have c: "covered (num_sets a) vs (bits (useless a vs))"
    unfolding useless_def
  proof (rule useless_loop_covered)
    show "bits (all_sets a) = {..<num_sets a}" using assms(1) by (simp add: cond_inv_def)
    show "covered (num_sets a) vs (bits 0)" by (simp add: covered_def)
  qed (simp add: atLeast0LessThan)
  show "z \<in> (\<Union>v\<in>V. bits v)"
  proof (cases "z \<in> bits (useless a vs)")
    case True
    then obtain y where "y < num_sets a" "y \<notin> bits (useless a vs)" "implied vs y z"
      using c unfolding covered_def by blast
    then obtain v where "v \<in> V" "bit v y" "\<forall>w\<in>set vs. bit w y \<longrightarrow> bit w z"
      using assms(3) unfolding implied_def by auto
    then show ?thesis using assms(2) by auto
  qed (use z assms(3) in blast)
qed

theorem useless_sets_droppable_witness:
  "{..<1} \<subseteq> (\<Union>v\<in>{1 :: 32 mark_t}. bits v)"
proof -
  let ?a = "\<lparr>num_sets = 1, all_sets = 1 :: 32 mark_t, get_acceptance = [], uses_fin_acceptance = False\<rparr>"
  have b: "bits (1 :: 32 mark_t) = {0}" using bits_exp [of 0, where 'n = 32] by simp
  then have "cond_inv ?a" by (auto simp: cond_inv_def check_fin_acceptance_def)
  from useless_sets_droppable [OF this, of "{1}" "[1]"] b show ?thesis by auto
qed

end
