(* ===== verification/AccClassify.thy ===== *)
theory AccClassify
  imports AccCond
begin

unbundle bit_operations_syntax

text \<open>
  Recognition of acceptance conditions, \<^verbatim>\<open>spot/twa/acc.cc\<close>: \<open>is_rabin\<close>, \<open>is_streett\<close>, the
  weaker \<open>is_rabin_like\<close> and \<open>is_streett_like\<close> that return pairs, \<open>is_generalized_rabin\<close>,
  \<open>is_generalized_streett\<close> and \<open>is_parity\<close>.

  These functions read the words of a code by position, five words per pair, and compare
  operators and marks without following the sizes of subtrees.  On formulas in the shape
  that \<open>&\<close> and \<open>|\<close> build (\<open>alternating\<close>), the theorems show which conditions \<open>is_rabin\<close> and \<open>is_streett\<close>
  recognise (\<open>rs_shape\<close>) and what a positive answer means.
\<close>

section \<open>Rabin and Streett\<close>

definition shl1 :: "'n::len mark_t \<Rightarrow> 'n mark_t" where
  "shl1 m = push_bit 1 m"

text \<open>
  The body of the loop reads \<open>lowop\<close>, \<open>o1\<close>, \<open>m1\<close>, \<open>o2\<close>, \<open>m2\<close> and swaps the two leaves when the second
  is \<open>Fin\<close>.  An operator read from a word that holds a mark matches nothing.
\<close>

fun rs_loop :: "acc_op \<Rightarrow> 'n::len mark_t \<Rightarrow> 'n mark_t \<Rightarrow> 'n acc_code \<Rightarrow> ('n mark_t \<times> 'n mark_t) option" where
  "rs_loop lowop seen_fin seen_inf [] = Some (seen_fin, seen_inf)"
| "rs_loop lowop seen_fin seen_inf (w0 # w1 # w2 # w3 # w4 # ws) =
     (if \<not> is_op lowop w0 then None
      else let sw = is_op OpFin w3;
               o1 = (if sw then w3 else w1); m1 = word_mark (if sw then w4 else w2);
               o2 = (if sw then w1 else w3); m2 = word_mark (if sw then w2 else w4)
           in if \<not> is_op OpFin o1 \<or> \<not> is_op OpInf o2 \<or> \<not> mark_is_singleton m1 \<or> m2 \<noteq> shl1 m1
              then None
              else rs_loop lowop (seen_fin OR m1) (seen_inf OR m2) ws)"
| "rs_loop lowop seen_fin seen_inf ws = None"

definition is_rs :: "'n::len acc_code \<Rightarrow> acc_op \<Rightarrow> acc_op \<Rightarrow> 'n mark_t \<Rightarrow> bool" where
  "is_rs code highop lowop all =
    (let s = sub_size (hd code);
         check = (\<lambda>ws. case rs_loop lowop 0 0 ws of None \<Rightarrow> False
           | Some (seen_fin, seen_inf) \<Rightarrow> seen_fin AND seen_inf = 0 \<and> seen_fin OR seen_inf = all)
     in if top_is highop code
        then (if s \<noteq> length code - 1 \<or> s mod 5 \<noteq> 0 then False else check (tl code))
        else (if s \<noteq> 4 \<or> \<not> top_is lowop code then False else check (drop (length code - 5) code)))"

definition is_rabin :: "'n::len cond \<Rightarrow> int" where
  "is_rabin a =
    (if is_f (get_acceptance a) then (if num_sets a = 0 then 0 else -1)
     else if odd (num_sets a) \<or> is_t (get_acceptance a) then -1
     else if is_rs (get_acceptance a) OpOr OpAnd (all_sets a) then int (num_sets a div 2)
     else -1)"

definition is_streett :: "'n::len cond \<Rightarrow> int" where
  "is_streett a =
    (if is_t (get_acceptance a) then (if num_sets a = 0 then 0 else -1)
     else if odd (num_sets a) \<or> is_f (get_acceptance a) then -1
     else if is_rs (get_acceptance a) OpAnd OpOr (all_sets a) then int (num_sets a div 2)
     else -1)"

section \<open>Rabin-like and Streett-like\<close>

definition leaf_pairs :: "bool \<Rightarrow> 'n::len mark_t \<Rightarrow> 'n rs_pairs" where
  "leaf_pairs is_fin m = map (\<lambda>mark. if is_fin then \<lparr>fin_of = mark_set 0 mark, inf_of = 0\<rparr>
     else \<lparr>fin_of = 0, inf_of = mark_set 0 mark\<rparr>) (mark_sets m)"

fun rs_like_loop :: "acc_op \<Rightarrow> acc_op \<Rightarrow> 'n::len rs_pairs \<Rightarrow> 'n acc_code \<Rightarrow> bool \<times> 'n rs_pairs" where
  "rs_like_loop lowop singleop pairs [] = (True, pairs)"
| "rs_like_loop lowop singleop pairs (w # ws) =
     (if is_op OpFin w \<or> is_op OpInf w then
        (case ws of
           [] \<Rightarrow> (False, [])
         | v # ws' \<Rightarrow>
             if is_op singleop w \<and> \<not> mark_is_singleton (word_mark v) then (False, [])
             else rs_like_loop lowop singleop (pairs @ leaf_pairs (is_op OpFin w) (word_mark v)) ws')
      else if \<not> is_op lowop w \<or> sub_size w \<noteq> 4 then (False, [])
      else (case ws of
           w1 # w2 # w3 # w4 # ws' \<Rightarrow>
             let sw = is_op OpFin w3;
                 o1 = (if sw then w3 else w1); m1 = word_mark (if sw then w4 else w2);
                 o2 = (if sw then w1 else w3); m2 = word_mark (if sw then w2 else w4)
             in if \<not> is_op OpFin o1 \<or> \<not> is_op OpInf o2 \<or> \<not> mark_is_singleton m1 \<or> \<not> mark_is_singleton m2
                then (False, [])
                else rs_like_loop lowop singleop (pairs @ [\<lparr>fin_of = m1, inf_of = m2\<rparr>]) ws'
         | _ \<Rightarrow> (False, [])))"

definition is_rs_like :: "'n::len acc_code \<Rightarrow> acc_op \<Rightarrow> acc_op \<Rightarrow> acc_op \<Rightarrow> bool \<times> 'n rs_pairs" where
  "is_rs_like code highop lowop singleop =
    (let s = sub_size (hd code) in
     if top_is OpFin code \<or> top_is OpInf code then
       (let m = word_mark (last code) in
        if top_is singleop code \<and> \<not> mark_is_singleton m then (False, [])
        else (True, leaf_pairs (top_is OpFin code) m))
     else if top_is lowop code then
       (if s \<noteq> 4 then (False, []) else rs_like_loop lowop singleop [] (drop (length code - 5) code))
     else if \<not> top_is highop code then (False, [])
     else rs_like_loop lowop singleop [] (drop (length code - s) code))"

definition is_streett_like :: "'n::len cond \<Rightarrow> bool \<times> 'n rs_pairs" where
  "is_streett_like a =
    (if is_t (get_acceptance a) then (True, [])
     else if is_f (get_acceptance a) then (True, [\<lparr>fin_of = 0, inf_of = 0\<rparr>])
     else is_rs_like (get_acceptance a) OpAnd OpOr OpFin)"

definition is_rabin_like :: "'n::len cond \<Rightarrow> bool \<times> 'n rs_pairs" where
  "is_rabin_like a =
    (if is_f (get_acceptance a) then (True, [])
     else if is_t (get_acceptance a) then (True, [\<lparr>fin_of = 0, inf_of = 0\<rparr>])
     else is_rs_like (get_acceptance a) OpOr OpAnd OpInf)"

section \<open>Generalized Rabin and Streett\<close>

text \<open>
  \<open>std::map<unsigned, unsigned>\<close> as a list sorted by key.  \<open>emplace\<close> keeps the value of a key that
  is present; it returns the map and the value now bound to the key.
\<close>

fun emplace :: "nat \<Rightarrow> nat \<Rightarrow> (nat \<times> nat) list \<Rightarrow> (nat \<times> nat) list \<times> nat" where
  "emplace k v [] = ([(k, v)], v)"
| "emplace k v ((k', v') # p) =
     (if k < k' then ((k, v) # (k', v') # p, v)
      else if k = k' then ((k', v') # p, v')
      else (let (p', r) = emplace k v p in ((k', v') # p', r)))"

fun emplace_zeros :: "nat list \<Rightarrow> (nat \<times> nat) list \<Rightarrow> (nat \<times> nat) list option" where
  "emplace_zeros [] p = Some p"
| "emplace_zeros (s # ss) p = (let (p', r) = emplace s 0 p in if r \<noteq> 0 then None else emplace_zeros ss p')"

text \<open>
  The loop for a disjunction of pairs (\<open>single\<close> is \<open>Fin\<close>, \<open>many\<close> is \<open>Inf\<close> and \<open>lowop\<close> is \<open>And\<close> for Rabin;
  the dual for Streett).  \<open>do if (!m2.has(j++)) return false; while (--i)\<close> requires the \<open>i\<close> sets
  that follow the single one; with \<open>i\<close> zero, which is asserted not to happen, the first test fails.
\<close>

fun gen_loop :: "acc_op \<Rightarrow> acc_op \<Rightarrow> acc_op \<Rightarrow> (nat \<times> nat) list \<Rightarrow> 'n::len mark_t \<Rightarrow> 'n mark_t \<Rightarrow>
    'n acc_code \<Rightarrow> ((nat \<times> nat) list \<times> 'n mark_t \<times> 'n mark_t) option" where
  "gen_loop lowop single many p seen1 seen2 [] = Some (p, seen1, seen2)"
| "gen_loop lowop single many p seen1 seen2 (w # ws) =
     (if is_op lowop w then
        (case ws of
           w1 # w2 # w3 # w4 # ws' \<Rightarrow>
             let sw = is_op single w3;
                 o1 = (if sw then w3 else w1); m1 = word_mark (if sw then w4 else w2);
                 o2 = (if sw then w1 else w3); m2 = word_mark (if sw then w2 else w4)
             in if \<not> is_op single o1 \<or> \<not> is_op many o2 \<or> \<not> mark_is_singleton m1 then None
                else let i = mark_count m2; j = mark_max_set m1;
                         (p', r) = emplace (j - 1) i p
                     in if r \<noteq> i then None
                        else if i = 0 \<or> \<not> list_all (mark_has m2) [j..<j + i] then None
                        else gen_loop lowop single many p' (seen1 OR m1) (seen2 OR m2) ws'
         | _ \<Rightarrow> None)
      else if is_op single w then
        (case ws of
           v # ws' \<Rightarrow>
             (case emplace_zeros (mark_sets (word_mark v)) p of
                None \<Rightarrow> None
              | Some p' \<Rightarrow> gen_loop lowop single many p' (seen1 OR word_mark v) seen2 ws')
         | [] \<Rightarrow> None)
      else None)"

definition is_generalized_rs :: "'n::len cond \<Rightarrow> acc_op \<Rightarrow> acc_op \<Rightarrow> acc_op \<Rightarrow> acc_op \<Rightarrow> bool \<times> nat list" where
  "is_generalized_rs a highop lowop single many =
    (let code = get_acceptance a; s = sub_size (hd code); singlepair = top_is lowop code in
     if is_f code \<or> is_t code then (False, [])
     else if \<not> singlepair \<and> \<not> top_is highop code then (False, [])
     else (case gen_loop lowop single many [] 0 0
               (drop (length code - (if singlepair then s + 1 else s)) code) of
             None \<Rightarrow> (False, [])
           | Some (p, seen1, seen2) \<Rightarrow>
               ((\<not> singlepair \<or> length p = 1) \<and> seen1 AND seen2 = 0 \<and> seen1 OR seen2 = all_sets a,
                map snd p)))"

definition is_generalized_rabin :: "'n::len cond \<Rightarrow> bool \<times> nat list" where
  "is_generalized_rabin a =
    (if is_generalized_co_buchi a then (True, replicate (num_sets a) 0)
     else is_generalized_rs a OpOr OpAnd OpFin OpInf)"

definition is_generalized_streett :: "'n::len cond \<Rightarrow> bool \<times> nat list" where
  "is_generalized_streett a =
    (if is_generalized_buchi a then (True, replicate (num_sets a) 0)
     else is_generalized_rs a OpAnd OpOr OpInf OpFin)"

section \<open>Parity\<close>

text \<open>
  The comparison of two formulas up to equivalence builds BDDs; it is a parameter.  The result
  is the returned Boolean with the two output parameters \<open>max\<close> and \<open>odd\<close>.
\<close>

definition is_parity :: "('n::len acc_code \<Rightarrow> 'n acc_code \<Rightarrow> bool) \<Rightarrow> 'n cond \<Rightarrow> bool \<Rightarrow>
    acc_error + (bool \<times> bool \<times> bool)" where
  "is_parity equiv_codes a up_to_equiv =
    (let sets = num_sets a; code = get_acceptance a in
     if sets = 0 then Inr (True, True, is_t code)
     else let u_inf = fst (used_inf_fin_sets code); odd' = (\<not> mark_has u_inf 0) in
       if list_ex (\<lambda>s. odd s \<noteq> odd') (mark_sets u_inf) then Inr (False, False, odd')
       else bind_sum (parity True odd' sets) (\<lambda>max_code.
            if code_eq max_code code then Inr (True, True, odd')
            else bind_sum (parity False odd' sets) (\<lambda>min_code.
              if code_eq min_code code then Inr (True, False, odd')
              else if \<not> up_to_equiv then Inr (False, False, odd')
              else if equiv_codes code max_code then Inr (True, True, odd')
              else if equiv_codes code min_code then Inr (True, False, odd')
              else Inr (False, False, odd'))))"

section \<open>The shape of built formulas\<close>

text \<open>
  Formulas built with \<open>&\<close> and \<open>|\<close> alternate: a connective has at least two operands, none of
  which has the same connective on top.
\<close>

fun alternating :: "'n::len acc_tree \<Rightarrow> bool" where
  "alternating (TAnd ts) = (2 \<le> length ts \<and> list_all (\<lambda>t. alternating t \<and> tree_op t \<noteq> OpAnd) ts)"
| "alternating (TOr ts) = (2 \<le> length ts \<and> list_all (\<lambda>t. alternating t \<and> tree_op t \<noteq> OpOr) ts)"
| "alternating t = True"

lemma operands_alternating:
  "alternating t \<Longrightarrow> op = OpAnd \<or> op = OpOr \<Longrightarrow> list_all (\<lambda>t. alternating t \<and> tree_op t \<noteq> op) (operands op t)"
  by (cases "(op, t)" rule: operands.cases) auto

lemma length_operands_pos: "alternating t \<Longrightarrow> 1 \<le> length (operands op t)"
  by (cases "(op, t)" rule: operands.cases) auto

lemma merge_alternating:
  assumes "list_all node_ok ls" "list_all node_ok rs" "connects op leaf"
    and "list_all (\<lambda>t. alternating t \<and> tree_op t \<noteq> op) ls" "list_all (\<lambda>t. alternating t \<and> tree_op t \<noteq> op) rs"
  shows "list_all (\<lambda>t. alternating t \<and> tree_op t \<noteq> op) (merge op' leaf ls rs)"
proof (cases "(\<exists>t\<in>set ls. tree_op t = leaf) \<and> (\<exists>t\<in>set rs. tree_op t = leaf)")
  case True
  have leaf: "leaf = OpInf \<or> leaf = OpFin" "op = OpAnd \<or> op = OpOr" using assms(3) by (auto simp: connects_def)
  from mergeE [OF True assms(1,2) leaf(1), of op'] obtain a m b c m' d where
    m: "ls = a @ mk_leaf leaf m # b" "rs = c @ mk_leaf leaf m' # d"
    "merge op' leaf ls rs = c @ mk_leaf leaf (m' OR m) # d @ a @ b" by metis
  have "alternating (mk_leaf leaf (m' OR m)) \<and> tree_op (mk_leaf leaf (m' OR m)) \<noteq> op"
    using leaf by (auto simp: mk_leaf_def)
  then show ?thesis unfolding m(3) using assms(4,5) unfolding m(1,2) by simp
next
  case False
  then have "merge op' leaf ls rs = rs @ ls" by (auto simp: merge_def)
  with assms(4,5) show ?thesis by simp
qed

lemma merge_two:
  assumes "list_all node_ok ls" "list_all node_ok rs" "connects op leaf" "ls \<noteq> []" "rs \<noteq> []"
    and "\<not> ((\<exists>l. ls = [l] \<and> tree_op l = leaf) \<and> (\<exists>r. rs = [r] \<and> tree_op r = leaf))"
  shows "2 \<le> length (merge op' leaf ls rs)"
proof -
  have leaf: "leaf = OpInf \<or> leaf = OpFin" using assms(3) by (auto simp: connects_def)
  show ?thesis
  proof (cases "(\<exists>t\<in>set ls. tree_op t = leaf) \<and> (\<exists>t\<in>set rs. tree_op t = leaf)")
    case True
    from mergeE [OF this assms(1,2) leaf, of op'] obtain a m b c m' d where
      m: "ls = a @ mk_leaf leaf m # b" "rs = c @ mk_leaf leaf m' # d"
      "merge op' leaf ls rs = c @ mk_leaf leaf (m' OR m) # d @ a @ b" by metis
    have "tree_op (mk_leaf leaf k) = leaf" for k :: "'a mark_t" using leaf by (auto simp: mk_leaf_def)
    then have "\<not> (a = [] \<and> b = [] \<and> c = [] \<and> d = [])" using m assms(6) by auto
    then have "1 \<le> length a + length b + length c + length d"
      by (cases a; cases b; cases c; cases d) auto
    then show ?thesis using m(3) by simp
  next
    case False
    have "1 \<le> length ls" "1 \<le> length rs" using assms(4,5) by (cases ls; cases rs; simp)+
    then show ?thesis using False by (auto simp: merge_def)
  qed
qed

lemma tree_and_alternating:
  assumes "tree_ok l" "tree_ok r" "alternating l" "alternating r"
  shows "alternating (tree_and l r)"
  using assms(1,2)
proof (cases rule: tree_and_cases)
  case node
  note ok = operands_ok [OF node(1), of OpAnd] operands_ok [OF node(2), of OpAnd]
  have c: "connects OpAnd OpInf" by (simp add: connects_def)
  have ne: "operands OpAnd l \<noteq> []" "operands OpAnd r \<noteq> []"
    using length_operands_pos [OF assms(3), of OpAnd] length_operands_pos [OF assms(4), of OpAnd] by auto
  have "\<not> ((\<exists>x. operands OpAnd l = [x] \<and> tree_op x = OpInf) \<and> (\<exists>x. operands OpAnd r = [x] \<and> tree_op x = OpInf))"
    using node(6) assms(3,4) by (cases l; cases r) auto
  from merge_two [OF ok c ne this] merge_alternating [OF ok c] node(3) assms(3,4) show ?thesis
    by (simp add: mk_node_def operands_alternating)
qed (use assms in auto)

lemma tree_or_alternating:
  assumes "tree_ok l" "tree_ok r" "alternating l" "alternating r"
  shows "alternating (tree_or l r)"
  using assms(1,2)
proof (cases rule: tree_or_cases)
  case node
  note ok = operands_ok [OF node(1), of OpOr] operands_ok [OF node(2), of OpOr]
  have c: "connects OpOr OpFin" by (simp add: connects_def)
  have ne: "operands OpOr l \<noteq> []" "operands OpOr r \<noteq> []"
    using length_operands_pos [OF assms(3), of OpOr] length_operands_pos [OF assms(4), of OpOr] by auto
  have "\<not> ((\<exists>x. operands OpOr l = [x] \<and> tree_op x = OpFin) \<and> (\<exists>x. operands OpOr r = [x] \<and> tree_op x = OpFin))"
    using node(6) assms(3,4) by (cases l; cases r) auto
  from merge_two [OF ok c ne this] merge_alternating [OF ok c] node(3) assms(3,4) show ?thesis
    by (simp add: mk_node_def operands_alternating)
qed (use assms in auto)

text \<open>
  Property C31: the shape invariant.  Conjunction and disjunction of codes of alternating
  formulas give codes of alternating formulas.
\<close>

theorem connectives_alternate:
  assumes "tree_ok l" and "tree_ok r" and "alternating l" and "alternating r"
    and "length (enc l) + length (enc r) < 2 ^ 16"
  shows "(\<exists>t. and_code (enc l) (enc r) = enc t \<and> tree_ok t \<and> alternating t)
    \<and> (\<exists>t. or_code (enc l) (enc r) = enc t \<and> tree_ok t \<and> alternating t)"
  using conj.comb_tree [OF assms(1,2,5)] disj.comb_tree [OF assms(1,2,5)]
    tree_and_alternating [OF assms(1-4)] tree_or_alternating [OF assms(1-4)] by blast

theorem connectives_alternate_witness:
  "\<exists>t. and_code (enc (TOr [TFin 1, TInf 2])) (enc (TAnd [TFin (4 :: 32 mark_t), TInf 8])) = enc t \<and> alternating t"
  using connectives_alternate [of "TOr [TFin 1, TInf 2]" "TAnd [TFin (4 :: 32 mark_t), TInf 8]"]
  by (auto simp: tree_ok_def)

section \<open>What a pair is\<close>

definition pair_tree :: "acc_op \<Rightarrow> 'n::len mark_t \<Rightarrow> 'n mark_t \<Rightarrow> 'n acc_tree \<Rightarrow> bool" where
  "pair_tree op f i t \<longleftrightarrow> t = mk_node op [TFin f, TInf i] \<or> t = mk_node op [TInf i, TFin f]"

lemma pair_tree_sat:
  "pair_tree OpAnd f i t \<Longrightarrow> tree_sat I J t \<longleftrightarrow> (\<exists>k. bit f k \<and> \<not> I k) \<and> (\<forall>k. bit i k \<longrightarrow> I k)"
  "pair_tree OpOr f i t \<Longrightarrow> tree_sat I J t \<longleftrightarrow> (\<exists>k. bit f k \<and> \<not> I k) \<or> (\<forall>k. bit i k \<longrightarrow> I k)"
  by (auto simp: pair_tree_def mk_node_def)

lemma enc_leaf: "is_leaf l \<Longrightarrow> enc l = [Sub (tree_op l) 1, Mark (leaf_mark l)]"
  by (cases l) auto

lemma not_leaf_op: "node_ok t \<Longrightarrow> \<not> is_leaf t \<Longrightarrow> tree_op t = OpAnd \<or> tree_op t = OpOr"
  by (cases t) auto

lemma leaf_op: "is_leaf t \<Longrightarrow> tree_op t \<noteq> OpAnd \<and> tree_op t \<noteq> OpOr"
  by (cases t) auto

lemma leaf_tree: "is_leaf t \<Longrightarrow> (tree_op t = OpFin \<longleftrightarrow> t = TFin (leaf_mark t)) \<and> (tree_op t = OpInf \<longleftrightarrow> t = TInf (leaf_mark t))"
  by (cases t) auto

lemma enc_head: "node_ok t \<Longrightarrow> \<exists>n v ws. enc t = Sub (tree_op t) n # v # ws"
proof -
  assume t: "node_ok t"
  then have "2 \<le> length (enc t)" by (rule enc_length)
  then obtain a v ws where "enc t = a # v # ws" by (metis Suc_le_length_iff numeral_2_eq_2)
  with enc_Cons [OF t] show ?thesis by simp
qed

text \<open>
  Five words that start at a \<open>lowop\<close> node and pass the test on operators are a node whose first
  two operands are a \<open>Fin\<close> and an \<open>Inf\<close> leaf.
\<close>

lemma pair_words:
  assumes "node_ok t" "alternating t" "tree_op t = lowop" "lowop = OpAnd \<or> lowop = OpOr"
  obtains u v us n where "t = mk_node lowop (u # v # us)" "node_ok u" "node_ok v" "list_all node_ok us"
    "list_all (\<lambda>t. tree_op t \<noteq> lowop) (u # v # us)"
    "enc t = Sub lowop n # enc u @ enc v @ concat (map enc us)"
    "n = length (enc u @ enc v @ concat (map enc us))"
proof -
  obtain ts where t: "t = mk_node lowop ts" "list_all node_ok ts" "2 \<le> length ts"
    "list_all (\<lambda>t. tree_op t \<noteq> lowop) ts"
    using assms by (cases t) (auto simp: mk_node_def list_all_iff)
  then obtain u v us where "ts = u # v # us" by (metis Suc_le_length_iff numeral_2_eq_2)
  with t that show ?thesis using assms(4) by (auto simp: mk_node_def Let_def)
qed

text \<open>The four words behind the operator pass the tests only when they are two leaves.\<close>

definition leaf_test :: "'n::len acc_code \<Rightarrow> ('n mark_t \<times> 'n mark_t) option" where
  "leaf_test ws = (case ws of
     w1 # w2 # w3 # w4 # _ \<Rightarrow>
       let sw = is_op OpFin w3;
           o1 = (if sw then w3 else w1); m1 = word_mark (if sw then w4 else w2);
           o2 = (if sw then w1 else w3); m2 = word_mark (if sw then w2 else w4)
       in if \<not> is_op OpFin o1 \<or> \<not> is_op OpInf o2 then None else Some (m1, m2)
   | _ \<Rightarrow> None)"

lemma leaf_test_words:
  assumes "node_ok u" "node_ok v" "leaf_test (enc u @ enc v @ ws) = Some (f, i)"
  shows "u = TFin f \<and> v = TInf i \<or> u = TInf i \<and> v = TFin f"
proof -
  obtain n a xs where u: "enc u = Sub (tree_op u) n # a # xs" using enc_head [OF assms(1)] by blast
  have hd: "tree_op u = OpFin \<or> tree_op u = OpInf"
    using assms(3) by (auto simp: u leaf_test_def Let_def split: list.splits if_splits)
  then have "is_leaf u" using not_leaf_op [OF assms(1)] by fastforce
  then have eu: "enc u = [Sub (tree_op u) 1, Mark (leaf_mark u)]" by (rule enc_leaf)
  obtain n' b ys where v: "enc v = Sub (tree_op v) n' # b # ys" using enc_head [OF assms(2)] by blast
  have ops: "(tree_op u = OpFin \<and> tree_op v = OpInf) \<or> (tree_op u = OpInf \<and> tree_op v = OpFin)"
    using assms(3) by (auto simp: eu v leaf_test_def Let_def split: if_splits)
  then have "is_leaf v" using not_leaf_op [OF assms(2)] by fastforce
  then have ev: "enc v = [Sub (tree_op v) 1, Mark (leaf_mark v)]" by (rule enc_leaf)
  show ?thesis
    using ops assms(3) leaf_tree [OF \<open>is_leaf u\<close>] leaf_tree [OF \<open>is_leaf v\<close>]
    by (auto simp: eu ev leaf_test_def Let_def split: if_splits)
qed

lemma rs_loop_test:
  "rs_loop lowop sf si (w0 # w1 # w2 # w3 # w4 # ws) =
    (if \<not> is_op lowop w0 then None
     else case leaf_test (w1 # w2 # w3 # w4 # ws) of None \<Rightarrow> None
       | Some (m1, m2) \<Rightarrow> if \<not> mark_is_singleton m1 \<or> m2 \<noteq> shl1 m1 then None
           else rs_loop lowop (sf OR m1) (si OR m2) ws)"
  by (simp add: leaf_test_def Let_def)

lemma rs_loop_head: "rs_loop lowop sf si (Sub op n # ws) = Some r \<Longrightarrow> op = lowop"
  by (cases "(lowop, sf, si, Sub op n # ws)" rule: rs_loop.cases) (auto split: if_splits)

lemma four_elements: "4 \<le> length xs \<Longrightarrow> \<exists>a b c d ys. xs = a # b # c # d # ys"
  by (auto simp: numeral_eq_Suc Suc_le_length_iff)

lemma four_words:
  assumes "node_ok u" "node_ok v"
  obtains w1 w2 w3 w4 ws where "enc u @ enc v = w1 # w2 # w3 # w4 # ws"
proof -
  have "4 \<le> length (enc u @ enc v)" using enc_length [OF assms(1)] enc_length [OF assms(2)] by simp
  from four_elements [OF this] show ?thesis using that by blast
qed

lemma is_op_Sub [simp]: "is_op op (Sub op' n) \<longleftrightarrow> op' = op" by simp

text \<open>
  A successful run of the loop over the operands of the main connective: each operand is a
  pair of consecutive sets, and the two results collect them.
\<close>

lemma rs_loop_pairs:
  assumes "list_all (\<lambda>t. node_ok t \<and> alternating t) ts" "lowop = OpAnd \<or> lowop = OpOr"
    and "rs_loop lowop sf si (concat (map enc ts)) = Some (rf, ri)"
  shows "\<exists>fs. list_all2 (\<lambda>f t. mark_is_singleton f \<and> pair_tree lowop f (shl1 f) t) fs ts
    \<and> rf = foldl (OR) sf fs \<and> ri = foldl (OR) si (map shl1 fs)"
  using assms(1,3)
proof (induction ts arbitrary: sf si)
  case (Cons t ts)
  then have t: "node_ok t" "alternating t" by simp_all
  obtain n a xs where "enc t = Sub (tree_op t) n # a # xs" using enc_head [OF t(1)] by blast
  then have low: "tree_op t = lowop" using Cons.prems(2) rs_loop_head [of lowop sf si "tree_op t"] by simp
  from pair_words [OF t low assms(2)] obtain u v us n where p: "t = mk_node lowop (u # v # us)"
    "node_ok u" "node_ok v" "list_all node_ok us" "list_all (\<lambda>t. tree_op t \<noteq> lowop) (u # v # us)"
    "enc t = Sub lowop n # enc u @ enc v @ concat (map enc us)" by metis
  let ?rest = "concat (map enc us) @ concat (map enc ts)"
  obtain w1 w2 w3 w4 ws where w: "enc u @ enc v = w1 # w2 # w3 # w4 # ws" using four_words [OF p(2,3)] .
  have words: "concat (map enc (t # ts)) = Sub lowop n # w1 # w2 # w3 # w4 # (ws @ ?rest)"
    using p(6) w by (simp flip: append_assoc)
  have eq: "w1 # w2 # w3 # w4 # ws @ ?rest = enc u @ enc v @ ?rest" using w by (metis append_assoc append_Cons)
  from Cons.prems(2) obtain f i where fi: "leaf_test (enc u @ enc v @ ?rest) = Some (f, i)"
    "mark_is_singleton f" "i = shl1 f"
    "rs_loop lowop (sf OR f) (si OR i) (ws @ ?rest) = Some (rf, ri)"
    unfolding words rs_loop_test eq [symmetric] by (auto split: option.splits if_splits prod.splits)
  have uv: "u = TFin f \<and> v = TInf i \<or> u = TInf i \<and> v = TFin f" by (rule leaf_test_words [OF p(2,3) fi(1)])
  then have "ws = []" using w by auto
  have "us = []"
  proof (rule ccontr)
    assume "us \<noteq> []"
    then obtain x xs where us: "us = x # xs" by (cases us) auto
    then have "node_ok x" "tree_op x \<noteq> lowop" using p(4,5) by simp_all
    moreover from enc_head [OF this(1)] obtain k b ys where "enc x = Sub (tree_op x) k # b # ys" by blast
    ultimately show False
      using fi(4) us \<open>ws = []\<close> rs_loop_head [of lowop "sf OR f" "si OR i" "tree_op x"] by simp
  qed
  with uv p(1) have "pair_tree lowop f (shl1 f) t" using fi(3) by (auto simp: pair_tree_def)
  moreover have "rs_loop lowop (sf OR f) (si OR i) (concat (map enc ts)) = Some (rf, ri)"
    "list_all (\<lambda>t. node_ok t \<and> alternating t) ts"
    using Cons.prems(1) fi(4) \<open>us = []\<close> \<open>ws = []\<close> by simp_all
  from Cons.IH [OF this(2,1)] obtain fs where "list_all2 (\<lambda>f t. mark_is_singleton f \<and> pair_tree lowop f (shl1 f) t) fs ts"
    "rf = foldl (OR) (sf OR f) fs" "ri = foldl (OR) (si OR i) (map shl1 fs)"
    by blast
  ultimately show ?case using fi(2,3) by (intro exI [of _ "f # fs"]) simp
qed (intro exI [of _ "[]"], simp)

lemma bit_shl1 [simp]:
  "bit (shl1 m) (Suc i) \<longleftrightarrow> bit m i \<and> Suc i < LENGTH('n)" "\<not> bit (shl1 m) 0" for m :: "'n::len mark_t"
  unfolding shl1_def bit_push_bit_iff by auto

lemma pairs_cover:
  fixes F :: "nat set"
  assumes "F \<inter> Suc ` F \<inter> {..<N} = {}" "{..<N} \<subseteq> F \<union> Suc ` F" "i < N"
  shows "i \<in> F \<longleftrightarrow> even i"
  using assms(3)
proof (induction i)
  case 0
  then show ?case using assms(2) by auto
next
  case (Suc i)
  then have "i \<in> F \<longleftrightarrow> even i" by simp
  moreover have "Suc i \<in> F \<union> Suc ` F" "Suc i \<notin> F \<inter> Suc ` F" using assms Suc.prems by blast+
  ultimately show ?case by auto
qed

text \<open>
  The sets \<open>F\<close> of the \<open>Fin\<close> leaves, with their successors, are all \<open>2n\<close> sets and disjoint from
  them: \<open>F\<close> is the set of even numbers.
\<close>

definition pair_sets :: "'n::len mark_t list \<Rightarrow> nat set" where
  "pair_sets fs = {k. \<exists>f\<in>set fs. bit f k}"

lemma pair_sets_even:
  fixes fs :: "'n::len mark_t list"
  assumes "foldl (OR) 0 fs AND foldl (OR) 0 (map shl1 fs) = 0"
    and "bits (foldl (OR) 0 fs OR foldl (OR) 0 (map shl1 fs)) = {..<2 * n}"
    and "2 * n \<le> LENGTH('n)"
  shows "pair_sets fs = {2 * i |i. i < n}"
proof -
  let ?F = "pair_sets fs"
  have F: "bits (foldl (OR) 0 fs) = ?F" by (auto simp: bit_foldl_or pair_sets_def)
  have I: "bits (foldl (OR) 0 (map shl1 fs)) = Suc ` ?F \<inter> {..<LENGTH('n)}"
  proof (rule set_eqI)
    fix i
    show "i \<in> bits (foldl (OR) 0 (map shl1 fs)) \<longleftrightarrow> i \<in> Suc ` ?F \<inter> {..<LENGTH('n)}"
      by (cases i) (auto simp: bit_foldl_or pair_sets_def)
  qed
  have disj: "?F \<inter> (Suc ` ?F \<inter> {..<LENGTH('n)}) = {}"
    using assms(1) unfolding word_and_zero_iff_disjoint F I .
  have cover: "?F \<union> (Suc ` ?F \<inter> {..<LENGTH('n)}) = {..<2 * n}"
    using assms(2) unfolding bits_or F I .
  have "i \<in> ?F \<longleftrightarrow> even i" if "i < 2 * n" for i
  proof (rule pairs_cover [OF _ _ that])
    show "?F \<inter> Suc ` ?F \<inter> {..<2 * n} = {}" using disj assms(3) by auto
    show "{..<2 * n} \<subseteq> ?F \<union> Suc ` ?F" using cover by blast
  qed
  moreover have "?F \<subseteq> {..<2 * n}" using cover by blast
  ultimately have "?F = {i. i < 2 * n \<and> even i}" by auto
  moreover have "(i < 2 * n \<and> even i) \<longleftrightarrow> (\<exists>j<n. i = 2 * j)" for i :: nat by presburger
  ultimately show ?thesis by auto
qed

lemma is_rs_pairs:
  assumes "is_rs (enc t) highop lowop all" "node_ok t" "alternating t" "{highop, lowop} = {OpAnd, OpOr}"
  obtains fs where
    "list_all2 (\<lambda>f t. mark_is_singleton f \<and> pair_tree lowop f (shl1 f) t) fs (operands highop t)"
    "foldl (OR) 0 fs AND foldl (OR) 0 (map shl1 fs) = 0"
    "foldl (OR) 0 fs OR foldl (OR) 0 (map shl1 fs) = all"
proof -
  have op: "highop \<noteq> lowop" "lowop = OpAnd \<or> lowop = OpOr" "highop = OpAnd \<or> highop = OpOr"
    using assms(4) by (auto simp: doubleton_eq_iff)
  have words: "case rs_loop lowop 0 0 (concat (map enc (operands highop t))) of None \<Rightarrow> False
      | Some (sf, si) \<Rightarrow> sf AND si = 0 \<and> sf OR si = all"
  proof (cases "tree_op t = highop")
    case True
    then have "tl (enc t) = concat (map enc (operands highop t))"
      using assms(2) op by (cases t) (auto simp: Let_def)
    then show ?thesis using assms(1,2) True by (auto simp: is_rs_def Let_def split: if_splits)
  next
    case False
    then have ops: "operands highop t = [t]" by (cases "(highop, t)" rule: operands.cases) auto
    obtain ws where ws: "enc t = Sub (tree_op t) (length ws) # ws" using enc_Cons [OF assms(2)] by (metis length_tl)
    moreover have "\<not> top_is highop (enc t)" using assms(2) False by simp
    ultimately show ?thesis using assms(1) ops by (auto simp: is_rs_def Let_def split: if_splits)
  qed
  then obtain rf ri where r: "rs_loop lowop 0 0 (concat (map enc (operands highop t))) = Some (rf, ri)"
    "rf AND ri = 0" "rf OR ri = all" by (auto split: option.splits prod.splits)
  have "list_all (\<lambda>t. node_ok t \<and> alternating t) (operands highop t)"
    using operands_ok [OF assms(2), of highop] operands_alternating [OF assms(3) op(3)] by (auto simp: list_all_iff)
  from rs_loop_pairs [OF this op(2) r(1)] r(2,3) that show ?thesis by blast
qed

lemma list_all2_quantify:
  assumes "list_all2 R fs ts" "\<And>f t. R f t \<Longrightarrow> f \<in> set fs \<Longrightarrow> P t = Q f"
  shows "list_ex P ts = list_ex Q fs" "list_all P ts = list_all Q fs"
  using assms by (induction rule: list_all2_induct) auto

lemma singleton_pair:
  fixes f m :: "'n::len mark_t"
  assumes "bits f = {2 * i}" "2 * i + 1 < LENGTH('n)"
  shows "(\<exists>k. bit f k \<and> \<not> bit m k) \<longleftrightarrow> \<not> bit m (2 * i)"
    and "(\<forall>k. bit (shl1 f) k \<longrightarrow> bit m k) \<longleftrightarrow> bit m (2 * i + 1)"
proof -
  have f: "bit f k \<longleftrightarrow> k = 2 * i" for k using assms(1) by (metis mem_bits singleton_iff)
  show "(\<exists>k. bit f k \<and> \<not> bit m k) \<longleftrightarrow> \<not> bit m (2 * i)" by (auto simp: f)
  show "(\<forall>k. bit (shl1 f) k \<longrightarrow> bit m k) \<longleftrightarrow> bit m (2 * i + 1)"
  proof
    assume "bit m (2 * i + 1)"
    then show "\<forall>k. bit (shl1 f) k \<longrightarrow> bit m k" by (metis Suc_eq_plus1 bit_shl1 f not0_implies_Suc)
  qed (use assms(2) f in auto)
qed

text \<open>The number of the pair whose \<open>Fin\<close> set is the singleton \<open>f\<close>.\<close>

definition pair_no :: "'n::len mark_t \<Rightarrow> nat" where
  "pair_no f = Min (bits f) div 2"

lemma pair_no_eq: "bits f = {2 * i} \<Longrightarrow> pair_no f = i"
  by (simp add: pair_no_def)

lemma pair_numbers:
  assumes "\<forall>f\<in>set fs. mark_is_singleton f" "pair_sets fs = {2 * i |i. i < n}"
  shows "\<forall>f\<in>set fs. bits f = {2 * pair_no f} \<and> pair_no f < n" and "pair_no ` set fs = {..<n}"
proof -
  have f: "\<exists>i<n. bits f = {2 * i}" if "f \<in> set fs" for f
  proof -
    from assms(1) that obtain k where k: "bits f = {k}" by (auto simp: mark_is_singleton_iff)
    then have "bit f k" by (metis mem_bits singletonI)
    then have "k \<in> pair_sets fs" using that by (auto simp: pair_sets_def)
    with assms(2) k show ?thesis by auto
  qed
  then show b: "\<forall>f\<in>set fs. bits f = {2 * pair_no f} \<and> pair_no f < n" using pair_no_eq by fastforce
  show "pair_no ` set fs = {..<n}"
  proof
    show "{..<n} \<subseteq> pair_no ` set fs"
    proof
      fix i assume "i \<in> {..<n}"
      then have "2 * i \<in> pair_sets fs" using assms(2) by auto
      then obtain f where f: "f \<in> set fs" "2 * i \<in> bits f" by (auto simp: pair_sets_def)
      then have "2 * i = 2 * pair_no f" using b by (metis singletonD)
      with f(1) show "i \<in> pair_no ` set fs" by auto
    qed
  qed (use b in auto)
qed

lemma rs_pairs_meaning:
  fixes t :: "'n::len acc_tree" and m :: "'n mark_t"
  assumes "is_rs (enc t) highop lowop all" "node_ok t" "alternating t" "{highop, lowop} = {OpAnd, OpOr}"
    and "bits all = {..<2 * n}" "2 * n \<le> LENGTH('n)"
  shows "highop = OpOr \<Longrightarrow> tree_sat (bit m) J t \<longleftrightarrow> (\<exists>i<n. \<not> bit m (2 * i) \<and> bit m (2 * i + 1))"
    and "highop = OpAnd \<Longrightarrow> tree_sat (bit m) J t \<longleftrightarrow> (\<forall>i<n. \<not> bit m (2 * i) \<or> bit m (2 * i + 1))"
proof -
  obtain fs where fs:
    "list_all2 (\<lambda>f t. mark_is_singleton f \<and> pair_tree lowop f (shl1 f) t) fs (operands highop t)"
    "foldl (OR) 0 fs AND foldl (OR) 0 (map shl1 fs) = 0" "foldl (OR) 0 fs OR foldl (OR) 0 (map shl1 fs) = all"
    using is_rs_pairs [OF assms(1-4)] .
  have single: "\<forall>f\<in>set fs. mark_is_singleton f" using fs(1) by (auto simp: list_all2_conv_all_nth in_set_conv_nth)
  have "pair_sets fs = {2 * i |i. i < n}"
    using pair_sets_even [OF fs(2) _ assms(6)] assms(5) fs(3) by simp
  note no = pair_numbers [OF single this]
  have one: "tree_sat (bit m) J u = (if lowop = OpAnd then \<not> bit m (2 * pair_no f) \<and> bit m (2 * pair_no f + 1)
      else \<not> bit m (2 * pair_no f) \<or> bit m (2 * pair_no f + 1))"
    if "pair_tree lowop f (shl1 f) u" "f \<in> set fs" for f u
  proof -
    have "bits f = {2 * pair_no f}" "2 * pair_no f + 1 < LENGTH('n)" using no(1) that(2) assms(6) by fastforce+
    note pair = singleton_pair [OF this, of m]
    show ?thesis
    proof (cases "lowop = OpAnd")
      case True
      then show ?thesis using pair_tree_sat(1) [of f "shl1 f" u "bit m" J] that(1) unfolding pair by simp
    next
      case False
      then have "lowop = OpOr" using assms(4) by (auto simp: doubleton_eq_iff)
      then show ?thesis using pair_tree_sat(2) [of f "shl1 f" u "bit m" J] that(1) unfolding pair by simp
    qed
  qed
  show "tree_sat (bit m) J t \<longleftrightarrow> (\<exists>i<n. \<not> bit m (2 * i) \<and> bit m (2 * i + 1))" if "highop = OpOr"
  proof -
    have low: "lowop = OpAnd" using assms(4) that by (auto simp: doubleton_eq_iff)
    have "tree_sat (bit m) J t \<longleftrightarrow> list_ex (tree_sat (bit m) J) (operands highop t)"
      unfolding that by (cases "(OpOr, t)" rule: operands.cases) auto
    also have "\<dots> \<longleftrightarrow> list_ex (\<lambda>f. \<not> bit m (2 * pair_no f) \<and> bit m (2 * pair_no f + 1)) fs"
      by (rule list_all2_quantify(1) [OF fs(1)]) (use one low in simp)
    also have "\<dots> \<longleftrightarrow> (\<exists>i\<in>pair_no ` set fs. \<not> bit m (2 * i) \<and> bit m (2 * i + 1))" by (auto simp: list_ex_iff)
    finally show ?thesis unfolding no(2) by blast
  qed
  show "tree_sat (bit m) J t \<longleftrightarrow> (\<forall>i<n. \<not> bit m (2 * i) \<or> bit m (2 * i + 1))" if "highop = OpAnd"
  proof -
    have low: "lowop = OpOr" using assms(4) that by (auto simp: doubleton_eq_iff)
    have "tree_sat (bit m) J t \<longleftrightarrow> list_all (tree_sat (bit m) J) (operands highop t)"
      unfolding that by (cases "(OpAnd, t)" rule: operands.cases) auto
    also have "\<dots> \<longleftrightarrow> list_all (\<lambda>f. \<not> bit m (2 * pair_no f) \<or> bit m (2 * pair_no f + 1)) fs"
      by (rule list_all2_quantify(2) [OF fs(1)]) (use one low in simp)
    also have "\<dots> \<longleftrightarrow> (\<forall>i\<in>pair_no ` set fs. \<not> bit m (2 * i) \<or> bit m (2 * i + 1))" by (auto simp: list_all_iff)
    finally show ?thesis unfolding no(2) by blast
  qed
qed

text \<open>The loop accepts every list of pairs of consecutive sets, with the leaves of a pair in either order.\<close>

lemma rs_loop_complete:
  assumes "list_all2 (\<lambda>f t. mark_is_singleton f \<and> pair_tree lowop f (shl1 f) t) fs ts" "lowop = OpAnd \<or> lowop = OpOr"
  shows "rs_loop lowop sf si (concat (map enc ts)) = Some (foldl (OR) sf fs, foldl (OR) si (map shl1 fs))
    \<and> length (concat (map enc ts)) = 5 * length ts"
  using assms(1)
proof (induction fs ts arbitrary: sf si rule: list_all2_induct)
  case (Cons f fs t ts)
  then have "enc t = [Sub lowop 4, Sub OpFin 1, Mark f, Sub OpInf 1, Mark (shl1 f)]
      \<or> enc t = [Sub lowop 4, Sub OpInf 1, Mark (shl1 f), Sub OpFin 1, Mark f]"
    using assms(2) by (elim disjE) (simp_all add: pair_tree_def mk_node_def, auto)
  then show ?case
  proof
    assume e: "enc t = [Sub lowop 4, Sub OpFin 1, Mark f, Sub OpInf 1, Mark (shl1 f)]"
    show ?thesis using Cons(1) Cons(3) [of "sf OR f" "si OR shl1 f"] by (simp add: e)
  next
    assume e: "enc t = [Sub lowop 4, Sub OpInf 1, Mark (shl1 f), Sub OpFin 1, Mark f]"
    show ?thesis using Cons(1) Cons(3) [of "sf OR f" "si OR shl1 f"] by (simp add: e)
  qed
qed simp

lemma pair_tree_op: "pair_tree op f i t \<Longrightarrow> op = OpAnd \<or> op = OpOr \<Longrightarrow> tree_op t = op"
  by (elim disjE) (simp_all add: pair_tree_def mk_node_def, elim disjE, simp_all, elim disjE, simp_all)

lemma is_rs_iff:
  assumes "node_ok t" "alternating t" "{highop, lowop} = {OpAnd, OpOr}"
  shows "is_rs (enc t) highop lowop all \<longleftrightarrow>
    (\<exists>fs. list_all2 (\<lambda>f t. mark_is_singleton f \<and> pair_tree lowop f (shl1 f) t) fs (operands highop t) \<and>
      foldl (OR) 0 fs AND foldl (OR) 0 (map shl1 fs) = 0 \<and> foldl (OR) 0 fs OR foldl (OR) 0 (map shl1 fs) = all)"
proof
  assume "is_rs (enc t) highop lowop all"
  from is_rs_pairs [OF this assms] obtain fs where
    "list_all2 (\<lambda>f t. mark_is_singleton f \<and> pair_tree lowop f (shl1 f) t) fs (operands highop t)"
    "foldl (OR) 0 fs AND foldl (OR) 0 (map shl1 fs) = 0" "foldl (OR) 0 fs OR foldl (OR) 0 (map shl1 fs) = all" .
  then show "\<exists>fs. list_all2 (\<lambda>f t. mark_is_singleton f \<and> pair_tree lowop f (shl1 f) t) fs (operands highop t) \<and>
      foldl (OR) 0 fs AND foldl (OR) 0 (map shl1 fs) = 0 \<and> foldl (OR) 0 fs OR foldl (OR) 0 (map shl1 fs) = all"
    by (intro exI [of _ fs] conjI)
next
  assume "\<exists>fs. list_all2 (\<lambda>f t. mark_is_singleton f \<and> pair_tree lowop f (shl1 f) t) fs (operands highop t) \<and>
      foldl (OR) 0 fs AND foldl (OR) 0 (map shl1 fs) = 0 \<and> foldl (OR) 0 fs OR foldl (OR) 0 (map shl1 fs) = all"
  then obtain fs where fs: "list_all2 (\<lambda>f t. mark_is_singleton f \<and> pair_tree lowop f (shl1 f) t) fs (operands highop t)"
    "foldl (OR) 0 fs AND foldl (OR) 0 (map shl1 fs) = 0" "foldl (OR) 0 fs OR foldl (OR) 0 (map shl1 fs) = all" by blast
  have op: "highop \<noteq> lowop" "lowop = OpAnd \<or> lowop = OpOr" "highop = OpAnd \<or> highop = OpOr"
    using assms(3) by (auto simp: doubleton_eq_iff)
  note loop = rs_loop_complete [OF fs(1) op(2)]
  obtain ws where ws: "enc t = Sub (tree_op t) (length ws) # ws" using enc_Cons [OF assms(1)] by (metis length_tl)
  show "is_rs (enc t) highop lowop all"
  proof (cases "tree_op t = highop")
    case True
    then have "ws = concat (map enc (operands highop t))"
      using assms(1) op ws by (cases t) (auto simp: Let_def)
    then show ?thesis using loop fs(2,3) ws True assms(1) by (simp add: is_rs_def Let_def top_is_def)
  next
    case False
    then have ops: "operands highop t = [t]" by (cases "(highop, t)" rule: operands.cases) auto
    then have "tree_op t = lowop" using fs(1) op(2) pair_tree_op by (auto simp: list_all2_Cons2)
    moreover have "length ws = 4" using loop ops ws by simp
    moreover have "\<not> top_is highop (enc t)" "top_is lowop (enc t)" using assms(1) False calculation(1) by simp_all
    ultimately show ?thesis using loop fs(2,3) ops ws by (simp add: is_rs_def Let_def)
  qed
qed

text \<open>
  The shape that is recognised: the operands of the main connective are pairs of a \<open>Fin\<close> leaf on a
  set \<open>2k\<close> and an \<open>Inf\<close> leaf on the set \<open>2k + 1\<close>, the leaves and the pairs in any order, and every
  \<open>k\<close> below \<open>n\<close> occurs.
\<close>

definition rs_shape :: "acc_op \<Rightarrow> acc_op \<Rightarrow> nat \<Rightarrow> 'n::len acc_tree \<Rightarrow> bool" where
  "rs_shape highop lowop n t \<longleftrightarrow>
    (\<exists>ks. set ks = {..<n} \<and>
      list_all2 (\<lambda>k u. \<exists>f i. bits f = {2 * k} \<and> bits i = {2 * k + 1} \<and> pair_tree lowop f i u) ks (operands highop t))"

lemma shl1_next:
  fixes f i :: "'n::len mark_t"
  assumes "bits f = {k}"
  shows "bits i = {k + 1} \<Longrightarrow> i = shl1 f" "k + 1 < LENGTH('n) \<Longrightarrow> bits (shl1 f) = {k + 1}"
proof -
  have f: "bit f j \<longleftrightarrow> j = k" for j using assms by (metis mem_bits singleton_iff)
  show s: "bits (shl1 f) = {k + 1}" if "k + 1 < LENGTH('n)"
  proof (rule set_eqI)
    show "j \<in> bits (shl1 f) \<longleftrightarrow> j \<in> {k + 1}" for j using that by (cases j) (auto simp: f)
  qed
  show "i = shl1 f" if i: "bits i = {k + 1}"
  proof -
    have "bit i (k + 1)" using i by (metis mem_bits singletonI)
    then have "k + 1 < LENGTH('n)" by (rule bit_imp_le_length)
    then have "bits i = bits (shl1 f)" using s i by simp
    then show ?thesis by (rule iffD1 [OF bits_inject])
  qed
qed

lemma pair_marks:
  fixes fs :: "'n::len mark_t list"
  assumes "set ks = {..<n}" "2 * n \<le> LENGTH('n)" "bits all = {..<2 * n}" "list_all2 (\<lambda>k f. bits f = {2 * k}) ks fs"
  shows "foldl (OR) 0 fs AND foldl (OR) 0 (map shl1 fs) = 0" "foldl (OR) 0 fs OR foldl (OR) 0 (map shl1 fs) = all"
proof -
  have sets: "bits ` set fs = (\<lambda>k. {2 * k}) ` {..<n}"
    using assms(4) unfolding assms(1) [symmetric] by (induction rule: list_all2_induct) auto
  have "i \<in> bits (foldl (OR) 0 fs) \<longleftrightarrow> i \<in> \<Union> (bits ` set fs)" for i by (simp add: bit_foldl_or)
  then have F: "bits (foldl (OR) 0 fs) = (\<lambda>k. 2 * k) ` {..<n}" unfolding sets by blast
  have next_set: "bits (shl1 f) = Suc ` bits f" if "f \<in> set fs" for f
  proof -
    have "bits f \<in> (\<lambda>k. {2 * k}) ` {..<n}" using that unfolding sets [symmetric] by (rule imageI)
    then obtain k where "k < n" "bits f = {2 * k}" by blast
    then show ?thesis using shl1_next(2) [of f "2 * k"] assms(2) by simp
  qed
  have "bits (foldl (OR) 0 (map shl1 fs)) = (\<Union>f\<in>set fs. bits (shl1 f))" by (simp add: set_eq_iff bit_foldl_or)
  also have "\<dots> = (\<Union>f\<in>set fs. Suc ` bits f)" by (rule SUP_cong) (simp_all add: next_set)
  also have "\<dots> = Suc ` \<Union> (bits ` set fs)" by blast
  finally have I: "bits (foldl (OR) 0 (map shl1 fs)) = (\<lambda>k. Suc (2 * k)) ` {..<n}" unfolding sets image_UN image_insert image_empty UNION_singleton_eq_range image_image .
  have "(\<lambda>k. 2 * k) ` {..<n} \<inter> (\<lambda>k. Suc (2 * k)) ` {..<n} = {}" by (rule ccontr) (auto, presburger)
  then show "foldl (OR) 0 fs AND foldl (OR) 0 (map shl1 fs) = 0"
    unfolding word_and_zero_iff_disjoint F I .
  have "(\<exists>k<n. i = 2 * k) \<or> (\<exists>k<n. i = Suc (2 * k)) \<longleftrightarrow> i < 2 * n" for i :: nat by presburger
  then have "bits (foldl (OR) 0 fs OR foldl (OR) 0 (map shl1 fs)) = bits all"
    unfolding assms(3) bits_or F I by (simp add: set_eq_iff image_iff Bex_def lessThan_iff)
  then show "foldl (OR) 0 fs OR foldl (OR) 0 (map shl1 fs) = all" by (rule iffD1 [OF bits_inject])
qed

lemma list_all2_middle:
  assumes "list_all2 (\<lambda>k u. \<exists>f. P k f \<and> Q f u) ks us"
  shows "\<exists>fs. list_all2 P ks fs \<and> list_all2 Q fs us"
  using assms
proof (induction rule: list_all2_induct)
  case (Cons k ks u us)
  then obtain f fs where "P k f" "Q f u" "list_all2 P ks fs" "list_all2 Q fs us" by blast
  then show ?case by (intro exI [of _ "f # fs"]) simp
qed simp

lemma is_rs_shape:
  fixes t :: "'n::len acc_tree"
  assumes "node_ok t" "alternating t" "{highop, lowop} = {OpAnd, OpOr}" "bits all = {..<2 * n}" "2 * n \<le> LENGTH('n)"
  shows "is_rs (enc t) highop lowop all \<longleftrightarrow> rs_shape highop lowop n t"
proof
  assume "is_rs (enc t) highop lowop all"
  from is_rs_pairs [OF this assms(1-3)] obtain fs where fs:
    "list_all2 (\<lambda>f t. mark_is_singleton f \<and> pair_tree lowop f (shl1 f) t) fs (operands highop t)"
    "foldl (OR) 0 fs AND foldl (OR) 0 (map shl1 fs) = 0" "foldl (OR) 0 fs OR foldl (OR) 0 (map shl1 fs) = all" .
  have single: "\<forall>f\<in>set fs. mark_is_singleton f" using fs(1) by (auto simp: list_all2_conv_all_nth in_set_conv_nth)
  have "pair_sets fs = {2 * i |i. i < n}"
    using pair_sets_even [OF fs(2) _ assms(5)] assms(4) fs(3) by simp
  note no = pair_numbers [OF single this]
  have "list_all2 (\<lambda>k u. \<exists>f i. bits f = {2 * k} \<and> bits i = {2 * k + 1} \<and> pair_tree lowop f i u) (map pair_no fs) (operands highop t)"
    unfolding list_all2_map1
  proof (rule list.rel_mono_strong [OF fs(1)], elim conjE)
    fix f u assume f: "f \<in> set fs" "pair_tree lowop f (shl1 f) u"
    have "bits f = {2 * pair_no f}" "2 * pair_no f + 1 < LENGTH('n)" using no(1) f(1) assms(5) by fastforce+
    then show "\<exists>g i. bits g = {2 * pair_no f} \<and> bits i = {2 * pair_no f + 1} \<and> pair_tree lowop g i u"
      using shl1_next(2) f(2) by blast
  qed
  then show "rs_shape highop lowop n t" using no(2) unfolding rs_shape_def by (intro exI [of _ "map pair_no fs"]) simp
next
  assume "rs_shape highop lowop n t"
  then obtain ks where ks: "set ks = {..<n}"
    "list_all2 (\<lambda>k u. \<exists>f i. bits f = {2 * k} \<and> bits i = {2 * k + 1} \<and> pair_tree lowop f i u) ks (operands highop t)"
    unfolding rs_shape_def by blast
  have "list_all2 (\<lambda>k u. \<exists>f. bits f = {2 * k} \<and> mark_is_singleton f \<and> pair_tree lowop f (shl1 f) u) ks (operands highop t)"
  proof (rule list_all2_mono [OF ks(2)], elim exE conjE)
    fix k u f i assume f: "bits f = {2 * k}" "bits i = {2 * k + 1}" "pair_tree lowop f i u"
    have "mark_is_singleton f" using f(1) by (simp add: mark_is_singleton_iff)
    moreover have "i = shl1 f" using shl1_next(1) [OF f(1,2)] .
    ultimately show "\<exists>f. bits f = {2 * k} \<and> mark_is_singleton f \<and> pair_tree lowop f (shl1 f) u" using f by blast
  qed
  then obtain fs where fs: "list_all2 (\<lambda>k f. bits f = {2 * k}) ks fs"
    "list_all2 (\<lambda>f u. mark_is_singleton f \<and> pair_tree lowop f (shl1 f) u) fs (operands highop t)"
    using list_all2_middle [of "\<lambda>k f. bits f = {2 * k}" "\<lambda>f u. mark_is_singleton f \<and> pair_tree lowop f (shl1 f) u"] by auto
  have "foldl (OR) 0 fs AND foldl (OR) 0 (map shl1 fs) = 0" "foldl (OR) 0 fs OR foldl (OR) 0 (map shl1 fs) = all"
    by (rule pair_marks [OF ks(1) assms(5,4) fs(1)])+
  with fs(2) show "is_rs (enc t) highop lowop all"
    unfolding is_rs_iff [OF assms(1-3)] by (intro exI [of _ fs] conjI)
qed

lemma rs_shape_node:
  assumes "rs_shape highop lowop n t" "node_ok t" "alternating t" "{highop, lowop} = {OpAnd, OpOr}"
  shows "0 < n" "tree_op t = OpAnd \<or> tree_op t = OpOr"
proof -
  have op: "lowop = OpAnd \<or> lowop = OpOr" "highop = OpAnd \<or> highop = OpOr" using assms(4) by (auto simp: doubleton_eq_iff)
  obtain ks where ks: "set ks = {..<n}"
    "list_all2 (\<lambda>k u. \<exists>f i. bits f = {2 * k} \<and> bits i = {2 * k + 1} \<and> pair_tree lowop f i u) ks (operands highop t)"
    using assms(1) unfolding rs_shape_def by blast
  have len: "1 \<le> length ks" using length_operands_pos [OF assms(3), of highop] list_all2_lengthD [OF ks(2)] by (simp only:)
  then have "hd ks \<in> set ks" by (intro hd_in_set) auto
  then show "0 < n" unfolding ks(1) by simp
  show "tree_op t = OpAnd \<or> tree_op t = OpOr"
  proof (cases "tree_op t = highop")
    case False
    then have "operands highop t = [t]" by (cases "(highop, t)" rule: operands.cases) auto
    then obtain f i where "pair_tree lowop f i t" using ks(2) by (auto simp: list_all2_Cons2)
    then show ?thesis using pair_tree_op op(1) by metis
  qed (use op in simp)
qed

text \<open>
  With the constants: the number of pairs that the test recognises in a condition of \<open>2n\<close> sets.
\<close>

lemma is_rabin_iff:
  fixes a :: "'n::len cond"
  assumes "cond_inv a" "get_acceptance a = enc t" "tree_ok t" "alternating t"
  shows "is_rabin a = int n \<longleftrightarrow> num_sets a = 2 * n \<and> (n = 0 \<and> t = TFin 0 \<or> rs_shape OpOr OpAnd n t)"
    and "is_streett a = int n \<longleftrightarrow> num_sets a = 2 * n \<and> (n = 0 \<and> (t = TT \<or> t = TInf 0) \<or> rs_shape OpAnd OpOr n t)"
proof -
  have ops: "{OpOr, OpAnd} = {OpAnd, OpOr}" by blast
  have inv: "num_sets a \<le> LENGTH('n)" "bits (all_sets a) = {..<num_sets a}" using assms(1) by (simp_all add: cond_inv_def)
  have t: "is_t (enc t) \<longleftrightarrow> t = TT \<or> t = TInf 0" "is_f (enc t) \<longleftrightarrow> t = TFin 0"
    using is_t_enc [OF assms(3)] is_f_enc [OF assms(3)] by blast+
  have not_shape: "\<not> rs_shape highop lowop n t" if "t = TT \<or> t = TInf 0 \<or> t = TFin 0" "{highop, lowop} = {OpAnd, OpOr}" for highop lowop n
  proof
    assume shape: "rs_shape highop lowop n t"
    show False
    proof (cases "t = TT")
      case True
      then have "operands highop t = [TT]" by simp
      then show False using shape that(2) by (auto simp: rs_shape_def list_all2_Cons2 pair_tree_def mk_node_def True split: if_splits)
    next
      case False
      then have "node_ok t" "alternating t" using that(1) by auto
      from rs_shape_node(2) [OF shape this that(2)] show False using False that(1) by auto
    qed
  qed
  have ok: "node_ok t" if "t \<noteq> TT" using assms(3) that by (simp add: tree_ok_def)
  have rs: "is_rs (enc t) highop lowop (all_sets a) \<longleftrightarrow> rs_shape highop lowop n t"
    if "t \<noteq> TT" "{highop, lowop} = {OpAnd, OpOr}" "num_sets a = 2 * n" for highop lowop n
    using is_rs_shape [OF ok [OF that(1)] assms(4) that(2), of "all_sets a" n] inv that(3) by simp
  have pos: "0 < n" if "rs_shape highop lowop n t" "t \<noteq> TT" "{highop, lowop} = {OpAnd, OpOr}" for highop lowop n
    using rs_shape_node(1) [OF that(1) ok [OF that(2)] assms(4) that(3)] .
  have num: "num_sets a = 2 * n" if "int (num_sets a div 2) = int n" "even (num_sets a)" using that by auto
  show "is_rabin a = int n \<longleftrightarrow> num_sets a = 2 * n \<and> (n = 0 \<and> t = TFin 0 \<or> rs_shape OpOr OpAnd n t)"
  proof (cases "t = TFin 0 \<or> t = TT \<or> t = TInf 0")
    case True
    then show ?thesis using not_shape [of OpOr OpAnd n] ops by (auto simp: is_rabin_def assms(2) t)
  next
    case False
    then have eq: "is_rabin a = (if odd (num_sets a) then -1
        else if is_rs (enc t) OpOr OpAnd (all_sets a) then int (num_sets a div 2) else -1)"
      by (simp add: is_rabin_def assms(2) t)
    show ?thesis
    proof (cases "num_sets a = 2 * n")
      case True
      then show ?thesis unfolding eq using rs [of OpOr OpAnd n] False ops by simp
    next
      case n: False
      then show ?thesis unfolding eq using num by (simp split: if_split) blast?
    qed
  qed
  show "is_streett a = int n \<longleftrightarrow> num_sets a = 2 * n \<and> (n = 0 \<and> (t = TT \<or> t = TInf 0) \<or> rs_shape OpAnd OpOr n t)"
  proof (cases "t = TFin 0 \<or> t = TT \<or> t = TInf 0")
    case True
    then show ?thesis using not_shape [of OpAnd OpOr n] by (auto simp: is_streett_def assms(2) t)
  next
    case False
    then have eq: "is_streett a = (if odd (num_sets a) then -1
        else if is_rs (enc t) OpAnd OpOr (all_sets a) then int (num_sets a div 2) else -1)"
      by (simp add: is_streett_def assms(2) t)
    show ?thesis
    proof (cases "num_sets a = 2 * n")
      case True
      then show ?thesis unfolding eq using rs [of OpAnd OpOr n] False ops by simp
    next
      case n: False
      then show ?thesis unfolding eq using num by (simp split: if_split) blast?
    qed
  qed
qed

text \<open>What a positive answer means for the accepting marks.\<close>

lemma is_rabin_streett_meaning:
  assumes "cond_inv (a :: 'n::len cond)" and "get_acceptance a = enc t" and "tree_ok t" and "plain t"
    and "alternating t"
  shows "(is_rabin a = int n \<longrightarrow> num_sets a = 2 * n \<and>
      (\<forall>m. cond_accepting a m \<longleftrightarrow> (\<exists>i<n. \<not> bit m (2 * i) \<and> bit m (2 * i + 1))))
    \<and> (is_streett a = int n \<longrightarrow> num_sets a = 2 * n \<and>
      (\<forall>m. cond_accepting a m \<longleftrightarrow> (\<forall>i<n. \<not> bit m (2 * i) \<or> bit m (2 * i + 1))))"
proof -
  have inv: "num_sets a \<le> LENGTH('n)" "bits (all_sets a) = {..<num_sets a}" using assms(1) by (simp_all add: cond_inv_def)
  have acc: "cond_accepting a m = tree_sat (bit m) bot t" for m
    using accepting_enc [OF assms(3,4)] assms(2) by (simp add: cond_accepting_def)
  have num: "num_sets a = 2 * n" if "int (num_sets a div 2) = int n" "even (num_sets a)" using that by auto
  have t: "node_ok t" if "\<not> is_t (enc t)" using that assms(3) by (auto simp: tree_ok_def)
  have rabin: "num_sets a = 2 * n \<and> (\<forall>m. cond_accepting a m \<longleftrightarrow> (\<exists>i<n. \<not> bit m (2 * i) \<and> bit m (2 * i + 1)))"
    if r: "is_rabin a = int n"
  proof (cases "is_f (enc t)")
    case True
    then have "n = 0" "num_sets a = 0" using r assms(2) by (auto simp: is_rabin_def split: if_splits)
    then show ?thesis using is_f_enc_sat [OF assms(3) True] acc by simp
  next
    case False
    then have *: "\<not> is_t (enc t)" "is_rs (enc t) OpOr OpAnd (all_sets a)" "num_sets a = 2 * n"
      using r assms(2) num by (auto simp: is_rabin_def split: if_splits)
    then show ?thesis using rs_pairs_meaning(1) [OF *(2) t [OF *(1)] assms(5), of n] inv acc
      by (simp add: doubleton_eq_iff)
  qed
  have streett: "num_sets a = 2 * n \<and> (\<forall>m. cond_accepting a m \<longleftrightarrow> (\<forall>i<n. \<not> bit m (2 * i) \<or> bit m (2 * i + 1)))"
    if r: "is_streett a = int n"
  proof (cases "is_t (enc t)")
    case True
    then have "n = 0" "num_sets a = 0" using r assms(2) by (auto simp: is_streett_def split: if_splits)
    then show ?thesis using is_t_enc_sat [OF assms(3) True] acc by simp
  next
    case False
    then have *: "is_rs (enc t) OpAnd OpOr (all_sets a)" "num_sets a = 2 * n"
      using r assms(2) num by (auto simp: is_streett_def split: if_splits)
    then show ?thesis using rs_pairs_meaning(2) [OF *(1) t [OF False] assms(5), of n] inv acc
      by (simp add: doubleton_eq_iff)
  qed
  from rabin streett show ?thesis by blast
qed

lemma is_rabin_meaning:
  assumes "cond_inv (a :: 'n::len cond)" and "get_acceptance a = enc t" and "tree_ok t" and "plain t"
    and "alternating t"
  shows "is_rabin a = int n \<longrightarrow> num_sets a = 2 * n \<and>
      (\<forall>m. cond_accepting a m \<longleftrightarrow> (\<exists>i<n. \<not> bit m (2 * i) \<and> bit m (2 * i + 1)))"
    and is_streett_meaning: "is_streett a = int n \<longrightarrow> num_sets a = 2 * n \<and>
      (\<forall>m. cond_accepting a m \<longleftrightarrow> (\<forall>i<n. \<not> bit m (2 * i) \<or> bit m (2 * i + 1)))"
  using is_rabin_streett_meaning [OF assms] by blast+

lemma is_rabin_range: "is_rabin a = -1 \<or> (\<exists>n. is_rabin a = int n)" "is_streett a = -1 \<or> (\<exists>n. is_streett a = int n)"
  by (auto simp: is_rabin_def is_streett_def intro: exI [of _ 0])

text \<open>
  Property C29: \<open>is_rabin\<close> and \<open>is_streett\<close> recognise exactly the conditions of their class.  On a
  condition of \<open>2n\<close> sets they return \<open>n\<close> when the formula is a disjunction of conjunctions (for
  Streett, a conjunction of disjunctions) of a \<open>Fin\<close> leaf on the set \<open>2k\<close> and an \<open>Inf\<close> leaf on the set
  \<open>2k + 1\<close>, leaves and pairs in any order and every \<open>k\<close> below \<open>n\<close> present, or the constant \<open>f\<close> (for
  Streett, \<open>t\<close>) without sets; otherwise they return \<open>-1\<close>.  A positive answer \<open>n\<close> means that the condition
  accepts exactly what the Rabin, respectively Streett, condition with \<open>n\<close> pairs accepts.
\<close>

theorem is_rabin_streett_exact:
  assumes "cond_inv (a :: 'n::len cond)" and "get_acceptance a = enc t" and "tree_ok t" and "plain t"
    and "alternating t"
  shows "(is_rabin a = int n \<longleftrightarrow> num_sets a = 2 * n \<and> (n = 0 \<and> t = TFin 0 \<or> rs_shape OpOr OpAnd n t))
    \<and> (is_streett a = int n \<longleftrightarrow> num_sets a = 2 * n \<and> (n = 0 \<and> (t = TT \<or> t = TInf 0) \<or> rs_shape OpAnd OpOr n t))
    \<and> (is_rabin a = -1 \<longleftrightarrow> \<not> (\<exists>k. num_sets a = 2 * k \<and> (k = 0 \<and> t = TFin 0 \<or> rs_shape OpOr OpAnd k t)))
    \<and> (is_streett a = -1 \<longleftrightarrow> \<not> (\<exists>k. num_sets a = 2 * k \<and> (k = 0 \<and> (t = TT \<or> t = TInf 0) \<or> rs_shape OpAnd OpOr k t)))
    \<and> (is_rabin a = int n \<longrightarrow> num_sets a = 2 * n \<and>
      (\<forall>m. cond_accepting a m \<longleftrightarrow> (\<exists>i<n. \<not> bit m (2 * i) \<and> bit m (2 * i + 1))))
    \<and> (is_streett a = int n \<longrightarrow> num_sets a = 2 * n \<and>
      (\<forall>m. cond_accepting a m \<longleftrightarrow> (\<forall>i<n. \<not> bit m (2 * i) \<or> bit m (2 * i + 1))))"
proof -
  note iff = is_rabin_iff [OF assms(1-3,5)]
  have none: "is_rabin a = -1 \<longleftrightarrow> \<not> (\<exists>k. is_rabin a = int k)" "is_streett a = -1 \<longleftrightarrow> \<not> (\<exists>k. is_streett a = int k)"
    using is_rabin_range [of a] by auto
  show ?thesis
  proof (intro conjI)
    show "is_rabin a = -1 \<longleftrightarrow> \<not> (\<exists>k. num_sets a = 2 * k \<and> (k = 0 \<and> t = TFin 0 \<or> rs_shape OpOr OpAnd k t))"
      unfolding none iff ..
    show "is_streett a = -1 \<longleftrightarrow> \<not> (\<exists>k. num_sets a = 2 * k \<and> (k = 0 \<and> (t = TT \<or> t = TInf 0) \<or> rs_shape OpAnd OpOr k t))"
      unfolding none iff ..
  qed (rule iff is_rabin_meaning [OF assms] is_streett_meaning [OF assms])+
qed

theorem is_rabin_streett_exact_witness:
  "is_rabin \<lparr>num_sets = 2, all_sets = 3 :: 32 mark_t, get_acceptance = enc (TAnd [TInf 2, TFin 1]), uses_fin_acceptance = True\<rparr> = 1
    \<and> is_streett \<lparr>num_sets = 2, all_sets = 3 :: 32 mark_t, get_acceptance = enc (TAnd [TInf 2, TFin 1]), uses_fin_acceptance = True\<rparr> = -1"
proof -
  let ?t = "TAnd [TInf 2, TFin (1 :: 32 mark_t)]"
  let ?a = "\<lparr>num_sets = 2, all_sets = 3 :: 32 mark_t, get_acceptance = enc ?t, uses_fin_acceptance = True\<rparr>"
  have "bits (3 :: 32 mark_t) = bits (mask 2 :: 32 mark_t)" by (simp add: mask_eq_exp_minus_1)
  then have "bits (3 :: 32 mark_t) = {..<2}" by (simp add: set_eq_iff bit_mask_iff) linarith
  then have "cond_inv ?a" by (simp add: cond_inv_def check_fin_acceptance_def)
  note exact = is_rabin_streett_exact [OF this, of ?t]
  have b: "bits (1 :: 32 mark_t) = {0}" "bits (2 :: 32 mark_t) = {1}"
    using bits_exp [of 0, where 'n = 32] bits_exp [of 1, where 'n = 32] by simp_all
  have "rs_shape OpOr OpAnd 1 ?t"
    unfolding rs_shape_def by (intro exI [of _ "[0]"]) (auto simp: pair_tree_def mk_node_def b)
  moreover have "\<not> rs_shape OpAnd OpOr k ?t" for k
    unfolding rs_shape_def by (auto simp: pair_tree_def mk_node_def list_all2_Cons2)
  ultimately show ?thesis using exact [of 1] by (simp add: tree_ok_def)
qed

end
