(* ===== verification/Formula.thy ===== *)
theory Formula
  imports Prelude
begin

text \<open>
  Temporal formulas: the class \<open>fnode\<close> of tl/formula.hh and tl/formula.cc.

  The enumeration \<open>op\<close> is split along the arities the code switches on (unary, binary, n-ary and
  star-like operators), so that each node has the children its operator expects.  Nodes are
  hash-consed in the source: two equal formulas are the same pointer, so that the pointer
  comparisons of the source are equality here.  The order used to sort operands looks at the
  identifiers given to nodes at creation; every operation that sorts takes that order as its
  argument \<open>lt\<close>.  Reference counting is not part of the model.
\<close>

section \<open>Nodes\<close>

datatype unary = UNot | UX | UF | UG | UClosure | UNegClosure | UNegClosureMarked | UFirstMatch | UStrongX
datatype binary = BXor | BImplies | BEquiv | BU | BR | BW | BM | BEConcat | BEConcatMarked | BUConcat
datatype multi = MOr | MOrRat | MAnd | MAndRat | MAndNLM | MConcat | MFusion
datatype star = SStar | SFStar

datatype fnode =
    ff
  | tt
  | eword
  | ap string
  | Unary unary fnode
  | Binary binary fnode fnode
  | Multi multi "fnode list"
  | Starred star fnode nat nat

text \<open>Bounds of the star operators are bytes; 255 stands for a missing upper bound.\<close>

definition unbounded :: nat where
  "unbounded = 255"

definition u8 :: "nat \<Rightarrow> nat" where
  "u8 n = n mod 256"

fun children_of :: "fnode \<Rightarrow> fnode list" where
  "children_of (Unary o1 f) = [f]"
| "children_of (Binary o2 f g) = [f, g]"
| "children_of (Multi on fs) = fs"
| "children_of (Starred os f mn mx) = [f]"
| "children_of f = []"

fun is_multi :: "multi \<Rightarrow> fnode \<Rightarrow> bool" where
  "is_multi on (Multi on' fs) = (on' = on)"
| "is_multi on f = False"

definition is_constant :: "fnode \<Rightarrow> bool" where
  "is_constant f = (f = ff \<or> f = tt \<or> f = eword)"

fun is_Kleene_star :: "fnode \<Rightarrow> bool" where
  "is_Kleene_star (Starred SStar f mn mx) = (mn = 0 \<and> mx = unbounded)"
| "is_Kleene_star f = False"

fun is_ap :: "fnode \<Rightarrow> bool" where
  "is_ap (ap a) = True"
| "is_ap f = False"

section \<open>Properties computed when a node is built\<close>

record ltl_prop =
  p_boolean :: bool
  p_sugar_free_boolean :: bool
  p_in_nenoform :: bool
  p_syntactic_si :: bool
  p_sugar_free_ltl :: bool
  p_ltl_formula :: bool
  p_psl_formula :: bool
  p_sere_formula :: bool
  p_finite :: bool
  p_eventual :: bool
  p_universal :: bool
  p_syntactic_safety :: bool
  p_syntactic_guarantee :: bool
  p_syntactic_obligation :: bool
  p_syntactic_recurrence :: bool
  p_syntactic_persistence :: bool
  p_not_marked :: bool
  p_accepting_eword :: bool
  p_lbt_atomic_props :: bool
  p_spin_atomic_props :: bool

text \<open>The conjunction of two property words (\<open>props & props\<close>).\<close>

definition props_and :: "ltl_prop \<Rightarrow> ltl_prop \<Rightarrow> ltl_prop" where
  "props_and p q = \<lparr>
     p_boolean = (p_boolean p \<and> p_boolean q),
     p_sugar_free_boolean = (p_sugar_free_boolean p \<and> p_sugar_free_boolean q),
     p_in_nenoform = (p_in_nenoform p \<and> p_in_nenoform q),
     p_syntactic_si = (p_syntactic_si p \<and> p_syntactic_si q),
     p_sugar_free_ltl = (p_sugar_free_ltl p \<and> p_sugar_free_ltl q),
     p_ltl_formula = (p_ltl_formula p \<and> p_ltl_formula q),
     p_psl_formula = (p_psl_formula p \<and> p_psl_formula q),
     p_sere_formula = (p_sere_formula p \<and> p_sere_formula q),
     p_finite = (p_finite p \<and> p_finite q),
     p_eventual = (p_eventual p \<and> p_eventual q),
     p_universal = (p_universal p \<and> p_universal q),
     p_syntactic_safety = (p_syntactic_safety p \<and> p_syntactic_safety q),
     p_syntactic_guarantee = (p_syntactic_guarantee p \<and> p_syntactic_guarantee q),
     p_syntactic_obligation = (p_syntactic_obligation p \<and> p_syntactic_obligation q),
     p_syntactic_recurrence = (p_syntactic_recurrence p \<and> p_syntactic_recurrence q),
     p_syntactic_persistence = (p_syntactic_persistence p \<and> p_syntactic_persistence q),
     p_not_marked = (p_not_marked p \<and> p_not_marked q),
     p_accepting_eword = (p_accepting_eword p \<and> p_accepting_eword q),
     p_lbt_atomic_props = (p_lbt_atomic_props p \<and> p_lbt_atomic_props q),
     p_spin_atomic_props = (p_spin_atomic_props p \<and> p_spin_atomic_props q)\<rparr>"

text \<open>Leaves.\<close>

definition const_props :: ltl_prop where
  "const_props = \<lparr>p_boolean = True, p_sugar_free_boolean = True, p_in_nenoform = True,
     p_syntactic_si = True, p_sugar_free_ltl = True, p_ltl_formula = True, p_psl_formula = True,
     p_sere_formula = True, p_finite = True, p_eventual = True, p_universal = True,
     p_syntactic_safety = True, p_syntactic_guarantee = True, p_syntactic_obligation = True,
     p_syntactic_recurrence = True, p_syntactic_persistence = True, p_not_marked = True,
     p_accepting_eword = False, p_lbt_atomic_props = True, p_spin_atomic_props = True\<rparr>"

definition eword_props :: ltl_prop where
  "eword_props = \<lparr>p_boolean = False, p_sugar_free_boolean = False, p_in_nenoform = True,
     p_syntactic_si = True, p_sugar_free_ltl = True, p_ltl_formula = False, p_psl_formula = False,
     p_sere_formula = True, p_finite = True, p_eventual = False, p_universal = False,
     p_syntactic_safety = False, p_syntactic_guarantee = False, p_syntactic_obligation = False,
     p_syntactic_recurrence = False, p_syntactic_persistence = False, p_not_marked = True,
     p_accepting_eword = True, p_lbt_atomic_props = True, p_spin_atomic_props = True\<rparr>"

text \<open>The character classes of the C locale.\<close>

definition c_isdigit :: "char \<Rightarrow> bool" where
  "c_isdigit c = (48 \<le> (of_char c :: nat) \<and> (of_char c :: nat) \<le> 57)"

definition c_islower :: "char \<Rightarrow> bool" where
  "c_islower c = (97 \<le> (of_char c :: nat) \<and> (of_char c :: nat) \<le> 122)"

definition c_isupper :: "char \<Rightarrow> bool" where
  "c_isupper c = (65 \<le> (of_char c :: nat) \<and> (of_char c :: nat) \<le> 90)"

definition c_isalpha :: "char \<Rightarrow> bool" where
  "c_isalpha c = (c_islower c \<or> c_isupper c)"

definition c_isalnum :: "char \<Rightarrow> bool" where
  "c_isalnum c = (c_isalpha c \<or> c_isdigit c)"

fun is_spin_ap :: "string \<Rightarrow> bool" where
  "is_spin_ap [] = False"
| "is_spin_ap (c # cs) = (c_islower c \<and> list_all (\<lambda>d. c_isalnum d \<or> d = CHR ''_'') cs)"

fun is_lbt_ap :: "string \<Rightarrow> bool" where
  "is_lbt_ap [] = False"
| "is_lbt_ap (c # cs) = (c = CHR ''p'' \<and> list_all c_isdigit cs)"

definition ap_props :: "string \<Rightarrow> ltl_prop" where
  "ap_props n = \<lparr>p_boolean = True, p_sugar_free_boolean = True, p_in_nenoform = True,
     p_syntactic_si = True, p_sugar_free_ltl = True, p_ltl_formula = True, p_psl_formula = True,
     p_sere_formula = True, p_finite = True, p_eventual = False, p_universal = False,
     p_syntactic_safety = True, p_syntactic_guarantee = True, p_syntactic_obligation = True,
     p_syntactic_recurrence = True, p_syntactic_persistence = True, p_not_marked = True,
     p_accepting_eword = False, p_lbt_atomic_props = is_lbt_ap n,
     p_spin_atomic_props = (is_lbt_ap n \<or> is_spin_ap n)\<rparr>"

text \<open>Unary nodes; the child is needed because negation looks at the operator below it.\<close>

definition unary_props :: "unary \<Rightarrow> fnode \<Rightarrow> ltl_prop \<Rightarrow> ltl_prop" where
  "unary_props o1 f p = (case o1 of
     UNot \<Rightarrow> p\<lparr>p_not_marked := True, p_eventual := p_universal p, p_universal := p_eventual p,
       p_in_nenoform := is_ap f, p_sere_formula := p_boolean p,
       p_syntactic_safety := p_syntactic_guarantee p, p_syntactic_guarantee := p_syntactic_safety p,
       p_syntactic_recurrence := p_syntactic_persistence p,
       p_syntactic_persistence := p_syntactic_recurrence p, p_accepting_eword := False\<rparr>
   | UX \<Rightarrow> p\<lparr>p_not_marked := True, p_boolean := False, p_syntactic_si := False,
       p_sere_formula := False, p_accepting_eword := False\<rparr>
   | UStrongX \<Rightarrow> p\<lparr>p_not_marked := True, p_boolean := False, p_syntactic_si := False,
       p_sere_formula := False, p_accepting_eword := False\<rparr>
   | UF \<Rightarrow> p\<lparr>p_not_marked := True, p_boolean := False, p_sere_formula := False, p_finite := False,
       p_sugar_free_ltl := False, p_eventual := True, p_syntactic_safety := False,
       p_syntactic_obligation := p_syntactic_guarantee p,
       p_syntactic_recurrence := p_syntactic_guarantee p, p_accepting_eword := False\<rparr>
   | UG \<Rightarrow> p\<lparr>p_not_marked := True, p_boolean := False, p_sere_formula := False, p_finite := False,
       p_sugar_free_ltl := False, p_universal := True, p_syntactic_guarantee := False,
       p_syntactic_obligation := p_syntactic_safety p,
       p_syntactic_persistence := p_syntactic_safety p, p_accepting_eword := False\<rparr>
   | UClosure \<Rightarrow> p\<lparr>p_not_marked := True, p_boolean := False, p_ltl_formula := False,
       p_psl_formula := True, p_sere_formula := False, p_syntactic_safety := True,
       p_syntactic_guarantee := p_finite p, p_syntactic_obligation := True,
       p_syntactic_recurrence := True, p_syntactic_persistence := True, p_accepting_eword := False\<rparr>
   | UFirstMatch \<Rightarrow> p\<lparr>p_syntactic_si := False, p_boolean := False, p_ltl_formula := False,
       p_psl_formula := False, p_eventual := False, p_universal := False,
       p_syntactic_safety := False, p_syntactic_guarantee := False, p_syntactic_obligation := False,
       p_syntactic_recurrence := False, p_syntactic_persistence := False\<rparr>
   | _ \<Rightarrow> p\<lparr>p_not_marked := (o1 = UNegClosure), p_boolean := False, p_ltl_formula := False,
       p_psl_formula := True, p_sere_formula := False, p_syntactic_safety := p_finite p,
       p_syntactic_guarantee := True, p_syntactic_obligation := True,
       p_syntactic_recurrence := True, p_syntactic_persistence := True, p_accepting_eword := False\<rparr>)"

text \<open>Binary nodes; the children are needed for the comparisons with the constants.\<close>

definition xor_props :: "ltl_prop \<Rightarrow> ltl_prop" where
  "xor_props q =
    (let q = q\<lparr>p_eventual := False, p_universal := False, p_sere_formula := p_boolean q,
           p_sugar_free_boolean := False, p_in_nenoform := False, p_accepting_eword := False\<rparr>
     in if p_syntactic_obligation q
        then let sg = p_syntactic_safety q \<and> p_syntactic_guarantee q
             in q\<lparr>p_syntactic_safety := sg, p_syntactic_guarantee := sg\<rparr>
        else q\<lparr>p_syntactic_safety := False, p_syntactic_guarantee := False,
               p_syntactic_recurrence := False, p_syntactic_persistence := False\<rparr>)"

definition implies_props :: "ltl_prop \<Rightarrow> ltl_prop \<Rightarrow> ltl_prop" where
  "implies_props l r = (props_and l r)\<lparr>p_eventual := False, p_universal := False,
     p_sere_formula := p_boolean l \<and> p_sere_formula r,
     p_sugar_free_boolean := False, p_in_nenoform := False,
     p_syntactic_safety := p_syntactic_guarantee l \<and> p_syntactic_safety r,
     p_syntactic_guarantee := p_syntactic_safety l \<and> p_syntactic_guarantee r,
     p_syntactic_persistence := p_syntactic_recurrence l \<and> p_syntactic_persistence r,
     p_syntactic_recurrence := p_syntactic_persistence l \<and> p_syntactic_recurrence r,
     p_accepting_eword := False\<rparr>"

definition econcat_props :: "bool \<Rightarrow> ltl_prop \<Rightarrow> ltl_prop \<Rightarrow> ltl_prop" where
  "econcat_props marked l r = (props_and l r)\<lparr>p_not_marked := \<not> marked, p_ltl_formula := False,
     p_boolean := False, p_sere_formula := False, p_accepting_eword := False, p_psl_formula := True,
     p_syntactic_guarantee := p_syntactic_guarantee r,
     p_syntactic_persistence := p_syntactic_persistence r,
     p_syntactic_safety := p_finite l \<and> p_syntactic_safety r,
     p_syntactic_obligation := (if p_finite l then p_syntactic_obligation r else p_syntactic_guarantee r),
     p_syntactic_recurrence := (if p_finite l then p_syntactic_recurrence r else p_syntactic_guarantee r),
     p_syntactic_si := \<not> p_boolean l \<and> p_syntactic_si l \<and> p_syntactic_si r\<rparr>"

definition uconcat_props :: "ltl_prop \<Rightarrow> ltl_prop \<Rightarrow> ltl_prop" where
  "uconcat_props l r = (props_and l r)\<lparr>p_not_marked := True, p_ltl_formula := False,
     p_boolean := False, p_sere_formula := False, p_accepting_eword := False, p_psl_formula := True,
     p_syntactic_safety := p_syntactic_safety r,
     p_syntactic_recurrence := p_syntactic_recurrence r,
     p_syntactic_guarantee := p_finite l \<and> p_syntactic_guarantee r,
     p_syntactic_obligation := (if p_finite l then p_syntactic_obligation r else p_syntactic_safety r),
     p_syntactic_persistence := (if p_finite l then p_syntactic_persistence r else p_syntactic_safety r),
     p_syntactic_si := \<not> p_boolean l \<and> p_syntactic_si l \<and> p_syntactic_si r\<rparr>"

definition until_props :: "ltl_prop \<Rightarrow> ltl_prop \<Rightarrow> ltl_prop" where
  "until_props l r = (props_and l r)\<lparr>p_not_marked := True, p_boolean := False,
     p_sere_formula := False, p_finite := False, p_accepting_eword := False\<rparr>"

definition binary_props :: "binary \<Rightarrow> fnode \<Rightarrow> fnode \<Rightarrow> ltl_prop \<Rightarrow> ltl_prop \<Rightarrow> ltl_prop" where
  "binary_props o2 f g l r = (case o2 of
     BXor \<Rightarrow> xor_props (props_and l r)
   | BEquiv \<Rightarrow> xor_props (props_and l r)
   | BImplies \<Rightarrow> implies_props l r
   | BEConcat \<Rightarrow> econcat_props False l r
   | BEConcatMarked \<Rightarrow> econcat_props True l r
   | BUConcat \<Rightarrow> uconcat_props l r
   | BU \<Rightarrow> (until_props l r)\<lparr>p_eventual := p_eventual r \<or> f = tt, p_syntactic_safety := False,
       p_syntactic_obligation := p_syntactic_obligation l \<and> p_syntactic_guarantee r,
       p_syntactic_recurrence := p_syntactic_recurrence l \<and> p_syntactic_guarantee r\<rparr>
   | BW \<Rightarrow> (until_props l r)\<lparr>p_universal := (p_universal l \<and> p_universal r) \<or> g = ff,
       p_syntactic_guarantee := False,
       p_syntactic_obligation := p_syntactic_safety l \<and> p_syntactic_obligation r,
       p_syntactic_persistence := p_syntactic_safety l \<and> p_syntactic_persistence r\<rparr>
   | BR \<Rightarrow> (until_props l r)\<lparr>p_universal := p_universal r \<or> f = ff,
       p_syntactic_guarantee := False,
       p_syntactic_obligation := p_syntactic_obligation l \<and> p_syntactic_safety r,
       p_syntactic_persistence := p_syntactic_persistence l \<and> p_syntactic_safety r\<rparr>
   | BM \<Rightarrow> (until_props l r)\<lparr>p_eventual := (p_eventual l \<and> p_eventual r) \<or> g = tt,
       p_syntactic_safety := False,
       p_syntactic_obligation := p_syntactic_guarantee l \<and> p_syntactic_obligation r,
       p_syntactic_recurrence := p_syntactic_guarantee l \<and> p_syntactic_recurrence r\<rparr>)"

text \<open>
  N-ary nodes.  A concatenation is counted as stutter invariant when all operands but one are
  starred Boolean formulas; each operand is described by its properties and, for a Kleene star,
  by the properties of the starred formula.
\<close>

fun starred_booleans :: "nat \<Rightarrow> (ltl_prop \<times> ltl_prop option) list \<Rightarrow> nat" where
  "starred_booleans sb [] = sb"
| "starred_booleans sb ((p, Some q) # cs) = starred_booleans (sb + of_bool (p_boolean q)) cs"
| "starred_booleans sb ((p, None) # cs) =
     (if \<not> p_syntactic_si p \<or> p_boolean p then 0 else starred_booleans sb cs)"

fun props_and_list :: "ltl_prop list \<Rightarrow> ltl_prop" where
  "props_and_list [] = eword_props"
| "props_and_list (p # ps) = foldl props_and p ps"

definition rational_props :: "ltl_prop list \<Rightarrow> ltl_prop" where
  "rational_props ps = (props_and_list ps)\<lparr>p_boolean := False, p_ltl_formula := False,
     p_psl_formula := False, p_eventual := False, p_universal := False,
     p_syntactic_si := list_all (\<lambda>p. p_syntactic_si p \<and> \<not> p_boolean p) ps\<rparr>"

definition multi_props :: "multi \<Rightarrow> (ltl_prop \<times> ltl_prop option) list \<Rightarrow> ltl_prop" where
  "multi_props on cs = (let ps = map fst cs in case on of
     MOr \<Rightarrow> (props_and_list ps)\<lparr>p_accepting_eword := list_ex p_accepting_eword ps\<rparr>
   | MOrRat \<Rightarrow> (rational_props ps)\<lparr>p_accepting_eword := list_ex p_accepting_eword ps\<rparr>
   | MAnd \<Rightarrow> props_and_list ps
   | MFusion \<Rightarrow> (rational_props ps)\<lparr>p_accepting_eword := False\<rparr>
   | MConcat \<Rightarrow> (rational_props ps)\<lparr>p_syntactic_si := starred_booleans 0 cs \<ge> length cs - 1\<rparr>
   | _ \<Rightarrow> rational_props ps)"

definition star_props :: "star \<Rightarrow> nat \<Rightarrow> nat \<Rightarrow> ltl_prop \<Rightarrow> ltl_prop" where
  "star_props os mn mx p =
    (let q = p\<lparr>p_boolean := False, p_ltl_formula := False, p_psl_formula := False,
           p_eventual := False, p_universal := False, p_syntactic_safety := False,
           p_syntactic_guarantee := False, p_syntactic_obligation := False,
           p_syntactic_recurrence := False, p_syntactic_persistence := False,
           p_finite := p_finite p \<and> mx \<noteq> unbounded\<rparr>
     in case os of
        SStar \<Rightarrow> q\<lparr>p_syntactic_si := mx = unbounded \<and> mn \<le> 1 \<and> p_boolean p,
                  p_accepting_eword := mn = 0 \<or> p_accepting_eword p\<rparr>
      | SFStar \<Rightarrow> q\<lparr>p_syntactic_si := p_syntactic_si p \<and> \<not> p_boolean p \<and> mn \<noteq> 0,
                   p_accepting_eword := False\<rparr>)"

declare fnode.case_cong [fundef_cong]

fun setup_props :: "fnode \<Rightarrow> ltl_prop" where
  "setup_props ff = const_props"
| "setup_props tt = const_props"
| "setup_props eword = eword_props"
| "setup_props (ap n) = ap_props n"
| "setup_props (Unary o1 f) = unary_props o1 f (setup_props f)"
| "setup_props (Binary o2 f g) = binary_props o2 f g (setup_props f) (setup_props g)"
| "setup_props (Multi on fs) =
     multi_props on (map (\<lambda>f. (setup_props f,
       case f of Starred os g mn mx \<Rightarrow> if is_Kleene_star f then Some (setup_props g) else None
       | _ \<Rightarrow> None)) fs)"
| "setup_props (Starred os f mn mx) = star_props os mn mx (setup_props f)"

definition is_boolean :: "fnode \<Rightarrow> bool" where
  "is_boolean f = p_boolean (setup_props f)"

definition accepts_eword :: "fnode \<Rightarrow> bool" where
  "accepts_eword f = p_accepting_eword (setup_props f)"

abbreviation is_eventual :: "fnode \<Rightarrow> bool" where "is_eventual f \<equiv> p_eventual (setup_props f)"
abbreviation is_universal :: "fnode \<Rightarrow> bool" where "is_universal f \<equiv> p_universal (setup_props f)"
abbreviation is_finite :: "fnode \<Rightarrow> bool" where "is_finite f \<equiv> p_finite (setup_props f)"

section \<open>Construction with the trivial identities\<close>

subsection \<open>Star-like operators\<close>

definition bunop :: "star \<Rightarrow> fnode \<Rightarrow> nat \<Rightarrow> nat \<Rightarrow> fnode" where
  "bunop os child mn mx =
    (let neutral = (case os of SStar \<Rightarrow> eword | SFStar \<Rightarrow> tt) in
     if child = eword
     then (case os of SStar \<Rightarrow> neutral | SFStar \<Rightarrow> if mn = 0 then neutral else ff)
     else if child = ff \<or> (os = SFStar \<and> is_boolean child)
     then (if mn = 0 then neutral else child)
     else if mx = 0 then neutral
     else if mn = 1 \<and> mx = 1 \<and> (os = SStar \<or> \<not> accepts_eword child) then child
     else case child of
       Starred os' exp i j \<Rightarrow>
         if os' = os then
           if j = unbounded then Starred os exp (u8 (mn * i)) unbounded
           else if i * (mn + 1) \<le> j * mn + 1
           then Starred os exp (u8 (mn * i)) (if mx \<noteq> unbounded then u8 (mx * j) else mx)
           else Starred os child mn mx
         else Starred os child mn mx
     | _ \<Rightarrow> Starred os child mn mx)"

definition one_star :: fnode where
  "one_star = bunop SStar tt 0 unbounded"

subsection \<open>Unary operators\<close>

function unop :: "unary \<Rightarrow> fnode \<Rightarrow> fnode" where
  "unop UF f = (case f of Unary UF g \<Rightarrow> f | ff \<Rightarrow> f | tt \<Rightarrow> f | _ \<Rightarrow> Unary UF f)"
| "unop UG f = (case f of Unary UG g \<Rightarrow> f | ff \<Rightarrow> f | tt \<Rightarrow> f | _ \<Rightarrow> Unary UG f)"
| "unop UNot f =
     (case f of
        tt \<Rightarrow> ff
      | ff \<Rightarrow> tt
      | eword \<Rightarrow> bunop SStar tt 1 unbounded
      | Unary UNot g \<Rightarrow> g
      | Unary UClosure g \<Rightarrow> unop UNegClosure g
      | Unary UNegClosure g \<Rightarrow> unop UClosure g
      | Unary UNegClosureMarked g \<Rightarrow> unop UClosure g
      | _ \<Rightarrow> Unary UNot f)"
| "unop UX f = (if f = tt then f else Unary UX f)"
| "unop UStrongX f = (if f = ff then f else Unary UStrongX f)"
| "unop UClosure f = (if is_boolean f then f else if f = eword then ff else Unary UClosure f)"
| "unop UNegClosure f =
     (if f = tt then ff else if f = ff \<or> f = eword then tt
      else if is_boolean f then unop UNot f else Unary UNegClosure f)"
| "unop UNegClosureMarked f =
     (if f = tt then ff else if f = ff \<or> f = eword then tt
      else if is_boolean f then unop UNot f else Unary UNegClosureMarked f)"
| "unop UFirstMatch f =
     (if (case f of Unary UFirstMatch g \<Rightarrow> True | _ \<Rightarrow> False) \<or> is_boolean f then f
      else if accepts_eword f then eword else Unary UFirstMatch f)"
  by pat_completeness auto
termination by (relation "measure (\<lambda>(o1, f). 2 * size f + (if o1 = UNot then 0 else 1))") auto

subsection \<open>N-ary operators\<close>

text \<open>Operands of the same kind are inlined, and the operands of commutative operators sorted.\<close>

definition inline_operands :: "multi \<Rightarrow> fnode list \<Rightarrow> fnode list" where
  "inline_operands on v = concat (map (\<lambda>f. if is_multi on f then children_of f else [f]) v)"

definition operand_list :: "(fnode \<Rightarrow> fnode \<Rightarrow> bool) \<Rightarrow> multi \<Rightarrow> fnode list \<Rightarrow> fnode list" where
  "operand_list lt on v =
    (if on = MConcat \<or> on = MFusion then inline_operands on v
     else sort_by lt (inline_operands on v))"

text \<open>The constants each operator ignores or is absorbed by.\<close>

fun neutral :: "multi \<Rightarrow> fnode" where
  "neutral MAnd = tt"
| "neutral MAndRat = one_star"
| "neutral MAndNLM = eword"
| "neutral MOr = ff"
| "neutral MOrRat = ff"
| "neutral MConcat = eword"
| "neutral MFusion = tt"

fun absorbent :: "multi \<Rightarrow> fnode" where
  "absorbent MOr = tt"
| "absorbent MOrRat = one_star"
| "absorbent on = ff"

fun absorbent2 :: "multi \<Rightarrow> fnode option" where
  "absorbent2 MFusion = Some eword"
| "absorbent2 on = None"

text \<open>Boolean operands are gathered in front (the argument \<open>mk\<close> builds their conjunction or
  disjunction).\<close>

definition gather_bool :: "(fnode list \<Rightarrow> fnode) \<Rightarrow> fnode list \<Rightarrow> fnode list" where
  "gather_bool mk v =
    (let b = filter is_boolean v; r = filter (\<lambda>f. \<not> is_boolean f) v
     in if b \<noteq> [] then mk b # r else r)"

text \<open>In a concatenation, a range of operands that accept the empty word collapses to 1[*] when
  it contains 1[*].\<close>

function absorb_star :: "fnode list \<Rightarrow> fnode list" where
  "absorb_star [] = []"
| "absorb_star (f # fs) =
     (if \<not> accepts_eword f then f # absorb_star fs
      else let run = f # takeWhile accepts_eword fs; rest = dropWhile accepts_eword fs
           in (if one_star \<in> set run then [one_star] else run) @ absorb_star rest)"
  by pat_completeness auto
termination by (relation "measure length") (auto simp: less_Suc_eq_le length_dropWhile_le)

text \<open>In a fusion, adjacent Boolean operands are replaced by their conjunction.\<close>

function fuse_bools :: "(fnode list \<Rightarrow> fnode) \<Rightarrow> fnode list \<Rightarrow> fnode list" where
  "fuse_bools mk [] = []"
| "fuse_bools mk (f # fs) =
     (if \<not> is_boolean f then f # fuse_bools mk fs
      else let run = takeWhile is_boolean fs
           in if run = [] then f # fuse_bools mk fs
              else mk (f # run) # fuse_bools mk (dropWhile is_boolean fs))"
  by pat_completeness auto
termination by (relation "measure (\<lambda>(mk, fs). length fs)") (auto simp: less_Suc_eq_le length_dropWhile_le)

text \<open>
  The loop that drops neutral operands and, for the commutative operators, repeated ones;
  \<open>None\<close> when an absorbent operand is met.
\<close>

fun scan_operands :: "multi \<Rightarrow> fnode option \<Rightarrow> fnode list \<Rightarrow> fnode list option" where
  "scan_operands on prev [] = Some []"
| "scan_operands on prev (f # fs) =
     (if f = neutral on \<or> Some f = prev then scan_operands on prev fs
      else if f = absorbent on \<or> Some f = absorbent2 on then None
      else map_option ((#) f)
             (scan_operands on (if on \<noteq> MConcat \<and> on \<noteq> MFusion then Some f else prev) fs))"

text \<open>
  Consecutive occurrences of a starable operand are merged.  The bounds are summed as unsigned
  integers and truncated to a byte when the new star is built.
\<close>

fun star_view :: "star \<Rightarrow> fnode \<Rightarrow> fnode \<times> nat \<times> nat" where
  "star_view os (Starred os' g mn mx) = (if os' = os then (g, mn, mx) else (Starred os' g mn mx, 1, 1))"
| "star_view os f = (f, 1, 1)"

definition add_bound :: "nat \<Rightarrow> nat \<Rightarrow> nat" where
  "add_bound m m2 = (if m2 = unbounded then unbounded else if m \<noteq> unbounded then m + m2 else m)"

fun merge_run :: "star \<Rightarrow> fnode \<Rightarrow> nat \<Rightarrow> nat \<Rightarrow> bool \<Rightarrow> fnode list \<Rightarrow> (nat \<times> nat \<times> bool) \<times> fnode list" where
  "merge_run os f mn mx changed [] = ((mn, mx, changed), [])"
| "merge_run os f mn mx changed (h # hs) =
     (case star_view os h of (f2, mn2, mx2) \<Rightarrow>
        if f2 \<noteq> f then ((mn, mx, changed), h # hs)
        else merge_run os f (add_bound mn mn2) (add_bound mx mx2) True hs)"

lemma merge_run_shorter [termination_simp]:
  "length (snd (merge_run os f mn mx ch hs)) \<le> length hs"
  by (induction hs arbitrary: mn mx ch) (auto split: prod.splits intro: le_SucI)

function merge_stars :: "star \<Rightarrow> fnode list \<Rightarrow> fnode list" where
  "merge_stars os [] = []"
| "merge_stars os (h # hs) =
     (case star_view os h of (f, mn, mx) \<Rightarrow>
        let r = merge_run os f mn mx False hs; b = fst r
        in (if snd (snd b) then bunop os f (u8 (fst b)) (u8 (fst (snd b))) else h)
             # merge_stars os (snd r))"
  by pat_completeness auto
termination
  by (relation "measure (\<lambda>(os, hs). length hs)") (auto simp: less_Suc_eq_le merge_run_shorter)

text \<open>What remains once the operands have been prepared.\<close>

definition finish_multop :: "multi \<Rightarrow> nat \<Rightarrow> fnode list \<Rightarrow> fnode" where
  "finish_multop on orig_size v =
    (case v of
       [] \<Rightarrow> neutral on
     | [res] \<Rightarrow> if on \<noteq> MFusion \<or> orig_size = 1 \<or> \<not> accepts_eword res then res
               else Multi on [tt, res]
     | _ \<Rightarrow> Multi on v)"

definition reduce_operands :: "multi \<Rightarrow> nat \<Rightarrow> fnode list \<Rightarrow> fnode" where
  "reduce_operands on orig_size v =
    (case scan_operands on None v of
       None \<Rightarrow> absorbent on
     | Some v \<Rightarrow>
         if on = MAndRat \<and> eword \<in> set v
         then if list_all accepts_eword v then eword else absorbent on
         else if on = MAndNLM \<and> tt \<in> set v
         then let tmp = filter (\<lambda>f. f \<noteq> tt \<and> \<not> accepts_eword f) v
              in finish_multop on orig_size (if tmp = [] then [tt] else tmp)
         else if on = MConcat then finish_multop on orig_size (merge_stars SStar v)
         else if on = MFusion then finish_multop on orig_size (merge_stars SFStar v)
         else finish_multop on orig_size v)"

function multop :: "(fnode \<Rightarrow> fnode \<Rightarrow> bool) \<Rightarrow> multi \<Rightarrow> fnode list \<Rightarrow> fnode" where
  "multop lt MAnd v = (let v = operand_list lt MAnd v in reduce_operands MAnd (length v) v)"
| "multop lt MOr v = (let v = operand_list lt MOr v in reduce_operands MOr (length v) v)"
| "multop lt MAndRat v =
     (let v = operand_list lt MAndRat v
      in reduce_operands MAndRat (length v) (gather_bool (multop lt MAnd) v))"
| "multop lt MAndNLM v =
     (let v = operand_list lt MAndNLM v
      in reduce_operands MAndNLM (length v) (gather_bool (multop lt MAnd) v))"
| "multop lt MOrRat v =
     (let v = operand_list lt MOrRat v
      in reduce_operands MOrRat (length v) (gather_bool (multop lt MOr) v))"
| "multop lt MConcat v =
     (let v = operand_list lt MConcat v in reduce_operands MConcat (length v) (absorb_star v))"
| "multop lt MFusion v =
     (let v = operand_list lt MFusion v
      in reduce_operands MFusion (length v) (fuse_bools (multop lt MAnd) v))"
  by pat_completeness auto
termination by (relation "measure (\<lambda>(lt, on, v). if on = MAnd \<or> on = MOr then 0 else 1)") auto

subsection \<open>Binary operators\<close>

definition sorted_pair :: "(fnode \<Rightarrow> fnode \<Rightarrow> bool) \<Rightarrow> fnode \<Rightarrow> fnode \<Rightarrow> fnode \<times> fnode" where
  "sorted_pair lt f g = (if lt g f then (g, f) else (f, g))"

fun binop :: "(fnode \<Rightarrow> fnode \<Rightarrow> bool) \<Rightarrow> binary \<Rightarrow> fnode \<Rightarrow> fnode \<Rightarrow> fnode" where
  "binop lt BXor f g =
     (case sorted_pair lt f g of (first, second) \<Rightarrow>
        if first = tt then unop UNot second
        else if first = ff then second
        else if first = second then ff
        else Binary BXor first second)"
| "binop lt BEquiv f g =
     (case sorted_pair lt f g of (first, second) \<Rightarrow>
        if first = ff then unop UNot second
        else if first = tt then second
        else if first = second then tt
        else Binary BEquiv first second)"
| "binop lt BImplies first second =
     (if first = tt then second
      else if first = ff then tt
      else if second = tt then second
      else if second = ff then unop UNot first
      else if first = second then tt
      else Binary BImplies first second)"
| "binop lt BU first second =
     (if second = tt \<or> second = ff \<or> first = ff \<or> first = second then second
      else Binary BU first second)"
| "binop lt BW first second =
     (if second = tt \<or> first = ff \<or> first = second then second
      else if first = tt then first
      else Binary BW first second)"
| "binop lt BR first second =
     (if second = tt \<or> second = ff \<or> first = tt \<or> first = second then second
      else Binary BR first second)"
| "binop lt BM first second =
     (if second = ff \<or> first = tt \<or> first = second then second
      else if first = ff then first
      else Binary BM first second)"
| "binop lt BUConcat first second =
     (if first = tt then second
      else if first = ff \<or> first = eword then tt
      else if second = tt then second
      else if is_boolean first then multop lt MOr [unop UNot first, second]
      else Binary BUConcat first second)"
| "binop lt o2 first second =
     (if first = tt then second
      else if first = ff \<or> first = eword then ff
      else if second = ff then second
      else if is_boolean first then multop lt MAnd [first, second]
      else Binary o2 first second)"

subsection \<open>The order of operands\<close>

fun get_literal :: "fnode \<Rightarrow> string option" where
  "get_literal (ap n) = Some n"
| "get_literal (Unary UNot (ap n)) = Some n"
| "get_literal f = None"

text \<open>
  \<open>id_of\<close> gives the creation number of a node, \<open>vcmp\<close> stands for \<open>strverscmp\<close> of the C library,
  and \<open>dump_lt\<close> for the comparison of the dumps of two nodes with the same number.
\<close>

definition formula_ptr_less_than_bool_first ::
    "(fnode \<Rightarrow> nat) \<Rightarrow> (string \<Rightarrow> string \<Rightarrow> int) \<Rightarrow> (fnode \<Rightarrow> fnode \<Rightarrow> bool) \<Rightarrow> fnode \<Rightarrow> fnode \<Rightarrow> bool" where
  "formula_ptr_less_than_bool_first id_of vcmp dump_lt l r =
    (let by_id = (if id_of l \<noteq> id_of r then id_of l < id_of r else dump_lt l r) in
     if l = r then False
     else if is_boolean l \<noteq> is_boolean r then is_boolean l
     else if \<not> is_boolean l then by_id
     else if is_constant l \<noteq> is_constant r then is_constant l
     else if is_constant l then by_id
     else case (get_literal l, get_literal r) of
       (Some a, Some b) \<Rightarrow> if vcmp a b \<noteq> 0 then vcmp a b < 0 else by_id
     | (Some a, None) \<Rightarrow> True
     | (None, Some b) \<Rightarrow> False
     | (None, None) \<Rightarrow> by_id)"

section \<open>Properties of nodes, by operator\<close>

lemma props_and_fields [simp]:
  "p_boolean (props_and p q) = (p_boolean p \<and> p_boolean q)"
  "p_sugar_free_boolean (props_and p q) = (p_sugar_free_boolean p \<and> p_sugar_free_boolean q)"
  "p_in_nenoform (props_and p q) = (p_in_nenoform p \<and> p_in_nenoform q)"
  "p_syntactic_si (props_and p q) = (p_syntactic_si p \<and> p_syntactic_si q)"
  "p_sugar_free_ltl (props_and p q) = (p_sugar_free_ltl p \<and> p_sugar_free_ltl q)"
  "p_ltl_formula (props_and p q) = (p_ltl_formula p \<and> p_ltl_formula q)"
  "p_psl_formula (props_and p q) = (p_psl_formula p \<and> p_psl_formula q)"
  "p_sere_formula (props_and p q) = (p_sere_formula p \<and> p_sere_formula q)"
  "p_finite (props_and p q) = (p_finite p \<and> p_finite q)"
  "p_eventual (props_and p q) = (p_eventual p \<and> p_eventual q)"
  "p_universal (props_and p q) = (p_universal p \<and> p_universal q)"
  "p_syntactic_safety (props_and p q) = (p_syntactic_safety p \<and> p_syntactic_safety q)"
  "p_syntactic_guarantee (props_and p q) = (p_syntactic_guarantee p \<and> p_syntactic_guarantee q)"
  "p_syntactic_obligation (props_and p q) = (p_syntactic_obligation p \<and> p_syntactic_obligation q)"
  "p_syntactic_recurrence (props_and p q) = (p_syntactic_recurrence p \<and> p_syntactic_recurrence q)"
  "p_syntactic_persistence (props_and p q) = (p_syntactic_persistence p \<and> p_syntactic_persistence q)"
  "p_not_marked (props_and p q) = (p_not_marked p \<and> p_not_marked q)"
  "p_accepting_eword (props_and p q) = (p_accepting_eword p \<and> p_accepting_eword q)"
  "p_lbt_atomic_props (props_and p q) = (p_lbt_atomic_props p \<and> p_lbt_atomic_props q)"
  "p_spin_atomic_props (props_and p q) = (p_spin_atomic_props p \<and> p_spin_atomic_props q)"
  by (simp_all add: props_and_def)

lemma foldl_and:
  assumes "\<And>p q. h (props_and p q) = (h p \<and> h q)"
  shows "h (foldl props_and p ps) = (h p \<and> list_all h ps)"
  by (induction ps arbitrary: p) (auto simp: assms)

lemma foldl_props_and [simp]:
  "p_boolean (foldl props_and p ps) = (p_boolean p \<and> list_all p_boolean ps)"
  "p_sugar_free_boolean (foldl props_and p ps) = (p_sugar_free_boolean p \<and> list_all p_sugar_free_boolean ps)"
  "p_in_nenoform (foldl props_and p ps) = (p_in_nenoform p \<and> list_all p_in_nenoform ps)"
  "p_syntactic_si (foldl props_and p ps) = (p_syntactic_si p \<and> list_all p_syntactic_si ps)"
  "p_sugar_free_ltl (foldl props_and p ps) = (p_sugar_free_ltl p \<and> list_all p_sugar_free_ltl ps)"
  "p_ltl_formula (foldl props_and p ps) = (p_ltl_formula p \<and> list_all p_ltl_formula ps)"
  "p_psl_formula (foldl props_and p ps) = (p_psl_formula p \<and> list_all p_psl_formula ps)"
  "p_sere_formula (foldl props_and p ps) = (p_sere_formula p \<and> list_all p_sere_formula ps)"
  "p_finite (foldl props_and p ps) = (p_finite p \<and> list_all p_finite ps)"
  "p_eventual (foldl props_and p ps) = (p_eventual p \<and> list_all p_eventual ps)"
  "p_universal (foldl props_and p ps) = (p_universal p \<and> list_all p_universal ps)"
  "p_syntactic_safety (foldl props_and p ps) = (p_syntactic_safety p \<and> list_all p_syntactic_safety ps)"
  "p_syntactic_guarantee (foldl props_and p ps) = (p_syntactic_guarantee p \<and> list_all p_syntactic_guarantee ps)"
  "p_syntactic_obligation (foldl props_and p ps) = (p_syntactic_obligation p \<and> list_all p_syntactic_obligation ps)"
  "p_syntactic_recurrence (foldl props_and p ps) = (p_syntactic_recurrence p \<and> list_all p_syntactic_recurrence ps)"
  "p_syntactic_persistence (foldl props_and p ps) = (p_syntactic_persistence p \<and> list_all p_syntactic_persistence ps)"
  "p_not_marked (foldl props_and p ps) = (p_not_marked p \<and> list_all p_not_marked ps)"
  "p_accepting_eword (foldl props_and p ps) = (p_accepting_eword p \<and> list_all p_accepting_eword ps)"
  "p_lbt_atomic_props (foldl props_and p ps) = (p_lbt_atomic_props p \<and> list_all p_lbt_atomic_props ps)"
  "p_spin_atomic_props (foldl props_and p ps) = (p_spin_atomic_props p \<and> list_all p_spin_atomic_props ps)"
  by (rule foldl_and, simp)+

lemmas props_defs = const_props_def eword_props_def ap_props_def unary_props_def xor_props_def
  implies_props_def econcat_props_def uconcat_props_def until_props_def binary_props_def
  rational_props_def multi_props_def star_props_def

text \<open>The properties of the children of an n-ary node.\<close>

definition child_props :: "fnode list \<Rightarrow> (ltl_prop \<times> ltl_prop option) list" where
  "child_props fs = map (\<lambda>f. (setup_props f,
     case f of Starred os g mn mx \<Rightarrow> if is_Kleene_star f then Some (setup_props g) else None
     | _ \<Rightarrow> None)) fs"

lemma setup_props_Multi: "setup_props (Multi on fs) = multi_props on (child_props fs)"
  by (simp add: child_props_def)

lemma map_fst_child_props [simp]: "map fst (child_props fs) = map setup_props fs"
  by (simp add: child_props_def comp_def)

lemma length_child_props [simp]: "length (child_props fs) = length fs"
  by (simp add: child_props_def)

lemma is_boolean_simps [simp]:
  "is_boolean ff" "is_boolean tt" "\<not> is_boolean eword" "is_boolean (ap a)"
  "is_boolean (Unary o1 f) = (o1 = UNot \<and> is_boolean f)"
  "is_boolean (Binary o2 f g) = ((o2 = BXor \<or> o2 = BImplies \<or> o2 = BEquiv) \<and> is_boolean f \<and> is_boolean g)"
  "is_boolean (Multi on fs) = ((on = MAnd \<or> on = MOr) \<and> fs \<noteq> [] \<and> list_all is_boolean fs)"
  "\<not> is_boolean (Starred os f mn mx)"
proof -
  show "is_boolean ff" "is_boolean tt" "\<not> is_boolean eword" "is_boolean (ap a)"
    "is_boolean (Unary o1 f) = (o1 = UNot \<and> is_boolean f)"
    "\<not> is_boolean (Starred os f mn mx)"
    by (simp_all add: is_boolean_def props_defs Let_def split: unary.splits star.splits)
  show "is_boolean (Binary o2 f g) =
      ((o2 = BXor \<or> o2 = BImplies \<or> o2 = BEquiv) \<and> is_boolean f \<and> is_boolean g)"
    by (simp add: is_boolean_def props_defs Let_def split: binary.splits)
  show "is_boolean (Multi on fs) = ((on = MAnd \<or> on = MOr) \<and> fs \<noteq> [] \<and> list_all is_boolean fs)"
    unfolding is_boolean_def setup_props_Multi
    by (cases fs; cases on) (simp_all add: props_defs Let_def list.pred_map comp_def)
qed

lemma accepts_eword_simps [simp]:
  "\<not> accepts_eword ff" "\<not> accepts_eword tt" "accepts_eword eword" "\<not> accepts_eword (ap a)"
  "accepts_eword (Unary o1 f) = (o1 = UFirstMatch \<and> accepts_eword f)"
  "\<not> accepts_eword (Binary o2 f g)"
  "accepts_eword (Multi on fs) =
    (case on of MOr \<Rightarrow> list_ex accepts_eword fs | MOrRat \<Rightarrow> list_ex accepts_eword fs
     | MFusion \<Rightarrow> False | _ \<Rightarrow> list_all accepts_eword fs)"
  "accepts_eword (Starred os f mn mx) = (os = SStar \<and> (mn = 0 \<or> accepts_eword f))"
proof -
  show "\<not> accepts_eword ff" "\<not> accepts_eword tt" "accepts_eword eword" "\<not> accepts_eword (ap a)"
    "accepts_eword (Unary o1 f) = (o1 = UFirstMatch \<and> accepts_eword f)"
    "accepts_eword (Starred os f mn mx) = (os = SStar \<and> (mn = 0 \<or> accepts_eword f))"
    by (simp_all add: accepts_eword_def props_defs Let_def split: unary.splits star.splits)
  show "\<not> accepts_eword (Binary o2 f g)"
    by (simp add: accepts_eword_def props_defs Let_def split: binary.splits)
  show "accepts_eword (Multi on fs) =
    (case on of MOr \<Rightarrow> list_ex accepts_eword fs | MOrRat \<Rightarrow> list_ex accepts_eword fs
     | MFusion \<Rightarrow> False | _ \<Rightarrow> list_all accepts_eword fs)"
    unfolding accepts_eword_def setup_props_Multi
    by (cases fs; cases on) (simp_all add: props_defs Let_def list.pred_map list_ex_iff comp_def)
qed

lemma one_star_eq [simp]: "one_star = Starred SStar tt 0 unbounded"
  by (simp add: one_star_def bunop_def unbounded_def)

end
