(* ===== verification/Psl.thy ===== *)
theory Psl
  imports Formula
begin

text \<open>
  The meaning of formulas, as documented for the temporal logic supported by the program
  (doc/tl/tl.tex): finite words for SEREs, infinite words for LTL and PSL.  A letter assigns a
  truth value to each atomic proposition.
\<close>

type_synonym letter = "string \<Rightarrow> bool"
type_synonym lang = "letter list \<Rightarrow> bool"

section \<open>Languages of finite words\<close>

definition conc :: "lang \<Rightarrow> lang \<Rightarrow> lang" where
  "conc A B w = (\<exists>u v. w = u @ v \<and> A u \<and> B v)"

definition fuse :: "lang \<Rightarrow> lang \<Rightarrow> lang" where
  "fuse A B w = (\<exists>u x v. w = u @ x # v \<and> A (u @ [x]) \<and> B (x # v))"

definition eps :: lang where
  "eps w = (w = [])"

definition one :: lang where
  "one w = (length w = 1)"

fun cpow :: "lang \<Rightarrow> nat \<Rightarrow> lang" where
  "cpow A 0 = eps"
| "cpow A (Suc n) = conc A (cpow A n)"

fun fpow :: "lang \<Rightarrow> nat \<Rightarrow> lang" where
  "fpow A 0 = one"
| "fpow A (Suc n) = fuse A (fpow A n)"

definition in_range :: "nat \<Rightarrow> nat \<Rightarrow> nat \<Rightarrow> bool" where
  "in_range mn mx n = (mn \<le> n \<and> (mx = unbounded \<or> n \<le> mx))"

fun slang :: "star \<Rightarrow> lang \<Rightarrow> nat \<Rightarrow> lang" where
  "slang SStar = cpow"
| "slang SFStar = fpow"

text \<open>The n-ary operators.\<close>

fun fusion :: "lang list \<Rightarrow> lang" where
  "fusion [] = one"
| "fusion [L] = L"
| "fusion (L # Ls) = fuse L (fusion Ls)"

fun mlang :: "multi \<Rightarrow> lang list \<Rightarrow> lang" where
  "mlang MOr Ls w = list_ex (\<lambda>L. L w) Ls"
| "mlang MOrRat Ls w = list_ex (\<lambda>L. L w) Ls"
| "mlang MAnd Ls w = (one w \<and> list_all (\<lambda>L. L w) Ls)"
| "mlang MAndRat Ls w = list_all (\<lambda>L. L w) Ls"
| "mlang MAndNLM Ls w =
     (if Ls = [] then eps w
      else list_ex (\<lambda>L. L w) Ls \<and> list_all (\<lambda>L. \<exists>k \<le> length w. L (take k w)) Ls)"
| "mlang MConcat Ls w = foldr conc Ls eps w"
| "mlang MFusion Ls w = fusion Ls w"

section \<open>SEREs\<close>

fun sere :: "fnode \<Rightarrow> lang" where
  "sere ff w = False"
| "sere tt w = one w"
| "sere eword w = eps w"
| "sere (ap a) w = (case w of [l] \<Rightarrow> l a | _ \<Rightarrow> False)"
| "sere (Unary UNot f) w = (one w \<and> \<not> sere f w)"
| "sere (Unary UFirstMatch f) w = (sere f w \<and> (\<forall>k < length w. \<not> sere f (take k w)))"
| "sere (Unary _ f) w = False"
| "sere (Binary BXor f g) w = (one w \<and> sere f w \<noteq> sere g w)"
| "sere (Binary BEquiv f g) w = (one w \<and> sere f w = sere g w)"
| "sere (Binary BImplies f g) w = (one w \<and> \<not> sere f w \<or> sere g w)"
| "sere (Binary _ f g) w = False"
| "sere (Multi on fs) w = mlang on (map sere fs) w"
| "sere (Starred os f mn mx) w = (\<exists>n. in_range mn mx n \<and> slang os (sere f) n w)"

section \<open>Infinite words\<close>

type_synonym word = "nat \<Rightarrow> letter"

definition suffix :: "nat \<Rightarrow> word \<Rightarrow> word" where
  "suffix i \<sigma> = (\<lambda>n. \<sigma> (i + n))"

definition prefix :: "nat \<Rightarrow> word \<Rightarrow> letter list" where
  "prefix n \<sigma> = map \<sigma> [0..<n]"

text \<open>The weak closure of a language of finite words.\<close>

definition closure :: "lang \<Rightarrow> word \<Rightarrow> bool" where
  "closure L \<sigma> = ((\<exists>k. L (prefix (Suc k) \<sigma>)) \<or> (\<forall>k. \<exists>v. L (prefix (Suc k) \<sigma> @ v)))"

definition until :: "(word \<Rightarrow> bool) \<Rightarrow> (word \<Rightarrow> bool) \<Rightarrow> word \<Rightarrow> bool" where
  "until P Q \<sigma> = (\<exists>j. Q (suffix j \<sigma>) \<and> (\<forall>i < j. P (suffix i \<sigma>)))"

definition globally :: "(word \<Rightarrow> bool) \<Rightarrow> word \<Rightarrow> bool" where
  "globally P \<sigma> = (\<forall>i. P (suffix i \<sigma>))"

definition eventually :: "(word \<Rightarrow> bool) \<Rightarrow> word \<Rightarrow> bool" where
  "eventually P \<sigma> = (\<exists>i. P (suffix i \<sigma>))"

definition strong_release :: "(word \<Rightarrow> bool) \<Rightarrow> (word \<Rightarrow> bool) \<Rightarrow> word \<Rightarrow> bool" where
  "strong_release P Q \<sigma> = (\<exists>j. P (suffix j \<sigma>) \<and> (\<forall>i \<le> j. Q (suffix i \<sigma>)))"

definition seq :: "lang \<Rightarrow> (word \<Rightarrow> bool) \<Rightarrow> word \<Rightarrow> bool" where
  "seq L P \<sigma> = (\<exists>k. L (prefix (Suc k) \<sigma>) \<and> P (suffix k \<sigma>))"

definition triggers :: "lang \<Rightarrow> (word \<Rightarrow> bool) \<Rightarrow> word \<Rightarrow> bool" where
  "triggers L P \<sigma> = (\<forall>k. L (prefix (Suc k) \<sigma>) \<longrightarrow> P (suffix k \<sigma>))"

fun sat :: "fnode \<Rightarrow> word \<Rightarrow> bool" where
  "sat ff \<sigma> = False"
| "sat tt \<sigma> = True"
| "sat (ap a) \<sigma> = \<sigma> 0 a"
| "sat (Unary UNot f) \<sigma> = (\<not> sat f \<sigma>)"
| "sat (Unary UX f) \<sigma> = sat f (suffix 1 \<sigma>)"
| "sat (Unary UStrongX f) \<sigma> = sat f (suffix 1 \<sigma>)"
| "sat (Unary UF f) \<sigma> = eventually (sat f) \<sigma>"
| "sat (Unary UG f) \<sigma> = globally (sat f) \<sigma>"
| "sat (Unary UClosure f) \<sigma> = closure (sere f) \<sigma>"
| "sat (Unary UNegClosure f) \<sigma> = (\<not> closure (sere f) \<sigma>)"
| "sat (Unary UNegClosureMarked f) \<sigma> = (\<not> closure (sere f) \<sigma>)"
| "sat (Binary BXor f g) \<sigma> = (sat f \<sigma> \<noteq> sat g \<sigma>)"
| "sat (Binary BEquiv f g) \<sigma> = (sat f \<sigma> = sat g \<sigma>)"
| "sat (Binary BImplies f g) \<sigma> = (sat f \<sigma> \<longrightarrow> sat g \<sigma>)"
| "sat (Binary BU f g) \<sigma> = until (sat f) (sat g) \<sigma>"
| "sat (Binary BW f g) \<sigma> = (until (sat f) (sat g) \<sigma> \<or> globally (sat f) \<sigma>)"
| "sat (Binary BM f g) \<sigma> = strong_release (sat f) (sat g) \<sigma>"
| "sat (Binary BR f g) \<sigma> = (strong_release (sat f) (sat g) \<sigma> \<or> globally (sat g) \<sigma>)"
| "sat (Binary BUConcat f g) \<sigma> = triggers (sere f) (sat g) \<sigma>"
| "sat (Binary _ f g) \<sigma> = seq (sere f) (sat g) \<sigma>"
| "sat (Multi MAnd fs) \<sigma> = list_all (\<lambda>f. sat f \<sigma>) fs"
| "sat (Multi MOr fs) \<sigma> = list_ex (\<lambda>f. sat f \<sigma>) fs"
| "sat f \<sigma> = False"

section \<open>Words\<close>

lemma suffix_simps [simp]:
  "suffix 0 \<sigma> = \<sigma>" "suffix i (suffix j \<sigma>) = suffix (j + i) \<sigma>" "suffix i \<sigma> n = \<sigma> (i + n)"
  by (simp_all add: suffix_def add.assoc)

lemma prefix_simps [simp]:
  "prefix 0 \<sigma> = []" "length (prefix n \<sigma>) = n" "prefix (Suc 0) \<sigma> = [\<sigma> 0]"
  by (simp_all add: prefix_def)

lemma prefix_Suc: "prefix (Suc n) \<sigma> = \<sigma> 0 # prefix n (suffix 1 \<sigma>)"
  by (simp add: prefix_def suffix_def upt_conv_Cons map_Suc_upt [symmetric] comp_def del: upt_Suc)

lemma nth_prefix [simp]: "i < n \<Longrightarrow> prefix n \<sigma> ! i = \<sigma> i"
  by (simp add: prefix_def)

lemma take_prefix [simp]: "k \<le> n \<Longrightarrow> take k (prefix n \<sigma>) = prefix k \<sigma>"
  by (simp add: prefix_def take_map)

lemma one_iff: "one w \<longleftrightarrow> (\<exists>l. w = [l])"
  by (auto simp: one_def length_Suc_conv)

lemma one_prefix [simp]: "one (prefix n \<sigma>) \<longleftrightarrow> n = 1"
  by (simp add: one_def)

lemma one_simps [simp]: "one [l]" "\<not> one []" "\<not> one (a # b # w)"
  by (simp_all add: one_def)

lemma eps_simps [simp]: "eps []" "\<not> eps (a # w)"
  by (simp_all add: eps_def)

section \<open>Boolean formulas\<close>

text \<open>A Boolean formula matches words of length one, and looks at the first letter only.\<close>

lemma boolean_one: "is_boolean f \<Longrightarrow> sere f w \<Longrightarrow> one w"
proof (induction f arbitrary: w)
  case (Unary o1 f)
  then show ?case by (cases o1) auto
next
  case (Binary o2 f g)
  then show ?case by (cases o2) auto
next
  case (Multi on fs)
  then show ?case by (cases on) (auto simp: list.pred_set list_ex_iff)
qed (auto simp: one_iff split: list.splits)

lemma boolean_letter: "is_boolean f \<Longrightarrow> sere f [\<sigma> 0] = sat f \<sigma>"
proof (induction f)
  case (Unary o1 f)
  then show ?case by (cases o1) auto
next
  case (Binary o2 f g)
  then show ?case by (cases o2) auto
next
  case (Multi on fs)
  then show ?case by (cases on) (auto simp: list.pred_set list_ex_iff)
qed auto

lemma boolean_empty [simp]: "is_boolean f \<Longrightarrow> \<not> sere f []"
  using boolean_one by fastforce

lemma boolean_prefix: "is_boolean f \<Longrightarrow> sere f (prefix (Suc k) \<sigma>) = (k = 0 \<and> sat f \<sigma>)"
  using boolean_one [of f "prefix (Suc k) \<sigma>"] boolean_letter [of f \<sigma>] by (cases k) auto

lemma closure_boolean [simp]:
  assumes "is_boolean f"
  shows "closure (sere f) \<sigma> = sat f \<sigma>"
proof -
  have "\<not> sere f (prefix (Suc (Suc 0)) \<sigma> @ v)" for v
    using boolean_one [OF assms, of "prefix (Suc (Suc 0)) \<sigma> @ v"] by (auto simp: one_def)
  then show ?thesis
    unfolding closure_def using boolean_prefix [OF assms] by blast
qed

lemma closure_eword [simp]: "\<not> closure (sere eword) \<sigma>"
  by (auto simp: closure_def eps_def prefix_def)

end
