(* ===== verification/FormulaSound.thy ===== *)
theory FormulaSound
  imports Psl "HOL-Library.Multiset"
begin

text \<open>
  The trivial identities applied when a node is built (tl/formula.cc) do not change its meaning.
  The identities of the Boolean operators are proved once, for every semantics that interprets
  the constants and the two n-ary connectives as expected, and used for infinite words, for the
  letters of finite words and for finite traces.
\<close>

section \<open>Operands of n-ary operators\<close>

lemma scan_operands_None:
  "scan_operands on prev v = None \<Longrightarrow> absorbent on \<in> set v \<or> absorbent2 on \<in> Some ` set v"
  by (induction on prev v rule: scan_operands.induct) (auto split: if_splits)

lemma scan_operands_Some:
  "scan_operands on prev v = Some v' \<Longrightarrow>
     set v' \<subseteq> set v \<and> set v \<subseteq> set v' \<union> {neutral on} \<union> set_option prev \<and>
     neutral on \<notin> set v' \<and> absorbent on \<notin> set v' \<and> absorbent2 on \<notin> Some ` set v'"
proof (induction on prev v arbitrary: v' rule: scan_operands.induct)
  case (2 on prev f fs)
  show ?case
  proof (cases "f = neutral on \<or> Some f = prev")
    case True
    with 2 show ?thesis by auto
  next
    case False
    with "2.prems" obtain us where us: "v' = f # us"
      "scan_operands on (if on \<noteq> MConcat \<and> on \<noteq> MFusion then Some f else prev) fs = Some us"
      and "f \<noteq> absorbent on" "Some f \<noteq> absorbent2 on"
      by (auto split: if_splits)
    with "2.IH"(2) [OF False _ us(2)] False show ?thesis
      by (auto split: if_splits)
  qed
qed simp

lemma scan_operands_ordered:
  assumes "on = MConcat \<or> on = MFusion"
  shows "scan_operands on None v =
    (if absorbent on \<in> set v \<or> absorbent2 on \<in> Some ` set v then None
     else Some (filter (\<lambda>f. f \<noteq> neutral on) v))"
  using assms by (induction v) auto

section \<open>Boolean connectives\<close>

locale lattice_semantics =
  fixes sem :: "fnode \<Rightarrow> 'w \<Rightarrow> bool"
  assumes sem_tt: "sem tt w"
    and sem_ff: "\<not> sem ff w"
    and sem_And: "sem (Multi MAnd fs) w = list_all (\<lambda>f. sem f w) fs"
    and sem_Or: "sem (Multi MOr fs) w = list_ex (\<lambda>f. sem f w) fs"
begin

lemma inline_And: "list_all (\<lambda>f. sem f w) (inline_operands MAnd v) = list_all (\<lambda>f. sem f w) v"
  unfolding inline_operands_def
proof (induction v)
  case (Cons f v)
  then show ?case by (cases f) (auto simp: sem_And)
qed simp

lemma inline_Or: "list_ex (\<lambda>f. sem f w) (inline_operands MOr v) = list_ex (\<lambda>f. sem f w) v"
  unfolding inline_operands_def
proof (induction v)
  case (Cons f v)
  then show ?case by (cases f) (auto simp: sem_Or)
qed simp

lemma finish_And: "sem (finish_multop MAnd n v) w = list_all (\<lambda>f. sem f w) v"
  by (auto simp: finish_multop_def sem_And sem_tt split: list.splits)

lemma finish_Or: "sem (finish_multop MOr n v) w = list_ex (\<lambda>f. sem f w) v"
  by (auto simp: finish_multop_def sem_Or sem_ff split: list.splits)

lemma reduce_And: "sem (reduce_operands MAnd n v) w = list_all (\<lambda>f. sem f w) v"
proof (cases "scan_operands MAnd None v")
  case None
  then show ?thesis
    using scan_operands_None [OF None] by (auto simp: reduce_operands_def sem_ff list.pred_set intro: bexI [of _ ff])
next
  case (Some v')
  then show ?thesis
    using scan_operands_Some [OF Some]
    by (fastforce simp: reduce_operands_def finish_And list.pred_set sem_tt)
qed

lemma reduce_Or: "sem (reduce_operands MOr n v) w = list_ex (\<lambda>f. sem f w) v"
proof (cases "scan_operands MOr None v")
  case None
  then show ?thesis
    using scan_operands_None [OF None] by (auto simp: reduce_operands_def sem_tt list_ex_iff intro: bexI [of _ tt])
next
  case (Some v')
  then show ?thesis
    using scan_operands_Some [OF Some]
    by (fastforce simp: reduce_operands_def finish_Or list_ex_iff sem_ff)
qed

lemma multop_And: "sem (multop lt MAnd v) w = list_all (\<lambda>f. sem f w) v"
  using inline_And [of w v] by (simp add: Let_def reduce_And operand_list_def list.pred_set)

lemma multop_Or: "sem (multop lt MOr v) w = list_ex (\<lambda>f. sem f w) v"
  using inline_Or [of w v] by (simp add: Let_def reduce_Or operand_list_def list_ex_iff)

end

interpretation letter: lattice_semantics "\<lambda>f l. sere f [l]"
  by unfold_locales (simp_all add: list.pred_map list_ex_iff comp_def)

text \<open>The other connectives, and the closures that negation turns into each other.\<close>

locale logic_semantics = lattice_semantics +
  assumes sem_Not: "sem (Unary UNot f) w = (\<not> sem f w)"
    and sem_Xor: "sem (Binary BXor f g) w = (sem f w \<noteq> sem g w)"
    and sem_Equiv: "sem (Binary BEquiv f g) w = (sem f w = sem g w)"
    and sem_Implies: "sem (Binary BImplies f g) w = (sem f w \<longrightarrow> sem g w)"
    and sem_NegClosure: "sem (Unary UNegClosure f) w = (\<not> sem (Unary UClosure f) w)"
    and sem_NegClosureMarked: "sem (Unary UNegClosureMarked f) w = (\<not> sem (Unary UClosure f) w)"
    and sem_Closure_boolean: "is_boolean f \<Longrightarrow> sem (Unary UClosure f) w = sem f w"
    and sem_Closure_eword: "\<not> sem (Unary UClosure eword) w"
begin

lemma unop_Closure: "sem (unop UClosure f) w = sem (Unary UClosure f) w"
  by (simp add: sem_Closure_boolean sem_Closure_eword sem_ff)

lemma unop_logic:
  assumes "f \<noteq> eword"
  shows "sem (unop UNot f) w = (\<not> sem f w)"
    and "sem (unop UNegClosure f) w = (\<not> sem (Unary UClosure f) w)"
    and "sem (unop UNegClosureMarked f) w = (\<not> sem (Unary UClosure f) w)"
proof -
  have "(f \<noteq> eword \<longrightarrow> sem (unop UNot f) w = (\<not> sem f w)) \<and>
    sem (unop UNegClosure f) w = (\<not> sem (Unary UClosure f) w) \<and>
    sem (unop UNegClosureMarked f) w = (\<not> sem (Unary UClosure f) w)" for f
  proof (induction f)
    case (Unary o1 f)
    then show ?case
      by (cases o1) (auto simp: sem_Not sem_NegClosure sem_NegClosureMarked sem_Closure_boolean
        simp del: unop.simps(6,7) simp add: unop_Closure unop.simps(7))
  qed (auto simp: sem_Not sem_NegClosure sem_NegClosureMarked sem_Closure_boolean sem_Closure_eword
      sem_tt sem_ff)
  with assms show "sem (unop UNot f) w = (\<not> sem f w)"
    "sem (unop UNegClosure f) w = (\<not> sem (Unary UClosure f) w)"
    "sem (unop UNegClosureMarked f) w = (\<not> sem (Unary UClosure f) w)"
    by blast+
qed

lemma binop_logic:
  assumes "f \<noteq> eword" "g \<noteq> eword"
  shows "sem (binop lt BXor f g) w = (sem f w \<noteq> sem g w)"
    and "sem (binop lt BEquiv f g) w = (sem f w = sem g w)"
    and "sem (binop lt BImplies f g) w = (sem f w \<longrightarrow> sem g w)"
  using assms
  by (auto simp: sorted_pair_def unop_logic sem_Xor sem_Equiv sem_Implies sem_tt sem_ff
      simp del: unop.simps)

end

interpretation psl: logic_semantics sat
  by unfold_locales simp_all

section \<open>Temporal operators\<close>

lemma untilI: "Q \<sigma> \<Longrightarrow> until P Q \<sigma>"
  unfolding until_def by (rule exI [of _ 0]) simp

lemma until_now: "until P Q \<sigma> \<Longrightarrow> P \<sigma> \<or> Q \<sigma>"
  unfolding until_def by (metis gr0I suffix_simps(1))

lemma strong_releaseI: "P \<sigma> \<Longrightarrow> Q \<sigma> \<Longrightarrow> strong_release P Q \<sigma>"
  unfolding strong_release_def by (rule exI [of _ 0]) simp

lemma strong_release_now: "strong_release P Q \<sigma> \<Longrightarrow> Q \<sigma>"
  unfolding strong_release_def by (metis suffix_simps(1) zero_le)

lemma globallyD: "globally P \<sigma> \<Longrightarrow> P \<sigma>"
  unfolding globally_def by (metis suffix_simps(1))

lemma until_False: "until P Q \<sigma> \<Longrightarrow> (\<And>\<tau>. \<not> Q \<tau>) \<Longrightarrow> R"
  unfolding until_def by blast

lemma strong_release_False: "strong_release P Q \<sigma> \<Longrightarrow> (\<And>\<tau>. \<not> P \<tau>) \<Longrightarrow> R"
  unfolding strong_release_def by blast

lemma globallyI: "(\<And>\<tau>. P \<tau>) \<Longrightarrow> globally P \<sigma>"
  unfolding globally_def by blast

lemma binop_temporal:
  "sat (binop lt BU f g) \<sigma> = sat (Binary BU f g) \<sigma>"
  "sat (binop lt BW f g) \<sigma> = sat (Binary BW f g) \<sigma>"
  "sat (binop lt BR f g) \<sigma> = sat (Binary BR f g) \<sigma>"
  "sat (binop lt BM f g) \<sigma> = sat (Binary BM f g) \<sigma>"
  by (auto intro: untilI strong_releaseI globallyI elim: until_False strong_release_False
      dest: until_now strong_release_now globallyD)

lemma seq_boolean: "is_boolean f \<Longrightarrow> seq (sere f) P \<sigma> = (sat f \<sigma> \<and> P \<sigma>)"
  by (auto simp: seq_def boolean_prefix)

lemma triggers_boolean: "is_boolean f \<Longrightarrow> triggers (sere f) P \<sigma> = (sat f \<sigma> \<longrightarrow> P \<sigma>)"
  by (auto simp: triggers_def boolean_prefix)

lemma seq_trivial:
  "\<not> seq (sere eword) P \<sigma>" "triggers (sere eword) P \<sigma>"
  "(\<And>\<tau>. \<not> P \<tau>) \<Longrightarrow> \<not> seq L P \<sigma>" "(\<And>\<tau>. P \<tau>) \<Longrightarrow> triggers L P \<sigma>"
  by (auto simp: seq_def triggers_def eps_def prefix_def)

lemma binop_seq:
  "sat (binop lt BEConcat f g) \<sigma> = sat (Binary BEConcat f g) \<sigma>"
  "sat (binop lt BEConcatMarked f g) \<sigma> = sat (Binary BEConcatMarked f g) \<sigma>"
  "sat (binop lt BUConcat f g) \<sigma> = sat (Binary BUConcat f g) \<sigma>"
  by (auto simp: seq_boolean triggers_boolean seq_trivial psl.multop_And psl.multop_Or psl.unop_logic
      simp del: multop.simps unop.simps)

lemma eventually_idem: "eventually (eventually P) = eventually P"
  by (rule ext) (auto simp: eventually_def, metis add_0_right)

lemma globally_idem: "globally (globally P) = globally P"
  by (rule ext) (auto simp: globally_def, metis add_0_right)

lemma sat_F_G: "sat (Unary UF f) = eventually (sat f)" "sat (Unary UG f) = globally (sat f)"
  by (rule ext, simp)+

lemma unop_temporal:
  assumes "f \<noteq> eword" "o1 \<noteq> UFirstMatch"
  shows "sat (unop o1 f) \<sigma> = sat (Unary o1 f) \<sigma>"
proof (cases o1)
  case UF
  have "eventually (sat tt) \<sigma>" "\<not> eventually (sat ff) \<sigma>"
    by (simp_all add: eventually_def)
  with UF show ?thesis
    by (auto simp: sat_F_G eventually_idem split: fnode.splits unary.splits)
next
  case UG
  have "globally (sat tt) \<sigma>" "\<not> globally (sat ff) \<sigma>"
    by (simp_all add: globally_def)
  with UG show ?thesis
    by (auto simp: sat_F_G globally_idem split: fnode.splits unary.splits)
qed (use assms psl.unop_logic [OF assms(1)] psl.unop_Closure in \<open>auto simp del: unop.simps(3,6,7,8)\<close>)

text \<open>
  Property C21: the trivial identities applied by \<open>fnode::unop\<close>, \<open>fnode::binop\<close> and
  \<open>fnode::multop\<close> to the operators of LTL and PSL preserve the meaning of the formula on every
  infinite word, whatever order is used to sort the operands.  The empty word is not a temporal
  formula.
\<close>

theorem constructors_sound:
  assumes "f \<noteq> eword" "g \<noteq> eword"
  shows "(o1 \<noteq> UFirstMatch \<longrightarrow> sat (unop o1 f) \<sigma> = sat (Unary o1 f) \<sigma>) \<and>
    sat (binop lt o2 f g) \<sigma> = sat (Binary o2 f g) \<sigma> \<and>
    sat (multop lt MAnd v) \<sigma> = sat (Multi MAnd v) \<sigma> \<and>
    sat (multop lt MOr v) \<sigma> = sat (Multi MOr v) \<sigma>"
proof -
  have "sat (binop lt o2 f g) \<sigma> = sat (Binary o2 f g) \<sigma>"
    using psl.binop_logic [OF assms] binop_temporal binop_seq by (cases o2) auto
  then show ?thesis
    using unop_temporal [OF assms(1)] psl.multop_And psl.multop_Or by simp
qed

theorem constructors_sound_witness:
  "sat (binop (\<lambda>f g. False) BW (ap ''a'') (Unary UNot (ap ''b''))) (\<lambda>n s. even n) =
    sat (Binary BW (ap ''a'') (Unary UNot (ap ''b''))) (\<lambda>n s. even n)"
  using constructors_sound [of "ap ''a''" "Unary UNot (ap ''b'')"] by blast

end
