(* ===== verification/Sere.thy ===== *)
theory Sere
  imports FormulaSound
begin

text \<open>
  The trivial identities of SEREs (tl/formula.cc: bunop and the rational operators of multop).
  Concatenation and fusion are two products of languages with the same algebra, so that the
  merging of repeated operands is proved once for both.
\<close>

section \<open>Products of languages\<close>

definition powers :: "(lang \<Rightarrow> nat \<Rightarrow> lang) \<Rightarrow> lang \<Rightarrow> nat set \<Rightarrow> lang" where
  "powers pw A N w = (\<exists>n \<in> N. pw A n w)"

locale lang_product =
  fixes mul :: "lang \<Rightarrow> lang \<Rightarrow> lang" and un :: lang and norm :: "lang \<Rightarrow> lang"
    and pw :: "lang \<Rightarrow> nat \<Rightarrow> lang"
  assumes assoc: "mul (mul A B) C = mul A (mul B C)"
    and un_left: "mul un A = norm A" and un_right: "mul A un = norm A"
    and norm_left: "mul (norm A) B = mul A B" and norm_right: "mul A (norm B) = mul A B"
    and norm_un: "norm un = un" and norm_mul: "norm (mul A B) = mul A B"
    and union_left: "mul (\<lambda>w. \<exists>i \<in> (I :: nat set). F i w) B = (\<lambda>w. \<exists>i \<in> I. mul (F i) B w)"
    and union_right: "mul A (\<lambda>w. \<exists>i \<in> (I :: nat set). F i w) = (\<lambda>w. \<exists>i \<in> I. mul A (F i) w)"
    and norm_union: "norm (\<lambda>w. \<exists>i \<in> (I :: nat set). F i w) = (\<lambda>w. \<exists>i \<in> I. norm (F i) w)"
    and pw_0: "pw A 0 = un" and pw_Suc: "pw A (Suc n) = mul A (pw A n)"
begin

lemma norm_pw: "norm (pw A n) = pw A n"
  by (cases n) (simp_all add: pw_0 pw_Suc norm_un norm_mul)

lemma pw_one: "pw A (Suc 0) = norm A"
  by (simp add: pw_0 pw_Suc un_right)

lemma pw_add: "mul (pw A m) (pw A n) = pw A (m + n)"
  by (induction m) (simp_all add: pw_0 pw_Suc un_left norm_pw assoc)

lemma norm_powers: "norm (powers pw A N) = powers pw A N"
proof -
  have "powers pw A N = (\<lambda>w. \<exists>n \<in> N. pw A n w)"
    by (rule ext) (simp add: powers_def)
  then show ?thesis by (simp add: norm_union norm_pw)
qed

lemma powers_add: "mul (powers pw A M) (powers pw A N) = powers pw A {m + n |m n. m \<in> M \<and> n \<in> N}"
proof -
  have "powers pw A K = (\<lambda>w. \<exists>n \<in> K. pw A n w)" for K
    by (rule ext) (simp add: powers_def)
  then have "mul (powers pw A M) (powers pw A N) = (\<lambda>w. \<exists>m \<in> M. \<exists>n \<in> N. pw A (m + n) w)"
    by (simp add: union_left union_right pw_add)
  then show ?thesis
    by (auto simp: powers_def fun_eq_iff)
qed

lemma powers_one: "powers pw A {1} = norm A"
  by (rule ext) (simp add: powers_def pw_one)

text \<open>Powers of a union of powers: the exponents are sums of as many exponents.\<close>

lemma pw_powers:
  assumes "S 0 = {0}" "\<And>k. S (Suc k) = {m + n |m n. m \<in> N \<and> n \<in> S k}"
  shows "pw (powers pw A N) k = powers pw A (S k)"
proof (induction k)
  case 0
  show ?case by (rule ext) (simp add: powers_def assms pw_0)
next
  case (Suc k)
  then show ?case by (simp add: pw_Suc powers_add assms)
qed

lemma powers_powers:
  assumes "S 0 = {0}" "\<And>k. S (Suc k) = {m + n |m n. m \<in> N \<and> n \<in> S k}"
  shows "powers pw (powers pw A N) K = powers pw A (\<Union>k \<in> K. S k)"
  by (rule ext) (auto simp: powers_def [of pw "powers pw A N"] pw_powers [of S, OF assms] powers_def [of pw A])

lemma mul_fold: "mul A (foldr mul Ls un) = foldr mul (A # Ls) un"
  by simp

lemma fold_norm: "norm (foldr mul Ls un) = foldr mul Ls un"
  by (cases Ls) (simp_all add: norm_un norm_mul)

lemma fold_norm_left: "foldr mul (norm A # Ls) un = foldr mul (A # Ls) un"
  by (simp add: norm_left)

lemma fold_append: "foldr mul (Ks @ Ls) un = mul (foldr mul Ks un) (foldr mul Ls un)"
  by (induction Ks) (simp_all add: assoc un_left fold_norm)

end

interpretation concp: lang_product conc eps "\<lambda>A. A" cpow
proof
  show "conc (conc A B) C = conc A (conc B C)" for A B C
    unfolding conc_def fun_eq_iff by (metis append.assoc)
  show "conc eps A = A" "conc A eps = A" for A
    by (auto simp: conc_def eps_def fun_eq_iff)
qed (auto simp: conc_def fun_eq_iff)

interpretation fusep: lang_product fuse one "\<lambda>A w. A w \<and> w \<noteq> []" fpow
proof
  show "fuse (fuse A B) C = fuse A (fuse B C)" for A B C
  proof (rule ext, rule iffI)
    fix w assume "fuse (fuse A B) C w"
    then obtain u x v u' y v' where w: "w = u @ x # v" "C (x # v)" "u @ [x] = u' @ y # v'"
      "A (u' @ [y])" "B (y # v')"
      unfolding fuse_def by blast
    show "fuse A (fuse B C) w"
    proof (cases v' rule: rev_cases)
      case Nil
      with w have "w = u' @ y # v" "B ([] @ [y])" "C (y # v)"
        by auto
      moreover from this have "fuse B C (y # v)"
        unfolding fuse_def by (metis append_Nil)
      ultimately show ?thesis using w(4) unfolding fuse_def by blast
    next
      case (snoc vs z)
      with w have "B ((y # vs) @ [x])" "w = u' @ y # (vs @ x # v)"
        by auto
      with w(2) have "fuse B C (y # (vs @ x # v))"
        unfolding fuse_def by (metis append_Cons)
      with w(4) \<open>w = u' @ y # (vs @ x # v)\<close> show ?thesis unfolding fuse_def by blast
    qed
  next
    fix w assume "fuse A (fuse B C) w"
    then obtain u x v u' y v' where w: "w = u @ x # v" "A (u @ [x])" "x # v = u' @ y # v'"
      "B (u' @ [y])" "C (y # v')"
      unfolding fuse_def by blast
    show "fuse (fuse A B) C w"
    proof (cases u')
      case Nil
      with w have "fuse A B (u @ [y])" "w = u @ y # v'"
        unfolding fuse_def by auto
      with w(5) show ?thesis unfolding fuse_def by blast
    next
      case (Cons z us)
      with w have "fuse A B ((u @ x # us) @ [y])" "w = (u @ x # us) @ y # v'"
        unfolding fuse_def by auto
      with w(5) show ?thesis unfolding fuse_def by blast
    qed
  qed
  show "fuse one A = (\<lambda>w. A w \<and> w \<noteq> [])" for A
    unfolding fuse_def fun_eq_iff by (auto simp: one_def neq_Nil_conv)
  show "fuse A one = (\<lambda>w. A w \<and> w \<noteq> [])" for A
    unfolding fuse_def fun_eq_iff by (auto simp: one_iff) (metis append_butlast_last_id)
  show "(\<lambda>w. one w \<and> w \<noteq> []) = one"
    by (auto simp: one_def fun_eq_iff)
qed (auto simp: fuse_def fun_eq_iff)

section \<open>Ranges of repetitions\<close>

definition rset :: "nat \<Rightarrow> nat \<Rightarrow> nat set" where
  "rset mn mx = {n. in_range mn mx n}"

lemma mem_rset [simp]: "n \<in> rset mn mx \<longleftrightarrow> mn \<le> n \<and> (mx = unbounded \<or> n \<le> mx)"
  by (simp add: rset_def in_range_def)

lemma sere_Starred: "sere (Starred os f mn mx) = powers (slang os) (sere f) (rset mn mx)"
  by (rule ext) (simp add: powers_def rset_def Bex_def)

lemma rset_add:
  assumes "a \<le> b" "c \<le> d" "b \<noteq> unbounded \<Longrightarrow> d \<noteq> unbounded \<Longrightarrow> b + d < unbounded"
  shows "{m + n |m n. m \<in> rset a b \<and> n \<in> rset c d} = rset (a + c) (add_bound b d)" (is "?L = ?R")
proof
  show "?L \<subseteq> ?R"
    using assms(3) by (auto simp: add_bound_def)
  show "?R \<subseteq> ?L"
  proof
    fix n assume n: "n \<in> ?R"
    define m where "m = (if b = unbounded then n - c else if d = unbounded \<or> n \<le> a + d then a else n - d)"
    have "m \<in> rset a b \<and> n - m \<in> rset c d \<and> n = m + (n - m)"
      using n assms by (auto simp: m_def add_bound_def split: if_splits)
    then show "n \<in> ?L" by blast
  qed
qed

text \<open>The sums of k numbers between i and j.\<close>

definition multiples :: "nat \<Rightarrow> nat \<Rightarrow> nat \<Rightarrow> nat set" where
  "multiples i j k = {n. k * i \<le> n \<and> (j = unbounded \<and> 0 < k \<or> n \<le> k * j)}"

lemma multiples_0: "multiples i j 0 = {0}"
  by (auto simp: multiples_def)

lemma multiples_Suc:
  assumes "i \<le> j"
  shows "multiples i j (Suc k) = {m + n |m n. m \<in> rset i j \<and> n \<in> multiples i j k}" (is "?L = ?R")
proof
  show "?R \<subseteq> ?L"
    by (auto simp: multiples_def intro: add_mono)
  show "?L \<subseteq> ?R"
  proof
    fix n assume n: "n \<in> ?L"
    define m where "m = (if j = unbounded then n - k * i else if n \<le> i + k * j then i else n - k * j)"
    have "k * i \<le> k * j" using assms by simp
    then have "m \<in> rset i j \<and> n - m \<in> multiples i j k \<and> n = m + (n - m)"
      using n assms by (auto simp: m_def multiples_def split: if_splits)
    then show "n \<in> ?R" by blast
  qed
qed

lemma interval_step:
  fixes i j :: nat
  assumes "i \<le> j" "i * (mn + 1) \<le> j * mn + 1" "mn \<le> M"
  shows "i * (M + 1) \<le> j * M + 1"
proof -
  have "i * (M - mn) \<le> j * (M - mn)" using assms by simp
  moreover have "i * (M + 1) = i * (mn + 1) + i * (M - mn)" "j * M = j * mn + j * (M - mn)"
    using assms(3) by (auto simp: algebra_simps simp flip: distrib_left)
  ultimately show ?thesis using assms(2) by linarith
qed

lemma interval_cover:
  fixes i j :: nat
  assumes "i \<le> j" "i * (mn + 1) \<le> j * mn + 1" "mn \<le> M" "mn * i \<le> n" "n \<le> M * j"
  shows "\<exists>k. mn \<le> k \<and> k \<le> M \<and> k * i \<le> n \<and> n \<le> k * j"
  using assms(3,5)
proof (induction M rule: dec_induct)
  case base
  then show ?case using assms(4) by auto
next
  case (step M)
  show ?case
  proof (cases "n \<le> M * j")
    case True
    with step.IH show ?thesis by (meson le_SucI)
  next
    case False
    have "i * (M + 1) \<le> j * M + 1"
      using interval_step assms(1,2) step.hyps(1) by blast
    with False have "Suc M * i \<le> n" by (simp add: mult.commute)
    with step show ?thesis by (meson le_SucI order_refl)
  qed
qed

lemma multiples_union:
  assumes "i \<le> j" "0 < j" "mn \<le> mx" "0 < mx"
    and "j = unbounded \<Longrightarrow> mn \<noteq> 0 \<or> i \<le> 1"
    and "j \<noteq> unbounded \<Longrightarrow> i * (mn + 1) \<le> j * mn + 1"
    and "j \<noteq> unbounded \<Longrightarrow> mx \<noteq> unbounded \<Longrightarrow> mx * j \<noteq> unbounded"
  shows "(\<Union>k \<in> rset mn mx. multiples i j k) =
    rset (mn * i) (if j = unbounded \<or> mx = unbounded then unbounded else mx * j)" (is "?L = ?R")
proof
  show "?L \<subseteq> ?R"
  proof
    fix n assume "n \<in> ?L"
    then obtain k where k: "mn \<le> k" "mx = unbounded \<or> k \<le> mx" "k * i \<le> n" "j = unbounded \<and> 0 < k \<or> n \<le> k * j"
      by (auto simp: multiples_def)
    have "mn * i \<le> n" using k(1,3) by (meson mult_le_mono1 order_trans)
    moreover have "n \<le> k * j \<Longrightarrow> k \<le> mx \<Longrightarrow> n \<le> mx * j" by (meson mult_le_mono1 order_trans)
    ultimately show "n \<in> ?R" using k assms(7) by auto
  qed
  show "?R \<subseteq> ?L"
  proof
    fix n assume n: "n \<in> ?R"
    show "n \<in> ?L"
    proof (cases "j = unbounded")
      case True
      define k where "k = (if mn = 0 \<and> n \<noteq> 0 then 1 else mn)"
      have "k \<in> rset mn mx \<and> n \<in> multiples i j k"
        using n True assms(3,4,5) by (auto simp: k_def multiples_def)
      then show ?thesis by blast
    next
      case False
      define M where "M = (if mx = unbounded then mn + n else mx)"
      have "n \<le> M * j" "mn \<le> M"
        using n False assms(2,3,7) by (auto simp: M_def split: if_splits)
          (metis le_add2 le_trans mult_le_mono2 nat_mult_1_right Suc_leI One_nat_def)
      then obtain k where "mn \<le> k" "k \<le> M" "k * i \<le> n" "n \<le> k * j"
        using interval_cover [of i j mn M n] assms(1,6) False n by auto
      then show ?thesis
        using False by (auto simp: multiples_def M_def split: if_splits)
    qed
  qed
qed

section \<open>Well-formed SEREs\<close>

text \<open>The SEREs of the documented grammar, as the constructors build them.\<close>

fun sere_ok :: "fnode \<Rightarrow> bool" where
  "sere_ok eword = True"
| "sere_ok (Unary UFirstMatch f) = sere_ok f"
| "sere_ok (Multi on fs) =
     (if on = MAnd \<or> on = MOr then is_boolean (Multi on fs)
      else 2 \<le> length fs \<and> list_all sere_ok fs)"
| "sere_ok (Starred os f mn mx) = (sere_ok f \<and> mn \<le> mx \<and> 0 < mx \<and> mx \<le> unbounded)"
| "sere_ok f = is_boolean f"

lemma boolean_sere_ok [simp]: "is_boolean f \<Longrightarrow> sere_ok f"
  by (induction f rule: sere_ok.induct) auto

lemma boolean_no_eword [simp]: "is_boolean f \<Longrightarrow> \<not> accepts_eword f"
proof (induction f)
  case (Multi on fs)
  then show ?case by (cases fs; cases on) (auto simp: list_ex_iff list.pred_set)
qed auto

lemma conc_Nil [simp]: "conc A B [] = (A [] \<and> B [])"
  by (auto simp: conc_def)

lemma fuse_Nil [simp]: "\<not> fuse A B []"
  by (auto simp: fuse_def)

lemma foldr_conc_Nil [simp]: "foldr conc Ls eps [] = list_all (\<lambda>L. L []) Ls"
  by (induction Ls) auto

lemma cpow_Nil [simp]: "cpow A n [] = (n = 0 \<or> A [])"
  by (induction n) auto

lemma fpow_Nil [simp]: "\<not> fpow A n []"
  by (cases n) auto

lemma fusion_fold: "length Ls \<noteq> 1 \<Longrightarrow> fusion Ls = foldr fuse Ls one"
proof (induction Ls rule: fusion.induct)
  case (3 L K Ls)
  show ?case
  proof (cases Ls)
    case Nil
    then show ?thesis by (simp add: fusep.un_right fusep.norm_right)
  next
    case (Cons M Ms)
    with 3 show ?thesis by simp
  qed
qed simp_all

text \<open>The property \<open>accepts_eword\<close> computed for a node is right.\<close>

lemma accepts_eword_sere: "sere_ok f \<Longrightarrow> accepts_eword f = sere f []"
proof (induction f rule: sere_ok.induct)
  case (3 on fs)
  show ?case
  proof (cases "on = MAnd \<or> on = MOr")
    case True
    with "3.prems" have "is_boolean (Multi on fs)" by (simp only: sere_ok.simps if_True)
    then show ?thesis using boolean_empty boolean_no_eword by blast
  next
    case False
    then have fs: "fs \<noteq> []" "\<And>f. f \<in> set fs \<Longrightarrow> accepts_eword f = sere f []" "length fs \<noteq> 1"
      using 3 by (auto simp: list.pred_set)
    have "list_all (\<lambda>f. sere f []) fs \<Longrightarrow> list_ex (\<lambda>f. sere f []) fs"
      using fs(1) by (cases fs) auto
    moreover obtain g h gs where "fs = g # h # gs"
      using "3.prems" False by (cases fs; cases "tl fs") auto
    ultimately show ?thesis
      using False fs
      by (cases on) (auto simp: list.pred_set list_ex_iff list.pred_map comp_def fusion_fold)
  qed
next
  case (4 os f mn mx)
  then have "mn \<in> rset mn mx" by simp
  with 4 show ?case
    by (cases os) (auto simp: sere_Starred powers_def simp del: sere.simps)
qed (auto simp: accepts_eword_def [symmetric] dest: boolean_empty)

section \<open>Star-like operators\<close>

lemma sere_const [simp]: "sere eword = eps" "sere tt = one" "sere ff = (\<lambda>w. False)"
  by (rule ext, simp)+

text \<open>The bounds of a star over a star of the same kind must be representable.\<close>

definition star_fits :: "star \<Rightarrow> fnode \<Rightarrow> nat \<Rightarrow> nat \<Rightarrow> bool" where
  "star_fits os child mn mx = (case child of
     Starred os' exp i j \<Rightarrow> os' = os \<longrightarrow>
       mn * i \<le> unbounded \<and> (j = unbounded \<longrightarrow> mn \<noteq> 0 \<or> i \<le> 1) \<and>
       (j \<noteq> unbounded \<and> mx \<noteq> unbounded \<longrightarrow> mx * j < unbounded)
   | _ \<Rightarrow> True)"

lemma fpow_boolean:
  assumes "is_boolean f"
  shows "fpow (sere f) (Suc n) = sere f"
proof -
  have "fuse (sere f) (sere f) w = sere f w" for w
  proof
    assume "fuse (sere f) (sere f) w"
    then show "sere f w"
      using boolean_one [OF assms] by (fastforce simp: fuse_def one_iff)
  next
    assume "sere f w"
    moreover from this obtain l where "w = [l]"
      using boolean_one [OF assms] by (auto simp: one_iff)
    ultimately show "fuse (sere f) (sere f) w"
      unfolding fuse_def by (metis append_Nil)
  qed
  then have "fuse (sere f) (sere f) = sere f" by (rule ext)
  moreover have "fpow (sere f) (Suc 0) = sere f"
    using assms by (auto simp: fusep.un_right fun_eq_iff)
  ultimately show ?thesis
    by (induction n) (simp_all only: fpow.simps(2) [of _ "Suc m" for m])
qed

lemma slang_powers:
  assumes "i \<le> j"
  shows "powers (slang os) (powers (slang os) A (rset i j)) K =
    powers (slang os) A (\<Union>k \<in> K. multiples i j k)"
  by (cases os) (simp_all add: concp.powers_powers [of "multiples i j"] fusep.powers_powers [of "multiples i j"]
      multiples_0 multiples_Suc [OF assms])

lemma powers_zero: "powers (slang os) A {0} = (case os of SStar \<Rightarrow> eps | SFStar \<Rightarrow> one)"
  by (cases os) (auto simp: powers_def fun_eq_iff)

lemma powers_unit:
  "powers cpow A {1} = A" "\<not> A [] \<Longrightarrow> powers fpow A {1} = A"
  using concp.powers_one [of A] fusep.powers_one [of A] by (auto simp: fun_eq_iff)

lemma rset_single: "mx \<noteq> unbounded \<Longrightarrow> rset mx mx = {mx}"
  by auto

lemma cpow_empty: "cpow (\<lambda>w. False) n w = (n = 0 \<and> eps w)"
  by (cases n) (auto simp: conc_def)

lemma cpow_eps: "cpow eps n = eps"
  by (induction n) (simp_all add: concp.un_left)

lemma fpow_eps: "fpow eps n w = (n = 0 \<and> one w)"
  by (cases n) (auto simp: fuse_def eps_def)

lemma powers_cong: "(\<And>n. n \<in> N \<Longrightarrow> pw A n = L) \<Longrightarrow> N \<noteq> {} \<Longrightarrow> powers pw A N = L"
  by (auto simp: powers_def fun_eq_iff)

lemma rset_nonempty: "mn \<le> mx \<Longrightarrow> rset mn mx \<noteq> {}"
  by (auto simp: set_eq_iff intro: exI [of _ mn])

lemma star_of_eword:
  assumes "mn \<le> mx"
  shows "powers cpow eps (rset mn mx) = eps"
    and "powers fpow eps (rset mn mx) = (if mn = 0 then one else (\<lambda>w. False))"
proof -
  show "powers cpow eps (rset mn mx) = eps"
    by (rule powers_cong) (use assms in \<open>simp_all add: cpow_eps rset_nonempty\<close>)
  show "powers fpow eps (rset mn mx) = (if mn = 0 then one else (\<lambda>w. False))"
    by (rule ext) (auto simp: powers_def fpow_eps intro!: bexI [of _ 0])
qed

lemma star_of_ff:
  assumes "mn \<le> mx"
  shows "powers cpow (\<lambda>w. False) (rset mn mx) = (if mn = 0 then eps else (\<lambda>w. False))"
  by (auto simp: powers_def cpow_empty fun_eq_iff intro!: bexI [of _ 0])

lemma fstar_of_boolean:
  assumes "is_boolean f" "mn \<le> mx"
  shows "powers fpow (sere f) (rset mn mx) = (if mn = 0 then one else sere f)"
proof (cases mn)
  case 0
  have "fpow (sere f) n w \<Longrightarrow> one w" for n w
    using fpow_boolean [OF assms(1)] boolean_one [OF assms(1)] by (cases n) auto
  moreover have "0 \<in> rset mn mx" using 0 by simp
  ultimately show ?thesis
    using 0 by (auto simp: powers_def fun_eq_iff intro!: bexI [of _ 0])
next
  case (Suc m)
  have "n \<in> rset mn mx \<Longrightarrow> fpow (sere f) n = sere f" for n
    using Suc fpow_boolean [OF assms(1)] by (cases n) auto
  with Suc show ?thesis
    using powers_cong [of "rset mn mx" "fpow" "sere f" "sere f"] rset_nonempty [OF assms(2)] by simp
qed

lemma bunop_nested:
  assumes "i \<le> j" "0 < j" "j \<le> unbounded" "mn \<le> mx" "0 < mx" "mx \<le> unbounded"
    and "star_fits os (Starred os exp i j) mn mx"
    and "j = unbounded \<or> i * (mn + 1) \<le> j * mn + 1"
  shows "powers (slang os) (sere (Starred os exp i j)) (rset mn mx) =
    sere (Starred os exp (u8 (mn * i))
      (if j = unbounded then unbounded else if mx \<noteq> unbounded then u8 (mx * j) else mx))"
proof -
  let ?mx = "if j = unbounded \<or> mx = unbounded then unbounded else mx * j"
  have fits: "mn * i \<le> unbounded" "j = unbounded \<Longrightarrow> mn \<noteq> 0 \<or> i \<le> 1"
    "j \<noteq> unbounded \<Longrightarrow> mx \<noteq> unbounded \<Longrightarrow> mx * j < unbounded"
    using assms(7) by (simp_all add: star_fits_def)
  have "(\<Union>k \<in> rset mn mx. multiples i j k) = rset (mn * i) ?mx"
    by (rule multiples_union) (use assms fits in auto)
  moreover have "u8 (mn * i) = mn * i" "?mx = (if j = unbounded then unbounded else if mx \<noteq> unbounded then u8 (mx * j) else mx)"
    using fits by (auto simp: u8_def unbounded_def)
  ultimately show ?thesis
    by (simp only: sere_Starred slang_powers [OF assms(1)])
qed

lemma bunop_else:
  assumes "\<not> (os = SFStar \<and> is_boolean child)" "child \<noteq> eword" "child \<noteq> ff" "mx \<noteq> 0"
    and "\<not> (mn = 1 \<and> mx = 1 \<and> (os = SStar \<or> \<not> accepts_eword child))"
  shows "bunop os child mn mx = (case child of
       Starred os' exp i j \<Rightarrow>
         if os' = os \<and> (j = unbounded \<or> i * (mn + 1) \<le> j * mn + 1)
         then Starred os exp (u8 (mn * i))
           (if j = unbounded then unbounded else if mx \<noteq> unbounded then u8 (mx * j) else mx)
         else Starred os child mn mx
     | _ \<Rightarrow> Starred os child mn mx)"
  unfolding bunop_def Let_def
  by (subst if_not_P, use assms in blast)+ (cases child; simp only: fnode.case if_True if_False split: if_split; blast)

lemma bunop_star:
  assumes "\<not> (os = SFStar \<and> is_boolean child)" "child \<noteq> eword" "child \<noteq> ff" "mx \<noteq> 0"
    and "\<not> (mn = 1 \<and> mx = 1 \<and> (os = SStar \<or> \<not> accepts_eword child))"
    and "sere_ok child" "mn \<le> mx" "mx \<le> unbounded" "star_fits os child mn mx"
  shows "sere (bunop os child mn mx) = powers (slang os) (sere child) (rset mn mx) \<and>
    sere_ok (bunop os child mn mx)"
proof (cases "\<exists>exp i j. child = Starred os exp i j \<and> (j = unbounded \<or> i * (mn + 1) \<le> j * mn + 1)")
  case True
  then obtain exp i j where child: "child = Starred os exp i j"
    and le: "j = unbounded \<or> i * (mn + 1) \<le> j * mn + 1" by blast
  let ?mx = "if j = unbounded then unbounded else if mx \<noteq> unbounded then u8 (mx * j) else mx"
  have eq: "bunop os child mn mx = Starred os exp (u8 (mn * i)) ?mx"
    using bunop_else [OF assms(1-5)] child le by simp
  have ij: "i \<le> j" "0 < j" "j \<le> unbounded" and "sere_ok exp"
    using assms(6) child by auto
  have "mn * i \<le> unbounded" "j \<noteq> unbounded \<Longrightarrow> mx \<noteq> unbounded \<Longrightarrow> mx * j < unbounded" "mn * i \<le> mx * j"
    using assms(7,9) child ij(1) by (auto simp: star_fits_def mult_le_mono)
  then have "u8 (mn * i) \<le> ?mx \<and> 0 < ?mx \<and> ?mx \<le> unbounded"
    using assms(4,8) ij by (auto simp: u8_def unbounded_def)
  with eq \<open>sere_ok exp\<close> bunop_nested [OF ij assms(7) _ assms(8) _ le] assms(4,9) child show ?thesis
    by (metis gr0I sere_ok.simps(4))
next
  case False
  then have "bunop os child mn mx = Starred os child mn mx"
    using bunop_else [OF assms(1-5)] by (cases child) simp_all
  with assms show ?thesis
    by (simp add: sere_Starred del: sere.simps)
qed

lemma bunop_sere:
  assumes "sere_ok child" "mn \<le> mx" "mx \<le> unbounded" "star_fits os child mn mx"
  shows "sere (bunop os child mn mx) = powers (slang os) (sere child) (rset mn mx) \<and>
    sere_ok (bunop os child mn mx)"
proof -
  consider (eword) "child = eword" | (bool) "child \<noteq> eword" "child = ff \<or> (os = SFStar \<and> is_boolean child)"
    | (zero) "child \<noteq> eword" "\<not> (child = ff \<or> (os = SFStar \<and> is_boolean child))" "mx = 0"
    | (unit) "child \<noteq> eword" "\<not> (child = ff \<or> (os = SFStar \<and> is_boolean child))" "mx \<noteq> 0"
        "mn = 1 \<and> mx = 1 \<and> (os = SStar \<or> \<not> accepts_eword child)"
    | (star) "child \<noteq> eword" "\<not> (child = ff \<or> (os = SFStar \<and> is_boolean child))" "mx \<noteq> 0"
        "\<not> (mn = 1 \<and> mx = 1 \<and> (os = SStar \<or> \<not> accepts_eword child))"
    by blast
  then show ?thesis
  proof cases
    case eword
    with assms(2) show ?thesis
      by (cases os) (auto simp: bunop_def Let_def star_of_eword)
  next
    case bool
    with assms(2) show ?thesis
      by (cases os) (auto simp: bunop_def Let_def star_of_ff fstar_of_boolean
        fstar_of_boolean [of ff, simplified])
  next
    case zero
    with assms(2) have "rset mn mx = {0}" by (auto simp: unbounded_def)
    with zero show ?thesis
      by (cases os) (simp_all add: bunop_def Let_def powers_zero [of SStar, simplified] powers_zero [of SFStar, simplified])
  next
    case unit
    then have "rset mn mx = {1}" by (auto simp: unbounded_def)
    with unit assms(1) show ?thesis
      using powers_unit [of "sere child"] accepts_eword_sere [OF assms(1)]
      by (cases os) (auto simp: bunop_def Let_def)
  next
    case star
    with assms show ?thesis by (intro bunop_star) auto
  qed
qed

end
