(* ===== verification/SereMultop.thy ===== *)
theory SereMultop
  imports Sere
begin

text \<open>
  The rational operators of \<open>fnode::multop\<close> (tl/formula.cc) keep the language of their operands.
\<close>

section \<open>The two products as one family\<close>

fun smul :: "star \<Rightarrow> lang \<Rightarrow> lang \<Rightarrow> lang" where
  "smul SStar = conc"
| "smul SFStar = fuse"

fun sunit :: "star \<Rightarrow> lang" where
  "sunit SStar = eps"
| "sunit SFStar = one"

definition snorm :: "star \<Rightarrow> lang \<Rightarrow> lang" where
  "snorm os A w = (A w \<and> (os = SFStar \<longrightarrow> w \<noteq> []))"

lemma snorm_simps [simp]: "snorm SStar = (\<lambda>A. A)" "snorm SFStar = (\<lambda>A w. A w \<and> w \<noteq> [])"
  by (auto simp: snorm_def fun_eq_iff)

interpretation sp: lang_product "smul os" "sunit os" "snorm os" "slang os" for os
  by (cases os) (simp_all add: concp.lang_product_axioms fusep.lang_product_axioms)

abbreviation sprod :: "star \<Rightarrow> lang list \<Rightarrow> lang" where
  "sprod os Ls \<equiv> foldr (smul os) Ls (sunit os)"

section \<open>Merging repeated operands\<close>

definition star_base :: "star \<Rightarrow> fnode \<Rightarrow> fnode" where
  "star_base os h = fst (star_view os h)"

definition star_weight :: "star \<Rightarrow> fnode \<Rightarrow> nat" where
  "star_weight os h = (case star_view os h of (g, mn, mx) \<Rightarrow> max mn (if mx = unbounded then 0 else mx))"

definition base_weight :: "star \<Rightarrow> fnode \<Rightarrow> fnode list \<Rightarrow> nat" where
  "base_weight os f hs = sum_list (map (star_weight os) (filter (\<lambda>h. star_base os h = f) hs))"

text \<open>
  The sums of the bounds fit in a byte, and no operand is a star of a star of the same kind.
\<close>

definition merge_fits :: "star \<Rightarrow> fnode list \<Rightarrow> bool" where
  "merge_fits os v = list_all (\<lambda>h.
     (case star_base os h of Starred os' g mn mx \<Rightarrow> os' \<noteq> os | _ \<Rightarrow> True) \<and>
     base_weight os (star_base os h) v < unbounded) v"

lemma base_weight_Cons [simp]:
  "base_weight os f (h # hs) = (if star_base os h = f then star_weight os h else 0) + base_weight os f hs"
  by (simp add: base_weight_def)

lemma base_weight_append: "base_weight os f (us @ vs) = base_weight os f us + base_weight os f vs"
  by (simp add: base_weight_def)

lemma merge_fits_suffix: "merge_fits os (us @ vs) \<Longrightarrow> merge_fits os vs"
  by (auto simp: merge_fits_def base_weight_append elim!: list.pred_mono_strong)

lemma star_view_sere:
  assumes "sere_ok h" "star_view os h = (f, mn, mx)"
  shows "snorm os (sere h) = powers (slang os) (sere f) (rset mn mx)"
    and "mn \<le> mx" "mx \<le> unbounded" "sere_ok f"
proof -
  consider (star) "h = Starred os f mn mx" | (other) "f = h" "mn = 1" "mx = 1"
    using assms(2) by (cases h) (auto split: if_splits)
  then have "snorm os (sere h) = powers (slang os) (sere f) (rset mn mx) \<and>
    mn \<le> mx \<and> mx \<le> unbounded \<and> sere_ok f"
  proof cases
    case star
    with assms(1) show ?thesis by (simp add: sere_Starred sp.norm_powers del: sere.simps)
  next
    case other
    have "rset 1 1 = {1}" by (rule rset_single) (simp add: unbounded_def)
    with other assms(1) show ?thesis
      by (simp add: sp.powers_one del: One_nat_def) (simp add: unbounded_def)
  qed
  then show "snorm os (sere h) = powers (slang os) (sere f) (rset mn mx)"
    "mn \<le> mx" "mx \<le> unbounded" "sere_ok f" by blast+
qed

lemma sprod_snorm: "snorm os A = B \<Longrightarrow> sprod os (A # Ls) = sprod os (B # Ls)"
  using sp.fold_norm_left [of os A Ls] by simp

lemma merge_run_suffix: "\<exists>us. hs = us @ snd (merge_run os f mn mx ch hs)"
proof (induction hs arbitrary: mn mx ch)
  case (Cons h hs)
  then show ?case
    by (auto split: prod.splits) (metis append_Cons)
qed simp

lemma merge_run_sere:
  assumes "list_all sere_ok hs" "mn \<le> mx" "mx \<le> unbounded"
    and "max mn (if mx = unbounded then 0 else mx) + base_weight os f hs < unbounded"
    and "merge_run os f mn mx ch hs = ((mn', mx', ch'), rest)"
  shows "sprod os (powers (slang os) (sere f) (rset mn mx) # map sere hs) =
      sprod os (powers (slang os) (sere f) (rset mn' mx') # map sere rest) \<and>
    mn' \<le> mx' \<and> mn' < unbounded \<and> mx' \<le> unbounded \<and> (ch \<longrightarrow> ch') \<and>
    (\<not> ch' \<longrightarrow> mn' = mn \<and> mx' = mx \<and> rest = hs)"
  using assms
proof (induction hs arbitrary: mn mx ch)
  case (Cons h hs)
  obtain f2 mn2 mx2 where view: "star_view os h = (f2, mn2, mx2)"
    by (cases "star_view os h")
  show ?case
  proof (cases "f2 = f")
    case False
    with Cons.prems view show ?thesis by auto
  next
    case True
    note h = star_view_sere [of h os f2 mn2 mx2, OF _ view]
    let ?P = "\<lambda>mn mx. powers (slang os) (sere f) (rset mn mx)"
    have w: "star_base os h = f" "star_weight os h = max mn2 (if mx2 = unbounded then 0 else mx2)"
      using view True by (auto simp: star_base_def star_weight_def)
    have mn: "add_bound mn mn2 = mn + mn2"
      using Cons.prems(4) w by (auto simp: add_bound_def)
    have fit: "mx \<noteq> unbounded \<Longrightarrow> mx2 \<noteq> unbounded \<Longrightarrow> mx + mx2 < unbounded"
      using Cons.prems(4) w by auto
    have "{m + n |m n. m \<in> rset mn mx \<and> n \<in> rset mn2 mx2} = rset (mn + mn2) (add_bound mx mx2)"
      by (rule rset_add [OF Cons.prems(2) _ fit]) (use h(2) Cons.prems(1) in simp_all)
    then have "smul os (?P mn mx) (?P mn2 mx2) = ?P (mn + mn2) (add_bound mx mx2)"
      by (simp add: sp.powers_add)
    moreover have "sprod os (sere h # Ls) = sprod os (?P mn2 mx2 # Ls)" for Ls
      by (rule sprod_snorm) (use h(1) Cons.prems(1) True in simp)
    ultimately have step: "sprod os (?P mn mx # map sere (h # hs)) =
        sprod os (?P (add_bound mn mn2) (add_bound mx mx2) # map sere hs)"
      using mn by (simp flip: sp.assoc)
    have "add_bound mn mn2 \<le> add_bound mx mx2" "add_bound mx mx2 \<le> unbounded"
      "max (add_bound mn mn2) (if add_bound mx mx2 = unbounded then 0 else add_bound mx mx2)
        + base_weight os f hs < unbounded"
      using mn fit Cons.prems(1-4) w h by (auto simp: add_bound_def)
    moreover have "merge_run os f (add_bound mn mn2) (add_bound mx mx2) True hs = ((mn', mx', ch'), rest)"
      using Cons.prems(5) view True by simp
    ultimately show ?thesis
      unfolding step using Cons.IH [of "add_bound mn mn2" "add_bound mx mx2" True] Cons.prems(1) by simp
  qed
qed simp

lemma merge_stars_sere:
  assumes "list_all sere_ok v" "merge_fits os v"
  shows "sprod os (map sere (merge_stars os v)) = sprod os (map sere v) \<and>
    list_all sere_ok (merge_stars os v)"
  using assms
proof (induction os v rule: merge_stars.induct)
  case (2 os h hs)
  obtain f mn mx where view: "star_view os h = (f, mn, mx)"
    by (cases "star_view os h")
  obtain mn' mx' ch' rest where run: "merge_run os f mn mx False hs = ((mn', mx', ch'), rest)"
    by (metis prod.collapse)
  let ?P = "\<lambda>mn mx. powers (slang os) (sere f) (rset mn mx)"
  have h: "snorm os (sere h) = ?P mn mx" "mn \<le> mx" "mx \<le> unbounded" "sere_ok f"
    using star_view_sere [OF _ view] 2(2) by auto
  have base: "star_base os h = f" "star_weight os h = max mn (if mx = unbounded then 0 else mx)"
    using view by (simp_all add: star_base_def star_weight_def)
  have nested: "case f of Starred os' g mn mx \<Rightarrow> os' \<noteq> os | _ \<Rightarrow> True"
    and fit: "max mn (if mx = unbounded then 0 else mx) + base_weight os f hs < unbounded"
    using 2(3) base by (auto simp: merge_fits_def)
  obtain us where us: "hs = us @ rest"
    using merge_run_suffix [of hs os f mn mx False] run by auto
  have IH: "sprod os (map sere (merge_stars os rest)) = sprod os (map sere rest) \<and>
      list_all sere_ok (merge_stars os rest)"
    using "2.IH" [OF view [symmetric] refl refl refl] run 2(2,3) us
      merge_fits_suffix [of os "h # us" rest] by auto
  have m: "sprod os (?P mn mx # map sere hs) = sprod os (?P mn' mx' # map sere rest)"
    "mn' \<le> mx'" "mn' < unbounded" "mx' \<le> unbounded"
    "\<not> ch' \<Longrightarrow> mn' = mn \<and> mx' = mx \<and> rest = hs"
    using merge_run_sere [OF _ h(2,3) fit run] 2(2) by auto
  let ?g = "if ch' then bunop os f (u8 mn') (u8 mx') else h"
  have u8: "u8 mn' = mn'" "u8 mx' = mx'"
    using m(3,4) by (auto simp: u8_def unbounded_def)
  have "star_fits os f mn' mx'"
    using nested by (auto simp: star_fits_def split: fnode.splits)
  then have g: "snorm os (sere ?g) = ?P mn' mx' \<and> sere_ok ?g"
    using bunop_sere [OF h(4) m(2,4)] m(5) h(1) 2(2) u8 by (auto simp: sp.norm_powers)
  have eq: "merge_stars os (h # hs) = ?g # merge_stars os rest"
    using view run by (simp add: Let_def)
  have "sprod os (map sere (?g # merge_stars os rest)) = sprod os (?P mn' mx' # map sere rest)"
    using sprod_snorm [of os "sere ?g" "?P mn' mx'"] g IH by simp
  also have "\<dots> = sprod os (map sere (h # hs))"
    using sprod_snorm [OF h(1)] m(1) by simp
  finally show ?case
    using eq g IH by simp
qed simp

section \<open>Boolean operands\<close>

lemma multop_boolean:
  assumes "list_all is_boolean v" "on = MAnd \<or> on = MOr"
  shows "is_boolean (multop lt on v)"
proof -
  have fin: "is_boolean (finish_multop on n us)" if "list_all is_boolean us" for n us
    using that assms(2) by (auto simp: finish_multop_def split: list.splits)
  have red: "is_boolean (reduce_operands on n us)" if "list_all is_boolean us" for n us
  proof (cases "scan_operands on None us")
    case None
    then show ?thesis using assms(2) by (auto simp: reduce_operands_def)
  next
    case (Some us')
    with scan_operands_Some [OF this] that have "list_all is_boolean us'"
      by (auto simp: list.pred_set)
    with Some fin assms(2) show ?thesis by (auto simp: reduce_operands_def)
  qed
  have "is_boolean g" if "f \<in> set v" "g \<in> set (if is_multi on f then children_of f else [f])" for f g
    by (insert that assms, cases f) (auto simp: list.pred_set split: if_splits)
  then have "list_all is_boolean (inline_operands on v)"
    unfolding inline_operands_def list.pred_set by auto
  then have "list_all is_boolean (operand_list lt on v)"
    by (simp add: operand_list_def list.pred_set)
  with red assms(2) show ?thesis by (auto simp: Let_def)
qed

lemma multop_boolean_sere:
  assumes "list_all is_boolean v"
  shows "sere (multop lt MAnd v) = mlang MAnd (map sere v)"
    and "sere (multop lt MOr v) = mlang MOr (map sere v)"
proof -
  have ones: "one w" if "sere (multop lt on v) w" "on = MAnd \<or> on = MOr" for on w
    using boolean_one [OF multop_boolean [OF assms that(2)] that(1)] .
  show "sere (multop lt MAnd v) = mlang MAnd (map sere v)"
  proof
    fix w
    show "sere (multop lt MAnd v) w = mlang MAnd (map sere v) w"
    proof (cases "one w")
      case True
      then obtain l where "w = [l]" by (auto simp: one_iff)
      then show ?thesis using letter.multop_And [of lt v l] by (simp add: list.pred_map comp_def)
    next
      case False
      then show ?thesis using ones [of MAnd w] by auto
    qed
  qed
  show "sere (multop lt MOr v) = mlang MOr (map sere v)"
  proof
    fix w
    show "sere (multop lt MOr v) w = mlang MOr (map sere v) w"
    proof (cases "one w")
      case True
      then obtain l where "w = [l]" by (auto simp: one_iff)
      then show ?thesis using letter.multop_Or [of lt v l] by (simp add: list_ex_iff)
    next
      case False
      then have "\<not> list_ex (\<lambda>f. sere f w) v"
        using assms boolean_one by (auto simp: list_ex_iff list.pred_set)
      with False show ?thesis using ones [of MOr w] by (auto simp: list_ex_iff)
    qed
  qed
qed

lemma fuse_boolean: "is_boolean f \<Longrightarrow> (\<And>w. L w \<Longrightarrow> one w) \<Longrightarrow> fuse (sere f) L w = (sere f w \<and> L w)"
  unfolding fuse_def
proof (intro iffI, goal_cases)
  case 1
  then show ?case using boolean_one [OF 1(1)] by (fastforce simp: one_iff)
next
  case 2
  then obtain l where "w = [l]" by (auto simp: one_iff)
  with 2 show ?case by (auto intro!: exI [of _ "[]"])
qed

lemma fuse_booleans:
  "list_all is_boolean v \<Longrightarrow> foldr fuse (map sere v) one = mlang MAnd (map sere v)"
proof (induction v)
  case (Cons f v)
  have "fuse (sere f) (mlang MAnd (map sere v)) w = (sere f w \<and> mlang MAnd (map sere v) w)" for w
    by (rule fuse_boolean) (use Cons.prems in auto)
  moreover have "foldr fuse (map sere (f # v)) one = fuse (sere f) (mlang MAnd (map sere v))"
    using Cons by (simp del: mlang.simps)
  ultimately show ?case by (auto simp: fun_eq_iff)
qed (simp add: fun_eq_iff)

lemma fuse_bools_sere:
  "foldr fuse (map sere (fuse_bools (multop lt MAnd) v)) one = foldr fuse (map sere v) one"
proof (induction "multop lt MAnd" v rule: fuse_bools.induct)
  case (2 f fs)
  show ?case
  proof (cases "is_boolean f \<and> takeWhile is_boolean fs \<noteq> []")
    case False
    with 2 show ?thesis by (auto simp: Let_def simp del: multop.simps)
  next
    case True
    let ?run = "takeWhile is_boolean fs" and ?rest = "dropWhile is_boolean fs"
    have "list_all is_boolean (f # ?run)"
      using True by (auto simp: list.pred_set dest: set_takeWhileD)
    then have "sere (multop lt MAnd (f # ?run)) = foldr fuse (map sere (f # ?run)) one"
      using fuse_booleans multop_boolean_sere(1) by metis
    moreover have "foldr fuse (map sere (fuse_bools (multop lt MAnd) ?rest)) one =
        foldr fuse (map sere ?rest) one"
      using 2(3) True by simp
    moreover have "foldr fuse (map sere (f # fs)) one =
        fuse (foldr fuse (map sere (f # ?run)) one) (foldr fuse (map sere ?rest) one)"
      using fusep.fold_append [of "map sere (f # ?run)" "map sere ?rest"]
      by (simp del: foldr.simps flip: map_append)
    ultimately show ?thesis
      using True by (simp add: Let_def del: multop.simps)
  qed
qed simp

section \<open>Inlined, gathered and absorbed operands\<close>

lemma nlm_iff:
  "Ls \<noteq> [] \<Longrightarrow> mlang MAndNLM Ls w \<longleftrightarrow>
    (\<exists>L \<in> set Ls. L w) \<and> (\<forall>L \<in> set Ls. \<exists>k \<le> length w. L (take k w))"
  by (simp add: list.pred_set list_ex_iff)

lemma nlm_prefix:
  assumes "Ls \<noteq> []"
  shows "(\<exists>k \<le> length w. mlang MAndNLM Ls (take k w)) = (\<forall>L \<in> set Ls. \<exists>k \<le> length w. L (take k w))"
    (is "?A = ?B")
proof
  assume ?A
  then obtain k where k: "k \<le> length w" "mlang MAndNLM Ls (take k w)" by blast
  show ?B
  proof
    fix L assume "L \<in> set Ls"
    with k(2) nlm_iff [OF assms] obtain k' where "L (take k' (take k w))" by blast
    then have "L (take (min k' k) w)" by simp
    with k(1) show "\<exists>k \<le> length w. L (take k w)" by (metis min.coboundedI2)
  qed
next
  assume ?B
  then obtain k where k: "\<And>L. L \<in> set Ls \<Longrightarrow> k L \<le> length w \<and> L (take (k L) w)"
    by metis
  let ?M = "Max (k ` set Ls)"
  obtain L where L: "L \<in> set Ls" "k L = ?M"
    using Max_in [of "k ` set Ls"] assms by fastforce
  have all: "\<exists>j \<le> length (take ?M w). K (take j (take ?M w))" if "K \<in> set Ls" for K
  proof -
    have "k K \<le> ?M" using that by simp
    then have "take (k K) (take ?M w) = take (k K) w" "k K \<le> length (take ?M w)"
      using k [OF that] by (simp_all add: min_def)
    with k [OF that] show ?thesis by metis
  qed
  have "L (take ?M w)" "?M \<le> length w" using k [OF L(1)] L(2) by simp_all
  moreover from this(1) all L(1) have "mlang MAndNLM Ls (take ?M w)"
    using nlm_iff [OF assms] by blast
  ultimately show ?A by blast
qed

lemma set_inline: "set (inline_operands on v) = (\<Union>f \<in> set v. set (if is_multi on f then children_of f else [f]))"
  by (simp only: inline_operands_def set_concat set_map image_image)

lemma inline_sere_ok:
  assumes "list_all sere_ok v" "on \<noteq> MAnd" "on \<noteq> MOr"
  shows "list_all sere_ok (inline_operands on v)"
proof -
  have "sere_ok g" if "f \<in> set v" "g \<in> set (if is_multi on f then children_of f else [f])" for f g
    by (insert that assms, cases f) (auto simp: list.pred_set split: if_splits)
  then show ?thesis
    unfolding inline_operands_def list.pred_set by auto
qed

lemma nlm_flatten:
  assumes "Ls \<noteq> []"
  shows "mlang MAndNLM (mlang MAndNLM Ls # Ks) = mlang MAndNLM (Ls @ Ks)"
proof
  fix w :: "letter list"
  let ?p = "\<lambda>L. \<exists>k \<le> length w. L (take k w)"
  have "mlang MAndNLM (mlang MAndNLM Ls # Ks) w \<longleftrightarrow>
      (mlang MAndNLM Ls w \<or> (\<exists>L \<in> set Ks. L w)) \<and> (\<forall>L \<in> set Ls \<union> set Ks. ?p L)"
    using nlm_iff [of "mlang MAndNLM Ls # Ks" w] nlm_prefix [OF assms, of w]
    by (simp del: mlang.simps add: ball_Un)
  also have "\<dots> \<longleftrightarrow> mlang MAndNLM (Ls @ Ks) w"
    using nlm_iff [OF assms, of w] nlm_iff [of "Ls @ Ks" w] assms
    by (simp del: mlang.simps add: ball_Un bex_Un) blast
  finally show "mlang MAndNLM (mlang MAndNLM Ls # Ks) w = mlang MAndNLM (Ls @ Ks) w" .
qed

lemma nlm_set: "set Ls = set Ks \<Longrightarrow> mlang MAndNLM Ls = mlang MAndNLM Ks"
proof (cases "Ls = []")
  case False
  moreover assume eq: "set Ls = set Ks"
  ultimately have "Ks \<noteq> []" by auto
  show ?thesis
    by (rule ext) (simp only: nlm_iff [OF False] nlm_iff [OF \<open>Ks \<noteq> []\<close>] eq)
qed simp

lemma nlm_single: "mlang MAndNLM [L] = L"
  by (rule ext) (simp, metis order_refl take_all)

lemma nlm_Cons_cong:
  assumes "mlang MAndNLM Ls = mlang MAndNLM Ks" "Ls \<noteq> []" "Ks \<noteq> []"
  shows "mlang MAndNLM (L # Ls) = mlang MAndNLM (L # Ks)"
proof -
  have "mlang MAndNLM (L # Ms) = mlang MAndNLM (mlang MAndNLM Ms # [L])" if "Ms \<noteq> []" for Ms
    unfolding nlm_flatten [OF that] by (rule nlm_set) auto
  with assms show ?thesis by metis
qed

lemma nlm_booleans:
  assumes "list_all is_boolean v" "v \<noteq> []"
  shows "mlang MAnd (map sere v) = mlang MAndNLM (map sere v)"
proof
  fix w
  have one: "sere f u \<Longrightarrow> one u" if "f \<in> set v" for f u
    using boolean_one assms(1) that by (auto simp: list.pred_set)
  have nlm: "mlang MAndNLM (map sere v) w \<longleftrightarrow>
      (\<exists>f \<in> set v. sere f w) \<and> (\<forall>f \<in> set v. \<exists>k \<le> length w. sere f (take k w))"
    using nlm_iff [of "map sere v" w] assms(2) by simp
  have pre: "(\<exists>k \<le> length w. sere f (take k w)) \<longleftrightarrow> sere f w" if f: "f \<in> set v" and w1: "one w" for f
  proof -
    obtain l where w: "w = [l]" using w1 by (auto simp: one_iff)
    have "\<not> sere f []" using one [OF f, of "[]"] by auto
    then show ?thesis
      using w by (auto simp: le_Suc_eq intro!: exI [of _ 1])
  qed
  show "mlang MAnd (map sere v) w = mlang MAndNLM (map sere v) w"
  proof (cases "one w")
    case True
    then have "mlang MAnd (map sere v) w \<longleftrightarrow> (\<forall>f \<in> set v. sere f w)"
      by (simp add: list.pred_set)
    also have "\<dots> \<longleftrightarrow> mlang MAndNLM (map sere v) w"
      unfolding nlm using pre True hd_in_set [OF assms(2)] by blast
    finally show ?thesis .
  next
    case False
    then show ?thesis unfolding nlm using one by auto
  qed
qed

lemma inline_nlm:
  assumes "list_all sere_ok v"
  shows "mlang MAndNLM (map sere (inline_operands MAndNLM v)) = mlang MAndNLM (map sere v) \<and>
    (inline_operands MAndNLM v = [] \<longleftrightarrow> v = [])"
  using assms
proof (induction v)
  case Nil
  show ?case by (simp add: inline_operands_def)
next
  case (Cons f v)
  let ?i = "\<lambda>v. inline_operands MAndNLM v"
  have IH: "mlang MAndNLM (map sere (?i v)) = mlang MAndNLM (map sere v)" "?i v = [] \<longleftrightarrow> v = []"
    using Cons by (simp_all del: mlang.simps)
  have cong: "mlang MAndNLM (L # map sere (?i v)) = mlang MAndNLM (L # map sere v)" for L
    using nlm_Cons_cong [OF IH(1)] IH(2) by (cases "v = []") (auto simp del: mlang.simps)
  show ?case
  proof (cases "is_multi MAndNLM f")
    case True
    then obtain gs where f: "f = Multi MAndNLM gs"
      by (cases f) auto
    then have gs: "gs \<noteq> []" using Cons.prems by auto
    have fs: "sere f = mlang MAndNLM (map sere gs)"
      unfolding f by (rule ext) (simp only: sere.simps)
    have "?i (f # v) = gs @ ?i v"
      using f by (simp add: inline_operands_def)
    then have "mlang MAndNLM (map sere (?i (f # v))) = mlang MAndNLM (sere f # map sere (?i v))"
      using nlm_flatten [of "map sere gs" "map sere (?i v)"] gs fs by (simp del: mlang.simps)
    with cong gs f show ?thesis by (simp del: mlang.simps sere.simps add: inline_operands_def)
  next
    case False
    then have "?i (f # v) = f # ?i v" by (simp add: inline_operands_def)
    with cong show ?thesis by (simp del: mlang.simps)
  qed
qed

fun product_op :: "star \<Rightarrow> multi" where
  "product_op SStar = MConcat"
| "product_op SFStar = MFusion"

lemma sere_product:
  assumes "sere_ok (Multi (product_op os) gs)"
  shows "snorm os (sere (Multi (product_op os) gs)) = sprod os (map sere gs)"
proof -
  have "2 \<le> length gs" using assms by (cases os) auto
  then have "sere (Multi (product_op os) gs) = sprod os (map sere gs)"
    by (cases os) (auto simp: fun_eq_iff fusion_fold)
  then show ?thesis by (simp add: sp.fold_norm)
qed

lemma inline_product:
  "list_all sere_ok v \<Longrightarrow> sprod os (map sere (inline_operands (product_op os) v)) = sprod os (map sere v)"
proof (induction v)
  case (Cons f v)
  show ?case
  proof (cases "is_multi (product_op os) f")
    case True
    then obtain gs where f: "f = Multi (product_op os) gs" by (cases f) auto
    have "sprod os (map sere (f # v)) = sprod os (sprod os (map sere gs) # map sere v)"
      using sprod_snorm [OF sere_product] Cons.prems f by auto
    then show ?thesis
      using Cons f sp.fold_append [of os "map sere gs"] by (simp add: inline_operands_def)
  next
    case False
    with Cons show ?thesis by (simp add: inline_operands_def)
  qed
qed (simp add: inline_operands_def)

lemma concI: "A u \<Longrightarrow> B v \<Longrightarrow> conc A B (u @ v)"
  by (auto simp: conc_def)

lemma sere_one_star [simp]: "powers cpow one (rset 0 unbounded) = (\<lambda>w. True)"
proof
  fix w :: "letter list"
  have "cpow one (length w) w"
  proof (induction w)
    case (Cons l w)
    then show ?case using concI [of one "[l]" "cpow one (length w)" w] by simp
  qed simp
  then show "powers cpow one (rset 0 unbounded) w = True"
    by (auto simp: powers_def)
qed

lemma star_run:
  "list_all (\<lambda>f. sere f []) run \<Longrightarrow> one_star \<in> set run \<Longrightarrow> foldr conc (map sere run) eps w"
proof (induction run)
  case (Cons f run)
  show ?case
  proof (cases "f = one_star")
    case True
    then have "sere f w" "w = w @ []"
      by (simp_all add: sere_Starred del: sere.simps)
    moreover have "foldr conc (map sere run) eps []"
      using Cons.prems by (simp add: list.pred_map comp_def)
    ultimately show ?thesis using concI [of "sere f" w "foldr conc (map sere run) eps" "[]"] by simp
  next
    case False
    with Cons have "foldr conc (map sere run) eps w" "sere f []" by auto
    then show ?thesis using concI [of "sere f" "[]"] by simp
  qed
qed simp

lemma absorb_star_sere:
  assumes "list_all sere_ok v"
  shows "foldr conc (map sere (absorb_star v)) eps = foldr conc (map sere v) eps \<and>
    list_all sere_ok (absorb_star v)"
  using assms
proof (induction v rule: absorb_star.induct)
  case (2 f fs)
  show ?case
  proof (cases "accepts_eword f")
    case False
    with 2 show ?thesis by simp
  next
    case True
    let ?run = "f # takeWhile accepts_eword fs" and ?rest = "dropWhile accepts_eword fs"
    have ok: "list_all sere_ok ?run" "list_all sere_ok ?rest" "list_all accepts_eword ?run"
      using "2.prems" True by (auto simp: list.pred_set dest: set_takeWhileD set_dropWhileD)
    then have acc: "list_all (\<lambda>f. sere f []) ?run"
      using accepts_eword_sere by (simp add: list.pred_set)
    let ?r = "if one_star \<in> set ?run then [one_star] else ?run"
    have "foldr conc (map sere ?r) eps = foldr conc (map sere ?run) eps"
      using star_run [OF acc] by (auto simp: sere_Starred concp.un_right fun_eq_iff simp del: sere.simps)
    moreover have "list_all sere_ok ?r"
      using ok by (auto simp: unbounded_def)
    moreover have "fs = takeWhile accepts_eword fs @ ?rest" by simp
    then have "foldr conc (map sere (f # fs)) eps = foldr conc (map sere ?run @ map sere ?rest) eps"
      by (metis append_Cons map_append)
    moreover have "foldr conc (map sere (absorb_star ?rest)) eps = foldr conc (map sere ?rest) eps \<and>
        list_all sere_ok (absorb_star ?rest)"
      using "2.IH"(2) [of ?run ?rest] True ok(2) by simp
    moreover have "absorb_star (f # fs) = ?r @ absorb_star ?rest"
      using True by (simp add: Let_def)
    ultimately show ?thesis
      by (simp only: concp.fold_append map_append list.pred_inject list_all_append)
  qed
qed simp

lemma absorb_star_subset: "mset (absorb_star v) \<subseteq># mset v"
proof (induction v rule: absorb_star.induct)
  case (2 f fs)
  show ?case
  proof (cases "accepts_eword f")
    case False
    with 2 show ?thesis by simp
  next
    case True
    let ?run = "f # takeWhile accepts_eword fs" and ?rest = "dropWhile accepts_eword fs"
    let ?r = "if one_star \<in> set ?run then [one_star] else ?run"
    have "mset ?r \<subseteq># mset ?run"
      using single_subset_iff [of one_star "mset ?run"] by (auto simp del: one_star_eq)
    moreover have "mset (absorb_star ?rest) \<subseteq># mset ?rest"
      using "2.IH"(2) [of ?run ?rest] True by simp
    ultimately have "mset ?r + mset (absorb_star ?rest) \<subseteq># mset ?run + mset ?rest"
      by (rule subset_mset.add_mono)
    moreover have "mset ?run + mset ?rest = mset (f # fs)"
      by (simp flip: mset_append)
    ultimately show ?thesis
      using True by (simp add: Let_def)
  qed
qed simp

lemma merge_fits_subset:
  assumes "merge_fits os v" "mset u \<subseteq># mset v"
  shows "merge_fits os u"
proof -
  have weight: "base_weight os f us = sum_mset (image_mset (star_weight os) (filter_mset (\<lambda>h. star_base os h = f) (mset us)))" for f us
    by (simp add: base_weight_def flip: mset_filter mset_map sum_mset_sum_list)
  have "base_weight os f u \<le> base_weight os f v" for f
    using assms(2) by (auto simp: weight mset_subset_eq_exists_conv)
  moreover have "set u \<subseteq> set v"
    using assms(2) by (metis set_mset_mono set_mset_mset)
  ultimately show ?thesis
    using assms(1) unfolding merge_fits_def list.pred_set by (meson le_less_trans subsetD)
qed

section \<open>The n-ary operators\<close>

text \<open>
  The conditions under which the identities applied to the operands are valid.  The conjunction
  without length matching drops 1 together with every operand that accepts the empty word, which
  needs that there is no such operand.
\<close>

definition multop_fits :: "(fnode \<Rightarrow> fnode \<Rightarrow> bool) \<Rightarrow> multi \<Rightarrow> fnode list \<Rightarrow> bool" where
  "multop_fits lt on v = (case on of
     MAndNLM \<Rightarrow>
       let ops = operand_list lt MAndNLM v; b = filter is_boolean ops
       in b = [] \<or> multop lt MAnd b \<noteq> tt \<or> list_all (\<lambda>f. f = eword \<or> \<not> accepts_eword f) ops
   | MConcat \<Rightarrow> merge_fits SStar (inline_operands MConcat v)
   | MFusion \<Rightarrow> length (inline_operands MFusion v) \<noteq> 1 \<and>
       merge_fits SFStar (fuse_bools (multop lt MAnd) (inline_operands MFusion v))
   | MOrRat \<Rightarrow> True
   | MAndRat \<Rightarrow> True
   | _ \<Rightarrow> list_all is_boolean v)"

lemma multop_OrRat:
  assumes "list_all sere_ok v"
  shows "sere (multop lt MOrRat v) = mlang MOrRat (map sere v)"
proof
  fix w
  let ?ops = "operand_list lt MOrRat v"
  let ?b = "filter is_boolean ?ops" and ?r = "filter (\<lambda>f. \<not> is_boolean f) ?ops"
  let ?g = "gather_bool (multop lt MOr) ?ops"
  have ops: "(\<exists>f \<in> set ?ops. sere f w) \<longleftrightarrow> (\<exists>f \<in> set v. sere f w)"
  proof -
    have "(\<exists>g \<in> set (if is_multi MOrRat f then children_of f else [f]). sere g w) \<longleftrightarrow> sere f w" for f
      by (cases f) (auto simp: list_ex_iff)
    then have "(\<exists>f \<in> set (inline_operands MOrRat v). sere f w) \<longleftrightarrow> (\<exists>f \<in> set v. sere f w)"
      unfolding set_inline bex_UN by (simp only:)
    then show ?thesis by (simp add: operand_list_def)
  qed
  have "sere (multop lt MOr ?b) w \<longleftrightarrow> (\<exists>f \<in> set ?b. sere f w)"
    using multop_boolean_sere(2) [of ?b lt] by (simp add: list.pred_set list_ex_iff)
  then have g: "(\<exists>f \<in> set ?g. sere f w) \<longleftrightarrow> (\<exists>f \<in> set ?ops. sere f w)"
    by (auto simp: gather_bool_def Let_def filter_empty_conv simp del: multop.simps)
  have fin: "sere (finish_multop MOrRat n us) w \<longleftrightarrow> (\<exists>f \<in> set us. sere f w)" for n us
    by (auto simp: finish_multop_def list_ex_iff split: list.splits)
  have "sere (reduce_operands MOrRat n ?g) w \<longleftrightarrow> (\<exists>f \<in> set ?g. sere f w)" for n
  proof (cases "scan_operands MOrRat None ?g")
    case None
    have "sere one_star w" by (simp add: sere_Starred del: sere.simps)
    moreover have "one_star \<in> set ?g" using scan_operands_None [OF None] by simp
    ultimately show ?thesis
      using None by (auto simp: reduce_operands_def simp del: one_star_eq)
  next
    case (Some us)
    then show ?thesis
      using scan_operands_Some [OF Some] fin by (auto simp: reduce_operands_def)
  qed
  with g ops show "sere (multop lt MOrRat v) w = mlang MOrRat (map sere v) w"
    by (simp add: Let_def list_ex_iff)
qed

lemma operand_list_ok:
  "list_all sere_ok v \<Longrightarrow> on \<noteq> MAnd \<Longrightarrow> on \<noteq> MOr \<Longrightarrow> list_all sere_ok (operand_list lt on v)"
  using inline_sere_ok [of v on] by (simp add: operand_list_def list.pred_set)

lemma gather_bool_ok:
  assumes "list_all sere_ok v" "on = MAnd \<or> on = MOr"
  shows "list_all sere_ok (gather_bool (multop lt on) v)"
proof -
  have "is_boolean (multop lt on (filter is_boolean v))"
    by (rule multop_boolean) (use assms in \<open>simp_all add: list.pred_set\<close>)
  with assms(1) show ?thesis
    by (auto simp: gather_bool_def Let_def list.pred_set simp del: multop.simps)
qed

lemma multop_AndRat:
  assumes "list_all sere_ok v"
  shows "sere (multop lt MAndRat v) = mlang MAndRat (map sere v)"
proof
  fix w
  let ?ops = "operand_list lt MAndRat v"
  let ?b = "filter is_boolean ?ops" and ?r = "filter (\<lambda>f. \<not> is_boolean f) ?ops"
  let ?g = "gather_bool (multop lt MAnd) ?ops"
  have ops: "(\<forall>f \<in> set ?ops. sere f w) \<longleftrightarrow> (\<forall>f \<in> set v. sere f w)"
  proof -
    have "(\<forall>g \<in> set (if is_multi MAndRat f then children_of f else [f]). sere g w) \<longleftrightarrow> sere f w" for f
      by (cases f) (auto simp: list.pred_set)
    then have "(\<forall>f \<in> set (inline_operands MAndRat v). sere f w) \<longleftrightarrow> (\<forall>f \<in> set v. sere f w)"
      unfolding set_inline ball_UN by (simp only:)
    then show ?thesis by (simp add: operand_list_def)
  qed
  have "sere (multop lt MAnd ?b) w \<longleftrightarrow> one w \<and> (\<forall>f \<in> set ?b. sere f w)"
    using multop_boolean_sere(1) [of ?b lt] by (simp add: list.pred_set)
  moreover have "one w" if "\<forall>f \<in> set ?b. sere f w" "?b \<noteq> []"
    using that boolean_one [of "hd ?b"] hd_in_set [OF that(2)] by auto
  ultimately have g: "(\<forall>f \<in> set ?g. sere f w) \<longleftrightarrow> (\<forall>f \<in> set ?ops. sere f w)"
    by (auto simp: gather_bool_def Let_def filter_empty_conv simp del: multop.simps)
  have ok: "list_all sere_ok ?g"
    using gather_bool_ok operand_list_ok assms by blast
  have fin: "sere (finish_multop MAndRat n us) w \<longleftrightarrow> (\<forall>f \<in> set us. sere f w)" for n us
    by (auto simp: finish_multop_def list.pred_set sere_Starred simp del: sere.simps(13) split: list.splits)
  have "sere (reduce_operands MAndRat n ?g) w \<longleftrightarrow> (\<forall>f \<in> set ?g. sere f w)" for n
  proof (cases "scan_operands MAndRat None ?g")
    case None
    then show ?thesis
      using scan_operands_None [OF None] by (auto simp: reduce_operands_def intro: bexI [of _ ff])
  next
    case (Some us)
    have "sere one_star w" by (simp add: sere_Starred del: sere.simps)
    then have us: "(\<forall>f \<in> set us. sere f w) \<longleftrightarrow> (\<forall>f \<in> set ?g. sere f w)"
      using scan_operands_Some [OF Some] by (auto simp del: one_star_eq)
    have "\<And>f. f \<in> set us \<Longrightarrow> accepts_eword f = sere f []"
      using scan_operands_Some [OF Some] ok accepts_eword_sere by (auto simp: list.pred_set)
    then have "(\<forall>f \<in> set us. sere f w) \<longleftrightarrow> eps w \<and> list_all accepts_eword us" if e: "eword \<in> set us"
      using bspec [OF _ e, of "\<lambda>f. sere f w"] by (auto simp: eps_def list.pred_set)
    then show ?thesis
      using us fin Some by (auto simp: reduce_operands_def)
  qed
  with g ops show "sere (multop lt MAndRat v) w = mlang MAndRat (map sere v) w"
    by (simp add: Let_def list.pred_set)
qed

lemma nlm_drop_eword:
  assumes "set us \<subseteq> set v" "set v \<subseteq> set us \<union> {eword}" "eword \<notin> set us"
  shows "mlang MAndNLM (map sere us) = mlang MAndNLM (map sere v)"
proof (cases "set us = {} \<or> set us = set v")
  case True
  then have "set v = {} \<or> set us = {} \<and> set v = {eword} \<or> set us = set v"
    using assms(2) by (metis sup_bot_left subset_singletonD)
  then show ?thesis
  proof (elim disjE)
    assume "set v = {}"
    with assms(1) show ?thesis by simp
  next
    assume "set us = {} \<and> set v = {eword}"
    then have "mlang MAndNLM (map sere v) = mlang MAndNLM [eps]" "us = []"
      using nlm_set [of "map sere v" "[eps]"] by auto
    then show ?thesis using nlm_single [of eps] by (simp add: fun_eq_iff)
  next
    assume "set us = set v"
    then show ?thesis using nlm_set [of "map sere us" "map sere v"] by simp
  qed
next
  case False
  then have ne: "map sere us \<noteq> []" "map sere v \<noteq> []" and set: "set v = insert eword (set us)"
    using assms by auto
  show ?thesis
  proof
    fix w
    have "(\<exists>f \<in> set us. sere f w)" if "eps w" "\<forall>f \<in> set us. \<exists>k \<le> length w. sere f (take k w)"
      using that False by (auto simp: eps_def)
    moreover have "\<exists>k \<le> length w. eps (take k w)" by (auto simp: eps_def)
    ultimately show "mlang MAndNLM (map sere us) w = mlang MAndNLM (map sere v) w"
      using nlm_iff [OF ne(1), of w] nlm_iff [OF ne(2), of w] set by auto
  qed
qed

lemma nlm_drop_tt:
  assumes us: "set us = insert tt (set t)" and t: "t \<noteq> []" and none: "\<And>f. f \<in> set us \<Longrightarrow> \<not> sere f []"
  shows "mlang MAndNLM (map sere us) = mlang MAndNLM (map sere t)"
proof
  fix w
  have "map sere us \<noteq> []" "map sere t \<noteq> []" using us t by auto
  note nlm = nlm_iff [OF this(1), of w] nlm_iff [OF this(2), of w]
  let ?p = "\<lambda>f. \<exists>k \<le> length w. sere f (take k w)"
  have prefix_tt: "?p tt" if "w \<noteq> []"
    using that by (intro exI [of _ 1]) (cases w, auto simp: one_def)
  have full: "\<exists>f \<in> set t. sere f w" if w1: "one w" and all: "\<forall>f \<in> set t. ?p f"
  proof -
    obtain f where f: "f \<in> set t" using t hd_in_set by blast
    then obtain k where k: "k \<le> length w" "sere f (take k w)" using all by blast
    moreover have "\<not> sere f []" using none f us by blast
    then have "k \<noteq> 0" using k(2) by (cases k) auto
    ultimately have "take k w = w" using w1 by (simp add: one_def)
    with f k show ?thesis by auto
  qed
  have "(\<exists>f \<in> set us. sere f w) \<and> (\<forall>f \<in> set us. ?p f) \<longleftrightarrow>
      (\<exists>f \<in> set t. sere f w) \<and> (\<forall>f \<in> set t. ?p f)"
  proof
    assume "(\<exists>f \<in> set us. sere f w) \<and> (\<forall>f \<in> set us. ?p f)"
    then have "one w \<or> (\<exists>f \<in> set t. sere f w)" "\<forall>f \<in> set t. ?p f"
      unfolding us by simp_all
    with full show "(\<exists>f \<in> set t. sere f w) \<and> (\<forall>f \<in> set t. ?p f)" by blast
  next
    assume r: "(\<exists>f \<in> set t. sere f w) \<and> (\<forall>f \<in> set t. ?p f)"
    then obtain f where "f \<in> set t" "sere f w" by blast
    with none us have "w \<noteq> []" by (metis insertCI)
    with prefix_tt r show "(\<exists>f \<in> set us. sere f w) \<and> (\<forall>f \<in> set us. ?p f)"
      unfolding us by blast
  qed
  with nlm show "mlang MAndNLM (map sere us) w = mlang MAndNLM (map sere t) w"
    by (simp del: mlang.simps)
qed

lemma gather_nlm:
  "mlang MAndNLM (map sere (gather_bool (multop lt MAnd) v)) = mlang MAndNLM (map sere v)"
proof -
  let ?b = "filter is_boolean v" and ?r = "filter (\<lambda>f. \<not> is_boolean f) v"
  have set: "set (?b @ ?r) = set v" by auto
  show ?thesis
  proof (cases "?b = []")
    case True
    then have "set ?r = set v" by (auto simp: filter_empty_conv)
    with True show ?thesis
      using nlm_set [of "map sere ?r" "map sere v"] by (simp add: gather_bool_def Let_def del: mlang.simps)
  next
    case False
    have "sere (multop lt MAnd ?b) = mlang MAndNLM (map sere ?b)"
      using multop_boolean_sere(1) [of ?b lt] nlm_booleans [of ?b] False by (simp add: list.pred_set del: mlang.simps)
    then have "mlang MAndNLM (map sere (gather_bool (multop lt MAnd) v)) = mlang MAndNLM (map sere (?b @ ?r))"
      using False nlm_flatten [of "map sere ?b" "map sere ?r"]
      by (simp add: gather_bool_def Let_def del: mlang.simps multop.simps)
    also have "\<dots> = mlang MAndNLM (map sere v)"
      by (rule nlm_set) (metis set set_map)
    finally show ?thesis .
  qed
qed

lemma multop_AndNLM:
  assumes "list_all sere_ok v" "multop_fits lt MAndNLM v"
  shows "sere (multop lt MAndNLM v) = mlang MAndNLM (map sere v)"
proof -
  let ?ops = "operand_list lt MAndNLM v"
  let ?g = "gather_bool (multop lt MAnd) ?ops"
  have set_ops: "set ?ops = set (inline_operands MAndNLM v)" by (simp add: operand_list_def)
  have g: "mlang MAndNLM (map sere ?g) = mlang MAndNLM (map sere v)"
    unfolding gather_nlm using nlm_set [of "map sere ?ops" "map sere (inline_operands MAndNLM v)"]
      inline_nlm [OF assms(1)] set_ops by (simp del: mlang.simps)
  have ok: "list_all sere_ok ?g"
    using gather_bool_ok operand_list_ok assms(1) by blast
  have fin: "sere (finish_multop MAndNLM n us) = mlang MAndNLM (map sere us)" for n us
  proof (cases us rule: remdups_adj.cases)
    case (3 f g fs)
    then show ?thesis by (simp add: finish_multop_def fun_eq_iff del: mlang.simps)
  qed (simp_all add: finish_multop_def nlm_single del: mlang.simps, simp add: fun_eq_iff)
  have "sere (reduce_operands MAndNLM n ?g) = mlang MAndNLM (map sere ?g)" for n
  proof (cases "scan_operands MAndNLM None ?g")
    case None
    then have "ff \<in> set ?g" using scan_operands_None [OF None] by simp
    moreover from this have "map sere ?g \<noteq> []" by auto
    ultimately have "\<not> mlang MAndNLM (map sere ?g) w" for w
      using nlm_iff [of "map sere ?g" w] by force
    with None show ?thesis by (simp add: reduce_operands_def fun_eq_iff del: mlang.simps)
  next
    case (Some us)
    note s = scan_operands_Some [OF Some]
    have us: "mlang MAndNLM (map sere us) = mlang MAndNLM (map sere ?g)"
      by (rule nlm_drop_eword) (use s in auto)
    show ?thesis
    proof (cases "tt \<in> set us")
      case False
      with us fin Some show ?thesis by (simp add: reduce_operands_def del: mlang.simps)
    next
      case True
      have "tt \<in> set ?g" using True s by auto
      then have "filter is_boolean ?ops \<noteq> []" "multop lt MAnd (filter is_boolean ?ops) = tt"
        by (auto simp: gather_bool_def Let_def simp del: multop.simps split: if_splits)
      then have "list_all (\<lambda>f. f = eword \<or> \<not> accepts_eword f) ?ops" "set ?g \<subseteq> insert tt (set ?ops)"
        using assms(2) by (auto simp: multop_fits_def Let_def gather_bool_def simp del: multop.simps)
      then have acc: "f \<in> set us \<Longrightarrow> \<not> accepts_eword f" for f
        using s by (auto simp: list.pred_set)
      then have none: "\<not> sere f []" if "f \<in> set us" for f
        using that s ok accepts_eword_sere by (auto simp: list.pred_set)
      define t where "t = (if filter (\<lambda>f. f \<noteq> tt) us = [] then [tt] else filter (\<lambda>f. f \<noteq> tt) us)"
      have t: "set us = insert tt (set t)" "t \<noteq> []"
        using True by (auto simp: t_def filter_empty_conv)
      have "filter (\<lambda>f. f \<noteq> tt \<and> \<not> accepts_eword f) us = filter (\<lambda>f. f \<noteq> tt) us"
        using acc by (auto intro: filter_cong)
      then have "reduce_operands MAndNLM n ?g = finish_multop MAndNLM n t"
        using Some True by (simp add: reduce_operands_def Let_def t_def)
      then show ?thesis
        using nlm_drop_tt [OF t none] us fin by (simp only:)
    qed
  qed
  then show ?thesis using g by (simp add: Let_def del: mlang.simps)
qed

lemma finish_ok:
  assumes "list_all sere_ok v" "on \<noteq> MAnd" "on \<noteq> MOr"
  shows "sere_ok (finish_multop on n v)"
proof (cases v rule: remdups_adj.cases)
  case 1
  then show ?thesis using assms by (cases on) (auto simp: finish_multop_def unbounded_def)
next
  case (2 f)
  then show ?thesis using assms by (auto simp: finish_multop_def)
next
  case (3 f g fs)
  then show ?thesis using assms by (auto simp: finish_multop_def)
qed

lemma finish_product:
  assumes "os = SFStar \<Longrightarrow> n \<noteq> 1" "list_all sere_ok v"
  shows "sere (finish_multop (product_op os) n v) = sprod os (map sere v)"
proof (cases v rule: remdups_adj.cases)
  case 1
  then show ?thesis by (cases os) (simp_all add: finish_multop_def)
next
  case (2 f)
  have "snorm os (sere f) = sere f" if "os = SFStar \<longrightarrow> \<not> accepts_eword f"
  proof -
    have "os = SFStar \<Longrightarrow> \<not> sere f []"
      using that accepts_eword_sere [of f] assms(2) 2 by auto
    then show ?thesis by (auto simp: snorm_def fun_eq_iff)
  qed
  then show ?thesis
    using 2 assms(1) by (cases os) (auto simp: finish_multop_def concp.un_right fusep.un_right fusep.un_left
      fusep.norm_left fun_eq_iff)
next
  case (3 f g fs)
  then have "fusion (map sere v) = foldr fuse (map sere v) one" by (intro fusion_fold) simp
  moreover have "finish_multop (product_op os) n v = Multi (product_op os) v"
    using 3 by (simp add: finish_multop_def)
  ultimately show ?thesis
    by (cases os) (simp_all add: fun_eq_iff)
qed

lemma reduce_product:
  assumes "list_all sere_ok v" "merge_fits os v" "os = SFStar \<Longrightarrow> n \<noteq> 1"
  shows "sere (reduce_operands (product_op os) n v) = sprod os (map sere v) \<and>
    sere_ok (reduce_operands (product_op os) n v)"
proof (cases "scan_operands (product_op os) None v")
  case None
  have zero: "smul os (\<lambda>w. False) L = (\<lambda>w. False)" "smul os L (\<lambda>w. False) = (\<lambda>w. False)" for L
    by (cases os; auto simp: conc_def fuse_def)+
  have feps: "fuse eps L = (\<lambda>w. False)" "fuse L eps = (\<lambda>w. False)" for L
    by (auto simp: fuse_def eps_def)
  have "ff \<in> set v \<or> os = SFStar \<and> eword \<in> set v"
    using scan_operands_None [OF None] by (cases os) auto
  moreover have "sprod os (map sere v) = (\<lambda>w. False)" if "ff \<in> set v"
    using that by (induction v) (auto simp: zero)
  moreover have "sprod os (map sere v) = (\<lambda>w. False)" if "eword \<in> set v" "os = SFStar"
    using that(1) zero unfolding that(2) by (induction v) (auto simp: feps)
  ultimately show ?thesis
    using None by (cases os) (auto simp: reduce_operands_def)
next
  case (Some us)
  then have us: "us = filter (\<lambda>f. f \<noteq> neutral (product_op os)) v"
    using scan_operands_ordered [of "product_op os" v] by (cases os) (auto split: if_splits)
  have ok: "list_all sere_ok us" "merge_fits os us"
    using us assms(1) merge_fits_subset [OF assms(2), of us] by (auto simp: list.pred_set multiset_filter_subset)
  have drop: "sprod os (map sere us) = sprod os (map sere v)"
    unfolding us
  proof (induction v)
    case (Cons f v)
    have "sere (neutral (product_op os)) = sunit os" by (cases os) simp_all
    then have "sprod os (map sere (neutral (product_op os) # v)) = sprod os (map sere v)"
      by (simp add: sp.un_left sp.fold_norm)
    with Cons show ?case by auto
  qed simp
  have "reduce_operands (product_op os) n v = finish_multop (product_op os) n (merge_stars os us)"
    using Some by (cases os) (simp_all add: reduce_operands_def)
  then show ?thesis
    using merge_stars_sere [OF ok] finish_product [of os n "merge_stars os us"] assms(3)
      finish_ok [of "merge_stars os us" "product_op os" n] drop
    by (cases os) simp_all
qed

lemma multop_Concat:
  assumes "list_all sere_ok v" "multop_fits lt MConcat v"
  shows "sere (multop lt MConcat v) = mlang MConcat (map sere v) \<and> sere_ok (multop lt MConcat v)"
proof -
  let ?ops = "inline_operands MConcat v"
  have "merge_fits SStar (absorb_star ?ops)"
    using merge_fits_subset absorb_star_subset assms(2) by (auto simp: multop_fits_def)
  moreover have "list_all sere_ok ?ops" using inline_sere_ok [OF assms(1)] by simp
  note star = absorb_star_sere [OF this]
  ultimately have "sere (multop lt MConcat v) = foldr conc (map sere (absorb_star ?ops)) eps \<and>
      sere_ok (multop lt MConcat v)"
    using reduce_product [of "absorb_star ?ops" SStar] by (simp add: Let_def operand_list_def)
  with star inline_product [OF assms(1), of SStar] show ?thesis
    by (simp add: fun_eq_iff)
qed

lemma fuse_bools_ok:
  assumes "list_all sere_ok v"
  shows "list_all sere_ok (fuse_bools (multop lt MAnd) v)"
  using assms
proof (induction "multop lt MAnd" v rule: fuse_bools.induct)
  case (2 f fs)
  show ?case
  proof (cases "is_boolean f \<and> takeWhile is_boolean fs \<noteq> []")
    case False
    with 2 show ?thesis by (auto simp: Let_def simp del: multop.simps)
  next
    case True
    have "is_boolean (multop lt MAnd (f # takeWhile is_boolean fs))"
      by (rule multop_boolean) (use True in \<open>auto simp: list.pred_set dest: set_takeWhileD\<close>)
    moreover have "list_all sere_ok (dropWhile is_boolean fs)"
      using 2(4) by (auto simp: list.pred_set dest: set_dropWhileD)
    ultimately show ?thesis
      using True 2(3) by (simp add: Let_def del: multop.simps)
  qed
qed simp

lemma multop_Fusion:
  assumes "list_all sere_ok v" "multop_fits lt MFusion v"
  shows "sere (multop lt MFusion v) = mlang MFusion (map sere v) \<and> sere_ok (multop lt MFusion v)"
proof -
  let ?ops = "inline_operands MFusion v"
  have ops: "list_all sere_ok ?ops" using inline_sere_ok [OF assms(1)] by simp
  have "sere (multop lt MFusion v) = foldr fuse (map sere (fuse_bools (multop lt MAnd) ?ops)) one \<and>
      sere_ok (multop lt MFusion v)"
    using reduce_product [OF fuse_bools_ok [OF ops], of SFStar] assms(2)
    by (simp add: Let_def operand_list_def multop_fits_def del: multop.simps(1))
  then have 1: "sere (multop lt MFusion v) = foldr fuse (map sere v) one \<and> sere_ok (multop lt MFusion v)"
    using fuse_bools_sere inline_product [OF assms(1), of SFStar] by simp
  show ?thesis
  proof (cases "length v = 1")
    case False
    with 1 show ?thesis by (simp add: fun_eq_iff fusion_fold)
  next
    case True
    then obtain f where v: "v = [f]" by (auto simp: length_Suc_conv)
    then have "is_multi MFusion f"
      using assms(2) by (auto simp: multop_fits_def inline_operands_def split: if_splits)
    then have "\<not> accepts_eword f" by (cases f) auto
    then have "\<not> sere f []" using accepts_eword_sere [of f] assms(1) v by simp
    with 1 v show ?thesis by (auto simp: fun_eq_iff fusep.un_right)
  qed
qed

lemma reduce_ok:
  assumes "list_all sere_ok v" "on = MOrRat \<or> on = MAndRat \<or> on = MAndNLM"
  shows "sere_ok (reduce_operands on n v)"
proof (cases "scan_operands on None v")
  case None
  with assms(2) show ?thesis by (auto simp: reduce_operands_def unbounded_def)
next
  case (Some us)
  then have "list_all sere_ok us"
    using scan_operands_Some [OF Some] assms(1) by (auto simp: list.pred_set)
  then have "sere_ok (finish_multop on n us)" "sere_ok (finish_multop on n [tt])"
    "sere_ok (finish_multop on n (filter P us))" for P
    using finish_ok [of _ on n] assms(2) by (auto simp: list.pred_set)
  with Some assms(2) show ?thesis
    by (auto simp: reduce_operands_def Let_def split: if_splits)
qed

lemma multop_rational_ok:
  assumes "list_all sere_ok v" "on = MOrRat \<or> on = MAndRat \<or> on = MAndNLM"
  shows "sere_ok (multop lt on v)"
  using assms(2) reduce_ok gather_bool_ok [OF operand_list_ok [OF assms(1)]]
  by (auto simp: Let_def simp del: multop.simps(1,2))

lemma first_match_sere:
  assumes "sere_ok f"
  shows "sere (unop UFirstMatch f) = sere (Unary UFirstMatch f)"
proof
  fix w
  consider (nested) g where "f = Unary UFirstMatch g" | (bool) "is_boolean f"
    | (eword) "\<nexists>g. f = Unary UFirstMatch g" "\<not> is_boolean f" "accepts_eword f"
    | (other) "\<nexists>g. f = Unary UFirstMatch g" "\<not> is_boolean f" "\<not> accepts_eword f"
    by blast
  then show "sere (unop UFirstMatch f) w = sere (Unary UFirstMatch f) w"
  proof cases
    case nested
    then show ?thesis by auto
  next
    case bool
    then show ?thesis
      using boolean_one [OF bool, of w] boolean_empty [OF bool] by (auto simp: one_iff)
  next
    case eword
    then have "unop UFirstMatch f = eword" by (cases f) (auto split: unary.splits)
    then show ?thesis
      using eword(3) accepts_eword_sere [OF assms] by (cases w) (auto intro: exI [of _ 0])
  next
    case other
    then have "unop UFirstMatch f = Unary UFirstMatch f" by (cases f) (auto split: unary.splits)
    then show ?thesis by simp
  qed
qed

lemma cpow_boolean_length: "is_boolean f \<Longrightarrow> cpow (sere f) n w \<Longrightarrow> length w = n"
proof (induction n arbitrary: w)
  case (Suc n)
  then obtain u v where "w = u @ v" "sere f u" "cpow (sere f) n v" by (auto simp: conc_def)
  with Suc boolean_one [of f u] show ?case by (simp add: one_def)
qed (simp add: eps_def)

section \<open>Properties\<close>

text \<open>
  Property C24: \<open>fnode::multop\<close> keeps the language of a SERE (and the result is a well-formed SERE),
  for every operator and every list of well-formed operands, provided that the sums of the bounds
  of merged stars fit in a byte, and that 1 is not combined, by the conjunction without length
  matching, with operands that accept the empty word.
\<close>

theorem multop_sere_sound:
  assumes "list_all sere_ok v" "multop_fits lt on v"
  shows "sere (multop lt on v) = sere (Multi on v) \<and> sere_ok (multop lt on v)"
proof -
  have "sere (Multi on v) = mlang on (map sere v)" by (rule ext) simp
  moreover have "on = MAnd \<or> on = MOr \<Longrightarrow> list_all is_boolean v"
    using assms(2) by (auto simp: multop_fits_def)
  ultimately show ?thesis
    using assms multop_OrRat multop_AndRat multop_AndNLM multop_Concat multop_Fusion
      multop_boolean_sere multop_boolean multop_rational_ok
    by (cases on) (auto simp del: multop.simps mlang.simps)
qed

theorem multop_sere_sound_witness:
  "sere (multop (\<lambda>f g. False) MConcat [ap ''a'', ap ''a'', Starred SStar (ap ''b'') 0 3]) =
    sere (Multi MConcat [ap ''a'', ap ''a'', Starred SStar (ap ''b'') 0 3])"
proof -
  have "multop_fits (\<lambda>f g. False) MConcat [ap ''a'', ap ''a'', Starred SStar (ap ''b'') 0 3]"
    by (simp add: multop_fits_def merge_fits_def inline_operands_def base_weight_def star_base_def
        star_weight_def unbounded_def)
  then show ?thesis
    using multop_sere_sound [of "[ap ''a'', ap ''a'', Starred SStar (ap ''b'') 0 3]" "\<lambda>f g. False" MConcat]
    by (simp add: unbounded_def del: multop.simps)
qed

text \<open>
  \<open>fnode::bunop\<close> keeps the language of a starred SERE when the product of the bounds
  of nested stars fits in a byte and a star without lower bound is not applied to a star with an
  unbounded range that starts at two or more; \<open>first_match\<close> keeps it too.
\<close>

theorem bunop_sound:
  assumes "sere_ok f" "mn \<le> mx" "mx \<le> unbounded" "star_fits os f mn mx"
  shows "sere (bunop os f mn mx) = sere (Starred os f mn mx) \<and> sere_ok (bunop os f mn mx) \<and>
    sere (unop UFirstMatch f) = sere (Unary UFirstMatch f)"
  using bunop_sere [OF assms] first_match_sere [OF assms(1)] by (simp add: sere_Starred del: unop.simps sere.simps)

theorem bunop_sound_witness:
  "sere (bunop SStar (Starred SStar (ap ''a'') 2 3) 1 4) = sere (Starred SStar (Starred SStar (ap ''a'') 2 3) 1 4)"
  using bunop_sound [of "Starred SStar (ap ''a'') 2 3" 1 4 SStar] by (simp add: star_fits_def unbounded_def del: sere.simps)

text \<open>
  the bounds of merged stars are truncated to a byte and the identity for nested
  unbounded stars is applied where it is not valid.  \<open>a[*200];a[*100]\<close> becomes \<open>a[*44]\<close>,
  \<open>a[*0..15][*0..17]\<close> becomes the unbounded \<open>a[*]\<close>, and \<open>a[*2..][*0..3]\<close> becomes \<open>a[*]\<close>, which
  accepts a word that the original does not accept.
\<close>

theorem star_bounds_overflow:
  "multop lt MConcat [Starred SStar (ap ''a'') 200 200, Starred SStar (ap ''a'') 100 100] =
      Starred SStar (ap ''a'') 44 44 \<and>
   bunop SStar (Starred SStar (ap ''a'') 0 15) 0 17 = Starred SStar (ap ''a'') 0 unbounded \<and>
   bunop SStar (Starred SStar (ap ''a'') 2 unbounded) 0 3 = Starred SStar (ap ''a'') 0 unbounded \<and>
   sere (Starred SStar (ap ''a'') 0 unbounded) [\<lambda>s. True] \<and>
   \<not> sere (Starred SStar (Starred SStar (ap ''a'') 2 unbounded) 0 3) [\<lambda>s. True]"
proof -
  let ?a = "ap ''a''"
  have len: "cpow (sere ?a) n w \<Longrightarrow> length w = n" for n w
    by (rule cpow_boolean_length) simp_all
  have "multop lt MConcat [Starred SStar ?a 200 200, Starred SStar ?a 100 100] = Starred SStar ?a 44 44"
    by (simp add: Let_def operand_list_def inline_operands_def reduce_operands_def finish_multop_def
        bunop_def add_bound_def unbounded_def u8_def)
  moreover have "bunop SStar (Starred SStar ?a 0 15) 0 17 = Starred SStar ?a 0 unbounded"
    "bunop SStar (Starred SStar ?a 2 unbounded) 0 3 = Starred SStar ?a 0 unbounded"
    by (simp_all add: bunop_def u8_def unbounded_def)
  moreover have "sere (Starred SStar ?a 0 unbounded) [\<lambda>s. True]"
    by (auto simp: in_range_def concp.un_right intro!: exI [of _ 1])
  moreover have "\<not> sere (Starred SStar (Starred SStar ?a 2 unbounded) 0 3) [\<lambda>s. True]"
  proof -
    have "1 \<notin> multiples 2 unbounded k" for k
      by (auto simp: multiples_def)
    then show ?thesis
      unfolding sere_Starred slang_powers [of 2 unbounded, unfolded unbounded_def, simplified, folded unbounded_def]
      using len by (fastforce simp: powers_def)
  qed
  ultimately show ?thesis by blast
qed

text \<open>
  Property C40: the identity applied to 1 in a conjunction without length matching is not valid: the
  language of \<open>1 & a[*]\<close> contains the word of two letters that satisfy a, but \<open>fnode::multop\<close>
  reduces it to 1.
\<close>

theorem nlm_identity_unsound:
  "multop (\<lambda>f g. False) MAndNLM [tt, Starred SStar (ap ''a'') 0 unbounded] = tt \<and>
   sere (Multi MAndNLM [tt, Starred SStar (ap ''a'') 0 unbounded]) [\<lambda>s. True, \<lambda>s. True] \<and>
   \<not> sere tt [\<lambda>s. True, \<lambda>s. True]"
proof -
  let ?a = "ap ''a''"
  have "cpow (sere ?a) 2 [\<lambda>s. True, \<lambda>s. True]"
    using concI [of "sere ?a" "[\<lambda>s. True]" "cpow (sere ?a) 1" "[\<lambda>s. True]"]
    by (simp add: concp.un_right numeral_2_eq_2)
  then have star: "sere (Starred SStar ?a 0 unbounded) [\<lambda>s. True, \<lambda>s. True]"
    by (auto simp: in_range_def intro!: exI [of _ 2])
  let ?s = "Starred SStar ?a 0 unbounded" and ?w = "[\<lambda>s. True, \<lambda>s. True] :: letter list"
  have "\<exists>k \<le> length ?w. sere tt (take k ?w)" "\<exists>k \<le> length ?w. sere ?s (take k ?w)"
    using star by (intro exI [of _ 1], simp, intro exI [of _ 2], simp)
  then have "mlang MAndNLM [sere tt, sere ?s] ?w"
    using nlm_iff [of "[sere tt, sere ?s]" ?w] star by (simp del: mlang.simps sere.simps sere_const)
  then have "sere (Multi MAndNLM [tt, ?s]) ?w" by (simp del: mlang.simps sere_const)
  then show ?thesis
    by (simp add: Let_def operand_list_def inline_operands_def sort_by_def gather_bool_def
        reduce_operands_def finish_multop_def unbounded_def del: sere.simps)
qed

end
