(* ===== verification/FormulaProps.thy ===== *)
theory FormulaProps
  imports SereMultop
begin

text \<open>
  The properties that \<open>fnode::setup_props\<close> computes for each node (tl/formula.cc) are sound: pure
  eventualities and purely universal formulas, the classes of the temporal hierarchy, the
  finiteness of SEREs and the invariance under stuttering.
\<close>

section \<open>Well-formed PSL formulas\<close>

fun psl_ok :: "fnode \<Rightarrow> bool" where
  "psl_ok eword = False"
| "psl_ok (Unary o1 f) = (case o1 of
     UClosure \<Rightarrow> sere_ok f \<and> \<not> is_boolean f
   | UNegClosure \<Rightarrow> sere_ok f \<and> \<not> is_boolean f
   | UNegClosureMarked \<Rightarrow> sere_ok f \<and> \<not> is_boolean f
   | UFirstMatch \<Rightarrow> False
   | _ \<Rightarrow> psl_ok f)"
| "psl_ok (Binary o2 f g) = (psl_ok g \<and>
     (if o2 = BEConcat \<or> o2 = BEConcatMarked \<or> o2 = BUConcat then sere_ok f \<and> \<not> is_boolean f
      else psl_ok f))"
| "psl_ok (Multi on fs) = ((on = MAnd \<or> on = MOr) \<and> fs \<noteq> [] \<and> list_all psl_ok fs)"
| "psl_ok (Starred os f mn mx) = False"
| "psl_ok f = True"

lemma multi_field:
  assumes "\<And>p q. h (props_and p q) = (h p \<and> h q)" "fs \<noteq> []"
  shows "h (props_and_list (map setup_props fs)) = list_all (\<lambda>f. h (setup_props f)) fs"
  using assms(2) by (cases fs) (simp_all add: foldl_and [of h, OF assms(1)] list.pred_map comp_def)

lemma sere_not_pure:
  assumes "sere_ok f" "\<not> is_boolean f"
  shows "\<not> is_eventual f \<and> \<not> is_universal f"
proof (cases f)
  case (Unary o1 g)
  with assms show ?thesis by (cases o1) (simp_all add: unary_props_def)
next
  case (Multi on fs)
  with assms show ?thesis
    unfolding Multi setup_props_Multi by (cases on) (simp_all add: multi_props_def rational_props_def Let_def)
qed (use assms in \<open>auto simp: eword_props_def star_props_def Let_def split: star.splits\<close>)

section \<open>Pure eventualities and purely universal formulas\<close>

definition left_append_closed :: "(word \<Rightarrow> bool) \<Rightarrow> bool" where
  "left_append_closed P = (\<forall>\<sigma> i. P (suffix i \<sigma>) \<longrightarrow> P \<sigma>)"

definition suffix_closed :: "(word \<Rightarrow> bool) \<Rightarrow> bool" where
  "suffix_closed P = (\<forall>\<sigma> i. P \<sigma> \<longrightarrow> P (suffix i \<sigma>))"

lemma suffix_closed_mono: "suffix_closed P \<Longrightarrow> P (suffix i \<sigma>) \<Longrightarrow> i \<le> j \<Longrightarrow> P (suffix j \<sigma>)"
  unfolding suffix_closed_def by (metis le_add_diff_inverse suffix_simps(2))

lemma left_append_mono: "left_append_closed P \<Longrightarrow> P (suffix j \<sigma>) \<Longrightarrow> i \<le> j \<Longrightarrow> P (suffix i \<sigma>)"
  unfolding left_append_closed_def by (metis le_add_diff_inverse suffix_simps(2))

lemma left_append_closed_ops:
  "left_append_closed P \<Longrightarrow> left_append_closed (\<lambda>\<sigma>. P (suffix 1 \<sigma>))"
  "left_append_closed (eventually P)"
  "left_append_closed P \<Longrightarrow> left_append_closed (globally P)"
  "left_append_closed Q \<Longrightarrow> left_append_closed (until P Q)"
  "left_append_closed P \<Longrightarrow> left_append_closed Q \<Longrightarrow> left_append_closed (strong_release P Q)"
  "suffix_closed P \<Longrightarrow> left_append_closed (\<lambda>\<sigma>. \<not> P \<sigma>)"
proof -
  show "left_append_closed P \<Longrightarrow> left_append_closed (\<lambda>\<sigma>. P (suffix 1 \<sigma>))"
    unfolding left_append_closed_def by (metis add.commute suffix_simps(2))
  show "left_append_closed (eventually P)"
    unfolding left_append_closed_def eventually_def by (auto simp: add.commute)
  show "left_append_closed P \<Longrightarrow> left_append_closed (globally P)"
    unfolding left_append_closed_def globally_def by (metis add.commute suffix_simps(2))
  show "left_append_closed Q \<Longrightarrow> left_append_closed (until P Q)"
    unfolding left_append_closed_def until_def by (metis less_nat_zero_code suffix_simps(1,2))
  show "left_append_closed P \<Longrightarrow> left_append_closed Q \<Longrightarrow> left_append_closed (strong_release P Q)"
    unfolding left_append_closed_def strong_release_def
    by (metis le_zero_eq suffix_simps(1,2) zero_le)
  show "suffix_closed P \<Longrightarrow> left_append_closed (\<lambda>\<sigma>. \<not> P \<sigma>)"
    unfolding left_append_closed_def suffix_closed_def by blast
qed

lemma suffix_closed_ops:
  "suffix_closed P \<Longrightarrow> suffix_closed (\<lambda>\<sigma>. P (suffix 1 \<sigma>))"
  "suffix_closed P \<Longrightarrow> suffix_closed (eventually P)"
  "suffix_closed (globally P)"
  "suffix_closed P \<Longrightarrow> suffix_closed Q \<Longrightarrow> suffix_closed (until P Q)"
  "suffix_closed P \<Longrightarrow> suffix_closed Q \<Longrightarrow> suffix_closed (strong_release P Q)"
  "suffix_closed Q \<Longrightarrow> suffix_closed (\<lambda>\<sigma>. strong_release P Q \<sigma> \<or> globally Q \<sigma>)"
  "left_append_closed P \<Longrightarrow> suffix_closed (\<lambda>\<sigma>. \<not> P \<sigma>)"
proof -
  show "suffix_closed P \<Longrightarrow> suffix_closed (\<lambda>\<sigma>. P (suffix 1 \<sigma>))"
    unfolding suffix_closed_def by (metis add.commute suffix_simps(2))
  show "suffix_closed P \<Longrightarrow> suffix_closed (eventually P)"
    unfolding suffix_closed_def eventually_def by (metis add.commute suffix_simps(2))
  show glob: "suffix_closed (globally P)" for P
    unfolding suffix_closed_def globally_def by auto
  show "suffix_closed (until P Q)" if "suffix_closed P" "suffix_closed Q"
    unfolding suffix_closed_def
  proof (intro allI impI)
    fix \<sigma> i assume "until P Q \<sigma>"
    then obtain j where j: "Q (suffix j \<sigma>)" "\<forall>i < j. P (suffix i \<sigma>)" unfolding until_def by blast
    have "Q (suffix (i + (j - i)) \<sigma>)" by (rule suffix_closed_mono [OF that(2) j(1)]) simp
    moreover have "\<forall>k < j - i. P (suffix (i + k) \<sigma>)" using j(2) by simp
    ultimately show "until P Q (suffix i \<sigma>)" unfolding until_def by auto
  qed
  show "suffix_closed (strong_release P Q)" if "suffix_closed P" "suffix_closed Q"
    unfolding suffix_closed_def
  proof (intro allI impI)
    fix \<sigma> i assume "strong_release P Q \<sigma>"
    then obtain j where j: "P (suffix j \<sigma>)" "\<forall>i \<le> j. Q (suffix i \<sigma>)" unfolding strong_release_def by blast
    have "P (suffix (i + (j - i)) \<sigma>)" by (rule suffix_closed_mono [OF that(1) j(1)]) simp
    moreover have "Q \<sigma>" using j(2) by (metis suffix_simps(1) zero_le)
    then have "\<forall>k. Q (suffix (i + k) \<sigma>)" using that(2) unfolding suffix_closed_def by blast
    ultimately show "strong_release P Q (suffix i \<sigma>)" unfolding strong_release_def by auto
  qed
  show "suffix_closed (\<lambda>\<sigma>. strong_release P Q \<sigma> \<or> globally Q \<sigma>)" if Q: "suffix_closed Q"
  proof -
    have "(strong_release P Q \<sigma> \<or> globally Q \<sigma>) = Q \<sigma>" for \<sigma>
      using Q strong_release_now [of P Q \<sigma>] globallyD [of Q \<sigma>]
      unfolding suffix_closed_def globally_def by blast
    with Q show ?thesis by simp
  qed
  show "left_append_closed P \<Longrightarrow> suffix_closed (\<lambda>\<sigma>. \<not> P \<sigma>)"
    unfolding left_append_closed_def suffix_closed_def by blast
qed

lemma closed_connectives:
  "left_append_closed P \<Longrightarrow> left_append_closed Q \<Longrightarrow> left_append_closed (\<lambda>\<sigma>. P \<sigma> \<or> Q \<sigma>)"
  "suffix_closed P \<Longrightarrow> suffix_closed Q \<Longrightarrow> suffix_closed (\<lambda>\<sigma>. P \<sigma> \<or> Q \<sigma>)"
  "(\<And>f. f \<in> A \<Longrightarrow> left_append_closed (R f)) \<Longrightarrow> left_append_closed (\<lambda>\<sigma>. \<exists>f \<in> A. R f \<sigma>)"
  "(\<And>f. f \<in> A \<Longrightarrow> left_append_closed (R f)) \<Longrightarrow> left_append_closed (\<lambda>\<sigma>. \<forall>f \<in> A. R f \<sigma>)"
  "(\<And>f. f \<in> A \<Longrightarrow> suffix_closed (R f)) \<Longrightarrow> suffix_closed (\<lambda>\<sigma>. \<exists>f \<in> A. R f \<sigma>)"
  "(\<And>f. f \<in> A \<Longrightarrow> suffix_closed (R f)) \<Longrightarrow> suffix_closed (\<lambda>\<sigma>. \<forall>f \<in> A. R f \<sigma>)"
  unfolding left_append_closed_def suffix_closed_def by blast+

lemma sat_Binary_fun:
  "sat (Binary BU f g) = until (sat f) (sat g)" "sat (Binary BM f g) = strong_release (sat f) (sat g)"
  "sat (Binary BW f g) = (\<lambda>\<sigma>. until (sat f) (sat g) \<sigma> \<or> globally (sat f) \<sigma>)"
  "sat (Binary BR f g) = (\<lambda>\<sigma>. strong_release (sat f) (sat g) \<sigma> \<or> globally (sat g) \<sigma>)"
  by (rule ext, simp)+

lemma sat_Unary_fun:
  "sat (Unary UNot f) = (\<lambda>\<sigma>. \<not> sat f \<sigma>)" "sat (Unary UX f) = (\<lambda>\<sigma>. sat f (suffix 1 \<sigma>))"
  "sat (Unary UStrongX f) = (\<lambda>\<sigma>. sat f (suffix 1 \<sigma>))"
  by (rule ext, simp)+

lemma sat_Multi_fun:
  "sat (Multi MAnd fs) = (\<lambda>\<sigma>. \<forall>f \<in> set fs. sat f \<sigma>)" "sat (Multi MOr fs) = (\<lambda>\<sigma>. \<exists>f \<in> set fs. sat f \<sigma>)"
  by (rule ext, simp add: list.pred_set list_ex_iff)+

lemma sat_derived_fun:
  "until (sat tt) Q = eventually Q" "strong_release P (sat tt) = eventually P"
  "(\<lambda>\<sigma>. until P (sat ff) \<sigma> \<or> globally P \<sigma>) = globally P"
  "(\<lambda>\<sigma>. strong_release (sat ff) Q \<sigma> \<or> globally Q \<sigma>) = globally Q"
  by (auto simp: until_def strong_release_def eventually_def fun_eq_iff)

lemma pure_until:
  assumes "psl_ok f" "psl_ok g" "o2 = BU \<or> o2 = BW \<or> o2 = BR \<or> o2 = BM"
    and "is_eventual f \<longrightarrow> left_append_closed (sat f)" "is_universal f \<longrightarrow> suffix_closed (sat f)"
    and "is_eventual g \<longrightarrow> left_append_closed (sat g)" "is_universal g \<longrightarrow> suffix_closed (sat g)"
  shows "(is_eventual (Binary o2 f g) \<longrightarrow> left_append_closed (sat (Binary o2 f g))) \<and>
    (is_universal (Binary o2 f g) \<longrightarrow> suffix_closed (sat (Binary o2 f g)))"
  using assms(3)
proof (elim disjE)
  assume "o2 = BU"
  with assms(4-) show ?thesis
    using left_append_closed_ops(2,4) suffix_closed_ops(4)
    by (auto simp: binary_props_def until_props_def sat_Binary_fun sat_derived_fun)
next
  assume "o2 = BW"
  with assms(4-) show ?thesis
    using closed_connectives(1,2) left_append_closed_ops(3,4) suffix_closed_ops(3,4)
    by (auto simp: binary_props_def until_props_def sat_Binary_fun sat_derived_fun)
next
  assume "o2 = BR"
  with assms(4-) show ?thesis
    using closed_connectives(1) left_append_closed_ops(3,5) suffix_closed_ops(3,6)
    by (auto simp: binary_props_def until_props_def sat_Binary_fun sat_derived_fun)
next
  assume "o2 = BM"
  with assms(4-) show ?thesis
    using left_append_closed_ops(2,5) suffix_closed_ops(5)
    by (auto simp: binary_props_def until_props_def sat_Binary_fun sat_derived_fun)
qed

lemma pure_formulas:
  "psl_ok f \<Longrightarrow> (is_eventual f \<longrightarrow> left_append_closed (sat f)) \<and> (is_universal f \<longrightarrow> suffix_closed (sat f))"
proof (induction f)
  case (Unary o1 f)
  show ?case
    using Unary sere_not_pure [of f] left_append_closed_ops(1,2,3,6) suffix_closed_ops(1,2,3,7)
    by (cases o1) (auto simp: unary_props_def sat_Unary_fun sat_F_G)
next
  case (Binary o2 f g)
  show ?case
  proof (cases "o2 = BU \<or> o2 = BW \<or> o2 = BR \<or> o2 = BM")
    case True
    with Binary show ?thesis by (intro pure_until) auto
  next
    case False
    with Binary sere_not_pure [of f] show ?thesis
      by (cases o2) (auto simp: binary_props_def xor_props_def implies_props_def econcat_props_def
          uconcat_props_def Let_def)
  qed
next
  case (Multi on fs)
  then have fs: "on = MAnd \<or> on = MOr" "fs \<noteq> []"
    "\<And>f. f \<in> set fs \<Longrightarrow> (is_eventual f \<longrightarrow> left_append_closed (sat f)) \<and> (is_universal f \<longrightarrow> suffix_closed (sat f))"
    by (auto simp: list.pred_set)
  then have "is_eventual (Multi on fs) = list_all is_eventual fs" "is_universal (Multi on fs) = list_all is_universal fs"
    unfolding setup_props_Multi using multi_field [of p_eventual fs] multi_field [of p_universal fs]
    by (auto simp: multi_props_def Let_def)
  then show ?case
    using fs closed_connectives(3-6) [of "set fs" sat] by (auto simp: list.pred_set sat_Multi_fun)
qed (auto simp: const_props_def ap_props_def left_append_closed_def suffix_closed_def)

text \<open>
  Property C26: a formula flagged as a pure eventuality is equivalent to its F, one flagged as
  purely universal to its G; the satisfaction of the former is kept when letters are put in front
  of the word, that of the latter when the first letters of the word are removed.
\<close>

theorem pure_formulas_sound:
  assumes "psl_ok f"
  shows "(is_eventual f \<longrightarrow> sat (unop UF f) \<sigma> = sat f \<sigma> \<and> (sat f (suffix i \<sigma>) \<longrightarrow> sat f \<sigma>)) \<and>
    (is_universal f \<longrightarrow> sat (unop UG f) \<sigma> = sat f \<sigma> \<and> (sat f \<sigma> \<longrightarrow> sat f (suffix i \<sigma>)))"
proof -
  note pure = pure_formulas [OF assms]
  have "f \<noteq> eword" using assms by auto
  then have "sat (unop UF f) \<sigma> = eventually (sat f) \<sigma>" "sat (unop UG f) \<sigma> = globally (sat f) \<sigma>"
    using unop_temporal [of f UF \<sigma>] unop_temporal [of f UG \<sigma>] by (simp_all only: sat_F_G unary.distinct simp_thms)
  moreover have "left_append_closed (sat f) \<Longrightarrow> eventually (sat f) \<sigma> = sat f \<sigma>"
    unfolding left_append_closed_def eventually_def by (metis suffix_simps(1))
  moreover have "suffix_closed (sat f) \<Longrightarrow> globally (sat f) \<sigma> = sat f \<sigma>"
    unfolding suffix_closed_def globally_def by (metis suffix_simps(1))
  ultimately show ?thesis
    using pure unfolding left_append_closed_def suffix_closed_def by blast
qed

theorem pure_formulas_sound_witness:
  "sat (unop UF (Unary UG (Unary UF (ap ''a'')))) (\<lambda>n s. n = 3) = sat (Unary UG (Unary UF (ap ''a''))) (\<lambda>n s. n = 3)"
proof -
  have "psl_ok (Unary UG (Unary UF (ap ''a'')))" "is_eventual (Unary UG (Unary UF (ap ''a'')))"
    by (simp_all add: unary_props_def)
  then show ?thesis using pure_formulas_sound [of "Unary UG (Unary UF (ap ''a''))"] by blast
qed

end
