(* ===== verification/Hierarchy.thy ===== *)
theory Hierarchy
  imports FormulaProps "HOL-Library.Countable"
begin

text \<open>
  The syntactic classes of the temporal hierarchy computed by \<open>fnode::setup_props\<close>
  (tl/formula.cc) are sound.  Guarantee properties are the open sets of infinite words, safety
  properties the closed ones, recurrence properties the countable intersections of open sets and
  persistence properties their complements; an obligation is both.
\<close>

section \<open>Finite SEREs\<close>

definition bounded_lang :: "lang \<Rightarrow> nat \<Rightarrow> bool" where
  "bounded_lang L N = (\<forall>w. L w \<longrightarrow> length w \<le> N)"

lemma bounded_conc: "bounded_lang A M \<Longrightarrow> bounded_lang B N \<Longrightarrow> bounded_lang (conc A B) (M + N)"
  unfolding bounded_lang_def conc_def by (fastforce intro: add_mono)

lemma bounded_fuse: "bounded_lang A M \<Longrightarrow> bounded_lang B N \<Longrightarrow> bounded_lang (fuse A B) (M + N)"
  unfolding bounded_lang_def fuse_def by (fastforce intro: add_mono dest: spec)

lemma bounded_cpow: "bounded_lang A M \<Longrightarrow> bounded_lang (cpow A n) (n * M)"
  using bounded_conc by (induction n) (auto simp: bounded_lang_def eps_def)

lemma bounded_fpow: "bounded_lang A M \<Longrightarrow> bounded_lang (fpow A n) (n * M + 1)"
  using bounded_fuse [of A M "fpow A n" "n * M + 1" for n]
  by (induction n) (auto simp: bounded_lang_def one_def)

lemma bounded_mono: "bounded_lang A M \<Longrightarrow> M \<le> N \<Longrightarrow> bounded_lang A N"
  unfolding bounded_lang_def by fastforce

lemma bounded_foldr:
  assumes "\<And>L. L \<in> set Ls \<Longrightarrow> bounded_lang L N"
  shows "bounded_lang (foldr conc Ls eps) (length Ls * N) \<and>
    bounded_lang (foldr fuse Ls one) (length Ls * N + 1)"
  using assms
proof (induction Ls)
  case Nil
  show ?case by (simp add: bounded_lang_def eps_def one_def)
next
  case (Cons L Ls)
  then show ?case
    using bounded_conc [of L N "foldr conc Ls eps" "length Ls * N"]
      bounded_fuse [of L N "foldr fuse Ls one" "length Ls * N + 1"]
    by (simp add: add.assoc)
qed

lemma finite_rational:
  assumes "on \<noteq> MAnd" "on \<noteq> MOr" "fs \<noteq> []"
  shows "is_finite (Multi on fs) = list_all is_finite fs"
  unfolding setup_props_Multi using assms multi_field [of p_finite fs]
  by (cases on) (auto simp: multi_props_def rational_props_def Let_def)

lemma boolean_bounded:
  assumes "is_boolean f"
  shows "\<exists>N. bounded_lang (sere f) N"
proof -
  have "bounded_lang (sere f) 1"
    using boolean_one [OF assms] unfolding bounded_lang_def one_def by fastforce
  then show ?thesis by blast
qed

lemma nlm_bound:
  assumes "\<And>L. L \<in> set Ls \<Longrightarrow> bounded_lang L N" "Ls \<noteq> []" "mlang MAndNLM Ls w"
  shows "length w \<le> N"
proof -
  obtain L where "L \<in> set Ls" "L w" using assms(2,3) by (auto simp: list_ex_iff)
  then show ?thesis using assms(1) unfolding bounded_lang_def by blast
qed

lemma finite_sere: "sere_ok f \<Longrightarrow> is_finite f \<Longrightarrow> \<exists>N. bounded_lang (sere f) N"
proof (induction f rule: sere_ok.induct)
  case (2 f)
  then have "\<exists>N. bounded_lang (sere f) N" by (simp add: unary_props_def)
  then show ?case unfolding bounded_lang_def by auto
next
  case (3 on fs)
  show ?case
  proof (cases "on = MAnd \<or> on = MOr")
    case True
    with "3.prems" have "is_boolean (Multi on fs)" by (simp only: sere_ok.simps if_True)
    then show ?thesis using boolean_one [of "Multi on fs"] unfolding bounded_lang_def one_def
      by (metis order_refl)
  next
    case False
    then have fs: "2 \<le> length fs" "fs \<noteq> []" and ok: "list_all sere_ok fs"
      using 3 by auto
    then have "list_all is_finite fs" using "3.prems" False finite_rational by blast
    with ok have "f \<in> set fs \<Longrightarrow> \<exists>N. bounded_lang (sere f) N" for f
      using "3.IH" False by (auto simp: list.pred_set)
    then obtain n where n: "\<And>f. f \<in> set fs \<Longrightarrow> bounded_lang (sere f) (n f)" by metis
    define N where "N = Max (n ` set fs)"
    have "n f \<le> N" if "f \<in> set fs" for f using that by (simp add: N_def)
    then have N: "bounded_lang L N" if "L \<in> set (map sere fs)" for L
      using that n bounded_mono by fastforce
    have "bounded_lang (mlang on (map sere fs)) (length fs * N + N + 1)"
    proof (cases on)
      case MFusion
      have "fusion (map sere fs) = foldr fuse (map sere fs) one"
        by (rule fusion_fold) (use fs(1) in simp)
      then show ?thesis
        using bounded_foldr [of "map sere fs" N, OF N] MFusion by (auto simp: bounded_lang_def)
    next
      case MConcat
      then show ?thesis
        using bounded_foldr [of "map sere fs" N, OF N] by (auto simp: bounded_lang_def)
    next
      case MOrRat
      then show ?thesis using N by (fastforce simp: bounded_lang_def list_ex_iff)
    next
      case MAndRat
      have "sere (hd fs) w \<Longrightarrow> length w \<le> N" for w
        using N [of "sere (hd fs)"] fs(2) by (simp add: bounded_lang_def)
      with MAndRat fs(2) show ?thesis
        unfolding bounded_lang_def by (cases fs) (fastforce intro: trans_le_add1)+
    next
      case MAndNLM
      have "length w \<le> N" if "mlang MAndNLM (map sere fs) w" for w
        by (rule nlm_bound [of "map sere fs"]) (use N fs(2) that in simp_all)
      with MAndNLM show ?thesis unfolding bounded_lang_def by (fastforce simp del: mlang.simps)
    qed (use False in simp_all)
    then show ?thesis by auto
  qed
next
  case (4 os f mn mx)
  then obtain N where N: "bounded_lang (sere f) N" and mx: "mx \<noteq> unbounded"
    by (auto simp: star_props_def Let_def split: star.splits)
  have "bounded_lang (slang os (sere f) n) (mx * N + 1)" if "n \<le> mx" for n
  proof -
    have "n * N \<le> mx * N" using that by simp
    then show ?thesis
      using bounded_cpow [OF N, of n] bounded_fpow [OF N, of n] bounded_mono
      by (cases os) (metis slang.simps(1) trans_le_add1, metis slang.simps(2) add_le_mono1)
  qed
  then have "bounded_lang (sere (Starred os f mn mx)) (mx * N + 1)"
    using mx unfolding bounded_lang_def by (auto simp: in_range_def)
  then show ?case by blast
next
  case 1
  show ?case by (simp add: bounded_lang_def eps_def)
next
  case "5_1"
  show ?case using boolean_bounded [of ff] by simp
next
  case "5_2"
  show ?case using boolean_bounded [of tt] by simp
qed (metis boolean_bounded sere_ok.simps)+

section \<open>Open and closed sets of words\<close>

definition agree :: "nat \<Rightarrow> word \<Rightarrow> word \<Rightarrow> bool" where
  "agree n \<sigma> \<tau> = (\<forall>i < n. \<tau> i = \<sigma> i)"

definition open_set :: "(word \<Rightarrow> bool) \<Rightarrow> bool" where
  "open_set P = (\<forall>\<sigma>. P \<sigma> \<longrightarrow> (\<exists>n. \<forall>\<tau>. agree n \<sigma> \<tau> \<longrightarrow> P \<tau>))"

definition closed_set :: "(word \<Rightarrow> bool) \<Rightarrow> bool" where
  "closed_set P = open_set (\<lambda>\<sigma>. \<not> P \<sigma>)"

definition recurrence :: "(word \<Rightarrow> bool) \<Rightarrow> bool" where
  "recurrence P = (\<exists>Q. (\<forall>n :: nat. open_set (Q n)) \<and> P = (\<lambda>\<sigma>. \<forall>n. Q n \<sigma>))"

definition persistence :: "(word \<Rightarrow> bool) \<Rightarrow> bool" where
  "persistence P = recurrence (\<lambda>\<sigma>. \<not> P \<sigma>)"

definition obligation :: "(word \<Rightarrow> bool) \<Rightarrow> bool" where
  "obligation P = (recurrence P \<and> persistence P)"

lemma agree_mono: "agree n \<sigma> \<tau> \<Longrightarrow> m \<le> n \<Longrightarrow> agree m \<sigma> \<tau>"
  unfolding agree_def by simp

lemma agree_trans: "agree n \<sigma> \<rho> \<Longrightarrow> agree n \<sigma> \<tau> \<Longrightarrow> agree n \<tau> \<rho>"
  unfolding agree_def by simp

lemma agree_suffix: "agree (k + n) \<sigma> \<tau> \<Longrightarrow> agree n (suffix k \<sigma>) (suffix k \<tau>)"
  unfolding agree_def by (simp add: suffix_def)

lemma agree_prefix: "agree n \<sigma> \<tau> \<Longrightarrow> prefix n \<tau> = prefix n \<sigma>"
  unfolding agree_def by (simp add: prefix_def)

lemma open_setI: "(\<And>\<sigma>. P \<sigma> \<Longrightarrow> \<exists>n. \<forall>\<tau>. agree n \<sigma> \<tau> \<longrightarrow> P \<tau>) \<Longrightarrow> open_set P"
  unfolding open_set_def by blast

lemma open_setE:
  assumes "open_set P" "P \<sigma>"
  obtains n where "\<And>\<tau>. agree n \<sigma> \<tau> \<Longrightarrow> P \<tau>"
  using assms unfolding open_set_def by blast

lemma open_Ex:
  assumes "\<And>i. open_set (P i)"
  shows "open_set (\<lambda>\<sigma>. \<exists>i. P i \<sigma>)"
proof (rule open_setI)
  fix \<sigma> assume "\<exists>i. P i \<sigma>"
  then obtain i where "P i \<sigma>" by blast
  with assms show "\<exists>n. \<forall>\<tau>. agree n \<sigma> \<tau> \<longrightarrow> (\<exists>i. P i \<tau>)" by (rule open_setE) blast
qed

lemma open_disj: "open_set P \<Longrightarrow> open_set Q \<Longrightarrow> open_set (\<lambda>\<sigma>. P \<sigma> \<or> Q \<sigma>)"
  using open_Ex [of "\<lambda>b. if b then P else Q"] by (simp add: ex_bool_eq)

lemma open_conj:
  assumes "open_set P" "open_set Q"
  shows "open_set (\<lambda>\<sigma>. P \<sigma> \<and> Q \<sigma>)"
proof (rule open_setI)
  fix \<sigma> assume "P \<sigma> \<and> Q \<sigma>"
  then obtain m n where "\<And>\<tau>. agree m \<sigma> \<tau> \<Longrightarrow> P \<tau>" "\<And>\<tau>. agree n \<sigma> \<tau> \<Longrightarrow> Q \<tau>"
    using open_setE [OF assms(1)] open_setE [OF assms(2)] by (metis (full_types))
  then have "\<forall>\<tau>. agree (max m n) \<sigma> \<tau> \<longrightarrow> P \<tau> \<and> Q \<tau>" using agree_mono by fastforce
  then show "\<exists>n. \<forall>\<tau>. agree n \<sigma> \<tau> \<longrightarrow> P \<tau> \<and> Q \<tau>" by blast
qed

lemma open_const: "open_set (\<lambda>\<sigma>. c)"
  unfolding open_set_def by blast

lemma open_prefix: "open_set (\<lambda>\<sigma>. L (prefix n \<sigma>))"
proof (rule open_setI)
  fix \<sigma> assume "L (prefix n \<sigma>)"
  then have "\<forall>\<tau>. agree n \<sigma> \<tau> \<longrightarrow> L (prefix n \<tau>)" by (simp add: agree_prefix)
  then show "\<exists>m. \<forall>\<tau>. agree m \<sigma> \<tau> \<longrightarrow> L (prefix n \<tau>)" by blast
qed

lemma open_suffix:
  assumes "open_set P"
  shows "open_set (\<lambda>\<sigma>. P (suffix k \<sigma>))"
proof (rule open_setI)
  fix \<sigma> assume "P (suffix k \<sigma>)"
  with assms obtain n where "\<And>\<tau>. agree n (suffix k \<sigma>) \<tau> \<Longrightarrow> P \<tau>"
    using open_setE [of P "suffix k \<sigma>"] by metis
  then have "\<forall>\<tau>. agree (k + n) \<sigma> \<tau> \<longrightarrow> P (suffix k \<tau>)" by (simp add: agree_suffix)
  then show "\<exists>n. \<forall>\<tau>. agree n \<sigma> \<tau> \<longrightarrow> P (suffix k \<tau>)" by blast
qed

section \<open>Countable intersections of open sets\<close>

lemma recurrenceI: "(\<And>n :: nat. open_set (Q n)) \<Longrightarrow> (\<And>\<sigma>. P \<sigma> = (\<forall>n. Q n \<sigma>)) \<Longrightarrow> recurrence P"
  unfolding recurrence_def by (intro exI [of _ Q]) auto

lemma recurrenceE:
  assumes "recurrence P"
  obtains Q where "\<And>n :: nat. open_set (Q n)" "P = (\<lambda>\<sigma>. \<forall>n. Q n \<sigma>)"
  using assms unfolding recurrence_def by blast

lemma open_recurrence: "open_set P \<Longrightarrow> recurrence P"
  by (rule recurrenceI [of "\<lambda>n. P"]) simp_all

lemma closed_recurrence:
  assumes "closed_set P"
  shows "recurrence P"
proof (rule recurrenceI)
  define Q where "Q n \<sigma> = (\<exists>\<tau>. agree n \<sigma> \<tau> \<and> P \<tau>)" for n \<sigma>
  show "open_set (Q n)" for n
  proof (rule open_setI)
    fix \<sigma> assume "Q n \<sigma>"
    then obtain \<rho> where "agree n \<sigma> \<rho>" "P \<rho>" unfolding Q_def by blast
    then have "\<forall>\<tau>. agree n \<sigma> \<tau> \<longrightarrow> Q n \<tau>" using agree_trans unfolding Q_def by blast
    then show "\<exists>m. \<forall>\<tau>. agree m \<sigma> \<tau> \<longrightarrow> Q n \<tau>" by blast
  qed
  show "P \<sigma> = (\<forall>n. Q n \<sigma>)" for \<sigma>
  proof
    have "agree n \<sigma> \<sigma>" for n by (simp add: agree_def)
    then show "P \<sigma> \<Longrightarrow> \<forall>n. Q n \<sigma>" unfolding Q_def by blast
    assume "\<forall>n. Q n \<sigma>"
    then show "P \<sigma>"
      using open_setE [OF assms [unfolded closed_set_def], of \<sigma>] unfolding Q_def by metis
  qed
qed

lemma recurrence_All:
  assumes "\<And>k :: nat. recurrence (P k)"
  shows "recurrence (\<lambda>\<sigma>. \<forall>k. P k \<sigma>)"
proof -
  have "\<forall>k. \<exists>Q. (\<forall>n :: nat. open_set (Q n)) \<and> P k = (\<lambda>\<sigma>. \<forall>n. Q n \<sigma>)"
    using assms unfolding recurrence_def by blast
  from choice [OF this]
  obtain Q where Q: "\<forall>k. (\<forall>n :: nat. open_set (Q k n)) \<and> P k = (\<lambda>\<sigma>. \<forall>n. Q k n \<sigma>)" by blast
  show ?thesis
  proof (rule recurrenceI [of "\<lambda>m. Q (fst (prod_decode m)) (snd (prod_decode m))"])
    show "open_set (Q (fst (prod_decode m)) (snd (prod_decode m)))" for m using Q by blast
    show "(\<forall>k. P k \<sigma>) = (\<forall>m. Q (fst (prod_decode m)) (snd (prod_decode m)) \<sigma>)" for \<sigma>
    proof
      show "\<forall>k. P k \<sigma> \<Longrightarrow> \<forall>m. Q (fst (prod_decode m)) (snd (prod_decode m)) \<sigma>" using Q by simp
      assume all: "\<forall>m. Q (fst (prod_decode m)) (snd (prod_decode m)) \<sigma>"
      have "Q k n \<sigma>" for k n using spec [OF all, of "prod_encode (k, n)"] by simp
      with Q show "\<forall>k. P k \<sigma>" by simp
    qed
  qed
qed

lemma recurrence_conj:
  assumes "recurrence P" "recurrence Q"
  shows "recurrence (\<lambda>\<sigma>. P \<sigma> \<and> Q \<sigma>)"
proof -
  have "recurrence (\<lambda>\<sigma>. \<forall>k :: nat. (if k = 0 then P else Q) \<sigma>)"
    using assms by (intro recurrence_All) simp
  moreover have "(\<lambda>\<sigma>. \<forall>k :: nat. (if k = 0 then P else Q) \<sigma>) = (\<lambda>\<sigma>. P \<sigma> \<and> Q \<sigma>)"
    by (auto split: if_splits)
  ultimately show ?thesis by simp
qed

lemma recurrence_disj:
  assumes "recurrence P" "recurrence Q"
  shows "recurrence (\<lambda>\<sigma>. P \<sigma> \<or> Q \<sigma>)"
proof -
  obtain A where A: "\<And>n. open_set (A (n :: nat))" "P = (\<lambda>\<sigma>. \<forall>n. A n \<sigma>)"
    using assms(1) unfolding recurrence_def by blast
  obtain B where B: "\<And>n. open_set (B (n :: nat))" "Q = (\<lambda>\<sigma>. \<forall>n. B n \<sigma>)"
    using assms(2) unfolding recurrence_def by blast
  have "recurrence (\<lambda>\<sigma>. \<forall>m. \<forall>n. A m \<sigma> \<or> B n \<sigma>)"
    by (intro recurrence_All open_recurrence open_disj A B)
  moreover have "(\<lambda>\<sigma>. \<forall>m. \<forall>n. A m \<sigma> \<or> B n \<sigma>) = (\<lambda>\<sigma>. P \<sigma> \<or> Q \<sigma>)"
    unfolding A B by blast
  ultimately show ?thesis by simp
qed

lemma recurrence_suffix:
  assumes "recurrence P"
  shows "recurrence (\<lambda>\<sigma>. P (suffix k \<sigma>))"
proof -
  obtain A where "\<And>n. open_set (A (n :: nat))" "P = (\<lambda>\<sigma>. \<forall>n. A n \<sigma>)"
    using assms unfolding recurrence_def by blast
  then show ?thesis
    unfolding recurrence_def by (intro exI [of _ "\<lambda>n \<sigma>. A n (suffix k \<sigma>)"]) (simp add: open_suffix)
qed

lemma persistence_Ex: "(\<And>k :: nat. persistence (P k)) \<Longrightarrow> persistence (\<lambda>\<sigma>. \<exists>k. P k \<sigma>)"
  using recurrence_All [of "\<lambda>k \<sigma>. \<not> P k \<sigma>"] unfolding persistence_def by simp

lemma persistence_connectives:
  "persistence P \<Longrightarrow> persistence Q \<Longrightarrow> persistence (\<lambda>\<sigma>. P \<sigma> \<and> Q \<sigma>)"
  "persistence P \<Longrightarrow> persistence Q \<Longrightarrow> persistence (\<lambda>\<sigma>. P \<sigma> \<or> Q \<sigma>)"
  "persistence P \<Longrightarrow> persistence (\<lambda>\<sigma>. P (suffix k \<sigma>))"
  unfolding persistence_def
  using recurrence_conj [of "\<lambda>\<sigma>. \<not> P \<sigma>" "\<lambda>\<sigma>. \<not> Q \<sigma>"]
    recurrence_disj [of "\<lambda>\<sigma>. \<not> P \<sigma>" "\<lambda>\<sigma>. \<not> Q \<sigma>"] recurrence_suffix [of "\<lambda>\<sigma>. \<not> P \<sigma>" k]
  by simp_all

lemma open_persistence: "open_set P \<Longrightarrow> persistence P"
  unfolding persistence_def by (rule closed_recurrence) (simp add: closed_set_def)

section \<open>The operators\<close>

text \<open>
  Open sets and persistence properties are closed under the same operations; the complements,
  closed sets and recurrence properties, under the dual ones.
\<close>

locale topology_class =
  fixes K :: "(word \<Rightarrow> bool) \<Rightarrow> bool"
  assumes Ex: "(\<And>i :: nat. K (R i)) \<Longrightarrow> K (\<lambda>\<sigma>. \<exists>i. R i \<sigma>)"
    and conj: "K P \<Longrightarrow> K Q \<Longrightarrow> K (\<lambda>\<sigma>. P \<sigma> \<and> Q \<sigma>)"
    and disj: "K P \<Longrightarrow> K Q \<Longrightarrow> K (\<lambda>\<sigma>. P \<sigma> \<or> Q \<sigma>)"
    and shifted: "K P \<Longrightarrow> K (\<lambda>\<sigma>. P (suffix k \<sigma>))"
    and finite_view: "K (\<lambda>\<sigma>. A (prefix n \<sigma>))"
begin

lemma const: "K (\<lambda>\<sigma>. c)"
  using finite_view [of "\<lambda>w. c" 0] .

lemma all_less: "(\<And>i. i < k \<Longrightarrow> K (P i)) \<Longrightarrow> K (\<lambda>\<sigma>. \<forall>i < (k :: nat). P i \<sigma>)"
proof (induction k)
  case 0
  then show ?case by (simp add: const)
next
  case (Suc k)
  then have "K (\<lambda>\<sigma>. (\<forall>i < k. P i \<sigma>) \<and> P k \<sigma>)" by (intro conj) auto
  moreover have "(\<lambda>\<sigma>. (\<forall>i < k. P i \<sigma>) \<and> P k \<sigma>) = (\<lambda>\<sigma>. \<forall>i < Suc k. P i \<sigma>)"
    by (auto simp: less_Suc_eq)
  ultimately show ?case by simp
qed

lemma list_connectives:
  "(\<And>f. f \<in> set fs \<Longrightarrow> K (R f)) \<Longrightarrow> K (\<lambda>\<sigma>. \<forall>f \<in> set fs. R f \<sigma>)"
  "(\<And>f. f \<in> set fs \<Longrightarrow> K (R f)) \<Longrightarrow> K (\<lambda>\<sigma>. \<exists>f \<in> set fs. R f \<sigma>)"
  by (induction fs) (simp_all add: const conj disj)

lemma temporal:
  "K P \<Longrightarrow> K (eventually P)"
  "K P \<Longrightarrow> K Q \<Longrightarrow> K (until P Q)"
  "K P \<Longrightarrow> K Q \<Longrightarrow> K (strong_release P Q)"
  "K P \<Longrightarrow> K (seq A P)"
proof -
  show "K P \<Longrightarrow> K (eventually P)"
    unfolding eventually_def [abs_def] by (intro Ex shifted)
  show "K P \<Longrightarrow> K Q \<Longrightarrow> K (until P Q)"
    unfolding until_def [abs_def] by (intro Ex conj all_less shifted)
  show "K P \<Longrightarrow> K Q \<Longrightarrow> K (strong_release P Q)"
    unfolding strong_release_def [abs_def] less_Suc_eq_le [symmetric] by (intro Ex conj all_less shifted)
  show "K P \<Longrightarrow> K (seq A P)"
    unfolding seq_def [abs_def] by (intro Ex conj finite_view shifted)
qed

lemma bounded_triggers:
  assumes "K P" "bounded_lang A N"
  shows "K (triggers A P)"
proof -
  have "triggers A P = (\<lambda>\<sigma>. \<forall>k < N. \<not> A (prefix (Suc k) \<sigma>) \<or> P (suffix k \<sigma>))"
  proof
    fix \<sigma>
    have "A (prefix (Suc k) \<sigma>) \<Longrightarrow> k < N" for k
      using assms(2) unfolding bounded_lang_def by (metis Suc_le_eq prefix_simps(2))
    then show "triggers A P \<sigma> = (\<forall>k < N. \<not> A (prefix (Suc k) \<sigma>) \<or> P (suffix k \<sigma>))"
      unfolding triggers_def by blast
  qed
  then show ?thesis
    using all_less [of N "\<lambda>k \<sigma>. \<not> A (prefix (Suc k) \<sigma>) \<or> P (suffix k \<sigma>)"]
      disj [OF finite_view [of "\<lambda>w. \<not> A w"] shifted [OF assms(1)]] by simp
qed

end

interpretation opens: topology_class open_set
  by unfold_locales (simp_all add: open_Ex open_conj open_disj open_suffix open_prefix)

interpretation pers: topology_class persistence
  by unfold_locales
    (simp_all add: persistence_Ex persistence_connectives open_persistence open_prefix)

lemma dual_operators:
  "(\<lambda>\<sigma>. \<not> globally P \<sigma>) = eventually (\<lambda>\<sigma>. \<not> P \<sigma>)"
  "(\<lambda>\<sigma>. \<not> (until P Q \<sigma> \<or> globally P \<sigma>)) = strong_release (\<lambda>\<sigma>. \<not> P \<sigma>) (\<lambda>\<sigma>. \<not> Q \<sigma>)"
  "(\<lambda>\<sigma>. \<not> (strong_release P Q \<sigma> \<or> globally Q \<sigma>)) = until (\<lambda>\<sigma>. \<not> P \<sigma>) (\<lambda>\<sigma>. \<not> Q \<sigma>)"
  "(\<lambda>\<sigma>. \<not> triggers A P \<sigma>) = seq A (\<lambda>\<sigma>. \<not> P \<sigma>)"
  "(\<lambda>\<sigma>. \<not> seq A P \<sigma>) = triggers A (\<lambda>\<sigma>. \<not> P \<sigma>)"
proof -
  show "(\<lambda>\<sigma>. \<not> globally P \<sigma>) = eventually (\<lambda>\<sigma>. \<not> P \<sigma>)"
    unfolding globally_def eventually_def by blast
  show "(\<lambda>\<sigma>. \<not> triggers A P \<sigma>) = seq A (\<lambda>\<sigma>. \<not> P \<sigma>)" "(\<lambda>\<sigma>. \<not> seq A P \<sigma>) = triggers A (\<lambda>\<sigma>. \<not> P \<sigma>)"
    unfolding triggers_def seq_def by blast+
  have *: "(\<not> ((\<exists>j. b j \<and> (\<forall>i < j. a i)) \<or> (\<forall>i. a i))) = (\<exists>j. \<not> a j \<and> (\<forall>i \<le> j. \<not> b i))"
    for a b :: "nat \<Rightarrow> bool"
  proof
    assume l: "\<not> ((\<exists>j. b j \<and> (\<forall>i < j. a i)) \<or> (\<forall>i. a i))"
    define j where "j = (LEAST j. \<not> a j)"
    have "\<not> a j" "\<forall>i < j. a i" using l LeastI_ex [of "\<lambda>j. \<not> a j"] not_less_Least unfolding j_def by blast+
    moreover from this(2) l have "\<forall>i \<le> j. \<not> b i" by (meson less_le_trans)
    ultimately show "\<exists>j. \<not> a j \<and> (\<forall>i \<le> j. \<not> b i)" by blast
  next
    show "\<exists>j. \<not> a j \<and> (\<forall>i \<le> j. \<not> b i) \<Longrightarrow> \<not> ((\<exists>j. b j \<and> (\<forall>i < j. a i)) \<or> (\<forall>i. a i))"
      by (metis not_le)
  qed
  show "(\<lambda>\<sigma>. \<not> (until P Q \<sigma> \<or> globally P \<sigma>)) = strong_release (\<lambda>\<sigma>. \<not> P \<sigma>) (\<lambda>\<sigma>. \<not> Q \<sigma>)"
    unfolding until_def globally_def strong_release_def
    by (rule ext) (rule * [of "\<lambda>i. Q (suffix i _)" "\<lambda>i. P (suffix i _)"])
  have **: "(\<not> ((\<exists>j. a j \<and> (\<forall>i \<le> j. b i)) \<or> (\<forall>i. b i))) = (\<exists>j. \<not> b j \<and> (\<forall>i < j. \<not> a i))"
    for a b :: "nat \<Rightarrow> bool"
  proof
    assume l: "\<not> ((\<exists>j. a j \<and> (\<forall>i \<le> j. b i)) \<or> (\<forall>i. b i))"
    define j where "j = (LEAST j. \<not> b j)"
    have j: "\<not> b j" "\<forall>i < j. b i"
      using l LeastI_ex [of "\<lambda>j. \<not> b j"] not_less_Least unfolding j_def by blast+
    then have "\<forall>i < j. \<not> a i" using l by (meson le_less_trans)
    with j show "\<exists>j. \<not> b j \<and> (\<forall>i < j. \<not> a i)" by blast
  next
    show "\<exists>j. \<not> b j \<and> (\<forall>i < j. \<not> a i) \<Longrightarrow> \<not> ((\<exists>j. a j \<and> (\<forall>i \<le> j. b i)) \<or> (\<forall>i. b i))"
      by (metis not_le)
  qed
  show "(\<lambda>\<sigma>. \<not> (strong_release P Q \<sigma> \<or> globally Q \<sigma>)) = until (\<lambda>\<sigma>. \<not> P \<sigma>) (\<lambda>\<sigma>. \<not> Q \<sigma>)"
    unfolding until_def globally_def strong_release_def
    by (rule ext) (rule **)
qed

lemma closed_recurrence_iff: "closed_set P = open_set (\<lambda>\<sigma>. \<not> P \<sigma>)" "recurrence P = persistence (\<lambda>\<sigma>. \<not> P \<sigma>)"
  by (simp_all add: closed_set_def persistence_def)

lemma dual_class:
  assumes "topology_class K"
  shows "K (\<lambda>\<sigma>. \<not> P \<sigma>) \<Longrightarrow> K (\<lambda>\<sigma>. \<not> globally P \<sigma>)"
    and "K (\<lambda>\<sigma>. \<not> P \<sigma>) \<Longrightarrow> K (\<lambda>\<sigma>. \<not> Q \<sigma>) \<Longrightarrow> K (\<lambda>\<sigma>. \<not> (until P Q \<sigma> \<or> globally P \<sigma>))"
    and "K (\<lambda>\<sigma>. \<not> P \<sigma>) \<Longrightarrow> K (\<lambda>\<sigma>. \<not> Q \<sigma>) \<Longrightarrow> K (\<lambda>\<sigma>. \<not> (strong_release P Q \<sigma> \<or> globally Q \<sigma>))"
    and "K (\<lambda>\<sigma>. \<not> P \<sigma>) \<Longrightarrow> K (\<lambda>\<sigma>. \<not> triggers A P \<sigma>)"
    and "K (\<lambda>\<sigma>. \<not> P \<sigma>) \<Longrightarrow> bounded_lang A N \<Longrightarrow> K (\<lambda>\<sigma>. \<not> seq A P \<sigma>)"
  unfolding dual_operators
  by (intro topology_class.temporal [OF assms] topology_class.bounded_triggers [OF assms]; assumption)+

text \<open>What the five flags of a node promise about the words satisfying its formula.\<close>

definition in_hierarchy :: "ltl_prop \<Rightarrow> (word \<Rightarrow> bool) \<Rightarrow> bool" where
  "in_hierarchy p P =
    ((p_syntactic_safety p \<longrightarrow> closed_set P) \<and>
     (p_syntactic_guarantee p \<longrightarrow> open_set P) \<and>
     (p_syntactic_obligation p \<longrightarrow> obligation P) \<and>
     (p_syntactic_recurrence p \<longrightarrow> recurrence P) \<and>
     (p_syntactic_persistence p \<longrightarrow> persistence P))"

lemmas classes_dual = closed_recurrence_iff obligation_def

lemma hierarchy_F: "in_hierarchy p P \<Longrightarrow> in_hierarchy (unary_props UF f p) (eventually P)"
  unfolding in_hierarchy_def unary_props_def
  using opens.temporal(1) pers.temporal(1) open_recurrence open_persistence
  by (simp add: obligation_def)

lemma hierarchy_G: "in_hierarchy p P \<Longrightarrow> in_hierarchy (unary_props UG f p) (globally P)"
  unfolding in_hierarchy_def unary_props_def classes_dual
  using dual_class(1) [OF opens.topology_class_axioms] dual_class(1) [OF pers.topology_class_axioms]
    closed_recurrence [of "globally P"] open_persistence [of "\<lambda>\<sigma>. \<not> globally P \<sigma>"]
    open_recurrence [of "\<lambda>\<sigma>. \<not> globally P \<sigma>"]
  by (simp add: classes_dual)

lemma open_cases: "open_set P \<Longrightarrow> recurrence P \<and> persistence P"
  by (simp add: open_recurrence open_persistence)

lemma closed_cases: "closed_set P \<Longrightarrow> recurrence P \<and> persistence P"
  unfolding closed_recurrence_iff(1)
  using closed_recurrence [of P] open_recurrence [of "\<lambda>\<sigma>. \<not> P \<sigma>"]
  by (simp add: closed_set_def persistence_def)

lemma recurrence_class:
  "recurrence P \<Longrightarrow> recurrence (globally P)"
  "recurrence P \<Longrightarrow> recurrence Q \<Longrightarrow> recurrence (\<lambda>\<sigma>. until P Q \<sigma> \<or> globally P \<sigma>)"
  "recurrence P \<Longrightarrow> recurrence Q \<Longrightarrow> recurrence (\<lambda>\<sigma>. strong_release P Q \<sigma> \<or> globally Q \<sigma>)"
  "recurrence P \<Longrightarrow> recurrence (triggers A P)"
  "recurrence P \<Longrightarrow> bounded_lang A N \<Longrightarrow> recurrence (seq A P)"
  unfolding closed_recurrence_iff(2) by (rule dual_class [OF pers.topology_class_axioms]; assumption)+

lemma closed_class:
  "closed_set P \<Longrightarrow> closed_set (globally P)"
  "closed_set P \<Longrightarrow> closed_set Q \<Longrightarrow> closed_set (\<lambda>\<sigma>. until P Q \<sigma> \<or> globally P \<sigma>)"
  "closed_set P \<Longrightarrow> closed_set Q \<Longrightarrow> closed_set (\<lambda>\<sigma>. strong_release P Q \<sigma> \<or> globally Q \<sigma>)"
  "closed_set P \<Longrightarrow> closed_set (triggers A P)"
  "closed_set P \<Longrightarrow> bounded_lang A N \<Longrightarrow> closed_set (seq A P)"
  unfolding closed_recurrence_iff(1) by (rule dual_class [OF opens.topology_class_axioms]; assumption)+

text \<open>An until whose right operand is open is a recurrence property when its left one is.\<close>

lemma recurrence_until:
  assumes "recurrence P" "open_set Q"
  shows "recurrence (until P Q)" "recurrence (strong_release Q P)"
proof -
  have "recurrence Q" "recurrence (eventually Q)"
    using assms(2) opens.temporal(1) open_recurrence by blast+
  moreover have "until P Q = (\<lambda>\<sigma>. eventually Q \<sigma> \<and> (until P Q \<sigma> \<or> globally P \<sigma>))"
  proof
    fix \<sigma>
    have "until P Q \<sigma>" if "globally P \<sigma>" "eventually Q \<sigma>"
      using that unfolding globally_def eventually_def until_def by blast
    moreover have "until P Q \<sigma> \<Longrightarrow> eventually Q \<sigma>" unfolding until_def eventually_def by blast
    ultimately show "until P Q \<sigma> = (eventually Q \<sigma> \<and> (until P Q \<sigma> \<or> globally P \<sigma>))" by blast
  qed
  moreover have "strong_release Q P = (\<lambda>\<sigma>. eventually Q \<sigma> \<and> (strong_release Q P \<sigma> \<or> globally P \<sigma>))"
  proof
    fix \<sigma>
    have "strong_release Q P \<sigma>" if "globally P \<sigma>" "eventually Q \<sigma>"
      using that unfolding globally_def eventually_def strong_release_def by blast
    moreover have "strong_release Q P \<sigma> \<Longrightarrow> eventually Q \<sigma>"
      unfolding strong_release_def eventually_def by blast
    ultimately show "strong_release Q P \<sigma> = (eventually Q \<sigma> \<and> (strong_release Q P \<sigma> \<or> globally P \<sigma>))"
      by blast
  qed
  ultimately show "recurrence (until P Q)" "recurrence (strong_release Q P)"
    using recurrence_conj [OF _ recurrence_class(2) [OF assms(1)], of "eventually Q" Q]
      recurrence_conj [OF _ recurrence_class(3) [OF _ assms(1)], of "eventually Q" Q] by simp_all
qed

lemma obligation_cases:
  "obligation P \<Longrightarrow> recurrence P" "obligation P \<Longrightarrow> persistence P"
  "recurrence P \<Longrightarrow> persistence P \<Longrightarrow> obligation P"
  by (simp_all add: obligation_def)

lemma until_fields:
  "p_syntactic_safety (until_props l r) = (p_syntactic_safety l \<and> p_syntactic_safety r)"
  "p_syntactic_guarantee (until_props l r) = (p_syntactic_guarantee l \<and> p_syntactic_guarantee r)"
  "p_syntactic_obligation (until_props l r) = (p_syntactic_obligation l \<and> p_syntactic_obligation r)"
  "p_syntactic_recurrence (until_props l r) = (p_syntactic_recurrence l \<and> p_syntactic_recurrence r)"
  "p_syntactic_persistence (until_props l r) = (p_syntactic_persistence l \<and> p_syntactic_persistence r)"
  by (simp_all add: until_props_def)

lemma hierarchy_U:
  assumes "in_hierarchy l P" "in_hierarchy r Q"
  shows "in_hierarchy (binary_props BU f g l r) (until P Q)"
proof -
  have "obligation (until P Q)" if "obligation P" "open_set Q"
    using that recurrence_until(1) [of P Q] pers.temporal(2) [of P Q] open_cases [of Q]
    by (simp add: obligation_def)
  with assms show ?thesis
    unfolding in_hierarchy_def binary_props_def
    using opens.temporal(2) [of P Q] pers.temporal(2) [of P Q] recurrence_until(1) [of P Q]
    by (simp add: until_fields)
qed

lemma hierarchy_M:
  assumes "in_hierarchy l P" "in_hierarchy r Q"
  shows "in_hierarchy (binary_props BM f g l r) (strong_release P Q)"
proof -
  have "obligation (strong_release P Q)" if "open_set P" "obligation Q"
    using that recurrence_until(2) [of Q P] pers.temporal(3) [of P Q] open_cases [of P]
    by (simp add: obligation_def)
  with assms show ?thesis
    unfolding in_hierarchy_def binary_props_def
    using opens.temporal(3) [of P Q] pers.temporal(3) [of P Q] recurrence_until(2) [of Q P]
    by (simp add: until_fields)
qed

lemma hierarchy_W:
  assumes "in_hierarchy l P" "in_hierarchy r Q"
  shows "in_hierarchy (binary_props BW f g l r) (\<lambda>\<sigma>. until P Q \<sigma> \<or> globally P \<sigma>)"
proof -
  have p: "persistence (\<lambda>\<sigma>. until P Q \<sigma> \<or> globally P \<sigma>)" if "closed_set P" "persistence Q"
    using that closed_cases pers.temporal(2) [of P Q] closed_class(1) [of P] by (intro pers.disj) blast+
  have "obligation (\<lambda>\<sigma>. until P Q \<sigma> \<or> globally P \<sigma>)" if "closed_set P" "obligation Q"
    using that p closed_cases [of P] recurrence_class(2) [of P Q] by (simp add: obligation_def)
  with assms p show ?thesis
    unfolding in_hierarchy_def binary_props_def
    using closed_class(2) [of P Q] recurrence_class(2) [of P Q] by (simp add: until_fields)
qed

lemma hierarchy_R:
  assumes "in_hierarchy l P" "in_hierarchy r Q"
  shows "in_hierarchy (binary_props BR f g l r) (\<lambda>\<sigma>. strong_release P Q \<sigma> \<or> globally Q \<sigma>)"
proof -
  have p: "persistence (\<lambda>\<sigma>. strong_release P Q \<sigma> \<or> globally Q \<sigma>)" if "persistence P" "closed_set Q"
    using that closed_cases pers.temporal(3) [of P Q] closed_class(1) [of Q] by (intro pers.disj) blast+
  have "obligation (\<lambda>\<sigma>. strong_release P Q \<sigma> \<or> globally Q \<sigma>)" if "obligation P" "closed_set Q"
    using that p closed_cases [of Q] recurrence_class(3) [of P Q] by (simp add: obligation_def)
  with assms p show ?thesis
    unfolding in_hierarchy_def binary_props_def
    using closed_class(3) [of P Q] recurrence_class(3) [of P Q] by (simp add: until_fields)
qed

lemma classes_not:
  "closed_set (\<lambda>\<sigma>. \<not> P \<sigma>) = open_set P" "open_set (\<lambda>\<sigma>. \<not> P \<sigma>) = closed_set P"
  "recurrence (\<lambda>\<sigma>. \<not> P \<sigma>) = persistence P" "persistence (\<lambda>\<sigma>. \<not> P \<sigma>) = recurrence P"
  "obligation (\<lambda>\<sigma>. \<not> P \<sigma>) = obligation P"
  by (auto simp: closed_set_def persistence_def obligation_def)

lemma classes_disj:
  "closed_set P \<Longrightarrow> closed_set Q \<Longrightarrow> closed_set (\<lambda>\<sigma>. P \<sigma> \<or> Q \<sigma>)"
  "obligation P \<Longrightarrow> obligation Q \<Longrightarrow> obligation (\<lambda>\<sigma>. P \<sigma> \<or> Q \<sigma>)"
  using opens.conj [of "\<lambda>\<sigma>. \<not> P \<sigma>" "\<lambda>\<sigma>. \<not> Q \<sigma>"]
  by (simp_all add: closed_set_def obligation_def recurrence_disj pers.disj)

lemma classes_conj:
  "closed_set P \<Longrightarrow> closed_set Q \<Longrightarrow> closed_set (\<lambda>\<sigma>. P \<sigma> \<and> Q \<sigma>)"
  "obligation P \<Longrightarrow> obligation Q \<Longrightarrow> obligation (\<lambda>\<sigma>. P \<sigma> \<and> Q \<sigma>)"
  using opens.disj [of "\<lambda>\<sigma>. \<not> P \<sigma>" "\<lambda>\<sigma>. \<not> Q \<sigma>"]
  by (simp_all add: closed_set_def obligation_def recurrence_conj pers.conj)

lemmas disj_intros = classes_disj opens.disj pers.disj recurrence_disj
lemmas conj_intros = classes_conj opens.conj pers.conj recurrence_conj

lemma hierarchy_not: "in_hierarchy p P \<Longrightarrow> in_hierarchy (unary_props UNot f p) (\<lambda>\<sigma>. \<not> P \<sigma>)"
  unfolding in_hierarchy_def unary_props_def by (simp add: classes_not)

lemma hierarchy_X:
  assumes "in_hierarchy p P"
  shows "in_hierarchy (unary_props UX f p) (\<lambda>\<sigma>. P (suffix 1 \<sigma>))"
    "in_hierarchy (unary_props UStrongX f p) (\<lambda>\<sigma>. P (suffix 1 \<sigma>))"
  using assms opens.shifted [of P 1] pers.shifted [of P 1] recurrence_suffix [of P 1]
    opens.shifted [of "\<lambda>\<sigma>. \<not> P \<sigma>" 1]
  unfolding in_hierarchy_def unary_props_def obligation_def closed_set_def by simp_all

lemma hierarchy_xor:
  assumes "in_hierarchy l P" "in_hierarchy r Q"
  shows "in_hierarchy (binary_props BXor f g l r) (\<lambda>\<sigma>. P \<sigma> \<noteq> Q \<sigma>)"
    "in_hierarchy (binary_props BEquiv f g l r) (\<lambda>\<sigma>. P \<sigma> = Q \<sigma>)"
proof -
  have *: "in_hierarchy (xor_props (props_and l r)) R"
    if R: "R = (\<lambda>\<sigma>. (P \<sigma> \<and> Q' \<sigma>) \<or> (\<not> P \<sigma> \<and> \<not> Q' \<sigma>))"
      and Q': "obligation Q \<Longrightarrow> obligation Q'"
        "open_set Q \<Longrightarrow> closed_set Q \<Longrightarrow> open_set Q' \<and> closed_set Q'" for R Q'
  proof -
    have o: "obligation P \<Longrightarrow> obligation Q \<Longrightarrow> obligation R"
      unfolding R using Q'(1) by (intro classes_disj(2) classes_conj(2)) (simp_all add: classes_not)
    have "closed_set P \<Longrightarrow> open_set P \<Longrightarrow> open_set Q \<Longrightarrow> closed_set Q \<Longrightarrow> open_set R \<and> closed_set R"
      unfolding R using Q'(2) classes_disj(1) opens.disj
      by (intro conjI opens.disj opens.conj classes_disj(1) classes_conj(1)) (simp_all add: classes_not)
    with assms o show ?thesis
      unfolding in_hierarchy_def xor_props_def Let_def by (auto simp: props_and_fields obligation_def)
  qed
  show "in_hierarchy (binary_props BEquiv f g l r) (\<lambda>\<sigma>. P \<sigma> = Q \<sigma>)"
    unfolding binary_props_def by (simp, rule * [of _ Q]) auto
  show "in_hierarchy (binary_props BXor f g l r) (\<lambda>\<sigma>. P \<sigma> \<noteq> Q \<sigma>)"
    unfolding binary_props_def
    by (simp, rule * [of _ "\<lambda>\<sigma>. \<not> Q \<sigma>"]) (auto simp: classes_not)
qed

lemma hierarchy_implies:
  assumes "in_hierarchy l P" "in_hierarchy r Q"
  shows "in_hierarchy (binary_props BImplies f g l r) (\<lambda>\<sigma>. P \<sigma> \<longrightarrow> Q \<sigma>)"
proof -
  have "open_set P \<Longrightarrow> closed_set Q \<Longrightarrow> closed_set (\<lambda>\<sigma>. P \<sigma> \<longrightarrow> Q \<sigma>)"
    "closed_set P \<Longrightarrow> open_set Q \<Longrightarrow> open_set (\<lambda>\<sigma>. P \<sigma> \<longrightarrow> Q \<sigma>)"
    "obligation P \<Longrightarrow> obligation Q \<Longrightarrow> obligation (\<lambda>\<sigma>. P \<sigma> \<longrightarrow> Q \<sigma>)"
    "persistence P \<Longrightarrow> recurrence Q \<Longrightarrow> recurrence (\<lambda>\<sigma>. P \<sigma> \<longrightarrow> Q \<sigma>)"
    "recurrence P \<Longrightarrow> persistence Q \<Longrightarrow> persistence (\<lambda>\<sigma>. P \<sigma> \<longrightarrow> Q \<sigma>)"
    unfolding imp_conv_disj by (intro disj_intros; simp add: classes_not)+
  with assms show ?thesis
    unfolding in_hierarchy_def binary_props_def implies_props_def
    by (simp add: props_and_fields)
qed

lemma hierarchy_seq:
  assumes "in_hierarchy r P" "p_finite l \<Longrightarrow> \<exists>N. bounded_lang A N"
  shows "in_hierarchy (econcat_props m l r) (seq A P)"
proof -
  have "open_set P \<Longrightarrow> obligation (seq A P)"
    using opens.temporal(4) [of P A] open_cases [of "seq A P"] by (simp add: obligation_def)
  moreover have "p_finite l \<Longrightarrow> obligation P \<Longrightarrow> obligation (seq A P)"
    using assms(2) recurrence_class(5) [of P A] pers.temporal(4) [of P A]
    by (auto simp: obligation_def)
  ultimately show ?thesis
    using assms(1) assms(2) opens.temporal(4) [of P A] pers.temporal(4) [of P A]
      recurrence_class(5) [of P A] closed_class(5) [of P A]
    unfolding in_hierarchy_def econcat_props_def by (auto simp: obligation_def split: if_splits)
qed

lemma hierarchy_triggers:
  assumes "in_hierarchy r P" "p_finite l \<Longrightarrow> \<exists>N. bounded_lang A N"
  shows "in_hierarchy (uconcat_props l r) (triggers A P)"
proof -
  have "closed_set P \<Longrightarrow> obligation (triggers A P)"
    using closed_class(4) [of P A] closed_cases [of "triggers A P"] by (simp add: obligation_def)
  moreover have "p_finite l \<Longrightarrow> obligation P \<Longrightarrow> obligation (triggers A P)"
    using assms(2) recurrence_class(4) [of P A] pers.bounded_triggers [of P A]
    by (auto simp: obligation_def)
  ultimately show ?thesis
    using assms(1) assms(2) opens.bounded_triggers [of P A] pers.bounded_triggers [of P A]
      recurrence_class(4) [of P A] closed_class(4) [of P A]
    unfolding in_hierarchy_def uconcat_props_def by (auto simp: obligation_def split: if_splits)
qed

lemma hierarchy_concat:
  assumes "in_hierarchy r P" "p_finite l \<Longrightarrow> \<exists>N. bounded_lang A N"
  shows "in_hierarchy (binary_props BEConcat f g l r) (seq A P)"
    "in_hierarchy (binary_props BEConcatMarked f g l r) (seq A P)"
    "in_hierarchy (binary_props BUConcat f g l r) (triggers A P)"
  using assms by (simp_all add: binary_props_def hierarchy_seq hierarchy_triggers)

lemma closed_closure: "closed_set (closure A)"
  unfolding closed_set_def
proof (rule open_setI)
  fix \<sigma> assume neg: "\<not> closure A \<sigma>"
  then obtain k where k: "\<And>v. \<not> A (prefix (Suc k) \<sigma> @ v)" and short: "\<And>j. \<not> A (prefix (Suc j) \<sigma>)"
    unfolding closure_def by blast
  have "\<not> closure A \<tau>" if t: "agree (Suc k) \<sigma> \<tau>" for \<tau>
  proof -
    have same: "prefix j \<tau> = prefix j \<sigma>" if "j \<le> Suc k" for j
      using agree_prefix [OF agree_mono [OF t that]] .
    have "\<not> A (prefix (Suc j) \<tau>)" for j
    proof (cases "j \<le> k")
      case True
      then show ?thesis using short same [of "Suc j"] by simp
    next
      case False
      then have "take (Suc k) (prefix (Suc j) \<tau>) = prefix (Suc k) \<sigma>" using same [of "Suc k"] by simp
      then show ?thesis using k by (metis append_take_drop_id)
    qed
    moreover have "\<not> A (prefix (Suc k) \<tau> @ v)" for v using k same [of "Suc k"] by simp
    ultimately show ?thesis unfolding closure_def by blast
  qed
  then show "\<exists>n. \<forall>\<tau>. agree n \<sigma> \<tau> \<longrightarrow> \<not> closure A \<tau>" by blast
qed

lemma open_closure:
  assumes "bounded_lang A N"
  shows "open_set (closure A)"
proof -
  have "(\<exists>v. A (prefix (Suc N) \<sigma> @ v)) = False" for \<sigma>
    using assms unfolding bounded_lang_def by (metis Suc_n_not_le_n add_leD1 length_append prefix_simps(2))
  then have "closure A = (\<lambda>\<sigma>. \<exists>k. A (prefix (Suc k) \<sigma>))"
    unfolding closure_def by blast
  then show ?thesis using opens.Ex [OF opens.finite_view] by simp
qed

lemma hierarchy_closure:
  assumes "p_finite p \<Longrightarrow> \<exists>N. bounded_lang A N"
  shows "in_hierarchy (unary_props UClosure f p) (closure A)"
    "in_hierarchy (unary_props UNegClosure f p) (\<lambda>\<sigma>. \<not> closure A \<sigma>)"
    "in_hierarchy (unary_props UNegClosureMarked f p) (\<lambda>\<sigma>. \<not> closure A \<sigma>)"
  using assms open_closure closed_closure [of A] closed_cases [OF closed_closure, of A]
  unfolding in_hierarchy_def unary_props_def by (auto simp: classes_not obligation_def)

lemma in_hierarchy_const: "in_hierarchy p (\<lambda>\<sigma>. c)"
  unfolding in_hierarchy_def
  using opens.const pers.const by (simp add: classes_dual)

lemma hierarchy_multi:
  assumes "on = MAnd \<or> on = MOr" "fs \<noteq> []" "\<And>f. f \<in> set fs \<Longrightarrow> in_hierarchy (setup_props f) (sat f)"
  shows "in_hierarchy (setup_props (Multi on fs)) (sat (Multi on fs))"
proof -
  have fields: "h (setup_props (Multi on fs)) = (\<forall>f \<in> set fs. h (setup_props f))"
    if "h = p_syntactic_safety \<or> h = p_syntactic_guarantee \<or> h = p_syntactic_obligation \<or>
      h = p_syntactic_recurrence \<or> h = p_syntactic_persistence" for h
    using that assms(1) multi_field [of h fs, OF _ assms(2)] unfolding setup_props_Multi
    by (elim disjE) (auto simp: multi_props_def Let_def props_and_fields list.pred_set)
  have op: "\<forall>f \<in> set fs. open_set (sat f) \<Longrightarrow> open_set (sat (Multi on fs))"
    "\<forall>f \<in> set fs. persistence (sat f) \<Longrightarrow> persistence (sat (Multi on fs))"
    "\<forall>f \<in> set fs. closed_set (sat f) \<Longrightarrow> closed_set (sat (Multi on fs))"
    "\<forall>f \<in> set fs. recurrence (sat f) \<Longrightarrow> recurrence (sat (Multi on fs))"
    using assms(1) opens.list_connectives [of fs sat] pers.list_connectives [of fs sat]
      opens.list_connectives [of fs "\<lambda>f \<sigma>. \<not> sat f \<sigma>"] pers.list_connectives [of fs "\<lambda>f \<sigma>. \<not> sat f \<sigma>"]
    by (auto simp: sat_Multi_fun closed_recurrence_iff)
  then show ?thesis
    using assms(3) fields [of p_syntactic_safety] fields [of p_syntactic_guarantee]
      fields [of p_syntactic_obligation] fields [of p_syntactic_recurrence]
      fields [of p_syntactic_persistence]
    unfolding in_hierarchy_def obligation_def by simp
qed

lemma sat_hierarchy_fun:
  "sat (Unary UClosure f) = closure (sere f)" "sat (Unary UNegClosure f) = (\<lambda>\<sigma>. \<not> closure (sere f) \<sigma>)"
  "sat (Unary UNegClosureMarked f) = (\<lambda>\<sigma>. \<not> closure (sere f) \<sigma>)"
  "sat (Binary BXor f g) = (\<lambda>\<sigma>. sat f \<sigma> \<noteq> sat g \<sigma>)" "sat (Binary BEquiv f g) = (\<lambda>\<sigma>. sat f \<sigma> = sat g \<sigma>)"
  "sat (Binary BImplies f g) = (\<lambda>\<sigma>. sat f \<sigma> \<longrightarrow> sat g \<sigma>)"
  "sat (Binary BEConcat f g) = seq (sere f) (sat g)" "sat (Binary BEConcatMarked f g) = seq (sere f) (sat g)"
  "sat (Binary BUConcat f g) = triggers (sere f) (sat g)"
  "sat (Unary UF f) = eventually (sat f)" "sat (Unary UG f) = globally (sat f)"
  by (rule ext, simp)+

lemma hierarchy_all: "psl_ok f \<Longrightarrow> in_hierarchy (setup_props f) (sat f)"
proof (induction f)
  case (ap a)
  have "sat (ap a) = (\<lambda>\<sigma>. (\<lambda>w. (w ! 0) a) (prefix 1 \<sigma>))" by (rule ext) simp
  moreover have "open_set (\<lambda>\<sigma>. (\<lambda>w. (w ! 0) a) (prefix 1 \<sigma>))" "closed_set (\<lambda>\<sigma>. (\<lambda>w. (w ! 0) a) (prefix 1 \<sigma>))"
    using opens.finite_view [of "\<lambda>w. (w ! 0) a" 1] opens.finite_view [of "\<lambda>w. \<not> (w ! 0) a" 1]
    unfolding closed_set_def by simp_all
  ultimately have "open_set (sat (ap a))" "closed_set (sat (ap a))" by simp_all
  then show ?case using open_cases unfolding in_hierarchy_def obligation_def by blast
next
  case (Unary o1 f)
  then show ?case
    by (cases o1) (simp_all add: sat_Unary_fun sat_hierarchy_fun hierarchy_not hierarchy_X [simplified] hierarchy_F
        hierarchy_G hierarchy_closure finite_sere)
next
  case (Binary o2 f g)
  then show ?case
    by (cases o2) (simp_all add: sat_Binary_fun sat_hierarchy_fun hierarchy_U hierarchy_W hierarchy_M
        hierarchy_R hierarchy_xor [simplified] hierarchy_implies hierarchy_concat finite_sere)
next
  case (Multi on fs)
  then show ?case by (intro hierarchy_multi) (auto simp: list.pred_set)
next
  case ff
  have "sat ff = (\<lambda>\<sigma>. False)" by (rule ext) simp
  then show ?case by (simp add: in_hierarchy_const)
next
  case tt
  have "sat tt = (\<lambda>\<sigma>. True)" by (rule ext) simp
  then show ?case by (simp add: in_hierarchy_const)
qed simp_all

text \<open>
  Property C23: the classes that the properties of a node announce hold for the words it describes:
  a syntactic safety formula describes a closed set of infinite words (every word that violates it
  has a finite prefix all of whose continuations violate it), a syntactic guarantee an open one, a
  syntactic recurrence a countable intersection of open sets, a syntactic persistence the
  complement of one, and a syntactic obligation is both a recurrence and a persistence property.
\<close>

theorem temporal_hierarchy:
  assumes "psl_ok f"
  shows "(p_syntactic_safety (setup_props f) \<longrightarrow>
      (\<forall>\<sigma>. \<not> sat f \<sigma> \<longrightarrow> (\<exists>n. \<forall>\<tau>. prefix n \<tau> = prefix n \<sigma> \<longrightarrow> \<not> sat f \<tau>))) \<and>
    (p_syntactic_guarantee (setup_props f) \<longrightarrow>
      (\<forall>\<sigma>. sat f \<sigma> \<longrightarrow> (\<exists>n. \<forall>\<tau>. prefix n \<tau> = prefix n \<sigma> \<longrightarrow> sat f \<tau>))) \<and>
    (p_syntactic_recurrence (setup_props f) \<longrightarrow> recurrence (sat f)) \<and>
    (p_syntactic_persistence (setup_props f) \<longrightarrow> persistence (sat f)) \<and>
    (p_syntactic_obligation (setup_props f) \<longrightarrow> recurrence (sat f) \<and> persistence (sat f))"
proof -
  have "agree n \<sigma> \<tau>" if "prefix n \<tau> = prefix n \<sigma>" for n \<sigma> \<tau>
    using that nth_prefix [of _ n \<tau>] nth_prefix [of _ n \<sigma>] unfolding agree_def by metis
  then have "open_set P \<Longrightarrow> P \<sigma> \<Longrightarrow> \<exists>n. \<forall>\<tau>. prefix n \<tau> = prefix n \<sigma> \<longrightarrow> P \<tau>" for P \<sigma>
    unfolding open_set_def by meson
  then show ?thesis
    using hierarchy_all [OF assms] unfolding in_hierarchy_def obligation_def closed_set_def by blast
qed

theorem temporal_hierarchy_witness:
  "recurrence (sat (Unary UG (Unary UF (ap ''a'')))) \<and>
   persistence (sat (Unary UF (Unary UG (ap ''a''))))"
proof -
  have "psl_ok (Unary UG (Unary UF (ap ''a'')))" "psl_ok (Unary UF (Unary UG (ap ''a'')))"
    "p_syntactic_recurrence (setup_props (Unary UG (Unary UF (ap ''a''))))"
    "p_syntactic_persistence (setup_props (Unary UF (Unary UG (ap ''a''))))"
    by (simp_all add: unary_props_def ap_props_def)
  then show ?thesis
    using temporal_hierarchy [of "Unary UG (Unary UF (ap ''a''))"]
      temporal_hierarchy [of "Unary UF (Unary UG (ap ''a''))"] by blast
qed

end
