(* ===== verification/Stutter.thy ===== *)
theory Stutter
  imports FormulaProps
begin

text \<open>
  Stuttering: the flag \<open>syntactic_si\<close> of \<open>fnode::setup_props\<close> (tl/formula.cc) is sound for LTL, and
  too generous for concatenations of starred expressions.
\<close>

section \<open>Stuttering maps\<close>

text \<open>A stuttering map tells which letter of the original word each position repeats.\<close>

definition stutter :: "(nat \<Rightarrow> nat) \<Rightarrow> bool" where
  "stutter \<phi> = (\<phi> 0 = 0 \<and> (\<forall>i. \<phi> (Suc i) = \<phi> i \<or> \<phi> (Suc i) = Suc (\<phi> i)) \<and> (\<forall>n. \<exists>i. n \<le> \<phi> i))"

definition stuttered :: "(nat \<Rightarrow> nat) \<Rightarrow> word \<Rightarrow> word" where
  "stuttered \<phi> \<sigma> = (\<lambda>i. \<sigma> (\<phi> i))"

definition stutter_from :: "nat \<Rightarrow> (nat \<Rightarrow> nat) \<Rightarrow> nat \<Rightarrow> nat" where
  "stutter_from i \<phi> = (\<lambda>n. \<phi> (i + n) - \<phi> i)"

lemma stutter_mono:
  assumes "stutter \<phi>" "i \<le> j"
  shows "\<phi> i \<le> \<phi> j"
  using assms(2)
proof (induction rule: dec_induct)
  case (step n)
  then show ?case using assms(1) unfolding stutter_def by (metis le_SucI)
qed simp

lemma stutter_surj:
  assumes "stutter \<phi>"
  shows "\<exists>i. \<phi> i = n \<and> (\<forall>k < i. \<phi> k < n)"
proof -
  define i where "i = (LEAST i. n \<le> \<phi> i)"
  have ge: "n \<le> \<phi> i" and lt: "\<And>k. k < i \<Longrightarrow> \<phi> k < n"
    using assms LeastI_ex [of "\<lambda>i. n \<le> \<phi> i"] not_less_Least [of _ "\<lambda>i. n \<le> \<phi> i"]
    unfolding stutter_def i_def by (blast, force)
  moreover have "\<phi> i = n"
  proof (cases i)
    case 0
    then show ?thesis using ge assms unfolding stutter_def by simp
  next
    case (Suc k)
    have "\<phi> (Suc k) \<le> Suc (\<phi> k)" using assms unfolding stutter_def by (metis le_Suc_eq order_refl)
    then show ?thesis using ge lt [of k] Suc by simp
  qed
  ultimately show ?thesis by blast
qed

lemma stutter_from:
  assumes "stutter \<phi>"
  shows "stutter (stutter_from i \<phi>)"
    "suffix i (stuttered \<phi> \<sigma>) = stuttered (stutter_from i \<phi>) (suffix (\<phi> i) \<sigma>)"
proof -
  have mono: "\<phi> i \<le> \<phi> (i + n)" for n using stutter_mono [OF assms] by simp
  have "\<exists>k. n \<le> \<phi> (i + k) - \<phi> i" for n
  proof -
    obtain j where j: "\<phi> i + n \<le> \<phi> j" using assms unfolding stutter_def by blast
    have "\<phi> j \<le> \<phi> (i + j)" using stutter_mono [OF assms] by simp
    with j have "n \<le> \<phi> (i + j) - \<phi> i" by linarith
    then show ?thesis by blast
  qed
  moreover have "\<phi> (i + Suc n) - \<phi> i = \<phi> (i + n) - \<phi> i \<or> \<phi> (i + Suc n) - \<phi> i = Suc (\<phi> (i + n) - \<phi> i)" for n
  proof -
    have "\<phi> (Suc (i + n)) = \<phi> (i + n) \<or> \<phi> (Suc (i + n)) = Suc (\<phi> (i + n))"
      using assms unfolding stutter_def by blast
    with mono [of n] show ?thesis by (auto simp: Suc_diff_le)
  qed
  ultimately show "stutter (stutter_from i \<phi>)"
    unfolding stutter_def stutter_from_def by simp
  show "suffix i (stuttered \<phi> \<sigma>) = stuttered (stutter_from i \<phi>) (suffix (\<phi> i) \<sigma>)"
    by (rule ext) (simp add: stuttered_def stutter_from_def mono)
qed

section \<open>The operators\<close>

text \<open>\<open>P'\<close> at each position of the stuttered word is \<open>P\<close> at the position it repeats.\<close>

lemma stutter_Ex: "stutter \<phi> \<Longrightarrow> (\<exists>i. P (\<phi> i)) = (\<exists>n. P n)"
  using stutter_surj by metis

lemma stutter_All: "stutter \<phi> \<Longrightarrow> (\<forall>i. P (\<phi> i)) = (\<forall>n. P n)"
  using stutter_surj by metis

lemma stutter_until:
  assumes "stutter \<phi>"
  shows "(\<exists>j. Q (\<phi> j) \<and> (\<forall>i < j. P (\<phi> i))) = (\<exists>n. Q n \<and> (\<forall>i < n. P i))"
proof
  assume "\<exists>j. Q (\<phi> j) \<and> (\<forall>i < j. P (\<phi> i))"
  then obtain j where j: "Q (\<phi> j)" "\<forall>i < j. P (\<phi> i)" by blast
  have "P n" if n: "n < \<phi> j" for n
  proof -
    obtain i where i: "\<phi> i = n" using stutter_surj [OF assms] by blast
    have "\<not> j \<le> i" using stutter_mono [OF assms, of j i] i n by linarith
    with j(2) i show ?thesis by (metis not_le)
  qed
  with j(1) show "\<exists>n. Q n \<and> (\<forall>i < n. P i)" by blast
next
  assume "\<exists>n. Q n \<and> (\<forall>i < n. P i)"
  then obtain n where n: "Q n" "\<forall>i < n. P i" by blast
  obtain j where "\<phi> j = n" "\<forall>k < j. \<phi> k < n" using stutter_surj [OF assms] by blast
  with n show "\<exists>j. Q (\<phi> j) \<and> (\<forall>i < j. P (\<phi> i))" by blast
qed

lemma stutter_strong_release:
  assumes "stutter \<phi>"
  shows "(\<exists>j. P (\<phi> j) \<and> (\<forall>i \<le> j. Q (\<phi> i))) = (\<exists>n. P n \<and> (\<forall>i \<le> n. Q i))"
proof -
  have *: "(\<exists>j. P (g j) \<and> (\<forall>i \<le> j. Q (g i))) = (\<exists>j. (P (g j) \<and> Q (g j)) \<and> (\<forall>i < j. Q (g i)))"
    for g :: "nat \<Rightarrow> nat" using le_less by auto
  show ?thesis
    using stutter_until [OF assms, of "\<lambda>n. P n \<and> Q n" Q] * [of \<phi>] * [of "\<lambda>n. n"] by simp
qed

definition stutter_invariant :: "(word \<Rightarrow> bool) \<Rightarrow> bool" where
  "stutter_invariant P = (\<forall>\<phi> \<sigma>. stutter \<phi> \<longrightarrow> P (stuttered \<phi> \<sigma>) = P \<sigma>)"

lemma invariant_suffix:
  "stutter_invariant P \<Longrightarrow> stutter \<phi> \<Longrightarrow> P (suffix i (stuttered \<phi> \<sigma>)) = P (suffix (\<phi> i) \<sigma>)"
  unfolding stutter_invariant_def using stutter_from by simp

lemma invariant_operators:
  "stutter_invariant P \<Longrightarrow> stutter_invariant (eventually P)"
  "stutter_invariant P \<Longrightarrow> stutter_invariant (globally P)"
  "stutter_invariant P \<Longrightarrow> stutter_invariant Q \<Longrightarrow> stutter_invariant (until P Q)"
  "stutter_invariant P \<Longrightarrow> stutter_invariant Q \<Longrightarrow> stutter_invariant (strong_release P Q)"
proof -
  show "stutter_invariant P \<Longrightarrow> stutter_invariant (eventually P)"
    unfolding stutter_invariant_def [of "eventually P"] eventually_def
    by (simp add: invariant_suffix stutter_Ex [of _ "\<lambda>n. P (suffix n _)"])
  show "stutter_invariant P \<Longrightarrow> stutter_invariant (globally P)"
    unfolding stutter_invariant_def [of "globally P"] globally_def
    by (simp add: invariant_suffix stutter_All [of _ "\<lambda>n. P (suffix n _)"])
  show "stutter_invariant P \<Longrightarrow> stutter_invariant Q \<Longrightarrow> stutter_invariant (until P Q)"
    unfolding stutter_invariant_def [of "until P Q"] until_def
    by (simp add: invariant_suffix stutter_until [of _ "\<lambda>n. Q (suffix n _)" "\<lambda>n. P (suffix n _)"])
  show "stutter_invariant P \<Longrightarrow> stutter_invariant Q \<Longrightarrow> stutter_invariant (strong_release P Q)"
    unfolding stutter_invariant_def [of "strong_release P Q"] strong_release_def
    by (simp add: invariant_suffix stutter_strong_release [of _ "\<lambda>n. P (suffix n _)" "\<lambda>n. Q (suffix n _)"])
qed

lemma invariant_connectives:
  "stutter_invariant P \<Longrightarrow> stutter_invariant (\<lambda>\<sigma>. \<not> P \<sigma>)"
  "stutter_invariant P \<Longrightarrow> stutter_invariant Q \<Longrightarrow> stutter_invariant (\<lambda>\<sigma>. P \<sigma> \<or> Q \<sigma>)"
  "stutter_invariant P \<Longrightarrow> stutter_invariant Q \<Longrightarrow> stutter_invariant (\<lambda>\<sigma>. P \<sigma> \<longrightarrow> Q \<sigma>)"
  "stutter_invariant P \<Longrightarrow> stutter_invariant Q \<Longrightarrow> stutter_invariant (\<lambda>\<sigma>. P \<sigma> = Q \<sigma>)"
  "stutter_invariant P \<Longrightarrow> stutter_invariant Q \<Longrightarrow> stutter_invariant (\<lambda>\<sigma>. P \<sigma> \<noteq> Q \<sigma>)"
  "(\<And>f. f \<in> A \<Longrightarrow> stutter_invariant (R f)) \<Longrightarrow> stutter_invariant (\<lambda>\<sigma>. \<forall>f \<in> A. R f \<sigma>)"
  "(\<And>f. f \<in> A \<Longrightarrow> stutter_invariant (R f)) \<Longrightarrow> stutter_invariant (\<lambda>\<sigma>. \<exists>f \<in> A. R f \<sigma>)"
  unfolding stutter_invariant_def by auto

section \<open>LTL formulas\<close>

lemma sat_iff_fun:
  "sat (Binary BXor f g) = (\<lambda>\<sigma>. sat f \<sigma> \<noteq> sat g \<sigma>)" "sat (Binary BEquiv f g) = (\<lambda>\<sigma>. sat f \<sigma> = sat g \<sigma>)"
  "sat (Binary BImplies f g) = (\<lambda>\<sigma>. sat f \<sigma> \<longrightarrow> sat g \<sigma>)"
  by (rule ext, simp)+

lemma si_fields:
  "on = MAnd \<or> on = MOr \<Longrightarrow> fs \<noteq> [] \<Longrightarrow>
    p_syntactic_si (setup_props (Multi on fs)) = list_all (\<lambda>f. p_syntactic_si (setup_props f)) fs \<and>
    p_ltl_formula (setup_props (Multi on fs)) = list_all (\<lambda>f. p_ltl_formula (setup_props f)) fs"
  unfolding setup_props_Multi
  using multi_field [of p_syntactic_si fs] multi_field [of p_ltl_formula fs]
  by (elim disjE) (auto simp: multi_props_def Let_def)

lemma ltl_si:
  "psl_ok f \<Longrightarrow> p_ltl_formula (setup_props f) \<Longrightarrow> p_syntactic_si (setup_props f) \<Longrightarrow> stutter_invariant (sat f)"
proof (induction f)
  case (ap a)
  show ?case unfolding stutter_invariant_def stuttered_def stutter_def by simp
next
  case (Unary o1 f)
  then show ?case
    by (cases o1) (simp_all add: unary_props_def sat_Unary_fun sat_F_G invariant_operators invariant_connectives)
next
  case (Binary o2 f g)
  then show ?case
    by (cases o2) (auto simp: binary_props_def until_props_def xor_props_def implies_props_def
        econcat_props_def uconcat_props_def Let_def sat_Binary_fun sat_iff_fun
        intro!: invariant_operators invariant_connectives split: if_splits)
next
  case (Multi on fs)
  then have "on = MAnd \<or> on = MOr" "\<And>f. f \<in> set fs \<Longrightarrow> stutter_invariant (sat f)"
    using si_fields [of on fs] by (auto simp: list.pred_set)
  then show ?case
    using invariant_connectives(6,7) [of "set fs" sat] by (elim disjE) (simp_all add: sat_Multi_fun)
qed (auto simp: stutter_invariant_def)

lemma stutter_half: "stutter (\<lambda>i. i div 2)"
  unfolding stutter_def
proof (intro conjI allI)
  show "Suc i div 2 = i div 2 \<or> Suc i div 2 = Suc (i div 2)" for i by presburger
  show "\<exists>i. n \<le> i div 2" for n :: nat by (intro exI [of _ "2 * n"]) simp
qed simp

text \<open>
  Property C25: an LTL formula flagged \<open>syntactic_si\<close> cannot tell a word from the words obtained
  by repeating some of its letters.
\<close>

theorem syntactic_stutter_invariance:
  assumes "psl_ok f" "p_ltl_formula (setup_props f)" "p_syntactic_si (setup_props f)" "stutter \<phi>"
  shows "sat f (stuttered \<phi> \<sigma>) = sat f \<sigma>"
  using ltl_si [OF assms(1-3)] assms(4) unfolding stutter_invariant_def by blast

theorem syntactic_stutter_invariance_witness:
  "sat (Binary BU (ap ''a'') (ap ''b'')) (stuttered (\<lambda>i. i div 2) (\<lambda>i s. s = ''a'' \<or> i = 3)) =
   sat (Binary BU (ap ''a'') (ap ''b'')) (\<lambda>i s. s = ''a'' \<or> i = 3)"
  by (intro syntactic_stutter_invariance stutter_half) (simp_all add: binary_props_def until_props_def ap_props_def)

section \<open>Concatenations of starred expressions\<close>

text \<open>
  A concatenation of Kleene stars is flagged when all of them but one are stars of Boolean formulas,
  but nothing is required of the remaining star.
\<close>

definition starred_pair :: fnode where
  "starred_pair = Unary UClosure (Multi MConcat
     [Starred SStar (Multi MConcat [ap ''a'', ap ''b'']) 0 unbounded, Starred SStar (ap ''c'') 0 unbounded])"

lemma sere_ap: "sere (ap x) w = (\<exists>l. w = [l] \<and> l x)"
  by (simp split: list.split)

lemma sere_concat: "sere (Multi MConcat [f, g]) w = conc (sere f) (sere g) w"
  by (simp add: conc_def eps_def)

lemma sere_Star: "sere (Starred SStar f 0 unbounded) w = (\<exists>n. cpow (sere f) n w)"
  by (simp add: in_range_def)

lemma sere_pair: "sere (Multi MConcat [ap x, ap y]) w = (\<exists>l m. w = [l, m] \<and> l x \<and> m y)"
  unfolding sere_concat conc_def sere_ap
  by (metis append_Cons append_Nil)

lemma cpow_first:
  assumes "cpow L n w" "w \<noteq> []"
  shows "\<exists>u v. w = u @ v \<and> L u \<and> u \<noteq> []"
  using assms
proof (induction n arbitrary: w)
  case (Suc n)
  then obtain u v where uv: "w = u @ v" "L u" "cpow L n v" by (auto simp: conc_def)
  show ?case
  proof (cases "u = []")
    case True
    with Suc uv show ?thesis by simp
  qed (use uv in blast)
qed (simp add: eps_def)

lemma starred_pair_letters:
  assumes "sere (Multi MConcat [Starred SStar (Multi MConcat [ap ''a'', ap ''b'']) 0 unbounded,
      Starred SStar (ap ''c'') 0 unbounded]) (l # w)"
  shows "l ''c'' \<or> (\<exists>m v. w = m # v \<and> m ''b'')"
proof -
  obtain u v n k where uv: "l # w = u @ v" "cpow (sere (Multi MConcat [ap ''a'', ap ''b''])) n u"
    "cpow (sere (ap ''c'')) k v"
    using assms unfolding sere_concat [of "Starred SStar _ _ _"] conc_def sere_Star by blast
  show ?thesis
  proof (cases u)
    case Nil
    with uv cpow_first [of "sere (ap ''c'')" k v] show ?thesis
      by (auto simp: sere_ap simp del: sere.simps)
  next
    case (Cons x u')
    with uv cpow_first [of "sere (Multi MConcat [ap ''a'', ap ''b''])" n u] show ?thesis
      by (auto simp: sere_pair simp del: sere.simps)
  qed
qed

text \<open>
  Property C39: the closure of \<open>(a;b)[*];c[*]\<close> is flagged \<open>syntactic_si\<close>, but it accepts a word
  where a and b alternate and rejects the word where each letter is repeated.
\<close>

theorem concat_flag_unsound:
  "p_syntactic_si (setup_props starred_pair) \<and> psl_ok starred_pair \<and>
   sat starred_pair (\<lambda>i s. if even i then s = ''a'' else s = ''b'') \<and>
   \<not> sat starred_pair (stuttered (\<lambda>i. i div 2) (\<lambda>i s. if even i then s = ''a'' else s = ''b'')) \<and>
   stutter (\<lambda>i. i div 2)"
proof (intro conjI)
  let ?\<sigma> = "\<lambda>i s. if even i then s = ''a'' else s = ''b''"
  let ?f = "Multi MConcat [Starred SStar (Multi MConcat [ap ''a'', ap ''b'']) 0 unbounded,
      Starred SStar (ap ''c'') 0 unbounded]"
  show "p_syntactic_si (setup_props starred_pair)" "psl_ok starred_pair"
    unfolding starred_pair_def by code_simp+
  have "prefix 2 ?\<sigma> = [?\<sigma> 0, ?\<sigma> 1]" "?\<sigma> 0 ''a''" "?\<sigma> 1 ''b''" by (simp_all add: prefix_def numeral_2_eq_2)
  then have "sere (Multi MConcat [ap ''a'', ap ''b'']) (prefix 2 ?\<sigma>)" unfolding sere_pair by blast
  then have "cpow (sere (Multi MConcat [ap ''a'', ap ''b''])) 1 (prefix 2 ?\<sigma>)"
    by (simp add: conc_def eps_def del: sere.simps)
  moreover have "cpow (sere (ap ''c'')) 0 []" by (simp add: eps_def)
  ultimately have "sere ?f (prefix 2 ?\<sigma>)"
    unfolding sere_concat [of "Starred SStar _ _ _"] conc_def sere_Star
    by (intro exI [of _ "prefix 2 ?\<sigma>"] exI [of _ "[]"] conjI append_Nil2 [symmetric]; blast)
  then show "sat starred_pair ?\<sigma>"
    unfolding starred_pair_def sat.simps closure_def numeral_2_eq_2 by blast
  define w where "w = stuttered (\<lambda>i. i div 2) ?\<sigma>"
  have w: "\<not> w 0 ''c''" "\<not> w 1 ''b''" by (simp_all add: w_def stuttered_def)
  have "\<not> sere ?f (prefix (Suc k) w)" for k
  proof
    assume "sere ?f (prefix (Suc k) w)"
    then obtain m v where "prefix k (suffix 1 w) = m # v" "m ''b''"
      using starred_pair_letters [of "w 0" "prefix k (suffix 1 w)"] w(1) unfolding prefix_Suc [of k] by blast
    with w(2) show False by (cases k) (simp_all add: prefix_Suc)
  qed
  moreover have "\<not> sere ?f (prefix (Suc 1) w @ v)" for v
    using starred_pair_letters [of "w 0" "w 1 # v"] w by (auto simp: prefix_Suc simp del: sere.simps)
  ultimately show "\<not> sat starred_pair (stuttered (\<lambda>i. i div 2) ?\<sigma>)"
    unfolding w_def [symmetric] starred_pair_def sat.simps closure_def by blast
  show "stutter (\<lambda>i. i div 2)" by (rule stutter_half)
qed

end
