(* ===== verification/DiGraph.thy ===== *)
theory DiGraph
  imports Prelude
begin

text \<open>
  The storage of graphs (graph/graph.hh): states and edges live in two vectors, the outgoing edges
  of a state are chained by their indices, and an erased edge points to itself.  Numbers of states
  and edges are natural numbers; a universal destination is the complement of an index on 32 bits.
\<close>

section \<open>States and edges\<close>

record 's state_storage =
  succ :: nat
  succ_tail :: nat
  s_data :: 's

record 'e edge_storage =
  e_dst :: nat
  next_succ :: nat
  e_src :: nat
  e_data :: 'e

record ('s, 'e) digraph =
  states :: "'s state_storage list"
  edges :: "'e edge_storage list"
  dests :: "nat list"
  killed_edge :: nat

text \<open>Edge 0 marks the absence of an edge; its data are default values.\<close>

definition digraph0 :: "'e \<Rightarrow> ('s, 'e) digraph" where
  "digraph0 d = \<lparr>states = [], edges = [\<lparr>e_dst = 0, next_succ = 0, e_src = 0, e_data = d\<rparr>],
     dests = [], killed_edge = 0\<rparr>"

definition num_states :: "('s, 'e) digraph \<Rightarrow> nat" where
  "num_states g = length (states g)"

definition num_edges :: "('s, 'e) digraph \<Rightarrow> nat" where
  "num_edges g = length (edges g) - killed_edge g - 1"

definition is_existential :: "('s, 'e) digraph \<Rightarrow> bool" where
  "is_existential g = (dests g = [])"

definition new_state :: "('s, 'e) digraph \<Rightarrow> 's \<Rightarrow> ('s, 'e) digraph \<times> nat" where
  "new_state g d =
    (g\<lparr>states := states g @ [\<lparr>succ = 0, succ_tail = 0, s_data = d\<rparr>]\<rparr>, length (states g))"

definition new_states :: "('s, 'e) digraph \<Rightarrow> nat \<Rightarrow> 's \<Rightarrow> ('s, 'e) digraph \<times> nat" where
  "new_states g n d =
    (g\<lparr>states := states g @ replicate n \<lparr>succ = 0, succ_tail = 0, s_data = d\<rparr>\<rparr>, length (states g))"

definition new_edge :: "('s, 'e) digraph \<Rightarrow> nat \<Rightarrow> nat \<Rightarrow> 'e \<Rightarrow> ('s, 'e) digraph \<times> nat" where
  "new_edge g s d x =
    (let t = length (edges g);
         es = edges g @ [\<lparr>e_dst = d, next_succ = 0, e_src = s, e_data = x\<rparr>];
         st = succ_tail (states g ! s);
         ss = (if st = 0 then (states g)[s := (states g ! s)\<lparr>succ := t\<rparr>] else states g);
         es = (if st = 0 then es else es[st := (es ! st)\<lparr>next_succ := t\<rparr>])
     in (g\<lparr>states := ss[s := (ss ! s)\<lparr>succ_tail := t\<rparr>], edges := es\<rparr>, t))"

section \<open>Universal destinations\<close>

definition univ_bit :: nat where
  "univ_bit = 2 ^ 31"

definition compl32 :: "nat \<Rightarrow> nat" where
  "compl32 d = 2 ^ 32 - 1 - d"

definition new_univ_dests :: "('s, 'e) digraph \<Rightarrow> nat list \<Rightarrow> ('s, 'e) digraph \<times> nat" where
  "new_univ_dests g ds =
    (if length ds = 1 then (g, hd ds)
     else (g\<lparr>dests := dests g @ length ds # ds\<rparr>, compl32 (length (dests g))))"

definition new_univ_edge :: "('s, 'e) digraph \<Rightarrow> nat \<Rightarrow> nat list \<Rightarrow> 'e \<Rightarrow> ('s, 'e) digraph \<times> nat" where
  "new_univ_edge g s ds x = (let (g, d) = new_univ_dests g ds in new_edge g s d x)"

definition univ_dests :: "('s, 'e) digraph \<Rightarrow> nat \<Rightarrow> nat list" where
  "univ_dests g s =
    (if univ_bit \<le> s
     then let pos = compl32 s in take (dests g ! pos) (drop (pos + 1) (dests g))
     else [s])"

text \<open>Destination groups are sorted and shared by \<open>univ_dest_mapper\<close>.\<close>

definition mapper_univ_dests ::
    "('s, 'e) digraph \<Rightarrow> (nat list \<rightharpoonup> nat) \<Rightarrow> nat list \<Rightarrow> (('s, 'e) digraph \<times> (nat list \<rightharpoonup> nat)) \<times> nat" where
  "mapper_univ_dests g uniq ds =
    (let tmp = remdups_adj (sort ds) in
     case uniq tmp of
       Some d \<Rightarrow> ((g, uniq), d)
     | None \<Rightarrow> let (g, d) = new_univ_dests g tmp in ((g, uniq(tmp \<mapsto> d)), d))"

section \<open>Iterating on edges\<close>

text \<open>The loop that follows the chain of a state; the fuel is the number of edges.\<close>

fun follow :: "nat \<Rightarrow> 'e edge_storage list \<Rightarrow> nat \<Rightarrow> nat list" where
  "follow 0 es t = []"
| "follow (Suc n) es t = (if t = 0 then [] else t # follow n es (next_succ (es ! t)))"

definition out :: "('s, 'e) digraph \<Rightarrow> nat \<Rightarrow> nat list" where
  "out g s = follow (length (edges g)) (edges g) (succ (states g ! s))"

definition is_dead :: "'e edge_storage list \<Rightarrow> nat \<Rightarrow> bool" where
  "is_dead es t = (next_succ (es ! t) = t)"

definition is_dead_edge :: "('s, 'e) digraph \<Rightarrow> nat \<Rightarrow> bool" where
  "is_dead_edge g t = is_dead (edges g) t"

definition is_valid_edge :: "('s, 'e) digraph \<Rightarrow> nat \<Rightarrow> bool" where
  "is_valid_edge g t = (t < length (edges g) \<and> \<not> is_dead (edges g) t)"

text \<open>The iterator on all edges skips the erased ones, starting after edge 0.\<close>

function skip :: "'e edge_storage list \<Rightarrow> nat \<Rightarrow> nat" where
  "skip es t = (if t + 1 < length es \<and> is_dead es (t + 1) then skip es (t + 1) else t + 1)"
  by pat_completeness auto
termination by (relation "measure (\<lambda>(es, t). length es - t)") auto

declare skip.simps [simp del]

lemma skip_gt: "t < skip es t"
proof (induction es t rule: skip.induct)
  case (1 es t)
  then show ?case by (subst skip.simps) (auto intro: less_trans)
qed

function edges_from :: "'e edge_storage list \<Rightarrow> nat \<Rightarrow> nat list" where
  "edges_from es t = (if t < length es then t # edges_from es (skip es t) else [])"
  by pat_completeness auto
termination
  by (relation "measure (\<lambda>(es, t). length es - t)") (auto intro: diff_less_mono2 skip_gt)

declare edges_from.simps [simp del]

definition all_edges :: "('s, 'e) digraph \<Rightarrow> nat list" where
  "all_edges g = edges_from (edges g) (skip (edges g) 0)"

section \<open>Erasing edges\<close>

record killer =
  k_src :: nat
  k_t :: nat
  k_prev :: nat

definition out_iteraser :: "('s, 'e) digraph \<Rightarrow> nat \<Rightarrow> killer" where
  "out_iteraser g s = \<lparr>k_src = s, k_t = succ (states g ! s), k_prev = 0\<rparr>"

definition killer_next :: "('s, 'e) digraph \<Rightarrow> killer \<Rightarrow> killer" where
  "killer_next g k = k\<lparr>k_prev := k_t k, k_t := next_succ (edges g ! k_t k)\<rparr>"

definition killer_erase :: "('s, 'e) digraph \<Rightarrow> killer \<Rightarrow> ('s, 'e) digraph \<times> killer" where
  "killer_erase g k =
    (let t = k_t k; nxt = next_succ (edges g ! t); ss = states g ! k_src k;
         es = (if k_prev k \<noteq> 0
               then (edges g)[k_prev k := (edges g ! k_prev k)\<lparr>next_succ := nxt\<rparr>] else edges g);
         ss = (if k_prev k = 0 \<and> succ ss = t then ss\<lparr>succ := nxt\<rparr> else ss);
         ss = (if succ_tail ss = t then ss\<lparr>succ_tail := k_prev k\<rparr> else ss);
         es = es[t := (es ! t)\<lparr>next_succ := t\<rparr>]
     in (g\<lparr>states := (states g)[k_src k := ss], edges := es, killed_edge := killed_edge g + 1\<rparr>,
         k\<lparr>k_t := nxt\<rparr>))"

text \<open>The usual loop over an erasing iterator.\<close>

fun erase_loop :: "nat \<Rightarrow> (nat \<Rightarrow> 'e \<Rightarrow> bool) \<Rightarrow> ('s, 'e) digraph \<Rightarrow> killer \<Rightarrow> ('s, 'e) digraph" where
  "erase_loop 0 P g k = g"
| "erase_loop (Suc n) P g k =
     (if k_t k = 0 then g
      else if P (e_dst (edges g ! k_t k)) (e_data (edges g ! k_t k)) then case killer_erase g k of (g, k) \<Rightarrow> erase_loop n P g k
      else erase_loop n P g (killer_next g k))"

definition erase_if :: "(nat \<Rightarrow> 'e \<Rightarrow> bool) \<Rightarrow> ('s, 'e) digraph \<Rightarrow> nat \<Rightarrow> ('s, 'e) digraph" where
  "erase_if P g s = erase_loop (length (edges g)) P g (out_iteraser g s)"

section \<open>Chains\<close>

text \<open>\<open>seg es t xs u\<close>: following the links from t visits xs and arrives at u.\<close>

fun seg :: "'e edge_storage list \<Rightarrow> nat \<Rightarrow> nat list \<Rightarrow> nat \<Rightarrow> bool" where
  "seg es t [] u = (t = u)"
| "seg es t (x # xs) u = (t = x \<and> seg es (next_succ (es ! x)) xs u)"

lemma seg_append: "seg es t (xs @ ys) u = (\<exists>v. seg es t xs v \<and> seg es v ys u)"
  by (induction xs arbitrary: t) auto

lemma seg_cong: "(\<And>x. x \<in> set xs \<Longrightarrow> next_succ (es' ! x) = next_succ (es ! x)) \<Longrightarrow> seg es' t xs u = seg es t xs u"
  by (induction xs arbitrary: t) auto

lemma seg_hd: "seg es t xs 0 \<Longrightarrow> t = (if xs = [] then 0 else hd xs)"
  by (cases xs) auto

lemma seg_update_last:
  assumes "seg es t xs u" "xs \<noteq> []" "distinct xs" "last xs < length es"
  shows "seg (es[last xs := (es ! last xs)\<lparr>next_succ := v\<rparr>]) t xs v"
proof -
  have "xs = butlast xs @ [last xs]" using assms(2) by simp
  then obtain w where w: "seg es t (butlast xs) w" "w = last xs" and "last xs \<notin> set (butlast xs)"
    using assms(1,3) by (metis seg_append seg.simps(2) distinct_append disjoint_insert(1) list.simps(15))
  then have "seg (es[last xs := (es ! last xs)\<lparr>next_succ := v\<rparr>]) t (butlast xs) w"
    by (subst seg_cong [of _ _ es]) (metis nth_list_update_neq, blast)
  with w assms(2,4) have "seg (es[last xs := (es ! last xs)\<lparr>next_succ := v\<rparr>]) t (butlast xs @ [last xs]) v"
    unfolding seg_append by auto
  with assms(2) show ?thesis by simp
qed

lemma follow_seg: "seg es t xs 0 \<Longrightarrow> 0 \<notin> set xs \<Longrightarrow> length xs \<le> n \<Longrightarrow> follow n es t = xs"
proof (induction xs arbitrary: n t)
  case Nil
  then show ?case by (cases n) auto
next
  case (Cons x xs)
  then show ?case by (cases n) auto
qed

section \<open>The invariant\<close>

text \<open>The live edges of a state, in the order of their numbers.\<close>

definition edges_of :: "'e edge_storage list \<Rightarrow> nat \<Rightarrow> nat list" where
  "edges_of es s = filter (\<lambda>t. \<not> is_dead es t \<and> e_src (es ! t) = s) [1..<length es]"

definition state_wf :: "'e edge_storage list \<Rightarrow> nat \<Rightarrow> 's state_storage \<Rightarrow> bool" where
  "state_wf es s st = (seg es (succ st) (edges_of es s) 0 \<and>
     succ_tail st = (if edges_of es s = [] then 0 else last (edges_of es s)))"

definition wf_graph :: "('s, 'e) digraph \<Rightarrow> bool" where
  "wf_graph g =
    (edges g \<noteq> [] \<and> next_succ (edges g ! 0) = 0 \<and>
     (\<forall>s < length (states g). state_wf (edges g) s (states g ! s)) \<and>
     (\<forall>t \<in> {1..<length (edges g)}. \<not> is_dead (edges g) t \<longrightarrow> e_src (edges g ! t) < length (states g)) \<and>
     killed_edge g = length (filter (is_dead (edges g)) [1..<length (edges g)]))"

lemma edges_of_facts:
  "distinct (edges_of es s)" "sorted (edges_of es s)" "length (edges_of es s) \<le> length es"
  "0 \<notin> set (edges_of es s)"
  "t \<in> set (edges_of es s) \<longleftrightarrow> 0 < t \<and> t < length es \<and> \<not> is_dead es t \<and> e_src (es ! t) = s"
proof -
  show "length (edges_of es s) \<le> length es"
    unfolding edges_of_def using length_filter_le [of _ "[1..<length es]"] by (metis le_trans diff_le_self length_upt)
  show "sorted (edges_of es s)" unfolding edges_of_def by (intro sorted_wrt_filter) simp
qed (auto simp: edges_of_def)

lemma edges_of_cong:
  assumes "length es' = length es"
    and "\<And>t. 0 < t \<Longrightarrow> t < length es \<Longrightarrow> is_dead es' t = is_dead es t \<and> e_src (es' ! t) = e_src (es ! t)"
  shows "edges_of es' s = edges_of es s"
  unfolding edges_of_def using assms by (intro filter_cong) auto

lemma out_edges_of: "wf_graph g \<Longrightarrow> s < length (states g) \<Longrightarrow> out g s = edges_of (edges g) s"
  unfolding out_def wf_graph_def state_wf_def using edges_of_facts by (intro follow_seg) blast+

lemma wf_digraph0: "wf_graph (digraph0 d)"
  by (simp add: wf_graph_def digraph0_def)

section \<open>New states and edges\<close>

lemma wf_new_states:
  assumes "wf_graph g"
  shows "wf_graph (fst (new_states g n d))"
proof -
  have "edges_of (edges g) s = []" if "length (states g) \<le> s" for s
    using assms that unfolding wf_graph_def edges_of_def filter_empty_conv by fastforce
  then have "state_wf (edges g) s \<lparr>succ = 0, succ_tail = 0, s_data = d\<rparr>" if "length (states g) \<le> s" for s
    using that by (simp add: state_wf_def)
  with assms show ?thesis
    unfolding wf_graph_def new_states_def by (auto simp: nth_append)
qed

lemma wf_new_state: "wf_graph g \<Longrightarrow> wf_graph (fst (new_state g d))"
  using wf_new_states [of g 1 d] by (simp add: new_states_def new_state_def)

lemma state_wf_cong:
  assumes "state_wf es s st" "edges_of es' s = edges_of es s"
    "\<And>t. t \<in> set (edges_of es s) \<Longrightarrow> next_succ (es' ! t) = next_succ (es ! t)"
  shows "state_wf es' s st"
  using assms seg_cong [of "edges_of es s" es' es] unfolding state_wf_def by simp

text \<open>Two storages that agree on everything but the links of live edges.\<close>

definition same_edges :: "'e edge_storage list \<Rightarrow> 'e edge_storage list \<Rightarrow> bool" where
  "same_edges es es' = (length es' = length es \<and>
     (\<forall>t < length es. is_dead es' t = is_dead es t \<and> e_src (es' ! t) = e_src (es ! t) \<and>
       e_dst (es' ! t) = e_dst (es ! t) \<and> e_data (es' ! t) = e_data (es ! t)))"

lemma same_edges_update:
  assumes "i < length es" "\<not> is_dead es i" "v \<noteq> i"
  shows "same_edges es (es[i := (es ! i)\<lparr>next_succ := v\<rparr>])"
  using assms by (auto simp: same_edges_def is_dead_def nth_list_update)

lemma same_edges_of: "same_edges es es' \<Longrightarrow> edges_of es' s = edges_of es s"
  unfolding same_edges_def by (intro edges_of_cong) auto

lemma upt_snoc: "es \<noteq> [] \<Longrightarrow> [1..<length (es @ [e])] = [1..<length es] @ [length es]"
  by (simp add: Suc_leI upt_Suc)

lemma edges_of_snoc:
  "next_succ e \<noteq> length es \<Longrightarrow> es \<noteq> [] \<Longrightarrow>
    edges_of (es @ [e]) s = edges_of es s @ (if e_src e = s then [length es] else [])"
proof -
  assume e: "next_succ e \<noteq> length es" "es \<noteq> []"
  have "filter (\<lambda>t. \<not> is_dead (es @ [e]) t \<and> e_src ((es @ [e]) ! t) = s) [1..<length es] =
      edges_of es s"
    unfolding edges_of_def is_dead_def by (intro filter_cong) (auto simp: nth_append)
  then show ?thesis
    using e unfolding edges_of_def [of "es @ [e]"] upt_snoc [OF e(2)] filter_append by (simp add: is_dead_def)
qed

text \<open>Adding an edge after the last one of its source.\<close>

lemma new_edge_cases:
  assumes wf: "wf_graph g" and s: "s < length (states g)"
  obtains es1 es' where
    "edges (fst (new_edge g s d x)) = es'" "length es' = length (edges g) + 1"
    "es1 = edges g @ [\<lparr>e_dst = d, next_succ = 0, e_src = s, e_data = x\<rparr>]" "same_edges es1 es'"
    "\<And>u t. u \<noteq> s \<Longrightarrow> t \<in> set (edges_of (edges g) u) \<Longrightarrow> next_succ (es' ! t) = next_succ (edges g ! t)"
    "seg es' (succ (states (fst (new_edge g s d x)) ! s)) (edges_of (edges g) s @ [length (edges g)]) 0"
    "next_succ (es' ! 0) = 0"
proof -
  define es xs t0 where "es = edges g" and "xs = edges_of es s" and "t0 = succ (states g ! s)"
  define e :: "'b edge_storage" where "e = \<lparr>e_dst = d, next_succ = 0, e_src = s, e_data = x\<rparr>"
  define es1 where "es1 = es @ [e]"
  have es: "es \<noteq> []" "next_succ (es ! 0) = 0" and sw: "state_wf es s (states g ! s)"
    using wf s unfolding wf_graph_def es_def by blast+
  note xs = edges_of_facts [where es = es and s = s, folded xs_def]
  have st: "succ_tail (states g ! s) = (if xs = [] then 0 else last xs)" and seg: "seg es t0 xs 0"
    using sw unfolding state_wf_def xs_def t0_def by auto
  have seg1: "seg es1 t0 xs 0"
    using seg xs(5) by (subst seg_cong [of xs es1 es]) (auto simp: es1_def nth_append)
  show thesis
  proof (cases "xs = []")
    case True
    then have "new_edge g s d x = (g\<lparr>states := (states g)[s := (states g ! s)\<lparr>succ := length es, succ_tail := length es\<rparr>],
        edges := es1\<rparr>, length es)"
      using s st by (simp add: new_edge_def Let_def es_def es1_def e_def)
    then show thesis
      using s es True by (intro that [of es1 es1])
        (auto simp: same_edges_def es1_def e_def nth_append es_def edges_of_facts(5) xs_def [unfolded es_def])
  next
    case False
    then have lx: "last xs \<in> set xs" by simp
    with xs(5) have lx: "0 < last xs" "last xs < length es" "\<not> is_dead es (last xs)" by blast+
    define es' where "es' = es1[last xs := (es1 ! last xs)\<lparr>next_succ := length es\<rparr>]"
    have new: "new_edge g s d x = (g\<lparr>states := (states g)[s := (states g ! s)\<lparr>succ_tail := length es\<rparr>],
        edges := es'\<rparr>, length es)"
      using st False lx(1) by (simp add: new_edge_def Let_def es_def es1_def e_def es'_def)
    have same: "same_edges es1 es'"
      unfolding es'_def using lx by (intro same_edges_update) (auto simp: es1_def is_dead_def nth_append)
    have "seg es' t0 xs (length es)"
      unfolding es'_def using lx by (intro seg_update_last [OF seg1 False xs(1)]) (simp add: es1_def)
    moreover have "next_succ (es' ! length es) = 0"
      using lx by (simp add: es'_def es1_def e_def)
    ultimately have "seg es' t0 (xs @ [length es]) 0" by (auto simp: seg_append)
    moreover have "next_succ (es' ! t) = next_succ (es ! t)" if "u \<noteq> s" "t \<in> set (edges_of es u)" for u t
    proof -
      have "t < length es" "t \<noteq> last xs"
        using that False last_in_set [OF False] by (auto simp: edges_of_facts(5) xs_def)
      then show ?thesis by (simp add: es'_def es1_def nth_append)
    qed
    ultimately show thesis
      using s es lx new same by (intro that [of es' es1])
        (auto simp: es'_def es1_def e_def nth_append es_def xs_def t0_def nth_list_update)
  qed
qed

lemma new_edge_spec:
  assumes wf: "wf_graph g" and s: "s < length (states g)"
  shows "wf_graph (fst (new_edge g s d x))"
    and "length (states (fst (new_edge g s d x))) = length (states g)"
    and "snd (new_edge g s d x) = length (edges g)"
    and "same_edges (edges g @ [\<lparr>e_dst = d, next_succ = 0, e_src = s, e_data = x\<rparr>]) (edges (fst (new_edge g s d x)))"
    and "edges_of (edges (fst (new_edge g s d x))) u =
      edges_of (edges g) u @ (if u = s then [length (edges g)] else [])"
proof -
  let ?g = "fst (new_edge g s d x)"
  obtain es1 es' where e: "edges ?g = es'" "length es' = length (edges g) + 1"
    "es1 = edges g @ [\<lparr>e_dst = d, next_succ = 0, e_src = s, e_data = x\<rparr>]" "same_edges es1 es'"
    "\<And>u t. u \<noteq> s \<Longrightarrow> t \<in> set (edges_of (edges g) u) \<Longrightarrow> next_succ (es' ! t) = next_succ (edges g ! t)"
    "seg es' (succ (states ?g ! s)) (edges_of (edges g) s @ [length (edges g)]) 0"
    "next_succ (es' ! 0) = 0"
    by (rule new_edge_cases [OF wf s, of d x]) blast
  have ne: "edges g \<noteq> []" using wf unfolding wf_graph_def by blast
  have of: "edges_of es' u = edges_of (edges g) u @ (if u = s then [length (edges g)] else [])" for u
    using same_edges_of [OF e(4)] edges_of_snoc [of _ "edges g"] ne unfolding e(3) by simp
  show len: "length (states ?g) = length (states g)" and snd: "snd (new_edge g s d x) = length (edges g)"
    by (simp_all add: new_edge_def Let_def)
  show "same_edges (edges g @ [\<lparr>e_dst = d, next_succ = 0, e_src = s, e_data = x\<rparr>]) (edges ?g)"
    using e(1,3,4) by simp
  show "edges_of (edges ?g) u = edges_of (edges g) u @ (if u = s then [length (edges g)] else [])"
    using of e(1) by simp
  have "state_wf es' u (states ?g ! u)" if u: "u < length (states g)" for u
  proof (cases "u = s")
    case True
    moreover have "succ_tail (states ?g ! s) = length (edges g)"
      using s by (simp add: new_edge_def Let_def)
    ultimately show ?thesis using e(6) of by (simp add: state_wf_def)
  next
    case False
    then have "states ?g ! u = states g ! u" by (simp add: new_edge_def Let_def)
    moreover have "state_wf (edges g) u (states g ! u)" using wf u unfolding wf_graph_def by blast
    moreover have "edges_of es' u = edges_of (edges g) u" using False of by simp
    ultimately show ?thesis using state_wf_cong [OF _ _ e(5) [OF False]] by metis
  qed
  moreover have "e_src (es' ! t) < length (states g)" if t: "t < length es'" "0 < t" "\<not> is_dead es' t" for t
  proof -
    have "t \<in> set (edges_of es' (e_src (es' ! t)))" using t by (simp add: edges_of_facts(5))
    then have "t \<in> set (edges_of (edges g) (e_src (es' ! t))) \<or> e_src (es' ! t) = s"
      unfolding of by (auto split: if_splits)
    then show ?thesis using s wf unfolding wf_graph_def by (auto simp: edges_of_facts(5))
  qed
  moreover have "killed_edge ?g = length (filter (is_dead es') [1..<length es'])"
  proof -
    have "filter (is_dead es') [1..<length es'] = filter (is_dead es1) [1..<length es1]"
      using e(4) unfolding same_edges_def by (intro filter_cong) auto
    moreover have "filter (is_dead es1) [1..<length es1] = filter (is_dead (edges g)) [1..<length (edges g)]"
    proof -
      have "\<not> is_dead es1 (length (edges g))" using ne by (simp add: e(3) is_dead_def)
      moreover have "filter (is_dead es1) [1..<length (edges g)] = filter (is_dead (edges g)) [1..<length (edges g)]"
        by (intro filter_cong) (auto simp: e(3) is_dead_def nth_append)
      ultimately show ?thesis unfolding e(3) upt_snoc [OF ne] filter_append by simp
    qed
    ultimately show ?thesis using wf by (simp add: wf_graph_def new_edge_def Let_def)
  qed
  ultimately show "wf_graph ?g"
    unfolding wf_graph_def using e(1,2,7) len by (auto intro: gr0I)
qed

section \<open>Erasing edges\<close>

lemma killed_card: "length (filter (is_dead es) [1..<length es]) = card {t. 0 < t \<and> t < length es \<and> is_dead es t}"
proof -
  have "distinct (filter (is_dead es) [1..<length es])" by simp
  from distinct_card [OF this] show ?thesis
    by (simp add: conj_commute conj_left_commute Suc_le_eq)
qed

text \<open>Two storages with the same edges, whatever the links.\<close>

definition same_data :: "'e edge_storage list \<Rightarrow> 'e edge_storage list \<Rightarrow> bool" where
  "same_data es es' = (length es' = length es \<and>
     (\<forall>t < length es. e_src (es' ! t) = e_src (es ! t) \<and> e_dst (es' ! t) = e_dst (es ! t) \<and>
       e_data (es' ! t) = e_data (es ! t)))"

lemma same_data_refl [simp]: "same_data es es"
  by (simp add: same_data_def)

lemma same_data_trans: "same_data a b \<Longrightarrow> same_data b c \<Longrightarrow> same_data a c"
  by (simp add: same_data_def)

lemma same_data_update: "same_data es (es[i := (es ! i)\<lparr>next_succ := v\<rparr>])"
proof -
  have "es[i := (es ! i)\<lparr>next_succ := v\<rparr>] ! t = (es ! t)\<lparr>next_succ := if t = i then v else next_succ (es ! t)\<rparr>"
    if "t < length es" for t using that by (cases "t = i") simp_all
  then show ?thesis by (simp add: same_data_def)
qed

text \<open>The position of an erasing iterator among the edges of its state.\<close>

definition killer_at :: "('s, 'e) digraph \<Rightarrow> killer \<Rightarrow> nat list \<Rightarrow> nat list \<Rightarrow> bool" where
  "killer_at g k ys zs = (k_src k < length (states g) \<and> edges_of (edges g) (k_src k) = ys @ zs \<and>
     k_prev k = (if ys = [] then 0 else last ys) \<and> k_t k = (if zs = [] then 0 else hd zs))"

lemma killer_start: "wf_graph g \<Longrightarrow> s < length (states g) \<Longrightarrow>
    killer_at g (out_iteraser g s) [] (edges_of (edges g) s)"
  using seg_hd [of "edges g" "succ (states g ! s)"]
  unfolding killer_at_def out_iteraser_def wf_graph_def state_wf_def by simp

lemma killer_seg:
  assumes "wf_graph g" "killer_at g k ys (x # zs)"
  shows "seg (edges g) (succ (states g ! k_src k)) ys x"
    "next_succ (edges g ! x) = (if zs = [] then 0 else hd zs)" "seg (edges g) (next_succ (edges g ! x)) zs 0"
    "succ_tail (states g ! k_src k) = last (x # zs)"
proof -
  let ?s = "k_src k"
  have e: "edges_of (edges g) ?s = ys @ x # zs" and s: "state_wf (edges g) ?s (states g ! ?s)"
    using assms unfolding killer_at_def wf_graph_def by auto
  then have "seg (edges g) (succ (states g ! ?s)) (ys @ x # zs) 0" "succ_tail (states g ! ?s) = last (x # zs)"
    unfolding state_wf_def by auto
  then show "seg (edges g) (succ (states g ! ?s)) ys x" "seg (edges g) (next_succ (edges g ! x)) zs 0"
    "succ_tail (states g ! k_src k) = last (x # zs)"
    by (auto simp: seg_append)
  then show "next_succ (edges g ! x) = (if zs = [] then 0 else hd zs)" by (intro seg_hd)
qed

lemma killer_next_at:
  assumes "wf_graph g" "killer_at g k ys (x # zs)"
  shows "killer_at g (killer_next g k) (ys @ [x]) zs"
  using assms(2) killer_seg(2) [OF assms] unfolding killer_at_def killer_next_def by simp

lemma killer_erase_spec:
  assumes wf: "wf_graph g" and at: "killer_at g k ys (x # zs)" and e: "killer_erase g k = (g', k')"
  shows "same_data (edges g) (edges g')" "length (states g') = length (states g)"
    and "edges_of (edges g') u = (if u = k_src k then ys @ zs else edges_of (edges g) u)"
    and "wf_graph g'" and "killer_at g' k' ys zs"
proof -
  define es s nxt where "es = edges g" and "s = k_src k" and "nxt = next_succ (es ! x)"
  have k: "s < length (states g)" "edges_of es s = ys @ x # zs" "k_t k = x"
    "k_prev k = (if ys = [] then 0 else last ys)"
    using at unfolding killer_at_def es_def s_def by auto
  note sg = killer_seg [OF wf at, folded es_def s_def, folded nxt_def]
  note xs = edges_of_facts [where es = es and s = s, unfolded k(2)]
  have mem: "0 < t \<and> t < length es \<and> \<not> is_dead es t \<and> e_src (es ! t) = s"
    if "t \<in> set ys \<or> t = x \<or> t \<in> set zs" for t
    using that xs(5) [of t] by auto
  have dist: "x \<notin> set ys" "x \<notin> set zs" "distinct ys" "distinct zs" "set ys \<inter> set zs = {}" using xs(1) by auto
  have last_ys: "ys \<noteq> [] \<Longrightarrow> last ys \<in> set ys" by simp
  define es1 where "es1 = (if ys \<noteq> [] then es[last ys := (es ! last ys)\<lparr>next_succ := nxt\<rparr>] else es)"
  define es2 where "es2 = es1[x := (es1 ! x)\<lparr>next_succ := x\<rparr>]"
  have prev0: "k_prev k \<noteq> 0 \<longleftrightarrow> ys \<noteq> []" using k(4) mem last_ys by force
  have nxt: "nxt \<notin> set ys" "nxt = (if zs = [] then 0 else hd zs)"
    using sg(2) dist(5) mem hd_in_set [of zs] by (auto split: if_splits)
  have same1: "same_edges es es1"
  proof (cases "ys = []")
    case False
    have "last ys < length es" "\<not> is_dead es (last ys)" "nxt \<noteq> last ys"
      using mem last_ys [OF False] nxt(1) by blast+
    with False show ?thesis unfolding es1_def by (simp add: same_edges_update)
  qed (simp add: es1_def same_edges_def)
  have dead2: "is_dead es2 t = (t = x \<or> is_dead es t)" if "t < length es" for t
    using that same1 mem [of x] unfolding es2_def same_edges_def by (auto simp: is_dead_def nth_list_update)
  have data2: "same_data es es2"
  proof -
    have "same_data es es1" unfolding es1_def by (simp add: same_data_update)
    then show ?thesis unfolding es2_def using same_data_trans same_data_update by blast
  qed
  have of2: "edges_of es2 u = (if u = s then ys @ zs else edges_of es u)" for u
  proof -
    have "edges_of es2 u = filter (\<lambda>t. t \<noteq> x) (edges_of es u)"
      unfolding edges_of_def filter_filter using data2 dead2
      by (intro filter_cong) (auto simp: same_data_def)
    moreover have "x \<notin> set (edges_of es u)" if "u \<noteq> s" using mem [of x] that by (auto simp: edges_of_facts(5))
    moreover have "filter (\<lambda>t. t \<noteq> x) ys = ys" "filter (\<lambda>t. t \<noteq> x) zs = zs" using dist(1,2) by (auto intro: filter_True)
    ultimately show ?thesis using k(2) by (auto intro: filter_True)
  qed
  have other: "es2 ! t = es ! t" if "t \<noteq> x" "t \<notin> set ys" for t
  proof (cases "ys = []")
    case False
    then have "t \<noteq> last ys" using that(2) last_ys by blast
    with that(1) show ?thesis by (simp add: es2_def es1_def nth_list_update_neq [OF not_sym])
  qed (use that(1) in \<open>simp add: es2_def es1_def nth_list_update_neq [OF not_sym]\<close>)
  have seg_zs: "seg es2 nxt zs 0"
  proof -
    have "next_succ (es2 ! t) = next_succ (es ! t)" if "t \<in> set zs" for t
    proof -
      have "t \<noteq> x" "t \<notin> set ys" using that dist(2,5) by blast+
      then show ?thesis by (simp add: other)
    qed
    with sg(3) show ?thesis using seg_cong by metis
  qed
  have seg_ys: "ys \<noteq> [] \<Longrightarrow> seg es2 (succ (states g ! s)) ys nxt"
  proof -
    assume ys: "ys \<noteq> []"
    then have "seg es1 (succ (states g ! s)) ys nxt"
      unfolding es1_def using seg_update_last [OF sg(1) ys dist(3)] mem last_ys by simp
    moreover have "next_succ (es2 ! t) = next_succ (es1 ! t)" if "t \<in> set ys" for t
      using that dist(1) nth_list_update_neq [of x t es1] unfolding es2_def by metis
    ultimately show ?thesis using seg_cong by metis
  qed
  define ss where "ss = states g ! s"
  define ss' where "ss' = ss\<lparr>succ := if ys = [] then nxt else succ ss, succ_tail := if zs = [] then k_prev k else succ_tail ss\<rparr>"
  have tail: "(succ_tail ss = x) = (zs = [])" using sg(4) dist(2) last_in_set [of zs] unfolding ss_def by auto
  have head: "ys = [] \<Longrightarrow> succ ss = x" using sg(1) unfolding ss_def by simp
  have "killer_erase g k = (g\<lparr>states := (states g)[s := ss'], edges := es2, killed_edge := killed_edge g + 1\<rparr>, k\<lparr>k_t := nxt\<rparr>)"
    using prev0 tail head k(3,4)
    by (cases "ys = []"; cases "zs = []")
      (simp_all add: killer_erase_def Let_def es_def [symmetric] s_def [symmetric] ss_def [symmetric]
        ss'_def es2_def es1_def nxt_def)
  with e have g': "g' = g\<lparr>states := (states g)[s := ss'], edges := es2, killed_edge := killed_edge g + 1\<rparr>"
    and k': "k' = k\<lparr>k_t := nxt\<rparr>" by auto
  show "same_data (edges g) (edges g')" "length (states g') = length (states g)"
    "edges_of (edges g') u = (if u = k_src k then ys @ zs else edges_of (edges g) u)"
    using data2 of2 by (simp_all add: g' es_def s_def)
  show "killer_at g' k' ys zs"
    using k nxt(2) of2 unfolding killer_at_def by (simp add: g' k' s_def)
  have "state_wf es2 v (states g' ! v)" if v: "v < length (states g)" for v
  proof (cases "v = s")
    case True
    have "seg es2 (succ ss') (ys @ zs) 0"
      using seg_zs seg_ys unfolding ss'_def ss_def seg_append by (cases "ys = []") auto
    moreover have "succ_tail ss' = (if ys @ zs = [] then 0 else last (ys @ zs))"
      using k(4) sg(4) by (auto simp: ss'_def ss_def)
    ultimately show ?thesis using True k(1) of2 by (simp add: state_wf_def g')
  next
    case False
    then have "x \<notin> set (edges_of es v)" "\<And>y. y \<in> set ys \<Longrightarrow> y \<notin> set (edges_of es v)"
      using mem by (auto simp: edges_of_facts(5))
    then have "next_succ (es2 ! t) = next_succ (es ! t)" if "t \<in> set (edges_of es v)" for t
      using that other by metis
    moreover have "edges_of es2 v = edges_of es v" using of2 False by simp
    moreover have "state_wf es v (states g ! v)" using wf v unfolding wf_graph_def es_def by blast
    ultimately have "state_wf es2 v (states g ! v)" using state_wf_cong by metis
    then show ?thesis using False by (simp add: g')
  qed
  moreover have "next_succ (es2 ! 0) = 0"
  proof -
    have "es2 ! 0 = es ! 0" using mem by (intro other) blast+
    moreover have "next_succ (es ! 0) = 0" using wf unfolding wf_graph_def es_def by blast
    ultimately show ?thesis by simp
  qed
  moreover have "killed_edge g + 1 = length (filter (is_dead es2) [1..<length es2])"
  proof -
    have "length es2 = length es" using data2 by (simp add: same_data_def)
    then have "{t. 0 < t \<and> t < length es2 \<and> is_dead es2 t} = insert x {t. 0 < t \<and> t < length es \<and> is_dead es t}"
      using dead2 mem [of x] by auto
    then show ?thesis
      using wf mem [of x] unfolding wf_graph_def killed_card es_def by (simp add: es_def)
  qed
  moreover have "\<forall>t \<in> {1..<length es2}. \<not> is_dead es2 t \<longrightarrow> e_src (es2 ! t) < length (states g)"
    using wf data2 dead2 unfolding wf_graph_def same_data_def es_def by (auto simp: es_def)
  moreover have "es2 \<noteq> []" using wf data2 unfolding wf_graph_def same_data_def es_def by auto
  ultimately show "wf_graph g'"
    unfolding wf_graph_def g' by simp
qed

lemma erase_loop_spec:
  assumes "wf_graph g" "killer_at g k ys zs" "length zs \<le> n"
  shows "wf_graph (erase_loop n P g k) \<and> same_data (edges g) (edges (erase_loop n P g k)) \<and>
    length (states (erase_loop n P g k)) = length (states g) \<and>
    edges_of (edges (erase_loop n P g k)) u =
      (if u = k_src k
       then ys @ filter (\<lambda>t. \<not> P (e_dst (edges g ! t)) (e_data (edges g ! t))) zs
       else edges_of (edges g) u)"
  using assms
proof (induction n P g k arbitrary: ys zs rule: erase_loop.induct)
  case (1 P g k)
  then show ?case by (simp add: killer_at_def)
next
  case (2 n P g k)
  have mem: "t \<in> set zs \<Longrightarrow> 0 < t \<and> t < length (edges g)" for t
    using "2.prems"(2) edges_of_facts(5) [of t "edges g" "k_src k"] unfolding killer_at_def by auto
  show ?case
  proof (cases zs)
    case Nil
    with 2 show ?thesis by (simp add: killer_at_def)
  next
    case (Cons x xs)
    with "2.prems"(2) mem have kt: "k_t k = x" "k_t k \<noteq> 0" by (auto simp: killer_at_def)
    have at: "killer_at g k ys (x # xs)" using "2.prems"(2) Cons by simp
    show ?thesis
    proof (cases "P (e_dst (edges g ! x)) (e_data (edges g ! x))")
      case True
      obtain g1 k1 where e: "killer_erase g k = (g1, k1)" by fastforce
      note sp = killer_erase_spec [OF "2.prems"(1) at e]
      have src: "k_src k1 = k_src k" using e by (auto simp: killer_erase_def Let_def)
      have len: "length xs \<le> n" using "2.prems"(3) Cons by simp
      have "P (e_dst (edges g ! k_t k)) (e_data (edges g ! k_t k))" using True kt by simp
      note IH = "2.IH"(1) [OF kt(2) this e [symmetric] sp(4,5) len]
      have "filter (\<lambda>t. \<not> P (e_dst (edges g1 ! t)) (e_data (edges g1 ! t))) xs =
          filter (\<lambda>t. \<not> P (e_dst (edges g ! t)) (e_data (edges g ! t))) xs"
        using sp(1) mem Cons unfolding same_data_def by (intro filter_cong) auto
      with IH sp(1,2,3) src True kt Cons e show ?thesis
        by (simp add: same_data_trans [of "edges g" "edges g1"])
    next
      case False
      have len: "length xs \<le> n" using "2.prems"(3) Cons by simp
      have "\<not> P (e_dst (edges g ! k_t k)) (e_data (edges g ! k_t k))" using False kt by simp
      note IH = "2.IH"(2) [OF kt(2) this "2.prems"(1) killer_next_at [OF "2.prems"(1) at] len]
      have "k_src (killer_next g k) = k_src k" by (simp add: killer_next_def)
      with IH False kt Cons show ?thesis by simp
    qed
  qed
qed

lemma erase_if_spec:
  assumes "wf_graph g" "s < length (states g)"
  shows "wf_graph (erase_if P g s)" "same_data (edges g) (edges (erase_if P g s))"
    "length (states (erase_if P g s)) = length (states g)"
    "edges_of (edges (erase_if P g s)) u =
      filter (\<lambda>t. \<not> (u = s \<and> P (e_dst (edges g ! t)) (e_data (edges g ! t)))) (edges_of (edges g) u)"
proof -
  have "length (edges_of (edges g) s) \<le> length (edges g)" by (rule edges_of_facts)
  note sp = erase_loop_spec [OF assms(1) killer_start [OF assms] this, of P u, folded erase_if_def]
  then show "wf_graph (erase_if P g s)" "same_data (edges g) (edges (erase_if P g s))"
    "length (states (erase_if P g s)) = length (states g)" by blast+
  show "edges_of (edges (erase_if P g s)) u =
      filter (\<lambda>t. \<not> (u = s \<and> P (e_dst (edges g ! t)) (e_data (edges g ! t)))) (edges_of (edges g) u)"
    using sp by (auto simp: out_iteraser_def)
qed

section \<open>All edges\<close>

lemma edges_from_skip:
  "t < length es \<Longrightarrow> edges_from es (skip es t) = filter (\<lambda>i. \<not> is_dead es i) [Suc t..<length es]"
proof (induction "length es - t" arbitrary: t rule: less_induct)
  case (less t)
  show ?case
  proof (cases "t + 1 < length es")
    case False
    with less.prems show ?thesis by (simp add: skip.simps [of es t] edges_from.simps)
  next
    case True
    then have u: "[Suc t..<length es] = Suc t # [Suc (Suc t)..<length es]" by (simp add: upt_conv_Cons)
    have IH: "edges_from es (skip es (Suc t)) = filter (\<lambda>i. \<not> is_dead es i) [Suc (Suc t)..<length es]"
      using True by (intro less.hyps) simp_all
    show ?thesis
    proof (cases "is_dead es (t + 1)")
      case d: True
      then have "skip es t = skip es (Suc t)" using True by (simp add: skip.simps [of es t])
      with d IH show ?thesis unfolding u by simp
    next
      case False
      then have "skip es t = Suc t" by (simp add: skip.simps [of es t])
      with False True IH show ?thesis unfolding u by (simp add: edges_from.simps [of es "Suc t"])
    qed
  qed
qed

lemma all_edges_live: "wf_graph g \<Longrightarrow> all_edges g = filter (is_valid_edge g) [1..<length (edges g)]"
  unfolding all_edges_def wf_graph_def
  using edges_from_skip [of 0 "edges g"] by (auto simp: is_valid_edge_def intro: filter_cong)

lemma num_edges_live: "wf_graph g \<Longrightarrow> num_edges g = length (all_edges g)"
proof -
  assume wf: "wf_graph g"
  have "length (filter (is_valid_edge g) [1..<length (edges g)]) = length (filter (\<lambda>t. \<not> is_dead (edges g) t) [1..<length (edges g)])"
    by (intro arg_cong [of _ _ length] filter_cong) (auto simp: is_valid_edge_def)
  then show ?thesis
    using wf sum_length_filter_compl [of "is_dead (edges g)" "[1..<length (edges g)]"]
    unfolding num_edges_def all_edges_live [OF wf] wf_graph_def by simp
qed

lemma new_states_edges:
  "edges (fst (new_states g n d)) = edges g" "length (states (fst (new_states g n d))) = length (states g) + n"
  by (simp_all add: new_states_def)

lemma edges_of_new_state:
  assumes "wf_graph g" "length (states g) \<le> s"
  shows "edges_of (edges g) s = []"
  using assms unfolding wf_graph_def edges_of_def filter_empty_conv by fastforce

text \<open>
  Property C18: a well-formed graph chains exactly the live edges of each state, in the order of
  their numbers, and counts the erased ones.  The empty graph is well formed; adding states adds
  states without edges; \<open>new_edge\<close> appends one edge to those of its source and changes no other
  list; erasing through an iterator keeps the edges that do not satisfy the test, in order.
\<close>

theorem graph_storage:
  assumes "wf_graph g" "s < length (states g)" "u < length (states g)"
  shows "wf_graph (digraph0 z) \<and>
    out g u = filter (\<lambda>t. is_valid_edge g t \<and> e_src (edges g ! t) = u) [1..<length (edges g)] \<and>
    num_edges g = length (all_edges g) \<and>
    (case new_states g n d of (g', v) \<Rightarrow> wf_graph g' \<and> v = length (states g) \<and> out g' u = out g u \<and>
       (\<forall>i < n. out g' (v + i) = [])) \<and>
    (case new_edge g s dst x of (g', t) \<Rightarrow> wf_graph g' \<and> out g' u = out g u @ (if u = s then [t] else []) \<and>
       t = length (edges g) \<and> e_dst (edges g' ! t) = dst \<and> e_data (edges g' ! t) = x) \<and>
    (let g' = erase_if P g s in wf_graph g' \<and>
       out g' u = filter (\<lambda>t. \<not> (u = s \<and> P (e_dst (edges g ! t)) (e_data (edges g ! t)))) (out g u))"
proof (intro conjI)
  show "wf_graph (digraph0 z)" by (rule wf_digraph0)
  show "out g u = filter (\<lambda>t. is_valid_edge g t \<and> e_src (edges g ! t) = u) [1..<length (edges g)]"
    unfolding out_edges_of [OF assms(1,3)] edges_of_def by (intro filter_cong) (auto simp: is_valid_edge_def)
  show "num_edges g = length (all_edges g)" by (rule num_edges_live [OF assms(1)])
  show "case new_states g n d of (g', v) \<Rightarrow> wf_graph g' \<and> v = length (states g) \<and> out g' u = out g u \<and>
      (\<forall>i < n. out g' (v + i) = [])"
  proof -
    obtain g' v where nv: "new_states g n d = (g', v)" by fastforce
    then have g': "g' = fst (new_states g n d)" "v = length (states g)" by (auto simp: new_states_def)
    have wf: "wf_graph g'" unfolding g' by (rule wf_new_states [OF assms(1)])
    have "out g' i = edges_of (edges g) i" if "i < length (states g) + n" for i
      using out_edges_of [OF wf, of i] that new_states_edges [of g n d] by (simp add: g'(1))
    then show ?thesis
      using nv wf g'(2) assms(3) out_edges_of [OF assms(1,3)] edges_of_new_state [OF assms(1)] by simp
  qed
  show "case new_edge g s dst x of (g', t) \<Rightarrow> wf_graph g' \<and> out g' u = out g u @ (if u = s then [t] else []) \<and>
      t = length (edges g) \<and> e_dst (edges g' ! t) = dst \<and> e_data (edges g' ! t) = x"
  proof -
    obtain g' t where nt: "new_edge g s dst x = (g', t)" by fastforce
    note sp = new_edge_spec [OF assms(1,2), of dst x, unfolded nt fst_conv snd_conv]
    have "out g' u = out g u @ (if u = s then [t] else [])"
      using out_edges_of [OF sp(1), of u] out_edges_of [OF assms(1,3)] sp(2,3,5) assms(3) by simp
    moreover have "e_dst (edges g' ! t) = dst \<and> e_data (edges g' ! t) = x"
      using sp(3,4) unfolding same_edges_def by (auto simp: nth_append)
    ultimately show ?thesis using nt sp(1,3) by simp
  qed
  show "let g' = erase_if P g s in wf_graph g' \<and>
      out g' u = filter (\<lambda>t. \<not> (u = s \<and> P (e_dst (edges g ! t)) (e_data (edges g ! t)))) (out g u)"
  proof -
    note sp = erase_if_spec [OF assms(1,2), of P]
    have "out (erase_if P g s) u = edges_of (edges (erase_if P g s)) u"
      using out_edges_of [OF sp(1), of u] sp(3) assms(3) by simp
    then show ?thesis using sp(1) sp(4) [of u] out_edges_of [OF assms(1,3)] by (simp add: Let_def)
  qed
qed

text \<open>Two states, three edges; the second edge of state 0 is erased.\<close>

definition sample_graph :: "(unit, nat) digraph" where
  "sample_graph =
    (let g = fst (new_states (digraph0 0) 2 ());
         g = fst (new_edge g 0 1 10); g = fst (new_edge g 1 0 11); g = fst (new_edge g 0 0 12)
     in fst (new_edge g 0 1 13))"

lemma wf_sample_graph: "wf_graph sample_graph" "length (states sample_graph) = 2"
proof -
  note l = new_edge_spec(2) and w = new_edge_spec(1)
  let ?g0 = "fst (new_states (digraph0 0) 2 ()) :: (unit, nat) digraph"
  have g0: "wf_graph ?g0" "length (states ?g0) = 2"
    using wf_new_states [OF wf_digraph0] by (simp_all add: new_states_def digraph0_def)
  have g1: "wf_graph (fst (new_edge ?g0 0 1 10))" "length (states (fst (new_edge ?g0 0 1 10))) = 2"
    using w [OF g0(1)] l [OF g0(1)] g0(2) by simp_all
  let ?g2 = "fst (new_edge (fst (new_edge ?g0 0 1 10)) 1 0 11)"
  have g2: "wf_graph ?g2" "length (states ?g2) = 2"
    using w [OF g1(1)] l [OF g1(1)] g1(2) by simp_all
  have g3: "wf_graph (fst (new_edge ?g2 0 0 12))" "length (states (fst (new_edge ?g2 0 0 12))) = 2"
    using w [OF g2(1)] l [OF g2(1)] g2(2) by simp_all
  show "wf_graph sample_graph" "length (states sample_graph) = 2"
    using w [OF g3(1)] l [OF g3(1)] g3(2) unfolding sample_graph_def Let_def by simp_all
qed

theorem graph_storage_witness:
  "wf_graph (erase_if (\<lambda>d x. x = 12) sample_graph 0) \<and> out sample_graph 0 = [1, 3, 4] \<and>
   out (erase_if (\<lambda>d x. x = 12) sample_graph 0) 0 = [1, 4]"
proof -
  have o: "out sample_graph 0 = [1, 3, 4]" by code_simp
  have d: "map (\<lambda>t. e_data (edges sample_graph ! t)) [1, 3, 4] = [10, 12, 13]" by code_simp
  have "0 < length (states sample_graph)" by (simp add: wf_sample_graph)
  from graph_storage [OF wf_sample_graph(1) this this, where P = "\<lambda>d x. x = 12" and z = 0 and n = 0 and
      d = "()" and dst = 0 and x = 0]
  show ?thesis using o d by (auto simp: Let_def)
qed

end
