(* ===== verification/DiGraphRebuild.thy ===== *)
theory DiGraphRebuild
  imports DiGraph
begin

text \<open>
  Rebuilding the storage of a graph (graph/graph.hh): removal of the erased edges, sorting,
  reconstruction of the chains, renaming and removal of states.
\<close>

section \<open>Dead edges, sorting, renaming\<close>

definition remove_dead_edges :: "('s, 'e) digraph \<Rightarrow> ('s, 'e) digraph" where
  "remove_dead_edges g =
    (if killed_edge g = 0 then g
     else g\<lparr>edges := hd (edges g) #
              map ((!) (edges g)) (filter (\<lambda>t. \<not> is_dead_edge g t) [1..<length (edges g)]),
            killed_edge := 0\<rparr>)"

definition sort_edges :: "('e edge_storage \<Rightarrow> 'e edge_storage \<Rightarrow> bool) \<Rightarrow> ('s, 'e) digraph \<Rightarrow> ('s, 'e) digraph" where
  "sort_edges lt g = g\<lparr>edges := hd (edges g) # sort_by lt (tl (edges g))\<rparr>"

definition rename_states :: "(nat \<Rightarrow> nat) \<Rightarrow> ('s, 'e) digraph \<Rightarrow> ('s, 'e) digraph" where
  "rename_states newst g = g\<lparr>edges := hd (edges g) #
     map (\<lambda>e. e\<lparr>e_dst := newst (e_dst e), e_src := newst (e_src e)\<rparr>) (tl (edges g))\<rparr>"

section \<open>Rebuilding the chains\<close>

text \<open>
  \<open>nxt\<close> is the source of the previous edge plus one, so that 0 stands for the initial -1.  The
  loop that resets the states without edges counts upwards until it meets the source of the edge;
  when that source is smaller, or is not a state, it leaves the vector of states, which is
  undefined.
\<close>

definition reset_states :: "'s state_storage list \<Rightarrow> nat \<Rightarrow> nat \<Rightarrow> 's state_storage list" where
  "reset_states ss a b =
    map (\<lambda>(i, st). if a \<le> i \<and> i < b then st\<lparr>succ := 0, succ_tail := 0\<rparr> else st) (enumerate 0 ss)"

definition end_chain :: "'s state_storage list \<times> 'e edge_storage list \<Rightarrow> nat \<Rightarrow> nat \<Rightarrow> 's state_storage list \<times> 'e edge_storage list" where
  "end_chain c nxt t =
    (if nxt = 0 then c
     else ((fst c)[nxt - 1 := (fst c ! (nxt - 1))\<lparr>succ_tail := t - 1\<rparr>],
           (snd c)[t - 1 := (snd c ! (t - 1))\<lparr>next_succ := 0\<rparr>]))"

fun chain_loop :: "nat list \<Rightarrow> 's state_storage list \<times> 'e edge_storage list \<Rightarrow> nat \<Rightarrow>
    (('s state_storage list \<times> 'e edge_storage list) \<times> nat) option" where
  "chain_loop [] c nxt = Some (c, nxt)"
| "chain_loop (t # ts) c nxt =
     (let s = e_src (snd c ! t) in
      if s + 1 \<noteq> nxt then
        (if s < nxt \<or> length (fst c) \<le> s then None
         else let c = ((fst c)[s := (fst c ! s)\<lparr>succ := t\<rparr>], snd c);
                  c = end_chain c nxt t
              in chain_loop ts (reset_states (fst c) nxt s, snd c) (s + 1))
      else chain_loop ts (fst c, (snd c)[t - 1 := (snd c ! (t - 1))\<lparr>next_succ := t\<rparr>]) nxt)"

definition chain_edges :: "('s, 'e) digraph \<Rightarrow> ('s, 'e) digraph option" where
  "chain_edges g =
    (case chain_loop [1..<length (edges g)] (states g, edges g) 0 of
       None \<Rightarrow> None
     | Some (c, nxt) \<Rightarrow>
         let c = end_chain c nxt (length (edges g))
         in Some (g\<lparr>states := reset_states (fst c) nxt (length (states g)), edges := snd c\<rparr>))"

section \<open>Removing states\<close>

text \<open>\<open>newst\<close> maps a state to its new number, \<open>None\<close> to erase it.\<close>

fun kill_chain :: "nat \<Rightarrow> 'e edge_storage list \<Rightarrow> nat \<Rightarrow> 'e edge_storage list" where
  "kill_chain 0 es t = es"
| "kill_chain (Suc n) es t =
     (if t = 0 then es
      else kill_chain n (es[t := (es ! t)\<lparr>next_succ := t\<rparr>]) (next_succ (es ! t)))"

fun shift_states :: "nat list \<Rightarrow> (nat \<Rightarrow> nat option) \<Rightarrow> 's state_storage list \<times> 'e edge_storage list \<Rightarrow>
    's state_storage list \<times> 'e edge_storage list" where
  "shift_states [] newst c = c"
| "shift_states (s # l) newst (ss, es) =
     (case newst s of
        None \<Rightarrow> shift_states l newst (ss, kill_chain (length es) es (succ (ss ! s)))
      | Some d \<Rightarrow> shift_states l newst (if d = s then ss else ss[d := ss ! s], es))"

text \<open>The new index of each edge; dead edges and edge 0 have index 0.\<close>

definition newidx :: "'e edge_storage list \<Rightarrow> nat \<Rightarrow> nat" where
  "newidx es t =
    (if t = 0 \<or> is_dead es t then 0 else length (filter (\<lambda>i. \<not> is_dead es i) [1..<t]) + 1)"

definition defrag_states :: "(nat \<Rightarrow> nat option) \<Rightarrow> nat \<Rightarrow> ('s, 'e) digraph \<Rightarrow> ('s, 'e) digraph" where
  "defrag_states newst used g =
    (let (ss, es) = shift_states [0..<length (states g)] newst (states g, edges g);
         ss = take used ss; ren = (\<lambda>s. case newst s of Some d \<Rightarrow> d | None \<Rightarrow> 2 ^ 32 - 1);
         live = map ((!) es) (filter (\<lambda>t. \<not> is_dead es t) [1..<length es])
     in g\<lparr>states := map (\<lambda>st. st\<lparr>succ := newidx es (succ st), succ_tail := newidx es (succ_tail st)\<rparr>) ss,
          edges := hd es # map (\<lambda>e. e\<lparr>e_src := ren (e_src e), e_dst := ren (e_dst e),
                                       next_succ := newidx es (next_succ e)\<rparr>) live,
          killed_edge := 0\<rparr>)"

section \<open>The chains are right\<close>

lemma reset_states_nth:
  "i < length ss \<Longrightarrow> reset_states ss a b ! i = (if a \<le> i \<and> i < b then (ss ! i)\<lparr>succ := 0, succ_tail := 0\<rparr> else ss ! i)"
  by (simp add: reset_states_def nth_enumerate_eq)

lemma length_reset_states [simp]: "length (reset_states ss a b) = length ss"
  by (simp add: reset_states_def)

text \<open>The edges of a state among those numbered below t.\<close>

definition group :: "'e edge_storage list \<Rightarrow> nat \<Rightarrow> nat \<Rightarrow> nat list" where
  "group es s t = filter (\<lambda>i. e_src (es ! i) = s) [1..<t]"

lemma group_Suc: "1 \<le> t \<Longrightarrow> group es s (Suc t) = group es s t @ (if e_src (es ! t) = s then [t] else [])"
  by (simp add: group_def)

lemma group_facts: "distinct (group es s t)" "i \<in> set (group es s t) \<longleftrightarrow> 1 \<le> i \<and> i < t \<and> e_src (es ! i) = s"
  by (auto simp: group_def)

definition sources_ok :: "'e edge_storage list \<Rightarrow> nat \<Rightarrow> bool" where
  "sources_ok es n = ((\<forall>i j. 1 \<le> i \<and> i \<le> j \<and> j < length es \<longrightarrow> e_src (es ! i) \<le> e_src (es ! j)) \<and>
     (\<forall>i. 1 \<le> i \<and> i < length es \<longrightarrow> e_src (es ! i) < n))"

definition chained :: "'e edge_storage list \<Rightarrow> nat list \<Rightarrow> 's state_storage \<Rightarrow> bool \<Rightarrow> bool" where
  "chained es E st closed =
    (if E = [] then succ st = 0 \<and> succ_tail st = 0
     else seg es (succ st) (butlast E) (last E) \<and>
       (closed \<longrightarrow> next_succ (es ! last E) = 0 \<and> succ_tail st = last E))"

definition chain_inv :: "'e edge_storage list \<Rightarrow> nat \<Rightarrow> nat \<Rightarrow> 's state_storage list \<times> 'e edge_storage list \<Rightarrow> nat \<Rightarrow> bool" where
  "chain_inv es0 n t c nxt =
    (same_data es0 (snd c) \<and> length (fst c) = n \<and> next_succ (snd c ! 0) = 0 \<and>
     nxt = (if t = 1 then 0 else Suc (e_src (es0 ! (t - 1)))) \<and>
     (\<forall>s < nxt. chained (snd c) (group es0 s t) (fst c ! s) (s + 1 < nxt)))"

lemma chained_cong:
  assumes "chained es E st b" "\<And>i. i \<in> set (butlast E) \<Longrightarrow> next_succ (es' ! i) = next_succ (es ! i)"
    "E \<noteq> [] \<Longrightarrow> c \<Longrightarrow> next_succ (es' ! last E) = 0 \<and> succ_tail st' = last E"
    "succ st' = succ st" "E = [] \<Longrightarrow> succ_tail st' = succ_tail st"
  shows "chained es' E st' c"
  using assms seg_cong [of "butlast E" es' es] unfolding chained_def by auto

lemma sources_mono: "sources_ok es n \<Longrightarrow> 1 \<le> i \<Longrightarrow> i \<le> j \<Longrightarrow> j < length es \<Longrightarrow> e_src (es ! i) \<le> e_src (es ! j)"
  and sources_less: "sources_ok es n \<Longrightarrow> 1 \<le> i \<Longrightarrow> i < length es \<Longrightarrow> e_src (es ! i) < n"
  unfolding sources_ok_def by blast+

text \<open>Closing the chain of the previous source.\<close>

lemma end_chain_closes:
  assumes inv: "chain_inv es0 n t c nxt" and t: "1 \<le> t" "t \<le> length es0" and ok: "sources_ok es0 n"
    and s: "s < nxt"
  shows "chained (snd (end_chain c nxt t)) (group es0 s t) (fst (end_chain c nxt t) ! s) True"
proof -
  have nxt: "nxt = Suc (e_src (es0 ! (t - 1)))" "2 \<le> t" using inv s t by (auto simp: chain_inv_def split: if_splits)
  then have t1: "1 \<le> t - 1" "Suc (t - 1) = t" "t - 1 < length es0" using t by auto
  have len: "length (snd c) = length es0" "length (fst c) = n" using inv unfolding chain_inv_def same_data_def by auto
  have n: "nxt \<le> n" using ok t1 nxt unfolding sources_ok_def by (metis Suc_leI)
  have ch: "chained (snd c) (group es0 s t) (fst c ! s) (s + 1 < nxt)"
    using inv s unfolding chain_inv_def by blast
  have e: "snd (end_chain c nxt t) = (snd c)[t - 1 := (snd c ! (t - 1))\<lparr>next_succ := 0\<rparr>]"
    "fst (end_chain c nxt t) = (fst c)[nxt - 1 := (fst c ! (nxt - 1))\<lparr>succ_tail := t - 1\<rparr>]"
    using nxt by (simp_all add: end_chain_def)
  show ?thesis
  proof (cases "s + 1 = nxt")
    case True
    then have g: "group es0 s t = group es0 s (t - 1) @ [t - 1]" using nxt group_Suc [OF t1(1), of es0 s] t1(2) by simp
    have notin: "t - 1 \<notin> set (group es0 s (t - 1))" by (simp add: group_facts)
    show ?thesis
      unfolding e
    proof (rule chained_cong [OF ch])
      fix i assume "i \<in> set (butlast (group es0 s t))"
      then have "i \<noteq> t - 1" using notin unfolding g by auto
      then show "next_succ ((snd c)[t - 1 := (snd c ! (t - 1))\<lparr>next_succ := 0\<rparr>] ! i) = next_succ (snd c ! i)"
        by (simp add: nth_list_update_neq [OF not_sym])
    qed (use True g t1 len n s in \<open>auto simp: nth_list_update\<close>)
  next
    case False
    then have ni: "t - 1 \<notin> set (group es0 s t)" using nxt by (auto simp: group_facts)
    have st: "(fst c)[nxt - 1 := (fst c ! (nxt - 1))\<lparr>succ_tail := t - 1\<rparr>] ! s = fst c ! s"
      using False s by simp
    have same: "(snd c)[t - 1 := (snd c ! (t - 1))\<lparr>next_succ := 0\<rparr>] ! i = snd c ! i" if "i \<in> set (group es0 s t)" for i
      using ni that by (metis nth_list_update_neq)
    show ?thesis
      unfolding e st
    proof (rule chained_cong [OF ch])
      show "group es0 s t \<noteq> [] \<Longrightarrow> True \<Longrightarrow>
          next_succ ((snd c)[t - 1 := (snd c ! (t - 1))\<lparr>next_succ := 0\<rparr>] ! last (group es0 s t)) = 0 \<and>
          succ_tail (fst c ! s) = last (group es0 s t)"
        using ch False s same [of "last (group es0 s t)"] unfolding chained_def by simp
    qed (use same in \<open>auto dest: in_set_butlastD\<close>)
  qed
qed

lemma end_chain_keeps:
  "length (fst (end_chain c nxt t)) = length (fst c)"
  "same_data (snd c) (snd (end_chain c nxt t))"
  "succ (fst (end_chain c nxt t) ! s) = succ (fst c ! s)"
proof -
  show "succ (fst (end_chain c nxt t) ! s) = succ (fst c ! s)"
    unfolding end_chain_def by (cases "s = nxt - 1"; cases "nxt - 1 < length (fst c)") (simp_all add: list_update_beyond)
qed (simp_all add: end_chain_def same_data_update [simplified])

lemma group_above:
  assumes "sources_ok es n" "1 < t" "t \<le> length es" "e_src (es ! (t - 1)) < s"
  shows "group es s t = []"
proof -
  have "e_src (es ! i) \<noteq> s" if "1 \<le> i" "i < t" for i
  proof -
    have "e_src (es ! i) \<le> e_src (es ! (t - 1))" using assms that by (intro sources_mono) auto
    with assms(4) show ?thesis by simp
  qed
  then show ?thesis unfolding group_def filter_empty_conv by auto
qed

lemma end_chain_zero:
  assumes "chain_inv es0 n t c nxt" "1 \<le> t" "t \<le> length es0"
  shows "next_succ (snd (end_chain c nxt t) ! 0) = 0"
proof -
  have "next_succ (snd c ! 0) = 0" "nxt \<noteq> 0 \<Longrightarrow> t - 1 \<noteq> 0"
    using assms by (auto simp: chain_inv_def split: if_splits)
  then show ?thesis unfolding end_chain_def by (auto simp: nth_list_update_neq)
qed

lemma chain_step_new:
  assumes inv: "chain_inv es0 n t c nxt" and t: "1 \<le> t" "t < length es0" and ok: "sources_ok es0 n"
    and s: "s = e_src (es0 ! t)" "s + 1 \<noteq> nxt"
    and c': "c' = end_chain ((fst c)[s := (fst c ! s)\<lparr>succ := t\<rparr>], snd c) nxt t"
  shows "nxt \<le> s \<and> s < n \<and> chain_inv es0 n (Suc t) (reset_states (fst c') nxt s, snd c') (s + 1)"
proof -
  have nxt: "nxt = (if t = 1 then 0 else Suc (e_src (es0 ! (t - 1))))" using inv by (simp add: chain_inv_def)
  have le: "nxt \<le> s"
  proof (cases "t = 1")
    case False
    then have "e_src (es0 ! (t - 1)) \<le> s" using ok t unfolding s(1) by (intro sources_mono) auto
    then show ?thesis using False nxt s(2) by auto
  qed (simp add: nxt)
  have sn: "s < n" using ok t unfolding s(1) by (intro sources_less)
  define c1 where "c1 = ((fst c)[s := (fst c ! s)\<lparr>succ := t\<rparr>], snd c)"
  have inv1: "chain_inv es0 n t c1 nxt"
    using inv le unfolding chain_inv_def c1_def by (auto simp: nth_list_update_neq)
  have len: "length (fst c') = n" "same_data es0 (snd c')"
    using end_chain_keeps [of c1 nxt t] inv1 same_data_trans unfolding c' c1_def [symmetric] chain_inv_def by auto
  have "chained (snd c') (group es0 u (Suc t)) (reset_states (fst c') nxt s ! u) (u + 1 < s + 1)" if u: "u < s + 1" for u
  proof -
    consider "u < nxt" | "nxt \<le> u" "u < s" | "u = s" using u by linarith
    then show ?thesis
    proof cases
      case 1
      then have "chained (snd c') (group es0 u t) (fst c' ! u) True"
        using end_chain_closes [OF inv1 t(1) less_imp_le [OF t(2)] ok] unfolding c' c1_def by blast
      then show ?thesis
        using 1 le sn s len t by (simp add: group_Suc reset_states_nth)
    next
      case 2
      then have "group es0 u t = []"
        using group_above [OF ok _ less_imp_le [OF t(2)], of u] t(1) nxt by (cases "t = 1") (auto simp: group_def)
      then show ?thesis using 2 s len sn t by (simp add: group_Suc reset_states_nth chained_def)
    next
      case 3
      have g: "group es0 s t = []"
        using group_above [OF ok _ less_imp_le [OF t(2)], of s] t(1) nxt le by (cases "t = 1") (auto simp: group_def)
      have "succ (fst c' ! s) = t"
        using end_chain_keeps(3) [of c1 nxt t s] sn inv unfolding c' c1_def [symmetric]
        by (auto simp: c1_def chain_inv_def)
      then show ?thesis using 3 g s len sn t by (simp add: group_Suc reset_states_nth chained_def)
    qed
  qed
  then show ?thesis
    using le sn len end_chain_zero [OF inv1 t(1) less_imp_le [OF t(2)]] t s(1) unfolding chain_inv_def
    by (simp add: c' c1_def)
qed

lemma chain_step_same:
  assumes inv: "chain_inv es0 n t c nxt" and t: "1 \<le> t" "t < length es0" and ok: "sources_ok es0 n"
    and s: "Suc (e_src (es0 ! t)) = nxt"
  shows "chain_inv es0 n (Suc t) (fst c, (snd c)[t - 1 := (snd c ! (t - 1))\<lparr>next_succ := t\<rparr>]) nxt"
proof -
  define s es' where "s = e_src (es0 ! t)" and "es' = (snd c)[t - 1 := (snd c ! (t - 1))\<lparr>next_succ := t\<rparr>]"
  have nxt: "nxt = Suc (e_src (es0 ! (t - 1)))" "2 \<le> t" using inv s t by (auto simp: chain_inv_def split: if_splits)
  then have t1: "1 \<le> t - 1" "Suc (t - 1) = t" "t - 1 < length es0" using t by auto
  have len: "length (snd c) = length es0" "length (fst c) = n" using inv unfolding chain_inv_def same_data_def by auto
  have same: "same_data es0 es'" unfolding es'_def using inv same_data_update same_data_trans unfolding chain_inv_def by blast
  have "chained es' (group es0 u (Suc t)) (fst c ! u) (u + 1 < nxt)" if u: "u < nxt" for u
  proof -
    have ch: "chained (snd c) (group es0 u t) (fst c ! u) (u + 1 < nxt)" using inv u unfolding chain_inv_def by blast
    show ?thesis
    proof (cases "u = s")
      case False
      then have ni: "t - 1 \<notin> set (group es0 u t)" and g: "group es0 u (Suc t) = group es0 u t"
        using nxt s t by (auto simp: group_facts s_def group_Suc)
      have same: "es' ! i = snd c ! i" if "i \<in> set (group es0 u t)" for i
        using ni that unfolding es'_def by (metis nth_list_update_neq)
      have "seg es' a (butlast (group es0 u t)) b = seg (snd c) a (butlast (group es0 u t)) b" for a b
        using same by (intro seg_cong) (auto dest: in_set_butlastD)
      then show ?thesis
        unfolding g using ch same [of "last (group es0 u t)"] unfolding chained_def by auto
    next
      case True
      then have us: "e_src (es0 ! (t - 1)) = u" "u + 1 = nxt" using nxt s by (auto simp: s_def)
      then have g: "group es0 u t = group es0 u (t - 1) @ [t - 1]" "group es0 u (Suc t) = group es0 u t @ [t]"
        using group_Suc [OF t1(1), of es0 u] group_Suc [OF t(1), of es0 u] t1(2) True by (simp_all add: s_def)
      have "t - 1 \<noteq> i" if "i \<in> set (group es0 u (t - 1))" for i using that by (auto simp: group_facts)
      then have "seg es' a (group es0 u (t - 1)) b = seg (snd c) a (group es0 u (t - 1)) b" for a b
        unfolding es'_def by (intro seg_cong) (simp add: nth_list_update_neq)
      then have "seg es' (succ (fst c ! u)) (group es0 u (t - 1)) (t - 1)"
        using ch g(1) unfolding chained_def by simp
      moreover have "next_succ (es' ! (t - 1)) = t" using len t1 by (simp add: es'_def)
      ultimately have "seg es' (succ (fst c ! u)) (group es0 u t) t" unfolding g(1) seg_append by auto
      then show ?thesis using us(2) g(2) unfolding chained_def by simp
    qed
  qed
  moreover have "next_succ (es' ! 0) = 0" using inv nxt(2) unfolding es'_def chain_inv_def by (simp add: nth_list_update_neq)
  ultimately show ?thesis
    using same len s t unfolding chain_inv_def es'_def by auto
qed

lemma chain_loop_inv:
  assumes "sources_ok es0 n" "chain_inv es0 n t c nxt" "1 \<le> t" "t \<le> length es0"
  shows "\<exists>c' nxt'. chain_loop [t..<length es0] c nxt = Some (c', nxt') \<and> chain_inv es0 n (length es0) c' nxt'"
  using assms(2-)
proof (induction "length es0 - t" arbitrary: t c nxt)
  case (Suc k)
  then have t: "1 \<le> t" "t < length es0" by auto
  then have u: "[t..<length es0] = t # [Suc t..<length es0]" by (simp add: upt_conv_Cons)
  have src: "e_src (snd c ! t) = e_src (es0 ! t)" and n: "length (fst c) = n"
    using Suc.prems(1) t unfolding chain_inv_def same_data_def by auto
  show ?case
  proof (cases "e_src (es0 ! t) + 1 = nxt")
    case True
    have "k = length es0 - Suc t" using Suc.hyps(2) by simp
    moreover have "chain_inv es0 n (Suc t) (fst c, (snd c)[t - 1 := (snd c ! (t - 1))\<lparr>next_succ := t\<rparr>]) nxt"
      using True by (intro chain_step_same [OF Suc.prems(1) t assms(1)]) simp
    ultimately show ?thesis
      unfolding u using Suc.hyps(1) [of "Suc t"] t True src by (simp add: Let_def)
  next
    case False
    define c' where "c' = end_chain ((fst c)[e_src (es0 ! t) := (fst c ! e_src (es0 ! t))\<lparr>succ := t\<rparr>], snd c) nxt t"
    note st = chain_step_new [OF Suc.prems(1) t assms(1) refl False c'_def]
    have "k = length es0 - Suc t" using Suc.hyps(2) by simp
    from Suc.hyps(1) [OF this conjunct2 [OF conjunct2 [OF st]]] t
    show ?thesis
      unfolding u using st False src n by (simp add: Let_def c'_def)
  qed
qed simp

lemma chain_edges_spec:
  assumes "edges g \<noteq> []" "next_succ (edges g ! 0) = 0" "killed_edge g = 0"
    and ok: "sources_ok (edges g) (length (states g))"
  shows "\<exists>g'. chain_edges g = Some g' \<and> wf_graph g' \<and> same_data (edges g) (edges g') \<and>
    length (states g') = length (states g) \<and> (\<forall>s. edges_of (edges g') s = group (edges g) s (length (edges g)))"
proof -
  define es n where "es = edges g" and "n = length (states g)"
  have len: "1 \<le> length es" using assms(1) by (cases "edges g") (auto simp: es_def)
  have "chain_inv es n 1 (states g, es) 0"
    using assms(2) by (simp add: chain_inv_def es_def n_def)
  from chain_loop_inv [OF ok [folded es_def n_def] this _ len]
  obtain c nxt where c: "chain_loop [1..<length es] (states g, es) 0 = Some (c, nxt)"
    "chain_inv es n (length es) c nxt" by auto
  define c' where "c' = end_chain c nxt (length es)"
  define g' where "g' = g\<lparr>states := reset_states (fst c') nxt n, edges := snd c'\<rparr>"
  have eq: "chain_edges g = Some g'"
    using c(1) by (simp add: chain_edges_def es_def n_def g'_def c'_def Let_def)
  have len': "length (fst c') = n" "same_data es (snd c')"
    using end_chain_keeps [of c nxt "length es"] c(2) same_data_trans unfolding c'_def chain_inv_def by auto
  have nxt: "nxt = (if length es = 1 then 0 else Suc (e_src (es ! (length es - 1))))"
    using c(2) by (simp add: chain_inv_def)
  have closed: "chained (snd c') (group es s (length es)) (reset_states (fst c') nxt n ! s) True" if s: "s < n" for s
  proof (cases "s < nxt")
    case True
    then show ?thesis
      using end_chain_closes [OF c(2) len order_refl ok [folded es_def n_def] True] s len'(1)
      by (simp add: c'_def reset_states_nth)
  next
    case False
    then have "group es s (length es) = []"
      using group_above [OF ok [folded es_def n_def] _ order_refl, of s] len nxt
      by (cases "length es = 1") (auto simp: group_def)
    then show ?thesis using False s len'(1) by (simp add: reset_states_nth chained_def)
  qed
  have zero: "next_succ (snd c' ! 0) = 0" unfolding c'_def by (rule end_chain_zero [OF c(2) len order_refl])
  text \<open>Every edge is live: its link leads to a later edge or to 0.\<close>
  have live: "\<not> is_dead (snd c') t" if t: "1 \<le> t" "t < length es" for t
  proof -
    define s where "s = e_src (es ! t)"
    have "s < n" unfolding s_def by (rule sources_less [OF ok [folded es_def n_def] t])
    note ch = closed [OF this]
    have mem: "t \<in> set (group es s (length es))" using t by (simp add: group_facts s_def)
    obtain ys zs where yz: "group es s (length es) = ys @ t # zs" using split_list [OF mem] by blast
    have d: "distinct (ys @ t # zs)" using group_facts(1) [of es s "length es"] yz by simp
    show ?thesis
    proof (cases zs)
      case Nil
      with ch yz t show ?thesis by (simp add: chained_def is_dead_def)
    next
      case (Cons z zs')
      with ch yz have sg: "seg (snd c') (succ (reset_states (fst c') nxt n ! s)) (ys @ t # butlast (z # zs')) (last (z # zs'))"
        by (simp add: chained_def butlast_append)
      then obtain v where "seg (snd c') v (t # butlast (z # zs')) (last (z # zs'))" unfolding seg_append by blast
      then have "next_succ (snd c' ! t) = z" by (cases zs') auto
      then show ?thesis using d Cons by (auto simp: is_dead_def)
    qed
  qed
  have of: "edges_of (snd c') s = group es s (length es)" for s
    using live len'(2) unfolding edges_of_def group_def same_data_def by (intro filter_cong) auto
  have "state_wf (snd c') s (reset_states (fst c') nxt n ! s)" if s: "s < n" for s
  proof (cases "group es s (length es) = []")
    case True
    then show ?thesis using closed [OF s] of by (simp add: state_wf_def chained_def)
  next
    case False
    then have g: "group es s (length es) = butlast (group es s (length es)) @ [last (group es s (length es))]" by simp
    show ?thesis
      using closed [OF s] False of [of s] seg_append [of "snd c'" _ "butlast (group es s (length es))" "[last (group es s (length es))]" 0]
      unfolding state_wf_def chained_def g [symmetric] by auto
  qed
  moreover have "filter (is_dead (snd c')) [1..<length (snd c')] = []"
    using live len'(2) unfolding same_data_def filter_empty_conv by auto
  moreover have "\<forall>t \<in> {1..<length (snd c')}. e_src (snd c' ! t) < n"
    using ok len'(2) unfolding same_data_def sources_ok_def es_def n_def by auto
  moreover have "snd c' \<noteq> []" using len len'(2) unfolding same_data_def by auto
  ultimately have "wf_graph g'"
    using assms(3) zero len'(1) unfolding wf_graph_def g'_def by simp
  moreover have "length (states g') = length (states g)" using len'(1) by (simp add: g'_def n_def)
  ultimately have "wf_graph g' \<and> length (states g') = length (states g)" by blast
  moreover have "same_data (edges g) (edges g') \<and> (\<forall>s. edges_of (edges g') s = group (edges g) s (length (edges g)))"
    using len'(2) of by (simp add: g'_def es_def)
  ultimately show ?thesis using eq by blast
qed

section \<open>Sorting and chaining\<close>

text \<open>What an edge says, links aside.\<close>

definition edge_view :: "'e edge_storage \<Rightarrow> nat \<times> nat \<times> 'e" where
  "edge_view e = (e_src e, e_dst e, e_data e)"

definition live_views :: "('s, 'e) digraph \<Rightarrow> (nat \<times> nat \<times> 'e) list" where
  "live_views g = map (\<lambda>t. edge_view (edges g ! t)) (all_edges g)"

text \<open>Strict weak orders.\<close>

definition weak_order :: "('a \<Rightarrow> 'a \<Rightarrow> bool) \<Rightarrow> bool" where
  "weak_order lt = ((\<forall>x y. lt x y \<longrightarrow> \<not> lt y x) \<and> (\<forall>x y z. \<not> lt x y \<and> \<not> lt y z \<longrightarrow> \<not> lt x z))"

lemma set_insert_by: "set (insert_by lt x ys) = insert x (set ys)"
  by (metis mset_insert_by set_mset_add_mset_insert set_mset_mset)

lemma sorted_sort_by:
  assumes "weak_order lt"
  shows "sorted_wrt (\<lambda>x y. \<not> lt y x) (sort_by lt xs)"
proof -
  have "sorted_wrt (\<lambda>x y. \<not> lt y x) (insert_by lt x ys)" if "sorted_wrt (\<lambda>x y. \<not> lt y x) ys" for x ys
    using that
  proof (induction ys)
    case (Cons y ys)
    show ?case
    proof (cases "lt y x")
      case True
      then have "\<not> lt x y" using assms unfolding weak_order_def by blast
      with True Cons show ?thesis by (simp add: set_insert_by)
    next
      case False
      then have "\<not> lt z x" if "z \<in> set ys" for z
      proof -
        have "\<not> lt z y" using Cons.prems that by simp
        with False show ?thesis using assms unfolding weak_order_def by blast
      qed
      with False Cons show ?thesis by simp
    qed
  qed simp
  then show ?thesis unfolding sort_by_def by (induction xs) auto
qed

lemma remove_dead_views:
  assumes "wf_graph g"
  shows "killed_edge (remove_dead_edges g) = 0" "states (remove_dead_edges g) = states g"
    "edges (remove_dead_edges g) \<noteq> []" "hd (edges (remove_dead_edges g)) = hd (edges g)"
    "map edge_view (tl (edges (remove_dead_edges g))) = live_views g"
proof -
  have ne: "edges g \<noteq> []" using assms unfolding wf_graph_def by blast
  have live: "all_edges g = filter (\<lambda>t. \<not> is_dead_edge g t) [1..<length (edges g)]"
    unfolding all_edges_live [OF assms] by (intro filter_cong) (auto simp: is_valid_edge_def is_dead_edge_def)
  show "map edge_view (tl (edges (remove_dead_edges g))) = live_views g"
  proof (cases "killed_edge g = 0")
    case True
    then have "filter (is_dead (edges g)) [1..<length (edges g)] = []" using assms unfolding wf_graph_def by simp
    then have "\<forall>t \<in> set [1..<length (edges g)]. \<not> is_dead (edges g) t" unfolding filter_empty_conv .
    then have all: "all_edges g = [1..<length (edges g)]"
      unfolding live is_dead_edge_def by (intro filter_True)
    have "tl (edges g) = map ((!) (edges g)) [1..<length (edges g)]"
      by (rule nth_equalityI) (simp_all add: nth_tl)
    then show ?thesis using True unfolding live_views_def all by (simp add: remove_dead_edges_def)
  next
    case False
    then show ?thesis by (simp add: remove_dead_edges_def live_views_def live comp_def)
  qed
qed (use assms in \<open>auto simp: remove_dead_edges_def wf_graph_def\<close>)

text \<open>Removing the dead edges, sorting by source first, and rebuilding the chains.\<close>

definition source_first :: "('e edge_storage \<Rightarrow> 'e edge_storage \<Rightarrow> bool) \<Rightarrow> bool" where
  "source_first lt = (weak_order lt \<and> (\<forall>a b. e_src a < e_src b \<longrightarrow> lt a b) \<and>
     (\<forall>a b a' b'. edge_view a = edge_view a' \<and> edge_view b = edge_view b' \<longrightarrow> lt a b = lt a' b'))"

lemma rebuild_spec:
  assumes wf: "wf_graph g" and lt: "source_first lt"
  obtains g' where "chain_edges (sort_edges lt (remove_dead_edges g)) = Some g'" "wf_graph g'"
    "length (states g') = length (states g)" "mset (live_views g') = mset (live_views g)"
    "killed_edge g' = 0"
    "sorted_wrt (\<lambda>i j. \<not> lt (edges g' ! j) (edges g' ! i)) [1..<length (edges g')]"
proof -
  define g0 g1 where "g0 = remove_dead_edges g" and "g1 = sort_edges lt g0"
  note g0 = remove_dead_views [OF wf, folded g0_def]
  have e1: "edges g1 = hd (edges g) # sort_by lt (tl (edges g0))" "states g1 = states g" "killed_edge g1 = 0"
    using g0(1,2,4) by (simp_all add: g1_def sort_edges_def)
  have wo: "weak_order lt" using lt unfolding source_first_def by blast
  have so: "sorted_wrt (\<lambda>x y. \<not> lt y x) (tl (edges g1))"
    unfolding e1(1) list.sel by (rule sorted_sort_by [OF wo])
  then have sorted: "\<not> lt (edges g1 ! j) (edges g1 ! i)" if "1 \<le> i" "i < j" "j < length (edges g1)" for i j
  proof -
    have "i - 1 < j - 1" "j - 1 < length (tl (edges g1))" using that by simp_all
    note sorted_wrt_nth_less [OF so this]
    moreover have "tl (edges g1) ! (i - 1) = edges g1 ! i" "tl (edges g1) ! (j - 1) = edges g1 ! j"
      using that by (simp_all add: nth_tl)
    ultimately show ?thesis by simp
  qed
  have views: "mset (map edge_view (tl (edges g1))) = mset (live_views g)"
    unfolding g0(5) [symmetric] e1(1) by simp
  have src: "e_src (edges g1 ! i) < length (states g)" if "1 \<le> i" "i < length (edges g1)" for i
  proof -
    have "tl (edges g1) ! (i - 1) = edges g1 ! i" "i - 1 < length (tl (edges g1))" using that by (auto simp: nth_tl)
    then have "edge_view (edges g1 ! i) \<in> set (map edge_view (tl (edges g1)))" by (metis image_eqI list.set_map nth_mem)
    then have "edge_view (edges g1 ! i) \<in> set (live_views g)" using views by (metis set_mset_mset)
    then obtain t where "t \<in> set (all_edges g)" "edge_view (edges g1 ! i) = edge_view (edges g ! t)"
      unfolding live_views_def by auto
    then show ?thesis
      using wf unfolding wf_graph_def all_edges_live [OF wf]
      by (auto simp: is_valid_edge_def edge_view_def)
  qed
  have "sources_ok (edges g1) (length (states g1))"
    unfolding sources_ok_def
  proof (intro conjI allI impI)
    fix i j assume ij: "1 \<le> i \<and> i \<le> j \<and> j < length (edges g1)"
    show "e_src (edges g1 ! i) \<le> e_src (edges g1 ! j)"
    proof (cases "i = j")
      case False
      with ij have "\<not> lt (edges g1 ! j) (edges g1 ! i)" by (intro sorted) auto
      then show ?thesis using lt unfolding source_first_def by (metis not_le)
    qed simp
  qed (use src e1(2) in simp)
  moreover have "next_succ (edges g1 ! 0) = 0" using wf unfolding wf_graph_def e1 by (cases "edges g") auto
  moreover have "edges g1 \<noteq> []" unfolding e1(1) by simp
  ultimately obtain g' where g': "chain_edges g1 = Some g'" "wf_graph g'" "same_data (edges g1) (edges g')"
    "length (states g') = length (states g1)" "\<forall>s. edges_of (edges g') s = group (edges g1) s (length (edges g1))"
    using chain_edges_spec [of g1, OF _ _ e1(3)] by blast
  have view: "edge_view (edges g' ! t) = edge_view (edges g1 ! t)" if "t < length (edges g1)" for t
    using that g'(3) unfolding same_data_def edge_view_def by auto
  have len: "length (edges g') = length (edges g1)" using g'(3) unfolding same_data_def by auto
  have live: "all_edges g' = [1..<length (edges g')]"
  proof -
    have "is_valid_edge g' t" if "1 \<le> t" "t < length (edges g')" for t
    proof -
      have "t \<in> set (edges_of (edges g') (e_src (edges g1 ! t)))"
        using that len unfolding spec [OF g'(5)] by (simp add: group_facts)
      then show ?thesis by (simp add: edges_of_facts(5) is_valid_edge_def)
    qed
    then show ?thesis unfolding all_edges_live [OF g'(2)] by (intro filter_True) simp
  qed
  have "live_views g' = map (\<lambda>t. edge_view (edges g1 ! t)) [1..<length (edges g1)]"
    unfolding live_views_def live len using view by (intro map_cong) auto
  also have "\<dots> = map edge_view (tl (edges g1))"
    by (rule nth_equalityI) (simp_all add: nth_tl)
  finally have "mset (live_views g') = mset (live_views g)" using views by simp
  moreover have "killed_edge g' = 0"
  proof -
    have "filter (is_dead (edges g')) [1..<length (edges g')] = []"
      using live unfolding all_edges_live [OF g'(2)] filter_id_conv filter_empty_conv
      by (simp add: is_valid_edge_def)
    then show ?thesis using g'(2) unfolding wf_graph_def by simp
  qed
  moreover have "sorted_wrt (\<lambda>i j. \<not> lt (edges g' ! j) (edges g' ! i)) [1..<length (edges g')]"
  proof -
    have "\<not> lt (edges g' ! j) (edges g' ! i)" if "1 \<le> i" "i < j" "j < length (edges g')" for i j
    proof -
      have "edge_view (edges g' ! j) = edge_view (edges g1 ! j)" "edge_view (edges g' ! i) = edge_view (edges g1 ! i)"
        using view that len by simp_all
      then have "lt (edges g' ! j) (edges g' ! i) = lt (edges g1 ! j) (edges g1 ! i)"
        using lt unfolding source_first_def by blast
      then show ?thesis using sorted that len by simp
    qed
    then show ?thesis by (simp add: sorted_wrt_iff_nth_less)
  qed
  ultimately show thesis
    using that [of g'] g'(1,2,4) e1(2) unfolding g1_def g0_def by simp
qed

section \<open>Removing states\<close>

lemma kill_chain_spec:
  assumes "seg es t xs 0" "distinct xs" "\<And>x. x \<in> set xs \<Longrightarrow> 0 < x \<and> x < length es" "length xs \<le> n"
  shows "length (kill_chain n es t) = length es \<and>
    (\<forall>i < length es. kill_chain n es t ! i = (if i \<in> set xs then (es ! i)\<lparr>next_succ := i\<rparr> else es ! i))"
  using assms
proof (induction xs arbitrary: es t n)
  case Nil
  then show ?case by (cases n) auto
next
  case (Cons x xs)
  obtain m where n: "n = Suc m" using Cons.prems(4) by (cases n) auto
  define es1 where "es1 = es[x := (es ! x)\<lparr>next_succ := x\<rparr>]"
  have t: "t = x" "x \<noteq> 0" "x < length es" "x \<notin> set xs" using Cons.prems by auto
  have "seg es1 (next_succ (es ! x)) xs 0 = seg es (next_succ (es ! x)) xs 0"
    using t(4) unfolding es1_def by (intro seg_cong) (metis nth_list_update_neq)
  then have "seg es1 (next_succ (es ! x)) xs 0" using Cons.prems(1) by simp
  moreover have "distinct xs" "length xs \<le> m" using Cons.prems(2,4) n by auto
  moreover have "\<And>y. y \<in> set xs \<Longrightarrow> 0 < y \<and> y < length es1" using Cons.prems(3) by (simp add: es1_def)
  ultimately have "length (kill_chain m es1 (next_succ (es ! x))) = length es1 \<and>
      (\<forall>i < length es1. kill_chain m es1 (next_succ (es ! x)) ! i =
        (if i \<in> set xs then (es1 ! i)\<lparr>next_succ := i\<rparr> else es1 ! i))"
    by (intro Cons.IH) blast+
  then show ?case
    using t by (auto simp: n es1_def nth_list_update)
qed

text \<open>The number of kept states below a state is its new number.\<close>

definition rank :: "(nat \<Rightarrow> bool) \<Rightarrow> nat \<Rightarrow> nat" where
  "rank keep s = length (filter keep [0..<s])"

definition kept_number :: "(nat \<Rightarrow> bool) \<Rightarrow> nat \<Rightarrow> nat option" where
  "kept_number keep s = (if keep s then Some (rank keep s) else None)"

lemma rank_Suc: "rank keep (Suc s) = rank keep s + (if keep s then 1 else 0)"
  by (simp add: rank_def)

lemma rank_le: "rank keep s \<le> s"
  by (induction s) (auto simp: rank_Suc rank_def)

lemma rank_mono: "s \<le> u \<Longrightarrow> rank keep s \<le> rank keep u"
  by (induction rule: dec_induct) (simp_all add: rank_Suc)

lemma rank_less: "keep s \<Longrightarrow> s < u \<Longrightarrow> rank keep s < rank keep u"
  using rank_mono [of "Suc s" u keep] by (simp add: rank_Suc)

lemma rank_inj: "keep s \<Longrightarrow> keep u \<Longrightarrow> rank keep s = rank keep u \<Longrightarrow> s = u"
  using rank_less [of keep s u] rank_less [of keep u s] by (metis less_irrefl linorder_neqE_nat)

definition shift_inv :: "(nat \<Rightarrow> bool) \<Rightarrow> ('s, 'e) digraph \<Rightarrow> nat \<Rightarrow> 's state_storage list \<times> 'e edge_storage list \<Rightarrow> bool" where
  "shift_inv keep g k c =
    (length (fst c) = length (states g) \<and> length (snd c) = length (edges g) \<and>
     (\<forall>j < length (states g). k \<le> j \<longrightarrow> fst c ! j = states g ! j) \<and>
     (\<forall>s < k. keep s \<longrightarrow> fst c ! rank keep s = states g ! s) \<and>
     (\<forall>i < length (edges g). snd c ! i =
       (if e_src (edges g ! i) < k \<and> \<not> keep (e_src (edges g ! i)) \<and> \<not> is_dead (edges g) i
        then (edges g ! i)\<lparr>next_succ := i\<rparr> else edges g ! i)))"

lemma shift_step_keep:
  assumes "shift_inv keep g k (ss, es)" "k < length (states g)" "keep k"
  shows "shift_inv keep g (Suc k) (if rank keep k = k then ss else ss[rank keep k := ss ! k], es)"
proof -
  define ss' where "ss' = ss[rank keep k := ss ! k]"
  have eq: "(if rank keep k = k then ss else ss[rank keep k := ss ! k]) = ss'" by (simp add: ss'_def)
  have r: "rank keep k \<le> k" by (rule rank_le)
  have len: "length ss' = length (states g)" using assms(1) by (simp add: ss'_def shift_inv_def)
  have new: "ss' ! rank keep k = states g ! k"
    using assms(1,2) r by (simp add: ss'_def shift_inv_def)
  have above: "ss' ! j = states g ! j" if "j < length (states g)" "Suc k \<le> j" for j
    using assms(1) r that unfolding ss'_def shift_inv_def by (simp add: nth_list_update_neq)
  have below: "ss' ! rank keep s = states g ! s" if "s < k" "keep s" for s
    using assms(1) that rank_less [of keep s k] unfolding ss'_def shift_inv_def by (simp add: nth_list_update_neq)
  have "\<forall>s < Suc k. keep s \<longrightarrow> ss' ! rank keep s = states g ! s" using new below by (simp add: less_Suc_eq all_conj_distrib)
  moreover have "es ! i = (if e_src (edges g ! i) < Suc k \<and> \<not> keep (e_src (edges g ! i)) \<and> \<not> is_dead (edges g) i
        then (edges g ! i)\<lparr>next_succ := i\<rparr> else edges g ! i)" if "i < length (edges g)" for i
    using assms(1,3) that unfolding shift_inv_def by (auto simp: less_Suc_eq)
  ultimately show ?thesis
    using assms(1) len above unfolding eq shift_inv_def by simp
qed

lemma shift_step_drop:
  assumes wf: "wf_graph g" and inv: "shift_inv keep g k (ss, es)" and k: "k < length (states g)" "\<not> keep k"
  shows "shift_inv keep g (Suc k) (ss, kill_chain (length es) es (succ (ss ! k)))"
proof -
  let ?xs = "edges_of (edges g) k"
  have ss: "ss ! k = states g ! k" and len: "length es = length (edges g)"
    and es: "\<And>i. i < length (edges g) \<Longrightarrow> es ! i =
       (if e_src (edges g ! i) < k \<and> \<not> keep (e_src (edges g ! i)) \<and> \<not> is_dead (edges g) i
        then (edges g ! i)\<lparr>next_succ := i\<rparr> else edges g ! i)"
    using inv k(1) by (auto simp: shift_inv_def)
  have "seg (edges g) (succ (states g ! k)) ?xs 0"
    using wf k(1) unfolding wf_graph_def state_wf_def by blast
  moreover have "seg es (succ (ss ! k)) ?xs 0 = seg (edges g) (succ (ss ! k)) ?xs 0"
    using es by (intro seg_cong) (auto simp: edges_of_facts(5))
  ultimately have "seg es (succ (ss ! k)) ?xs 0" using ss by simp
  from kill_chain_spec [OF this edges_of_facts(1)]
  have kill: "length (kill_chain (length es) es (succ (ss ! k))) = length es \<and>
    (\<forall>i < length es. kill_chain (length es) es (succ (ss ! k)) ! i =
      (if i \<in> set ?xs then (es ! i)\<lparr>next_succ := i\<rparr> else es ! i))"
    using edges_of_facts(3) [of "edges g" k] len by (auto simp: edges_of_facts(5))
  have "i \<in> set ?xs \<longleftrightarrow> e_src (edges g ! i) = k \<and> \<not> is_dead (edges g) i" if "i < length (edges g)" for i
    using that wf unfolding wf_graph_def edges_of_facts(5) by (auto simp: is_dead_def intro: gr0I)
  then show ?thesis
    using inv kill len es k(2) unfolding shift_inv_def
    by (auto simp: less_Suc_eq)
qed

lemma shift_states_spec:
  assumes "wf_graph g" "shift_inv keep g k c" "k \<le> length (states g)"
  shows "shift_inv keep g (length (states g)) (shift_states [k..<length (states g)] (kept_number keep) c)"
  using assms(2,3)
proof (induction "length (states g) - k" arbitrary: k c)
  case (Suc m)
  then have k: "k < length (states g)" "[k..<length (states g)] = k # [Suc k..<length (states g)]"
    by (auto simp: upt_conv_Cons)
  obtain ss es where c: "c = (ss, es)" by fastforce
  have m: "m = length (states g) - Suc k" using Suc.hyps(2) by simp
  show ?case
  proof (cases "keep k")
    case True
    then show ?thesis
      using Suc.hyps(1) [OF m shift_step_keep] Suc.prems(1) k by (simp add: c kept_number_def)
  next
    case False
    then show ?thesis
      using Suc.hyps(1) [OF m shift_step_drop [OF assms(1)]] Suc.prems(1) k by (simp add: c kept_number_def)
  qed
qed simp

text \<open>Renumbering the elements of an interval that satisfy a predicate.\<close>

lemma filter_positions:
  "map (\<lambda>t. length (filter P [1..<t]) + 1) (filter P [1..<m]) = [1..<Suc (length (filter P [1..<m]))]"
proof (induction m)
  case (Suc m)
  show ?case
  proof (cases "1 \<le> m")
    case True
    then have "[1..<Suc m] = [1..<m] @ [m]" by simp
    then show ?thesis using Suc.IH by simp
  qed simp
qed simp

lemma defrag_states_spec:
  fixes g :: "('s, 'e) digraph"
  assumes wf: "wf_graph g"
    and used: "used = rank keep (length (states g))" and g': "g' = defrag_states (kept_number keep) used g"
  shows "wf_graph g'" "length (states g') = used" "killed_edge g' = 0"
    and "\<And>s. s < length (states g) \<Longrightarrow> keep s \<Longrightarrow>
      s_data (states g' ! rank keep s) = s_data (states g ! s) \<and>
      map (\<lambda>t. edge_view (edges g' ! t)) (out g' (rank keep s)) =
        map (\<lambda>t. (rank keep s, case kept_number keep (e_dst (edges g ! t)) of Some d \<Rightarrow> d | None \<Rightarrow> 2 ^ 32 - 1,
          e_data (edges g ! t))) (out g s)"
proof -
  define n es0 where "n = length (states g)" and "es0 = edges g"
  obtain ss es where sh: "shift_states [0..<n] (kept_number keep) (states g, es0) = (ss, es)" by fastforce
  have "shift_inv keep g 0 (states g, edges g)" by (simp add: shift_inv_def)
  from shift_states_spec [OF wf this] have inv: "shift_inv keep g n (ss, es)"
    using sh by (simp add: n_def es0_def)
  define ren where "ren = (\<lambda>s. case kept_number keep s of Some d \<Rightarrow> d | None \<Rightarrow> 2 ^ 32 - (1 :: nat))"
  define L where "L = filter (\<lambda>t. \<not> is_dead es t) [1..<length es]"
  define P where "P = (\<lambda>t. \<not> is_dead es t)"
  define f where "f = (\<lambda>e :: 'e edge_storage. e\<lparr>e_src := ren (e_src e), e_dst := ren (e_dst e), next_succ := newidx es (next_succ e)\<rparr>)"
  have len: "length es = length es0" "length ss = n" using inv by (simp_all add: shift_inv_def es0_def n_def)
  have un: "used \<le> n" using used rank_le by (simp add: n_def)
  have E': "edges g' = hd es # map f (map ((!) es) L)"
    and S': "states g' = map (\<lambda>st. st\<lparr>succ := newidx es (succ st), succ_tail := newidx es (succ_tail st)\<rparr>) (take used ss)"
    and K': "killed_edge g' = 0"
    unfolding g' defrag_states_def using sh by (simp_all add: Let_def n_def es0_def L_def f_def ren_def)
  show "killed_edge g' = 0" by (rule K')
  show SL: "length (states g') = used" using un len by (simp add: S')
  have wf': "es0 \<noteq> []" "next_succ (es0 ! 0) = 0" "\<And>s. s < n \<Longrightarrow> state_wf es0 s (states g ! s)"
    "\<And>t. 1 \<le> t \<Longrightarrow> t < length es0 \<Longrightarrow> \<not> is_dead es0 t \<Longrightarrow> e_src (es0 ! t) < n"
    using wf unfolding wf_graph_def es0_def n_def by auto
  have es: "es ! i = (if e_src (es0 ! i) < n \<and> \<not> keep (e_src (es0 ! i)) \<and> \<not> is_dead es0 i
      then (es0 ! i)\<lparr>next_succ := i\<rparr> else es0 ! i)" if "i < length es0" for i
    using inv that by (simp add: shift_inv_def es0_def)
  have live: "\<not> is_dead es t \<longleftrightarrow> \<not> is_dead es0 t \<and> keep (e_src (es0 ! t))" if "1 \<le> t" "t < length es0" for t
    using es [OF that(2)] wf'(4) [OF that] by (auto simp: is_dead_def)
  have same: "es ! t = es0 ! t" if "t \<in> set L" for t
    using that live [of t] es [of t] len by (auto simp: L_def is_dead_def)
  have pos: "map (newidx es) L = [1..<Suc (length L)]"
  proof -
    have "map (newidx es) L = map (\<lambda>t. length (filter P [1..<t]) + 1) L"
      by (intro map_cong refl) (auto simp: L_def newidx_def P_def)
    also have "\<dots> = [1..<Suc (length L)]" unfolding L_def P_def [symmetric] by (rule filter_positions)
    finally show ?thesis .
  qed
  have at: "edges g' ! newidx es t = f (es0 ! t)" "1 \<le> newidx es t" "newidx es t \<le> length L" if tL: "t \<in> set L" for t
  proof -
    obtain i where i: "t = L ! i" "i < length L" using tL unfolding in_set_conv_nth by blast
    have "map (newidx es) L ! i = newidx es t" unfolding i(1) by (rule nth_map [OF i(2)])
    moreover have "[1..<Suc (length L)] ! i = Suc i" using i(2) by (simp del: upt_Suc)
    ultimately have n: "newidx es t = Suc i" unfolding pos by simp
    have "edges g' ! Suc i = f (es ! t)" unfolding E' i(1) using i(2) by simp
    then show "edges g' ! newidx es t = f (es0 ! t)" "1 \<le> newidx es t" "newidx es t \<le> length L"
      using i(2) unfolding n same [OF tL] by simp_all
  qed
  have inj: "inj_on (newidx es) (set L)"
  proof -
    have "distinct (map (newidx es) L)" unfolding pos by simp
    then show ?thesis by (simp add: distinct_map)
  qed
  have kept: "edges_of es0 s = filter (\<lambda>t. e_src (es0 ! t) = s) L" if "keep s" for s
    unfolding edges_of_def L_def filter_filter len(1) using live that by (intro filter_cong) auto
  have nxt: "next_succ (es0 ! t) = 0 \<or> (next_succ (es0 ! t) \<in> set L \<and> next_succ (es0 ! t) \<noteq> t)" if "t \<in> set L" for t
  proof -
    define s where "s = e_src (es0 ! t)"
    have t: "1 \<le> t" "t < length es0" "\<not> is_dead es0 t" "keep s" using that live len by (auto simp: L_def s_def)
    then have mem: "t \<in> set (edges_of es0 s)" by (simp add: edges_of_facts(5) s_def)
    obtain ys zs where yz: "edges_of es0 s = ys @ t # zs" using split_list [OF mem] by blast
    have "seg es0 (succ (states g ! s)) (ys @ t # zs) 0"
      using wf'(3) [of s] wf'(4) [of t] t yz unfolding state_wf_def s_def by auto
    then have "seg es0 (next_succ (es0 ! t)) zs 0" by (auto simp: seg_append)
    then have n: "next_succ (es0 ! t) = (if zs = [] then 0 else hd zs)" by (rule seg_hd)
    have "hd zs \<in> set (edges_of es0 s)" if "zs \<noteq> []" using hd_in_set [OF that] yz by auto
    then have "zs \<noteq> [] \<Longrightarrow> hd zs \<in> set L" using kept [OF t(4)] by auto
    with n t(3) show ?thesis by (auto simp: is_dead_def)
  qed
  have zero: "newidx es 0 = 0" by (simp add: newidx_def)
  have lenE: "length (edges g') = Suc (length L)" by (simp add: E')
  have alive: "\<not> is_dead (edges g') i" if i: "1 \<le> i" "i < length (edges g')" for i
  proof -
    have "i \<in> set (map (newidx es) L)" unfolding pos using i lenE by (auto simp del: upt_Suc)
    then obtain t where t: "t \<in> set L" "i = newidx es t" by auto
    have "next_succ (edges g' ! i) = newidx es (next_succ (es0 ! t))" using at(1) [OF t(1)] t(2) by (simp add: f_def)
    then show ?thesis using nxt [OF t(1)] i t inj zero by (auto simp: is_dead_def inj_on_def)
  qed
  have of': "edges_of (edges g') (rank keep s) = map (newidx es) (edges_of es0 s)" if s: "keep s" for s
  proof -
    have "edges_of (edges g') (rank keep s) = filter (\<lambda>i. e_src (edges g' ! i) = rank keep s) [1..<Suc (length L)]"
      unfolding edges_of_def lenE using alive lenE by (intro filter_cong) auto
    also have "\<dots> = map (newidx es) (filter (\<lambda>t. e_src (edges g' ! newidx es t) = rank keep s) L)"
      unfolding pos [symmetric] filter_map comp_def by simp
    also have "filter (\<lambda>t. e_src (edges g' ! newidx es t) = rank keep s) L = filter (\<lambda>t. e_src (es0 ! t) = s) L"
    proof (intro filter_cong refl)
      fix t assume t: "t \<in> set L"
      then have "keep (e_src (es0 ! t))" using live len by (auto simp: L_def)
      then show "(e_src (edges g' ! newidx es t) = rank keep s) = (e_src (es0 ! t) = s)"
        using at(1) [OF t] s rank_inj [of keep] by (auto simp: f_def ren_def kept_number_def)
    qed
    finally show ?thesis using kept [OF s] by simp
  qed
  have segm: "seg (edges g') (newidx es t) (map (newidx es) xs) 0" if "seg es0 t xs 0" "set xs \<subseteq> set L" for t xs
    using that
  proof (induction xs arbitrary: t)
    case (Cons x xs)
    then show ?case using at(1) [of x] by (simp add: f_def)
  qed (simp add: zero)
  have st: "states g' ! rank keep s = (states g ! s)\<lparr>succ := newidx es (succ (states g ! s)),
      succ_tail := newidx es (succ_tail (states g ! s))\<rparr>" "rank keep s < used" if s: "s < n" "keep s" for s
  proof -
    show r: "rank keep s < used" using rank_less [of keep s n] s used by (simp add: n_def)
    have "ss ! rank keep s = states g ! s" using inv s by (simp add: shift_inv_def)
    then show "states g' ! rank keep s = (states g ! s)\<lparr>succ := newidx es (succ (states g ! s)),
      succ_tail := newidx es (succ_tail (states g ! s))\<rparr>" using r un len by (simp add: S')
  qed
  have sw: "state_wf (edges g') (rank keep s) (states g' ! rank keep s)" if s: "s < n" "keep s" for s
  proof -
    have "state_wf es0 s (states g ! s)" by (rule wf'(3) [OF s(1)])
    moreover have "set (edges_of es0 s) \<subseteq> set L" using kept [OF s(2)] by auto
    ultimately show ?thesis
      using segm of' [OF s(2)] st(1) [OF s] zero unfolding state_wf_def by (simp add: last_map)
  qed
  have onto: "\<exists>s < n. keep s \<and> d = rank keep s" if "d < used" for d
    using that unfolding used n_def [symmetric]
  proof (induction n)
    case (Suc n)
    then show ?case by (cases "d < rank keep n") (auto simp: rank_Suc less_Suc_eq split: if_splits)
  qed (simp add: rank_def)
  show wfg: "wf_graph g'"
    unfolding wf_graph_def
  proof (intro conjI allI impI ballI)
    show "edges g' \<noteq> []" by (simp add: E')
    have "hd es = es0 ! 0"
      using es [of 0] wf'(1,2) len by (cases es; cases es0) (auto simp: is_dead_def)
    then show "next_succ (edges g' ! 0) = 0" using wf'(2) by (simp add: E')
    show "state_wf (edges g') d (states g' ! d)" if "d < length (states g')" for d
      using onto [of d] sw that SL by auto
    show "e_src (edges g' ! i) < length (states g')" if i: "i \<in> {1..<length (edges g')}" for i
    proof -
      have "i \<in> set (map (newidx es) L)" unfolding pos using i lenE by (auto simp del: upt_Suc)
      then obtain t where t: "t \<in> set L" "i = newidx es t" by auto
      then have "1 \<le> t" "t < length es0" "\<not> is_dead es0 t" "keep (e_src (es0 ! t))" using live len by (auto simp: L_def)
      with at(1) [OF t(1)] t(2) st(2) wf'(4) show ?thesis by (simp add: f_def ren_def kept_number_def SL)
    qed
    have "filter (is_dead (edges g')) [1..<length (edges g')] = []"
      unfolding filter_empty_conv using alive by simp
    then show "killed_edge g' = length (filter (is_dead (edges g')) [1..<length (edges g')])" using K' by simp
  qed
  show "s_data (states g' ! rank keep s) = s_data (states g ! s) \<and>
      map (\<lambda>t. edge_view (edges g' ! t)) (out g' (rank keep s)) =
        map (\<lambda>t. (rank keep s, case kept_number keep (e_dst (edges g ! t)) of Some d \<Rightarrow> d | None \<Rightarrow> 2 ^ 32 - 1,
          e_data (edges g ! t))) (out g s)" if s: "s < length (states g)" "keep s" for s
  proof
    show "s_data (states g' ! rank keep s) = s_data (states g ! s)" using st(1) s by (simp add: n_def)
    have o: "out g' (rank keep s) = map (newidx es) (edges_of es0 s)"
      using out_edges_of [OF wfg, of "rank keep s"] st(2) [of s] s SL of' [OF s(2)] by (simp add: n_def)
    have "edge_view (edges g' ! newidx es t) = (rank keep s, ren (e_dst (es0 ! t)), e_data (es0 ! t))"
      if "t \<in> set (edges_of es0 s)" for t
    proof -
      have "t \<in> set L" "e_src (es0 ! t) = s" using that kept [OF s(2)] by auto
      then show ?thesis using at(1) s(2) by (simp add: f_def edge_view_def ren_def kept_number_def)
    qed
    then show "map (\<lambda>t. edge_view (edges g' ! t)) (out g' (rank keep s)) =
        map (\<lambda>t. (rank keep s, case kept_number keep (e_dst (edges g ! t)) of Some d \<Rightarrow> d | None \<Rightarrow> 2 ^ 32 - 1,
          e_data (edges g ! t))) (out g s)"
      unfolding o out_edges_of [OF wf s(1)] es0_def ren_def by simp
  qed
qed

text \<open>
  Property C19: removing the dead edges, sorting the others by a strict weak order that compares
  sources first, and rebuilding the chains gives a well-formed graph with the same states and the
  same edges, up to their order, which is then that of the sort.
\<close>

theorem graph_rebuild:
  assumes "wf_graph g" "source_first lt"
  shows "\<exists>g'. chain_edges (sort_edges lt (remove_dead_edges g)) = Some g' \<and> wf_graph g' \<and>
    length (states g') = length (states g) \<and> mset (live_views g') = mset (live_views g) \<and>
    killed_edge g' = 0 \<and>
    (\<forall>i j. 1 \<le> i \<and> i < j \<and> j < length (edges g') \<longrightarrow> \<not> lt (edges g' ! j) (edges g' ! i))"
proof -
  obtain g' where g': "chain_edges (sort_edges lt (remove_dead_edges g)) = Some g'" "wf_graph g'"
    "length (states g') = length (states g)" "mset (live_views g') = mset (live_views g)" "killed_edge g' = 0"
    "sorted_wrt (\<lambda>i j. \<not> lt (edges g' ! j) (edges g' ! i)) [1..<length (edges g')]"
    by (rule rebuild_spec [OF assms])
  have "\<not> lt (edges g' ! j) (edges g' ! i)" if "1 \<le> i" "i < j" "j < length (edges g')" for i j
    using sorted_wrt_nth_less [OF g'(6), of "i - 1" "j - 1"] that by simp
  with g' show ?thesis by blast
qed

lemma source_first_src: "source_first (\<lambda>a b. e_src a < e_src b)"
  unfolding source_first_def weak_order_def edge_view_def by auto

theorem graph_rebuild_witness:
  "\<exists>g'. chain_edges (sort_edges (\<lambda>a b. e_src a < e_src b) (remove_dead_edges sample_graph)) = Some g' \<and>
    wf_graph g' \<and> length (states g') = 2"
  using graph_rebuild [OF wf_sample_graph(1) source_first_src] wf_sample_graph(2) by auto

text \<open>
  Property C20: \<open>defrag_states\<close> with the renumbering that drops the states that are not kept gives a
  well-formed graph whose states are the kept ones, in order and with their data; the edges of a
  kept state are listed in the same order with the same data and renumbered ends.
\<close>

theorem graph_defrag:
  assumes "wf_graph g" "s < length (states g)" "keep s"
  shows "let g' = defrag_states (kept_number keep) (rank keep (length (states g))) g in
    wf_graph g' \<and> length (states g') = length (filter keep [0..<length (states g)]) \<and>
    s_data (states g' ! rank keep s) = s_data (states g ! s) \<and>
    map (\<lambda>t. edge_view (edges g' ! t)) (out g' (rank keep s)) =
      map (\<lambda>t. (rank keep s, case kept_number keep (e_dst (edges g ! t)) of Some d \<Rightarrow> d | None \<Rightarrow> 2 ^ 32 - 1,
        e_data (edges g ! t))) (out g s)"
  using defrag_states_spec [OF assms(1) refl refl] assms(2,3)
  unfolding Let_def rank_def [of keep "length (states g)", symmetric] by blast

theorem graph_defrag_witness:
  "let g' = defrag_states (kept_number (\<lambda>s. s = 1)) 1 sample_graph in
    wf_graph g' \<and> map (\<lambda>t. edge_view (edges g' ! t)) (out g' 0) = [(0, 2 ^ 32 - 1, 11)]"
proof -
  have "rank (\<lambda>s. s = 1) (length (states sample_graph)) = 1" "rank (\<lambda>s. s = 1) 1 = 0"
    unfolding wf_sample_graph(2) by code_simp+
  moreover have "map (\<lambda>t. (e_dst (edges sample_graph ! t), e_data (edges sample_graph ! t))) (out sample_graph 1) = [(0, 11)]"
    by code_simp
  ultimately show ?thesis
    using graph_defrag [OF wf_sample_graph(1), of 1 "\<lambda>s. s = 1"] wf_sample_graph(2)
    by (auto simp: Let_def kept_number_def)
qed

end
