(* ===== verification/Twa.thy ===== *)
theory Twa
  imports DiGraphRebuild AccCond AccQuery
begin

unbundle bit_operations_syntax

text \<open>
  Automata (twa/twa.hh, twa/twagraph.hh): a graph whose edges carry a condition and an acceptance
  mark, an initial state, an acceptance condition and properties that are known, refuted or
  unknown.  A condition is a BDD in the code; here it is the set of letters (valuations of the
  propositions) that it denotes, on which the BDD operations are the set operations and equality of
  BDDs is equality.  Paths and languages are in theory TwaLang.
\<close>

section \<open>Representation\<close>

datatype twa_error =
    Acc_error acc_error
  | No_state                   \<comment> \<open>\<open>automaton has no state at all\<close>\<close>
  | Nonexisting_state          \<comment> \<open>\<open>set_init_state\<close> and \<open>set_univ_init_state\<close>\<close>
  | Not_state_based            \<comment> \<open>\<open>state_acc_sets\<close> and \<open>state_is_accepting\<close>\<close>
  | Alternating_automaton      \<comment> \<open>an algorithm that needs existential automata\<close>
  | Different_dicts            \<comment> \<open>the arguments do not share their \<open>bdd_dict\<close>\<close>
  | Not_deterministic          \<comment> \<open>\<open>product_xor\<close> and \<open>product_xnor\<close>\<close>
  | Undefined                  \<comment> \<open>behaviour that C++ leaves undefined\<close>

record ('l, 'm) edge_label =
  cond :: "'l set"
  acc :: 'm

record bprop =
  state_based_acc :: trival
  inherently_weak :: trival
  weak :: trival
  terminal :: trival
  universal :: trival
  unambiguous :: trival
  stutter_invariant :: trival
  very_weak :: trival
  semi_deterministic :: trival
  complete_prop :: trival

record ('l, 'm) twa =
  graph :: "(unit, ('l, 'm) edge_label) digraph"
  init_number :: nat
  twa_acc :: "'m acc_cond"
  props :: bprop
  dict :: nat
  aps :: "string list"

type_synonym ('l, 'n) twa_graph = "('l, 'n mark_t) twa"

definition no_props :: bprop where
  "no_props = \<lparr>state_based_acc = maybe_value, inherently_weak = maybe_value, weak = maybe_value,
     terminal = maybe_value, universal = maybe_value, unambiguous = maybe_value,
     stutter_invariant = maybe_value, very_weak = maybe_value, semi_deterministic = maybe_value,
     complete_prop = maybe_value\<rparr>"

text \<open>An automaton without states; its acceptance condition is \<open>t\<close> with no sets.\<close>

definition make_twa_graph :: "nat \<Rightarrow> ('l, 'n::len) twa_graph" where
  "make_twa_graph d = \<lparr>graph = digraph0 \<lparr>cond = {}, acc = 0\<rparr>, init_number = 0,
     twa_acc = \<lparr>num_sets = 0, all_sets = 0, get_acceptance = code_t, uses_fin_acceptance = False\<rparr>,
     props = no_props, dict = d, aps = []\<rparr>"

definition register_ap :: "string \<Rightarrow> ('l, 'n::len) twa_graph \<Rightarrow> ('l, 'n) twa_graph" where
  "register_ap f A = (if f \<in> set (aps A) then A else A\<lparr>aps := aps A @ [f]\<rparr>)"

definition copy_ap_of :: "('l, 'n::len) twa_graph \<Rightarrow> ('l, 'n) twa_graph \<Rightarrow> ('l, 'n) twa_graph" where
  "copy_ap_of A B = fold register_ap (aps B) A"

section \<open>Acceptance\<close>

fun lift_acc :: "acc_error + 'a \<Rightarrow> twa_error + 'a" where
  "lift_acc (Inl e) = Inl (Acc_error e)"
| "lift_acc (Inr x) = Inr x"

definition twa_num_sets :: "('l, 'n::len) twa_graph \<Rightarrow> nat" where
  "twa_num_sets A = num_sets (twa_acc A)"

definition twa_set_acceptance :: "('l, 'n::len) twa_graph \<Rightarrow> nat \<Rightarrow> 'n acc_code \<Rightarrow> twa_error + ('l, 'n) twa_graph" where
  "twa_set_acceptance A num c = bind_sum (lift_acc (acc_cond num c)) (\<lambda>a. Inr (A\<lparr>twa_acc := a\<rparr>))"

definition copy_acceptance_of :: "('l, 'n::len) twa_graph \<Rightarrow> ('l, 'n) twa_graph \<Rightarrow> ('l, 'n) twa_graph" where
  "copy_acceptance_of A B = A\<lparr>twa_acc := twa_acc B\<rparr>"

definition twa_set_generalized_buchi :: "('l, 'n::len) twa_graph \<Rightarrow> nat \<Rightarrow> twa_error + ('l, 'n) twa_graph" where
  "twa_set_generalized_buchi A num = bind_sum (lift_acc (generalized_buchi num)) (twa_set_acceptance A num)"

definition twa_set_generalized_co_buchi :: "('l, 'n::len) twa_graph \<Rightarrow> nat \<Rightarrow> twa_error + ('l, 'n) twa_graph" where
  "twa_set_generalized_co_buchi A num =
    bind_sum (lift_acc (generalized_co_buchi num)) (twa_set_acceptance A num)"

text \<open>\<open>set_buchi\<close> and \<open>set_co_buchi\<close> return the mark of the only set, which is \<open>1\<close>.\<close>

definition set_buchi :: "('l, 'n::len) twa_graph \<Rightarrow> twa_error + ('n mark_t \<times> ('l, 'n) twa_graph)" where
  "set_buchi A = bind_sum (lift_acc buchi) (\<lambda>c. bind_sum (twa_set_acceptance A 1 c)
     (\<lambda>A. bind_sum (lift_acc (mark_t [0])) (\<lambda>m. Inr (m, A))))"

definition set_co_buchi :: "('l, 'n::len) twa_graph \<Rightarrow> twa_error + ('n mark_t \<times> ('l, 'n) twa_graph)" where
  "set_co_buchi A = bind_sum (lift_acc cobuchi) (\<lambda>c. bind_sum (twa_set_acceptance A 1 c)
     (\<lambda>A. bind_sum (lift_acc (mark_t [0])) (\<lambda>m. Inr (m, A))))"

section \<open>Properties\<close>

text \<open>
  Setting a property also sets those it implies.  \<open>if (val)\<close> tests for \<open>yes\<close> and \<open>if (!val)\<close>
  for \<open>no\<close>.
\<close>

definition set_state_acc :: "trival \<Rightarrow> bprop \<Rightarrow> bprop" where
  "set_state_acc val p = p\<lparr>state_based_acc := val\<rparr>"

definition set_inherently_weak :: "trival \<Rightarrow> bprop \<Rightarrow> bprop" where
  "set_inherently_weak val p =
    (let p = p\<lparr>inherently_weak := val\<rparr> in
     if is_true (trival_not val) then p\<lparr>weak := val, terminal := val, very_weak := val\<rparr> else p)"

definition set_terminal :: "trival \<Rightarrow> bprop \<Rightarrow> bprop" where
  "set_terminal val p =
    (let p = p\<lparr>terminal := val\<rparr> in if is_true val then p\<lparr>weak := val, inherently_weak := val\<rparr> else p)"

definition set_weak :: "trival \<Rightarrow> bprop \<Rightarrow> bprop" where
  "set_weak val p =
    (let p = p\<lparr>weak := val\<rparr>; p = (if is_true val then p\<lparr>inherently_weak := val\<rparr> else p)
     in if is_true (trival_not val) then p\<lparr>terminal := val, very_weak := val\<rparr> else p)"

definition set_very_weak :: "trival \<Rightarrow> bprop \<Rightarrow> bprop" where
  "set_very_weak val p =
    (let p = p\<lparr>very_weak := val\<rparr> in if is_true val then p\<lparr>inherently_weak := val, weak := val\<rparr> else p)"

definition set_complete :: "trival \<Rightarrow> bprop \<Rightarrow> bprop" where
  "set_complete val p = p\<lparr>complete_prop := val\<rparr>"

definition set_universal :: "trival \<Rightarrow> bprop \<Rightarrow> bprop" where
  "set_universal val p =
    (let p = p\<lparr>universal := val\<rparr> in
     if is_true val then p\<lparr>semi_deterministic := val, unambiguous := val\<rparr> else p)"

definition set_unambiguous :: "trival \<Rightarrow> bprop \<Rightarrow> bprop" where
  "set_unambiguous val p =
    (let p = p\<lparr>unambiguous := val\<rparr> in if is_true (trival_not val) then p\<lparr>universal := val\<rparr> else p)"

definition set_semi_deterministic :: "trival \<Rightarrow> bprop \<Rightarrow> bprop" where
  "set_semi_deterministic val p =
    (let p = p\<lparr>semi_deterministic := val\<rparr> in if is_true (trival_not val) then p\<lparr>universal := val\<rparr> else p)"

definition set_stutter_invariant :: "trival \<Rightarrow> bprop \<Rightarrow> bprop" where
  "set_stutter_invariant val p = p\<lparr>stutter_invariant := val\<rparr>"

definition prop_state_acc :: "('l, 'n::len) twa_graph \<Rightarrow> trival" where
  "prop_state_acc A = (if twa_num_sets A = 0 then trival_of_bool True else state_based_acc (props A))"

definition is_sba :: "('l, 'n::len) twa_graph \<Rightarrow> trival" where
  "is_sba A = trival_and (prop_state_acc A) (trival_of_bool (is_buchi (twa_acc A)))"

record prop_set =
  ps_state_based :: bool
  ps_inherently_weak :: bool
  ps_deterministic :: bool
  ps_improve_det :: bool
  ps_complete :: bool
  ps_stutter_inv :: bool

definition prop_set_all :: prop_set where
  "prop_set_all = \<lparr>ps_state_based = True, ps_inherently_weak = True, ps_deterministic = True,
     ps_improve_det = True, ps_complete = True, ps_stutter_inv = True\<rparr>"

definition prop_set_none :: prop_set where
  "prop_set_none = \<lparr>ps_state_based = False, ps_inherently_weak = False, ps_deterministic = False,
     ps_improve_det = False, ps_complete = False, ps_stutter_inv = False\<rparr>"

definition prop_copy :: "('l, 'n::len) twa_graph \<Rightarrow> prop_set \<Rightarrow> bprop \<Rightarrow> bprop" where
  "prop_copy other s p =
    (let q = props other; yes = trival_of_bool True;
         p = (if ps_state_based s then set_state_acc (prop_state_acc other) p else p);
         p = (if ps_inherently_weak s
              then set_inherently_weak (inherently_weak q) (set_very_weak (very_weak q)
                     (set_weak (weak q) (set_terminal (terminal q) p))) else p);
         p = (if ps_deterministic s
              then set_unambiguous (unambiguous q) (set_semi_deterministic (semi_deterministic q)
                     (set_universal (universal q) p))
              else if ps_improve_det s
              then (if is_true (universal q) then set_universal yes p
                    else let p = (if is_true (semi_deterministic q) then set_semi_deterministic yes p else p)
                         in (if is_true (unambiguous q) then set_unambiguous yes p else p))
              else p);
         p = (if ps_complete s then set_complete (complete_prop q) p else p)
     in (if ps_stutter_inv s then set_stutter_invariant (stutter_invariant q) p else p))"

definition prop_keep :: "prop_set \<Rightarrow> bprop \<Rightarrow> bprop" where
  "prop_keep s p =
    (let maybe = trival_maybe;
         p = (if \<not> ps_state_based s then set_state_acc maybe p else p);
         p = (if \<not> ps_inherently_weak s
              then set_inherently_weak maybe (set_very_weak maybe (set_weak maybe (set_terminal maybe p))) else p);
         p = (if \<not> ps_deterministic s
              then let p = (if \<not> (ps_improve_det s \<and> is_true (universal p)) then set_universal maybe p else p);
                       p = (if \<not> (ps_improve_det s \<and> is_true (semi_deterministic p))
                            then set_semi_deterministic maybe p else p)
                   in (if \<not> (ps_improve_det s \<and> is_true (unambiguous p)) then set_unambiguous maybe p else p)
              else p);
         p = (if \<not> ps_complete s then set_complete maybe p else p)
     in (if \<not> ps_stutter_inv s then set_stutter_invariant maybe p else p))"

definition prop_reset :: "bprop \<Rightarrow> bprop" where
  "prop_reset p = prop_keep prop_set_none p"

abbreviation update_props :: "(bprop \<Rightarrow> bprop) \<Rightarrow> ('l, 'n::len) twa_graph \<Rightarrow> ('l, 'n) twa_graph" where
  "update_props f A \<equiv> A\<lparr>props := f (props A)\<rparr>"

definition twa_copy :: "('l, 'n::len) twa_graph \<Rightarrow> prop_set \<Rightarrow> ('l, 'n) twa_graph" where
  "twa_copy other s =
    (let A = (make_twa_graph (dict other))\<lparr>graph := graph other, init_number := init_number other\<rparr>;
         A = copy_ap_of (copy_acceptance_of A other) other
     in update_props (prop_copy other s) A)"

section \<open>States and edges\<close>

definition is_univ_dest :: "nat \<Rightarrow> bool" where
  "is_univ_dest s \<longleftrightarrow> univ_bit \<le> s"

definition set_init_state :: "('l, 'n::len) twa_graph \<Rightarrow> nat \<Rightarrow> twa_error + ('l, 'n) twa_graph" where
  "set_init_state A s =
    (if \<not> is_univ_dest s \<and> num_states (graph A) \<le> s
        \<or> is_univ_dest s \<and> length (dests (graph A)) \<le> 2 + compl32 s
     then Inl Nonexisting_state else Inr (A\<lparr>init_number := s\<rparr>))"

definition set_univ_init_state :: "('l, 'n::len) twa_graph \<Rightarrow> nat list \<Rightarrow> twa_error + ('l, 'n) twa_graph" where
  "set_univ_init_state A ds =
    (if list_ex (\<lambda>d. num_states (graph A) \<le> d) ds then Inl Nonexisting_state
     else case new_univ_dests (graph A) ds of (g, s) \<Rightarrow> Inr (A\<lparr>graph := g, init_number := s\<rparr>))"

definition get_init_state_number :: "('l, 'n::len) twa_graph \<Rightarrow> twa_error + nat" where
  "get_init_state_number A = (if num_states (graph A) = 0 then Inl No_state else Inr (init_number A))"

definition twa_new_state :: "('l, 'n::len) twa_graph \<Rightarrow> ('l, 'n) twa_graph \<times> nat" where
  "twa_new_state A = (case new_state (graph A) () of (g, s) \<Rightarrow> (A\<lparr>graph := g\<rparr>, s))"

definition twa_new_states :: "('l, 'n::len) twa_graph \<Rightarrow> nat \<Rightarrow> ('l, 'n) twa_graph \<times> nat" where
  "twa_new_states A n = (case new_states (graph A) n () of (g, s) \<Rightarrow> (A\<lparr>graph := g\<rparr>, s))"

definition twa_new_edge :: "('l, 'n::len) twa_graph \<Rightarrow> nat \<Rightarrow> nat \<Rightarrow> 'l set \<Rightarrow> 'n mark_t \<Rightarrow> ('l, 'n) twa_graph \<times> nat" where
  "twa_new_edge A src dst c m =
    (case new_edge (graph A) src dst \<lparr>cond = c, acc = m\<rparr> of (g, t) \<Rightarrow> (A\<lparr>graph := g\<rparr>, t))"

definition new_acc_edge :: "('l, 'n::len) twa_graph \<Rightarrow> nat \<Rightarrow> nat \<Rightarrow> 'l set \<Rightarrow> bool \<Rightarrow> ('l, 'n) twa_graph \<times> nat" where
  "new_acc_edge A src dst c b =
    (if b then twa_new_edge A src dst c (all_sets (twa_acc A)) else twa_new_edge A src dst c 0)"

definition twa_new_univ_edge ::
    "('l, 'n::len) twa_graph \<Rightarrow> nat \<Rightarrow> nat list \<Rightarrow> 'l set \<Rightarrow> 'n mark_t \<Rightarrow> ('l, 'n) twa_graph \<times> nat" where
  "twa_new_univ_edge A src ds c m =
    (case new_univ_edge (graph A) src ds \<lparr>cond = c, acc = m\<rparr> of (g, t) \<Rightarrow> (A\<lparr>graph := g\<rparr>, t))"

abbreviation edge :: "('l, 'n::len) twa_graph \<Rightarrow> nat \<Rightarrow> ('l, 'n mark_t) edge_label edge_storage" where
  "edge A t \<equiv> edges (graph A) ! t"

abbreviation e_cond :: "('l, 'm) edge_label edge_storage \<Rightarrow> 'l set" where
  "e_cond e \<equiv> cond (e_data e)"

abbreviation e_acc :: "('l, 'm) edge_label edge_storage \<Rightarrow> 'm" where
  "e_acc e \<equiv> acc (e_data e)"

text \<open>The marks of a state are those of its first edge.\<close>

definition state_acc_sets :: "('l, 'n::len) twa_graph \<Rightarrow> nat \<Rightarrow> twa_error + 'n mark_t" where
  "state_acc_sets A s =
    (if \<not> is_true (prop_state_acc A) then Inl Not_state_based
     else case out (graph A) s of [] \<Rightarrow> Inr 0 | t # _ \<Rightarrow> Inr (e_acc (edge A t)))"

definition state_is_accepting :: "('l, 'n::len) twa_graph \<Rightarrow> nat \<Rightarrow> twa_error + bool" where
  "state_is_accepting A s =
    (if \<not> is_true (prop_state_acc A) then Inl Not_state_based
     else case out (graph A) s of
       [] \<Rightarrow> Inr False | t # _ \<Rightarrow> Inr (cond_accepting (twa_acc A) (e_acc (edge A t))))"

text \<open>
  \<open>operator==\<close> compares the vectors of edges with \<open>std::equal\<close>, which reads the second vector
  as far as the first one goes.
\<close>

fun equal_ranges :: "('a \<Rightarrow> 'a \<Rightarrow> bool) \<Rightarrow> 'a list \<Rightarrow> 'a list \<Rightarrow> twa_error + bool" where
  "equal_ranges same [] ys = Inr True"
| "equal_ranges same (x # xs) [] = Inl Undefined"
| "equal_ranges same (x # xs) (y # ys) = (if same x y then equal_ranges same xs ys else Inr False)"

definition edge_eq :: "('l, 'n mark_t) edge_label edge_storage \<Rightarrow> ('l, 'n mark_t) edge_label edge_storage \<Rightarrow> bool" where
  "edge_eq a b \<longleftrightarrow> e_src a = e_src b \<and> e_dst a = e_dst b \<and> e_data a = e_data b"

definition twa_eq :: "('l, 'n::len) twa_graph \<Rightarrow> ('l, 'n) twa_graph \<Rightarrow> twa_error + bool" where
  "twa_eq A B =
    (let g = graph A; h = graph B in
     if num_states g \<noteq> num_states h \<or> num_edges g \<noteq> num_edges h \<or> twa_num_sets A \<noteq> twa_num_sets B
        \<or> length (dests g) \<noteq> length (dests h) then Inr False
     else bind_sum (equal_ranges edge_eq (tl (edges g)) (tl (edges h)))
       (\<lambda>b. if \<not> b then Inr False else equal_ranges (=) (dests g) (dests h)))"

definition twa_apply_permutation :: "('l, 'n::len) twa_graph \<Rightarrow> nat list \<Rightarrow> ('l, 'n) twa_graph" where
  "twa_apply_permutation A permut =
    A\<lparr>graph := (graph A)\<lparr>edges := map (\<lambda>t. if is_valid_edge (graph A) t \<and> t \<noteq> 0
         then (edge A t)\<lparr>e_data := (e_data (edge A t))\<lparr>acc := apply_permutation (e_acc (edge A t)) permut\<rparr>\<rparr>
         else edge A t) [0..<length (edges (graph A))]\<rparr>\<rparr>"

end
