(* ===== verification/TwaLang.thy ===== *)
theory TwaLang
  imports Twa
begin

unbundle bit_operations_syntax

text \<open>
  The language of an automaton without universal branching: paths, the mark seen infinitely often
  along a path, acceptance; simulations between transition relations carry paths over.
\<close>

section \<open>Paths\<close>

definition delta :: "('s, ('l, 'm) edge_label) digraph \<Rightarrow> nat \<Rightarrow> 'l \<Rightarrow> 'm \<Rightarrow> nat \<Rightarrow> bool" where
  "delta g p a m q \<longleftrightarrow> p < num_states g \<and>
    (\<exists>t \<in> set (out g p). e_dst (edges g ! t) = q \<and> a \<in> e_cond (edges g ! t) \<and> e_acc (edges g ! t) = m)"

definition is_path :: "('p \<Rightarrow> 'l \<Rightarrow> 'm \<Rightarrow> 'p \<Rightarrow> bool) \<Rightarrow> (nat \<Rightarrow> 'l) \<Rightarrow> (nat \<Rightarrow> 'p) \<Rightarrow> (nat \<Rightarrow> 'm) \<Rightarrow> bool" where
  "is_path d w p m \<longleftrightarrow> (\<forall>i. d (p i) (w i) (m i) (p (Suc i)))"

definition inf_mark :: "(nat \<Rightarrow> 'n::len mark_t) \<Rightarrow> 'n mark_t" where
  "inf_mark run = horner_sum of_bool 2 (map (inf_often run) [0..<LENGTH('n)])"

definition accepts :: "('l, 'n::len) twa_graph \<Rightarrow> (nat \<Rightarrow> 'l) \<Rightarrow> bool" where
  "accepts A w \<longleftrightarrow> (\<exists>p m. p 0 = init_number A \<and> is_path (delta (graph A)) w p m \<and>
     cond_accepting (twa_acc A) (inf_mark m))"

text \<open>Well-formed automata without universal branching.\<close>

definition wf_acc :: "'n::len cond \<Rightarrow> bool" where
  "wf_acc a \<longleftrightarrow> (\<exists>t. get_acceptance a = enc t \<and> tree_ok t \<and> plain t)"

definition wf_twa_graph :: "(unit, ('l, 'm) edge_label) digraph \<Rightarrow> bool" where
  "wf_twa_graph g \<longleftrightarrow> wf_graph g \<and> is_existential g \<and>
     (\<forall>t. 0 < t \<and> is_valid_edge g t \<longrightarrow> e_dst (edges g ! t) < num_states g)"

definition wf_twa :: "('l, 'n::len) twa_graph \<Rightarrow> bool" where
  "wf_twa A \<longleftrightarrow> wf_twa_graph (graph A) \<and> init_number A < num_states (graph A)"

lemma out_valid:
  "wf_graph g \<Longrightarrow> s < num_states g \<Longrightarrow>
    t \<in> set (out g s) \<longleftrightarrow> 0 < t \<and> is_valid_edge g t \<and> e_src (edges g ! t) = s"
  by (auto simp: out_edges_of num_states_def edges_of_facts is_valid_edge_def)

lemma delta_valid:
  "wf_graph g \<Longrightarrow> delta g p a m q \<longleftrightarrow>
    (\<exists>t. 0 < t \<and> is_valid_edge g t \<and> e_src (edges g ! t) = p \<and> e_dst (edges g ! t) = q \<and>
       a \<in> e_cond (edges g ! t) \<and> e_acc (edges g ! t) = m)"
proof -
  assume wf: "wf_graph g"
  then have "e_src (edges g ! t) < num_states g" if "0 < t" "is_valid_edge g t" for t
    using that unfolding wf_graph_def num_states_def is_valid_edge_def by simp
  then show ?thesis unfolding delta_def using out_valid [OF wf] by blast
qed

lemma delta_states: "wf_twa_graph g \<Longrightarrow> delta g p a m q \<Longrightarrow> p < num_states g \<and> q < num_states g"
  unfolding wf_twa_graph_def by (auto simp: delta_valid) (auto simp: wf_graph_def num_states_def is_valid_edge_def)

lemma bit_inf_mark [simp]: "bit (inf_mark run) i \<longleftrightarrow> i < LENGTH('n) \<and> inf_often run i"
  for run :: "nat \<Rightarrow> 'n::len mark_t"
  by (auto simp: inf_mark_def bit_horner_sum_bit_word_iff)

lemma inf_often_len: "inf_often (run :: nat \<Rightarrow> 'n::len mark_t) i \<Longrightarrow> i < LENGTH('n)"
  unfolding inf_often_def by (metis (mono_tags, lifting) bit_imp_le_length mem_Collect_eq finite.emptyI subsetI finite_subset)

lemma bit_inf_mark_iff: "bit (inf_mark run) i \<longleftrightarrow> inf_often run i"
  using inf_often_len by auto

text \<open>Acceptance of a path in terms of the formula.\<close>

lemma wf_acc_accepting:
  assumes "get_acceptance a = enc t" "tree_ok t" "plain t"
  shows "cond_accepting a (inf_mark m) \<longleftrightarrow> run_sat m t"
  unfolding cond_accepting_def assms(1) run_sat_def
  using accepting_enc [OF assms(2,3), of "inf_mark m" "inf_often_neg m"]
  by (simp add: bit_inf_mark_iff fun_eq_iff [symmetric]) (simp add: bit_inf_mark_iff [abs_def])

section \<open>Lists of edges\<close>

text \<open>
  The edges leaving a state, in the order of its chain, as destinations with labels: what the
  operations on a graph do to the paths is read off these lists.
\<close>

definition succs :: "('s, 'e) digraph \<Rightarrow> nat \<Rightarrow> (nat \<times> 'e) list" where
  "succs g s = map (\<lambda>t. (e_dst (edges g ! t), e_data (edges g ! t))) (out g s)"

lemma delta_succs:
  "delta g p a m q \<longleftrightarrow> p < num_states g \<and> (\<exists>x. (q, x) \<in> set (succs g p) \<and> a \<in> cond x \<and> acc x = m)"
  unfolding delta_def succs_def by auto

lemma wf_succs:
  "wf_twa_graph g \<longleftrightarrow> wf_graph g \<and> is_existential g \<and>
     (\<forall>s < num_states g. \<forall>(q, x) \<in> set (succs g s). q < num_states g)"
proof (cases "wf_graph g")
  case True
  have "e_src (edges g ! t) < num_states g" if "0 < t" "is_valid_edge g t" for t
    using that True unfolding wf_graph_def num_states_def is_valid_edge_def by simp
  then have "(\<forall>t. 0 < t \<and> is_valid_edge g t \<longrightarrow> e_dst (edges g ! t) < num_states g) \<longleftrightarrow>
      (\<forall>s < num_states g. \<forall>t \<in> set (out g s). e_dst (edges g ! t) < num_states g)"
    using out_valid [OF True] by blast
  then show ?thesis unfolding wf_twa_graph_def succs_def by auto
qed (simp add: wf_twa_graph_def)

lemma succs_less: "wf_twa_graph g \<Longrightarrow> s < num_states g \<Longrightarrow> q \<in> fst ` set (succs g s) \<Longrightarrow> q < num_states g"
  unfolding wf_succs by fastforce

lemma succs_of:
  "wf_graph g \<Longrightarrow> s < num_states g \<Longrightarrow>
    succs g s = map (\<lambda>t. (e_dst (edges g ! t), e_data (edges g ! t))) (edges_of (edges g) s)"
  by (simp add: succs_def out_edges_of num_states_def)

lemma succs_cong:
  assumes "wf_graph g" "wf_graph h" "s < num_states g" "s < num_states h"
    "edges_of (edges h) s = edges_of (edges g) s"
    "\<And>t. t \<in> set (edges_of (edges g) s) \<Longrightarrow> e_dst (edges h ! t) = e_dst (edges g ! t) \<and> e_data (edges h ! t) = e_data (edges g ! t)"
  shows "succs h s = succs g s"
  using assms by (simp add: succs_of)

lemma succs_new_states:
  assumes "wf_graph g"
  shows "wf_graph (fst (new_states g n d))" "num_states (fst (new_states g n d)) = num_states g + n"
    "snd (new_states g n d) = num_states g"
    "s < num_states g \<Longrightarrow> succs (fst (new_states g n d)) s = succs g s"
    "num_states g \<le> s \<Longrightarrow> s < num_states g + n \<Longrightarrow> succs (fst (new_states g n d)) s = []"
    "is_existential (fst (new_states g n d)) = is_existential g"
proof -
  let ?h = "fst (new_states g n d)"
  show wf: "wf_graph ?h" by (rule wf_new_states [OF assms])
  show n: "num_states ?h = num_states g + n" by (simp add: num_states_def new_states_edges)
  show "snd (new_states g n d) = num_states g" by (simp add: new_states_def num_states_def)
  show "succs ?h s = succs g s" if "s < num_states g"
    using that assms wf n by (intro succs_cong) (auto simp: new_states_edges)
  show "succs ?h s = []" if "num_states g \<le> s" "s < num_states g + n"
    using that assms wf n edges_of_new_state [OF assms, of s]
    by (simp add: succs_of new_states_edges num_states_def)
  show "is_existential ?h = is_existential g" by (simp add: is_existential_def new_states_def)
qed

lemma new_state_new_states: "new_state g d = new_states g 1 d"
  by (simp add: new_state_def new_states_def)

lemmas succs_new_state = succs_new_states [where n = 1, folded new_state_new_states]

lemma succs_new_edge:
  assumes "wf_graph g" "s < num_states g"
  shows "wf_graph (fst (new_edge g s d x))" "num_states (fst (new_edge g s d x)) = num_states g"
    "u < num_states g \<Longrightarrow> succs (fst (new_edge g s d x)) u = succs g u @ (if u = s then [(d, x)] else [])"
    "is_existential (fst (new_edge g s d x)) = is_existential g"
proof -
  let ?h = "fst (new_edge g s d x)"
  note sp = new_edge_spec [OF assms(1), of s d x, folded num_states_def, OF assms(2)]
  have ne: "edges g \<noteq> []" using assms(1) unfolding wf_graph_def by blast
  show wf: "wf_graph ?h" and n: "num_states ?h = num_states g" using sp by simp_all
  have data: "e_dst (edges ?h ! t) = e_dst (edges g ! t) \<and> e_data (edges ?h ! t) = e_data (edges g ! t)"
    if "t < length (edges g)" for t
    using sp(4) that unfolding same_edges_def by (auto simp: nth_append)
  have last: "e_dst (edges ?h ! length (edges g)) = d \<and> e_data (edges ?h ! length (edges g)) = x"
    using sp(4) unfolding same_edges_def by (auto simp: nth_append)
  show "succs ?h u = succs g u @ (if u = s then [(d, x)] else [])" if "u < num_states g"
    using that wf n assms data last by (simp add: succs_of sp(5) edges_of_facts(5))
  show "is_existential ?h = is_existential g"
    by (simp add: is_existential_def new_edge_def Let_def)
qed

lemma erase_loop_dests: "dests (erase_loop n P g k) = dests g"
  by (induction n P g k rule: erase_loop.induct) (auto simp: killer_erase_def Let_def)

lemma succs_erase_if:
  assumes "wf_graph g" "s < num_states g"
  shows "wf_graph (erase_if P g s)" "num_states (erase_if P g s) = num_states g"
    "u < num_states g \<Longrightarrow> succs (erase_if P g s) u = filter (\<lambda>(d, x). \<not> (u = s \<and> P d x)) (succs g u)"
    "is_existential (erase_if P g s) = is_existential g"
proof -
  let ?h = "erase_if P g s"
  note sp = erase_if_spec [OF assms(1), of s P, folded num_states_def, OF assms(2)]
  show wf: "wf_graph ?h" and n: "num_states ?h = num_states g" using sp by simp_all
  have data: "e_dst (edges ?h ! t) = e_dst (edges g ! t) \<and> e_data (edges ?h ! t) = e_data (edges g ! t)"
    if "t < length (edges g)" for t
    using sp(2) that unfolding same_data_def by auto
  show "succs ?h u = filter (\<lambda>(d, x). \<not> (u = s \<and> P d x)) (succs g u)" if "u < num_states g"
    using that wf n assms data
    by (auto simp: succs_of sp(4) filter_map edges_of_facts(5) intro!: map_cong filter_cong)
  show "is_existential ?h = is_existential g"
    by (simp add: is_existential_def erase_if_def erase_loop_dests)
qed

section \<open>Explicit automata\<close>

text \<open>An automaton given by its number of states, its initial state and its list of edges.\<close>

definition add_edges :: "(nat \<times> nat \<times> 'e) list \<Rightarrow> ('s, 'e) digraph \<Rightarrow> ('s, 'e) digraph" where
  "add_edges es g = fold (\<lambda>(s, d, x) g. fst (new_edge g s d x)) es g"

definition explicit_twa :: "nat \<Rightarrow> nat \<Rightarrow> 'n::len cond \<Rightarrow> (nat \<times> nat \<times> 'l set \<times> 'n mark_t) list \<Rightarrow> ('l, 'n) twa_graph" where
  "explicit_twa n i a es =
    (make_twa_graph 0)\<lparr>graph := add_edges (map (\<lambda>(s, d, c, m). (s, d, \<lparr>cond = c, acc = m\<rparr>)) es)
       (fst (new_states (digraph0 \<lparr>cond = {}, acc = 0\<rparr>) n ())), init_number := i, twa_acc := a\<rparr>"

lemma add_edges_spec:
  assumes "wf_graph g" "list_all (\<lambda>(s, d, x). s < num_states g) es"
  shows "wf_graph (add_edges es g)" "num_states (add_edges es g) = num_states g"
    "u < num_states g \<Longrightarrow> succs (add_edges es g) u = succs g u @ map snd (filter (\<lambda>e. fst e = u) es)"
    "is_existential (add_edges es g) = is_existential g"
  using assms
  by (induction es arbitrary: g) (auto simp: add_edges_def succs_new_edge)

lemma explicit_twa_spec:
  fixes es :: "(nat \<times> nat \<times> 'l set \<times> 'n::len mark_t) list"
  assumes "list_all (\<lambda>(s, d, c, m). s < n \<and> d < n) es" "i < n"
  shows "wf_twa (explicit_twa n i a es)" "num_states (graph (explicit_twa n i a es)) = n"
    "u < n \<Longrightarrow> succs (graph (explicit_twa n i a es)) u =
       map (\<lambda>(s, d, c, m). (d, \<lparr>cond = c, acc = m\<rparr>)) (filter (\<lambda>e. fst e = u) es)"
    "twa_acc (explicit_twa n i a es) = a" "init_number (explicit_twa n i a es) = i"
proof -
  define g0 :: "(unit, ('l, 'n mark_t) edge_label) digraph" where
    "g0 = fst (new_states (digraph0 \<lparr>cond = {}, acc = 0\<rparr>) n ())"
  define fs where "fs = map (\<lambda>(s, d, c, m). (s, d, \<lparr>cond = c, acc = m\<rparr>)) es"
  have g: "graph (explicit_twa n i a es) = add_edges fs g0" by (simp add: explicit_twa_def g0_def fs_def)
  have g0: "wf_graph g0" "num_states g0 = n" "\<And>u. u < n \<Longrightarrow> succs g0 u = []" "is_existential g0"
    unfolding g0_def using succs_new_states [OF wf_digraph0] by (auto simp: num_states_def digraph0_def is_existential_def)
  have fs: "list_all (\<lambda>(s, d, x). s < num_states g0) fs"
    using assms(1) unfolding g0(2) fs_def by (auto simp: list_all_iff)
  note sp = add_edges_spec [OF g0(1) fs]
  show n: "num_states (graph (explicit_twa n i a es)) = n" using sp(2) g0 g by simp
  show su: "succs (graph (explicit_twa n i a es)) u =
       map (\<lambda>(s, d, c, m). (d, \<lparr>cond = c, acc = m\<rparr>)) (filter (\<lambda>e. fst e = u) es)" if "u < n" for u
    using that sp(3) g0 g unfolding fs_def by (simp add: filter_map o_def case_prod_unfold)
  show "twa_acc (explicit_twa n i a es) = a" "init_number (explicit_twa n i a es) = i"
    by (simp_all add: explicit_twa_def)
  show "wf_twa (explicit_twa n i a es)"
    unfolding wf_twa_def wf_succs n using sp(1,4) g0(4) g su assms
    by (auto simp: list_all_iff explicit_twa_def)
qed

section \<open>Simulations\<close>

locale path_simulation =
  fixes d1 :: "'p \<Rightarrow> 'l \<Rightarrow> 'm \<Rightarrow> 'p \<Rightarrow> bool"
    and d2 :: "'q \<Rightarrow> 'l \<Rightarrow> 'n \<Rightarrow> 'q \<Rightarrow> bool"
    and R :: "'p \<Rightarrow> 'q \<Rightarrow> bool"
    and M :: "'m \<Rightarrow> 'n \<Rightarrow> bool"
  assumes step: "R p q \<Longrightarrow> d1 p a m p' \<Longrightarrow> \<exists>q' n. d2 q a n q' \<and> M m n \<and> R p' q'"
begin

lemma lift_path:
  assumes "is_path d1 w p m" "R (p 0) q0"
  shows "\<exists>q n. q 0 = q0 \<and> is_path d2 w q n \<and> (\<forall>i. R (p i) (q i) \<and> M (m i) (n i))"
proof -
  have "\<exists>q. \<forall>i. (R (p i) (q i) \<and> (i = 0 \<longrightarrow> q i = q0)) \<and> (\<exists>n. d2 (q i) (w i) n (q (Suc i)) \<and> M (m i) n)"
  proof (rule dependent_nat_choice)
    show "\<exists>q. R (p 0) q \<and> (0 = (0::nat) \<longrightarrow> q = q0)" using assms(2) by blast
    fix q i assume "R (p i) q \<and> (i = 0 \<longrightarrow> q = q0)"
    moreover have "d1 (p i) (w i) (m i) (p (Suc i))" using assms(1) by (simp add: is_path_def)
    ultimately show "\<exists>q'. (R (p (Suc i)) q' \<and> (Suc i = 0 \<longrightarrow> q' = q0)) \<and> (\<exists>n. d2 q (w i) n q' \<and> M (m i) n)"
      using step by (metis nat.distinct(1))
  qed
  then obtain q where q: "R (p i) (q i)" "i = 0 \<longrightarrow> q i = q0"
    "\<exists>n. d2 (q i) (w i) n (q (Suc i)) \<and> M (m i) n" for i by blast
  then obtain n where "\<forall>i. d2 (q i) (w i) (n i) (q (Suc i)) \<and> M (m i) (n i)" by metis
  with q show ?thesis unfolding is_path_def by blast
qed

end

end
