(* ===== verification/TwaPurge.thy ===== *)
theory TwaPurge
  imports TwaLang
begin

unbundle bit_operations_syntax

text \<open>
  Removal of states (twa/twagraph.cc): \<open>purge_unreachable_states\<close>, \<open>purge_dead_states\<close> and the
  renumbering \<open>defrag_states\<close> they use.  The named properties that \<open>defrag_states\<close> renumbers
  along are not modelled.
\<close>

section \<open>Renumbering\<close>

text \<open>
  \<open>newst\<close> gives the new number of each state, \<open>None\<close> standing for -1.  With universal
  branching, the destination groups are rebuilt first: each gets an entry at the end of \<open>newst\<close>, at
  which the edges point until the states are renumbered.  \<open>seen\<close> remembers the entry of each old
  group.
\<close>

type_synonym 'g fixer = "(('g \<times> (nat list \<rightharpoonup> nat)) \<times> nat option list) \<times> nat list"

definition no_group :: nat where
  "no_group = 2 ^ 32 - 1"

definition defrag_fixup :: "nat list \<Rightarrow> nat \<Rightarrow> ('s, 'e) digraph fixer \<Rightarrow> nat \<times> ('s, 'e) digraph fixer" where
  "defrag_fixup old_dests d st =
    (case st of (((g, uniq), newst), seen) \<Rightarrow>
       if \<not> is_univ_dest d then (d, st)
       else let i = compl32 d in
         if seen ! i \<noteq> no_group then (seen ! i, st)
         else let tmp = map the (filter (\<lambda>n. n \<noteq> None)
                  (map ((!) newst) (take (old_dests ! i) (drop (i + 1) old_dests)))) in
           if tmp = [] then (no_group, st)
           else case mapper_univ_dests g uniq tmp of
             (mapper, nd) \<Rightarrow> (length newst, ((mapper, newst @ [Some nd]), seen[i := length newst])))"

fun fixup_edges :: "(nat \<Rightarrow> ('s, 'e) digraph fixer \<Rightarrow> nat \<times> ('s, 'e) digraph fixer) \<Rightarrow> nat list \<Rightarrow>
    ('s, 'e) digraph fixer \<Rightarrow> ('s, 'e) digraph fixer" where
  "fixup_edges fixup [] st = st"
| "fixup_edges fixup (t # ts) st =
     (case fixup (e_dst (edges (fst (fst (fst st))) ! t)) st of
       (nd, (((g, uniq), newst), seen)) \<Rightarrow>
         fixup_edges fixup ts
           (((g\<lparr>edges := (edges g)[t := (edges g ! t)\<lparr>e_dst := nd\<rparr>]\<rparr>, uniq), newst), seen))"

definition twa_defrag_states :: "('l, 'n::len) twa_graph \<Rightarrow> nat option list \<Rightarrow> nat \<Rightarrow> ('l, 'n) twa_graph" where
  "twa_defrag_states A newst used =
    (case (if is_existential (graph A) then (init_number A, graph A, newst)
           else let old = dests (graph A); g = (graph A)\<lparr>dests := []\<rparr>;
                  (i, st) = defrag_fixup old (init_number A)
                     (((g, Map.empty), newst), replicate (length old) no_group);
                  (((g, uniq), newst), seen) = fixup_edges (defrag_fixup old) (all_edges g) st
                in (i, g, newst)) of
      (i, g, newst) \<Rightarrow>
        let f = (\<lambda>s. if s < length newst then newst ! s else None) in
        A\<lparr>graph := defrag_states f used g, init_number := (case f i of Some d \<Rightarrow> d | None \<Rightarrow> 2 ^ 32 - 1)\<rparr>)"

section \<open>Unreachable states\<close>

text \<open>
  The vector \<open>todo\<close> is at once a stack, in the low 31 bits of its first \<open>pos\<close> entries, and the
  set of the states already seen, in the sign bits.
\<close>

definition seen_bit :: u32 where
  "seen_bit = push_bit 31 1"

definition state_mask :: u32 where
  "state_mask = seen_bit - 1"

definition push_state :: "nat \<Rightarrow> u32 list \<times> nat \<Rightarrow> u32 list \<times> nat" where
  "push_state d st =
    (case st of (todo, pos) \<Rightarrow>
       let todo = todo[d := (todo ! d) OR seen_bit]
       in (todo[pos := (todo ! pos) OR word_of_nat d], pos + 1))"

definition visit_state :: "nat \<Rightarrow> u32 list \<times> nat \<Rightarrow> u32 list \<times> nat" where
  "visit_state d st = (if (fst st ! d) AND seen_bit = 0 then push_state d st else st)"

definition pop_state :: "u32 list \<times> nat \<Rightarrow> nat \<times> u32 list \<times> nat" where
  "pop_state st =
    (case st of (todo, pos) \<Rightarrow>
       let pos = pos - 1; cur = (todo ! pos) AND state_mask
       in (unat cur, todo[pos := (todo ! pos) XOR cur], pos))"

definition all_dests :: "('s, 'e) digraph \<Rightarrow> nat \<Rightarrow> nat list" where
  "all_dests g s = concat (map (\<lambda>t. univ_dests g (e_dst (edges g ! t))) (out g s))"

fun reach_loop :: "nat \<Rightarrow> ('s, 'e) digraph \<Rightarrow> u32 list \<times> nat \<Rightarrow> u32 list option" where
  "reach_loop 0 g st = None"
| "reach_loop (Suc n) g st =
     (case pop_state st of (cur, st) \<Rightarrow>
        let st = fold visit_state (all_dests g cur) st
        in if snd st > 0 then reach_loop n g st else Some (fst st))"

text \<open>The states to keep are numbered in order.\<close>

fun number_kept :: "('a \<Rightarrow> bool) \<Rightarrow> nat \<Rightarrow> 'a list \<Rightarrow> nat option list \<times> nat" where
  "number_kept P current [] = ([], current)"
| "number_kept P current (v # vs) =
     (if \<not> P v then case number_kept P current vs of (l, c) \<Rightarrow> (None # l, c)
      else case number_kept P (current + 1) vs of (l, c) \<Rightarrow> (Some current # l, c))"

definition forget_refuted :: "bprop \<Rightarrow> bprop" where
  "forget_refuted p =
    (let p = (if is_false (universal p) then set_universal trival_maybe p else p)
     in if is_false (complete_prop p) then set_complete trival_maybe p else p)"

definition purge_unreachable_states :: "('l, 'n::len) twa_graph \<Rightarrow> twa_error + ('l, 'n) twa_graph" where
  "purge_unreachable_states A =
    bind_sum (get_init_state_number A) (\<lambda>i.
      let g = graph A; n = num_states g;
          st = fold push_state (univ_dests g i) (replicate n 0, 0)
      in case reach_loop n g st of
           None \<Rightarrow> Inl Undefined
         | Some todo \<Rightarrow>
             case number_kept (\<lambda>v. v AND seen_bit \<noteq> 0) 0 todo of (newst, current) \<Rightarrow>
               if current = n then Inr A
               else Inr (twa_defrag_states (update_props forget_refuted A) newst current))"

section \<open>The loop visits the reachable states\<close>

lemma bit_seen_bit: "bit seen_bit k \<longleftrightarrow> k = 31"
  unfolding seen_bit_def push_bit_of_1 bit_exp_iff by auto

lemma take_bit_seen_bit [simp]: "take_bit 31 seen_bit = 0"
  by (intro bit_word_eqI) (auto simp: bit_seen_bit bit_take_bit_iff)

lemma seen_bit_bit [simp]: "x AND seen_bit = 0 \<longleftrightarrow> \<not> bit x 31" for x :: u32
proof
  assume "x AND seen_bit = 0"
  then have "bit (x AND seen_bit) 31 = bit (0 :: u32) 31" by simp
  then show "\<not> bit x 31" by (simp add: bit_and_iff bit_seen_bit)
next
  assume "\<not> bit x 31"
  then show "x AND seen_bit = 0" by (intro bit_word_eqI) (auto simp: bit_and_iff bit_seen_bit)
qed

lemma state_mask_mask: "state_mask = mask 31"
  by (simp add: state_mask_def seen_bit_def mask_eq_exp_minus_1)

text \<open>What the vector stands for: a stack and a set.\<close>

definition represents :: "nat \<Rightarrow> u32 list \<times> nat \<Rightarrow> nat list \<Rightarrow> nat set \<Rightarrow> bool" where
  "represents n st S V \<longleftrightarrow> length (fst st) = n \<and> n \<le> 2 ^ 31 \<and> snd st = length S \<and> distinct S \<and> set S \<subseteq> V \<and>
     V \<subseteq> {..<n} \<and> (\<forall>k < n. (bit (fst st ! k) 31 \<longleftrightarrow> k \<in> V) \<and>
       take_bit 31 (fst st ! k) = (if k < length S then word_of_nat (S ! k) else 0))"

lemma represents_room: "represents n st S V \<Longrightarrow> d < n \<Longrightarrow> d \<notin> V \<Longrightarrow> length S < n"
proof -
  assume a: "represents n st S V" "d < n" "d \<notin> V"
  then have "length S = card (set S)" by (simp add: represents_def distinct_card)
  also have "\<dots> \<le> card V" using a finite_subset [of V "{..<n}"] unfolding represents_def by (simp add: card_mono)
  also have "\<dots> < card {..<n}" using a unfolding represents_def by (intro psubset_card_mono) auto
  finally show ?thesis by simp
qed

lemma take_bit_word_of_nat: "d < 2 ^ 31 \<Longrightarrow> take_bit 31 (word_of_nat d :: u32) = word_of_nat d"
  by (simp add: take_bit_of_nat [symmetric] take_bit_nat_eq_self flip: of_nat_take_bit)

lemma bit_word_of_nat_31: "d < 2 ^ 31 \<Longrightarrow> \<not> bit (word_of_nat d :: u32) 31"
  using take_bit_word_of_nat [of d] by (metis bit_take_bit_iff less_irrefl)

lemma push_state_represents:
  assumes rep: "represents n st S V" and d: "d < n" "d \<notin> V"
  shows "represents n (push_state d st) (S @ [d]) (insert d V)"
proof -
  obtain todo pos where st: "st = (todo, pos)" by (cases st)
  have room: "pos < n" and pos: "pos = length S" and len: "length todo = n" and n: "n \<le> 2 ^ 31"
    using represents_room [OF assms] rep unfolding st represents_def by simp_all
  have bits: "bit (todo ! k) 31 \<longleftrightarrow> k \<in> V"
    and low: "take_bit 31 (todo ! k) = (if k < length S then word_of_nat (S ! k) else 0)" if "k < n" for k
    using rep that unfolding st represents_def by auto
  have b31: "bit (x OR seen_bit) 31" for x :: u32 by (simp add: bit_seen_bit bit_or_iff)
  have dn: "take_bit 31 (word_of_nat d :: u32) = word_of_nat d" "\<not> bit (word_of_nat d :: u32) 31"
    using d n take_bit_word_of_nat [of d] bit_word_of_nat_31 [of d] by auto
  define t1 where "t1 = todo[d := (todo ! d) OR seen_bit]"
  have t1: "bit (t1 ! k) 31 \<longleftrightarrow> k \<in> insert d V" "take_bit 31 (t1 ! k) = take_bit 31 (todo ! k)" if "k < n" for k
    using that bits d len by (auto simp: t1_def nth_list_update b31)
  have p: "push_state d st = (t1[pos := (t1 ! pos) OR word_of_nat d], pos + 1)"
    by (simp add: push_state_def st t1_def Let_def)
  have l1: "length t1 = n" using len by (simp add: t1_def)
  have "bit ((t1[pos := (t1 ! pos) OR word_of_nat d]) ! k) 31 \<longleftrightarrow> k \<in> insert d V" if "k < n" for k
    using that t1(1) room l1 dn by (cases "k = pos") (auto simp: bit_simps)
  moreover have "take_bit 31 ((t1[pos := (t1 ! pos) OR word_of_nat d]) ! k) =
      (if k < length (S @ [d]) then word_of_nat ((S @ [d]) ! k) else 0)" if "k < n" for k
    using that t1(2) low room l1 dn pos by (cases "k = pos") (auto simp: nth_append)
  ultimately show ?thesis
    using rep d pos l1 unfolding p represents_def by auto
qed

lemma visit_state_represents:
  assumes "represents n st S V" "d < n"
  shows "represents n (visit_state d st) (if d \<in> V then S else S @ [d]) (insert d V)"
proof -
  have "bit (fst st ! d) 31 \<longleftrightarrow> d \<in> V" using assms unfolding represents_def by blast
  then show ?thesis
    using assms push_state_represents [OF assms] by (auto simp: visit_state_def insert_absorb)
qed

lemma pop_state_represents:
  assumes "represents n st (S @ [s]) V"
  shows "fst (pop_state st) = s" "represents n (snd (pop_state st)) S V"
proof -
  obtain todo pos where st: "st = (todo, pos)" by (cases st)
  have pos: "pos = Suc (length S)" and len: "length todo = n" and n: "n \<le> 2 ^ 31" and s: "s < n" "s \<in> V"
    using assms unfolding st represents_def by auto
  have room: "length S < n"
  proof -
    have "length (S @ [s]) = card (set (S @ [s]))" using assms unfolding represents_def by (metis distinct_card)
    also have "\<dots> \<le> card {..<n}" using assms unfolding represents_def by (intro card_mono) auto
    finally show ?thesis by simp
  qed
  have low: "take_bit 31 (todo ! k) = (if k < Suc (length S) then word_of_nat ((S @ [s]) ! k) else 0)" if "k < n" for k
    using assms that unfolding st represents_def by simp
  have cur: "(todo ! length S) AND state_mask = word_of_nat s"
    using low [OF room] by (simp add: state_mask_mask take_bit_eq_mask)
  have us: "unat (word_of_nat s :: u32) = s"
    using s n by (simp add: unat_of_nat take_bit_nat_eq_self)
  have p: "pop_state st = (s, todo[length S := (todo ! length S) XOR word_of_nat s], length S)"
    by (simp add: pop_state_def st pos Let_def cur us)
  then show "fst (pop_state st) = s" by simp
  have sn: "take_bit 31 (word_of_nat s :: u32) = word_of_nat s" "\<not> bit (word_of_nat s :: u32) 31"
    using s n take_bit_word_of_nat [of s] bit_word_of_nat_31 [of s] by auto
  have "take_bit 31 (todo ! length S) = word_of_nat s" using low [OF room] by simp
  then have z: "take_bit 31 ((todo ! length S) XOR word_of_nat s) = 0" using sn by simp
  define t1 where "t1 = todo[length S := (todo ! length S) XOR word_of_nat s]"
  have "bit (t1 ! k) 31 \<longleftrightarrow> k \<in> V" if "k < n" for k
    using assms that sn(2) len unfolding represents_def st t1_def
    by (cases "k = length S") (auto simp: bit_xor_iff)
  moreover have "take_bit 31 (t1 ! k) = (if k < length S then word_of_nat (S ! k) else 0)" if "k < n" for k
    using low [OF that] z that len unfolding t1_def by (cases "k = length S") (auto simp: nth_append)
  moreover have "length t1 = n" using len by (simp add: t1_def)
  moreover have "snd (pop_state st) = (t1, length S)" by (simp add: p t1_def)
  ultimately show "represents n (snd (pop_state st)) S V"
    using assms unfolding represents_def by auto
qed

text \<open>The graph as a relation between states.\<close>

definition edge_rel :: "('s, 'e) digraph \<Rightarrow> (nat \<times> nat) set" where
  "edge_rel g = {(p, q). p < num_states g \<and> q \<in> fst ` set (succs g p)}"

definition reachable :: "('s, 'e) digraph \<Rightarrow> nat \<Rightarrow> nat set" where
  "reachable g i = (edge_rel g)\<^sup>* `` {i}"

lemma univ_dests_small: "d < univ_bit \<Longrightarrow> univ_dests g d = [d]"
  by (simp add: univ_dests_def)

lemma all_dests_succs:
  assumes "wf_twa_graph g" "num_states g \<le> 2 ^ 31" "s < num_states g"
  shows "all_dests g s = map fst (succs g s)"
proof -
  have "e_dst (edges g ! t) < univ_bit" if "t \<in> set (out g s)" for t
    using assms that out_valid [of g s t] unfolding wf_twa_graph_def univ_bit_def by auto
  then have "map (\<lambda>t. univ_dests g (e_dst (edges g ! t))) (out g s) = map (\<lambda>t. [e_dst (edges g ! t)]) (out g s)"
    by (intro map_cong) (auto simp: univ_dests_small)
  then show ?thesis
    unfolding all_dests_def by (simp only: concat_map_singleton) (simp add: succs_def o_def)
qed

lemma visit_all_represents:
  assumes "represents n st S V" "set ds \<subseteq> {..<n}"
  shows "\<exists>T. represents n (fold visit_state ds st) (S @ T) (V \<union> set ds) \<and>
    set T = set ds - V"
  using assms
proof (induction ds arbitrary: st S V)
  case (Cons d ds)
  have d: "d < n" and ds: "set ds \<subseteq> {..<n}" using Cons.prems(2) by auto
  from Cons.IH [OF visit_state_represents [OF Cons.prems(1) d] ds] obtain T where
    T: "represents n (fold visit_state (d # ds) st) ((if d \<in> V then S else S @ [d]) @ T) (insert d V \<union> set ds)"
      "set T = set ds - insert d V" by auto
  have u: "insert d V \<union> set ds = V \<union> set (d # ds)" by auto
  show ?case
    by (rule exI [of _ "if d \<in> V then T else d # T"])
      (use T in \<open>auto simp: u insert_absorb split: if_splits\<close>)
qed auto

lemma reach_loop_spec:
  assumes wf: "wf_twa_graph g" "num_states g = n"
    and rep: "represents n st S V" and S: "S \<noteq> []" "n + length S \<le> k + card V"
    and closed: "\<forall>s \<in> V - set S. fst ` set (succs g s) \<subseteq> V" and V: "V \<subseteq> reachable g i"
  shows "\<exists>todo W. reach_loop k g st = Some todo \<and> length todo = n \<and> V \<subseteq> W \<and> W \<subseteq> reachable g i \<and>
    (\<forall>s < n. bit (todo ! s) 31 \<longleftrightarrow> s \<in> W) \<and> W \<subseteq> {..<n} \<and> (\<forall>s \<in> W. fst ` set (succs g s) \<subseteq> W)"
  using rep S closed V
proof (induction k arbitrary: st S V)
  case 0
  have "card V \<le> card {..<n}" using 0 unfolding represents_def by (intro card_mono) auto
  moreover have "0 < length S" using 0 by simp
  ultimately show ?case using 0 by simp
next
  case (Suc k)
  obtain S' s where S: "S = S' @ [s]" using Suc.prems(2) by (metis rev_exhaust)
  have n: "n \<le> 2 ^ 31" "V \<subseteq> {..<n}" "s \<in> V" "distinct S" using Suc.prems(1) S unfolding represents_def by auto
  then have s: "s < n" by auto
  obtain st' where st': "pop_state st = (s, st')" "represents n st' S' V"
    using pop_state_represents [OF Suc.prems(1) [unfolded S]] by (cases "pop_state st") auto
  have ds: "all_dests g s = map fst (succs g s)" using all_dests_succs [OF wf(1)] wf(2) n s by simp
  have dn: "set (all_dests g s) \<subseteq> {..<n}" unfolding ds using wf s unfolding wf_succs by fastforce
  define V' where "V' = V \<union> set (all_dests g s)"
  define st2 where "st2 = fold visit_state (all_dests g s) st'"
  obtain T where T: "represents n st2 (S' @ T) V'" "set T = set (all_dests g s) - V"
    using visit_all_represents [OF st'(2) dn] unfolding V'_def st2_def by blast
  have closed': "\<forall>u \<in> V' - set (S' @ T). fst ` set (succs g u) \<subseteq> V'"
  proof
    fix u assume u: "u \<in> V' - set (S' @ T)"
    then have "u \<in> V" using T(2) unfolding V'_def by auto
    with u S Suc.prems(4) ds show "fst ` set (succs g u) \<subseteq> V'" unfolding V'_def by (cases "u = s") auto
  qed
  have "set (all_dests g s) \<subseteq> reachable g i"
  proof -
    have "s \<in> reachable g i" using Suc.prems(5) n by blast
    moreover have "(s, q) \<in> edge_rel g" if "q \<in> set (all_dests g s)" for q
      using that s wf(2) unfolding ds edge_rel_def by auto
    ultimately show ?thesis unfolding reachable_def by (auto intro: rtrancl_into_rtrancl)
  qed
  then have V': "V' \<subseteq> reachable g i" using Suc.prems(5) unfolding V'_def by blast
  have "distinct T" using T(1) unfolding represents_def by auto
  then have "length T = card (set T)" by (simp add: distinct_card)
  then have card: "card V' = card V + length T"
    unfolding V'_def T(2) using n(2) finite_subset [of V "{..<n}"]
    by (metis Un_Diff_cancel Diff_disjoint card_Un_disjoint finite_lessThan finite_Diff List.finite_set)
  show ?case
  proof (cases "S' @ T = []")
    case True
    then have "snd st2 = 0" "S' = []" "T = []" using T(1) unfolding represents_def by auto
    then have r: "reach_loop (Suc k) g st = Some (fst st2)"
      by (simp add: st'(1) st2_def [symmetric])
    show ?thesis
      by (rule exI [of _ "fst st2"], rule exI [of _ V'])
        (use r T V' closed' True in \<open>auto simp: represents_def V'_def\<close>)
  next
    case False
    then have "0 < snd st2" using T(1) unfolding represents_def by auto
    then have r: "reach_loop (Suc k) g st = reach_loop k g st2"
      by (simp add: st'(1) st2_def [symmetric])
    have "n + length (S' @ T) \<le> k + card V'" using Suc.prems(3) card unfolding S by simp
    from Suc.IH [OF T(1) False this closed' V'] obtain todo W where
      W: "reach_loop k g st2 = Some todo" "length todo = n" "V' \<subseteq> W" "W \<subseteq> reachable g i"
        "\<forall>s < n. bit (todo ! s) 31 \<longleftrightarrow> s \<in> W" "W \<subseteq> {..<n}" "\<forall>s \<in> W. fst ` set (succs g s) \<subseteq> W"
      by blast
    moreover have "V \<subseteq> W" using W(3) unfolding V'_def by blast
    ultimately show ?thesis unfolding r by blast
  qed
qed

section \<open>Renumbered graphs\<close>

lemma length_filter_take: "i \<le> length vs \<Longrightarrow> length (filter P (take i vs)) = length (filter (\<lambda>k. P (vs ! k)) [0..<i])"
  by (induction i) (simp_all add: take_Suc_conv_app_nth)

lemma number_kept_Cons:
  "number_kept P c (v # vs) =
    ((if P v then Some c else None) # fst (number_kept P (if P v then c + 1 else c) vs),
     snd (number_kept P (if P v then c + 1 else c) vs))"
  by (auto split: prod.splits)

lemma number_kept_length: "length (fst (number_kept P c vs)) = length vs"
  and number_kept_count: "snd (number_kept P c vs) = c + length (filter P vs)"
  by (induction vs arbitrary: c) (auto simp: number_kept_Cons simp del: number_kept.simps(2))

lemma number_kept_nth:
  "i < length vs \<Longrightarrow> fst (number_kept P c vs) ! i =
     (if P (vs ! i) then Some (c + length (filter P (take i vs))) else None)"
proof (induction vs arbitrary: c i)
  case (Cons v vs)
  then show ?case by (cases i) (auto simp: number_kept_Cons simp del: number_kept.simps(2))
qed simp

text \<open>The numbering of the states of a set, as the function that \<open>defrag_states\<close> is given.\<close>

lemma number_kept_states:
  assumes "length todo = n" "W \<subseteq> {..<n}" "\<forall>s < n. P (todo ! s) \<longleftrightarrow> s \<in> W"
    and num: "number_kept P 0 todo = (newst, current)"
  shows "(\<lambda>s. if s < length newst then newst ! s else None) = kept_number (\<lambda>s. s \<in> W)"
    and "current = rank (\<lambda>s. s \<in> W) n" and "current = card W"
proof -
  have len: "length newst = n" using number_kept_length [of P 0 todo] num assms(1) by simp
  have r: "length (filter P (take i todo)) = rank (\<lambda>s. s \<in> W) i" if "i \<le> n" for i
    unfolding rank_def using that assms
    by (simp add: length_filter_take) (intro arg_cong [of _ _ length] filter_cong, auto)
  show c: "current = rank (\<lambda>s. s \<in> W) n"
    using number_kept_count [of P 0 todo] num r [of n] assms(1) by simp
  have "length (filter (\<lambda>s. s \<in> W) [0..<n]) = card (set (filter (\<lambda>s. s \<in> W) [0..<n]))"
    by (metis distinct_card distinct_filter distinct_upt)
  also have "set (filter (\<lambda>s. s \<in> W) [0..<n]) = W" using assms(2) by auto
  finally show "current = card W" using c by (simp add: rank_def)
  show "(\<lambda>s. if s < length newst then newst ! s else None) = kept_number (\<lambda>s. s \<in> W)"
  proof
    fix s show "(if s < length newst then newst ! s else None) = kept_number (\<lambda>s. s \<in> W) s"
    proof (cases "s < n")
      case True
      then have "newst ! s = (if s \<in> W then Some (rank (\<lambda>s. s \<in> W) s) else None)"
        using number_kept_nth [of s todo P 0] num assms r [of s] by simp
      with True len show ?thesis by (simp add: kept_number_def)
    qed (use assms(2) len in \<open>auto simp: kept_number_def\<close>)
  qed
qed

text \<open>
  Keeping a set of states that no edge leaves: paths of the graph from a kept state and paths of the
  renumbered graph correspond.
\<close>

abbreviation kept_graph :: "(nat \<Rightarrow> bool) \<Rightarrow> ('s, 'e) digraph \<Rightarrow> ('s, 'e) digraph" where
  "kept_graph keep g \<equiv> defrag_states (kept_number keep) (rank keep (num_states g)) g"

definition closed_set :: "('s, 'e) digraph \<Rightarrow> (nat \<Rightarrow> bool) \<Rightarrow> bool" where
  "closed_set g keep \<longleftrightarrow> (\<forall>s < num_states g. keep s \<longrightarrow> (\<forall>q \<in> fst ` set (succs g s). keep q \<and> q < num_states g))"

lemma succs_kept:
  assumes "wf_graph g" "s < num_states g" "keep s"
  shows "wf_graph (kept_graph keep g)" "num_states (kept_graph keep g) = rank keep (num_states g)"
    "succs (kept_graph keep g) (rank keep s) =
      map (\<lambda>(q, x). (case kept_number keep q of Some d \<Rightarrow> d | None \<Rightarrow> 2 ^ 32 - 1, x)) (succs g s)"
    "rank keep s < rank keep (num_states g)"
proof -
  let ?h = "kept_graph keep g"
  note sp = defrag_states_spec [OF assms(1) refl refl, where keep = keep, folded num_states_def]
  show "wf_graph ?h" "num_states ?h = rank keep (num_states g)" using sp(1,2) by simp_all
  have "map (\<lambda>t. edge_view (edges ?h ! t)) (out ?h (rank keep s)) =
      map (\<lambda>t. (rank keep s, case kept_number keep (e_dst (edges g ! t)) of Some d \<Rightarrow> d | None \<Rightarrow> 2 ^ 32 - 1,
        e_data (edges g ! t))) (out g s)"
    using sp(4) [OF assms(2,3)] by blast
  then have "map snd (map (\<lambda>t. edge_view (edges ?h ! t)) (out ?h (rank keep s))) =
      map snd (map (\<lambda>t. (rank keep s, case kept_number keep (e_dst (edges g ! t)) of Some d \<Rightarrow> d | None \<Rightarrow> 2 ^ 32 - 1,
        e_data (edges g ! t))) (out g s))" by (rule arg_cong)
  then show "succs ?h (rank keep s) =
      map (\<lambda>(q, x). (case kept_number keep q of Some d \<Rightarrow> d | None \<Rightarrow> 2 ^ 32 - 1, x)) (succs g s)"
    unfolding succs_def edge_view_def map_map o_def prod.case snd_conv .
  show "rank keep s < rank keep (num_states g)" using assms by (intro rank_less)
qed

lemma existential_defrag [simp]: "is_existential (defrag_states f u g) = is_existential g"
  by (simp add: is_existential_def defrag_states_def Let_def split: prod.splits)

lemma rank_onto: "d < rank keep n \<Longrightarrow> \<exists>s < n. keep s \<and> rank keep s = d"
proof (induction n)
  case (Suc n)
  then show ?case by (cases "d = rank keep n") (auto simp: rank_Suc less_Suc_eq split: if_splits)
qed (simp add: rank_def)

lemma delta_kept:
  assumes "wf_graph g" "closed_set g keep" "s < num_states g" "keep s"
  shows "delta (kept_graph keep g) (rank keep s) a m q' \<longleftrightarrow>
    (\<exists>q. q' = rank keep q \<and> keep q \<and> q < num_states g \<and> delta g s a m q)"
proof -
  have keep: "keep q \<and> q < num_states g" if "(q, x) \<in> set (succs g s)" for q x
    using assms that unfolding closed_set_def by fastforce
  then have "(q', x) \<in> set (succs (kept_graph keep g) (rank keep s)) \<longleftrightarrow>
      (\<exists>q. q' = rank keep q \<and> (q, x) \<in> set (succs g s))" for x
    unfolding succs_kept(3) [where keep = keep, OF assms(1,3,4)] by (force simp: kept_number_def)
  then show ?thesis
    unfolding delta_succs using succs_kept(2,4) [where keep = keep, OF assms(1,3,4)] keep assms(3) by auto
qed

definition kept_state :: "(nat \<Rightarrow> bool) \<Rightarrow> ('s, 'e) digraph \<Rightarrow> nat \<Rightarrow> nat \<Rightarrow> bool" where
  "kept_state keep g p p' \<longleftrightarrow> wf_graph g \<and> closed_set g keep \<and> p < num_states g \<and> keep p \<and> p' = rank keep p"

interpretation keep_fwd: path_simulation "delta g" "delta (kept_graph keep g)" "kept_state keep g" "(=)"
  for g :: "('s, ('l, 'm) edge_label) digraph" and keep
proof
  fix p p' a m q assume "kept_state keep g p p'" "delta g p a m q"
  then have R: "wf_graph g" "closed_set g keep" "p < num_states g" "keep p" "p' = rank keep p"
    and d: "delta g p a m q" unfolding kept_state_def by auto
  have "keep q \<and> q < num_states g" using R(2-4) d unfolding closed_set_def delta_succs by fastforce
  with R d show "\<exists>q' n. delta (kept_graph keep g) p' a n q' \<and> m = n \<and> kept_state keep g q q'"
    unfolding kept_state_def using delta_kept [OF R(1-4)] by blast
qed

interpretation keep_bwd: path_simulation "delta (kept_graph keep g)" "delta g" "\<lambda>p' p. kept_state keep g p p'" "(=)"
  for g :: "('s, ('l, 'm) edge_label) digraph" and keep
proof
  fix p p' a m q assume "kept_state keep g p p'" "delta (kept_graph keep g) p' a m q"
  then show "\<exists>q' n. delta g p a n q' \<and> m = n \<and> kept_state keep g q' q"
    unfolding kept_state_def using delta_kept [of g keep p a m q] by auto
qed

lemma accepts_kept:
  assumes "wf_twa A" "closed_set (graph A) keep" "keep (init_number A)"
    and B: "graph B = kept_graph keep (graph A)" "init_number B = rank keep (init_number A)" "twa_acc B = twa_acc A"
  shows "wf_twa B" "accepts B w \<longleftrightarrow> accepts A w"
proof -
  have i: "init_number A < num_states (graph A)" and wf: "wf_graph (graph A)"
    using assms(1) by (auto simp: wf_twa_def wf_twa_graph_def)
  note kept = succs_kept [where keep = keep, OF wf]
  show "wf_twa B"
    unfolding wf_twa_def wf_succs
  proof (intro conjI allI impI ballI)
    show "wf_graph (graph B)" "init_number B < num_states (graph B)"
      using kept(1,2,4) [OF i assms(3)] B by simp_all
    show "is_existential (graph B)" using assms(1) B by (simp add: wf_twa_def wf_twa_graph_def)
    fix s qx assume s: "s < num_states (graph B)" "qx \<in> set (succs (graph B) s)"
    obtain u where u: "u < num_states (graph A)" "keep u" "rank keep u = s"
      using s kept(2) [OF i assms(3)] rank_onto B by metis
    have "rank keep q < rank keep (num_states (graph A)) \<and> keep q" if "(q, x) \<in> set (succs (graph A) u)" for q x
      using assms(2) u that unfolding closed_set_def by (force intro: rank_less)
    then show "case qx of (q, x) \<Rightarrow> q < num_states (graph B)"
      using s kept(2,3) [OF u(1,2)] u(3) B(1) by (auto simp: kept_number_def)
  qed
  have start: "kept_state keep (graph A) (init_number A) (init_number B)"
    using assms wf i by (simp add: kept_state_def)
  show "accepts B w \<longleftrightarrow> accepts A w"
  proof
    assume "accepts B w"
    then obtain p m where p: "p 0 = init_number B" "is_path (delta (kept_graph keep (graph A))) w p m"
      "cond_accepting (twa_acc A) (inf_mark m)" unfolding accepts_def B by blast
    with keep_bwd.lift_path [OF p(2)] start obtain q n where
      "q 0 = init_number A" "is_path (delta (graph A)) w q n" "\<forall>i. m i = n i" by metis
    moreover from this have "m = n" by auto
    ultimately show "accepts A w" using p(3) unfolding accepts_def by blast
  next
    assume "accepts A w"
    then obtain p m where p: "p 0 = init_number A" "is_path (delta (graph A)) w p m"
      "cond_accepting (twa_acc A) (inf_mark m)" unfolding accepts_def B by blast
    with keep_fwd.lift_path [OF p(2)] start obtain q n where
      "q 0 = init_number B" "is_path (delta (kept_graph keep (graph A))) w q n" "\<forall>i. m i = n i" by metis
    moreover from this have "m = n" by auto
    ultimately show "accepts B w" using p(3) unfolding accepts_def B by blast
  qed
qed

lemma closed_reachable:
  assumes "\<forall>s \<in> W. fst ` set (succs g s) \<subseteq> W" "i \<in> W" shows "reachable g i \<subseteq> W"
proof
  fix s assume "s \<in> reachable g i"
  then have "(i, s) \<in> (edge_rel g)\<^sup>*" by (simp add: reachable_def)
  then show "s \<in> W" by induction (use assms in \<open>auto simp: edge_rel_def\<close>)
qed

lemma reachable_bound:
  assumes "wf_twa_graph g" "i < num_states g"
  shows "reachable g i \<subseteq> {..<num_states g}"
  by (rule closed_reachable) (use assms succs_less [OF assms(1)] in auto)

lemma kept_edge:
  assumes "wf_graph g" "keep s" "keep q" "(s, q) \<in> edge_rel g"
  shows "(rank keep s, rank keep q) \<in> edge_rel (kept_graph keep g)"
proof -
  have s: "s < num_states g" "q \<in> fst ` set (succs g s)" using assms(4) by (auto simp: edge_rel_def)
  have "rank keep q \<in> fst ` set (succs (kept_graph keep g) (rank keep s))"
    using s(2) assms(3) unfolding succs_kept(3) [where keep = keep, OF assms(1) s(1) assms(2)]
    by (force simp: kept_number_def image_iff)
  then show ?thesis
    using succs_kept(2,4) [where keep = keep, OF assms(1) s(1) assms(2)] by (simp add: edge_rel_def)
qed

lemma kept_reachable:
  assumes "wf_graph g" "closed_set g keep" "keep i" "s \<in> reachable g i" "i < num_states g"
  shows "rank keep s \<in> reachable (kept_graph keep g) (rank keep i)"
proof -
  have "(i, s) \<in> (edge_rel g)\<^sup>*" using assms(4) by (simp add: reachable_def)
  then have "(rank keep i, rank keep s) \<in> (edge_rel (kept_graph keep g))\<^sup>* \<and> keep s \<and> s < num_states g"
  proof induction
    case (step y z)
    then have y: "keep y" "y < num_states g" "z \<in> fst ` set (succs g y)" by (auto simp: edge_rel_def)
    then have z: "keep z" "z < num_states g" using assms(2) unfolding closed_set_def by blast+
    from kept_edge [OF assms(1) y(1) z(1) step(2)] step z show ?case by (auto intro: rtrancl_into_rtrancl)
  qed (use assms in auto)
  then show ?thesis by (simp add: reachable_def)
qed

lemma univ_dests_init: "wf_twa A \<Longrightarrow> num_states (graph A) \<le> 2 ^ 31 \<Longrightarrow> univ_dests (graph A) (init_number A) = [init_number A]"
  by (simp add: univ_dests_small wf_twa_def univ_bit_def)

text \<open>
  Property C7: on an automaton without universal branching, \<open>purge_unreachable_states\<close> returns
  (its loop ends within as many steps as there are states, the vector never overflows) a well-formed
  automaton with the same language, whose states are exactly the reachable states of the original,
  all of them reachable again.
\<close>

theorem purge_unreachable_sound:
  assumes "wf_twa A" "num_states (graph A) \<le> 2 ^ 31"
  shows "\<exists>B. purge_unreachable_states A = Inr B \<and> wf_twa B \<and> (\<forall>w. accepts B w \<longleftrightarrow> accepts A w) \<and>
    num_states (graph B) = card (reachable (graph A) (init_number A)) \<and>
    reachable (graph B) (init_number B) = {..<num_states (graph B)}"
proof -
  define g n i where "g = graph A" and "n = num_states g" and "i = init_number A"
  have wf: "wf_twa_graph g" "i < n" using assms(1) by (auto simp: wf_twa_def g_def n_def i_def)
  have "represents n (replicate n 0, 0) [] {}" using assms(2) by (simp add: represents_def g_def n_def)
  from push_state_represents [OF this wf(2)]
  have start: "represents n (push_state i (replicate n 0, 0)) [i] {i}" by simp
  have "\<exists>todo W. reach_loop n g (push_state i (replicate n 0, 0)) = Some todo \<and> length todo = n \<and> {i} \<subseteq> W \<and>
      W \<subseteq> reachable g i \<and> (\<forall>s < n. bit (todo ! s) 31 \<longleftrightarrow> s \<in> W) \<and> W \<subseteq> {..<n} \<and> (\<forall>s \<in> W. fst ` set (succs g s) \<subseteq> W)"
    by (rule reach_loop_spec [OF wf(1) n_def [symmetric] start]) (auto simp: reachable_def)
  then obtain todo W where W: "reach_loop n g (push_state i (replicate n 0, 0)) = Some todo" "length todo = n" "{i} \<subseteq> W"
      "W \<subseteq> reachable g i" "\<forall>s < n. bit (todo ! s) 31 \<longleftrightarrow> s \<in> W" "W \<subseteq> {..<n}" "\<forall>s \<in> W. fst ` set (succs g s) \<subseteq> W"
    by (elim exE conjE) (rule that; assumption)
  have iW: "i \<in> W" using W(3) by simp
  have reach: "reachable g i = W" using closed_reachable [OF W(7) iW] W(4) by blast
  obtain newst c where num: "number_kept (\<lambda>v. v AND seen_bit \<noteq> 0) 0 todo = (newst, c)" by fastforce
  have "\<forall>s < n. todo ! s AND seen_bit \<noteq> 0 \<longleftrightarrow> s \<in> W" using W(5) by simp
  note kept = number_kept_states [OF W(2,6) this num]
  note c = kept(3)
  have def_: "purge_unreachable_states A = (if c = n then Inr A
      else Inr (twa_defrag_states (update_props forget_refuted A) newst c))"
    using univ_dests_init [OF assms] wf(2) num W(1)
    by (simp add: purge_unreachable_states_def get_init_state_number_def Let_def g_def n_def i_def)
  show ?thesis
  proof (cases "c = n")
    case True
    then have "W = {..<n}" using W(6) c card_subset_eq [of "{..<n}" W] by simp
    with True def_ assms(1) reach c show ?thesis by (auto simp: g_def n_def i_def)
  next
    case False
    define B where "B = twa_defrag_states (update_props forget_refuted A) newst c"
    define keep where "keep = (\<lambda>s. s \<in> W)"
    have e: "is_existential g" using wf(1) by (simp add: wf_twa_graph_def)
    have ki: "kept_number keep i = Some (rank keep i)" using iW by (simp add: keep_def kept_number_def)
    have B: "graph B = kept_graph keep g" "init_number B = rank keep i" "twa_acc B = twa_acc A"
      using kept e ki fun_cong [OF kept(1), of i]
      by (auto simp: B_def twa_defrag_states_def g_def i_def keep_def n_def Let_def split: if_splits)
    have cl: "closed_set g keep" using W(6,7) by (auto simp: closed_set_def keep_def n_def)
    have ok: "wf_twa B" "accepts B w \<longleftrightarrow> accepts A w" for w
      using accepts_kept [of A keep B] assms(1) cl iW B by (auto simp: g_def i_def keep_def)
    have wg: "wf_graph g" using wf(1) by (simp add: wf_twa_graph_def)
    have nB: "num_states (graph B) = c"
      using succs_kept(2) [where keep = keep, OF wg _, of i] wf(2) iW B(1) kept(2) by (simp add: keep_def n_def)
    have "s \<in> reachable (graph B) (init_number B)" if s: "s < c" for s
    proof -
      obtain u where "u < n" "keep u" "rank keep u = s" using rank_onto [of s keep n] s kept(2) by (auto simp: keep_def)
      then show ?thesis
        using kept_reachable [OF wg cl, of i u] iW wf(2) reach B by (auto simp: keep_def n_def)
    qed
    moreover have "reachable (graph B) (init_number B) \<subseteq> {..<c}"
      using ok(1) closed_reachable [of "{..<c}" "graph B" "init_number B"] nB
      unfolding wf_twa_def wf_succs by fastforce
    ultimately have "reachable (graph B) (init_number B) = {..<num_states (graph B)}" using nB by auto
    moreover have "purge_unreachable_states A = Inr B" using def_ False by (simp add: B_def)
    moreover have "num_states (graph B) = card (reachable (graph A) (init_number A))"
      using nB c reach by (simp add: g_def i_def)
    ultimately show ?thesis using ok by blast
  qed
qed

definition island :: "(bool, 32) twa_graph" where
  "island = explicit_twa 3 0 \<lparr>num_sets = 0, all_sets = 0, get_acceptance = code_t, uses_fin_acceptance = False\<rparr>
     [(0, 2, {True}, 0), (1, 2, UNIV, 0), (2, 0, {False}, 0)]"

lemma island_spec: "wf_twa island" "num_states (graph island) = 3" "init_number island = 0"
  by (simp_all add: island_def explicit_twa_spec)

theorem purge_unreachable_sound_witness:
  "\<exists>B. purge_unreachable_states island = Inr B \<and> wf_twa B \<and> (accepts B (\<lambda>_. True) \<longleftrightarrow> accepts island (\<lambda>_. True))"
  using purge_unreachable_sound [of island] island_spec by auto

end
