(* ===== verification/TwaDead.thy ===== *)
theory TwaDead
  imports TwaPurge
begin

text \<open>
  Removal of the states from which no infinite path starts (\<open>purge_dead_states\<close> of
  twa/twagraph.cc): a depth-first search lists the reachable states in postorder, one pass over this
  list erases the edges to useless states.
\<close>

section \<open>Postorder\<close>

text \<open>
  The stack holds the states being explored, each with the edge to follow next.  The vector
  \<open>useful\<close> marks the states met.
\<close>

fun dead_dfs :: "nat \<Rightarrow> ('s, 'e) digraph \<Rightarrow> (nat \<times> nat) list \<Rightarrow> nat list \<Rightarrow> nat list \<Rightarrow> (nat list \<times> nat list) option" where
  "dead_dfs (Suc k) g ((src, tid) # todo) useful order =
     (if tid = 0
      then if todo = [] then Some (useful, order @ [src]) else dead_dfs k g todo useful (order @ [src])
      else let t = edges g ! tid; dst = e_dst t; todo = (src, next_succ t) # todo in
        if useful ! dst \<noteq> 1
        then dead_dfs k g ((dst, succ (states g ! dst)) # todo) (useful[dst := 1]) order
        else dead_dfs k g todo useful order)"
| "dead_dfs k g todo useful order = None"

text \<open>
  With universal branching, an entry also holds the destinations of the current edge that are left
  to visit; the first entry stands for the initial state, which may be universal.
\<close>

fun dead_dfs_univ :: "nat \<Rightarrow> ('s, 'e) digraph \<Rightarrow> (nat \<times> nat \<times> nat list) list \<Rightarrow> nat list \<Rightarrow> nat list \<Rightarrow>
    (nat list \<times> nat list) option" where
  "dead_dfs_univ (Suc k) g ((src, tid, ds) # todo) useful order =
     (if tid = 0 \<and> ds = [] then
        let order = (if \<not> is_univ_dest src \<and> (todo = [] \<or> src \<noteq> fst (hd todo)) then order @ [src] else order)
        in if todo = [] then Some (useful, order) else dead_dfs_univ k g todo useful order
      else let dst = hd ds; ds = tl ds;
           tid' = (if ds = [] \<and> tid \<noteq> 0 then next_succ (edges g ! tid) else tid);
           ds = (if ds = [] \<and> tid' \<noteq> 0 then univ_dests g (e_dst (edges g ! tid')) else ds);
           todo = (src, tid', ds) # todo; first = succ (states g ! dst)
         in if useful ! dst \<noteq> 1 \<and> first \<noteq> 0
            then dead_dfs_univ k g ((dst, first, univ_dests g (e_dst (edges g ! first))) # todo)
                   (useful[dst := 1]) order
            else dead_dfs_univ k g todo useful order)"
| "dead_dfs_univ k g todo useful order = None"

definition dfs_fuel :: "('s, 'e) digraph \<Rightarrow> nat" where
  "dfs_fuel g = num_states g + length (edges g)"

definition univ_dfs_fuel :: "('s, 'e) digraph \<Rightarrow> nat \<Rightarrow> nat" where
  "univ_dfs_fuel g i = Suc (length (univ_dests g i)) + sum_list (map (\<lambda>s. Suc (length (all_dests g s))) [0..<num_states g])"

definition dead_order :: "('s, 'e) digraph \<Rightarrow> nat \<Rightarrow> (nat list \<times> nat list) option" where
  "dead_order g i =
    (let useful = replicate (num_states g) 0 in
     if is_existential g then dead_dfs (dfs_fuel g) g [(i, succ (states g ! i))] (useful[i := 1]) []
     else dead_dfs_univ (univ_dfs_fuel g i) g [(i, 0, univ_dests g i)] useful [])"

section \<open>Erasing the edges to useless states\<close>

definition useful_edge :: "('s, 'e) digraph \<Rightarrow> nat list \<Rightarrow> nat \<Rightarrow> bool" where
  "useful_edge g useful dst = list_all (\<lambda>d. useful ! d \<noteq> 0) (univ_dests g dst)"

fun sweep :: "nat list \<Rightarrow> ('s, 'e) digraph \<times> nat list \<times> bool \<Rightarrow> ('s, 'e) digraph \<times> nat list \<times> bool" where
  "sweep [] st = st"
| "sweep (s # order) (g, useful, univ_edge_erased) =
     (let bad = (\<lambda>t. \<not> useful_edge g useful (e_dst (edges g ! t)));
          g' = erase_if (\<lambda>d x. \<not> useful_edge g useful d) g s;
          erased = (univ_edge_erased \<or> list_ex (\<lambda>t. bad t \<and> is_univ_dest (e_dst (edges g ! t))) (out g s));
          useless = list_all bad (out g s)
      in sweep order (g', if useless then useful[s := 0] else useful, erased))"

text \<open>The passes are repeated as long as they erase edges with universal destinations.\<close>

fun sweeps :: "nat \<Rightarrow> nat list \<Rightarrow> ('s, 'e) digraph \<Rightarrow> nat list \<Rightarrow> bool \<Rightarrow> (('s, 'e) digraph \<times> nat list \<times> bool) option" where
  "sweeps 0 order g useful needed = None"
| "sweeps (Suc k) order g useful needed =
     (case sweep order (g, useful, False) of
        (g, useful, erased) \<Rightarrow> if \<not> erased then Some (g, useful, needed) else sweeps k order g useful True)"

definition empty_twa :: "('l, 'n::len) twa_graph \<Rightarrow> ('l, 'n) twa_graph" where
  "empty_twa A =
    (let (g, i) = new_state (digraph0 \<lparr>cond = {}, acc = 0\<rparr>) () in
     update_props (set_weak (trival_of_bool True) \<circ> set_stutter_invariant (trival_of_bool True) \<circ>
         set_complete (trival_of_bool False) \<circ> set_universal (trival_of_bool True))
       (A\<lparr>graph := g, init_number := i\<rparr>))"

definition purge_dead_states :: "('l, 'n::len) twa_graph \<Rightarrow> twa_error + ('l, 'n) twa_graph" where
  "purge_dead_states A =
    bind_sum (if is_existential (graph A) then get_init_state_number A else Inr (init_number A)) (\<lambda>i.
      let g = graph A; n = num_states g in
      case dead_order g i of None \<Rightarrow> Inl Undefined
      | Some (useful, order) \<Rightarrow>
          (case sweeps (length (edges g)) order g useful False of None \<Rightarrow> Inl Undefined
           | Some (g, useful, needed) \<Rightarrow>
               if \<not> list_all (\<lambda>d. useful ! d \<noteq> 0) (univ_dests g i) then Inr (empty_twa A)
               else case number_kept (\<lambda>u. u \<noteq> 0) 0 useful of (newst, current) \<Rightarrow>
                 if current = n then Inr (A\<lparr>graph := g\<rparr>)
                 else let B = twa_defrag_states (update_props forget_refuted (A\<lparr>graph := g\<rparr>)) newst current
                      in if needed then purge_unreachable_states B else Inr B))"

section \<open>The search\<close>

text \<open>
  An entry of the stack: the links from its edge lead through the last edges of its state; those
  before have been followed.
\<close>

definition entry_ok :: "('s, 'e) digraph \<Rightarrow> nat list \<Rightarrow> nat \<times> nat \<Rightarrow> bool" where
  "entry_ok g useful e \<longleftrightarrow> fst e < num_states g \<and>
     (\<exists>old rest. edges_of (edges g) (fst e) = old @ rest \<and> seg (edges g) (snd e) rest 0 \<and>
        (\<forall>t \<in> set old. useful ! e_dst (edges g ! t) = 1))"

definition rest_length :: "('s, 'e) digraph \<Rightarrow> nat \<times> nat \<Rightarrow> nat" where
  "rest_length g e = length (follow (length (edges g)) (edges g) (snd e))"

fun stack_path :: "('s, 'e) digraph \<Rightarrow> nat list \<Rightarrow> bool" where
  "stack_path g (a # b # l) = ((b, a) \<in> edge_rel g \<and> stack_path g (b # l))"
| "stack_path g l = True"

definition dfs_inv :: "('s, 'e) digraph \<Rightarrow> nat \<Rightarrow> (nat \<times> nat) list \<Rightarrow> nat list \<Rightarrow> nat list \<Rightarrow> bool" where
  "dfs_inv g i todo useful order \<longleftrightarrow>
     length useful = num_states g \<and> (\<forall>s < num_states g. useful ! s = (if s \<in> set order \<union> fst ` set todo then 1 else 0)) \<and>
     distinct (order @ map fst todo) \<and> list_all (entry_ok g useful) todo \<and> stack_path g (map fst todo) \<and>
     set order \<union> fst ` set todo \<subseteq> reachable g i \<inter> {..<num_states g} \<and> i \<in> set order \<union> fst ` set todo \<and>
     (\<forall>a s b. order = a @ s # b \<longrightarrow> (\<forall>q \<in> fst ` set (succs g s). q \<in> set a \<or> s \<in> reachable g q) \<and>
        fst ` set (succs g s) \<subseteq> set order \<union> fst ` set todo)"

definition postorder :: "('s, 'e) digraph \<Rightarrow> nat \<Rightarrow> nat list \<Rightarrow> bool" where
  "postorder g i order \<longleftrightarrow> distinct order \<and> set order = reachable g i \<and>
     (\<forall>a s b. order = a @ s # b \<longrightarrow> (\<forall>q \<in> fst ` set (succs g s). q \<in> set a \<or> s \<in> reachable g q))"

lemma stack_path_reaches: "stack_path g (a # l) \<Longrightarrow> q \<in> set (a # l) \<Longrightarrow> a \<in> reachable g q"
proof (induction l arbitrary: a)
  case (Cons b l)
  show ?case
  proof (cases "q = a")
    case False
    then have "b \<in> reachable g q" "(b, a) \<in> edge_rel g" using Cons by auto
    then show ?thesis unfolding reachable_def by (auto intro: rtrancl_into_rtrancl)
  qed (simp add: reachable_def)
qed (simp add: reachable_def)

definition unseen_work :: "('s, 'e) digraph \<Rightarrow> nat set \<Rightarrow> nat" where
  "unseen_work g V = (\<Sum>s \<in> {..<num_states g} - V. Suc (length (edges_of (edges g) s)))"

definition stack_work :: "('s, 'e) digraph \<Rightarrow> (nat \<times> nat) list \<Rightarrow> nat" where
  "stack_work g todo = sum_list (map (\<lambda>e. Suc (rest_length g e)) todo)"

lemma edges_of_succs:
  "wf_graph g \<Longrightarrow> s < num_states g \<Longrightarrow> t \<in> set (edges_of (edges g) s) \<Longrightarrow>
    e_dst (edges g ! t) \<in> fst ` set (succs g s)"
  by (auto simp: succs_of image_iff)

lemma entry_rest:
  assumes "entry_ok g useful (s, tid)" "tid \<noteq> 0"
  obtains old rest where "edges_of (edges g) s = old @ tid # rest" "seg (edges g) (next_succ (edges g ! tid)) rest 0"
    "\<forall>t \<in> set old. useful ! e_dst (edges g ! t) = 1" "rest_length g (s, tid) = Suc (length rest)"
    "rest_length g (s, next_succ (edges g ! tid)) = length rest"
proof -
  obtain old rest' where e: "edges_of (edges g) s = old @ rest'" "seg (edges g) tid rest' 0"
    "\<forall>t \<in> set old. useful ! e_dst (edges g ! t) = 1" using assms(1) unfolding entry_ok_def by auto
  then obtain rest where r: "rest' = tid # rest" using assms(2) by (cases rest') auto
  have "0 \<notin> set rest'" "length rest' \<le> length (edges g)"
    using edges_of_facts(3,4) [of "edges g" s] e(1) by (auto simp del: edges_of_facts)
  then have "rest_length g (s, tid) = Suc (length rest)" "rest_length g (s, next_succ (edges g ! tid)) = length rest"
    using e(2) r by (simp_all add: rest_length_def follow_seg [where xs = rest'] follow_seg [where xs = rest])
  with e r that show thesis by auto
qed

lemma entry_end:
  assumes "entry_ok g useful (s, 0)" "wf_graph g"
  shows "\<forall>q \<in> fst ` set (succs g s). useful ! q = 1" "rest_length g (s, 0) = 0"
proof -
  obtain old rest where e: "edges_of (edges g) s = old @ rest" "seg (edges g) 0 rest 0"
    "\<forall>t \<in> set old. useful ! e_dst (edges g ! t) = 1" "s < num_states g" using assms(1) unfolding entry_ok_def by auto
  have "0 \<notin> set rest" using edges_of_facts(4) [of "edges g" s] e(1) by simp
  then have "rest = []" using e(2) by (cases rest) auto
  then show "\<forall>q \<in> fst ` set (succs g s). useful ! q = 1" using e assms(2) by (auto simp: succs_of)
  show "rest_length g (s, 0) = 0" by (cases "length (edges g)") (simp_all add: rest_length_def)
qed

lemma entry_mono:
  assumes "entry_ok g useful e" "\<And>q. useful ! q = 1 \<Longrightarrow> useful' ! q = 1"
  shows "entry_ok g useful' e"
proof -
  obtain old rest where e: "edges_of (edges g) (fst e) = old @ rest" "seg (edges g) (snd e) rest 0"
    "\<forall>t \<in> set old. useful ! e_dst (edges g ! t) = 1" "fst e < num_states g"
    using assms(1) unfolding entry_ok_def by blast
  have "\<forall>t \<in> set old. useful' ! e_dst (edges g ! t) = 1" using e(3) assms(2) by blast
  with e show ?thesis unfolding entry_ok_def by blast
qed

lemma unseen_work_insert:
  assumes "s < num_states g" "s \<notin> V"
  shows "unseen_work g V = unseen_work g (insert s V) + Suc (length (edges_of (edges g) s))"
proof -
  have e: "{..<num_states g} - V = insert s ({..<num_states g} - insert s V)" using assms by auto
  show ?thesis unfolding unseen_work_def by (subst e, subst sum.insert) auto
qed

lemma entry_start:
  assumes "wf_graph g" "s < num_states g"
  shows "entry_ok g useful (s, succ (states g ! s))" "rest_length g (s, succ (states g ! s)) = length (edges_of (edges g) s)"
proof -
  have "seg (edges g) (succ (states g ! s)) (edges_of (edges g) s) 0"
    using assms unfolding wf_graph_def num_states_def state_wf_def by blast
  then show "entry_ok g useful (s, succ (states g ! s))"
    unfolding entry_ok_def using assms(2)
    by (intro conjI exI [of _ "[]"] exI [of _ "edges_of (edges g) s"]) auto
  show "rest_length g (s, succ (states g ! s)) = length (edges_of (edges g) s)"
    using out_edges_of [OF assms(1)] assms(2) by (simp add: rest_length_def out_def num_states_def)
qed

lemma dfs_pop:
  assumes wf: "wf_twa_graph g" and inv: "dfs_inv g i ((s, 0) # todo) useful order"
  shows "dfs_inv g i todo useful (order @ [s])"
proof -
  have all: "length useful = num_states g"
    "\<And>u. u < num_states g \<Longrightarrow> useful ! u = (if u \<in> set order \<union> fst ` set ((s, 0) # todo) then 1 else 0)"
    "distinct (order @ map fst ((s, 0) # todo))" "entry_ok g useful (s, 0)" "list_all (entry_ok g useful) todo"
    "stack_path g (s # map fst todo)"
    and sub: "set order \<union> fst ` set ((s, 0) # todo) \<subseteq> reachable g i \<inter> {..<num_states g}"
    and i: "i \<in> set order \<union> fst ` set ((s, 0) # todo)"
    and ord: "\<And>a u b. order = a @ u # b \<Longrightarrow> (\<forall>q \<in> fst ` set (succs g u). q \<in> set a \<or> u \<in> reachable g q) \<and>
        fst ` set (succs g u) \<subseteq> set order \<union> fst ` set ((s, 0) # todo)"
    using inv unfolding dfs_inv_def by auto
  have V: "set (order @ [s]) \<union> fst ` set todo = set order \<union> fst ` set ((s, 0) # todo)" by auto
  have sn: "s < num_states g" using sub by auto
  have q: "q \<in> set order \<union> fst ` set ((s, 0) # todo) \<and> (q \<in> set order \<or> s \<in> reachable g q)"
    if "q \<in> fst ` set (succs g s)" for q
  proof -
    have "q < num_states g" using that wf sn unfolding wf_succs by fastforce
    moreover have "useful ! q = 1" using entry_end(1) [OF all(4)] wf that unfolding wf_twa_graph_def by blast
    ultimately have "q \<in> set order \<union> fst ` set ((s, 0) # todo)" using all(2) [of q] by (metis zero_neq_one)
    then show ?thesis using stack_path_reaches [OF all(6), of q] by force
  qed
  have step: "(\<forall>q \<in> fst ` set (succs g u). q \<in> set a \<or> u \<in> reachable g q) \<and>
      fst ` set (succs g u) \<subseteq> set order \<union> fst ` set ((s, 0) # todo)" if "order @ [s] = a @ u # b" for a u b
  proof (cases b rule: rev_cases)
    case Nil
    with that q show ?thesis by auto
  next
    case (snoc b' x)
    with that have "order = a @ u # b'" by simp
    from ord [OF this] show ?thesis .
  qed
  have "stack_path g (map fst todo)" using all(6) by (cases "map fst todo") simp_all
  with all sub i step show ?thesis unfolding dfs_inv_def V by auto
qed

lemma dfs_next:
  assumes wf: "wf_twa_graph g" and inv: "dfs_inv g i ((s, tid) # todo) useful order" and t: "tid \<noteq> 0"
    and d: "d = e_dst (edges g ! tid)" and nx: "nx = next_succ (edges g ! tid)"
  shows "d < num_states g" "length useful = num_states g"
    and "useful ! d = 1 \<Longrightarrow> dfs_inv g i ((s, nx) # todo) useful order"
    and "useful ! d \<noteq> 1 \<Longrightarrow> d \<notin> set order \<union> fst ` set ((s, tid) # todo)"
    and "useful ! d \<noteq> 1 \<Longrightarrow> dfs_inv g i ((d, succ (states g ! d)) # (s, nx) # todo) (useful[d := 1]) order"
proof -
  let ?V = "set order \<union> fst ` set ((s, tid) # todo)"
  have all: "length useful = num_states g"
    "\<And>u. u < num_states g \<Longrightarrow> useful ! u = (if u \<in> ?V then 1 else 0)"
    "distinct (order @ map fst ((s, tid) # todo))" "entry_ok g useful (s, tid)" "list_all (entry_ok g useful) todo"
    "stack_path g (s # map fst todo)"
    and sub: "?V \<subseteq> reachable g i \<inter> {..<num_states g}" and i: "i \<in> ?V"
    and ord: "\<And>a u b. order = a @ u # b \<Longrightarrow> (\<forall>q \<in> fst ` set (succs g u). q \<in> set a \<or> u \<in> reachable g q) \<and>
        fst ` set (succs g u) \<subseteq> ?V"
    using inv unfolding dfs_inv_def by auto
  have wg: "wf_graph g" using wf by (simp add: wf_twa_graph_def)
  have sn: "s < num_states g" using sub by auto
  obtain old rest where e: "edges_of (edges g) s = old @ tid # rest" "seg (edges g) nx rest 0"
    "\<forall>t \<in> set old. useful ! e_dst (edges g ! t) = 1"
    by (rule entry_rest [OF all(4) t]) (simp add: nx)
  have ds: "d \<in> fst ` set (succs g s)" unfolding d using edges_of_succs [OF wg sn, of tid] e(1) by simp
  then show dn: "d < num_states g" using wf sn unfolding wf_succs by fastforce
  show "length useful = num_states g" by fact
  have edge: "(s, d) \<in> edge_rel g" using ds sn by (simp add: edge_rel_def)
  have V: "set order \<union> fst ` set ((s, nx) # todo) = ?V" by simp
  have top: "entry_ok g useful' (s, nx)" if "\<forall>t \<in> set old. useful' ! e_dst (edges g ! t) = 1" "useful' ! d = 1" for useful'
    unfolding entry_ok_def using sn e that
    by (intro conjI exI [of _ "old @ [tid]"] exI [of _ rest]) (auto simp: d)
  show "dfs_inv g i ((s, nx) # todo) useful order" if u: "useful ! d = 1"
    using all top [OF e(3) u] sub i ord unfolding dfs_inv_def V by auto
  show dV: "d \<notin> ?V" if u: "useful ! d \<noteq> 1"
  proof
    assume "d \<in> ?V"
    then have "useful ! d = 1" unfolding all(2) [OF dn] by (rule if_P)
    with u show False ..
  qed
  show "dfs_inv g i ((d, succ (states g ! d)) # (s, nx) # todo) (useful[d := 1]) order" if u: "useful ! d \<noteq> 1"
  proof -
    have d1: "useful[d := 1] ! q = 1" if "useful ! q = 1" for q
      using that dn all(1) by (cases "q = d") auto
    have V': "set order \<union> fst ` set ((d, succ (states g ! d)) # (s, nx) # todo) = insert d ?V" by auto
    have "list_all (entry_ok g (useful[d := 1])) ((d, succ (states g ! d)) # (s, nx) # todo)"
    proof -
      have "entry_ok g (useful[d := 1]) (s, nx)" using top e(3) d1 dn all(1) by simp
      moreover have "list_all (entry_ok g (useful[d := 1])) todo"
        using all(5) entry_mono [of g useful _ "useful[d := 1]"] d1 unfolding list_all_iff by blast
      ultimately show ?thesis using entry_start(1) [OF wg dn] by simp
    qed
    moreover have "\<forall>u < num_states g. useful[d := 1] ! u = (if u \<in> insert d ?V then 1 else 0)"
      using all(1,2) dn by (auto simp: nth_list_update)
    moreover have "d \<in> reachable g i"
      using sub edge unfolding reachable_def by (auto intro: rtrancl_into_rtrancl)
    moreover have "(\<forall>q \<in> fst ` set (succs g u). q \<in> set a \<or> u \<in> reachable g q) \<and>
        fst ` set (succs g u) \<subseteq> insert d ?V" if "order = a @ u # b" for a u b
      using ord [OF that] by blast
    moreover have "distinct (order @ map fst ((d, succ (states g ! d)) # (s, nx) # todo))"
      using all(3) dV [OF u] by auto
    moreover have "stack_path g (map fst ((d, succ (states g ! d)) # (s, nx) # todo))"
      using all(6) edge by simp
    ultimately show ?thesis using all(1) sub dn i unfolding dfs_inv_def V' by simp
  qed
qed

lemma dead_dfs_spec:
  assumes wf: "wf_twa_graph g" and inv: "dfs_inv g i todo useful order" and ne: "todo \<noteq> []"
    and fuel: "unseen_work g (set order \<union> fst ` set todo) + stack_work g todo \<le> k"
  shows "\<exists>useful' order'. dead_dfs k g todo useful order = Some (useful', order') \<and> dfs_inv g i [] useful' order'"
  using inv ne fuel
proof (induction k arbitrary: todo useful order)
  case 0
  then show ?case by (cases todo) (auto simp: stack_work_def)
next
  case (Suc k)
  obtain s tid todo' where todo: "todo = (s, tid) # todo'" using Suc.prems(2) by (cases todo) auto
  have wg: "wf_graph g" using wf by (simp add: wf_twa_graph_def)
  have ent: "entry_ok g useful (s, tid)" using Suc.prems(1) unfolding todo dfs_inv_def by simp
  show ?case
  proof (cases "tid = 0")
    case t0: True
    note inv' = dfs_pop [OF wf Suc.prems(1) [unfolded todo t0]]
    have V: "set (order @ [s]) \<union> fst ` set todo' = set order \<union> fst ` set todo" using todo by auto
    show ?thesis
    proof (cases "todo' = []")
      case True
      with inv' todo t0 show ?thesis by simp
    next
      case False
      have "unseen_work g (set (order @ [s]) \<union> fst ` set todo') + stack_work g todo' \<le> k"
        using Suc.prems(3) unfolding V unfolding todo t0 stack_work_def by simp
      from Suc.IH [OF inv' False this] show ?thesis using False by (simp add: todo t0)
    qed
  next
    case False
    define d nx where "d = e_dst (edges g ! tid)" and "nx = next_succ (edges g ! tid)"
    note next' = dfs_next [OF wf Suc.prems(1) [unfolded todo] False d_def nx_def]
    obtain rest :: "nat list" where rest: "rest_length g (s, tid) = Suc (length rest)" "rest_length g (s, nx) = length rest"
      by (rule entry_rest [OF ent False, folded nx_def]) (rule that; assumption)
    show ?thesis
    proof (cases "useful ! d = 1")
      case True
      have "unseen_work g (set order \<union> fst ` set ((s, nx) # todo')) + stack_work g ((s, nx) # todo') \<le> k"
        using Suc.prems(3) rest unfolding todo stack_work_def by simp
      from Suc.IH [OF next'(3) [OF True] _ this] show ?thesis
        using False True by (simp add: todo d_def [symmetric] nx_def [symmetric] Let_def)
    next
      case u: False
      let ?todo = "(d, succ (states g ! d)) # (s, nx) # todo'"
      have V: "set order \<union> fst ` set ?todo = insert d (set order \<union> fst ` set todo)" unfolding todo by auto
      have "d \<notin> set order \<union> fst ` set todo" using next'(4) [OF u] unfolding todo .
      note w = unseen_work_insert [OF next'(1) this]
      have "unseen_work g (set order \<union> fst ` set ?todo) + stack_work g ?todo \<le> k"
        using Suc.prems(3) rest w entry_start(2) [OF wg next'(1)] unfolding V
        unfolding todo stack_work_def by simp
      from Suc.IH [OF next'(5) [OF u] _ this] show ?thesis
        using False u by (simp add: todo d_def [symmetric] nx_def [symmetric] Let_def)
    qed
  qed
qed

lemma total_work:
  assumes "wf_graph g"
  shows "unseen_work g {} \<le> dfs_fuel g"
proof -
  let ?n = "num_states g"
  have "(\<Sum>s<m. length (edges_of (edges g) s)) \<le> length (edges g)" for m
  proof -
    have "(\<Sum>s<m. length (edges_of (edges g) s)) = card (\<Union>s<m. set (edges_of (edges g) s))"
    proof (subst card_UN_disjoint)
      show "\<forall>s\<in>{..<m}. \<forall>u\<in>{..<m}. s \<noteq> u \<longrightarrow> set (edges_of (edges g) s) \<inter> set (edges_of (edges g) u) = {}"
        by (auto simp: edges_of_facts(5))
    qed (auto simp: distinct_card edges_of_facts(1))
    also have "\<dots> \<le> card {..<length (edges g)}"
      by (intro card_mono) (auto simp: edges_of_facts(5))
    finally show ?thesis by simp
  qed
  from this [of ?n] show ?thesis
    unfolding unseen_work_def dfs_fuel_def by (simp add: sum_Suc)
qed

lemma dead_order_spec:
  assumes wf: "wf_twa_graph g" and i: "i < num_states g"
  shows "\<exists>useful order. dead_order g i = Some (useful, order) \<and> length useful = num_states g \<and>
    postorder g i order \<and> (\<forall>s < num_states g. useful ! s = (if s \<in> reachable g i then 1 else 0))"
proof -
  have wg: "wf_graph g" and ex: "is_existential g" using wf by (simp_all add: wf_twa_graph_def)
  let ?u = "(replicate (num_states g) 0)[i := 1]" and ?todo = "[(i, succ (states g ! i))]"
  have inv: "dfs_inv g i ?todo ?u []"
    unfolding dfs_inv_def using i entry_start(1) [OF wg i] by (auto simp: reachable_def nth_list_update)
  have "unseen_work g (set [] \<union> fst ` set ?todo) + stack_work g ?todo = unseen_work g {}"
    using unseen_work_insert [OF i, of "{}"] entry_start(2) [OF wg i] by (simp add: stack_work_def)
  then have "unseen_work g (set [] \<union> fst ` set ?todo) + stack_work g ?todo \<le> dfs_fuel g"
    using total_work [OF wg] by simp
  from dead_dfs_spec [OF wf inv _ this] obtain useful order where
    r: "dead_dfs (dfs_fuel g) g ?todo ?u [] = Some (useful, order)" and inv': "dfs_inv g i [] useful order" by auto
  have ord: "(\<forall>q \<in> fst ` set (succs g s). q \<in> set a \<or> s \<in> reachable g q) \<and> fst ` set (succs g s) \<subseteq> set order"
    if "order = a @ s # b" for a s b using inv' that unfolding dfs_inv_def by auto
  have "reachable g i \<subseteq> set order"
  proof (rule closed_reachable)
    show "\<forall>s \<in> set order. fst ` set (succs g s) \<subseteq> set order" using ord by (metis split_list)
    show "i \<in> set order" using inv' unfolding dfs_inv_def by simp
  qed
  then have "set order = reachable g i" using inv' unfolding dfs_inv_def by auto
  then have "postorder g i order" "\<forall>s < num_states g. useful ! s = (if s \<in> reachable g i then 1 else 0)"
    using inv' ord unfolding postorder_def dfs_inv_def by auto
  moreover have "dead_order g i = Some (useful, order)" using r ex by (simp add: dead_order_def)
  moreover have "length useful = num_states g" using inv' by (simp add: dfs_inv_def)
  ultimately show ?thesis by blast
qed

section \<open>The pass over the postorder\<close>

definition infinite_from :: "('s, 'e) digraph \<Rightarrow> nat \<Rightarrow> bool" where
  "infinite_from g s \<longleftrightarrow> (\<exists>p. p 0 = s \<and> (\<forall>i. (p i, p (Suc i)) \<in> edge_rel g))"

lemma infinite_step: "infinite_from g s \<longleftrightarrow> (\<exists>q. (s, q) \<in> edge_rel g \<and> infinite_from g q)"
proof
  assume "infinite_from g s"
  then obtain p where p: "p 0 = s" "\<And>i. (p i, p (Suc i)) \<in> edge_rel g" unfolding infinite_from_def by blast
  then have "infinite_from g (p 1)" unfolding infinite_from_def by (intro exI [of _ "\<lambda>i. p (Suc i)"]) simp
  with p show "\<exists>q. (s, q) \<in> edge_rel g \<and> infinite_from g q" by (metis One_nat_def)
next
  assume "\<exists>q. (s, q) \<in> edge_rel g \<and> infinite_from g q"
  then obtain p q where p: "(s, p 0) \<in> edge_rel g" "\<And>i. (p i, p (Suc i)) \<in> edge_rel g"
    unfolding infinite_from_def by blast
  then show "infinite_from g s"
    unfolding infinite_from_def by (intro exI [of _ "case_nat s p"]) (auto split: nat.split)
qed

lemma infinite_coinduct:
  assumes "s \<in> X" "\<And>u. u \<in> X \<Longrightarrow> \<exists>q \<in> X. (u, q) \<in> edge_rel g"
  shows "infinite_from g s"
proof -
  have "\<exists>p. \<forall>i. (p i \<in> X \<and> (i = 0 \<longrightarrow> p i = s)) \<and> (p i, p (Suc i)) \<in> edge_rel g"
    by (rule dependent_nat_choice) (use assms in auto)
  then show ?thesis unfolding infinite_from_def by blast
qed

lemma infinite_back: "infinite_from g q \<Longrightarrow> q \<in> reachable g s \<Longrightarrow> infinite_from g s"
proof -
  assume q: "infinite_from g q" "q \<in> reachable g s"
  have "(s, q) \<in> (edge_rel g)\<^sup>* \<Longrightarrow> infinite_from g s"
    by (induction rule: converse_rtrancl_induct) (use q(1) infinite_step in blast)+
  with q(2) show ?thesis by (simp add: reachable_def)
qed

lemma infinite_cycle: "(s, q) \<in> edge_rel g \<Longrightarrow> s \<in> reachable g q \<Longrightarrow> infinite_from g q"
proof -
  assume e: "(s, q) \<in> edge_rel g" "s \<in> reachable g q"
  have "infinite_from g s"
  proof (rule infinite_coinduct [of s "{u. s \<in> reachable g u}"])
    show "s \<in> {u. s \<in> reachable g u}" by (simp add: reachable_def)
    fix u assume "u \<in> {u. s \<in> reachable g u}"
    then have "(u, s) \<in> (edge_rel g)\<^sup>*" by (simp add: reachable_def)
    then show "\<exists>v \<in> {u. s \<in> reachable g u}. (u, v) \<in> edge_rel g"
      by (cases rule: converse_rtranclE) (use e in \<open>auto simp: reachable_def\<close>)
  qed
  then show ?thesis using e(2) by (rule infinite_back)
qed

lemma useful_edge_small:
  "is_existential g \<Longrightarrow> q < 2 ^ 31 \<Longrightarrow> useful_edge g useful q \<longleftrightarrow> useful ! q \<noteq> 0"
  by (simp add: useful_edge_def univ_dests_small univ_bit_def)

definition swept :: "('s, 'e) digraph \<Rightarrow> nat list \<Rightarrow> nat list \<Rightarrow> ('s, 'e) digraph \<times> nat list \<times> bool \<Rightarrow> bool" where
  "swept g useful a st \<longleftrightarrow>
     (case st of (h, u, erased) \<Rightarrow> \<not> erased \<and> wf_graph h \<and> num_states h = num_states g \<and> is_existential h \<and>
        length u = num_states g \<and>
        (\<forall>s < num_states g. succs h s = (if s \<in> set a then filter (\<lambda>e. infinite_from g (fst e)) (succs g s) else succs g s) \<and>
           u ! s = (if s \<in> set a then of_bool (infinite_from g s) else useful ! s)))"

lemma sweep_step:
  fixes g :: "(unit, ('l, 'm) edge_label) digraph"
  assumes wf: "wf_twa_graph g" "num_states g \<le> 2 ^ 31" and ord: "postorder g i (a @ s # b)"
    and useful: "\<forall>s < num_states g. useful ! s = (if s \<in> reachable g i then 1 else 0)"
    and sn: "s < num_states g" and sw: "swept g useful a st"
  shows "\<exists>st'. sweep (s # b) st = sweep b st' \<and> swept g useful (a @ [s]) st'"
proof -
  obtain h u where st: "st = (h, u, False)" and h: "wf_graph h" "num_states h = num_states g" "is_existential h"
      "length u = num_states g"
    and su: "\<And>s. s < num_states g \<Longrightarrow> succs h s = (if s \<in> set a then filter (\<lambda>e. infinite_from g (fst e)) (succs g s) else succs g s)"
    and uu: "\<And>s. s < num_states g \<Longrightarrow> u ! s = (if s \<in> set a then of_bool (infinite_from g s) else useful ! s)"
    using sw unfolding swept_def by (cases st) auto
  have s: "s \<notin> set a" "s \<in> reachable g i"
    using ord unfolding postorder_def by auto
  have q: "q < 2 ^ 31 \<and> (useful_edge h u q \<longleftrightarrow> infinite_from g q)" if "q \<in> fst ` set (succs g s)" for q
  proof -
    have qn: "q < num_states g" using that wf(1) sn unfolding wf_succs by fastforce
    have e: "(s, q) \<in> edge_rel g" using that sn by (simp add: edge_rel_def)
    have "useful_edge h u q \<longleftrightarrow> u ! q \<noteq> 0" using useful_edge_small [OF h(3)] qn wf(2) by simp
    also have "\<dots> \<longleftrightarrow> infinite_from g q"
    proof (cases "q \<in> set a")
      case True
      then show ?thesis using uu [OF qn] by simp
    next
      case False
      then have "s \<in> reachable g q" using ord that unfolding postorder_def by blast
      moreover have "q \<in> reachable g i" using s(2) e unfolding reachable_def by (auto intro: rtrancl_into_rtrancl)
      ultimately show ?thesis using uu [OF qn] useful qn False infinite_cycle [OF e] by simp
    qed
    finally show ?thesis using qn wf(2) by simp
  qed
  define P where "P = (\<lambda>d (x :: ('l, 'm) edge_label). \<not> useful_edge h u d)"
  define h' where "h' = erase_if P h s"
  have sn': "s < num_states h" using sn h(2) by simp
  note er = succs_erase_if [OF h(1) sn', where P = P, folded h'_def]
  have dsts: "fst ` set (succs g s) = (\<lambda>t. e_dst (edges h ! t)) ` set (out h s)"
  proof -
    have "fst ` set (succs h s) = (\<lambda>t. e_dst (edges h ! t)) ` set (out h s)"
      by (simp add: succs_def image_image)
    then show ?thesis using su [OF sn] s(1) by simp
  qed
  have useless: "list_all (\<lambda>t. \<not> useful_edge h u (e_dst (edges h ! t))) (out h s) \<longleftrightarrow> \<not> infinite_from g s"
  proof -
    have "list_all (\<lambda>t. \<not> useful_edge h u (e_dst (edges h ! t))) (out h s) \<longleftrightarrow>
        (\<forall>q \<in> fst ` set (succs g s). \<not> useful_edge h u q)" unfolding dsts by (simp add: list_all_iff)
    also have "\<dots> \<longleftrightarrow> (\<forall>q \<in> fst ` set (succs g s). \<not> infinite_from g q)" using q by blast
    also have "\<dots> \<longleftrightarrow> \<not> infinite_from g s" using infinite_step [of g s] sn by (auto simp: edge_rel_def)
    finally show ?thesis .
  qed
  have nouniv: "\<not> list_ex (\<lambda>t. \<not> useful_edge h u (e_dst (edges h ! t)) \<and> is_univ_dest (e_dst (edges h ! t))) (out h s)"
  proof -
    have "\<not> is_univ_dest (e_dst (edges h ! t))" if "t \<in> set (out h s)" for t
      using q [of "e_dst (edges h ! t)"] that unfolding dsts by (simp add: is_univ_dest_def univ_bit_def)
    then show ?thesis by (auto simp: list_ex_iff)
  qed
  define u' where "u' = (if \<not> infinite_from g s then u[s := 0] else u)"
  have step: "sweep (s # b) st = sweep b (h', u', False)"
    unfolding st sweep.simps Let_def useless u'_def using nouniv by (simp add: h'_def P_def)
  have "succs h' v = (if v \<in> set (a @ [s]) then filter (\<lambda>e. infinite_from g (fst e)) (succs g v) else succs g v)"
    if v: "v < num_states g" for v
  proof (cases "v = s")
    case True
    have "succs h' s = filter (\<lambda>(d, x). \<not> P d x) (succs g s)" using er(3) [OF sn'] su [OF sn] s(1) by simp
    also have "\<dots> = filter (\<lambda>e. infinite_from g (fst e)) (succs g s)"
    proof (intro filter_cong refl)
      fix e assume "e \<in> set (succs g s)"
      then have "useful_edge h u (fst e) \<longleftrightarrow> infinite_from g (fst e)" using q [of "fst e"] by blast
      then show "(case e of (d, x) \<Rightarrow> \<not> P d x) \<longleftrightarrow> infinite_from g (fst e)" by (simp add: P_def case_prod_unfold)
    qed
    finally show ?thesis using True by simp
  next
    case False
    then have "succs h' v = succs h v" using er(3) [of v] v h(2) by simp
    with False su [OF v] show ?thesis by simp
  qed
  moreover have "u' ! v = (if v \<in> set (a @ [s]) then of_bool (infinite_from g v) else useful ! v)"
    if v: "v < num_states g" for v
    using uu [OF v] h(4) sn s useful v unfolding u'_def by (cases "v = s") auto
  ultimately have "swept g useful (a @ [s]) (h', u', False)"
    unfolding swept_def using er h u'_def by simp
  with step show ?thesis by blast
qed

lemma sweep_spec:
  assumes wf: "wf_twa_graph g" "num_states g \<le> 2 ^ 31" and ord: "postorder g i order" and i: "i < num_states g"
    and useful: "\<forall>s < num_states g. useful ! s = (if s \<in> reachable g i then 1 else 0)" "length useful = num_states g"
  shows "swept g useful order (sweep order (g, useful, False))"
proof -
  have n: "set order \<subseteq> {..<num_states g}"
    using reachable_bound [OF wf(1) i] ord unfolding postorder_def by simp
  have "swept g useful (a @ b) (sweep b st)" if "order = a @ b" "swept g useful a st" for a b st
    using that
  proof (induction b arbitrary: a st)
    case (Cons s b)
    then obtain st' where st': "sweep (s # b) st = sweep b st'" "swept g useful (a @ [s]) st'"
      using sweep_step [OF wf, of i a s b useful st] ord useful(1) n by auto
    have "order = (a @ [s]) @ b" using Cons.prems(1) by simp
    from Cons.IH [OF this st'(2)] show ?case unfolding st'(1) by simp
  qed simp
  moreover have "swept g useful [] (g, useful, False)"
    using wf(1) useful(2) by (simp add: swept_def wf_twa_graph_def)
  ultimately show ?thesis by (metis append_Nil)
qed

lemma path_infinite:
  "is_path (delta g) w p m \<Longrightarrow> infinite_from g (p i) \<and> p i \<in> reachable g (p 0)"
proof -
  assume "is_path (delta g) w p m"
  then have e: "(p i, p (Suc i)) \<in> edge_rel g" for i
    unfolding is_path_def delta_succs edge_rel_def by force
  then have "infinite_from g (p i)" unfolding infinite_from_def by (intro exI [of _ "\<lambda>k. p (i + k)"]) simp
  moreover have "(p 0, p i) \<in> (edge_rel g)\<^sup>*"
    by (induction i) (use e in \<open>auto intro: rtrancl_into_rtrancl\<close>)
  ultimately show ?thesis by (simp add: reachable_def)
qed

text \<open>Erasing the edges to states that start no infinite path does not change the paths.\<close>

lemma accepts_swept:
  assumes wf: "wf_twa A" and h: "wf_graph h" "num_states h = num_states (graph A)" "is_existential h"
    and su: "\<And>s. s < num_states (graph A) \<Longrightarrow> succs h s =
      (if s \<in> reachable (graph A) (init_number A) then filter (\<lambda>e. infinite_from (graph A) (fst e)) (succs (graph A) s)
       else succs (graph A) s)"
  shows "wf_twa (A\<lparr>graph := h\<rparr>)" "accepts (A\<lparr>graph := h\<rparr>) w \<longleftrightarrow> accepts A w"
proof -
  let ?g = "graph A" and ?i = "init_number A"
  have wg: "wf_twa_graph ?g" "?i < num_states ?g" using wf by (auto simp: wf_twa_def)
  have sub: "set (succs h s) \<subseteq> set (succs ?g s)" if "s < num_states ?g" for s using su [OF that] by auto
  then show "wf_twa (A\<lparr>graph := h\<rparr>)"
    using wg h unfolding wf_twa_def wf_succs by fastforce
  have "is_path (delta h) w p m \<longleftrightarrow> is_path (delta ?g) w p m" if p0: "p 0 = ?i" for p m
  proof
    assume "is_path (delta h) w p m"
    then show "is_path (delta ?g) w p m"
      unfolding is_path_def delta_succs h(2) using sub by blast
  next
    assume p: "is_path (delta ?g) w p m"
    show "is_path (delta h) w p m" unfolding is_path_def
    proof
      fix k
      have "delta ?g (p k) (w k) (m k) (p (Suc k))" using p by (simp add: is_path_def)
      then obtain x where x: "p k < num_states ?g" "(p (Suc k), x) \<in> set (succs ?g (p k))" "w k \<in> cond x" "acc x = m k"
        unfolding delta_succs by blast
      have "(p (Suc k), x) \<in> set (succs h (p k))"
        using su [OF x(1)] x(2) path_infinite [OF p, of "Suc k"] by auto
      with x show "delta h (p k) (w k) (m k) (p (Suc k))" unfolding delta_succs h(2) by blast
    qed
  qed
  then show "accepts (A\<lparr>graph := h\<rparr>) w \<longleftrightarrow> accepts A w" unfolding accepts_def by auto
qed

lemma empty_twa_spec:
  fixes A :: "('l, 'n::len) twa_graph"
  shows "wf_twa (empty_twa A)" "num_states (graph (empty_twa A)) = 1" "succs (graph (empty_twa A)) 0 = []"
proof -
  define g0 :: "(unit, ('l, 'n mark_t) edge_label) digraph" where "g0 = digraph0 \<lparr>cond = {}, acc = 0\<rparr>"
  obtain h s where h: "new_state g0 () = (h, s)" by fastforce
  have g0: "wf_graph g0" "num_states g0 = 0" "is_existential g0"
    by (simp_all add: g0_def wf_digraph0) (simp_all add: digraph0_def num_states_def is_existential_def)
  note ns = succs_new_state [where g = g0 and d = "()", OF g0(1), unfolded h fst_conv snd_conv g0(2)]
  have "wf_graph h" "num_states h = 1" "s = 0" "succs h 0 = []" "is_existential h" using ns g0(3) by simp_all
  then show "wf_twa (empty_twa A)" "num_states (graph (empty_twa A)) = 1" "succs (graph (empty_twa A)) 0 = []"
    using h by (simp_all add: empty_twa_def wf_twa_def wf_succs g0_def)
qed

text \<open>
  Property C8: on an automaton without universal branching, \<open>purge_dead_states\<close> returns (its search
  ends) a well-formed automaton with the same language.  When an infinite path starts in the initial
  state, the result has exactly the reachable states from which an infinite path starts, and from
  every state of the result an infinite path starts; otherwise it is a single state without edges.
\<close>

theorem purge_dead_live:
  assumes "wf_twa A" "num_states (graph A) \<le> 2 ^ 31"
  shows "\<exists>B. purge_dead_states A = Inr B \<and> wf_twa B \<and> (\<forall>w. accepts B w \<longleftrightarrow> accepts A w) \<and>
    (if infinite_from (graph A) (init_number A)
     then num_states (graph B) = card {s \<in> reachable (graph A) (init_number A). infinite_from (graph A) s} \<and>
       (\<forall>s < num_states (graph B). infinite_from (graph B) s \<and> s \<in> reachable (graph B) (init_number B))
     else num_states (graph B) = 1 \<and> succs (graph B) 0 = [])"
proof -
  define g n i where "g = graph A" and "n = num_states g" and "i = init_number A"
  have wf: "wf_twa_graph g" "i < n" and ex: "is_existential g" and wg: "wf_graph g"
    using assms(1) by (auto simp: wf_twa_def wf_twa_graph_def g_def n_def i_def)
  have n31: "n \<le> 2 ^ 31" using assms(2) by (simp add: n_def g_def)
  obtain useful order where ord: "dead_order g i = Some (useful, order)" "length useful = n" "postorder g i order"
    "\<forall>s < n. useful ! s = (if s \<in> reachable g i then 1 else 0)"
    using dead_order_spec [OF wf(1)] wf(2) unfolding n_def by blast
  obtain h u e where st: "sweep order (g, useful, False) = (h, u, e)" by (metis prod_cases3)
  have sp: "swept g useful order (h, u, e)"
    using sweep_spec [OF wf(1) _ ord(3) _ ord(4) [unfolded n_def] ord(2) [unfolded n_def]] n31 wf(2) st
    unfolding n_def by simp
  define W where "W = {s \<in> reachable g i. infinite_from g s}"
  have set_order: "set order = reachable g i" using ord(3) by (simp add: postorder_def)
  have h: "wf_graph h" "num_states h = n" "is_existential h" "\<not> e" "length u = n"
    and su: "\<And>s. s < n \<Longrightarrow> succs h s = (if s \<in> reachable g i then filter (\<lambda>e. infinite_from g (fst e)) (succs g s) else succs g s)"
    and uW: "\<forall>s < n. u ! s \<noteq> 0 \<longleftrightarrow> s \<in> W"
    using sp ord(4) unfolding swept_def set_order W_def n_def by auto
  have Wn: "W \<subseteq> {..<n}" using reachable_bound [OF wf(1)] wf(2) unfolding W_def n_def by blast
  have "edges g \<noteq> []" using wg unfolding wf_graph_def by blast
  then obtain k where "length (edges g) = Suc k" by (cases "length (edges g)") auto
  then have sweeps: "sweeps (length (edges g)) order g useful False = Some (h, u, False)" using st h(4) by simp
  obtain newst c where num: "number_kept (\<lambda>u. u \<noteq> 0) 0 u = (newst, c)" by fastforce
  note kept = number_kept_states [OF h(5) Wn uW num]
  have init: "univ_dests h i = [i]" "get_init_state_number A = Inr i" "(u ! i \<noteq> 0) \<longleftrightarrow> infinite_from g i"
    using n31 wf(2) uW
    by (simp_all add: univ_dests_small univ_bit_def g_def i_def n_def get_init_state_number_def W_def reachable_def)
  have def_: "purge_dead_states A = (if \<not> infinite_from g i then Inr (empty_twa A)
      else if c = n then Inr (A\<lparr>graph := h\<rparr>)
      else Inr (twa_defrag_states (update_props forget_refuted (A\<lparr>graph := h\<rparr>)) newst c))"
    using ex ord(1) sweeps num init
    by (cases "infinite_from g i")
      (simp_all add: purge_dead_states_def Let_def g_def [symmetric] i_def [symmetric] n_def [symmetric])
  note sw = accepts_swept [OF assms(1) h(1) _ h(3), folded g_def i_def n_def, OF h(2) su]
  show ?thesis
  proof (cases "infinite_from g i")
    case False
    have no: "\<not> accepts A w" for w
      using False path_infinite [of g w _ _ 0] unfolding accepts_def g_def i_def by metis
    note B = empty_twa_spec [of A]
    have "\<not> accepts (empty_twa A) w" for w
      using B(1-3) unfolding accepts_def is_path_def delta_succs wf_twa_def by (metis empty_iff empty_set less_one)
    with no B False def_ show ?thesis by (simp add: g_def i_def)
  next
    case True
    then have iW: "i \<in> W" by (simp add: W_def reachable_def)
    have edge: "(s, q) \<in> edge_rel h" if "(s, q) \<in> edge_rel g" "infinite_from g q" for s q
      using that su h(2) by (auto simp: edge_rel_def n_def image_iff)
    have nextW: "\<exists>q \<in> W. (s, q) \<in> edge_rel h" if s: "s \<in> W" for s
    proof -
      obtain q where q: "(s, q) \<in> edge_rel g" "infinite_from g q" using s infinite_step [of g s] unfolding W_def by auto
      moreover have "q \<in> reachable g i" using s q unfolding W_def reachable_def by (auto intro: rtrancl_into_rtrancl)
      ultimately show ?thesis using edge unfolding W_def by blast
    qed
    have reachW: "s \<in> reachable h i" if s: "s \<in> W" for s
    proof -
      have "(i, s) \<in> (edge_rel g)\<^sup>* \<Longrightarrow> infinite_from g s \<Longrightarrow> (i, s) \<in> (edge_rel h)\<^sup>*"
        by (induction rule: rtrancl_induct) (use edge infinite_step in \<open>blast intro: rtrancl_into_rtrancl\<close>)+
      with s show ?thesis by (simp add: W_def reachable_def)
    qed
    have infW: "infinite_from h s" if "s \<in> W" for s using that nextW by (rule infinite_coinduct)
    show ?thesis
    proof (cases "c = n")
      case cn: True
      then have "W = {..<n}" using Wn kept(3) card_subset_eq [of "{..<n}" W] by simp
      with cn def_ True sw reachW infW h(2) kept(3) show ?thesis
        by (intro exI [of _ "A\<lparr>graph := h\<rparr>"]) (auto simp: g_def i_def W_def)
    next
      case cn: False
      define keep where "keep = (\<lambda>s. s \<in> W)"
      define B where "B = twa_defrag_states (update_props forget_refuted (A\<lparr>graph := h\<rparr>)) newst c"
      have ki: "kept_number keep i = Some (rank keep i)" using iW by (simp add: keep_def kept_number_def)
      have B: "graph B = kept_graph keep h" "init_number B = rank keep i" "twa_acc B = twa_acc A"
        using kept(1,2) h(2,3) ki fun_cong [OF kept(1), of i]
        by (auto simp: B_def twa_defrag_states_def i_def keep_def Let_def split: if_splits)
      have cl: "closed_set h keep"
        unfolding closed_set_def keep_def h(2)
      proof (intro allI impI ballI)
        fix s q assume s: "s < n" "s \<in> W" "q \<in> fst ` set (succs h s)"
        then have "infinite_from g q" "q \<in> fst ` set (succs g s)" using su [OF s(1)] unfolding W_def by auto
        moreover have "(s, q) \<in> edge_rel g" using calculation s(1) by (simp add: edge_rel_def n_def)
        ultimately have "q \<in> W" using s(2) unfolding W_def reachable_def by (auto intro: rtrancl_into_rtrancl)
        then show "q \<in> W \<and> q < n" using Wn by blast
      qed
      have ok: "wf_twa B" "accepts B w \<longleftrightarrow> accepts A w" for w
        using accepts_kept [of "A\<lparr>graph := h\<rparr>" keep B] sw cl iW B by (auto simp: i_def keep_def)
      have nB: "num_states (graph B) = c"
        using succs_kept(2) [where keep = keep, OF h(1), of i] h(2) wf(2) iW B(1) kept(2) by (simp add: keep_def)
      have onto: "\<exists>v \<in> W. rank keep v = s" if s: "s < c" for s
        using rank_onto [of s keep n] s kept(2) by (auto simp: keep_def)
      have inf: "infinite_from (graph B) s" if s: "s < c" for s
      proof (rule infinite_coinduct [of s "rank keep ` W"])
        show "s \<in> rank keep ` W" using onto [OF s] by auto
        fix u assume "u \<in> rank keep ` W"
        then obtain v q where "v \<in> W" "u = rank keep v" "q \<in> W" "(v, q) \<in> edge_rel h" using nextW by blast
        then show "\<exists>q \<in> rank keep ` W. (u, q) \<in> edge_rel (graph B)"
          using kept_edge [OF h(1), of keep v q] unfolding B(1) by (auto simp: keep_def)
      qed
      have "s \<in> reachable (graph B) (init_number B)" if "s < c" for s
      proof -
        obtain v where "v \<in> W" "rank keep v = s" using onto [OF \<open>s < c\<close>] by blast
        then show ?thesis
          using kept_reachable [OF h(1) cl, of i v] reachW iW wf(2) h(2) unfolding B by (simp add: keep_def)
      qed
      with inf ok nB have "wf_twa B \<and> (\<forall>w. accepts B w \<longleftrightarrow> accepts A w) \<and> num_states (graph B) = card W \<and>
          (\<forall>s < num_states (graph B). infinite_from (graph B) s \<and> s \<in> reachable (graph B) (init_number B))"
        using kept(3) by simp
      moreover have "purge_dead_states A = Inr B" using def_ True cn by (simp add: B_def)
      ultimately show ?thesis using True by (simp add: W_def g_def i_def)
    qed
  qed
qed

theorem purge_dead_live_witness:
  "\<exists>B. purge_dead_states island = Inr B \<and> wf_twa B \<and> (\<forall>w. accepts B w \<longleftrightarrow> accepts island w)"
  using purge_dead_live [of island] island_spec by auto

end
