(* ===== verification/TwaMerge.thy ===== *)
theory TwaMerge
  imports TwaDead
begin

unbundle bit_operations_syntax

text \<open>
  Merging (twa/twagraph.cc): \<open>merge_univ_dests\<close>, \<open>merge_edges\<close> and \<open>merge_states\<close>.  The order on
  BDDs that \<open>merge_edges\<close> sorts with (\<open>bdd_less_than_stable\<close>, by the structure of the BDD nodes) is a
  parameter; nothing is assumed about it for the language, and that it is a strict linear order for the
  grouping of the edges with equal conditions.
\<close>

section \<open>Merging universal destinations\<close>

type_synonym 'g dest_fixer = "('g \<times> (nat list \<rightharpoonup> nat)) \<times> nat list"

definition univ_fixup :: "nat list \<Rightarrow> nat \<Rightarrow> ('s, 'e) digraph dest_fixer \<Rightarrow> nat \<times> ('s, 'e) digraph dest_fixer" where
  "univ_fixup old_dests d st =
    (case st of ((g, uniq), seen) \<Rightarrow>
       if \<not> is_univ_dest d then (d, st)
       else let i = compl32 d in
         if seen ! i \<noteq> no_group then (seen ! i, st)
         else case mapper_univ_dests g uniq (take (old_dests ! i) (drop (i + 1) old_dests)) of
           (mapper, nd) \<Rightarrow> (nd, (mapper, seen[i := nd])))"

fun univ_fixups :: "nat list \<Rightarrow> nat list \<Rightarrow> ('s, 'e) digraph dest_fixer \<Rightarrow> ('s, 'e) digraph dest_fixer" where
  "univ_fixups old_dests [] st = st"
| "univ_fixups old_dests (t # ts) st =
     (if is_dead_edge (fst (fst st)) t then univ_fixups old_dests ts st
      else case univ_fixup old_dests (e_dst (edges (fst (fst st)) ! t)) st of
        (nd, ((g, uniq), seen)) \<Rightarrow>
          univ_fixups old_dests ts ((g\<lparr>edges := (edges g)[t := (edges g ! t)\<lparr>e_dst := nd\<rparr>]\<rparr>, uniq), seen))"

definition merge_univ_dests :: "('l, 'n::len) twa_graph \<Rightarrow> ('l, 'n) twa_graph" where
  "merge_univ_dests A =
    (let old = dests (graph A); g = (graph A)\<lparr>dests := []\<rparr>;
         st = univ_fixups old [1..<length (edges g)] ((g, Map.empty), replicate (length old) no_group)
     in case univ_fixup old (init_number A) st of
          (i, ((g, uniq), seen)) \<Rightarrow> A\<lparr>graph := g, init_number := i\<rparr>)"

section \<open>Merging edges\<close>

definition edge_less_acc :: "('l, 'n::len mark_t) edge_label edge_storage \<Rightarrow> ('l, 'n mark_t) edge_label edge_storage \<Rightarrow> bool" where
  "edge_less_acc lhs rhs =
    (if e_src lhs < e_src rhs then True else if e_src rhs < e_src lhs then False
     else if e_dst lhs < e_dst rhs then True else if e_dst rhs < e_dst lhs then False
     else mark_less (e_acc lhs) (e_acc rhs))"

definition edge_less_cond :: "('l set \<Rightarrow> 'l set \<Rightarrow> bool) \<Rightarrow>
    ('l, 'm) edge_label edge_storage \<Rightarrow> ('l, 'm) edge_label edge_storage \<Rightarrow> bool" where
  "edge_less_cond lt lhs rhs =
    (if e_src lhs < e_src rhs then True else if e_src rhs < e_src lhs then False
     else if e_dst lhs < e_dst rhs then True else if e_dst rhs < e_dst lhs then False
     else lt (e_cond lhs) (e_cond rhs))"

text \<open>The loops compact the vector in place; \<open>cur\<close> is the edge at the position \<open>out\<close>.\<close>

fun merge_conds :: "('l, 'm) edge_label edge_storage \<Rightarrow> ('l, 'm) edge_label edge_storage list \<Rightarrow>
    ('l, 'm) edge_label edge_storage list" where
  "merge_conds cur [] = [cur]"
| "merge_conds cur (e # es) =
     (if e_cond e = {} then merge_conds cur es
      else if e_dst cur = e_dst e \<and> e_acc cur = e_acc e \<and> e_src cur = e_src e
      then merge_conds (cur\<lparr>e_data := (e_data cur)\<lparr>cond := e_cond cur \<union> e_cond e\<rparr>\<rparr>) es
      else cur # merge_conds e es)"

fun merge_accs :: "('l, 'n::len mark_t) edge_label edge_storage \<Rightarrow> ('l, 'n mark_t) edge_label edge_storage list \<Rightarrow>
    ('l, 'n mark_t) edge_label edge_storage list" where
  "merge_accs cur [] = [cur]"
| "merge_accs cur (e # es) =
     (if e_dst cur = e_dst e \<and> e_cond cur = e_cond e \<and> e_src cur = e_src e
      then merge_accs (cur\<lparr>e_data := (e_data cur)\<lparr>acc := e_acc cur OR e_acc e\<rparr>\<rparr>) es
      else cur # merge_accs e es)"

definition drop_false_edges :: "('l, 'm) edge_label edge_storage list \<Rightarrow> ('l, 'm) edge_label edge_storage list" where
  "drop_false_edges es =
    (case dropWhile (\<lambda>e. e_cond e = {}) es of [] \<Rightarrow> [] | e # es \<Rightarrow> merge_conds e es)"

text \<open>The second loop starts with \<open>out = in = 2\<close>: it never looks at the first edge.\<close>

definition merge_parallel :: "('l, 'n::len mark_t) edge_label edge_storage list \<Rightarrow> ('l, 'n mark_t) edge_label edge_storage list" where
  "merge_parallel es = (case es of e1 # e2 # es \<Rightarrow> e1 # merge_accs e2 es | _ \<Rightarrow> es)"

definition merge_edges :: "('l set \<Rightarrow> 'l set \<Rightarrow> bool) \<Rightarrow> ('l, 'n::len) twa_graph \<Rightarrow> twa_error + ('l, 'n) twa_graph" where
  "merge_edges lt A =
    (let A = A\<lparr>graph := remove_dead_edges (graph A)\<rparr>;
         A = (if \<not> is_existential (graph A) then merge_univ_dests A else A);
         g = sort_edges edge_less_acc (graph A);
         g1 = g\<lparr>edges := hd (edges g) # drop_false_edges (tl (edges g))\<rparr>;
         g2 = (if 2 < length (edges g1) \<and> \<not> uses_fin_acceptance (twa_acc A)
               then let g = sort_edges (edge_less_cond lt) g1
                    in g\<lparr>edges := hd (edges g) # merge_parallel (tl (edges g))\<rparr>
               else g1)
     in case chain_edges g2 of None \<Rightarrow> Inl Undefined
      | Some g3 \<Rightarrow>
          let A = A\<lparr>graph := g3\<rparr>
          in Inr (if length (edges g3) \<noteq> length (edges g) \<and> is_false (universal (props A))
                  then update_props (set_universal trival_maybe) A else A))"

section \<open>Merging states\<close>

definition same_succs :: "('s, ('l, 'm) edge_label) digraph \<Rightarrow> nat \<Rightarrow> nat \<Rightarrow> bool" where
  "same_succs g i j \<longleftrightarrow>
    list_all2 (\<lambda>t u. e_dst (edges g ! t) = e_dst (edges g ! u) \<and> e_data (edges g ! t) = e_data (edges g ! u))
      (out g i) (out g j)"

definition equal_state :: "('s, ('l, 'm) edge_label) digraph \<Rightarrow> nat \<Rightarrow> nat option" where
  "equal_state g i = find (\<lambda>j. same_succs g i j) [0..<i]"

definition redirect_edges :: "nat option list \<Rightarrow> ('s, 'e) digraph \<Rightarrow> ('s, 'e) digraph" where
  "redirect_edges remap g =
    fold (\<lambda>t g. case remap ! e_dst (edges g ! t) of None \<Rightarrow> g
                | Some j \<Rightarrow> g\<lparr>edges := (edges g)[t := (edges g ! t)\<lparr>e_dst := j\<rparr>]\<rparr>) (all_edges g) g"

definition merge_states :: "('l, 'n::len) twa_graph \<Rightarrow> twa_error + ('l, 'n) twa_graph" where
  "merge_states A =
    (if \<not> is_existential (graph A) then Inl Alternating_automaton
     else let g = graph A; remap = map (equal_state g) [0..<num_states g];
              A = A\<lparr>graph := redirect_edges remap g\<rparr>
       in bind_sum (get_init_state_number A) (\<lambda>i.
          bind_sum (case remap ! i of None \<Rightarrow> Inr A | Some j \<Rightarrow> set_init_state A j) (\<lambda>A.
            case number_kept (\<lambda>r. r = None) 0 remap of (newst, st) \<Rightarrow> Inr (twa_defrag_states A newst st))))"

section \<open>Merging states keeps the language\<close>

text \<open>Redirecting the edges towards states with the same list of edges.\<close>

lemma same_succs_iff: "same_succs g i j \<longleftrightarrow> succs g i = succs g j"
  by (auto simp: same_succs_def succs_def list_all2_conv_all_nth list_eq_iff_nth_eq)

definition target :: "nat option list \<Rightarrow> nat \<Rightarrow> nat" where
  "target remap s = (case remap ! s of None \<Rightarrow> s | Some j \<Rightarrow> j)"

lemma equal_state_target:
  assumes "remap = map (equal_state g) [0..<n]" "s < n"
  shows "target remap s \<le> s" "succs g (target remap s) = succs g s" "remap ! target remap s = None"
proof -
  have r: "remap ! i = equal_state g i" if "i < n" for i using that assms(1) by simp
  have none: "equal_state g i = None" if "\<forall>j < i. \<not> same_succs g i j" for i
    using that unfolding equal_state_def by (simp add: find_None_iff)
  show "target remap s \<le> s" "succs g (target remap s) = succs g s" "remap ! target remap s = None"
  proof (atomize (full), cases "equal_state g s")
    case None
    then show "target remap s \<le> s \<and> succs g (target remap s) = succs g s \<and> remap ! target remap s = None"
      using r [OF assms(2)] by (simp add: target_def)
  next
    case (Some j)
    then have j: "j < s" "same_succs g s j" "\<forall>k < j. \<not> same_succs g s k"
      unfolding equal_state_def find_Some_iff by (auto simp: nth_append)
    then have "\<forall>k < j. \<not> same_succs g j k" by (simp add: same_succs_iff)
    then have "remap ! j = None" using none [of j] r [of j] j(1) assms(2) by simp
    with Some j r [OF assms(2)] show "target remap s \<le> s \<and> succs g (target remap s) = succs g s \<and> remap ! target remap s = None"
      by (simp add: target_def same_succs_iff)
  qed
qed

definition redirect :: "(nat \<Rightarrow> nat) \<Rightarrow> 'e edge_storage \<Rightarrow> 'e edge_storage" where
  "redirect f e = e\<lparr>e_dst := f (e_dst e)\<rparr>"

lemma redirect_id: "f (e_dst e) = e_dst e \<Longrightarrow> redirect f e = e"
  by (cases e) (simp add: redirect_def)

lemma redirect_fold:
  assumes "distinct ts" "\<forall>t \<in> set ts. t < length (edges g)"
  shows "fold (\<lambda>t g. case remap ! e_dst (edges g ! t) of None \<Rightarrow> g
            | Some j \<Rightarrow> g\<lparr>edges := (edges g)[t := (edges g ! t)\<lparr>e_dst := j\<rparr>]\<rparr>) ts g =
    g\<lparr>edges := map (\<lambda>t. if t \<in> set ts then redirect (target remap) (edges g ! t) else edges g ! t) [0..<length (edges g)]\<rparr>"
  using assms
proof (induction ts arbitrary: g)
  case Nil
  have "map (\<lambda>t. edges g ! t) [0..<length (edges g)] = edges g" by (rule map_nth)
  then show ?case by simp
next
  case (Cons t ts)
  define h where "h = (case remap ! e_dst (edges g ! t) of None \<Rightarrow> g
      | Some j \<Rightarrow> g\<lparr>edges := (edges g)[t := (edges g ! t)\<lparr>e_dst := j\<rparr>]\<rparr>)"
  have t: "t < length (edges g)" using Cons.prems by simp
  have h: "h = g\<lparr>edges := (edges g)[t := redirect (target remap) (edges g ! t)]\<rparr>"
  proof (cases "remap ! e_dst (edges g ! t)")
    case None
    then have "redirect (target remap) (edges g ! t) = edges g ! t" by (intro redirect_id) (simp add: target_def)
    with None show ?thesis by (simp add: h_def)
  qed (simp add: h_def redirect_def target_def)
  have "\<forall>u \<in> set ts. u < length (edges h)" using Cons.prems h by simp
  from Cons.IH [OF _ this] Cons.prems(1)
  have "fold (\<lambda>t g. case remap ! e_dst (edges g ! t) of None \<Rightarrow> g
        | Some j \<Rightarrow> g\<lparr>edges := (edges g)[t := (edges g ! t)\<lparr>e_dst := j\<rparr>]\<rparr>) (t # ts) g =
      h\<lparr>edges := map (\<lambda>u. if u \<in> set ts then redirect (target remap) (edges h ! u) else edges h ! u) [0..<length (edges h)]\<rparr>"
    by (simp add: h_def [symmetric])
  also have "map (\<lambda>u. if u \<in> set ts then redirect (target remap) (edges h ! u) else edges h ! u) [0..<length (edges h)] =
      map (\<lambda>u. if u \<in> set (t # ts) then redirect (target remap) (edges g ! u) else edges g ! u) [0..<length (edges g)]"
    using Cons.prems(1) t unfolding h by (intro map_cong) (auto simp: nth_list_update)
  finally show ?case using h by simp
qed

lemma all_edges_distinct: "wf_graph g \<Longrightarrow> distinct (all_edges g) \<and> (\<forall>t \<in> set (all_edges g). t < length (edges g))"
  by (auto simp: all_edges_live)

lemma succs_redirect:
  assumes "wf_graph g"
  shows "wf_graph (redirect_edges remap g)" "num_states (redirect_edges remap g) = num_states g"
    "is_existential (redirect_edges remap g) = is_existential g"
    "s < num_states g \<Longrightarrow> succs (redirect_edges remap g) s = map (\<lambda>(q, x). (target remap q, x)) (succs g s)"
proof -
  let ?h = "redirect_edges remap g"
  have h: "?h = g\<lparr>edges := map (\<lambda>t. if t \<in> set (all_edges g) then redirect (target remap) (edges g ! t) else edges g ! t)
      [0..<length (edges g)]\<rparr>"
    using redirect_fold all_edges_distinct [OF assms] unfolding redirect_edges_def by blast
  then have st: "states ?h = states g" "dests ?h = dests g" "killed_edge ?h = killed_edge g"
    and len: "length (edges ?h) = length (edges g)"
    and e: "\<And>t. t < length (edges g) \<Longrightarrow> edges ?h ! t = (if t \<in> set (all_edges g) then redirect (target remap) (edges g ! t) else edges g ! t)"
    by simp_all
  have d: "is_dead (edges ?h) t \<longleftrightarrow> is_dead (edges g) t" and s: "e_src (edges ?h ! t) = e_src (edges g ! t)"
    and nx: "next_succ (edges ?h ! t) = next_succ (edges g ! t)" if "t < length (edges g)" for t
    using e [OF that] by (simp_all add: is_dead_def redirect_def)
  have of: "edges_of (edges ?h) u = edges_of (edges g) u" for u
    using len d s by (intro edges_of_cong) auto
  have ne: "edges g \<noteq> []" using assms unfolding wf_graph_def by blast
  have "state_wf (edges ?h) u (states ?h ! u)" if "u < length (states g)" for u
  proof (rule state_wf_cong)
    show "state_wf (edges g) u (states ?h ! u)" using assms that st unfolding wf_graph_def by auto
    show "next_succ (edges ?h ! t) = next_succ (edges g ! t)" if "t \<in> set (edges_of (edges g) u)" for t
      using that nx by (simp add: edges_of_facts)
  qed (rule of)
  moreover have "filter (is_dead (edges ?h)) [1..<length (edges ?h)] = filter (is_dead (edges g)) [1..<length (edges g)]"
    unfolding len using d by (intro filter_cong) auto
  ultimately show wf: "wf_graph ?h"
    using assms st len d s nx [of 0] ne unfolding wf_graph_def by (auto simp flip: length_greater_0_conv)
  show n: "num_states ?h = num_states g" "is_existential ?h = is_existential g"
    using st by (simp_all add: num_states_def is_existential_def)
  show "succs ?h s = map (\<lambda>(q, x). (target remap q, x)) (succs g s)" if sn: "s < num_states g"
  proof -
    have "t \<in> set (all_edges g)" if "t \<in> set (edges_of (edges g) s)" for t
      using that unfolding all_edges_live [OF assms] by (auto simp: edges_of_facts is_valid_edge_def)
    then show ?thesis
      using assms wf n sn e of by (auto simp: succs_of edges_of_facts redirect_def)
  qed
qed

text \<open>A map on states that preserves the lists of edges gives a bisimulation.\<close>

definition merged_state :: "('s, ('l, 'm) edge_label) digraph \<Rightarrow> nat option list \<Rightarrow> nat \<Rightarrow> nat \<Rightarrow> bool" where
  "merged_state g remap p p' \<longleftrightarrow> wf_graph g \<and> p < num_states g \<and> p' = target remap p \<and>
     (\<forall>s < num_states g. target remap s < num_states g \<and> succs g (target remap s) = succs g s \<and>
        (\<forall>q \<in> fst ` set (succs g s). q < num_states g))"

lemma delta_merged:
  assumes "merged_state g remap p p'"
  shows "delta (redirect_edges remap g) p' a m q' \<longleftrightarrow> (\<exists>q. delta g p a m q \<and> merged_state g remap q q')"
proof -
  have p: "wf_graph g" "p < num_states g" "p' < num_states g" "succs g p' = succs g p"
    using assms unfolding merged_state_def by auto
  have "(q', x) \<in> set (succs (redirect_edges remap g) p') \<longleftrightarrow> (\<exists>q. q' = target remap q \<and> (q, x) \<in> set (succs g p))" for x
    unfolding succs_redirect(4) [OF p(1,3)] p(4) by force
  moreover have "merged_state g remap q q' \<longleftrightarrow> q' = target remap q" if "(q, x) \<in> set (succs g p)" for q x
    using assms that unfolding merged_state_def by force
  ultimately show ?thesis unfolding delta_succs succs_redirect(2) [OF p(1)] using p by blast
qed

interpretation merge_fwd: path_simulation "delta g" "delta (redirect_edges remap g)" "merged_state g remap" "(=)"
  for g :: "('s, ('l, 'm) edge_label) digraph" and remap
proof
  fix p p' a m q assume R: "merged_state g remap p p'" and d: "delta g p a m q"
  have "merged_state g remap q (target remap q)"
    using R d unfolding merged_state_def delta_succs by force
  with R d show "\<exists>q' n. delta (redirect_edges remap g) p' a n q' \<and> m = n \<and> merged_state g remap q q'"
    using delta_merged [OF R] by blast
qed

interpretation merge_bwd: path_simulation "delta (redirect_edges remap g)" "delta g" "\<lambda>p' p. merged_state g remap p p'" "(=)"
  for g :: "('s, ('l, 'm) edge_label) digraph" and remap
proof
  fix p p' a m q assume R: "merged_state g remap p p'" and d: "delta (redirect_edges remap g) p' a m q"
  then show "\<exists>q' n. delta g p a n q' \<and> m = n \<and> merged_state g remap q' q"
    using delta_merged [OF R] by blast
qed

lemma accepts_redirect:
  assumes wf: "wf_twa A" and remap: "remap = map (equal_state (graph A)) [0..<num_states (graph A)]"
    and h: "graph B = redirect_edges remap (graph A)" "init_number B = target remap (init_number A)" "twa_acc B = twa_acc A"
  shows "wf_twa B" "accepts B w \<longleftrightarrow> accepts A w"
proof -
  let ?g = "graph A"
  have wg: "wf_twa_graph ?g" "init_number A < num_states ?g" "wf_graph ?g" using wf by (auto simp: wf_twa_def wf_twa_graph_def)
  note tg = equal_state_target [OF remap]
  have start: "merged_state ?g remap (init_number A) (init_number B)"
    unfolding merged_state_def h(2)
  proof (intro conjI allI impI ballI)
    fix s assume s: "s < num_states ?g"
    then show "target remap s < num_states ?g" "succs ?g (target remap s) = succs ?g s"
      using tg(1,2) [OF s] by simp_all
    fix q assume "q \<in> fst ` set (succs ?g s)"
    then show "q < num_states ?g" using wg(1) s succs_less by blast
  qed (use wg in simp_all)
  have lt: "target remap q < num_states ?g" if "q < num_states ?g" for q using tg(1) [OF that] that by simp
  note re = succs_redirect [OF wg(3), where remap = remap]
  show "wf_twa B"
    unfolding wf_twa_def wf_succs h re(2,3)
  proof (intro conjI allI impI ballI)
    fix s qx assume s: "s < num_states ?g" "qx \<in> set (succs (redirect_edges remap ?g) s)"
    obtain q x where q: "qx = (target remap q, x)" "(q, x) \<in> set (succs ?g s)" using s(2) unfolding re(4) [OF s(1)] by auto
    have "q < num_states ?g" using succs_less [OF wg(1) s(1)] q(2) by force
    then show "case qx of (q, x) \<Rightarrow> q < num_states ?g" using lt q(1) by simp
  qed (use wg re(1) lt in \<open>auto simp: wf_twa_graph_def\<close>)
  show "accepts B w \<longleftrightarrow> accepts A w"
  proof
    assume "accepts B w"
    then obtain p m where p: "p 0 = init_number B" "is_path (delta (redirect_edges remap ?g)) w p m"
      "cond_accepting (twa_acc A) (inf_mark m)" unfolding accepts_def h(1,3) by blast
    with merge_bwd.lift_path [OF p(2)] start obtain q n where
      "q 0 = init_number A" "is_path (delta ?g) w q n" "\<forall>i. m i = n i" by metis
    moreover from this have "m = n" by auto
    ultimately show "accepts A w" using p(3) unfolding accepts_def by blast
  next
    assume "accepts A w"
    then obtain p m where p: "p 0 = init_number A" "is_path (delta ?g) w p m"
      "cond_accepting (twa_acc A) (inf_mark m)" unfolding accepts_def by blast
    with merge_fwd.lift_path [OF p(2)] start obtain q n where
      "q 0 = init_number B" "is_path (delta (redirect_edges remap ?g)) w q n" "\<forall>i. m i = n i" by metis
    moreover from this have "m = n" by auto
    ultimately show "accepts B w" using p(3) unfolding accepts_def h by blast
  qed
qed

lemma set_init_state_ok: "j < num_states (graph A) \<Longrightarrow> j < 2 ^ 31 \<Longrightarrow> set_init_state A j = Inr (A\<lparr>init_number := j\<rparr>)"
  by (simp add: set_init_state_def is_univ_dest_def univ_bit_def)

text \<open>
  Property C9: on an automaton without universal branching, \<open>merge_states\<close> returns a well-formed
  automaton with the same language and one state for each list of edges that some state had; on an
  alternating automaton it fails.
\<close>

theorem merge_states_sound:
  assumes "wf_twa A" "num_states (graph A) \<le> 2 ^ 31"
  shows "(\<exists>B. merge_states A = Inr B \<and> wf_twa B \<and> (\<forall>w. accepts B w \<longleftrightarrow> accepts A w) \<and>
      num_states (graph B) = card (succs (graph A) ` {..<num_states (graph A)})) \<and>
    (\<not> is_existential (graph C) \<longrightarrow> merge_states C = Inl Alternating_automaton)"
proof (intro conjI impI)
  define g n i where "g = graph A" and "n = num_states g" and "i = init_number A"
  define remap where "remap = map (equal_state g) [0..<n]"
  define W where "W = {s. s < n \<and> remap ! s = None}"
  define keep where "keep = (\<lambda>s. s \<in> W)"
  define R where "R = A\<lparr>graph := redirect_edges remap g, init_number := target remap i\<rparr>"
  have wf: "wf_twa_graph g" "wf_graph g" "is_existential g" and i: "i < n"
    using assms(1) by (auto simp: wf_twa_def wf_twa_graph_def g_def n_def i_def)
  note tg = equal_state_target [OF remap_def]
  note re = succs_redirect [OF wf(2), where remap = remap]
  have ti: "target remap i < n" using tg(1) [OF i] i by simp
  have R: "wf_twa R" "\<And>w. accepts R w \<longleftrightarrow> accepts A w"
    using accepts_redirect [OF assms(1), of remap R] by (simp_all add: R_def remap_def g_def n_def i_def)
  obtain newst st where num: "number_kept (\<lambda>r. r = None) 0 remap = (newst, st)" by fastforce
  have W: "W \<subseteq> {..<n}" "\<forall>s < n. remap ! s = None \<longleftrightarrow> s \<in> W" "length remap = n"
    by (auto simp: W_def remap_def)
  note kept = number_kept_states [OF W(3,1,2) num]
  have iW: "target remap i \<in> W" using tg(3) [OF i] ti by (simp add: W_def)
  have init: "(case remap ! i of None \<Rightarrow> Inr (A\<lparr>graph := redirect_edges remap g\<rparr>)
      | Some j \<Rightarrow> set_init_state (A\<lparr>graph := redirect_edges remap g\<rparr>) j) = Inr R"
  proof (cases "remap ! i")
    case None
    then show ?thesis by (simp add: R_def target_def i_def)
  next
    case (Some j)
    then have "j < n" using ti by (simp add: target_def)
    then have "j < num_states (redirect_edges remap g)" "j < 2 ^ 31" using re(2) assms(2) by (simp_all add: n_def g_def)
    with Some show ?thesis by (simp add: set_init_state_ok R_def target_def)
  qed
  define B where "B = twa_defrag_states R newst st"
  have res: "merge_states A = Inr B"
    using wf(3) init num re(2) i
    unfolding merge_states_def Let_def g_def [symmetric] n_def [symmetric] remap_def [symmetric]
    by (simp add: i_def [symmetric] get_init_state_number_def B_def)
  have ki: "kept_number keep (target remap i) = Some (rank keep (target remap i))"
    using iW by (simp add: kept_number_def keep_def)
  have B: "graph B = kept_graph keep (graph R)" "init_number B = rank keep (init_number R)" "twa_acc B = twa_acc R"
    using kept(1,2) re(2,3) wf(3) ki fun_cong [OF kept(1), of "target remap i"]
    by (auto simp: B_def R_def twa_defrag_states_def keep_def n_def Let_def split: if_splits)
  have cl: "closed_set (graph R) keep"
    unfolding closed_set_def
  proof (intro allI impI ballI)
    fix s q assume s: "s < num_states (graph R)" "q \<in> fst ` set (succs (graph R) s)"
    have sn: "s < num_states g" and gR: "graph R = redirect_edges remap g" using s(1) re(2) by (simp_all add: R_def)
    obtain q0 where q0: "q = target remap q0" "q0 \<in> fst ` set (succs g s)"
      using s(2) unfolding gR re(4) [OF sn] by force
    have "q0 < n" using succs_less [OF wf(1) sn q0(2)] by (simp add: n_def)
    then have "q < n" "remap ! q = None" using tg(1,3) [of q0] q0(1) by simp_all
    then show "keep q \<and> q < num_states (graph R)" using re(2) by (simp add: keep_def W_def n_def gR)
  qed
  have ok: "wf_twa B" "accepts B w \<longleftrightarrow> accepts A w" for w
    using accepts_kept [OF R(1) cl _ B] R(2) iW by (simp_all add: keep_def R_def)
  have "num_states (graph B) = card W"
    using succs_kept(2) [where keep = keep and s = "target remap i" and g = "graph R"] R(1) ti iW kept re(2)
    unfolding B(1) by (simp add: keep_def R_def wf_twa_def wf_twa_graph_def n_def)
  also have "\<dots> = card (succs g ` W)"
  proof (rule card_image [symmetric], rule inj_onI)
    fix s u assume su: "s \<in> W" "u \<in> W" "succs g s = succs g u"
    have False if "a < b" "a \<in> W" "b \<in> W" "succs g a = succs g b" for a b
    proof -
      have "equal_state g b = None" using that by (auto simp: W_def remap_def)
      then show False using that unfolding equal_state_def find_None_iff by (auto simp: same_succs_iff)
    qed
    with su show "s = u" by (metis linorder_neqE_nat)
  qed
  also have "succs g ` W = succs g ` {..<n}"
  proof (intro equalityI subsetI)
    fix l assume "l \<in> succs g ` {..<n}"
    then obtain s where s: "s < n" "l = succs g s" by auto
    then have "target remap s \<in> W" "succs g (target remap s) = l" using tg [OF s(1)] by (auto simp: W_def)
    then show "l \<in> succs g ` W" by blast
  qed (use W(1) in auto)
  finally show "\<exists>B. merge_states A = Inr B \<and> wf_twa B \<and> (\<forall>w. accepts B w \<longleftrightarrow> accepts A w) \<and>
      num_states (graph B) = card (succs (graph A) ` {..<num_states (graph A)})"
    using res ok unfolding g_def n_def by blast
qed (simp add: merge_states_def)

theorem merge_states_sound_witness:
  "\<exists>B. merge_states island = Inr B \<and> wf_twa B \<and> (\<forall>w. accepts B w \<longleftrightarrow> accepts island w)"
  using merge_states_sound [of island] island_spec by auto

section \<open>Merging edges keeps the language\<close>

lemma chain_views:
  assumes ne: "edges g \<noteq> []" "next_succ (edges g ! 0) = 0" "killed_edge g = 0"
    and src: "sorted (map e_src (tl (edges g)))" "\<forall>e \<in> set (tl (edges g)). e_src e < num_states g"
  shows "\<exists>g'. chain_edges g = Some g' \<and> wf_graph g' \<and> num_states g' = num_states g \<and>
    live_views g' = map edge_view (tl (edges g)) \<and> dests g' = dests g \<and> length (edges g') = length (edges g)"
proof -
  have nth: "map e_src (tl (edges g)) ! (i - 1) = e_src (edges g ! i)" "i - 1 < length (map e_src (tl (edges g)))"
    if "1 \<le> i" "i < length (edges g)" for i using that by (simp_all add: nth_tl)
  have "sources_ok (edges g) (length (states g))"
    unfolding sources_ok_def
  proof (intro conjI allI impI)
    fix i j assume ij: "1 \<le> i \<and> i \<le> j \<and> j < length (edges g)"
    then have "map e_src (tl (edges g)) ! (i - 1) \<le> map e_src (tl (edges g)) ! (j - 1)"
      using nth(2) [of j] by (intro sorted_nth_mono [OF src(1)]) auto
    then show "e_src (edges g ! i) \<le> e_src (edges g ! j)" using nth(1) [of i] nth(1) [of j] ij by simp
  next
    fix i assume i: "1 \<le> i \<and> i < length (edges g)"
    then have "e_src (edges g ! i) \<in> set (map e_src (tl (edges g)))" using nth [of i] by (metis nth_mem)
    then show "e_src (edges g ! i) < length (states g)" using src(2) by (auto simp: num_states_def)
  qed
  then obtain g' where g': "chain_edges g = Some g'" "wf_graph g'" "same_data (edges g) (edges g')"
    "length (states g') = length (states g)" "\<forall>s. edges_of (edges g') s = group (edges g) s (length (edges g))"
    using chain_edges_spec [OF ne] by blast
  have len: "length (edges g') = length (edges g)" using g'(3) unfolding same_data_def by auto
  have view: "edge_view (edges g' ! t) = edge_view (edges g ! t)" if "t < length (edges g)" for t
    using that g'(3) unfolding same_data_def edge_view_def by auto
  have "is_valid_edge g' t" if "1 \<le> t" "t < length (edges g')" for t
  proof -
    have "t \<in> set (edges_of (edges g') (e_src (edges g ! t)))"
      using that len unfolding spec [OF g'(5)] by (simp add: group_facts)
    then show ?thesis by (simp add: edges_of_facts(5) is_valid_edge_def)
  qed
  then have "all_edges g' = [1..<length (edges g')]" unfolding all_edges_live [OF g'(2)] by (intro filter_True) simp
  then have "live_views g' = map (\<lambda>t. edge_view (edges g ! t)) [1..<length (edges g)]"
    unfolding live_views_def len using view by (auto intro: map_cong)
  also have "\<dots> = map edge_view (tl (edges g))" by (rule nth_equalityI) (simp_all add: nth_tl)
  finally have "live_views g' = map edge_view (tl (edges g))" .
  moreover have "dests g' = dests g" using g'(1) by (auto simp: chain_edges_def Let_def split: option.splits prod.splits)
  ultimately show ?thesis using g' len by (auto simp: num_states_def)
qed

text \<open>The transitions that a list of edges stands for.\<close>

definition list_delta :: "('l, 'm) edge_label edge_storage list \<Rightarrow> nat \<Rightarrow> 'l \<Rightarrow> 'm \<Rightarrow> nat \<Rightarrow> bool" where
  "list_delta es p a m q \<longleftrightarrow> (\<exists>e \<in> set es. e_src e = p \<and> e_dst e = q \<and> a \<in> e_cond e \<and> e_acc e = m)"

lemma live_views_iff:
  assumes "wf_graph g"
  shows "(p, q, x) \<in> set (live_views g) \<longleftrightarrow>
    (\<exists>t. 0 < t \<and> is_valid_edge g t \<and> e_src (edges g ! t) = p \<and> e_dst (edges g ! t) = q \<and> e_data (edges g ! t) = x)"
proof -
  have "t \<in> set (all_edges g) \<longleftrightarrow> 0 < t \<and> is_valid_edge g t" for t
    by (auto simp: all_edges_live [OF assms] is_valid_edge_def)
  then show ?thesis unfolding live_views_def edge_view_def by auto
qed

lemma delta_views:
  "wf_graph g \<Longrightarrow> delta g p a m q \<longleftrightarrow> (\<exists>x. (p, q, x) \<in> set (live_views g) \<and> a \<in> cond x \<and> acc x = m)"
  unfolding delta_valid live_views_iff by blast

lemma list_delta_views:
  "list_delta es p a m q \<longleftrightarrow> (\<exists>x. (p, q, x) \<in> set (map edge_view es) \<and> a \<in> cond x \<and> acc x = m)"
  unfolding list_delta_def edge_view_def by auto

lemma wf_twa_views:
  "wf_twa_graph g \<longleftrightarrow> wf_graph g \<and> is_existential g \<and> (\<forall>(p, q, x) \<in> set (live_views g). q < num_states g)"
proof (cases "wf_graph g")
  case True
  then show ?thesis
    unfolding wf_twa_graph_def using live_views_iff [OF True] by (force simp: split_beta)
qed (simp add: wf_twa_graph_def)

text \<open>Merging the conditions of parallel edges does not change the transitions.\<close>

lemma merge_conds_delta: "list_delta (merge_conds cur es) p a m q \<longleftrightarrow> list_delta (cur # es) p a m q"
proof (induction cur es rule: merge_conds.induct)
  case (2 cur e es)
  then show ?case by (auto simp: list_delta_def)
qed simp

lemma merge_conds_all:
  "\<forall>e \<in> set (cur # es). P (e_src e) (e_dst e) \<Longrightarrow> \<forall>e \<in> set (merge_conds cur es). P (e_src e) (e_dst e)"
  by (induction cur es rule: merge_conds.induct) auto

lemma merge_accs_all:
  "\<forall>e \<in> set (cur # es). P (e_src e) (e_dst e) \<Longrightarrow> \<forall>e \<in> set (merge_accs cur es). P (e_src e) (e_dst e)"
  by (induction cur es rule: merge_accs.induct) auto

lemma merge_conds_sorted: "sorted (map e_src (cur # es)) \<Longrightarrow> sorted (map e_src (merge_conds cur es))"
proof (induction cur es rule: merge_conds.induct)
  case (2 cur e es)
  have s: "e_src cur \<le> e_src e" "\<forall>x \<in> set es. e_src cur \<le> e_src x" "\<forall>x \<in> set es. e_src e \<le> e_src x" "sorted (map e_src es)"
    using 2(4) by simp_all
  consider "e_cond e = {}" | "e_cond e \<noteq> {}" "e_dst cur = e_dst e \<and> e_acc cur = e_acc e \<and> e_src cur = e_src e"
    | "e_cond e \<noteq> {}" "\<not> (e_dst cur = e_dst e \<and> e_acc cur = e_acc e \<and> e_src cur = e_src e)" by blast
  then show ?case
  proof cases
    case 1
    then show ?thesis using 2(1) s by simp
  next
    case c: 2
    then show ?thesis using 2(2) s by simp
  next
    case 3
    have "\<forall>x \<in> set (merge_conds e es). e_src cur \<le> e_src x"
      using merge_conds_all [of e es "\<lambda>s d. e_src cur \<le> s"] s by simp
    moreover have "sorted (map e_src (merge_conds e es))" using 2(3) [OF 3] s by simp
    ultimately have "sorted (map e_src (cur # merge_conds e es))" by simp
    then show ?thesis unfolding merge_conds.simps if_not_P [OF 3(1)] if_not_P [OF 3(2)] .
  qed
qed simp

lemma merge_accs_sorted: "sorted (map e_src (cur # es)) \<Longrightarrow> sorted (map e_src (merge_accs cur es))"
proof (induction cur es rule: merge_accs.induct)
  case (2 cur e es)
  have s: "e_src cur \<le> e_src e" "\<forall>x \<in> set es. e_src cur \<le> e_src x" "\<forall>x \<in> set es. e_src e \<le> e_src x" "sorted (map e_src es)"
    using 2(3) by simp_all
  show ?case
  proof (cases "e_dst cur = e_dst e \<and> e_cond cur = e_cond e \<and> e_src cur = e_src e")
    case True
    then show ?thesis using 2(1) s by simp
  next
    case False
    have "\<forall>x \<in> set (merge_accs e es). e_src cur \<le> e_src x"
      using merge_accs_all [of e es "\<lambda>s d. e_src cur \<le> s"] s by simp
    moreover have "sorted (map e_src (merge_accs e es))" using 2(2) [OF False] s by simp
    ultimately have "sorted (map e_src (cur # merge_accs e es))" by simp
    then show ?thesis unfolding merge_accs.simps if_not_P [OF False] .
  qed
qed simp

lemma drop_false_cases:
  obtains "drop_false_edges es = []" "dropWhile (\<lambda>e. e_cond e = {}) es = []"
  | e r where "drop_false_edges es = merge_conds e r" "dropWhile (\<lambda>e. e_cond e = {}) es = e # r"
  by (cases "dropWhile (\<lambda>e. e_cond e = {}) es") (simp_all only: drop_false_edges_def list.case)

lemma drop_false_delta: "list_delta (drop_false_edges es) p a m q \<longleftrightarrow> list_delta es p a m q"
proof -
  have "list_delta es p a m q \<longleftrightarrow> list_delta (dropWhile (\<lambda>e. e_cond e = {}) es) p a m q"
    by (induction es) (auto simp: list_delta_def)
  then show ?thesis by (cases es rule: drop_false_cases) (simp_all only: merge_conds_delta)
qed

lemma drop_false_all: "\<forall>e \<in> set es. P (e_src e) (e_dst e) \<Longrightarrow> \<forall>e \<in> set (drop_false_edges es). P (e_src e) (e_dst e)"
proof -
  assume "\<forall>e \<in> set es. P (e_src e) (e_dst e)"
  then have a: "\<forall>e \<in> set (dropWhile (\<lambda>e. e_cond e = {}) es). P (e_src e) (e_dst e)" by (metis set_dropWhileD)
  show ?thesis
  proof (cases es rule: drop_false_cases)
    case (2 e r)
    then show ?thesis using a merge_conds_all [of e r P] by (simp only:)
  qed simp
qed

lemma drop_false_sorted: "sorted (map e_src es) \<Longrightarrow> sorted (map e_src (drop_false_edges es))"
proof -
  assume "sorted (map e_src es)"
  then have "sorted (map e_src (takeWhile (\<lambda>e. e_cond e = {}) es @ dropWhile (\<lambda>e. e_cond e = {}) es))"
    by (simp only: takeWhile_dropWhile_id)
  then have a: "sorted (map e_src (dropWhile (\<lambda>e. e_cond e = {}) es))" by (simp only: sorted_append map_append)
  show ?thesis
  proof (cases es rule: drop_false_cases)
    case (2 e r)
    then show ?thesis using a merge_conds_sorted [of e r] by (simp only:)
  qed simp
qed

lemma merge_parallel_cases:
  obtains "merge_parallel es = es" "length es < 2" | e1 e2 r where "es = e1 # e2 # r" "merge_parallel es = e1 # merge_accs e2 r"
  by (cases es; cases "tl es") (auto simp: merge_parallel_def)

lemma merge_parallel_all: "\<forall>e \<in> set es. P (e_src e) (e_dst e) \<Longrightarrow> \<forall>e \<in> set (merge_parallel es). P (e_src e) (e_dst e)"
proof (cases es rule: merge_parallel_cases)
  case (2 e1 e2 r)
  assume a: "\<forall>e \<in> set es. P (e_src e) (e_dst e)"
  then have "\<forall>e \<in> set (e2 # r). P (e_src e) (e_dst e)" using 2 by simp
  from merge_accs_all [OF this] show ?thesis using a 2 by simp
qed simp

lemma merge_parallel_sorted: "sorted (map e_src es) \<Longrightarrow> sorted (map e_src (merge_parallel es))"
proof (cases es rule: merge_parallel_cases)
  case (2 e1 e2 r)
  assume s: "sorted (map e_src es)"
  then have "\<forall>x \<in> set (e2 # r). e_src e1 \<le> e_src x" "sorted (map e_src (e2 # r))" unfolding 2(1) by auto
  from merge_accs_all [OF this(1)] merge_accs_sorted [OF this(2)] show ?thesis unfolding 2(2) by simp
qed simp

text \<open>
  Merging marks: an edge stands for edges with the same ends and condition whose marks it
  collects.
\<close>

lemma merge_accs_covers:
  "e \<in> set (cur # es) \<Longrightarrow> \<exists>e' \<in> set (merge_accs cur es). e_src e' = e_src e \<and> e_dst e' = e_dst e \<and> e_cond e' = e_cond e \<and>
     bits (e_acc e) \<subseteq> bits (e_acc e')"
proof (induction cur es arbitrary: e rule: merge_accs.induct)
  case (2 cur x es)
  show ?case
  proof (cases "e_dst cur = e_dst x \<and> e_cond cur = e_cond x \<and> e_src cur = e_src x")
    case True
    let ?c = "cur\<lparr>e_data := (e_data cur)\<lparr>acc := e_acc cur OR e_acc x\<rparr>\<rparr>"
    have "\<exists>f \<in> set (?c # es). e_src f = e_src e \<and> e_dst f = e_dst e \<and> e_cond f = e_cond e \<and> bits (e_acc e) \<subseteq> bits (e_acc f)"
    proof (cases "e = cur \<or> e = x")
      case e: True
      then show ?thesis using True by (intro bexI [of _ ?c]) auto
    next
      case False
      then show ?thesis using 2(3) by (intro bexI [of _ e]) auto
    qed
    then obtain f where f: "f \<in> set (?c # es)" "e_src f = e_src e" "e_dst f = e_dst e" "e_cond f = e_cond e"
      "bits (e_acc e) \<subseteq> bits (e_acc f)" by blast
    from 2(1) [OF True f(1)] obtain e' where "e' \<in> set (merge_accs ?c es)" "e_src e' = e_src f" "e_dst e' = e_dst f"
      "e_cond e' = e_cond f" "bits (e_acc f) \<subseteq> bits (e_acc e')" by blast
    moreover from this(5) f(5) have "bits (e_acc e) \<subseteq> bits (e_acc e')" by (rule subset_trans [rotated])
    ultimately show ?thesis unfolding merge_accs.simps if_P [OF True] using f(2-4) by (intro bexI [of _ e']) simp_all
  next
    case False
    show ?thesis
    proof (cases "e = cur")
      case True
      then show ?thesis unfolding merge_accs.simps if_not_P [OF False] by simp
    next
      case ne: False
      then have "e \<in> set (x # es)" using 2(3) by simp
      from 2(2) [OF False this] show ?thesis unfolding merge_accs.simps if_not_P [OF False] by auto
    qed
  qed
qed auto

lemma merge_accs_covered:
  "e' \<in> set (merge_accs cur es) \<Longrightarrow>
    (\<exists>e \<in> set (cur # es). e_src e = e_src e' \<and> e_dst e = e_dst e' \<and> e_cond e = e_cond e') \<and>
    (\<forall>b. bit (e_acc e') b \<longrightarrow> (\<exists>e \<in> set (cur # es). e_src e = e_src e' \<and> e_dst e = e_dst e' \<and> e_cond e = e_cond e' \<and> bit (e_acc e) b))"
proof (induction cur es arbitrary: e' rule: merge_accs.induct)
  case (2 cur x es)
  show ?case
  proof (cases "e_dst cur = e_dst x \<and> e_cond cur = e_cond x \<and> e_src cur = e_src x")
    case True
    let ?c = "cur\<lparr>e_data := (e_data cur)\<lparr>acc := e_acc cur OR e_acc x\<rparr>\<rparr>"
    have e': "e' \<in> set (merge_accs ?c es)" using 2(3) unfolding merge_accs.simps if_P [OF True] .
    note IH = 2(1) [OF True e']
    show ?thesis
    proof (intro conjI allI impI)
      show "\<exists>e \<in> set (cur # x # es). e_src e = e_src e' \<and> e_dst e = e_dst e' \<and> e_cond e = e_cond e'"
        using IH by auto
      fix b assume "bit (e_acc e') b"
      then obtain e where e: "e \<in> set (?c # es)" "e_src e = e_src e'" "e_dst e = e_dst e'" "e_cond e = e_cond e'" "bit (e_acc e) b"
        using IH by blast
      from e(1) consider "e = ?c" | "e \<in> set es" by auto
      then show "\<exists>e \<in> set (cur # x # es). e_src e = e_src e' \<and> e_dst e = e_dst e' \<and> e_cond e = e_cond e' \<and> bit (e_acc e) b"
      proof cases
        case 1
        then have "bit (e_acc cur) b \<or> bit (e_acc x) b" using e(5) by (simp add: bit_or_iff)
        then show ?thesis using 1 e(2-4) True by auto
      qed (use e in auto)
    qed
  next
    case False
    have "e' = cur \<or> e' \<in> set (merge_accs x es)" using 2(3) unfolding merge_accs.simps if_not_P [OF False] by simp
    then show ?thesis
    proof
      assume "e' \<in> set (merge_accs x es)"
      from 2(2) [OF False this] show ?thesis by auto
    qed auto
  qed
qed auto

text \<open>
  From a path with merged marks to a path with single ones: every set that is seen infinitely often
  is picked infinitely often.
\<close>

lemma spread_picks:
  assumes "0 < L"
  shows "\<exists>pick :: nat \<Rightarrow> nat. \<forall>b < L. infinite {i. S b i} \<longrightarrow> infinite {i. S b i \<and> pick i = b}"
proof -
  define nxt where "nxt = (\<lambda>b i. if infinite {k. S b k} then (LEAST k. i < k \<and> S b k) else Suc i)"
  have nxt: "i < nxt b i" "infinite {k. S b k} \<Longrightarrow> S b (nxt b i)" for b i
  proof -
    have *: "i < (LEAST k. i < k \<and> S b k) \<and> S b (LEAST k. i < k \<and> S b k)" if "infinite {k. S b k}"
    proof (rule LeastI_ex)
      show "\<exists>k. i < k \<and> S b k" using that unfolding infinite_nat_iff_unbounded by blast
    qed
    then show "i < nxt b i" "infinite {k. S b k} \<Longrightarrow> S b (nxt b i)" by (auto simp: nxt_def)
  qed
  define f where "f = rec_nat 0 (\<lambda>k i. nxt (k mod L) i)"
  have f: "f (Suc k) = nxt (k mod L) (f k)" for k by (simp add: f_def)
  have mono: "strict_mono f" by (simp add: strict_mono_Suc_iff f nxt)
  define pick where "pick = (\<lambda>i. (LEAST k. i \<le> f (Suc k)) mod L)"
  have pick: "pick (f (Suc k)) = k mod L" for k
  proof -
    have "(LEAST j. f (Suc k) \<le> f (Suc j)) = k"
      using mono by (intro Least_equality) (simp_all add: strict_mono_less_eq)
    then show ?thesis by (simp add: pick_def)
  qed
  have "infinite {i. S b i \<and> pick i = b}" if b: "b < L" "infinite {i. S b i}" for b
    unfolding infinite_nat_iff_unbounded
  proof
    fix m
    let ?k = "b + L * Suc m"
    have k: "?k mod L = b" unfolding mod_mult_self2 using b(1) by (rule mod_less)
    have "m \<le> L * m" using assms by (cases L) simp_all
    then have m: "m \<le> ?k" unfolding mult_Suc_right by (rule trans_le_add2 [OF trans_le_add2])
    have "m < f (Suc ?k)" using strict_mono_imp_increasing [OF mono, of "Suc ?k"] m by linarith
    moreover have "S b (f (Suc ?k))" using nxt(2) [of b "f ?k"] b(2) f [of ?k] k by simp
    moreover have "pick (f (Suc ?k)) = b" using pick [of ?k] k by (rule trans)
    ultimately show "\<exists>i > m. i \<in> {i. S b i \<and> pick i = b}" by (intro exI [of _ "f (Suc ?k)"]) (simp only: mem_Collect_eq)
  qed
  then show ?thesis by blast
qed

lemma single_marks:
  fixes n :: "nat \<Rightarrow> 'n::len mark_t"
  assumes path: "is_path d2 w p n"
    and some: "\<And>p a n q. d2 p a n q \<Longrightarrow> \<exists>m. d1 p a m q"
    and each: "\<And>p a n q b. d2 p a n q \<Longrightarrow> bit n b \<Longrightarrow> \<exists>m. d1 p a m q \<and> bit m b"
  shows "\<exists>m :: nat \<Rightarrow> 'n mark_t. is_path d1 w p m \<and> bits (inf_mark n) \<subseteq> bits (inf_mark m)"
proof -
  obtain pick :: "nat \<Rightarrow> nat" where pick: "\<And>b. b < LENGTH('n) \<Longrightarrow> infinite {i. bit (n i) b} \<Longrightarrow>
      infinite {i. bit (n i) b \<and> pick i = b}"
    using spread_picks [of "LENGTH('n)" "\<lambda>b i. bit (n i) b"] by auto
  have "\<exists>m. d1 (p i) (w i) m (p (Suc i)) \<and> (bit (n i) (pick i) \<longrightarrow> bit m (pick i))" for i
    using path some each unfolding is_path_def by (cases "bit (n i) (pick i)") blast+
  then obtain m where m: "\<And>i. d1 (p i) (w i) (m i) (p (Suc i)) \<and> (bit (n i) (pick i) \<longrightarrow> bit (m i) (pick i))" by metis
  have "bit (inf_mark m) b" if "bit (inf_mark n) b" for b
  proof -
    have b: "b < LENGTH('n)" "infinite {i. bit (n i) b}" using that by (simp_all add: inf_often_def)
    have "{i. bit (n i) b \<and> pick i = b} \<subseteq> {i. bit (m i) b}" using m by auto
    then have "infinite {i. bit (m i) b}" using pick [OF b] infinite_super by blast
    then show ?thesis using b(1) by (simp add: inf_often_def)
  qed
  then have "bits (inf_mark n) \<subseteq> bits (inf_mark m)" by auto
  moreover have "is_path d1 w p m" using m by (simp add: is_path_def)
  ultimately show ?thesis by blast
qed

definition wf_cond :: "'n::len cond \<Rightarrow> bool" where
  "wf_cond a \<longleftrightarrow> wf_acc a \<and> uses_fin_acceptance a = check_fin_acceptance (get_acceptance a)"

lemma cond_accepting_mono:
  assumes "wf_cond a" "\<not> uses_fin_acceptance a" "bits m \<subseteq> bits n" "cond_accepting a m"
  shows "cond_accepting a n"
proof -
  obtain t where t: "get_acceptance a = enc t" "tree_ok t" "plain t" using assms(1) unfolding wf_cond_def wf_acc_def by blast
  then have "\<not> has_fin t" using assms(1,2) check_fin_acceptance_enc by (auto simp: wf_cond_def)
  from finless_mono [OF this t(3) assms(3)] show ?thesis
    using assms(4) accepting_enc [OF t(2,3)] by (simp add: cond_accepting_def t(1))
qed

text \<open>When marks may only grow, a simulation up to the merging of marks keeps the language.\<close>

lemma accepts_merged:
  fixes A B :: "('l, 'n::len) twa_graph"
  assumes c: "wf_cond (twa_acc A)" "\<not> uses_fin_acceptance (twa_acc A)"
    and B: "twa_acc B = twa_acc A" "init_number B = init_number A"
    and up: "\<And>p a m q. delta (graph A) p a m q \<Longrightarrow> \<exists>n. delta (graph B) p a n q \<and> bits m \<subseteq> bits n"
    and down: "\<And>p a n q. delta (graph B) p a n q \<Longrightarrow> \<exists>m. delta (graph A) p a m q"
      "\<And>p a n q b. delta (graph B) p a n q \<Longrightarrow> bit n b \<Longrightarrow> \<exists>m. delta (graph A) p a m q \<and> bit m b"
  shows "accepts B w \<longleftrightarrow> accepts A w"
proof
  assume "accepts A w"
  then obtain p m where p: "p 0 = init_number A" "is_path (delta (graph A)) w p m" "cond_accepting (twa_acc A) (inf_mark m)"
    unfolding accepts_def by blast
  have "\<exists>n. delta (graph B) (p i) (w i) n (p (Suc i)) \<and> bits (m i) \<subseteq> bits n" for i
    using p(2) up unfolding is_path_def by blast
  then obtain n where n: "\<And>i. delta (graph B) (p i) (w i) (n i) (p (Suc i)) \<and> bits (m i) \<subseteq> bits (n i)" by metis
  have "bits (inf_mark m) \<subseteq> bits (inf_mark n)"
  proof
    fix b assume "b \<in> bits (inf_mark m)"
    then have b: "b < LENGTH('n)" "infinite {i. bit (m i) b}" by (simp_all add: inf_often_def)
    have "{i. bit (m i) b} \<subseteq> {i. bit (n i) b}" using n by (auto simp: subset_iff)
    then have "infinite {i. bit (n i) b}" using b(2) infinite_super by blast
    then show "b \<in> bits (inf_mark n)" using b(1) by (simp add: inf_often_def)
  qed
  from cond_accepting_mono [OF c this p(3)] n p(1) show "accepts B w"
    unfolding accepts_def B is_path_def by blast
next
  assume "accepts B w"
  then obtain p n where p: "p 0 = init_number A" "is_path (delta (graph B)) w p n" "cond_accepting (twa_acc A) (inf_mark n)"
    unfolding accepts_def B by blast
  have "\<exists>m. is_path (delta (graph A)) w p m \<and> bits (inf_mark n) \<subseteq> bits (inf_mark m)"
    by (rule single_marks [OF p(2)]) (erule down(1), erule down(2))
  then obtain m where "is_path (delta (graph A)) w p m" "bits (inf_mark n) \<subseteq> bits (inf_mark m)" by blast
  with cond_accepting_mono [OF c _ p(3)] p(1) show "accepts A w" unfolding accepts_def by blast
qed

section \<open>Correctness of merge_edges\<close>

lemma sorted_key:
  assumes "\<And>x y. key x < key y \<Longrightarrow> lt x y" "\<And>x y. lt x y \<Longrightarrow> key x \<le> (key y :: nat)"
  shows "sorted (map key (sort_by lt es))"
proof -
  have "sorted (map key (insert_by lt x ys))" if "sorted (map key ys)" for x ys
    using that
  proof (induction ys)
    case (Cons y ys)
    show ?case
    proof (cases "lt y x")
      case True
      have "\<forall>z \<in> set (insert_by lt x ys). key y \<le> key z"
        using Cons.prems assms(2) [OF True] by (auto simp: set_insert_by)
      with True Cons show ?thesis by simp
    next
      case False
      then have "key x \<le> key y" using assms(1) [of y x] by (meson not_le)
      with False Cons.prems show ?thesis by auto
    qed
  qed simp
  then show ?thesis unfolding sort_by_def by (induction es) auto
qed

lemma edge_less_sorted:
  "sorted (map e_src (sort_by edge_less_acc es))" "sorted (map e_src (sort_by (edge_less_cond lt) fs))"
  by (rule sorted_key; auto simp: edge_less_acc_def edge_less_cond_def split: if_splits)+

lemma set_merge_parallel:
  "e \<in> set es \<Longrightarrow> \<exists>e' \<in> set (merge_parallel es). e_src e' = e_src e \<and> e_dst e' = e_dst e \<and> e_cond e' = e_cond e \<and>
     bits (e_acc e) \<subseteq> bits (e_acc e')"
  and merge_parallel_set:
  "e' \<in> set (merge_parallel es) \<Longrightarrow>
    (\<exists>e \<in> set es. e_src e = e_src e' \<and> e_dst e = e_dst e' \<and> e_cond e = e_cond e') \<and>
    (\<forall>b. bit (e_acc e') b \<longrightarrow> (\<exists>e \<in> set es. e_src e = e_src e' \<and> e_dst e = e_dst e' \<and> e_cond e = e_cond e' \<and> bit (e_acc e) b))"
proof -
  show "\<exists>e' \<in> set (merge_parallel es). e_src e' = e_src e \<and> e_dst e' = e_dst e \<and> e_cond e' = e_cond e \<and>
      bits (e_acc e) \<subseteq> bits (e_acc e')" if "e \<in> set es"
  proof (cases es rule: merge_parallel_cases)
    case (2 e1 e2 r)
    then show ?thesis using that merge_accs_covers [of e e2 r] by (cases "e = e1") auto
  qed (use that in auto)
  show "(\<exists>e \<in> set es. e_src e = e_src e' \<and> e_dst e = e_dst e' \<and> e_cond e = e_cond e') \<and>
      (\<forall>b. bit (e_acc e') b \<longrightarrow> (\<exists>e \<in> set es. e_src e = e_src e' \<and> e_dst e = e_dst e' \<and> e_cond e = e_cond e' \<and> bit (e_acc e) b))"
    if "e' \<in> set (merge_parallel es)"
  proof (cases es rule: merge_parallel_cases)
    case (2 e1 e2 r)
    show ?thesis
    proof (cases "e' = e1")
      case True
      then show ?thesis using 2(1) by auto
    next
      case False
      then have "e' \<in> set (merge_accs e2 r)" using that 2(2) by simp
      from merge_accs_covered [OF this] show ?thesis unfolding 2(1) by auto
    qed
  qed (use that in auto)
qed

text \<open>The list of edges after the two loops, and the transitions it stands for.\<close>

definition merged_list :: "('l set \<Rightarrow> 'l set \<Rightarrow> bool) \<Rightarrow> bool \<Rightarrow> ('l, 'n::len mark_t) edge_label edge_storage list \<Rightarrow>
    ('l, 'n mark_t) edge_label edge_storage list" where
  "merged_list lt uses_fin es =
    (let es1 = drop_false_edges (sort_by edge_less_acc es)
     in if 1 < length es1 \<and> \<not> uses_fin then merge_parallel (sort_by (edge_less_cond lt) es1) else es1)"

lemma merged_list_all:
  "\<forall>e \<in> set es. P (e_src e) (e_dst e) \<Longrightarrow> \<forall>e \<in> set (merged_list lt b es). P (e_src e) (e_dst e)"
  unfolding merged_list_def Let_def
  by (simp only: split: if_split) (intro conjI impI merge_parallel_all; (simp only: set_sort_by)?; intro drop_false_all; simp only: set_sort_by)

lemma merged_list_sorted: "sorted (map e_src (merged_list lt b es))"
  unfolding merged_list_def Let_def
  by (simp only: split: if_split) (intro conjI impI merge_parallel_sorted drop_false_sorted edge_less_sorted)

lemma merged_list_delta:
  fixes es :: "('l, 'n::len mark_t) edge_label edge_storage list"
  shows "list_delta es p a m q \<Longrightarrow> \<exists>n. list_delta (merged_list lt b es) p a n q \<and> bits m \<subseteq> bits n"
    and "list_delta (merged_list lt b es) p a n q \<Longrightarrow> \<exists>m. list_delta es p a m q"
    and "list_delta (merged_list lt b es) p a n q \<Longrightarrow> bit n k \<Longrightarrow> \<exists>m. list_delta es p a m q \<and> bit m k"
    and "b \<Longrightarrow> list_delta (merged_list lt b es) p a m q = list_delta es p a m q"
proof -
  define es1 where "es1 = drop_false_edges (sort_by edge_less_acc es)"
  define es2 where "es2 = sort_by (edge_less_cond lt) es1"
  have d1: "list_delta es1 p a m q = list_delta es p a m q" for m
    unfolding es1_def drop_false_delta by (simp add: list_delta_def)
  have d2: "list_delta es2 p a m q = list_delta es1 p a m q" for m by (simp add: es2_def list_delta_def)
  have "merged_list lt b es = (if 1 < length es1 \<and> \<not> b then merge_parallel es2 else es1)"
    unfolding merged_list_def Let_def es1_def es2_def ..
  then consider "merged_list lt b es = es1" | "merged_list lt b es = merge_parallel es2" "\<not> b" by metis
  note c = this
  show "\<exists>n. list_delta (merged_list lt b es) p a n q \<and> bits m \<subseteq> bits n" if l: "list_delta es p a m q"
  proof (rule c)
    assume m: "merged_list lt b es = merge_parallel es2"
    have "list_delta es2 p a m q" using l d1 d2 by simp
    then obtain e where "e \<in> set es2" "e_src e = p" "e_dst e = q" "a \<in> e_cond e" "e_acc e = m" by (auto simp: list_delta_def)
    with set_merge_parallel [of e es2] show ?thesis unfolding m list_delta_def by auto
  qed (use l d1 in auto)
  show "\<exists>m. list_delta es p a m q" if l: "list_delta (merged_list lt b es) p a n q"
  proof (rule c)
    assume m: "merged_list lt b es = merge_parallel es2"
    obtain e' where e': "e' \<in> set (merge_parallel es2)" "e_src e' = p" "e_dst e' = q" "a \<in> e_cond e'"
      using l unfolding m list_delta_def by blast
    then obtain e where "e \<in> set es2" "e_src e = p" "e_dst e = q" "e_cond e = e_cond e'"
      using merge_parallel_set [OF e'(1)] by blast
    then have "list_delta es2 p a (e_acc e) q" using e'(4) unfolding list_delta_def by blast
    then show ?thesis using d1 d2 by blast
  qed (use l d1 in auto)
  show "\<exists>m. list_delta es p a m q \<and> bit m k" if l: "list_delta (merged_list lt b es) p a n q" and k: "bit n k"
  proof (rule c)
    assume m: "merged_list lt b es = merge_parallel es2"
    obtain e' where e': "e' \<in> set (merge_parallel es2)" "e_src e' = p" "e_dst e' = q" "a \<in> e_cond e'" "e_acc e' = n"
      using l unfolding m list_delta_def by blast
    then obtain e where "e \<in> set es2" "e_src e = p" "e_dst e = q" "e_cond e = e_cond e'" "bit (e_acc e) k"
      using merge_parallel_set [OF e'(1)] k by blast
    then have "list_delta es2 p a (e_acc e) q" "bit (e_acc e) k" using e'(4) unfolding list_delta_def by blast+
    then show ?thesis using d1 d2 by blast
  qed (use l k d1 in auto)
  show "list_delta (merged_list lt b es) p a m q = list_delta es p a m q" if b
    using that c d1 by blast
qed

lemma merge_conds_cases [consumes 0, case_names false merge keep]:
  obtains "e_cond e = {}" "merge_conds cur (e # es) = merge_conds cur es"
  | "e_cond e \<noteq> {}" "e_dst cur = e_dst e \<and> e_acc cur = e_acc e \<and> e_src cur = e_src e"
    "merge_conds cur (e # es) = merge_conds (cur\<lparr>e_data := (e_data cur)\<lparr>cond := e_cond cur \<union> e_cond e\<rparr>\<rparr>) es"
  | "e_cond e \<noteq> {}" "\<not> (e_dst cur = e_dst e \<and> e_acc cur = e_acc e \<and> e_src cur = e_src e)"
    "merge_conds cur (e # es) = cur # merge_conds e es"
  unfolding merge_conds.simps by (cases "e_cond e = {}"; cases "e_dst cur = e_dst e \<and> e_acc cur = e_acc e \<and> e_src cur = e_src e")
    (simp_all only: if_True if_False simp_thms)

lemma merge_accs_cases [consumes 0, case_names merge keep]:
  obtains "e_dst cur = e_dst e \<and> e_cond cur = e_cond e \<and> e_src cur = e_src e"
    "merge_accs cur (e # es) = merge_accs (cur\<lparr>e_data := (e_data cur)\<lparr>acc := e_acc cur OR e_acc e\<rparr>\<rparr>) es"
  | "\<not> (e_dst cur = e_dst e \<and> e_cond cur = e_cond e \<and> e_src cur = e_src e)"
    "merge_accs cur (e # es) = cur # merge_accs e es"
  unfolding merge_accs.simps by (cases "e_dst cur = e_dst e \<and> e_cond cur = e_cond e \<and> e_src cur = e_src e")
    (simp_all only: if_True if_False simp_thms)

definition nonfalse :: "('l, 'm) edge_label edge_storage \<Rightarrow> bool" where
  "nonfalse e \<longleftrightarrow> e_cond e \<noteq> {}"

lemma nonfalse_updates:
  "nonfalse cur \<Longrightarrow> nonfalse (cur\<lparr>e_data := (e_data cur)\<lparr>cond := e_cond cur \<union> c\<rparr>\<rparr>)"
  "nonfalse (cur\<lparr>e_data := (e_data cur)\<lparr>acc := m\<rparr>\<rparr>) \<longleftrightarrow> nonfalse cur"
  by (auto simp: nonfalse_def)

lemma merge_conds_facts:
  "length (merge_conds cur es) \<le> Suc (length es)" "nonfalse cur \<Longrightarrow> list_all nonfalse (merge_conds cur es)"
proof -
  have "length (merge_conds cur es) \<le> Suc (length es) \<and> (nonfalse cur \<longrightarrow> list_all nonfalse (merge_conds cur es))"
  proof (induction cur es rule: merge_conds.induct)
    case (2 cur e es)
    show ?case
    proof (rule merge_conds_cases [where e = e and cur = cur and es = es])
      assume c: "e_cond e = {}" "merge_conds cur (e # es) = merge_conds cur es"
      show ?thesis using 2(1) [OF c(1)] unfolding c(2) by (simp add: le_SucI)
    next
      assume c: "e_cond e \<noteq> {}" "e_dst cur = e_dst e \<and> e_acc cur = e_acc e \<and> e_src cur = e_src e"
        "merge_conds cur (e # es) = merge_conds (cur\<lparr>e_data := (e_data cur)\<lparr>cond := e_cond cur \<union> e_cond e\<rparr>\<rparr>) es"
      show ?thesis using 2(2) [OF c(1,2)] nonfalse_updates(1) [of cur "e_cond e"] unfolding c(3) by (simp add: le_SucI)
    next
      assume c: "e_cond e \<noteq> {}" "\<not> (e_dst cur = e_dst e \<and> e_acc cur = e_acc e \<and> e_src cur = e_src e)"
        "merge_conds cur (e # es) = cur # merge_conds e es"
      have "nonfalse e" using c(1) by (simp add: nonfalse_def)
      then show ?thesis using 2(3) [OF c(1,2)] unfolding c(3) by simp
    qed
  qed simp
  then show "length (merge_conds cur es) \<le> Suc (length es)" "nonfalse cur \<Longrightarrow> list_all nonfalse (merge_conds cur es)" by blast+
qed

lemma merge_accs_facts:
  "length (merge_accs cur es) \<le> Suc (length es)"
  "nonfalse cur \<Longrightarrow> list_all nonfalse es \<Longrightarrow> list_all nonfalse (merge_accs cur es)"
proof -
  have "length (merge_accs cur es) \<le> Suc (length es) \<and>
      (nonfalse cur \<longrightarrow> list_all nonfalse es \<longrightarrow> list_all nonfalse (merge_accs cur es))"
  proof (induction cur es rule: merge_accs.induct)
    case (2 cur e es)
    show ?case
    proof (rule merge_accs_cases [where e = e and cur = cur and es = es])
      assume c: "e_dst cur = e_dst e \<and> e_cond cur = e_cond e \<and> e_src cur = e_src e"
        "merge_accs cur (e # es) = merge_accs (cur\<lparr>e_data := (e_data cur)\<lparr>acc := e_acc cur OR e_acc e\<rparr>\<rparr>) es"
      show ?thesis using 2(1) [OF c(1)] unfolding c(2) by (simp add: le_SucI nonfalse_updates)
    next
      assume c: "\<not> (e_dst cur = e_dst e \<and> e_cond cur = e_cond e \<and> e_src cur = e_src e)"
        "merge_accs cur (e # es) = cur # merge_accs e es"
      show ?thesis using 2(2) [OF c(1)] unfolding c(2) by simp
    qed
  qed simp
  then show "length (merge_accs cur es) \<le> Suc (length es)"
    "nonfalse cur \<Longrightarrow> list_all nonfalse es \<Longrightarrow> list_all nonfalse (merge_accs cur es)" by blast+
qed

lemma drop_false_facts: "length (drop_false_edges es) \<le> length es" "list_all nonfalse (drop_false_edges es)"
proof (atomize (full), cases es rule: drop_false_cases)
  case (2 e r)
  have "length (e # r) \<le> length es" using length_dropWhile_le [of "\<lambda>e. e_cond e = {}" es] unfolding 2(2) .
  moreover have "nonfalse e" using hd_dropWhile [of "\<lambda>e. e_cond e = {}" es] unfolding 2(2) by (simp add: nonfalse_def)
  ultimately show "length (drop_false_edges es) \<le> length es \<and> list_all nonfalse (drop_false_edges es)"
    unfolding 2(1) using merge_conds_facts [of e r] by simp
qed simp

lemma merge_parallel_facts:
  "length (merge_parallel es) \<le> length es" "list_all nonfalse es \<Longrightarrow> list_all nonfalse (merge_parallel es)"
proof (atomize (full), cases es rule: merge_parallel_cases)
  case (2 e1 e2 r)
  then show "length (merge_parallel es) \<le> length es \<and> (list_all nonfalse es \<longrightarrow> list_all nonfalse (merge_parallel es))"
    using merge_accs_facts [of e2 r] by simp
qed simp

lemma merged_list_facts: "length (merged_list lt b es) \<le> length es" "list_all nonfalse (merged_list lt b es)"
proof -
  have len: "length (sort_by l xs) = length xs" for l :: "'x \<Rightarrow> 'x \<Rightarrow> bool" and xs by (metis mset_sort_by size_mset)
  note f = drop_false_facts [of "sort_by edge_less_acc es"]
  note p = merge_parallel_facts [of "sort_by (edge_less_cond lt) (drop_false_edges (sort_by edge_less_acc es))"]
  have "list_all nonfalse (sort_by (edge_less_cond lt) (drop_false_edges (sort_by edge_less_acc es)))"
    using f(2) by (simp add: list_all_iff)
  from p(2) [OF this] show "list_all nonfalse (merged_list lt b es)"
    using f(2) unfolding merged_list_def Let_def by (simp split: if_split)
  have "length (merge_parallel (sort_by (edge_less_cond lt) (drop_false_edges (sort_by edge_less_acc es)))) \<le> length es"
    using p(1) f(1) unfolding len by linarith
  then show "length (merged_list lt b es) \<le> length es" using f(1) by (simp add: merged_list_def Let_def len)
qed

section \<open>Sorting groups the edges that are merged\<close>

text \<open>
  Both loops rely on the order they sort with: two elements with different keys are ordered one way
  or the other, and elements with the same key are not ordered.
\<close>

definition strict_linear :: "('c \<Rightarrow> 'c \<Rightarrow> bool) \<Rightarrow> bool" where
  "strict_linear lt \<longleftrightarrow> (\<forall>x. \<not> lt x x) \<and> (\<forall>x y z. lt x y \<longrightarrow> lt y z \<longrightarrow> lt x z) \<and> (\<forall>x y. lt x y \<or> x = y \<or> lt y x)"

definition key_order :: "('e \<Rightarrow> 'k) \<Rightarrow> ('e \<Rightarrow> 'e \<Rightarrow> bool) \<Rightarrow> bool" where
  "key_order key prec \<longleftrightarrow> (\<exists>lt. strict_linear lt \<and> (\<forall>x y. prec x y = lt (key x) (key y)))"

lemma key_orderE:
  assumes "key_order key prec"
  obtains lt where "\<And>x y. prec x y = lt (key x) (key y)" "\<And>x. \<not> lt x x" "\<And>x y z. lt x y \<Longrightarrow> lt y z \<Longrightarrow> lt x z"
    "\<And>x y. lt x y \<or> x = y \<or> lt y x"
proof -
  obtain lt where lt: "strict_linear lt" "\<forall>x y. prec x y = lt (key x) (key y)" using assms unfolding key_order_def by blast
  show ?thesis by (rule that [of lt]) (use lt in \<open>unfold strict_linear_def, blast+\<close>)
qed

lemma key_order_weak:
  assumes "key_order key prec"
  shows "weak_order prec"
proof -
  obtain lt where lt: "\<And>x y. prec x y = lt (key x) (key y)" "\<And>x. \<not> lt x x" "\<And>x y z. lt x y \<Longrightarrow> lt y z \<Longrightarrow> lt x z"
    "\<And>x y. lt x y \<or> x = y \<or> lt y x"
    using assms by (rule key_orderE) blast
  have "\<not> lt b a" if "lt a b" for a b using lt(2,3) that by blast
  moreover have "\<not> lt a c" if "\<not> lt a b" "\<not> lt b c" for a b c using lt(3,4) that by metis
  ultimately show ?thesis unfolding weak_order_def lt(1) by blast
qed

lemma key_order_less:
  assumes "key_order key prec"
  shows "prec x y \<Longrightarrow> \<not> prec z y \<Longrightarrow> prec x z" "key y = key y' \<Longrightarrow> prec x y = prec x y'" "key x = key x' \<Longrightarrow> prec x y = prec x' y"
    "\<not> prec y x \<Longrightarrow> key x \<noteq> key y \<Longrightarrow> prec x y"
proof -
  obtain lt where lt: "\<And>x y. prec x y = lt (key x) (key y)" "\<And>x. \<not> lt x x" "\<And>x y z. lt x y \<Longrightarrow> lt y z \<Longrightarrow> lt x z"
    "\<And>x y. lt x y \<or> x = y \<or> lt y x"
    using assms by (rule key_orderE) blast
  show "prec x y \<Longrightarrow> \<not> prec z y \<Longrightarrow> prec x z" unfolding lt(1) using lt(3,4) by metis
  show "key y = key y' \<Longrightarrow> prec x y = prec x y'" "key x = key x' \<Longrightarrow> prec x y = prec x' y" unfolding lt(1) by simp_all
  show "\<not> prec y x \<Longrightarrow> key x \<noteq> key y \<Longrightarrow> prec x y" unfolding lt(1) using lt(4) by blast
qed

lemma key_order_distinct:
  assumes "key_order key prec" "sorted_wrt prec es"
  shows "distinct (map key es)"
proof -
  obtain lt where lt: "\<And>x y. prec x y = lt (key x) (key y)" "\<And>x. \<not> lt x x" using assms(1) by (rule key_orderE) blast
  have "\<forall>y \<in> set es. key x \<noteq> key y" if "\<forall>y \<in> set es. prec x y" for x es using that lt by metis
  then show ?thesis using assms(2) by (induction es) force+
qed

lemma mark_less_linear:
  assumes "word_bits dvd LENGTH('n::len)"
  shows "strict_linear (mark_less :: 'n mark_t \<Rightarrow> 'n mark_t \<Rightarrow> bool)"
proof -
  have len: "length (mark_id x) = length (mark_id y)" for x y :: "'n mark_t" by (simp add: length_mark_id)
  have inj: "x = y" if "mark_id x = mark_id y" for x y :: "'n mark_t"
    using bs_bits_mark_id [OF assms, of x] bs_bits_mark_id [OF assms, of y] that bits_inject by metis
  show ?thesis
    unfolding strict_linear_def mark_less_def
    using bs_less_irrefl bs_less_trans [OF len len] bs_less_total [OF len] inj by blast
qed

definition acc_key :: "('l, 'm) edge_label edge_storage \<Rightarrow> nat \<times> nat \<times> 'm" where
  "acc_key e = (e_src e, e_dst e, e_acc e)"

definition cond_key :: "('l, 'm) edge_label edge_storage \<Rightarrow> nat \<times> nat \<times> 'l set" where
  "cond_key e = (e_src e, e_dst e, e_cond e)"

definition lex_less :: "('c \<Rightarrow> 'c \<Rightarrow> bool) \<Rightarrow> nat \<times> nat \<times> 'c \<Rightarrow> nat \<times> nat \<times> 'c \<Rightarrow> bool" where
  "lex_less lt k k' = (case k of (p, q, c) \<Rightarrow> case k' of (p', q', c') \<Rightarrow>
    if p < p' then True else if p' < p then False else if q < q' then True else if q' < q then False else lt c c')"

lemma lex_less_linear:
  fixes lt :: "'c \<Rightarrow> 'c \<Rightarrow> bool"
  shows "strict_linear lt \<Longrightarrow> strict_linear (lex_less lt)"
  unfolding strict_linear_def
proof (elim conjE, intro conjI allI impI)
  fix k :: "nat \<times> nat \<times> 'c" assume "\<forall>x. \<not> lt x x"
  then show "\<not> lex_less lt k k" by (cases k) (simp add: lex_less_def)
next
  fix k k' :: "nat \<times> nat \<times> 'c" assume t: "\<forall>x y. lt x y \<or> x = y \<or> lt y x"
  obtain p q c p' q' c' where k: "k = (p, q, c)" "k' = (p', q', c')" by (cases k, cases k')
  show "lex_less lt k k' \<or> k = k' \<or> lex_less lt k' k"
    using t [rule_format, of c c'] unfolding k lex_less_def prod.case by (cases p p' rule: linorder_cases; cases q q' rule: linorder_cases) simp_all
next
  fix k1 k2 k3 :: "nat \<times> nat \<times> 'c" assume t: "\<forall>x y z. lt x y \<longrightarrow> lt y z \<longrightarrow> lt x z" and l: "lex_less lt k1 k2" "lex_less lt k2 k3"
  obtain p1 q1 c1 p2 q2 c2 p3 q3 c3 where k: "k1 = (p1, q1, c1)" "k2 = (p2, q2, c2)" "k3 = (p3, q3, c3)"
    by (cases k1, cases k2, cases k3)
  have "p1 \<le> p2" "p2 \<le> p3" using l unfolding k lex_less_def prod.case by (simp_all split: if_splits)
  moreover have "p1 = p2 \<Longrightarrow> q1 \<le> q2" "p2 = p3 \<Longrightarrow> q2 \<le> q3"
    using l unfolding k lex_less_def prod.case by (simp_all split: if_splits)
  moreover have "p1 = p2 \<Longrightarrow> q1 = q2 \<Longrightarrow> lt c1 c2" "p2 = p3 \<Longrightarrow> q2 = q3 \<Longrightarrow> lt c2 c3"
    using l unfolding k lex_less_def prod.case by simp_all
  moreover have "lt c1 c2 \<Longrightarrow> lt c2 c3 \<Longrightarrow> lt c1 c3" using t by blast
  ultimately show "lex_less lt k1 k3" unfolding k lex_less_def prod.case by (cases "p1 = p2"; cases "p2 = p3"; cases "q1 = q2"; cases "q2 = q3") auto
qed

lemma edge_orders:
  "word_bits dvd LENGTH('n::len) \<Longrightarrow> key_order acc_key (edge_less_acc :: ('l, 'n mark_t) edge_label edge_storage \<Rightarrow> _)"
  "strict_linear lt \<Longrightarrow> key_order cond_key (edge_less_cond lt)"
proof -
  assume "word_bits dvd LENGTH('n)"
  then show "key_order acc_key (edge_less_acc :: ('l, 'n mark_t) edge_label edge_storage \<Rightarrow> _)"
    unfolding key_order_def
    by (intro exI [of _ "lex_less mark_less"] conjI lex_less_linear mark_less_linear) (simp_all add: edge_less_acc_def acc_key_def lex_less_def)
next
  assume "strict_linear lt"
  then show "key_order cond_key (edge_less_cond lt)"
    unfolding key_order_def
    by (intro exI [of _ "lex_less lt"] conjI lex_less_linear) (simp_all add: edge_less_cond_def cond_key_def lex_less_def)
qed

text \<open>On a sorted list each loop leaves one edge for each key.\<close>

lemma merge_conds_strict:
  assumes "key_order acc_key prec"
  shows "sorted_wrt (\<lambda>x y. \<not> prec y x) (cur # es) \<Longrightarrow>
    sorted_wrt prec (merge_conds cur es) \<and> acc_key ` set (merge_conds cur es) \<subseteq> acc_key ` set (cur # es)"
proof (induction cur es rule: merge_conds.induct)
  case (2 cur e es)
  note ord = key_order_less [OF assms]
  show ?case
  proof (rule merge_conds_cases [where e = e and cur = cur and es = es])
    assume c: "e_cond e = {}" "merge_conds cur (e # es) = merge_conds cur es"
    show ?thesis using 2(1) [OF c(1)] 2(4) unfolding c(2) by auto
  next
    let ?cur = "cur\<lparr>e_data := (e_data cur)\<lparr>cond := e_cond cur \<union> e_cond e\<rparr>\<rparr>"
    assume c: "e_cond e \<noteq> {}" "e_dst cur = e_dst e \<and> e_acc cur = e_acc e \<and> e_src cur = e_src e"
      "merge_conds cur (e # es) = merge_conds ?cur es"
    have key: "acc_key ?cur = acc_key cur" by (simp add: acc_key_def)
    have "sorted_wrt (\<lambda>x y. \<not> prec y x) (?cur # es)" using 2(4) ord(2) [OF key] by simp
    from 2(2) [OF c(1,2) this] show ?thesis unfolding c(3) by (simp add: key) blast
  next
    assume c: "e_cond e \<noteq> {}" "\<not> (e_dst cur = e_dst e \<and> e_acc cur = e_acc e \<and> e_src cur = e_src e)"
      "merge_conds cur (e # es) = cur # merge_conds e es"
    have IH: "sorted_wrt prec (merge_conds e es)" "acc_key ` set (merge_conds e es) \<subseteq> acc_key ` set (e # es)"
      using 2(3) [OF c(1,2)] 2(4) by auto
    have e: "prec cur e" using 2(4) c(2) ord(4) [of e cur] by (auto simp: acc_key_def)
    have "prec cur z" if z: "z \<in> set (merge_conds e es)" for z
    proof -
      obtain y where y: "y \<in> set (e # es)" "acc_key z = acc_key y" using IH(2) z by blast
      have "prec cur y" using y(1) e ord(1) [OF e, of y] 2(4) by auto
      then show ?thesis using ord(2) [OF y(2)] by simp
    qed
    then show ?thesis using IH unfolding c(3) by auto
  qed
qed simp

lemma merge_accs_strict:
  assumes "key_order cond_key prec"
  shows "sorted_wrt (\<lambda>x y. \<not> prec y x) (cur # es) \<Longrightarrow>
    sorted_wrt prec (merge_accs cur es) \<and> cond_key ` set (merge_accs cur es) \<subseteq> cond_key ` set (cur # es)"
proof (induction cur es rule: merge_accs.induct)
  case (2 cur e es)
  note ord = key_order_less [OF assms]
  show ?case
  proof (rule merge_accs_cases [where e = e and cur = cur and es = es])
    let ?cur = "cur\<lparr>e_data := (e_data cur)\<lparr>acc := e_acc cur OR e_acc e\<rparr>\<rparr>"
    assume c: "e_dst cur = e_dst e \<and> e_cond cur = e_cond e \<and> e_src cur = e_src e"
      "merge_accs cur (e # es) = merge_accs ?cur es"
    have key: "cond_key ?cur = cond_key cur" by (simp add: cond_key_def)
    have "sorted_wrt (\<lambda>x y. \<not> prec y x) (?cur # es)" using 2(3) ord(2) [OF key] by simp
    from 2(1) [OF c(1) this] show ?thesis unfolding c(2) by (simp add: key) blast
  next
    assume c: "\<not> (e_dst cur = e_dst e \<and> e_cond cur = e_cond e \<and> e_src cur = e_src e)"
      "merge_accs cur (e # es) = cur # merge_accs e es"
    have IH: "sorted_wrt prec (merge_accs e es)" "cond_key ` set (merge_accs e es) \<subseteq> cond_key ` set (e # es)"
      using 2(2) [OF c(1)] 2(3) by auto
    have e: "prec cur e" using 2(3) c(1) ord(4) [of e cur] by (auto simp: cond_key_def)
    have "prec cur z" if z: "z \<in> set (merge_accs e es)" for z
    proof -
      obtain y where y: "y \<in> set (e # es)" "cond_key z = cond_key y" using IH(2) z by blast
      have "prec cur y" using y(1) e ord(1) [OF e, of y] 2(3) by auto
      then show ?thesis using ord(2) [OF y(2)] by simp
    qed
    then show ?thesis using IH unfolding c(2) by auto
  qed
qed simp

lemma drop_false_distinct:
  assumes "key_order acc_key prec"
  shows "distinct (map acc_key (drop_false_edges (sort_by prec es)))"
proof -
  have "sorted_wrt (\<lambda>x y. \<not> prec y x) (takeWhile (\<lambda>e. e_cond e = {}) (sort_by prec es) @ dropWhile (\<lambda>e. e_cond e = {}) (sort_by prec es))"
    unfolding takeWhile_dropWhile_id by (rule sorted_sort_by [OF key_order_weak [OF assms]])
  then have s: "sorted_wrt (\<lambda>x y. \<not> prec y x) (dropWhile (\<lambda>e. e_cond e = {}) (sort_by prec es))" unfolding sorted_wrt_append by blast
  show ?thesis
  proof (cases "sort_by prec es" rule: drop_false_cases)
    case (2 e r)
    then show ?thesis using merge_conds_strict [OF assms, of e r] key_order_distinct [OF assms] s by simp
  qed simp
qed

lemma merge_parallel_distinct:
  assumes "key_order cond_key prec"
  shows "distinct (map cond_key (tl (merge_parallel (sort_by prec es))))"
proof (cases "sort_by prec es" rule: merge_parallel_cases)
  case 1
  then show ?thesis by (cases "sort_by prec es") auto
next
  case (2 e1 e2 r)
  have "sorted_wrt (\<lambda>x y. \<not> prec y x) (e2 # r)"
    using sorted_sort_by [OF key_order_weak [OF assms], of es] unfolding 2(1) by simp
  then show ?thesis using merge_accs_strict [OF assms, of e2 r] key_order_distinct [OF assms] unfolding 2(2) by simp
qed

section \<open>The result of merge_edges\<close>

lemma merge_edges_result:
  assumes "wf_twa A"
  obtains B es where "merge_edges lt A = Inr B" "wf_twa B" "num_states (graph B) = num_states (graph A)"
    "twa_acc B = twa_acc A" "init_number B = init_number A" "live_views (graph A) = map edge_view es"
    "live_views (graph B) = map edge_view (merged_list lt (uses_fin_acceptance (twa_acc A)) es)"
proof -
  define g g0 es ms where "g = graph A" and "g0 = remove_dead_edges g" and "es = tl (edges g0)"
    and "ms = merged_list lt (uses_fin_acceptance (twa_acc A)) es"
  have wf: "wf_twa_graph g" "wf_graph g" "is_existential g" "init_number A < num_states g"
    using assms by (auto simp: wf_twa_def wf_twa_graph_def g_def)
  note g0 = remove_dead_views [OF wf(2), folded g0_def, folded es_def]
  have dests: "dests g0 = dests g" by (simp add: g0_def remove_dead_edges_def)
  define g2 where "g2 = g0\<lparr>edges := hd (edges g0) # ms\<rparr>"
  have ends: "\<forall>e \<in> set es. e_src e < num_states g \<and> e_dst e < num_states g"
  proof
    fix e assume "e \<in> set es"
    then have "edge_view e \<in> set (live_views g)" unfolding g0(5) [symmetric] by simp
    then obtain t where "0 < t" "is_valid_edge g t" "e_src (edges g ! t) = e_src e" "e_dst (edges g ! t) = e_dst e"
      unfolding edge_view_def live_views_iff [OF wf(2)] by auto
    then show "e_src e < num_states g \<and> e_dst e < num_states g"
      using wf(1,2) by (auto simp: wf_twa_graph_def wf_graph_def num_states_def is_valid_edge_def)
  qed
  have mends: "\<forall>e \<in> set ms. e_src e < num_states g \<and> e_dst e < num_states g"
    unfolding ms_def by (rule merged_list_all [OF ends])
  have "\<exists>g'. chain_edges g2 = Some g' \<and> wf_graph g' \<and> num_states g' = num_states g2 \<and>
      live_views g' = map edge_view (tl (edges g2)) \<and> dests g' = dests g2 \<and> length (edges g') = length (edges g2)"
  proof (rule chain_views)
    show "next_succ (edges g2 ! 0) = 0"
      using wf(2) g0(4) unfolding g2_def wf_graph_def by (simp add: hd_conv_nth)
    show "sorted (map e_src (tl (edges g2)))" by (simp add: g2_def ms_def merged_list_sorted)
    show "\<forall>e \<in> set (tl (edges g2)). e_src e < num_states g2" using mends g0(2) by (simp add: g2_def num_states_def)
  qed (use g0 in \<open>simp_all add: g2_def\<close>)
  then obtain g3 where g3: "chain_edges g2 = Some g3" "wf_graph g3" "num_states g3 = num_states g"
    "live_views g3 = map edge_view ms" "dests g3 = dests g" "length (edges g3) = Suc (length ms)"
    using g0(2) dests by (auto simp: g2_def num_states_def)
  define B where "B = (let B = A\<lparr>graph := g3\<rparr> in
      if length (edges g3) \<noteq> length (edges g0) \<and> is_false (universal (props B))
      then update_props (set_universal trival_maybe) B else B)"
  have B: "graph B = g3" "twa_acc B = twa_acc A" "init_number B = init_number A" by (simp_all add: B_def Let_def)
  have res: "merge_edges lt A = Inr B"
  proof -
    define g1 where "g1 = sort_edges edge_less_acc g0"
    have g1: "edges g1 = hd (edges g0) # sort_by edge_less_acc es" by (simp add: g1_def sort_edges_def es_def)
    have len: "length (edges g1) = length (edges g0)"
      using g0(3) mset_sort_by [of edge_less_acc es] unfolding g1 by (metis es_def length_Cons list.collapse list.sel(3) size_mset)
    define g1' where "g1' = g1\<lparr>edges := hd (edges g1) # drop_false_edges (tl (edges g1))\<rparr>"
    have "g2 = (if 2 < length (edges g1') \<and> \<not> uses_fin_acceptance (twa_acc A)
        then (sort_edges (edge_less_cond lt) g1')\<lparr>edges := hd (edges (sort_edges (edge_less_cond lt) g1')) #
               merge_parallel (tl (edges (sort_edges (edge_less_cond lt) g1')))\<rparr> else g1')"
      unfolding g2_def ms_def merged_list_def Let_def g1'_def g1_def sort_edges_def es_def
      by simp
    note g2 = this
    have ex2: "\<not> \<not> is_existential g0" using wf(3) dests by (simp add: is_existential_def)
    have gr: "graph (A\<lparr>graph := x\<rparr>) = x" "twa_acc (A\<lparr>graph := x\<rparr>) = twa_acc A"
      "A\<lparr>graph := y, graph := x\<rparr> = A\<lparr>graph := x\<rparr>" for x y by simp_all
    show ?thesis
      unfolding merge_edges_def Let_def g_def [symmetric] g0_def [symmetric] gr if_not_P [OF ex2]
        g1_def [symmetric] g1'_def [symmetric] g2 [symmetric] g3(1) option.case B_def len ..
  qed
  have "wf_twa_graph g3"
    using g3(2,5) wf(3) mends unfolding wf_twa_views g3(3,4) by (auto simp: is_existential_def edge_view_def)
  then have wB: "wf_twa B" using wf(4) g3(3) by (simp add: wf_twa_def B)
  show ?thesis
    by (rule that [OF res wB, of es]) (simp_all add: B g3(3,4) g0(5) g_def [symmetric] ms_def)
qed

lemma merged_accepts:
  assumes "wf_twa A" "wf_cond (twa_acc A)" "wf_graph (graph A)" "wf_graph (graph B)"
    and B: "twa_acc B = twa_acc A" "init_number B = init_number A" "live_views (graph A) = map edge_view es"
      "live_views (graph B) = map edge_view (merged_list lt (uses_fin_acceptance (twa_acc A)) es)"
  shows "accepts B w \<longleftrightarrow> accepts A w"
proof -
  have d3: "delta (graph B) p a m q = list_delta (merged_list lt (uses_fin_acceptance (twa_acc A)) es) p a m q" for p a m q
    unfolding delta_views [OF assms(4)] B(4) list_delta_views ..
  have d: "delta (graph A) p a m q = list_delta es p a m q" for p a m q
    unfolding delta_views [OF assms(3)] B(3) list_delta_views ..
  show ?thesis
  proof (cases "uses_fin_acceptance (twa_acc A)")
    case True
    have "delta (graph B) = delta (graph A)" by (intro ext) (unfold d d3, rule merged_list_delta(4) [OF True])
    then show ?thesis unfolding accepts_def B(1,2) by simp
  next
    case False
    show ?thesis
    proof (rule accepts_merged [OF assms(2) False B(1,2)], unfold d d3)
      show "\<exists>n. list_delta (merged_list lt (uses_fin_acceptance (twa_acc A)) es) p a n q \<and> bits m \<subseteq> bits n"
        if "list_delta es p a m q" for p a m q using merged_list_delta(1) [OF that] .
      show "\<exists>m. list_delta es p a m q"
        if "list_delta (merged_list lt (uses_fin_acceptance (twa_acc A)) es) p a n q" for p a n q
        using merged_list_delta(2) [OF that] .
      show "\<exists>m. list_delta es p a m q \<and> bit m b"
        if "list_delta (merged_list lt (uses_fin_acceptance (twa_acc A)) es) p a n q" "bit n b" for p a n q b
        using merged_list_delta(3) [OF that] .
    qed
  qed
qed

text \<open>The edges that are left after the two loops, as a function of the transitions.\<close>

definition first_pass :: "('l, 'n::len mark_t) edge_label edge_storage list \<Rightarrow> ('l, 'n mark_t) edge_label edge_storage list" where
  "first_pass es = drop_false_edges (sort_by edge_less_acc es)"

lemma merged_list_passes:
  "merged_list lt True es = first_pass es"
  "merged_list lt False es = merge_parallel (sort_by (edge_less_cond lt) (first_pass es))"
proof -
  show "merged_list lt True es = first_pass es" by (simp add: merged_list_def first_pass_def Let_def)
  show "merged_list lt False es = merge_parallel (sort_by (edge_less_cond lt) (first_pass es))"
  proof (cases "1 < length (first_pass es)")
    case True
    then show ?thesis by (simp add: merged_list_def first_pass_def Let_def)
  next
    case False
    then have "first_pass es = [] \<or> (\<exists>e. first_pass es = [e])" by (cases "first_pass es") (auto simp: Suc_le_eq)
    then show ?thesis using False by (auto simp: merged_list_def first_pass_def Let_def merge_parallel_def sort_by_def)
  qed
qed

definition united :: "('s, ('l, 'm) edge_label) digraph \<Rightarrow> nat \<Rightarrow> nat \<Rightarrow> 'm \<Rightarrow> 'l set" where
  "united g p q m = \<Union> {cond x |x. (p, q, x) \<in> set (live_views g) \<and> acc x = m}"

lemma united_delta: "live_views g = map edge_view es \<Longrightarrow> united g p q m = {a. list_delta es p a m q}"
  unfolding united_def list_delta_views by auto

lemma first_pass_exact:
  fixes es :: "('l, 'n::len mark_t) edge_label edge_storage list"
  assumes "word_bits dvd LENGTH('n)"
  shows "distinct (map acc_key (first_pass es))"
    and "e \<in> set (first_pass es) \<Longrightarrow> e_cond e \<noteq> {} \<and> e_cond e = {a. list_delta es (e_src e) a (e_acc e) (e_dst e)}"
    and "list_delta es p a m q \<Longrightarrow> \<exists>e \<in> set (first_pass es). acc_key e = (p, q, m)"
proof -
  have d: "list_delta (first_pass es) p a m q = list_delta es p a m q" for p a m q
    unfolding first_pass_def drop_false_delta by (simp add: list_delta_def)
  show dist: "distinct (map acc_key (first_pass es))"
    unfolding first_pass_def by (rule drop_false_distinct [OF edge_orders(1) [OF assms]])
  show "e_cond e \<noteq> {} \<and> e_cond e = {a. list_delta es (e_src e) a (e_acc e) (e_dst e)}" if e: "e \<in> set (first_pass es)"
  proof
    have "nonfalse e" using e drop_false_facts(2) [of "sort_by edge_less_acc es"] unfolding first_pass_def list_all_iff by blast
    then show "e_cond e \<noteq> {}" by (simp add: nonfalse_def)
    have same: "f = e" if "f \<in> set (first_pass es)" "acc_key f = acc_key e" for f
      using inj_onD [OF distinct_map [THEN iffD1, OF dist, THEN conjunct2] that(2,1) e] .
    have "list_delta (first_pass es) (e_src e) a (e_acc e) (e_dst e) \<longleftrightarrow> a \<in> e_cond e" for a
    proof
      assume "list_delta (first_pass es) (e_src e) a (e_acc e) (e_dst e)"
      then obtain f where f: "f \<in> set (first_pass es)" "a \<in> e_cond f" "acc_key f = acc_key e"
        unfolding list_delta_def acc_key_def by auto
      then show "a \<in> e_cond e" using same [OF f(1,3)] by simp
    next
      assume "a \<in> e_cond e"
      then show "list_delta (first_pass es) (e_src e) a (e_acc e) (e_dst e)" using e unfolding list_delta_def by auto
    qed
    then show "e_cond e = {a. list_delta es (e_src e) a (e_acc e) (e_dst e)}" unfolding d by (simp add: set_eq_iff)
  qed
  show "\<exists>e \<in> set (first_pass es). acc_key e = (p, q, m)" if "list_delta es p a m q"
  proof -
    have "list_delta (first_pass es) p a m q" using that unfolding d .
    then obtain e where "e \<in> set (first_pass es)" "e_src e = p" "e_dst e = q" "e_acc e = m" unfolding list_delta_def by auto
    then show ?thesis unfolding acc_key_def by (intro bexI [of _ e]) simp_all
  qed
qed

lemma first_pass_views:
  fixes es :: "('l, 'n::len mark_t) edge_label edge_storage list"
  assumes "word_bits dvd LENGTH('n)" "live_views g = map edge_view es"
  shows "(p, q, x) \<in> set (map edge_view (first_pass es)) \<longleftrightarrow> cond x \<noteq> {} \<and> cond x = united g p q (acc x)"
proof -
  note exact = first_pass_exact [OF assms(1), where es = es]
  show ?thesis
    unfolding united_delta [OF assms(2)]
  proof
    assume "(p, q, x) \<in> set (map edge_view (first_pass es))"
    then obtain e where e: "e \<in> set (first_pass es)" "p = e_src e" "q = e_dst e" "x = e_data e" unfolding edge_view_def by auto
    show "cond x \<noteq> {} \<and> cond x = {a. list_delta es p a (acc x) q}" unfolding e(2-4) by (rule exact(2) [OF e(1)])
  next
    assume x: "cond x \<noteq> {} \<and> cond x = {a. list_delta es p a (acc x) q}"
    then obtain a where "list_delta es p a (acc x) q" by blast
    from exact(3) [OF this] obtain e where e: "e \<in> set (first_pass es)" "e_src e = p" "e_dst e = q" "e_acc e = acc x"
      unfolding acc_key_def by blast
    then have "e_cond e = cond x" using exact(2) [of e] x by simp
    then have "e_data e = x" using e(4) by simp
    then show "(p, q, x) \<in> set (map edge_view (first_pass es))" using e unfolding edge_view_def by force
  qed
qed

lemma second_pass_views:
  fixes es :: "('l, 'n::len mark_t) edge_label edge_storage list" and lt :: "'l set \<Rightarrow> 'l set \<Rightarrow> bool"
  assumes "word_bits dvd LENGTH('n)" "live_views g = map edge_view es" "c \<noteq> {}"
  defines "V \<equiv> set (map edge_view (merged_list lt False es))"
  shows "(\<exists>x. (p, q, x) \<in> V \<and> cond x = c) \<longleftrightarrow> (\<exists>m. united g p q m = c)"
    and "\<Union> {bits (acc x) |x. (p, q, x) \<in> V \<and> cond x = c} = \<Union> {bits m |m. united g p q m = c}"
proof -
  define fs where "fs = sort_by (edge_less_cond lt) (first_pass es)"
  have fs: "set fs = set (first_pass es)" by (simp add: fs_def)
  have V: "V = edge_view ` set (merge_parallel fs)" by (simp add: V_def merged_list_passes(2) fs_def)
  have view: "(p, q, x) \<in> edge_view ` S \<longleftrightarrow> (\<exists>e \<in> S. e_src e = p \<and> e_dst e = q \<and> e_data e = x)" for p q S
    and x :: "('l, 'n mark_t) edge_label" unfolding edge_view_def by auto
  have first: "(\<exists>e \<in> set fs. e_src e = p \<and> e_dst e = q \<and> e_cond e = c \<and> e_acc e = m) \<longleftrightarrow> united g p q m = c" for m
  proof -
    have "(\<exists>e \<in> set fs. e_src e = p \<and> e_dst e = q \<and> e_cond e = c \<and> e_acc e = m) \<longleftrightarrow>
        (\<exists>x. (p, q, x) \<in> set (map edge_view (first_pass es)) \<and> cond x = c \<and> acc x = m)"
      unfolding fs set_map view by blast
    also have "\<dots> \<longleftrightarrow> (\<exists>x :: ('l, 'n mark_t) edge_label. cond x = c \<and> acc x = m \<and> c = united g p q m)"
      unfolding first_pass_views [OF assms(1,2)] by (rule iff_exI) (use assms(3) in auto)
    also have "\<dots> \<longleftrightarrow> united g p q m = c"
    proof
      assume "united g p q m = c"
      then show "\<exists>x :: ('l, 'n mark_t) edge_label. cond x = c \<and> acc x = m \<and> c = united g p q m" by (intro exI [of _ "\<lparr>cond = c, acc = m\<rparr>"]) simp
    qed blast
    finally show ?thesis .
  qed
  show "(\<exists>x. (p, q, x) \<in> V \<and> cond x = c) \<longleftrightarrow> (\<exists>m. united g p q m = c)"
    unfolding V view first [symmetric] using set_merge_parallel [of _ fs] merge_parallel_set [of _ fs] by metis
  show "\<Union> {bits (acc x) |x. (p, q, x) \<in> V \<and> cond x = c} = \<Union> {bits m |m. united g p q m = c}"
  proof (intro equalityI subsetI)
    fix b assume "b \<in> \<Union> {bits (acc x) |x. (p, q, x) \<in> V \<and> cond x = c}"
    then obtain e where e: "e \<in> set (merge_parallel fs)" "e_src e = p" "e_dst e = q" "e_cond e = c" "bit (e_acc e) b"
      unfolding V view by auto
    then obtain f where "f \<in> set fs" "e_src f = p" "e_dst f = q" "e_cond f = c" "bit (e_acc f) b"
      using merge_parallel_set [OF e(1)] by metis
    then have "united g p q (e_acc f) = c" "b \<in> bits (e_acc f)" using first [of "e_acc f"] by auto
    then show "b \<in> \<Union> {bits m |m. united g p q m = c}" by blast
  next
    fix b assume "b \<in> \<Union> {bits m |m. united g p q m = c}"
    then obtain m where m: "united g p q m = c" "b \<in> bits m" by blast
    then obtain f where f: "f \<in> set fs" "e_src f = p" "e_dst f = q" "e_cond f = c" "e_acc f = m" using first [of m] by blast
    then obtain e where "e \<in> set (merge_parallel fs)" "e_src e = p" "e_dst e = q" "e_cond e = c" "bits m \<subseteq> bits (e_acc e)"
      using set_merge_parallel [OF f(1)] by metis
    then show "b \<in> \<Union> {bits (acc x) |x. (p, q, x) \<in> V \<and> cond x = c}" using m(2) unfolding V view by blast
  qed
qed

lemma second_pass_first:
  assumes "merged_list lt False es \<noteq> []"
  shows "hd (merged_list lt False es) \<in> set (first_pass es)"
proof -
  have "hd (merge_parallel fs) \<in> set fs" if "merge_parallel fs \<noteq> []" for fs :: "('a, 'b::len mark_t) edge_label edge_storage list"
    using that by (cases fs rule: merge_parallel_cases) auto
  from this [of "sort_by (edge_less_cond lt) (first_pass es)"] show ?thesis
    using assms unfolding merged_list_passes by simp
qed

lemma live_views_succs:
  assumes "wf_graph g"
  shows "(p, q, x) \<in> set (live_views g) \<longleftrightarrow> p < num_states g \<and> (q, x) \<in> set (succs g p)"
proof -
  have "p < num_states g" if "is_valid_edge g t" "0 < t" "e_src (edges g ! t) = p" for t
    using that assms by (auto simp: wf_graph_def num_states_def is_valid_edge_def)
  then show ?thesis
    unfolding live_views_iff [OF assms] succs_def using out_valid [OF assms, of p] by auto
qed

lemma united_upper: "(p, q, x) \<in> set (live_views g) \<Longrightarrow> cond x \<subseteq> united g p q (acc x)"
  unfolding united_def by blast

text \<open>
  Property C10: on a well-formed automaton without universal branching, \<open>merge_edges\<close> returns a
  well-formed automaton with the same states, no edge with a false condition, no more edges, and the
  same language, whatever the order used for the conditions.  Which edges are left, for the supported
  widths of marks: when the condition uses \<open>Fin\<close>, exactly one edge for each source, destination and
  mark that had one, and its condition is the union of the conditions of those edges (false ones
  excepted).  Without \<open>Fin\<close> the edges that the first pass leaves with the same source, destination and
  condition are then united: these triples are kept, the marks of the edges left for a triple are
  together the union of the marks of the edges united, and, when the conditions are sorted by a strict
  linear order, no two edges but the first of the list share a triple.  The first edge of the
  list is left as the first pass made it.
\<close>

theorem merge_edges_sound:
  fixes A :: "('l, 'n::len) twa_graph"
  assumes "wf_twa A" "wf_cond (twa_acc A)"
  shows "\<exists>B. merge_edges lt A = Inr B \<and> wf_twa B \<and> (\<forall>w. accepts B w \<longleftrightarrow> accepts A w) \<and>
    num_states (graph B) = num_states (graph A) \<and> num_edges (graph B) \<le> num_edges (graph A) \<and>
    (\<forall>s < num_states (graph B). \<forall>(q, x) \<in> set (succs (graph B) s). cond x \<noteq> {}) \<and>
    (word_bits dvd LENGTH('n) \<and> uses_fin_acceptance (twa_acc A) \<longrightarrow>
      distinct (map (\<lambda>(p, q, x). (p, q, acc x)) (live_views (graph B))) \<and>
      (\<forall>p q x. (p, q, x) \<in> set (live_views (graph B)) \<longleftrightarrow> cond x \<noteq> {} \<and> cond x = united (graph A) p q (acc x))) \<and>
    (word_bits dvd LENGTH('n) \<and> \<not> uses_fin_acceptance (twa_acc A) \<longrightarrow>
      (\<forall>p q c. c \<noteq> {} \<longrightarrow>
        ((\<exists>x. (p, q, x) \<in> set (live_views (graph B)) \<and> cond x = c) \<longleftrightarrow> (\<exists>m. united (graph A) p q m = c)) \<and>
        \<Union> {bits (acc x) |x. (p, q, x) \<in> set (live_views (graph B)) \<and> cond x = c} =
          \<Union> {bits m |m. united (graph A) p q m = c}) \<and>
      (strict_linear lt \<longrightarrow> distinct (map (\<lambda>(p, q, x). (p, q, cond x)) (tl (live_views (graph B))))) \<and>
      (live_views (graph B) \<noteq> [] \<longrightarrow> (case hd (live_views (graph B)) of (p, q, x) \<Rightarrow> cond x = united (graph A) p q (acc x))))"
proof -
  define fin where "fin = uses_fin_acceptance (twa_acc A)"
  obtain B es where B: "merge_edges lt A = Inr B" "wf_twa B" "num_states (graph B) = num_states (graph A)"
    "twa_acc B = twa_acc A" "init_number B = init_number A" "live_views (graph A) = map edge_view es"
    "live_views (graph B) = map edge_view (merged_list lt fin es)"
    using merge_edges_result [OF assms(1), of lt] unfolding fin_def by metis
  have wf: "wf_graph (graph A)" "wf_graph (graph B)" using assms(1) B(2) by (simp_all add: wf_twa_def wf_twa_graph_def)
  note V = B(7)
  have lang: "\<forall>w. accepts B w \<longleftrightarrow> accepts A w"
    by (intro allI) (rule merged_accepts [OF assms wf B(4-7) [unfolded fin_def]])
  have nonempty: "\<forall>s < num_states (graph B). \<forall>(q, x) \<in> set (succs (graph B) s). cond x \<noteq> {}"
  proof (intro allI impI ballI, clarify)
    fix s q x assume "s < num_states (graph B)" "(q, x) \<in> set (succs (graph B) s)" "cond x = {}"
    then have "(s, q, x) \<in> set (live_views (graph B))" "cond x = {}" using live_views_succs [OF wf(2)] by blast+
    then show False using merged_list_facts(2) [of lt fin es] unfolding V edge_view_def by (auto simp: list_all_iff nonfalse_def)
  qed
  have count: "num_edges (graph B) \<le> num_edges (graph A)"
    using merged_list_facts(1) [of lt fin es] arg_cong [OF B(6), of length] arg_cong [OF V, of length]
    by (simp add: num_edges_live wf live_views_def)
  have keys: "(\<lambda>(p, q, x). (p, q, acc x)) \<circ> edge_view = acc_key" "(\<lambda>(p, q, x). (p, q, cond x)) \<circ> edge_view = cond_key"
    by (simp_all add: fun_eq_iff edge_view_def acc_key_def cond_key_def)
  have pass1: "distinct (map (\<lambda>(p, q, x). (p, q, acc x)) (live_views (graph B))) \<and>
      (\<forall>p q x. (p, q, x) \<in> set (live_views (graph B)) \<longleftrightarrow> cond x \<noteq> {} \<and> cond x = united (graph A) p q (acc x))"
    if "word_bits dvd LENGTH('n) \<and> fin"
  proof
    have w: "word_bits dvd LENGTH('n)" and f: "merged_list lt fin es = first_pass es"
      using that by (simp_all only: merged_list_passes(1) simp_thms)
    show "distinct (map (\<lambda>(p, q, x). (p, q, acc x)) (live_views (graph B)))"
      unfolding V map_map keys f by (rule first_pass_exact(1) [OF w])
    show "\<forall>p q x. (p, q, x) \<in> set (live_views (graph B)) \<longleftrightarrow> cond x \<noteq> {} \<and> cond x = united (graph A) p q (acc x)"
      unfolding V f by (intro allI first_pass_views [OF w B(6)])
  qed
  have pass2: "(\<forall>p q c. c \<noteq> {} \<longrightarrow>
        ((\<exists>x. (p, q, x) \<in> set (live_views (graph B)) \<and> cond x = c) \<longleftrightarrow> (\<exists>m. united (graph A) p q m = c)) \<and>
        \<Union> {bits (acc x) |x. (p, q, x) \<in> set (live_views (graph B)) \<and> cond x = c} =
          \<Union> {bits m |m. united (graph A) p q m = c}) \<and>
      (strict_linear lt \<longrightarrow> distinct (map (\<lambda>(p, q, x). (p, q, cond x)) (tl (live_views (graph B))))) \<and>
      (live_views (graph B) \<noteq> [] \<longrightarrow> (case hd (live_views (graph B)) of (p, q, x) \<Rightarrow> cond x = united (graph A) p q (acc x)))"
    if "word_bits dvd LENGTH('n) \<and> \<not> fin"
  proof (intro conjI allI impI)
    have w: "word_bits dvd LENGTH('n)" and f: "fin = False" using that by blast+
    fix p q c assume c: "(c :: 'l set) \<noteq> {}"
    show "(\<exists>x. (p, q, x) \<in> set (live_views (graph B)) \<and> cond x = c) \<longleftrightarrow> (\<exists>m. united (graph A) p q m = c)"
      "\<Union> {bits (acc x) |x. (p, q, x) \<in> set (live_views (graph B)) \<and> cond x = c} = \<Union> {bits m |m. united (graph A) p q m = c}"
      unfolding V f by (rule second_pass_views [OF w B(6) c])+
  next
    assume lt: "strict_linear lt"
    have f: "fin = False" using that by blast
    show "distinct (map (\<lambda>(p, q, x). (p, q, cond x)) (tl (live_views (graph B))))"
      unfolding V f map_tl [symmetric] map_map keys merged_list_passes(2)
      by (rule merge_parallel_distinct [OF edge_orders(2) [OF lt]])
  next
    have w: "word_bits dvd LENGTH('n)" and f: "fin = False" using that by blast+
    assume "live_views (graph B) \<noteq> []"
    then have ne: "merged_list lt False es \<noteq> []" unfolding V f by simp
    obtain p q x where h: "hd (live_views (graph B)) = (p, q, x)" by (cases "hd (live_views (graph B))")
    have "(p, q, x) \<in> set (map edge_view (first_pass es))"
      using second_pass_first [OF ne] unfolding h [symmetric] V f hd_map [OF ne] set_map by (rule imageI)
    then have "cond x = united (graph A) p q (acc x)" unfolding first_pass_views [OF w B(6)] by blast
    then show "case hd (live_views (graph B)) of (p, q, x) \<Rightarrow> cond x = united (graph A) p q (acc x)" unfolding h by simp
  qed
  show ?thesis
    unfolding fin_def [symmetric]
    by (rule exI [of _ B], intro conjI B(1-3) lang nonempty count impI [OF pass1] impI [OF pass2]; (erule conjunct1 | erule conjunct2))
qed

text \<open>An automaton whose two edges are parallel.\<close>

definition twins :: "bool set \<Rightarrow> 32 mark_t \<Rightarrow> bool set \<Rightarrow> 32 mark_t \<Rightarrow> (bool, 32) twa_graph" where
  "twins c m d n = explicit_twa 1 0 \<lparr>num_sets = 2, all_sets = 3, get_acceptance = enc (TInf 3), uses_fin_acceptance = False\<rparr>
     [(0, 0, c, m), (0, 0, d, n)]"

lemma twins_spec:
  "wf_twa (twins c m d n)" "wf_cond (twa_acc (twins c m d n))" "\<not> uses_fin_acceptance (twa_acc (twins c m d n))"
  "(p, q, x) \<in> set (live_views (graph (twins c m d n))) \<longleftrightarrow>
    p = 0 \<and> q = 0 \<and> (x = \<lparr>cond = c, acc = m\<rparr> \<or> x = \<lparr>cond = d, acc = n\<rparr>)"
proof -
  show wf: "wf_twa (twins c m d n)" "\<not> uses_fin_acceptance (twa_acc (twins c m d n))" by (simp_all add: twins_def explicit_twa_spec)
  have "tree_ok (TInf 3 :: 32 acc_tree)" "plain (TInf 3 :: 32 acc_tree)" by (simp_all add: tree_ok_def)
  then have "wf_acc (twa_acc (twins c m d n))"
    unfolding wf_acc_def by (intro exI [of _ "TInf 3"]) (simp add: twins_def explicit_twa_spec)
  then show "wf_cond (twa_acc (twins c m d n))"
    by (simp add: wf_cond_def twins_def explicit_twa_spec check_fin_acceptance_def)
  have "wf_graph (graph (twins c m d n))" using wf(1) by (simp add: wf_twa_def wf_twa_graph_def)
  from live_views_succs [OF this] show "(p, q, x) \<in> set (live_views (graph (twins c m d n))) \<longleftrightarrow>
    p = 0 \<and> q = 0 \<and> (x = \<lparr>cond = c, acc = m\<rparr> \<or> x = \<lparr>cond = d, acc = n\<rparr>)"
    by (auto simp: twins_def explicit_twa_spec)
qed

theorem merge_edges_sound_witness:
  "\<forall>lt. \<exists>B x. merge_edges lt (twins {True} 1 {False} 1) = Inr B \<and> wf_twa B \<and>
    (\<forall>w. accepts B w \<longleftrightarrow> accepts (twins {True} 1 {False} 1) w) \<and>
    (0, 0, x) \<in> set (live_views (graph B)) \<and> cond x = UNIV"
proof
  fix lt :: "bool set \<Rightarrow> bool set \<Rightarrow> bool"
  let ?A = "twins {True} 1 {False} 1"
  have "{b} \<subseteq> united (graph ?A) 0 0 1" for b
    using united_upper [of 0 0 "\<lparr>cond = {b}, acc = 1\<rparr>" "graph ?A"] by (cases b) (simp_all add: twins_spec)
  then have "united (graph ?A) 0 0 1 = UNIV" by blast
  then have m: "\<exists>m. united (graph ?A) 0 0 m = UNIV" by blast
  have "word_bits dvd LENGTH(32) \<and> \<not> uses_fin_acceptance (twa_acc ?A)" by (simp add: twins_spec)
  note hyps = this UNIV_not_empty
  from merge_edges_sound [OF twins_spec(1,2), of lt "{True}" 1 "{False}" 1] show "\<exists>B x. merge_edges lt ?A = Inr B \<and> wf_twa B \<and> (\<forall>w. accepts B w \<longleftrightarrow> accepts ?A w) \<and>
      (0, 0, x) \<in> set (live_views (graph B)) \<and> cond x = UNIV"
  proof (elim exE conjE)
    fix B assume B: "merge_edges lt ?A = Inr B" "wf_twa B" "\<forall>w. accepts B w \<longleftrightarrow> accepts ?A w"
      and "word_bits dvd LENGTH(32) \<and> \<not> uses_fin_acceptance (twa_acc ?A) \<longrightarrow>
      (\<forall>p q c. c \<noteq> {} \<longrightarrow>
        ((\<exists>x. (p, q, x) \<in> set (live_views (graph B)) \<and> cond x = c) \<longleftrightarrow> (\<exists>m. united (graph ?A) p q m = c)) \<and>
        \<Union> {bits (acc x) |x. (p, q, x) \<in> set (live_views (graph B)) \<and> cond x = c} =
          \<Union> {bits m |m. united (graph ?A) p q m = c}) \<and>
      (strict_linear lt \<longrightarrow> distinct (map (\<lambda>(p, q, x). (p, q, cond x)) (tl (live_views (graph B))))) \<and>
      (live_views (graph B) \<noteq> [] \<longrightarrow> (case hd (live_views (graph B)) of (p, q, x) \<Rightarrow> cond x = united (graph ?A) p q (acc x)))"
    from this(4) [THEN mp, OF hyps(1), THEN conjunct1, rule_format, OF hyps(2), THEN conjunct1] m
    obtain x where "(0, 0, x) \<in> set (live_views (graph B))" "cond x = UNIV" by blast
    with B show "\<exists>B x. merge_edges lt ?A = Inr B \<and> wf_twa B \<and> (\<forall>w. accepts B w \<longleftrightarrow> accepts ?A w) \<and>
      (0, 0, x) \<in> set (live_views (graph B)) \<and> cond x = UNIV" by blast
  qed
qed

lemma merge_accs_same:
  "\<forall>e \<in> set es. cond_key e = cond_key cur \<Longrightarrow> length (merge_accs cur es) = 1"
  by (induction cur es rule: merge_accs.induct) (simp_all add: cond_key_def)

text \<open>
  Property C38: the second pass never looks at the first edge.  When all edges of an automaton without
  \<open>Fin\<close> go from one state to another under one condition, with at least two different marks, two edges
  are left, where one with all the marks would do.
\<close>

theorem merge_edges_first_edge:
  fixes A :: "('l, 'n::len) twa_graph"
  assumes "wf_twa A" and "\<not> uses_fin_acceptance (twa_acc A)" and "word_bits dvd LENGTH('n)" and "c \<noteq> {}"
    and "\<forall>(p', q', x) \<in> set (live_views (graph A)). p' = p \<and> q' = q \<and> cond x = c"
    and "(p, q, x) \<in> set (live_views (graph A))" "(p, q, y) \<in> set (live_views (graph A))" "acc x \<noteq> acc y"
  shows "\<exists>B. merge_edges lt A = Inr B \<and> num_edges (graph B) = 2"
proof -
  obtain B es where B: "merge_edges lt A = Inr B" "wf_twa B" "live_views (graph A) = map edge_view es"
    "live_views (graph B) = map edge_view (merged_list lt False es)"
    using merge_edges_result [OF assms(1), of lt] assms(2) by metis
  have united: "united (graph A) p q m = c" if "(p, q, z) \<in> set (live_views (graph A))" "acc z = m" for z m
  proof -
    have "{cond x |x. (p, q, x) \<in> set (live_views (graph A)) \<and> acc x = m} = {c}"
      using assms(5) that by (auto simp: split_beta) force?
    then show ?thesis unfolding united_def by simp
  qed
  define fs where "fs = sort_by (edge_less_cond lt) (first_pass es)"
  have same: "cond_key e = (p, q, c)" if "e \<in> set fs" for e
  proof -
    have "e_cond e \<noteq> {} \<and> e_cond e = united (graph A) (e_src e) (e_dst e) (e_acc e)"
      unfolding united_delta [OF B(3)] by (rule first_pass_exact(2) [OF assms(3)]) (use that in \<open>simp add: fs_def\<close>)
    then have e: "e_cond e \<noteq> {}" "e_cond e = united (graph A) (e_src e) (e_dst e) (e_acc e)" by blast+
    then obtain z where z: "(e_src e, e_dst e, z) \<in> set (live_views (graph A))" "acc z = e_acc e"
      unfolding united_def by blast
    have "e_src e = p" "e_dst e = q" using bspec [OF assms(5) z(1)] by simp_all
    then show ?thesis using e(2) united z by (simp add: cond_key_def)
  qed
  have "\<exists>e \<in> set fs. e_acc e = acc z" if z: "(p, q, z) \<in> set (live_views (graph A))" for z
  proof -
    obtain a where "a \<in> united (graph A) p q (acc z)" using united [OF z] assms(4) by blast
    then have "list_delta es p a (acc z) q" unfolding united_delta [OF B(3)] by blast
    from first_pass_exact(3) [OF assms(3) this] show ?thesis unfolding fs_def acc_key_def by auto
  qed
  from this [OF assms(6)] this [OF assms(7)] obtain e f where "e \<in> set fs" "f \<in> set fs" "e \<noteq> f"
    using assms(8) by metis
  then obtain e1 e2 r where "fs = e1 # e2 # r" by (cases fs; cases "tl fs") auto
  then have "length (merge_parallel fs) = 2"
    using merge_accs_same [of r e2] same by (simp add: merge_parallel_def)
  then have "length (live_views (graph B)) = 2" unfolding B(4) merged_list_passes(2) fs_def [symmetric] by simp
  moreover have "wf_graph (graph B)" using B(2) by (simp add: wf_twa_def wf_twa_graph_def)
  ultimately show ?thesis using B(1) by (simp add: num_edges_live live_views_def)
qed

theorem merge_edges_first_edge_witness:
  "\<forall>lt. \<exists>B. merge_edges lt (twins UNIV 1 UNIV 2) = Inr B \<and> num_edges (graph B) = 2"
  by (rule allI, rule merge_edges_first_edge [of _ UNIV 0 0 "\<lparr>cond = UNIV, acc = 1\<rparr>" "\<lparr>cond = UNIV, acc = 2\<rparr>"])
    (auto simp: twins_spec)

end
