(* ===== verification/AccSat.thy ===== *)
theory AccSat
  imports AccQuery AccCond
begin

unbundle bit_operations_syntax

text \<open>
  Satisfying marks (twa/acc.cc, \<open>to_bdd_rec\<close> and \<open>sat_unsat_mark\<close>): a mark that satisfies a
  condition, or one that falsifies it, or the answer that there is none.  A BDD over \<open>n\<close> variables
  is the Boolean function it represents, on lists of \<open>n\<close> values; \<open>bdd_satone\<close> of BuDDy takes the
  low branch of a node unless it is false, and the variables that its cube does not mention do not
  become members of the mark.
\<close>

section \<open>Boolean functions\<close>

type_synonym bdd = "bool list \<Rightarrow> bool"

definition bdd_ithvar :: "nat \<Rightarrow> bdd" where
  "bdd_ithvar k = (\<lambda>v. v ! k)"

definition bdd_valid :: "nat \<Rightarrow> bdd \<Rightarrow> bool" where
  "bdd_valid n f \<longleftrightarrow> list_all f (List.n_lists n [False, True])"

definition bdd_none :: "nat \<Rightarrow> bdd \<Rightarrow> bool" where
  "bdd_none n f \<longleftrightarrow> bdd_valid n (\<lambda>v. \<not> f v)"

fun bdd_satone :: "nat \<Rightarrow> bdd \<Rightarrow> bool list" where
  "bdd_satone 0 f = []"
| "bdd_satone (Suc n) f =
    (if bdd_none n (\<lambda>v. f (False # v)) then True # bdd_satone n (\<lambda>v. f (True # v))
     else False # bdd_satone n (\<lambda>v. f (False # v)))"

text \<open>The formula of a code; \<open>vars\<close> (\<open>map\<close> in the code) is the vector of the BDDs of the sets.\<close>

fun to_bdd_rec :: "bdd list \<Rightarrow> 'n::len acc_code \<Rightarrow> bdd" where
  "to_bdd_rec vars (Sub OpOr sz # ws) = (\<lambda>v. list_ex (\<lambda>c. to_bdd_rec vars c v) (children (take sz ws)))"
| "to_bdd_rec vars (Sub OpAnd sz # ws) = (\<lambda>v. list_all (\<lambda>c. to_bdd_rec vars c v) (children (take sz ws)))"
| "to_bdd_rec vars (Sub OpFin sz # Mark m # ws) = (\<lambda>v. list_ex (\<lambda>i. \<not> (vars ! i) v) (mark_sets m))"
| "to_bdd_rec vars (Sub OpInf sz # Mark m # ws) = (\<lambda>v. list_all (\<lambda>i. (vars ! i) v) (mark_sets m))"
| "to_bdd_rec vars ws = (\<lambda>v. False)"

text \<open>The vectors \<open>sets\<close> and \<open>r\<close>: one variable for each used set, false for the others.\<close>

fun set_vars :: "'n::len mark_t \<Rightarrow> nat \<Rightarrow> nat list \<Rightarrow> nat list \<times> bdd list" where
  "set_vars used base [] = ([], [])"
| "set_vars used base (i # is) =
    (if mark_has used i
     then case set_vars used (Suc base) is of (sets, r) \<Rightarrow> (i # sets, bdd_ithvar base # r)
     else case set_vars used base is of (sets, r) \<Rightarrow> (sets, (\<lambda>v. False) # r))"

fun cube_mark :: "'n::len mark_t \<Rightarrow> nat list \<Rightarrow> bool list \<Rightarrow> 'n mark_t" where
  "cube_mark i (s # sets) (b # cube) = cube_mark (if b then mark_set i s else i) sets cube"
| "cube_mark i sets cube = i"

definition sat_unsat_mark :: "bool \<Rightarrow> 'n::len cond \<Rightarrow> bool \<times> 'n mark_t" where
  "sat_unsat_mark sat a =
    (let c = get_acceptance a in
     if sat \<and> is_f c then (False, 0)
     else if sat \<and> \<not> uses_fin_acceptance a then (True, all_sets a)
     else if \<not> sat \<and> is_t c then (False, 0)
     else if \<not> sat \<and> \<not> uses_fin_acceptance a then (True, 0)
     else let used = used_sets c; n = mark_count used;
              (sets, r) = set_vars used 0 [0..<mark_max_set used];
              res = to_bdd_rec r c
          in if bdd_valid n res then (sat, 0)
             else if bdd_none n res then (\<not> sat, 0)
             else (True, cube_mark 0 sets (bdd_satone n (if sat then res else (\<lambda>v. \<not> res v)))))"

definition sat_mark :: "'n::len cond \<Rightarrow> bool \<times> 'n mark_t" where
  "sat_mark a = sat_unsat_mark True a"

definition unsat_mark :: "'n::len cond \<Rightarrow> bool \<times> 'n mark_t" where
  "unsat_mark a = sat_unsat_mark False a"

section \<open>Correctness\<close>

lemma bdd_valid_iff: "bdd_valid n f \<longleftrightarrow> (\<forall>v. length v = n \<longrightarrow> f v)"
  by (auto simp: bdd_valid_def list_all_iff set_n_lists)

lemma bdd_none_iff: "bdd_none n f \<longleftrightarrow> (\<forall>v. length v = n \<longrightarrow> \<not> f v)"
  by (simp add: bdd_none_def bdd_valid_iff)

lemma bdd_satone_spec: "\<not> bdd_none n f \<Longrightarrow> f (bdd_satone n f) \<and> length (bdd_satone n f) = n"
proof (induction n arbitrary: f)
  case 0
  then show ?case by (auto simp: bdd_none_iff)
next
  case (Suc n)
  show ?case
  proof (cases "bdd_none n (\<lambda>v. f (False # v))")
    case True
    have "\<not> bdd_none n (\<lambda>v. f (True # v))"
    proof
      assume "bdd_none n (\<lambda>v. f (True # v))"
      with True have "\<not> f (b # v)" if "length v = n" for b v using that by (cases b) (auto simp: bdd_none_iff)
      then have "bdd_none (Suc n) f" by (auto simp: bdd_none_iff length_Suc_conv)
      with Suc.prems show False ..
    qed
    from Suc.IH [OF this] True show ?thesis by simp
  next
    case False
    from Suc.IH [OF this] False show ?thesis by simp
  qed
qed

text \<open>The valuation of the variables of the used sets by a mark, and the mark of a valuation.\<close>

lemma set_vars_spec:
  assumes "set_vars used b is = (sets, r)"
  shows "sets = filter (bit used) is" "length r = length is"
    "k < length is \<Longrightarrow> drop b v = map (bit m) sets \<Longrightarrow> b + length sets = length v \<Longrightarrow>
       (r ! k) v \<longleftrightarrow> bit used (is ! k) \<and> bit m (is ! k)"
proof -
  have "sets = filter (bit used) is \<and> length r = length is \<and>
    (\<forall>v k. k < length is \<longrightarrow> drop b v = map (bit m) sets \<longrightarrow> b + length sets = length v \<longrightarrow>
       (r ! k) v \<longleftrightarrow> bit used (is ! k) \<and> bit m (is ! k))"
    using assms
  proof (induction "is" arbitrary: b sets r)
    case (Cons i "is")
    show ?case
    proof (cases "bit used i")
      case True
      obtain s r' where sv: "set_vars used (Suc b) is = (s, r')" by fastforce
      note ih = Cons.IH [OF sv]
      have e: "sets = i # s" "r = bdd_ithvar b # r'" using Cons.prems True sv by (auto simp: mark_has_bit)
      have "(r ! k) v \<longleftrightarrow> bit used ((i # is) ! k) \<and> bit m ((i # is) ! k)"
        if k: "k < Suc (length is)" and d: "drop b v = map (bit m) sets" "b + length sets = length v" for v k
      proof (cases k)
        case 0
        have "v ! b = hd (drop b v)" using d(2) e(1) by (simp add: hd_drop_conv_nth)
        then show ?thesis using 0 True e d(1) by (simp add: bdd_ithvar_def)
      next
        case (Suc k')
        have "drop (Suc b) v = map (bit m) s" using d(1) e(1) by (metis drop_Suc tl_drop list.sel(3) map_tl)
        then show ?thesis using ih Suc k d(2) e by simp
      qed
      then show ?thesis using ih e True by simp
    next
      case False
      obtain s r' where sv: "set_vars used b is = (s, r')" by fastforce
      note ih = Cons.IH [OF sv]
      have e: "sets = s" "r = (\<lambda>v. False) # r'" using Cons.prems False sv by (auto simp: mark_has_bit)
      then show ?thesis using ih False by (auto simp: nth_Cons split: nat.split)
    qed
  qed simp
  then show "sets = filter (bit used) is" "length r = length is"
    "k < length is \<Longrightarrow> drop b v = map (bit m) sets \<Longrightarrow> b + length sets = length v \<Longrightarrow>
       (r ! k) v \<longleftrightarrow> bit used (is ! k) \<and> bit m (is ! k)" by blast+
qed

lemma cube_mark_bit:
  "length cube = length sets \<Longrightarrow> distinct sets \<Longrightarrow> list_all (\<lambda>s. s < LENGTH('n)) sets \<Longrightarrow>
    bit (cube_mark (m :: 'n::len mark_t) sets cube) i \<longleftrightarrow> bit m i \<or> (\<exists>k < length sets. sets ! k = i \<and> cube ! k)"
  by (induction m sets cube rule: cube_mark.induct)
     (auto simp: bit_mark_set less_Suc_eq_0_disj)

lemma to_bdd_enc:
  "node_ok t \<Longrightarrow> plain t \<Longrightarrow>
    \<forall>l \<in> leaves t. \<forall>i. bit (leaf_mark l) i \<longrightarrow> ((vars ! i) v \<longleftrightarrow> bit m i) \<Longrightarrow>
    to_bdd_rec vars (enc t) v \<longleftrightarrow> tree_sat (bit m) J t"
proof (induction t)
  case (TAnd ts)
  have "to_bdd_rec vars (enc u) v \<longleftrightarrow> tree_sat (bit m) J u" if "u \<in> set ts" for u
    using TAnd that by (intro TAnd.IH) (auto simp: list_all_iff)
  with TAnd.prems show ?case
    by (auto simp: enc_node children_enc list.pred_map list_all_iff simp del: enc.simps)
next
  case (TOr ts)
  have "to_bdd_rec vars (enc u) v \<longleftrightarrow> tree_sat (bit m) J u" if "u \<in> set ts" for u
    using TOr that by (intro TOr.IH) (auto simp: list_all_iff)
  with TOr.prems show ?case
    by (auto simp: enc_node children_enc list_ex_iff list_all_iff simp del: enc.simps)
qed (auto simp: list_all_iff list_ex_iff bits_def)

text \<open>
  The connectives drop the leaves without sets (they are true or false), so that such a leaf can
  only be the whole condition.
\<close>

definition nontrivial :: "'n::len acc_tree \<Rightarrow> bool" where
  "nontrivial t \<longleftrightarrow> (\<forall>l \<in> leaves t. leaf_mark l \<noteq> 0)"

definition wf_sat :: "'n::len cond \<Rightarrow> bool" where
  "wf_sat a \<longleftrightarrow> uses_fin_acceptance a = check_fin_acceptance (get_acceptance a) \<and>
     bits (used_sets (get_acceptance a)) \<subseteq> bits (all_sets a) \<and>
     (\<exists>t. get_acceptance a = enc t \<and> tree_ok t \<and> plain t \<and> (nontrivial t \<or> t = TInf 0 \<or> t = TFin 0))"

lemma inf_only:
  assumes "node_ok t" "plain t" "nontrivial t" "\<not> has_fin t" "\<forall>l \<in> leaves t. \<forall>i. bit (leaf_mark l) i \<longrightarrow> bit m i"
  shows "tree_sat (bit m) J t \<and> \<not> tree_sat (\<lambda>i. False) J t"
  using assms
proof (induction t)
  case (TAnd ts)
  have "tree_sat (bit m) J u \<and> \<not> tree_sat (\<lambda>i. False) J u" if "u \<in> set ts" for u
    using TAnd.prems that by (intro TAnd.IH) (auto simp: list_all_iff list_ex_iff nontrivial_def)
  then show ?case using TAnd.prems(1) by (auto simp: list_all_iff neq_Nil_conv)
next
  case (TOr ts)
  have "tree_sat (bit m) J u \<and> \<not> tree_sat (\<lambda>i. False) J u" if "u \<in> set ts" for u
    using TOr.prems that by (intro TOr.IH) (auto simp: list_all_iff list_ex_iff nontrivial_def)
  then show ?case using TOr.prems(1) by (auto simp: list_ex_iff neq_Nil_conv)
next
  case (TInf n)
  then have "n \<noteq> 0" by (simp add: nontrivial_def)
  then have "\<exists>i. bit n i" by (metis bit_eqI bit_0_eq bot_apply bot_bool_def)
  with TInf show ?case by auto
qed (auto simp: nontrivial_def)

text \<open>With \<open>Fin\<close>, the Boolean function of the code decides.\<close>

lemma sat_unsat_bdd:
  fixes a :: "'n::len cond"
  assumes t: "get_acceptance a = enc t" "node_ok t" "plain t" "t \<noteq> TInf 0" "t \<noteq> TFin 0"
    and "uses_fin_acceptance a" "sat_unsat_mark sat a = (found, m)"
  shows "(found \<longrightarrow> cond_accepting a m = sat) \<and> (\<not> found \<longrightarrow> (\<forall>n. cond_accepting a n \<noteq> sat)) \<and>
    bits m \<subseteq> bits (used_sets (enc t))"
proof -
  have ok: "tree_ok t" using t(2) by (simp add: tree_ok_def)
  have nt: "\<not> is_f (enc t)" "\<not> is_t (enc t)" using is_t_enc [OF ok] is_f_enc [OF ok] t(2,4,5) by auto
  define J where "J = (\<lambda>_ :: nat. False)"
  have acc: "cond_accepting a n \<longleftrightarrow> tree_sat (bit n) J t" for n
    unfolding cond_accepting_def t(1) by (rule accepting_enc [OF ok t(3)])
  define used n where "used = used_sets (enc t)" and "n = mark_count used"
  obtain sets r where sr: "set_vars used 0 [0..<mark_max_set used] = (sets, r)" by fastforce
  note sv = set_vars_spec [OF sr]
  define res where "res = to_bdd_rec r (enc t)"
  have sets: "sets = filter (bit used) [0..<LENGTH('n)]"
    using bit_below_max_set [of used] max_set_le_length [of used] bit_imp_le_length [of used]
    unfolding sv(1) by (intro sorted_distinct_set_unique) (auto intro: sorted_wrt_filter)
  have n: "length sets = n" unfolding n_def sets mark_count_def ..
  have d: "distinct sets" "list_all (\<lambda>s. s < LENGTH('n)) sets" unfolding sets by (auto simp: list_all_iff)
  have res: "res v \<longleftrightarrow> cond_accepting a k" if "v = map (bit k) sets" for v k
    unfolding acc res_def
  proof (rule to_bdd_enc [OF t(2,3)], intro ballI allI impI)
    fix l i assume "l \<in> leaves t" "bit (leaf_mark l) i"
    then have u: "bit used i" unfolding used_def using used_sets_enc [OF ok] by (auto simp: bits_def)
    have "i < length [0..<mark_max_set used]" using bit_below_max_set [OF u] by simp
    from sv(3) [OF this, of v k] show "(r ! i) v \<longleftrightarrow> bit k i" using that u bit_below_max_set [OF u] by simp
  qed
  have cube_bit: "bit (cube_mark (0 :: 'n mark_t) sets v) i \<longleftrightarrow> (\<exists>j < length sets. sets ! j = i \<and> v ! j)" if "length v = n" for v i
    using cube_mark_bit [of v sets "0 :: 'n mark_t" i] that n d by simp
  have cube: "v = map (bit (cube_mark (0 :: 'n mark_t) sets v)) sets" if v: "length v = n" for v
  proof (intro nth_equalityI)
    fix k assume "k < length v"
    then have k: "k < length sets" using v n by simp
    have "bit (cube_mark (0 :: 'n mark_t) sets v) (sets ! k) \<longleftrightarrow> v ! k"
      unfolding cube_bit [OF v] using k nth_eq_iff_index_eq [OF d(1)] by metis
    then show "v ! k = map (bit (cube_mark (0 :: 'n mark_t) sets v)) sets ! k" using k by simp
  qed (use v n in simp)
  have eq: "sat_unsat_mark sat a = (if bdd_valid n res then (sat, 0)
           else if bdd_none n res then (\<not> sat, 0)
           else (True, cube_mark 0 sets (bdd_satone n (if sat then res else (\<lambda>v. \<not> res v)))))"
    using nt assms(6) unfolding sat_unsat_mark_def Let_def t(1) used_def [symmetric] n_def [symmetric] sr
    by (simp add: res_def)
  show ?thesis
  proof (cases "bdd_valid n res \<or> bdd_none n res")
    case True
    then have "(\<forall>k. cond_accepting a k) \<and> bdd_valid n res \<or> (\<forall>k. \<not> cond_accepting a k) \<and> bdd_none n res \<and> \<not> bdd_valid n res"
      using res n unfolding bdd_valid_iff bdd_none_iff by (metis length_map)
    then show ?thesis using assms(7) unfolding eq by (auto simp: bits_def)
  next
    case False
    define f where "f = (if sat then res else (\<lambda>v. \<not> res v))"
    have "\<not> bdd_none n f" using False by (auto simp: f_def bdd_none_def)
    note f = bdd_satone_spec [OF this]
    have m: "found" "m = cube_mark 0 sets (bdd_satone n f)" using assms(7) False unfolding eq f_def by auto
    have "res (bdd_satone n f) \<longleftrightarrow> cond_accepting a m" unfolding m(2) by (rule res [OF cube]) (use f in simp)
    moreover have "bits m \<subseteq> bits used"
      unfolding m(2) bits_def using cube_bit [of "bdd_satone n f"] f nth_mem [of _ sets] unfolding sets by auto
    ultimately show ?thesis using f m(1) unfolding used_def by (auto simp: f_def split: if_splits)
  qed
qed

lemma sat_unsat_mark_spec:
  assumes "wf_sat a" "sat_unsat_mark sat a = (found, m)"
  shows "(found \<longrightarrow> cond_accepting a m = sat) \<and> (\<not> found \<longrightarrow> (\<forall>n. cond_accepting a n \<noteq> sat)) \<and>
    bits m \<subseteq> bits (all_sets a)"
proof -
  obtain t where t: "get_acceptance a = enc t" "tree_ok t" "plain t" "nontrivial t \<or> t = TInf 0 \<or> t = TFin 0"
    using assms(1) unfolding wf_sat_def by blast
  define J where "J = (\<lambda>_ :: nat. False)"
  have acc: "cond_accepting a n \<longleftrightarrow> tree_sat (bit n) J t" for n
    unfolding cond_accepting_def t(1) by (rule accepting_enc [OF t(2,3)])
  have fin: "uses_fin_acceptance a \<longleftrightarrow> has_fin t"
    using assms(1) unfolding wf_sat_def t(1) check_fin_acceptance_enc [OF t(2)] by blast
  have sub: "bits (used_sets (enc t)) \<subseteq> bits (all_sets a)" using assms(1) unfolding wf_sat_def t(1) by (elim conjE)
  then have decls: "\<forall>l \<in> leaves t. \<forall>i. bit (leaf_mark l) i \<longrightarrow> bit (all_sets a) i"
    unfolding used_sets_enc [OF t(2)] subset_iff bits_def [of "all_sets a"] mem_Collect_eq by blast
  have zero: "bits (0 :: 'a mark_t) = {}" by (simp add: bits_def)
  consider "t = TT \<or> t = TInf 0" | "t = TFin 0" | "node_ok t" "nontrivial t" "\<not> has_fin t" "t \<noteq> TInf 0" "t \<noteq> TFin 0"
    | "node_ok t" "has_fin t" "t \<noteq> TInf 0" "t \<noteq> TFin 0"
    using t(2,4) unfolding tree_ok_def by blast
  then show ?thesis
  proof cases
    case 1
    then have "cond_accepting a n" for n unfolding acc by auto
    moreover have "\<not> is_f (enc t)" "is_t (enc t)" "\<not> uses_fin_acceptance a" using 1 fin by auto
    ultimately show ?thesis using assms(2) unfolding sat_unsat_mark_def Let_def t(1) by (auto simp: zero split: if_splits)
  next
    case 2
    then have "\<not> cond_accepting a n" for n unfolding acc by simp
    moreover have "is_f (enc t)" "\<not> is_t (enc t)" "\<not> uses_fin_acceptance a" using 2 fin by auto
    ultimately show ?thesis using assms(2) unfolding sat_unsat_mark_def Let_def t(1) by (auto simp: zero split: if_splits)
  next
    case 3
    have nt: "\<not> is_f (enc t)" "\<not> is_t (enc t)" using is_t_enc [OF t(2)] is_f_enc [OF t(2)] 3 by auto
    have "found" "m = (if sat then all_sets a else 0)"
      using assms(2) 3(3) nt unfolding sat_unsat_mark_def Let_def t(1) fin by (auto split: if_splits)
    moreover note inf_only [OF 3(1) t(3) 3(2,3) decls, of J]
    moreover have "bit (0 :: 'a mark_t) = (\<lambda>i. False)" by (simp add: fun_eq_iff)
    ultimately show ?thesis unfolding acc by (auto simp: zero)
  next
    case 4
    then show ?thesis using sat_unsat_bdd [OF t(1) 4(1) t(3) 4(3,4) _ assms(2)] fin sub by blast
  qed
qed

text \<open>
  Property C12: for a condition built by the connectives, whose sets are among the declared ones, the
  mark returned by \<open>sat_mark\<close> satisfies it and that of \<open>unsat_mark\<close> falsifies it; without a mark,
  every mark falsifies (respectively satisfies) the condition; the marks use declared sets only.
\<close>

theorem sat_unsat_mark_sound:
  assumes "wf_sat a" "sat_mark a = (fs, s)" "unsat_mark a = (fu, u)"
  shows "(fs \<longrightarrow> cond_accepting a s) \<and> (\<not> fs \<longrightarrow> (\<forall>n. \<not> cond_accepting a n)) \<and>
    (fu \<longrightarrow> \<not> cond_accepting a u) \<and> (\<not> fu \<longrightarrow> (\<forall>n. cond_accepting a n)) \<and> mark_subset (s OR u) (all_sets a)"
proof -
  note s = sat_unsat_mark_spec [OF assms(1) assms(2) [unfolded sat_mark_def]]
    and u = sat_unsat_mark_spec [OF assms(1) assms(3) [unfolded unsat_mark_def]]
  then have "bits (s OR u) \<subseteq> bits (all_sets a)" by (simp add: bits_def subset_iff bit_or_iff)
  then have "mark_subset (s OR u) (all_sets a)"
    by (auto simp: mark_subset_def mark_minus_def bits_def bit_eq_iff bit_and_iff bit_not_iff)
  with s u show ?thesis by simp
qed

definition fin_or_inf :: "32 cond" where
  "fin_or_inf = \<lparr>num_sets = 2, all_sets = 3, get_acceptance = enc (TOr [TFin 1, TInf 2]), uses_fin_acceptance = True\<rparr>"

theorem sat_unsat_mark_sound_witness:
  "unsat_mark fin_or_inf = (True, 1) \<and> \<not> cond_accepting fin_or_inf 1"
proof -
  have "used_sets (get_acceptance fin_or_inf) = all_sets fin_or_inf" by code_simp
  then have "wf_sat fin_or_inf" unfolding wf_sat_def
    by (intro conjI exI [of _ "TOr [TFin 1, TInf 2]"])
       (simp_all add: fin_or_inf_def check_fin_acceptance_def tree_ok_def nontrivial_def)
  moreover have "unsat_mark fin_or_inf = (True, 1)" "sat_mark fin_or_inf = (True, 0)" by code_simp+
  ultimately show ?thesis using sat_unsat_mark_sound [of fin_or_inf True 0 True 1] by simp
qed

end
