(* ===== verification/Complete.thy ===== *)
theory Complete
  imports TwaPurge AccSat
begin

unbundle bit_operations_syntax

text \<open>
  Determinism and completeness (twaalgos/isdet.cc) and the completion of an automaton with a sink
  (twaalgos/complete.cc).  Negating a BDD and subtracting one are the complement and the difference
  of sets of letters; \<open>sink == -1U\<close> is \<open>no_group\<close>.
\<close>

section \<open>Determinism and completeness\<close>

text \<open>The loops over the edges of a state: \<open>available\<close> holds the letters without an edge so far.\<close>

fun overlaps :: "'l set \<Rightarrow> 'l set list \<Rightarrow> bool" where
  "overlaps available [] = False"
| "overlaps available (c # cs) = (if \<not> c \<subseteq> available then True else overlaps (available - c) cs)"

definition out_conds :: "('l, 'n::len) twa_graph \<Rightarrow> nat \<Rightarrow> 'l set list" where
  "out_conds A s = map (\<lambda>t. e_cond (edge A t)) (out (graph A) s)"

definition count_nondet_states_aux :: "bool \<Rightarrow> ('l, 'n::len) twa_graph \<Rightarrow> nat \<times> ('l, 'n) twa_graph" where
  "count_nondet_states_aux count_all A =
    (let nondet = filter (\<lambda>s. overlaps UNIV (out_conds A s)) [0..<num_states (graph A)];
         n = (if count_all then length nondet else min 1 (length nondet))
     in (n, update_props (set_universal (trival_of_bool (n = 0))) A))"

definition count_nondet_states :: "('l, 'n::len) twa_graph \<Rightarrow> nat \<times> ('l, 'n) twa_graph" where
  "count_nondet_states A = (if is_true (universal (props A)) then (0, A) else count_nondet_states_aux True A)"

definition is_universal :: "('l, 'n::len) twa_graph \<Rightarrow> bool \<times> ('l, 'n) twa_graph" where
  "is_universal A =
    (let d = universal (props A) in
     if is_known d then (is_true d, A)
     else case count_nondet_states_aux False A of (n, A) \<Rightarrow> (n = 0, A))"

definition is_deterministic :: "('l, 'n::len) twa_graph \<Rightarrow> bool \<times> ('l, 'n) twa_graph" where
  "is_deterministic A = (if is_existential (graph A) then is_universal A else (False, A))"

definition missing :: "'l set list \<Rightarrow> 'l set" where
  "missing cs = fold (\<lambda>c available. available - c) cs UNIV"

definition is_complete :: "('l, 'n::len) twa_graph \<Rightarrow> bool \<times> ('l, 'n) twa_graph" where
  "is_complete A =
    (let cp = complete_prop (props A); ns = num_states (graph A) in
     if is_known cp then (is_true cp, A)
     else if list_ex (\<lambda>s. missing (out_conds A s) \<noteq> {}) [0..<ns]
          then (False, update_props (set_complete (trival_of_bool False)) A)
          else (0 < ns, update_props (set_complete (trival_of_bool (0 < ns))) A))"

section \<open>Completion\<close>

text \<open>
  A state may serve as the sink when its edges are loops with one mark, that is not accepting;
  without edges, the mark is the unsatisfiable one.
\<close>

fun loop_mark :: "nat \<Rightarrow> bool \<Rightarrow> 'm \<Rightarrow> ('l, 'm) edge_label edge_storage list \<Rightarrow> 'm option" where
  "loop_mark i first m [] = Some m"
| "loop_mark i first m (t # ts) =
    (if e_dst t \<noteq> i then None
     else if first then loop_mark i False (e_acc t) ts
     else if e_acc t \<noteq> m then None
     else loop_mark i first m ts)"

definition out_edges :: "('l, 'n::len) twa_graph \<Rightarrow> nat \<Rightarrow> ('l, 'n mark_t) edge_label edge_storage list" where
  "out_edges A s = map (edge A) (out (graph A) s)"

fun find_sink :: "('l, 'n::len) twa_graph \<Rightarrow> 'n mark_t \<Rightarrow> nat list \<Rightarrow> (nat \<times> 'n mark_t) option" where
  "find_sink A um [] = None"
| "find_sink A um (i # is) =
    (case loop_mark i True um (out_edges A i) of
       Some m \<Rightarrow> if \<not> cond_accepting (twa_acc A) m then Some (i, m) else find_sink A um is
     | None \<Rightarrow> find_sink A um is)"

text \<open>What the loop over the edges of a state computes: letters, mark and edge to the sink.\<close>

fun scan_edges :: "('l, 'n::len) twa_graph \<Rightarrow> nat \<Rightarrow> 'l set \<times> 'n mark_t \<times> nat \<Rightarrow> nat list \<Rightarrow> 'l set \<times> 'n mark_t \<times> nat" where
  "scan_edges A sink r [] = r"
| "scan_edges A sink (missingcond, m, edge_to_sink) (t # ts) =
    scan_edges A sink (missingcond - e_cond (edge A t), e_acc (edge A t),
      if e_dst (edge A t) = sink then t else edge_to_sink) ts"

definition add_cond :: "('l, 'n::len) twa_graph \<Rightarrow> nat \<Rightarrow> 'l set \<Rightarrow> ('l, 'n) twa_graph" where
  "add_cond A t c = A\<lparr>graph := (graph A)\<lparr>edges := (edges (graph A))[t :=
     (edge A t)\<lparr>e_data := (e_data (edge A t))\<lparr>cond := e_cond (edge A t) \<union> c\<rparr>\<rparr>]\<rparr>\<rparr>"

definition complete_state :: "'n mark_t \<Rightarrow> nat \<Rightarrow> ('l, 'n::len) twa_graph \<times> nat \<Rightarrow> ('l, 'n) twa_graph \<times> nat" where
  "complete_state um i = (\<lambda>(A, sink).
    case scan_edges A sink (UNIV, um, 0) (out (graph A) i) of
      (missingcond, m, edge_to_sink) \<Rightarrow>
        if missingcond = {} then (A, sink)
        else let (A, sink) =
                   (if sink = no_group
                    then case twa_new_state A of (A, s) \<Rightarrow> (fst (twa_new_edge A s s UNIV um), s)
                    else (A, sink))
             in if edge_to_sink \<noteq> 0 then (add_cond A edge_to_sink missingcond, sink)
                else let m = (if \<not> is_true (prop_state_acc A) \<and> i \<noteq> sink then 0 else m)
                     in (fst (twa_new_edge A i sink missingcond m), sink))"

definition complete_here :: "('l, 'n::len) twa_graph \<Rightarrow> twa_error + ('l, 'n) twa_graph" where
  "complete_here A =
    (if is_true (complete_prop (props A)) then Inr A
     else let n = num_states (graph A); (found, um) = unsat_mark (twa_acc A) in
       bind_sum
         (if \<not> found
          then bind_sum (set_buchi A) (\<lambda>(m, A).
             Inr (A\<lparr>graph := (graph A)\<lparr>edges := map (\<lambda>t. t\<lparr>e_data := (e_data t)\<lparr>acc := m\<rparr>\<rparr>) (edges (graph A))\<rparr>\<rparr>, um, no_group))
          else case find_sink A um [0..<n] of
             Some (i, m) \<Rightarrow> Inr (A, m, i)
           | None \<Rightarrow> Inr (A, um, no_group))
         (\<lambda>(A, um, sink). bind_sum (get_init_state_number A) (\<lambda>i.
            let sink = (if num_edges (graph A) = 0 \<and> \<not> is_univ_dest i then i else sink);
                (A, _) = fold (complete_state um) [0..<n] (A, sink)
            in Inr (update_props (set_complete (trival_of_bool True)) A))))"

definition complete :: "('l, 'n::len) twa_graph \<Rightarrow> twa_error + ('l, 'n) twa_graph" where
  "complete A = complete_here (twa_copy A prop_set_all)"

section \<open>What the completion does to the edges\<close>

lemma succs_relabel:
  assumes "wf_graph g" "length es = length (edges g)"
    "\<forall>t < length es. next_succ (es ! t) = next_succ (edges g ! t) \<and> e_src (es ! t) = e_src (edges g ! t) \<and>
       e_dst (es ! t) = e_dst (edges g ! t)"
  shows "wf_graph (g\<lparr>edges := es\<rparr>)" "num_states (g\<lparr>edges := es\<rparr>) = num_states g"
    "s < num_states g \<Longrightarrow> succs (g\<lparr>edges := es\<rparr>) s = map (\<lambda>t. (e_dst (edges g ! t), e_data (es ! t))) (out g s)"
    "is_existential (g\<lparr>edges := es\<rparr>) = is_existential g"
proof -
  have dead: "is_dead es t = is_dead (edges g) t" if "t < length (edges g)" for t
    using assms(2,3) that by (simp add: is_dead_def)
  have eo: "edges_of es s = edges_of (edges g) s" for s
    unfolding edges_of_def assms(2) using dead assms(2,3) by (intro filter_cong) auto
  have ne: "edges g \<noteq> []" using assms(1) unfolding wf_graph_def by blast
  have "state_wf es s (states g ! s)" if "s < length (states g)" for s
  proof (rule state_wf_cong [OF _ eo])
    show "state_wf (edges g) s (states g ! s)" using assms(1) that unfolding wf_graph_def by blast
  qed (use assms(2,3) in \<open>simp add: edges_of_facts\<close>)
  moreover have "next_succ (es ! 0) = 0" using assms ne unfolding wf_graph_def by simp
  moreover have "filter (is_dead es) [1..<length es] = filter (is_dead (edges g)) [1..<length (edges g)]"
    unfolding assms(2) using dead by (intro filter_cong) auto
  moreover have "e_src (es ! t) < length (states g)" if "t \<in> {1..<length es}" "\<not> is_dead es t" for t
    using assms(1) dead that assms(2,3) unfolding wf_graph_def by auto
  ultimately show wf: "wf_graph (g\<lparr>edges := es\<rparr>)"
    using assms(1,2) ne unfolding wf_graph_def by auto
  show n: "num_states (g\<lparr>edges := es\<rparr>) = num_states g" by (simp add: num_states_def)
  show "succs (g\<lparr>edges := es\<rparr>) s = map (\<lambda>t. (e_dst (edges g ! t), e_data (es ! t))) (out g s)" if "s < num_states g"
    using that wf n assms by (auto simp: succs_of out_edges_of num_states_def eo edges_of_facts)
  show "is_existential (g\<lparr>edges := es\<rparr>) = is_existential g" by (simp add: is_existential_def)
qed

lemma scan_edges_spec:
  "scan_edges A sink (c, m, e) ts = (c', m', e') \<Longrightarrow>
    c' = c - (\<Union>t \<in> set ts. e_cond (edge A t)) \<and> (m' = m \<or> (\<exists>t \<in> set ts. m' = e_acc (edge A t))) \<and>
    (e' = e \<or> e' \<in> set ts \<and> e_dst (edge A e') = sink)"
proof (induction ts arbitrary: c m e)
  case (Cons t ts)
  from Cons.IH [OF Cons.prems [unfolded scan_edges.simps]] show ?case by auto
qed simp

text \<open>The edges \<open>ys\<close> complete the edges \<open>xs\<close> of state \<open>s\<close>; \<open>k\<close> is the sink, with mark \<open>um\<close>.\<close>

definition conds :: "(nat \<times> ('l, 'm) edge_label) list \<Rightarrow> 'l set list" where
  "conds xs = map (cond \<circ> snd) xs"

definition marks :: "(nat \<times> ('l, 'm) edge_label) list \<Rightarrow> 'm set" where
  "marks xs = (acc \<circ> snd) ` set xs"

definition completes :: "nat \<Rightarrow> nat \<Rightarrow> 'n::len mark_t \<Rightarrow> (nat \<times> ('l, 'n mark_t) edge_label) list \<Rightarrow>
    (nat \<times> ('l, 'n mark_t) edge_label) list \<Rightarrow> bool" where
  "completes s k um xs ys \<longleftrightarrow>
    (\<Union>(q, x) \<in> set ys. cond x) = UNIV \<and>
    (\<forall>(q, x) \<in> set xs. \<exists>y. (q, y) \<in> set ys \<and> acc y = acc x \<and> cond x \<subseteq> cond y) \<and>
    (\<forall>(q, x) \<in> set ys. q = k \<or> (q, x) \<in> set xs) \<and>
    (s = k \<longrightarrow> (\<forall>(q, x) \<in> set ys. q = k \<and> acc x = um)) \<and>
    marks ys \<subseteq> {um, 0} \<union> marks xs \<and>
    (overlaps UNIV (conds ys) \<longrightarrow> overlaps UNIV (conds xs))"

lemma overlaps_append: "overlaps a (cs @ ds) \<longleftrightarrow> overlaps a cs \<or> overlaps (a - \<Union> (set cs)) ds"
  by (induction a cs rule: overlaps.induct) (auto simp: Diff_eq Int_assoc)

lemma overlaps_minus: "\<not> overlaps a cs \<Longrightarrow> \<Union> (set cs) \<inter> d = {} \<Longrightarrow> \<not> overlaps (a - d) cs"
proof (induction a cs rule: overlaps.induct)
  case (2 a c cs)
  from 2(2) have c: "c \<subseteq> a" "\<not> overlaps (a - c) cs" by (auto split: if_splits)
  with 2(3) have "\<not> overlaps (a - c - d) cs" by (intro 2(1)) auto
  moreover have "a - c - d = a - d - c" by blast
  ultimately show ?case using c(1) 2(3) by auto
qed simp

lemma conds_union: "\<Union> (set (conds xs)) = (\<Union>(q, x) \<in> set xs. cond x)"
  by (auto simp: conds_def)

lemma completes_new_sink:
  "completes s no_group um xs ys \<Longrightarrow> s \<noteq> k \<Longrightarrow> (\<And>q x. (q, x) \<in> set ys \<Longrightarrow> q < no_group) \<Longrightarrow> completes s k um xs ys"
  unfolding completes_def by (intro conjI) fastforce+

lemma completes_refl:
  assumes "(\<Union>(q, x) \<in> set xs. cond x) = UNIV" "s = k \<Longrightarrow> \<forall>(q, x) \<in> set xs. q = k \<and> acc x = um"
  shows "completes s k um xs xs"
  using assms unfolding completes_def by fastforce

lemma completes_new_edge:
  assumes "c = - (\<Union>(q, x) \<in> set xs. cond x)" "s = k \<Longrightarrow> (\<forall>(q, x) \<in> set xs. q = k \<and> acc x = um) \<and> m = um"
    and "m = um \<or> m = 0 \<or> m \<in> marks xs"
  shows "completes s k um xs (xs @ [(k, \<lparr>cond = c, acc = m\<rparr>)])"
proof -
  have "overlaps UNIV (conds (xs @ [(k, \<lparr>cond = c, acc = m\<rparr>)])) \<longleftrightarrow> overlaps UNIV (conds xs)"
    using assms(1) conds_union [of xs] by (auto simp: conds_def overlaps_append)
  moreover have "marks (xs @ [(k, \<lparr>cond = c, acc = m\<rparr>)]) \<subseteq> {um, 0} \<union> marks xs" using assms(3) by (auto simp: marks_def)
  ultimately show ?thesis using assms(1,2) unfolding completes_def by (intro conjI) auto
qed

lemma completes_more:
  assumes "c = - (\<Union>(q, x) \<in> set (us @ (k, x) # vs). cond x)"
    "s = k \<Longrightarrow> \<forall>(q, x) \<in> set (us @ (k, x) # vs). q = k \<and> acc x = um"
  shows "completes s k um (us @ (k, x) # vs) (us @ (k, x\<lparr>cond := cond x \<union> c\<rparr>) # vs)"
proof -
  let ?a = "UNIV - \<Union> (set (conds us))"
  have d: "\<Union> (set (conds us)) \<inter> c = {}" "\<Union> (set (conds vs)) \<inter> c = {}" using assms(1) unfolding conds_union by auto
  have "overlaps UNIV (conds (us @ (k, x) # vs))" if o: "overlaps UNIV (conds (us @ (k, x\<lparr>cond := cond x \<union> c\<rparr>) # vs))"
  proof (rule ccontr)
    assume "\<not> overlaps UNIV (conds (us @ (k, x) # vs))"
    then have n: "\<not> overlaps UNIV (conds us)" "cond x \<subseteq> ?a" "\<not> overlaps (?a - cond x) (conds vs)"
      by (auto simp: conds_def overlaps_append split: if_splits)
    have "\<not> overlaps (?a - cond x - c) (conds vs)" by (rule overlaps_minus [OF n(3) d(2)])
    moreover have "?a - cond x - c = ?a - (cond x \<union> c)" by blast
    ultimately show False using o n d(1) by (auto simp: conds_def overlaps_append split: if_splits)
  qed
  moreover have "marks (us @ (k, x\<lparr>cond := cond x \<union> c\<rparr>) # vs) \<subseteq> {um, 0} \<union> marks (us @ (k, x) # vs)"
    by (auto simp: marks_def)
  ultimately show ?thesis using assms unfolding completes_def by (intro conjI) (auto 0 3)
qed

lemma out_conds_succs: "out_conds A s = map (cond \<circ> snd) (succs (graph A) s)"
  by (simp add: out_conds_def succs_def)

lemma union_conds: "(\<Union>t \<in> set (out (graph A) s). e_cond (edge A t)) = (\<Union>(q, x) \<in> set (succs (graph A) s). cond x)"
  by (auto simp: succs_def)

lemma add_cond_spec:
  assumes "wf_twa A" "s < num_states (graph A)" "t \<in> set (out (graph A) s)"
  obtains us x vs where "succs (graph A) s = us @ (e_dst (edge A t), x) # vs"
    "succs (graph (add_cond A t c)) s = us @ (e_dst (edge A t), x\<lparr>cond := cond x \<union> c\<rparr>) # vs"
    "wf_twa (add_cond A t c)" "num_states (graph (add_cond A t c)) = num_states (graph A)"
    "\<And>u. u < num_states (graph A) \<Longrightarrow> u \<noteq> s \<Longrightarrow> succs (graph (add_cond A t c)) u = succs (graph A) u"
    "add_cond A t c = A\<lparr>graph := graph (add_cond A t c)\<rparr>"
proof -
  let ?g = "graph A"
  define es where "es = (edges ?g)[t := (edge A t)\<lparr>e_data := (e_data (edge A t))\<lparr>cond := e_cond (edge A t) \<union> c\<rparr>\<rparr>]"
  have B: "graph (add_cond A t c) = ?g\<lparr>edges := es\<rparr>" by (simp add: add_cond_def es_def)
  have wf: "wf_graph ?g" "is_existential ?g" using assms(1) by (auto simp: wf_twa_def wf_twa_graph_def)
  have len: "length es = length (edges ?g)" by (simp add: es_def)
  have "next_succ (es ! u) = next_succ (edge A u) \<and> e_src (es ! u) = e_src (edge A u) \<and> e_dst (es ! u) = e_dst (edge A u)"
    if "u < length es" for u
    using that by (cases "u = t") (simp_all add: es_def)
  then have same: "\<forall>u < length es. next_succ (es ! u) = next_succ (edge A u) \<and> e_src (es ! u) = e_src (edge A u) \<and>
      e_dst (es ! u) = e_dst (edge A u)" by blast
  note sr = succs_relabel [OF wf(1) len same]
  have tv: "0 < t" "t < length (edges ?g)" "e_src (edge A t) = s"
    using out_valid [OF wf(1) assms(2)] assms(3) by (auto simp: is_valid_edge_def)
  have dist: "distinct (out ?g s)"
    using out_edges_of [OF wf(1)] assms(2) edges_of_facts(1) by (metis num_states_def)
  obtain ts ts' where ts: "out ?g s = ts @ t # ts'" using assms(3) by (meson split_list)
  have nt: "t \<notin> set ts" "t \<notin> set ts'" using dist unfolding ts by auto
  have other: "succs (graph (add_cond A t c)) u = succs ?g u" if u: "u < num_states ?g" "u \<noteq> s" for u
  proof -
    have t: "t \<notin> set (out ?g u)" unfolding out_valid [OF wf(1) u(1)] using tv(3) u(2) by simp
    have "es ! v = edge A v" if "v \<in> set (out ?g u)" for v
    proof -
      have "v \<noteq> t" using t that by blast
      then show ?thesis by (simp add: es_def)
    qed
    then show ?thesis unfolding B sr(3) [OF u(1)] by (simp add: succs_def)
  qed
  have s: "succs (graph (add_cond A t c)) s = map (\<lambda>t. (e_dst (edge A t), e_data (edge A t))) ts @
      (e_dst (edge A t), (e_data (edge A t))\<lparr>cond := cond (e_data (edge A t)) \<union> c\<rparr>) # map (\<lambda>t. (e_dst (edge A t), e_data (edge A t))) ts'"
    unfolding B sr(3) [OF assms(2)] ts using nt tv by (auto simp: es_def nth_list_update)
  have "wf_twa_graph (graph (add_cond A t c))"
    unfolding wf_succs
  proof (intro conjI allI impI)
    show "wf_graph (graph (add_cond A t c))" "is_existential (graph (add_cond A t c))" unfolding B using sr wf by simp_all
    fix u assume u: "u < num_states (graph (add_cond A t c))"
    then have u': "u < num_states ?g" unfolding B sr(2) .
    have "fst ` set (succs (graph (add_cond A t c)) u) = fst ` set (succs ?g u)"
      unfolding B sr(3) [OF u'] by (auto simp: succs_def image_image)
    then show "\<forall>(q, x) \<in> set (succs (graph (add_cond A t c)) u). q < num_states (graph (add_cond A t c))"
      using succs_less [of ?g u] assms(1) u' sr(2) unfolding wf_twa_def B
      by (metis (no_types, lifting) case_prodI2 fst_conv image_eqI)
  qed
  then have wB: "wf_twa (add_cond A t c)" using assms(1) sr(2) B unfolding wf_twa_def by (simp add: add_cond_def)
  show thesis
    by (rule that [OF _ s wB _ other]) (use sr(2) in \<open>auto simp: B succs_def ts\<close>, simp add: add_cond_def es_def)
qed

lemma twa_new_edge_spec:
  assumes "wf_twa A" "s < num_states (graph A)" "d < num_states (graph A)"
  shows "wf_twa (fst (twa_new_edge A s d c m))"
    "num_states (graph (fst (twa_new_edge A s d c m))) = num_states (graph A)"
    "u < num_states (graph A) \<Longrightarrow> succs (graph (fst (twa_new_edge A s d c m))) u =
       succs (graph A) u @ (if u = s then [(d, \<lparr>cond = c, acc = m\<rparr>)] else [])"
    "twa_acc (fst (twa_new_edge A s d c m)) = twa_acc A" "init_number (fst (twa_new_edge A s d c m)) = init_number A"
proof -
  have wf: "wf_graph (graph A)" "is_existential (graph A)" using assms(1) by (auto simp: wf_twa_def wf_twa_graph_def)
  have B: "fst (twa_new_edge A s d c m) = A\<lparr>graph := fst (new_edge (graph A) s d \<lparr>cond = c, acc = m\<rparr>)\<rparr>"
    by (simp add: twa_new_edge_def split: prod.split)
  note sp = succs_new_edge [OF wf(1) assms(2), where d = d and x = "\<lparr>cond = c, acc = m\<rparr>"]
  show "wf_twa (fst (twa_new_edge A s d c m))"
    using assms sp wf(2) unfolding wf_twa_def wf_succs B by auto
  show "num_states (graph (fst (twa_new_edge A s d c m))) = num_states (graph A)"
    "u < num_states (graph A) \<Longrightarrow> succs (graph (fst (twa_new_edge A s d c m))) u =
       succs (graph A) u @ (if u = s then [(d, \<lparr>cond = c, acc = m\<rparr>)] else [])"
    "twa_acc (fst (twa_new_edge A s d c m)) = twa_acc A" "init_number (fst (twa_new_edge A s d c m)) = init_number A"
    unfolding B by (simp_all add: sp)
qed

lemma twa_new_state_spec:
  assumes "wf_twa A"
  obtains B where "twa_new_state A = (B, num_states (graph A))" "wf_twa B"
    "num_states (graph B) = Suc (num_states (graph A))"
    "\<And>u. u < num_states (graph A) \<Longrightarrow> succs (graph B) u = succs (graph A) u" "succs (graph B) (num_states (graph A)) = []"
    "twa_acc B = twa_acc A" "init_number B = init_number A"
proof -
  let ?B = "A\<lparr>graph := fst (new_state (graph A) ())\<rparr>"
  have wf: "wf_graph (graph A)" "is_existential (graph A)" using assms(1) by (auto simp: wf_twa_def wf_twa_graph_def)
  note sp = succs_new_state [OF wf(1), where d = "()"]
  have e: "twa_new_state A = (?B, num_states (graph A))"
    using sp(3) by (cases "new_state (graph A) ()") (simp add: twa_new_state_def)
  have "wf_twa ?B" using assms sp wf(2) unfolding wf_twa_def wf_succs by (fastforce simp: less_Suc_eq)
  then show thesis by (rule that [OF e]) (use sp in simp_all)
qed

lemma complete_state_spec:
  assumes wf: "wf_twa A" "i < num_states (graph A)" "num_states (graph A) \<le> no_group"
    and k: "k = no_group \<or> k < num_states (graph A)"
    and loop: "i = k \<longrightarrow> (\<forall>(q, x) \<in> set (succs (graph A) i). q = k \<and> acc x = um)"
  obtains B k' where "complete_state um i (A, k) = (B, k')" "wf_twa B" "twa_acc B = twa_acc A" "init_number B = init_number A"
    "k' = k \<and> num_states (graph B) = num_states (graph A) \<or>
       k = no_group \<and> k' = num_states (graph A) \<and> num_states (graph B) = Suc (num_states (graph A)) \<and>
       succs (graph B) (num_states (graph A)) = [(num_states (graph A), \<lparr>cond = UNIV, acc = um\<rparr>)]"
    "\<And>u. u < num_states (graph A) \<Longrightarrow> u \<noteq> i \<Longrightarrow> succs (graph B) u = succs (graph A) u"
    "completes i k' um (succs (graph A) i) (succs (graph B) i)"
proof -
  let ?g = "graph A" and ?n = "num_states (graph A)"
  obtain c m e where sc: "scan_edges A k (UNIV, um, 0) (out ?g i) = (c, m, e)" by (metis prod_cases3)
  note sp = scan_edges_spec [OF sc, unfolded union_conds]
  have c: "c = - (\<Union>(q, x) \<in> set (succs ?g i). cond x)" using sp by auto
  have m: "m = um" if "i = k"
    using sp loop that unfolding succs_def by auto
  have mark: "m = um \<or> m \<in> marks (succs ?g i)" using sp by (auto simp: succs_def marks_def image_image)
  have wfg: "wf_graph ?g" "wf_twa_graph ?g" using wf(1) by (auto simp: wf_twa_def wf_twa_graph_def)
  show thesis
  proof (cases "c = {}")
    case True
    have "complete_state um i (A, k) = (A, k)" using sc True by (simp add: complete_state_def)
    then show thesis
    proof (rule that)
      show "completes i k um (succs ?g i) (succs ?g i)" by (rule completes_refl) (use c True loop in blast)+
    qed (use wf in simp_all)
  next
    case False
    show thesis
    proof (cases "k = no_group")
      case True
      have "e = 0"
      proof (rule ccontr)
        assume "e \<noteq> 0"
        then have "e \<in> set (out ?g i)" "e_dst (edge A e) = no_group" using sp True by auto
        then have "no_group \<in> fst ` set (succs ?g i)" unfolding succs_def by force
        then show False using succs_less [OF wfg(2) wf(2)] wf(3) by fastforce
      qed
      obtain A1 where A1: "twa_new_state A = (A1, ?n)" "wf_twa A1" "num_states (graph A1) = Suc ?n"
        "\<And>u. u < ?n \<Longrightarrow> succs (graph A1) u = succs ?g u" "succs (graph A1) ?n = []"
        "twa_acc A1 = twa_acc A" "init_number A1 = init_number A"
        by (rule twa_new_state_spec [OF wf(1)]) (rule that; assumption)
      define A2 where "A2 = fst (twa_new_edge A1 ?n ?n UNIV um)"
      have "?n < num_states (graph A1)" using A1(3) by simp
      note A2 = twa_new_edge_spec [OF A1(2) this this, where c = UNIV and m = um, folded A2_def]
      define m' where "m' = (if \<not> is_true (prop_state_acc A2) \<and> i \<noteq> ?n then 0 else m)"
      define B where "B = fst (twa_new_edge A2 i ?n c m')"
      have "i < num_states (graph A2)" "?n < num_states (graph A2)" using A2(2) A1(3) wf(2) by simp_all
      note B = twa_new_edge_spec [OF A2(1) this, where c = c and m = m', folded B_def]
      have "complete_state um i (A, k) = (B, ?n)"
        using sc False True \<open>e = 0\<close> A1(1) by (simp add: complete_state_def Let_def A2_def B_def m'_def)
      then show thesis
      proof (rule that)
        show "completes i ?n um (succs ?g i) (succs (graph B) i)"
        proof -
          have "m' = um \<or> m' = 0 \<or> m' \<in> marks (succs ?g i)" using mark by (auto simp: m'_def)
          moreover have "i \<noteq> ?n" using wf(2) by blast
          ultimately have "completes i ?n um (succs ?g i) (succs ?g i @ [(?n, \<lparr>cond = c, acc = m'\<rparr>)])"
            by (intro completes_new_edge [OF c]) blast+
          then show ?thesis using wf(2) A1(3,4) A2(2,3) B(3) by simp
        qed
      qed (use wf(2) True A1 A2 B in simp_all)
    next
      case known: False
      then have kn: "k < ?n" using k by blast
      show thesis
      proof (cases "e = 0")
        case True
        define m' where "m' = (if \<not> is_true (prop_state_acc A) \<and> i \<noteq> k then 0 else m)"
        define B where "B = fst (twa_new_edge A i k c m')"
        note B = twa_new_edge_spec [OF wf(1,2) kn, where c = c and m = m', folded B_def]
        have "complete_state um i (A, k) = (B, k)"
          using sc False known True by (simp add: complete_state_def Let_def B_def m'_def)
        then show thesis
        proof (rule that)
          show "completes i k um (succs ?g i) (succs (graph B) i)"
            unfolding B(3) [OF wf(2)] if_P [OF refl]
            by (rule completes_new_edge [OF c]) (use loop m mark in \<open>auto simp: m'_def\<close>)
        qed (use B in simp_all)
      next
        case new: False
        then have e: "e \<in> set (out ?g i)" "e_dst (edge A e) = k" using sp by auto
        define B where "B = add_cond A e c"
        obtain us x vs where B: "succs ?g i = us @ (k, x) # vs"
          "succs (graph B) i = us @ (k, x\<lparr>cond := cond x \<union> c\<rparr>) # vs" "wf_twa B" "num_states (graph B) = ?n"
          "\<And>u. u < ?n \<Longrightarrow> u \<noteq> i \<Longrightarrow> succs (graph B) u = succs ?g u" "B = A\<lparr>graph := graph B\<rparr>"
          using add_cond_spec [OF wf(1,2) e(1), of c thesis, folded B_def, unfolded e(2)] by blast
        have acc: "twa_acc B = twa_acc A" "init_number B = init_number A" by (simp_all add: B_def add_cond_def)
        have "complete_state um i (A, k) = (B, k)"
          using sc False known new by (simp add: complete_state_def Let_def B_def)
        then show thesis
        proof (rule that)
          show "completes i k um (succs ?g i) (succs (graph B) i)"
            unfolding B(1,2) by (rule completes_more) (use c [unfolded B(1)] loop [unfolded B(1)] in \<open>blast+\<close>)
        qed (use B(3-5) acc in simp_all)
      qed
    qed
  qed
qed

definition completion :: "('l, 'n::len) twa_graph \<Rightarrow> nat \<Rightarrow> 'n mark_t \<Rightarrow> nat \<Rightarrow> ('l, 'n) twa_graph \<Rightarrow> nat \<Rightarrow> bool" where
  "completion A k um j B k' \<longleftrightarrow>
    wf_twa B \<and> twa_acc B = twa_acc A \<and> init_number B = init_number A \<and>
    (k' = k \<and> num_states (graph B) = num_states (graph A) \<or>
     k = no_group \<and> k' = num_states (graph A) \<and> num_states (graph B) = Suc (num_states (graph A)) \<and>
     succs (graph B) (num_states (graph A)) = [(num_states (graph A), \<lparr>cond = UNIV, acc = um\<rparr>)]) \<and>
    (\<forall>u. j \<le> u \<and> u < num_states (graph A) \<longrightarrow> succs (graph B) u = succs (graph A) u) \<and>
    (\<forall>u < j. completes u k' um (succs (graph A) u) (succs (graph B) u))"

lemma completion_step:
  assumes "num_states (graph A) < no_group" "k = no_group \<or> k < num_states (graph A)"
    and loops: "k < num_states (graph A) \<longrightarrow> (\<forall>(q, x) \<in> set (succs (graph A) k). q = k \<and> acc x = um)"
    and j: "j < num_states (graph A)" and B: "completion A k um j B k'"
  obtains C k'' where "complete_state um j (B, k') = (C, k'')" "completion A k um (Suc j) C k''"
proof -
  let ?n = "num_states (graph A)"
  have b: "wf_twa B" "twa_acc B = twa_acc A" "init_number B = init_number A"
    "k' = k \<and> num_states (graph B) = ?n \<or> k = no_group \<and> k' = ?n \<and> num_states (graph B) = Suc ?n \<and>
     succs (graph B) ?n = [(?n, \<lparr>cond = UNIV, acc = um\<rparr>)]"
    "\<And>u. j \<le> u \<Longrightarrow> u < ?n \<Longrightarrow> succs (graph B) u = succs (graph A) u"
    "\<And>u. u < j \<Longrightarrow> completes u k' um (succs (graph A) u) (succs (graph B) u)"
    using B unfolding completion_def by blast+
  have n: "j < num_states (graph B)" "num_states (graph B) \<le> no_group" using b(4) j assms(1) by linarith+
  have k': "k' = no_group \<or> k' < num_states (graph B)" using b(4) assms(2) by linarith
  have loop: "j = k' \<longrightarrow> (\<forall>(q, x) \<in> set (succs (graph B) j). q = k' \<and> acc x = um)"
    using b(4) b(5) [OF le_refl j] loops j by auto
  obtain C k'' where C: "complete_state um j (B, k') = (C, k'')" "wf_twa C" "twa_acc C = twa_acc B" "init_number C = init_number B"
    "k'' = k' \<and> num_states (graph C) = num_states (graph B) \<or>
       k' = no_group \<and> k'' = num_states (graph B) \<and> num_states (graph C) = Suc (num_states (graph B)) \<and>
       succs (graph C) (num_states (graph B)) = [(num_states (graph B), \<lparr>cond = UNIV, acc = um\<rparr>)]"
    "\<And>u. u < num_states (graph B) \<Longrightarrow> u \<noteq> j \<Longrightarrow> succs (graph C) u = succs (graph B) u"
    "completes j k'' um (succs (graph B) j) (succs (graph C) j)"
    by (rule complete_state_spec [OF b(1) n k' loop]) (rule that; assumption)
  have sink: "k'' = k \<and> num_states (graph C) = ?n \<or> k = no_group \<and> k'' = ?n \<and> num_states (graph C) = Suc ?n \<and>
     succs (graph C) ?n = [(?n, \<lparr>cond = UNIV, acc = um\<rparr>)]"
    using b(4) C(5) C(6) [of ?n] j assms(1) by auto
  have "completes u k'' um (succs (graph A) u) (succs (graph C) u)" if u: "u < Suc j" for u
  proof (cases "u = j")
    case True
    then show ?thesis using C(7) b(5) [OF le_refl j] by simp
  next
    case False
    with u have u: "u < j" "u < num_states (graph B)" using n(1) by linarith+
    have same: "succs (graph C) u = succs (graph B) u" using C(6) u(2) False by blast
    from C(5) show ?thesis
    proof
      assume "k'' = k' \<and> num_states (graph C) = num_states (graph B)"
      then show ?thesis unfolding same using b(6) [OF u(1)] by simp
    next
      assume k: "k' = no_group \<and> k'' = num_states (graph B) \<and> num_states (graph C) = Suc (num_states (graph B)) \<and>
       succs (graph C) (num_states (graph B)) = [(num_states (graph B), \<lparr>cond = UNIV, acc = um\<rparr>)]"
      have "q < no_group" if "(q, x) \<in> set (succs (graph B) u)" for q x
        using succs_less [of "graph B" u q] b(1) u(2) that n(2) unfolding wf_twa_def by force
      then show ?thesis unfolding same
        using completes_new_sink [of u um "succs (graph A) u" "succs (graph B) u" k''] b(6) [OF u(1)] k u(2) by auto
    qed
  qed
  moreover have "succs (graph C) u = succs (graph A) u" if u: "Suc j \<le> u" "u < ?n" for u
  proof -
    have "u < num_states (graph B)" using b(4) u(2) by linarith
    then show ?thesis using C(6) [of u] b(5) [of u] u by simp
  qed
  ultimately have "completion A k um (Suc j) C k''"
    unfolding completion_def using C(2-4) b(2,3) sink by (intro conjI allI impI) simp_all
  with C(1) show thesis by (rule that)
qed

lemma complete_fold:
  assumes "wf_twa A" "num_states (graph A) < no_group" "k = no_group \<or> k < num_states (graph A)"
    and "k < num_states (graph A) \<longrightarrow> (\<forall>(q, x) \<in> set (succs (graph A) k). q = k \<and> acc x = um)"
    and "j \<le> num_states (graph A)"
  shows "\<exists>B k'. fold (complete_state um) [0..<j] (A, k) = (B, k') \<and> completion A k um j B k'"
  using assms(5)
proof (induction j)
  case 0
  then show ?case using assms(1) by (simp add: completion_def)
next
  case (Suc j)
  then obtain B k' where B: "fold (complete_state um) [0..<j] (A, k) = (B, k')" "completion A k um j B k'" by auto
  from Suc.prems have "j < num_states (graph A)" by simp
  from completion_step [OF assms(2-4) this B(2)]
  obtain C k'' where "complete_state um j (B, k') = (C, k'')" "completion A k um (Suc j) C k''" by blast
  with B(1) show ?case by simp
qed

section \<open>The completion keeps the language\<close>

lemma loop_mark_spec:
  "loop_mark i first m ts = Some m' \<Longrightarrow>
    (\<forall>t \<in> set ts. e_dst t = i \<and> e_acc t = m') \<and> (ts = [] \<or> \<not> first \<longrightarrow> m' = m)"
proof (induction i first m ts rule: loop_mark.induct)
  case (2 i first m t ts)
  from 2(3) have dst: "e_dst t = i" by (auto split: if_splits)
  show ?case
  proof (cases first)
    case True
    with 2(3) dst have "loop_mark i False (e_acc t) ts = Some m'" by simp
    from 2(1) [OF _ _ this] dst True show ?thesis by simp
  next
    case False
    with 2(3) dst have "e_acc t = m" "loop_mark i first m ts = Some m'" by (auto split: if_splits)
    from 2(2) [OF _ False _ this(2)] this(1) dst False show ?thesis by simp
  qed
qed simp

lemma find_sink_spec:
  "find_sink A um is = Some (i, m) \<Longrightarrow> i \<in> set is \<and> \<not> cond_accepting (twa_acc A) m \<and>
    (\<forall>(q, x) \<in> set (succs (graph A) i). q = i \<and> acc x = m) \<and> (m = um \<or> m \<in> marks (succs (graph A) i))"
proof (induction A um "is" rule: find_sink.induct)
  case (2 A um j "is")
  show ?case
  proof (cases "loop_mark j True um (out_edges A j)")
    case None
    with 2 show ?thesis by simp
  next
    case (Some m')
    show ?thesis
    proof (cases "cond_accepting (twa_acc A) m'")
      case True
      with Some 2 show ?thesis by simp
    next
      case False
      with Some 2(3) have "i = j" "m = m'" by auto
      moreover have mk: "m' = um \<or> m' \<in> marks (succs (graph A) j)"
        using loop_mark_spec [OF Some] by (cases "out (graph A) j") (auto simp: out_edges_def succs_def marks_def)
      moreover have "\<forall>(q, x) \<in> set (succs (graph A) j). q = j \<and> acc x = m'"
        using loop_mark_spec [OF Some] by (auto simp: out_edges_def succs_def)
      ultimately show ?thesis using False by simp
    qed
  qed
qed simp

lemma inf_mark_eventually:
  assumes "\<And>j. i \<le> j \<Longrightarrow> m j = c"
  shows "inf_mark m = (c :: 'n::len mark_t)"
proof (rule bit_word_eqI)
  fix b assume b: "b < LENGTH('n)"
  have "{n. bit (m n) b} \<subseteq> {..<i}" if "\<not> bit c b" using assms that by (auto simp: not_le [symmetric])
  moreover have "{i..} \<subseteq> {n. bit (m n) b}" if "bit c b" using assms that by auto
  ultimately have "inf_often m b \<longleftrightarrow> bit c b"
    unfolding inf_often_def by (metis finite_lessThan finite_subset infinite_Ici)
  then show "bit (inf_mark m) b \<longleftrightarrow> bit c b" using b by simp
qed

definition total :: "('l, 'n::len) twa_graph \<Rightarrow> bool" where
  "total A \<longleftrightarrow> (\<forall>s < num_states (graph A). (\<Union>(q, x) \<in> set (succs (graph A) s). cond x) = UNIV)"

lemma missing_union: "missing cs = - \<Union> (set cs)"
proof -
  have "fold (\<lambda>c available. available - c) cs a = a - \<Union> (set cs)" for a :: "'a set"
    by (induction cs arbitrary: a) auto
  then show ?thesis by (auto simp: missing_def)
qed

lemma total_missing: "total A \<longleftrightarrow> (\<forall>s < num_states (graph A). missing (out_conds A s) = {})"
proof -
  have c: "- X = {} \<longleftrightarrow> X = UNIV" for X :: "'a set" by auto
  have "(\<Union>(q, x) \<in> set (succs (graph A) s). cond x) = \<Union> (set (out_conds A s))" for s
    by (simp add: out_conds_succs case_prod_unfold)
  then show ?thesis unfolding total_def missing_union c by simp
qed

lemma completion_delta:
  assumes A: "wf_twa A" "num_states (graph A) < no_group"
    and B: "completion A k um (num_states (graph A)) B k'"
  shows "delta (graph A) p a m q \<Longrightarrow> delta (graph B) p a m q"
    "delta (graph B) p a m q \<Longrightarrow> p \<noteq> k' \<Longrightarrow> q \<noteq> k' \<Longrightarrow> delta (graph A) p a m q"
    "delta (graph B) k' a m q \<Longrightarrow> q = k' \<and> m = um"
    "total B"
proof -
  let ?n = "num_states (graph A)"
  have c: "completes u k' um (succs (graph A) u) (succs (graph B) u)" if "u < ?n" for u
    using B that unfolding completion_def by blast
  have n: "?n \<le> num_states (graph B)" using B unfolding completion_def by linarith
  have last: "u = ?n \<and> k' = ?n \<and> succs (graph B) u = [(?n, \<lparr>cond = UNIV, acc = um\<rparr>)]"
    if "u < num_states (graph B)" "\<not> u < ?n" for u
    using B that unfolding completion_def by (metis less_antisym)
  show "delta (graph B) p a m q" if d: "delta (graph A) p a m q"
  proof -
    obtain x where x: "p < ?n" "(q, x) \<in> set (succs (graph A) p)" "a \<in> cond x" "acc x = m"
      using d unfolding delta_succs by blast
    have "\<forall>(q, x) \<in> set (succs (graph A) p). \<exists>y. (q, y) \<in> set (succs (graph B) p) \<and> acc y = acc x \<and> cond x \<subseteq> cond y"
      using c [OF x(1)] unfolding completes_def by (elim conjE)
    then obtain y where "(q, y) \<in> set (succs (graph B) p)" "acc y = acc x" "cond x \<subseteq> cond y"
      using x(2) by blast
    then show ?thesis using x n unfolding delta_succs by auto
  qed
  show "delta (graph A) p a m q" if d: "delta (graph B) p a m q" "p \<noteq> k'" "q \<noteq> k'"
  proof -
    obtain x where x: "p < num_states (graph B)" "(q, x) \<in> set (succs (graph B) p)" "a \<in> cond x" "acc x = m"
      using d unfolding delta_succs by blast
    have p: "p < ?n" using last [OF x(1)] d(2) by blast
    have "\<forall>(q, x) \<in> set (succs (graph B) p). q = k' \<or> (q, x) \<in> set (succs (graph A) p)"
      using c [OF p] unfolding completes_def by (elim conjE)
    then have "(q, x) \<in> set (succs (graph A) p)" using x(2) d(3) by blast
    then show ?thesis using x p unfolding delta_succs by auto
  qed
  show "q = k' \<and> m = um" if d: "delta (graph B) k' a m q"
  proof -
    obtain x where x: "k' < num_states (graph B)" "(q, x) \<in> set (succs (graph B) k')" "acc x = m"
      using d unfolding delta_succs by blast
    show ?thesis
    proof (cases "k' < ?n")
      case True
      then have "k' = k' \<longrightarrow> (\<forall>(q, x) \<in> set (succs (graph B) k'). q = k' \<and> acc x = um)"
        using c [OF True] unfolding completes_def by (elim conjE)
      then show ?thesis using x by blast
    next
      case False
      from last [OF x(1) False] x show ?thesis by auto
    qed
  qed
  show "total B" unfolding total_def
  proof (intro allI impI)
    fix u assume u: "u < num_states (graph B)"
    show "(\<Union>(q, x) \<in> set (succs (graph B) u). cond x) = UNIV"
    proof (cases "u < ?n")
      case True
      from c [OF this] show ?thesis unfolding completes_def by (elim conjE)
    next
      case False
      with last [OF u] show ?thesis by auto
    qed
  qed
qed

lemma completion_language:
  assumes A: "wf_twa A" "num_states (graph A) < no_group"
    and B: "completion A k um (num_states (graph A)) B k'" and um: "\<not> cond_accepting (twa_acc A) um"
  shows "accepts B w \<longleftrightarrow> accepts A w"
proof
  note d = completion_delta [OF A B]
  have same: "twa_acc B = twa_acc A" "init_number B = init_number A" using B unfolding completion_def by blast+
  show "accepts B w" if "accepts A w" using that d(1) unfolding accepts_def is_path_def same by blast
  assume "accepts B w"
  then obtain p m where p: "p 0 = init_number A" "\<forall>i. delta (graph B) (p i) (w i) (m i) (p (Suc i))"
    "cond_accepting (twa_acc A) (inf_mark m)"
    unfolding accepts_def is_path_def same by blast
  have "p i \<noteq> k'" for i
  proof
    assume i: "p i = k'"
    have s: "p j = k'" if "i \<le> j" for j
      using that
    proof (induction j rule: dec_induct)
      case (step j)
      have "delta (graph B) k' (w j) (m j) (p (Suc j))" using p(2) step(3) by metis
      then show ?case using d(3) by blast
    qed (rule i)
    have "m j = um" if "i \<le> j" for j using d(3) p(2) s [OF that] by metis
    then have "inf_mark m = um" by (rule inf_mark_eventually)
    then show False using p(3) um by simp
  qed
  then have "\<forall>i. delta (graph A) (p i) (w i) (m i) (p (Suc i))" using d(2) p(2) by blast
  then show "accepts A w" using p(1,3) unfolding accepts_def is_path_def by blast
qed

section \<open>What the completion keeps\<close>

text \<open>
  A condition built by the connectives over its declared sets, marks that use declared sets, runs whose
  marks are eventually constant (the runs of a weak automaton), and determinism.
\<close>

definition cond_ok :: "'n::len cond \<Rightarrow> bool" where
  "cond_ok a \<longleftrightarrow> wf_sat a \<and> bits (all_sets a) = {..<num_sets a} \<and> length (get_acceptance a) < 2 ^ 12"

definition well_marked :: "('l, 'n::len) twa_graph \<Rightarrow> bool" where
  "well_marked A \<longleftrightarrow> (\<forall>s < num_states (graph A). \<forall>m \<in> marks (succs (graph A) s). bits m \<subseteq> {..<num_sets (twa_acc A)})"

definition settles :: "(nat \<Rightarrow> 'n::len mark_t) \<Rightarrow> bool" where
  "settles m \<longleftrightarrow> (\<exists>i c. \<forall>j \<ge> i. m j = c)"

definition settling :: "('l, 'n::len) twa_graph \<Rightarrow> bool" where
  "settling A \<longleftrightarrow> (\<forall>w p m. is_path (delta (graph A)) w p m \<longrightarrow> settles m)"

definition no_overlap :: "('l, 'n::len) twa_graph \<Rightarrow> bool" where
  "no_overlap A \<longleftrightarrow> (\<forall>s < num_states (graph A). \<not> overlaps UNIV (out_conds A s))"

definition kept :: "('l, 'n::len) twa_graph \<Rightarrow> ('l, 'n) twa_graph \<Rightarrow> bool" where
  "kept A B \<longleftrightarrow> init_number B = init_number A \<and> dict B = dict A \<and> props B = props A \<and>
    num_sets (twa_acc B) \<le> max 1 (num_sets (twa_acc A)) \<and>
    (cond_ok (twa_acc A) \<and> well_marked A \<longrightarrow> cond_ok (twa_acc B) \<and> well_marked B) \<and>
    (settling A \<longrightarrow> settling B) \<and> (no_overlap A \<longrightarrow> no_overlap B)"

lemma kept_refl: "kept A A"
  by (simp add: kept_def)

lemma kept_trans: "kept A B \<Longrightarrow> kept B C \<Longrightarrow> kept A C"
  unfolding kept_def max_def by (elim conjE) (intro conjI impI; simp split: if_splits)

lemma out_conds_conds: "out_conds A s = conds (succs (graph A) s)"
  by (simp add: out_conds_succs conds_def)

lemma rest_same:
  "dict (add_cond A t c) = dict A" "props (add_cond A t c) = props A"
  "dict (fst (twa_new_state A)) = dict A" "props (fst (twa_new_state A)) = props A"
  "dict (fst (twa_new_edge A s d c m)) = dict A" "props (fst (twa_new_edge A s d c m)) = props A"
  by (simp_all add: add_cond_def twa_new_state_def twa_new_edge_def split: prod.split)

lemma complete_state_rest:
  "dict (fst (complete_state um i S)) = dict (fst S) \<and> props (fst (complete_state um i S)) = props (fst S)"
proof -
  obtain A k where S: "S = (A, k)" by fastforce
  obtain c m e where sc: "scan_edges A k (UNIV, um, 0) (out (graph A) i) = (c, m, e)" by (metis prod_cases3)
  obtain A1 s where n: "twa_new_state A = (A1, s)" by fastforce
  have "dict A1 = dict A" "props A1 = props A" using rest_same(3,4) [of A] n by simp_all
  then show ?thesis by (simp add: S complete_state_def sc n Let_def rest_same)
qed

lemma complete_fold_rest:
  "dict (fst (fold (complete_state um) is S)) = dict (fst S) \<and> props (fst (fold (complete_state um) is S)) = props (fst S)"
  by (induction "is" arbitrary: S) (simp_all add: complete_state_rest)

lemma completion_kept:
  assumes A: "wf_twa A" "num_states (graph A) < no_group" and um: "cond_ok (twa_acc A) \<and> well_marked A \<longrightarrow> bits um \<subseteq> {..<num_sets (twa_acc A)}"
    and B: "completion A k um (num_states (graph A)) B k'" "dict B = dict A" "props B = props A"
  shows "kept A B"
proof -
  let ?n = "num_states (graph A)"
  have same: "twa_acc B = twa_acc A" "init_number B = init_number A" using B unfolding completion_def by blast+
  have c: "marks (succs (graph B) u) \<subseteq> {um, 0} \<union> marks (succs (graph A) u)"
    "overlaps UNIV (conds (succs (graph B) u)) \<longrightarrow> overlaps UNIV (conds (succs (graph A) u))" if "u < ?n" for u
  proof -
    have "completes u k' um (succs (graph A) u) (succs (graph B) u)" using B that unfolding completion_def by blast
    then show "marks (succs (graph B) u) \<subseteq> {um, 0} \<union> marks (succs (graph A) u)"
      "overlaps UNIV (conds (succs (graph B) u)) \<longrightarrow> overlaps UNIV (conds (succs (graph A) u))"
      unfolding completes_def by simp_all
  qed
  have last: "succs (graph B) u = [(?n, \<lparr>cond = UNIV, acc = um\<rparr>)]" if "u < num_states (graph B)" "\<not> u < ?n" for u
    using B that unfolding completion_def by (metis less_antisym)
  have zero: "bits (0 :: 'b mark_t) = {}" by (simp add: bits_def)
  have "well_marked B" if "cond_ok (twa_acc A)" "well_marked A"
    unfolding well_marked_def same
  proof (intro allI impI ballI)
    fix s m assume s: "s < num_states (graph B)" "m \<in> marks (succs (graph B) s)"
    have u: "bits um \<subseteq> {..<num_sets (twa_acc A)}" using um that by blast
    show "bits m \<subseteq> {..<num_sets (twa_acc A)}"
    proof (cases "s < ?n")
      case True
      then show ?thesis using c(1) [OF True] s(2) u that(2) zero unfolding well_marked_def by blast
    next
      case False
      then show ?thesis using last [OF s(1)] s(2) u by (simp add: marks_def)
    qed
  qed
  moreover have "settling B" if sA: "settling A"
    unfolding settling_def
  proof (intro allI impI)
    fix w p m assume p: "is_path (delta (graph B)) w p m"
    note d = completion_delta [OF A B(1)]
    show "settles m"
    proof (cases "\<exists>i. p i = k'")
      case True
      then obtain i where i: "p i = k'" ..
      have s: "p j = k'" if "i \<le> j" for j
        using that
      proof (induction j rule: dec_induct)
        case (step j)
        have "delta (graph B) k' (w j) (m j) (p (Suc j))" using p step(3) unfolding is_path_def by metis
        then show ?case using d(3) by blast
      qed (rule i)
      have "m j = um" if "i \<le> j" for j using d(3) p s [OF that] unfolding is_path_def by metis
      then show ?thesis unfolding settles_def by blast
    next
      case False
      then have "is_path (delta (graph A)) w p m" using p d(2) unfolding is_path_def by blast
      then show ?thesis using sA unfolding settling_def by blast
    qed
  qed
  moreover have "no_overlap B" if "no_overlap A"
    unfolding no_overlap_def out_conds_conds
  proof (intro allI impI)
    fix s assume s: "s < num_states (graph B)"
    show "\<not> overlaps UNIV (conds (succs (graph B) s))"
    proof (cases "s < ?n")
      case True
      then show ?thesis using c(2) [OF True] that unfolding no_overlap_def out_conds_conds by blast
    next
      case False
      then show ?thesis using last [OF s] by (simp add: conds_def)
    qed
  qed
  ultimately show ?thesis unfolding kept_def using same B(2,3) by auto
qed

lemma set_buchi_ok:
  fixes A :: "('l, 'n::len) twa_graph"
  assumes "LENGTH('n) < 2 ^ 32"
  obtains a where "set_buchi A = Inr (1, A\<lparr>twa_acc := a\<rparr>)" "\<And>n. cond_accepting a n \<longleftrightarrow> bit n 0"
    "cond_ok a" "num_sets a = 1"
proof -
  have one: "bits (1 :: 'n mark_t) = {0}" by (auto simp: bits_def bit_1_iff)
  have bu: "buchi = Inr (inf_code (1 :: 'n mark_t))" by (simp add: buchi_def inf1_def)
  have len: "1 \<le> LENGTH('n)" by (simp add: Suc_le_eq)
  obtain a :: "'n cond" where a: "acc_cond 1 (inf_code 1) = Inr a" "cond_inv a" "num_sets a = 1" "get_acceptance a = inf_code 1"
    using acc_cond_ok [OF len assms, of "inf_code 1"] by blast
  have tree: "inf_code (1 :: 'n mark_t) = enc (TInf 1)" by (simp add: inf_code_def)
  have "denotes (inf_code (1 :: 'n mark_t)) 2 (\<lambda>m. bit m 0)"
    using denotes_inf [of "1 :: 'n mark_t"] unfolding one by (simp add: bits_def)
  then have "cond_accepting a n \<longleftrightarrow> bit n 0" for n
    unfolding cond_accepting_def a(4) by (rule denotes_accepting)
  moreover have "set_buchi A = Inr (1, A\<lparr>twa_acc := a\<rparr>)"
    unfolding set_buchi_def twa_set_acceptance_def bu lift_acc.simps bind_sum.simps a(1) by simp
  moreover have "wf_sat a"
    unfolding wf_sat_def
  proof (intro conjI exI [of _ "TInf 1"])
    show "bits (used_sets (get_acceptance a)) \<subseteq> bits (all_sets a)"
      using a(2,3) one used_sets_enc [of "TInf (1 :: 'n mark_t)"] unfolding a(4) tree cond_inv_def by (auto simp: tree_ok_def bit_1_iff)
  qed (use a(2) in \<open>simp_all add: a(4) tree cond_inv_def tree_ok_def nontrivial_def\<close>)
  then have "cond_ok a" using a(2,3) by (simp add: cond_ok_def cond_inv_def a(4) inf_code_def)
  ultimately show thesis using a(3) by (intro that)
qed

definition mark_all_edges :: "('l, 'n::len) twa_graph \<Rightarrow> 'n mark_t \<Rightarrow> ('l, 'n) twa_graph" where
  "mark_all_edges A m = A\<lparr>graph := (graph A)\<lparr>edges := map (\<lambda>t. t\<lparr>e_data := (e_data t)\<lparr>acc := m\<rparr>\<rparr>) (edges (graph A))\<rparr>\<rparr>"

lemma mark_all_edges_spec:
  assumes "wf_twa A"
  shows "wf_twa (mark_all_edges A m)" "num_states (graph (mark_all_edges A m)) = num_states (graph A)"
    "s < num_states (graph A) \<Longrightarrow>
      succs (graph (mark_all_edges A m)) s = map (\<lambda>(q, x). (q, x\<lparr>acc := m\<rparr>)) (succs (graph A) s)"
    "twa_acc (mark_all_edges A m) = twa_acc A" "init_number (mark_all_edges A m) = init_number A"
proof -
  let ?g = "graph A"
  define es where "es = map (\<lambda>t. t\<lparr>e_data := (e_data t)\<lparr>acc := m\<rparr>\<rparr>) (edges ?g)"
  have B: "graph (mark_all_edges A m) = ?g\<lparr>edges := es\<rparr>" by (simp add: mark_all_edges_def es_def)
  have wf: "wf_graph ?g" "is_existential ?g" "wf_twa_graph ?g" using assms by (auto simp: wf_twa_def wf_twa_graph_def)
  have len: "length es = length (edges ?g)" by (simp add: es_def)
  have "\<forall>t < length es. next_succ (es ! t) = next_succ (edges ?g ! t) \<and> e_src (es ! t) = e_src (edges ?g ! t) \<and>
      e_dst (es ! t) = e_dst (edges ?g ! t)" by (simp add: es_def)
  note sr = succs_relabel [OF wf(1) len this]
  show n: "num_states (graph (mark_all_edges A m)) = num_states ?g" unfolding B by (rule sr)
  show su: "succs (graph (mark_all_edges A m)) s = map (\<lambda>(q, x). (q, x\<lparr>acc := m\<rparr>)) (succs ?g s)" if s: "s < num_states ?g" for s
  proof -
    have "t < length (edges ?g)" if "t \<in> set (out ?g s)" for t
      using that unfolding out_valid [OF wf(1) s] by (simp add: is_valid_edge_def)
    then show ?thesis unfolding B sr(3) [OF s] by (simp add: es_def succs_def)
  qed
  show acc: "twa_acc (mark_all_edges A m) = twa_acc A" "init_number (mark_all_edges A m) = init_number A"
    by (simp_all add: mark_all_edges_def)
  have "wf_twa_graph (graph (mark_all_edges A m))" unfolding wf_succs n
  proof (intro conjI allI impI)
    show "wf_graph (graph (mark_all_edges A m))" "is_existential (graph (mark_all_edges A m))" unfolding B using sr wf by simp_all
    fix s assume s: "s < num_states ?g"
    show "\<forall>(q, x) \<in> set (succs (graph (mark_all_edges A m)) s). q < num_states ?g"
      unfolding su [OF s] using wf(3) s unfolding wf_succs by auto
  qed
  then show "wf_twa (mark_all_edges A m)" using assms unfolding wf_twa_def n acc by blast
qed

lemma mark_all_edges_language:
  fixes A :: "('l, 'n::len) twa_graph"
  assumes "wf_twa A" "\<And>n. cond_accepting (twa_acc A) n" "\<And>n. cond_accepting a n \<longleftrightarrow> bit n 0"
  shows "accepts (mark_all_edges (A\<lparr>twa_acc := a\<rparr>) 1) w \<longleftrightarrow> accepts A w"
proof -
  let ?B = "mark_all_edges (A\<lparr>twa_acc := a\<rparr>) 1"
  have "wf_twa (A\<lparr>twa_acc := a\<rparr>)" using assms(1) by (simp add: wf_twa_def)
  note sp = mark_all_edges_spec [OF this, where m = 1, simplified]
  have d: "delta (graph ?B) p x m q \<longleftrightarrow> m = 1 \<and> (\<exists>n. delta (graph A) p x n q)" for p x m q
    unfolding delta_succs sp(2) using sp(3) [of p] by (cases "p < num_states (graph A)") force+
  have "cond_accepting a (inf_mark (\<lambda>_. 1))"
    unfolding assms(3) by (simp add: inf_often_def)
  moreover have "m = (\<lambda>_. 1)" if "is_path (delta (graph ?B)) w p m" for p m
    using that unfolding is_path_def d by auto
  moreover have "is_path (delta (graph ?B)) w p (\<lambda>_. 1) \<longleftrightarrow> (\<exists>n. is_path (delta (graph A)) w p n)" for p
    unfolding is_path_def d by (simp add: choice_iff)
  ultimately show ?thesis
    unfolding accepts_def sp(4,5) using assms(2) by metis
qed

lemma mark_all_edges_kept:
  fixes A :: "('l, 'n::len) twa_graph"
  assumes "wf_twa A" "cond_ok a" "num_sets a = 1"
  shows "kept A (mark_all_edges (A\<lparr>twa_acc := a\<rparr>) 1)"
proof -
  let ?B = "mark_all_edges (A\<lparr>twa_acc := a\<rparr>) 1"
  have "wf_twa (A\<lparr>twa_acc := a\<rparr>)" using assms(1) by (simp add: wf_twa_def)
  note sp = mark_all_edges_spec [OF this, where m = 1, simplified]
  have one: "bits (1 :: 'n mark_t) = {0}" by (auto simp: bits_def bit_1_iff)
  have "delta (graph ?B) p x m q \<Longrightarrow> m = 1" for p x m q
    unfolding delta_succs sp(2) using sp(3) [of p] by force
  then have "settles m" if "is_path (delta (graph ?B)) w p m" for w p m
    using that unfolding is_path_def settles_def by blast
  then have "settling ?B" unfolding settling_def by blast
  moreover have "well_marked ?B"
    unfolding well_marked_def sp(2) using sp(3,4) assms(3) one by (auto simp: marks_def)
  moreover have "conds (succs (graph ?B) s) = conds (succs (graph A) s)" if "s < num_states (graph A)" for s
    using sp(3) [OF that] by (simp add: conds_def case_prod_unfold)
  then have "no_overlap ?B \<longleftrightarrow> no_overlap A" unfolding no_overlap_def out_conds_conds sp(2) by auto
  ultimately show ?thesis
    unfolding kept_def sp(4,5) using assms(2,3) by (auto simp: mark_all_edges_def)
qed

lemma complete_from:
  assumes "wf_twa A" "num_states (graph A) < no_group" "\<not> cond_accepting (twa_acc A) um"
    and "k = no_group \<or> k < num_states (graph A)"
    and "k < num_states (graph A) \<longrightarrow> (\<forall>(q, x) \<in> set (succs (graph A) k). q = k \<and> acc x = um)"
    and um: "cond_ok (twa_acc A) \<and> well_marked A \<longrightarrow> bits um \<subseteq> {..<num_sets (twa_acc A)}"
  shows "\<exists>B k'. fold (complete_state um) [0..<num_states (graph A)] (A, k) = (B, k') \<and> wf_twa B \<and> total B \<and>
    (\<forall>w. accepts B w \<longleftrightarrow> accepts A w) \<and> kept A B"
proof -
  obtain B k' where B: "fold (complete_state um) [0..<num_states (graph A)] (A, k) = (B, k')"
    "completion A k um (num_states (graph A)) B k'"
    using complete_fold [OF assms(1,2,4,5) le_refl] by blast
  have "dict B = dict A" "props B = props A"
    using complete_fold_rest [of um "[0..<num_states (graph A)]" "(A, k)"] B(1) by simp_all
  from completion_kept [OF assms(1,2) um B(2) this]
    completion_delta(4) [OF assms(1,2) B(2)] completion_language [OF assms(1,2) B(2) assms(3)] B
  show ?thesis unfolding completion_def by blast
qed

lemma no_edges:
  assumes "wf_graph g" "num_edges g = 0" "s < num_states g"
  shows "succs g s = []"
proof -
  have "filter (is_valid_edge g) [1..<length (edges g)] = []"
    using assms(2) unfolding num_edges_live [OF assms(1)] all_edges_live [OF assms(1)] by simp
  then have "\<not> is_valid_edge g t" if "0 < t" for t
    using that unfolding filter_empty_conv by (auto simp: is_valid_edge_def)
  then show ?thesis using out_valid [OF assms(1,3)] unfolding succs_def by (cases "out g s") auto
qed

lemma complete_here_sound:
  fixes A :: "('l, 'n::len) twa_graph"
  assumes "wf_twa A" "wf_sat (twa_acc A)" "num_states (graph A) < no_group" "LENGTH('n) < 2 ^ 32"
    and "is_true (complete_prop (props A)) \<longrightarrow> total A"
  shows "\<exists>B. complete_here A = Inr (update_props (set_complete (trival_of_bool True)) B) \<and> wf_twa B \<and> total B \<and>
    (\<forall>w. accepts B w \<longleftrightarrow> accepts A w) \<and> kept A B"
proof (cases "is_true (complete_prop (props A))")
  case True
  then have "complete_prop (props A) = trival_of_bool True" by (simp add: is_true_def trival_of_bool_def)
  then have "update_props (set_complete (trival_of_bool True)) A = A" by (simp add: set_complete_def)
  then show ?thesis using assms(1,5) True kept_refl by (intro exI [of _ A]) (simp add: complete_here_def)
next
  case False
  let ?n = "num_states (graph A)"
  obtain found um where um: "unsat_mark (twa_acc A) = (found, um)" by fastforce
  note us = sat_unsat_mark_spec [OF assms(2) um [unfolded unsat_mark_def]]
  define start where "start = (if \<not> found
    then bind_sum (set_buchi A) (\<lambda>(m, A). Inr (mark_all_edges A m, um, no_group))
    else case find_sink A um [0..<?n] of Some (i, m) \<Rightarrow> Inr (A, m, i) | None \<Rightarrow> Inr (A, um, no_group))"
  have "\<exists>C um' k. start = Inr (C, um', k) \<and> wf_twa C \<and> num_states (graph C) = ?n \<and> (\<forall>w. accepts C w \<longleftrightarrow> accepts A w) \<and>
    \<not> cond_accepting (twa_acc C) um' \<and> (k = no_group \<or> k < ?n) \<and>
    (k < ?n \<longrightarrow> (\<forall>(q, x) \<in> set (succs (graph C) k). q = k \<and> acc x = um')) \<and>
    (cond_ok (twa_acc C) \<and> well_marked C \<longrightarrow> bits um' \<subseteq> {..<num_sets (twa_acc C)}) \<and> kept A C"
  proof (cases found)
    case True
    have umb: "bits um \<subseteq> {..<num_sets (twa_acc A)}" if "cond_ok (twa_acc A)"
      using us that unfolding cond_ok_def by blast
    show ?thesis
    proof (cases "find_sink A um [0..<?n]")
      case None
      then show ?thesis using True us umb assms(1,3) kept_refl by (simp add: start_def)
    next
      case (Some im)
      obtain i m where im: "im = (i, m)" by fastforce
      note fs = find_sink_spec [OF Some [unfolded im]]
      then have i: "i < ?n" by simp
      have "bits m \<subseteq> {..<num_sets (twa_acc A)}" if "cond_ok (twa_acc A)" "well_marked A"
        using fs umb that i unfolding well_marked_def by blast
      then show ?thesis using fs i True Some im assms(1) kept_refl by (simp add: start_def)
    qed
  next
    case False
    obtain a where a: "set_buchi A = Inr (1, A\<lparr>twa_acc := a\<rparr>)" "\<And>n. cond_accepting a n \<longleftrightarrow> bit n 0"
      "cond_ok a" "num_sets a = 1"
      by (rule set_buchi_ok [OF assms(4)]) (rule that; assumption)
    have um0: "um = 0" using um False unfolding unsat_mark_def sat_unsat_mark_def Let_def by (auto split: if_splits prod.splits)
    define C where "C = mark_all_edges (A\<lparr>twa_acc := a\<rparr>) 1"
    have "wf_twa (A\<lparr>twa_acc := a\<rparr>)" using assms(1) by (simp add: wf_twa_def)
    note sp = mark_all_edges_spec [OF this, where m = 1, folded C_def, simplified]
    have "accepts C w \<longleftrightarrow> accepts A w" for w
      unfolding C_def by (rule mark_all_edges_language [OF assms(1) _ a(2)]) (use us False in blast)
    moreover have "kept A C" unfolding C_def by (rule mark_all_edges_kept [OF assms(1) a(3,4)])
    moreover have "bits um = {}" unfolding um0 by (simp add: bits_def)
    ultimately show ?thesis
      using False a sp um0 assms(3) by (intro exI [of _ C] exI [of _ um] exI [of _ no_group]) (simp add: start_def C_def)
  qed
  then obtain C um' k where C: "start = Inr (C, um', k)" "wf_twa C" "num_states (graph C) = ?n" "\<forall>w. accepts C w \<longleftrightarrow> accepts A w"
    "\<not> cond_accepting (twa_acc C) um'" "k = no_group \<or> k < ?n"
    "k < ?n \<longrightarrow> (\<forall>(q, x) \<in> set (succs (graph C) k). q = k \<and> acc x = um')"
    "cond_ok (twa_acc C) \<and> well_marked C \<longrightarrow> bits um' \<subseteq> {..<num_sets (twa_acc C)}" "kept A C"
    by (elim exE conjE) (rule that; assumption)
  define k' where "k' = (if num_edges (graph C) = 0 \<and> \<not> is_univ_dest (init_number C) then init_number C else k)"
  have init: "init_number C < ?n" using C(2,3) unfolding wf_twa_def by simp
  have "wf_graph (graph C)" using C(2) unfolding wf_twa_def wf_twa_graph_def by blast
  note none = no_edges [OF this]
  have k': "k' = no_group \<or> k' < num_states (graph C)"
    "k' < num_states (graph C) \<longrightarrow> (\<forall>(q, x) \<in> set (succs (graph C) k'). q = k' \<and> acc x = um')"
    using C(3,6,7) init none unfolding k'_def by auto
  have "num_states (graph C) < no_group" using assms(3) C(3) by simp
  from complete_from [OF C(2) this C(5) k' C(8)] obtain B k'' where B: "fold (complete_state um') [0..<?n] (C, k') = (B, k'')"
    "wf_twa B" "total B" "\<forall>w. accepts B w \<longleftrightarrow> accepts C w" "kept C B" unfolding C(3) by blast
  have "get_init_state_number C = Inr (init_number C)" using init C(3) by (simp add: get_init_state_number_def)
  moreover have "complete_here A = bind_sum start
      (\<lambda>(A, um, sink). bind_sum (get_init_state_number A) (\<lambda>i.
         let sink = (if num_edges (graph A) = 0 \<and> \<not> is_univ_dest i then i else sink);
             (A, _) = fold (complete_state um) [0..<?n] (A, sink)
         in Inr (update_props (set_complete (trival_of_bool True)) A)))"
    unfolding complete_here_def start_def mark_all_edges_def Let_def um using False by simp
  ultimately have "complete_here A = Inr (update_props (set_complete (trival_of_bool True)) B)"
    using C(1) B(1) by (simp add: k'_def Let_def)
  then show ?thesis using B(2-5) C(4,9) kept_trans by (intro exI [of _ B]) simp
qed

lemma twa_copy_fields:
  "graph (twa_copy A s) = graph A" "init_number (twa_copy A s) = init_number A" "twa_acc (twa_copy A s) = twa_acc A"
proof -
  have "graph (fold register_ap fs B) = graph B \<and> init_number (fold register_ap fs B) = init_number B \<and>
    twa_acc (fold register_ap fs B) = twa_acc B" for fs and B :: "('a, 'b) twa_graph"
    by (induction fs arbitrary: B) (auto simp: register_ap_def)
  then show "graph (twa_copy A s) = graph A" "init_number (twa_copy A s) = init_number A" "twa_acc (twa_copy A s) = twa_acc A"
    by (simp_all add: twa_copy_def Let_def copy_ap_of_def copy_acceptance_of_def)
qed

lemma twa_copy_complete: "complete_prop (props (twa_copy A prop_set_all)) = complete_prop (props A)"
  by (simp add: twa_copy_def Let_def prop_copy_def prop_set_all_def set_complete_def set_stutter_invariant_def)

lemma complete_kept:
  fixes A :: "('l, 'n::len) twa_graph"
  assumes "wf_twa A" "wf_sat (twa_acc A)" "num_states (graph A) < no_group" "LENGTH('n) < 2 ^ 32"
    and "is_true (complete_prop (props A)) \<longrightarrow> total A"
  shows "\<exists>B. complete A = Inr B \<and> wf_twa B \<and> total B \<and> is_true (complete_prop (props B)) \<and>
    (\<forall>w. accepts B w \<longleftrightarrow> accepts A w) \<and>
    (\<exists>B'. B = update_props (set_complete (trival_of_bool True)) B' \<and> kept (twa_copy A prop_set_all) B')"
proof -
  let ?A = "twa_copy A prop_set_all"
  have "total ?A \<longleftrightarrow> total A" "wf_twa ?A \<longleftrightarrow> wf_twa A" "accepts ?A w \<longleftrightarrow> accepts A w" for w
    by (simp_all add: total_def wf_twa_def accepts_def twa_copy_fields)
  with complete_here_sound [of ?A] assms obtain B where
    B: "complete_here ?A = Inr (update_props (set_complete (trival_of_bool True)) B)" "wf_twa B" "total B"
    "\<forall>w. accepts B w \<longleftrightarrow> accepts A w" "kept ?A B"
    by (auto simp: twa_copy_fields twa_copy_complete)
  moreover have "wf_twa (update_props f B) = wf_twa B" "total (update_props f B) = total B"
    "accepts (update_props f B) w = accepts B w" for f w
    by (simp_all add: wf_twa_def total_def accepts_def)
  moreover have "is_true (complete_prop (props (update_props (set_complete (trival_of_bool True)) B)))"
    by (simp add: set_complete_def is_true_def trival_of_bool_def)
  ultimately show ?thesis unfolding complete_def by blast
qed

text \<open>
  Property C6: \<open>complete\<close> returns a well-formed automaton with the same language whose states all have
  an edge for every letter, and \<open>is_complete\<close> says so, when the condition is one that the connectives
  build and an automaton that is declared complete is so.
\<close>

theorem complete_sound:
  fixes A :: "('l, 'n::len) twa_graph"
  assumes "wf_twa A" "wf_sat (twa_acc A)" "num_states (graph A) < no_group" "LENGTH('n) < 2 ^ 32"
    and "is_true (complete_prop (props A)) \<longrightarrow> (\<forall>s < num_states (graph A). missing (out_conds A s) = {})"
  shows "\<exists>B. complete A = Inr B \<and> wf_twa B \<and> is_complete B = (True, B) \<and>
    (\<forall>s < num_states (graph B). missing (out_conds B s) = {}) \<and> (\<forall>w. accepts B w \<longleftrightarrow> accepts A w)"
proof -
  from complete_kept [OF assms(1-4)] assms(5) obtain B where B: "complete A = Inr B" "wf_twa B" "total B"
    "is_true (complete_prop (props B))" "\<forall>w. accepts B w \<longleftrightarrow> accepts A w"
    unfolding total_missing by blast
  then have "is_complete B = (True, B)"
    by (cases "complete_prop (props B)") (simp_all add: is_complete_def is_known_def is_true_def)
  with B show ?thesis unfolding total_missing by blast
qed

theorem complete_sound_witness:
  "\<exists>B. complete island = Inr B \<and> wf_twa B \<and> is_complete B = (True, B) \<and> (\<forall>w. accepts B w \<longleftrightarrow> accepts island w)"
proof -
  have acc: "twa_acc island = \<lparr>num_sets = 0, all_sets = 0, get_acceptance = code_t, uses_fin_acceptance = False\<rparr>"
    by (simp add: island_def explicit_twa_spec)
  have "wf_sat (twa_acc island)" unfolding wf_sat_def acc
    by (intro conjI exI [of _ TT]) (simp_all add: check_fin_acceptance_def code_t_def tree_ok_def nontrivial_def used_sets_def)
  moreover have "\<not> is_true (complete_prop (props island))" by code_simp
  moreover have "num_states (graph island) < no_group" by (simp add: island_spec no_group_def)
  ultimately show ?thesis using complete_sound [of island] island_spec(1) by auto
qed

section \<open>Alternating automata\<close>

text \<open>
  Two states; a universal edge leads from state 0 to both on the letter \<open>True\<close>, and state 1 accepts
  everything.
\<close>

definition branching :: "(bool, 32) twa_graph" where
  "branching = (let A = (make_twa_graph 0)\<lparr>twa_acc := \<lparr>num_sets = 1, all_sets = 1, get_acceptance = inf_code 1, uses_fin_acceptance = False\<rparr>\<rparr>;
      A = fst (twa_new_states A 2); A = fst (twa_new_univ_edge A 0 [0, 1] {True} 1)
    in fst (twa_new_edge A 1 1 UNIV 1))"

definition branching_acc :: "32 cond" where
  "branching_acc = \<lparr>num_sets = 1, all_sets = 1, get_acceptance = inf_code 1, uses_fin_acceptance = False\<rparr>"

lemma branching_graph:
  "graph branching = \<lparr>states = [\<lparr>succ = 1, succ_tail = 1, s_data = ()\<rparr>, \<lparr>succ = 2, succ_tail = 2, s_data = ()\<rparr>],
     edges = [\<lparr>e_dst = 0, next_succ = 0, e_src = 0, e_data = \<lparr>cond = {}, acc = 0\<rparr>\<rparr>,
       \<lparr>e_dst = no_group, next_succ = 0, e_src = 0, e_data = \<lparr>cond = {True}, acc = 1\<rparr>\<rparr>,
       \<lparr>e_dst = 1, next_succ = 0, e_src = 1, e_data = \<lparr>cond = UNIV, acc = 1\<rparr>\<rparr>],
     dests = [2, 0, 1], killed_edge = 0\<rparr>"
  by (simp add: branching_def make_twa_graph_def twa_new_states_def new_states_def twa_new_univ_edge_def
    new_univ_edge_def new_univ_dests_def twa_new_edge_def new_edge_def digraph0_def Let_def compl32_def no_group_def numeral_2_eq_2)

lemma branching_rest: "twa_acc branching = branching_acc" "init_number branching = 0" "props branching = no_props"
  by (simp_all add: branching_def make_twa_graph_def twa_new_states_def new_states_def twa_new_univ_edge_def
    new_univ_edge_def new_univ_dests_def twa_new_edge_def new_edge_def digraph0_def Let_def branching_acc_def)

lemma branching_unsat: "unsat_mark branching_acc = (True, 0)"
  by (simp add: unsat_mark_def sat_unsat_mark_def branching_acc_def is_t_def inf_code_def top_is_def Let_def)

lemma branching_sink: "find_sink branching 0 [0..<2] = None"
proof -
  have "[0..<2] = [0, 1::nat]" by (simp add: upt_rec)
  then show ?thesis
  by (simp add: out_edges_def out_def branching_graph branching_rest branching_acc_def cond_accepting_def accepting_def inf_code_def no_group_def)
qed

definition completed_branching :: "(unit, (bool, 32 mark_t) edge_label) digraph" where
  "completed_branching = \<lparr>states = [\<lparr>succ = 1, succ_tail = 1, s_data = ()\<rparr>, \<lparr>succ = 2, succ_tail = 2, s_data = ()\<rparr>,
       \<lparr>succ = 3, succ_tail = 3, s_data = ()\<rparr>],
     edges = [\<lparr>e_dst = 0, next_succ = 0, e_src = 0, e_data = \<lparr>cond = {}, acc = 0\<rparr>\<rparr>,
       \<lparr>e_dst = no_group, next_succ = 0, e_src = 0, e_data = \<lparr>cond = UNIV, acc = 1\<rparr>\<rparr>,
       \<lparr>e_dst = 1, next_succ = 0, e_src = 1, e_data = \<lparr>cond = UNIV, acc = 1\<rparr>\<rparr>,
       \<lparr>e_dst = 2, next_succ = 0, e_src = 2, e_data = \<lparr>cond = UNIV, acc = 0\<rparr>\<rparr>],
     dests = [2, 0, 1], killed_edge = 0\<rparr>"

lemma branching_complete:
  "complete_state 0 0 (branching, no_group) = (branching\<lparr>graph := completed_branching\<rparr>, 2)"
  "complete_state 0 1 (branching\<lparr>graph := completed_branching\<rparr>, 2) = (branching\<lparr>graph := completed_branching\<rparr>, 2)"
proof -
  have u: "insert True (UNIV - {True}) = UNIV" "UNIV - {True} \<noteq> {}" by auto
  show "complete_state 0 0 (branching, no_group) = (branching\<lparr>graph := completed_branching\<rparr>, 2)"
    using u
    by (simp add: complete_state_def out_def branching_graph twa_new_state_def new_state_def twa_new_edge_def new_edge_def
      Let_def add_cond_def completed_branching_def no_group_def)
  show "complete_state 0 1 (branching\<lparr>graph := completed_branching\<rparr>, 2) = (branching\<lparr>graph := completed_branching\<rparr>, 2)"
    by (simp add: complete_state_def out_def completed_branching_def)
qed

text \<open>
  The destination \<open>-1U\<close> of the first universal edge of an automaton is also the number
  that stands for \<open>no sink yet\<close>, so that \<open>complete_here\<close> takes this edge for an edge to the sink: on an
  automaton whose only edge from state 0 is universal and labelled by \<open>True\<close>, it adds the missing letter to
  the universal edge instead of creating an edge to the sink.
\<close>

lemma complete_alternating_first_edge:
  "out_conds branching 0 = [{True}] \<and> \<not> is_existential (graph branching) \<and>
   (\<exists>B. complete_here branching = Inr B \<and> out_conds B 0 = [UNIV] \<and>
      e_dst (edge B 1) = e_dst (edge branching 1) \<and> e_acc (edge B 1) = 1 \<and>
      num_states (graph B) = 3 \<and> out_conds B 2 = [UNIV])"
proof -
  have n: "num_states (graph branching) = 2" "num_edges (graph branching) \<noteq> 0"
    by (simp_all add: branching_graph num_states_def num_edges_def)
  have "[0..<2] = [0, 1::nat]" by (simp add: upt_rec)
  then have "fold (complete_state 0) [0..<2] (branching, no_group) = (branching\<lparr>graph := completed_branching\<rparr>, 2)"
    using branching_complete by simp
  then have "complete_here branching = Inr (update_props (set_complete (trival_of_bool True)) (branching\<lparr>graph := completed_branching\<rparr>))"
    using n by (simp add: complete_here_def branching_rest no_props_def is_true_def branching_unsat branching_sink get_init_state_number_def)
  moreover have "out_conds branching 0 = [{True}]" "\<not> is_existential (graph branching)"
    by (simp_all add: out_conds_def out_def branching_graph is_existential_def)
  ultimately show ?thesis
    by (simp add: out_conds_def out_def completed_branching_def branching_graph num_states_def)
qed

end
