(* ===== verification/Product.thy ===== *)
theory Product
  imports Complete
begin

unbundle bit_operations_syntax

text \<open>
  The synchronous product of two automata (twaalgos/product.cc): the states are the pairs that are
  reachable, numbered in the order in which they are found; the acceptance condition and the marks
  depend on the operation and on whether an argument is declared weak.
\<close>

section \<open>The construction\<close>

datatype prod_op = And_acc | Or_acc | Xor_acc | Xnor_acc

type_synonym 'n merge = "'n mark_t \<Rightarrow> 'n mark_t \<Rightarrow> twa_error + 'n mark_t"

text \<open>\<open>output_aborter\<close>: the bounds on the numbers of states and edges.\<close>

definition too_large :: "(nat \<times> nat) option \<Rightarrow> ('l, 'n::len) twa_graph \<Rightarrow> bool" where
  "too_large aborter A =
    (case aborter of None \<Rightarrow> False
     | Some (max_states, max_edges) \<Rightarrow>
         let too_many_states = num_states (graph A) > max_states
         in \<not> (\<not> too_many_states \<and> num_edges (graph A) \<le> max_edges))"

record ('l, 'm) product_run =
  s2n :: "nat \<times> nat \<Rightarrow> nat option"
  todo :: "((nat \<times> nat) \<times> nat) list"
  product_states :: "(nat \<times> nat) list"
  res :: "('l, 'm) twa"

definition product_new_state :: "nat \<Rightarrow> nat \<Rightarrow> ('l, 'n::len mark_t) product_run \<Rightarrow> ('l, 'n mark_t) product_run \<times> nat" where
  "product_new_state left_state right_state st =
    (let x = (left_state, right_state) in
     case s2n st x of
       Some n \<Rightarrow> (st, n)
     | None \<Rightarrow> (case twa_new_state (res st) of (r, n) \<Rightarrow>
         (\<lparr>s2n = (s2n st)(x \<mapsto> n), todo = todo st @ [(x, n)], product_states = product_states st @ [x], res = r\<rparr>, n)))"

type_synonym ('l, 'n) lab_edge = "('l, 'n mark_t) edge_label edge_storage"

definition product_edge :: "'n::len merge \<Rightarrow> nat \<Rightarrow> ('l, 'n) lab_edge \<times> ('l, 'n) lab_edge \<Rightarrow>
    ('l, 'n mark_t) product_run \<Rightarrow> twa_error + ('l, 'n mark_t) product_run" where
  "product_edge merge_acc src = (\<lambda>(l, r) st.
    let c = e_cond l \<inter> e_cond r in
    if c = {} then Inr st
    else case product_new_state (e_dst l) (e_dst r) st of (st, dst) \<Rightarrow>
      bind_sum (merge_acc (e_acc l) (e_acc r)) (\<lambda>m. Inr (st\<lparr>res := fst (twa_new_edge (res st) src dst c m)\<rparr>)))"

fun product_edges :: "'n::len merge \<Rightarrow> nat \<Rightarrow> (('l, 'n) lab_edge \<times> ('l, 'n) lab_edge) list \<Rightarrow>
    ('l, 'n mark_t) product_run \<Rightarrow> twa_error + ('l, 'n mark_t) product_run" where
  "product_edges merge_acc src [] st = Inr st"
| "product_edges merge_acc src (e # es) st =
    bind_sum (product_edge merge_acc src e st) (product_edges merge_acc src es)"

definition edge_pairs :: "('l, 'n::len) twa_graph \<Rightarrow> ('l, 'n) twa_graph \<Rightarrow> nat \<times> nat \<Rightarrow>
    (('l, 'n) lab_edge \<times> ('l, 'n) lab_edge) list" where
  "edge_pairs L R = (\<lambda>(a, b). [(l, r). l \<leftarrow> out_edges L a, r \<leftarrow> out_edges R b])"

text \<open>The loop takes a fuel; the result is \<open>None\<close> when the aborter stops the construction.\<close>

fun product_loop :: "nat \<Rightarrow> ('l, 'n::len) twa_graph \<Rightarrow> ('l, 'n) twa_graph \<Rightarrow> 'n merge \<Rightarrow> (nat \<times> nat) option \<Rightarrow>
    ('l, 'n mark_t) product_run \<Rightarrow> twa_error + ('l, 'n mark_t) product_run option" where
  "product_loop 0 L R merge_acc aborter st = (if todo st = [] then Inr (Some st) else Inl Undefined)"
| "product_loop (Suc n) L R merge_acc aborter st =
    (case todo st of [] \<Rightarrow> Inr (Some st)
     | (x, src) # rest \<Rightarrow>
         if too_large aborter (res st) then Inr None
         else bind_sum (product_edges merge_acc src (edge_pairs L R x) (st\<lparr>todo := rest\<rparr>))
                (product_loop n L R merge_acc aborter))"

definition product_main :: "('l, 'n::len) twa_graph \<Rightarrow> ('l, 'n) twa_graph \<Rightarrow> nat \<Rightarrow> nat \<Rightarrow> ('l, 'n) twa_graph \<Rightarrow>
    'n merge \<Rightarrow> (nat \<times> nat) option \<Rightarrow> twa_error + ('l, 'n mark_t) product_run option" where
  "product_main L R left_state right_state r merge_acc aborter =
    (case product_new_state left_state right_state \<lparr>s2n = Map.empty, todo = [], product_states = [], res = r\<rparr> of (st, i) \<Rightarrow>
     bind_sum (set_init_state (res st) i) (\<lambda>r.
       let st = st\<lparr>res := r\<rparr> in
       if is_f (get_acceptance (twa_acc r)) then Inr (Some st)
       else product_loop (num_states (graph L) * num_states (graph R)) L R merge_acc aborter st))"

section \<open>Acceptance of the product\<close>

fun op_bool :: "prod_op \<Rightarrow> bool \<Rightarrow> bool \<Rightarrow> bool" where
  "op_bool And_acc a b = (a \<and> b)"
| "op_bool Or_acc a b = (a \<or> b)"
| "op_bool Xor_acc a b = (a \<noteq> b)"
| "op_bool Xnor_acc a b = (a = b)"

definition cond_is_t :: "'n::len cond \<Rightarrow> bool" where
  "cond_is_t a = is_t (get_acceptance a)"

definition cond_is_f :: "'n::len cond \<Rightarrow> bool" where
  "cond_is_f a = is_f (get_acceptance a)"

text \<open>The tests that decide whether the product of two weak automata has the condition \<open>t\<close> or \<open>f\<close>.\<close>

fun weak_true :: "prod_op \<Rightarrow> 'n::len cond \<Rightarrow> 'n cond \<Rightarrow> bool" where
  "weak_true And_acc l r = (cond_is_t l \<and> cond_is_t r)"
| "weak_true Or_acc l r = (cond_is_t l \<or> cond_is_t r)"
| "weak_true Xnor_acc l r = (cond_is_t l \<and> cond_is_t r \<or> cond_is_f l \<and> cond_is_f r)"
| "weak_true Xor_acc l r = (cond_is_t l \<and> cond_is_f r \<or> cond_is_f l \<and> cond_is_t r)"

fun weak_false :: "prod_op \<Rightarrow> 'n::len cond \<Rightarrow> 'n cond \<Rightarrow> bool" where
  "weak_false And_acc l r = (cond_is_f l \<or> cond_is_f r)"
| "weak_false Or_acc l r = (cond_is_f l \<and> cond_is_f r)"
| "weak_false Xor_acc l r = (cond_is_t l \<and> cond_is_t r \<or> cond_is_f l \<and> cond_is_f r)"
| "weak_false Xnor_acc l r = (cond_is_t l \<and> cond_is_f r \<or> cond_is_f l \<and> cond_is_t r)"

definition choose_mark :: "prod_op \<Rightarrow> 'n::len cond \<Rightarrow> 'n cond \<Rightarrow> 'n mark_t \<Rightarrow> 'n mark_t \<Rightarrow> 'n merge" where
  "choose_mark op lacc racc accmark rejmark = (\<lambda>ml mr.
    Inr (if op_bool op (cond_accepting lacc ml) (cond_accepting racc mr) then accmark else rejmark))"

text \<open>The label \<open>weak_weak\<close>: the automaton with its condition, and the merge function.\<close>

definition weak_weak :: "prod_op \<Rightarrow> 'n::len cond \<Rightarrow> 'n cond \<Rightarrow> ('l, 'n) twa_graph \<Rightarrow> twa_error + ('l, 'n) twa_graph \<times> 'n merge" where
  "weak_weak op lacc racc r =
    (let r = update_props (set_weak (trival_of_bool True)) r in
     if is_co_buchi lacc \<and> (is_co_buchi racc \<or> num_sets racc = 0) \<or> num_sets lacc = 0 \<and> is_co_buchi racc
     then bind_sum (set_co_buchi r) (\<lambda>(m, r). Inr (r, choose_mark op lacc racc 0 m))
     else if weak_true op lacc racc
     then bind_sum (twa_set_acceptance r 0 code_t) (\<lambda>r. Inr (r, choose_mark op lacc racc 0 0))
     else if weak_false op lacc racc
     then bind_sum (twa_set_acceptance r 0 code_f) (\<lambda>r. Inr (r, choose_mark op lacc racc 0 0))
     else bind_sum (set_buchi r) (\<lambda>(m, r). Inr (r, choose_mark op lacc racc m 0)))"

text \<open>
  One argument is weak: the mark of the other one, or a mark that decides.  \<open>None\<close> stands for
  \<open>goto weak_weak\<close> and \<open>Some None\<close> for \<open>goto generalcase\<close>.
\<close>

definition half_weak :: "prod_op \<Rightarrow> 'n::len cond \<Rightarrow> 'n cond \<Rightarrow> ('n mark_t \<Rightarrow> 'n mark_t \<Rightarrow> 'n mark_t) option option" where
  "half_weak op weak_acc other =
    (case op of
       And_acc \<Rightarrow> (case unsat_mark other of (found, rejmark) \<Rightarrow>
         if \<not> found then None
         else Some (Some (\<lambda>mw m. if cond_accepting weak_acc mw then m else rejmark)))
     | Or_acc \<Rightarrow> (case sat_mark other of (found, accmark) \<Rightarrow>
         if \<not> found then None
         else Some (Some (\<lambda>mw m. if \<not> cond_accepting weak_acc mw then m else accmark)))
     | _ \<Rightarrow> if \<not> fst (unsat_mark other) \<or> \<not> fst (sat_mark other) then None else Some None)"

fun general_code :: "prod_op \<Rightarrow> 'n::len acc_code \<Rightarrow> 'n acc_code \<Rightarrow> 'n acc_code" where
  "general_code And_acc left_acc right_acc = and_code right_acc left_acc"
| "general_code Or_acc left_acc right_acc = or_code right_acc left_acc"
| "general_code Xor_acc left_acc right_acc =
    (let tmp = and_code (complement right_acc) left_acc
     in or_code (and_code right_acc (complement left_acc)) tmp)"
| "general_code Xnor_acc left_acc right_acc =
    (let tmp = and_code (complement right_acc) (complement left_acc)
     in or_code tmp (and_code right_acc left_acc))"

definition general_case :: "prod_op \<Rightarrow> 'n::len cond \<Rightarrow> 'n cond \<Rightarrow> ('l, 'n) twa_graph \<Rightarrow> twa_error + ('l, 'n) twa_graph \<times> 'n merge" where
  "general_case op lacc racc r =
    (let left_num = num_sets lacc in
     bind_sum (lift_acc (code_shl (get_acceptance racc) left_num)) (\<lambda>right_acc.
     bind_sum (twa_set_acceptance r (left_num + num_sets racc) (general_code op (get_acceptance lacc) right_acc))
       (\<lambda>r. Inr (r, \<lambda>ml mr. bind_sum (lift_acc (mark_shl mr left_num)) (\<lambda>m. Inr (ml OR m))))))"

definition product_acceptance :: "prod_op \<Rightarrow> ('l, 'n::len) twa_graph \<Rightarrow> ('l, 'n) twa_graph \<Rightarrow> ('l, 'n) twa_graph \<Rightarrow>
    twa_error + ('l, 'n) twa_graph \<times> 'n merge" where
  "product_acceptance op L R r =
    (let lacc = twa_acc L; racc = twa_acc R;
         leftweak = is_true (weak (props L)); rightweak = is_true (weak (props R)) in
     if leftweak \<and> rightweak then weak_weak op lacc racc r
     else if leftweak
     then (case half_weak op lacc racc of
             None \<Rightarrow> weak_weak op lacc racc r
           | Some None \<Rightarrow> general_case op lacc racc r
           | Some (Some f) \<Rightarrow> Inr (copy_acceptance_of r R, \<lambda>ml mr. Inr (f ml mr)))
     else if rightweak
     then (case half_weak op racc lacc of
             None \<Rightarrow> weak_weak op lacc racc r
           | Some None \<Rightarrow> general_case op lacc racc r
           | Some (Some f) \<Rightarrow> Inr (copy_acceptance_of r L, \<lambda>ml mr. Inr (f mr ml)))
     else general_case op lacc racc r)"

section \<open>The product\<close>

definition both :: "(bprop \<Rightarrow> trival) \<Rightarrow> ('l, 'n::len) twa_graph \<Rightarrow> ('l, 'n) twa_graph \<Rightarrow> bool" where
  "both f L R = is_true (trival_and (f (props L)) (f (props R)))"

definition product_props :: "('l, 'n::len) twa_graph \<Rightarrow> ('l, 'n) twa_graph \<Rightarrow> ('l, 'n) twa_graph \<Rightarrow> ('l, 'n) twa_graph" where
  "product_props L R r =
    (let yes = trival_of_bool True; no = trival_of_bool False in
     if cond_is_f (twa_acc r)
     then update_props (\<lambda>p. set_state_acc yes (set_terminal yes (set_stutter_invariant yes
            (set_complete no (set_universal yes p))))) r
     else update_props (\<lambda>p.
       let p = (if both universal L R then set_universal yes p else p);
           p = (if both complete_prop L R then set_complete yes p else p);
           p = (if both stutter_invariant L R then set_stutter_invariant yes p else p);
           p = (if both inherently_weak L R then set_inherently_weak yes p else p);
           p = (if both weak L R then set_weak yes p else p);
           p = (if both terminal L R then set_terminal yes p else p)
       in set_state_acc (trival_and (prop_state_acc L) (prop_state_acc R)) p) r)"

text \<open>The automaton comes with the named property \<open>product-states\<close>; \<open>None\<close> is the null pointer.\<close>

definition product_aux :: "('l, 'n::len) twa_graph \<Rightarrow> ('l, 'n) twa_graph \<Rightarrow> nat \<Rightarrow> nat \<Rightarrow> prod_op \<Rightarrow> (nat \<times> nat) option \<Rightarrow>
    twa_error + (('l, 'n) twa_graph \<times> (nat \<times> nat) list) option" where
  "product_aux L R left_state right_state op aborter =
    (if \<not> (is_existential (graph L) \<and> is_existential (graph R)) then Inl Alternating_automaton
     else if dict L \<noteq> dict R then Inl Different_dicts
     else bind_sum (product_acceptance op L R (copy_ap_of (copy_ap_of (make_twa_graph (dict L)) L) R))
       (\<lambda>(r, merge_acc). bind_sum (product_main L R left_state right_state r merge_acc aborter)
         (\<lambda>st. Inr (case st of None \<Rightarrow> None
            | Some st \<Rightarrow> Some (product_props L R (res st), product_states st)))))"

definition product_from :: "('l, 'n::len) twa_graph \<Rightarrow> ('l, 'n) twa_graph \<Rightarrow> nat \<Rightarrow> nat \<Rightarrow> (nat \<times> nat) option \<Rightarrow>
    twa_error + (('l, 'n) twa_graph \<times> (nat \<times> nat) list) option" where
  "product_from L R left_state right_state aborter = product_aux L R left_state right_state And_acc aborter"

definition product :: "('l, 'n::len) twa_graph \<Rightarrow> ('l, 'n) twa_graph \<Rightarrow> (nat \<times> nat) option \<Rightarrow>
    twa_error + (('l, 'n) twa_graph \<times> (nat \<times> nat) list) option" where
  "product L R aborter =
    bind_sum (get_init_state_number L) (\<lambda>l. bind_sum (get_init_state_number R) (\<lambda>r. product_from L R l r aborter))"

definition product_or_from :: "('l, 'n::len) twa_graph \<Rightarrow> ('l, 'n) twa_graph \<Rightarrow> nat \<Rightarrow> nat \<Rightarrow>
    twa_error + (('l, 'n) twa_graph \<times> (nat \<times> nat) list) option" where
  "product_or_from L R left_state right_state =
    bind_sum (complete L) (\<lambda>L. bind_sum (complete R) (\<lambda>R. product_aux L R left_state right_state Or_acc None))"

definition product_or :: "('l, 'n::len) twa_graph \<Rightarrow> ('l, 'n) twa_graph \<Rightarrow>
    twa_error + (('l, 'n) twa_graph \<times> (nat \<times> nat) list) option" where
  "product_or L R =
    bind_sum (get_init_state_number L) (\<lambda>l. bind_sum (get_init_state_number R) (\<lambda>r. product_or_from L R l r))"

text \<open>
  \<open>product_xor\<close> and \<open>product_xnor\<close> only differ in the operation; \<open>is_deterministic\<close> stores its answer in
  its argument.
\<close>

definition product_det :: "prod_op \<Rightarrow> ('l, 'n::len) twa_graph \<Rightarrow> ('l, 'n) twa_graph \<Rightarrow>
    twa_error + (('l, 'n) twa_graph \<times> (nat \<times> nat) list) option" where
  "product_det op L R =
    (case is_deterministic L of (dl, L) \<Rightarrow>
     if \<not> dl then Inl Not_deterministic
     else case is_deterministic R of (dr, R) \<Rightarrow>
     if \<not> dr then Inl Not_deterministic
     else bind_sum (complete L) (\<lambda>CL. bind_sum (complete R) (\<lambda>CR.
       bind_sum (get_init_state_number L) (\<lambda>l. bind_sum (get_init_state_number R) (\<lambda>r.
         product_aux CL CR l r op None)))))"

definition product_xor :: "('l, 'n::len) twa_graph \<Rightarrow> ('l, 'n) twa_graph \<Rightarrow>
    twa_error + (('l, 'n) twa_graph \<times> (nat \<times> nat) list) option" where
  "product_xor L R = product_det Xor_acc L R"

definition product_xnor :: "('l, 'n::len) twa_graph \<Rightarrow> ('l, 'n) twa_graph \<Rightarrow>
    twa_error + (('l, 'n) twa_graph \<times> (nat \<times> nat) list) option" where
  "product_xnor L R = product_det Xnor_acc L R"

section \<open>Invariant of the construction\<close>

text \<open>The edges of a pair of states, with pairs as destinations; \<open>mm\<close> is the mark of two edges.\<close>

definition pair_edge :: "('n mark_t \<Rightarrow> 'n mark_t \<Rightarrow> 'n mark_t) \<Rightarrow> ('l, 'n::len) lab_edge \<times> ('l, 'n) lab_edge \<Rightarrow>
    ((nat \<times> nat) \<times> ('l, 'n mark_t) edge_label) list" where
  "pair_edge mm = (\<lambda>(l, r). if e_cond l \<inter> e_cond r = {} then []
     else [((e_dst l, e_dst r), \<lparr>cond = e_cond l \<inter> e_cond r, acc = mm (e_acc l) (e_acc r)\<rparr>)])"

definition pair_succs :: "('n mark_t \<Rightarrow> 'n mark_t \<Rightarrow> 'n mark_t) \<Rightarrow> (('l, 'n::len) lab_edge \<times> ('l, 'n) lab_edge) list \<Rightarrow>
    ((nat \<times> nat) \<times> ('l, 'n mark_t) edge_label) list" where
  "pair_succs mm es = concat (map (pair_edge mm) es)"

text \<open>
  States below \<open>k\<close> have all their edges, state \<open>k\<close> has the edges \<open>xs\<close>, the others have none; the
  queue holds the states from \<open>q\<close> on.
\<close>

definition naming :: "('l, 'n::len mark_t) product_run \<Rightarrow> bool" where
  "naming st \<longleftrightarrow> wf_twa_graph (graph (res st)) \<and> num_states (graph (res st)) = length (product_states st) \<and>
    distinct (product_states st) \<and>
    (\<forall>x i. s2n st x = Some i \<longleftrightarrow> i < length (product_states st) \<and> product_states st ! i = x)"

definition named_succs :: "('l, 'n::len mark_t) product_run \<Rightarrow> nat \<Rightarrow> ((nat \<times> nat) \<times> ('l, 'n mark_t) edge_label) list" where
  "named_succs st i = map (\<lambda>(j, x). (product_states st ! j, x)) (succs (graph (res st)) i)"

definition product_inv :: "('l, 'n::len) twa_graph \<Rightarrow> ('l, 'n) twa_graph \<Rightarrow> ('n mark_t \<Rightarrow> 'n mark_t \<Rightarrow> 'n mark_t) \<Rightarrow>
    nat \<Rightarrow> nat \<Rightarrow> ((nat \<times> nat) \<times> ('l, 'n mark_t) edge_label) list \<Rightarrow> ('l, 'n mark_t) product_run \<Rightarrow> bool" where
  "product_inv L R mm q k xs st \<longleftrightarrow> naming st \<and>
    set (product_states st) \<subseteq> {..<num_states (graph L)} \<times> {..<num_states (graph R)} \<and>
    todo st = map (\<lambda>i. (product_states st ! i, i)) [q..<length (product_states st)] \<and> q \<le> length (product_states st) \<and>
    (\<forall>i < k. named_succs st i = pair_succs mm (edge_pairs L R (product_states st ! i))) \<and>
    (k < length (product_states st) \<longrightarrow> named_succs st k = xs) \<and>
    (\<forall>i. k < i \<and> i < length (product_states st) \<longrightarrow> named_succs st i = [])"

definition extends :: "('l, 'n::len mark_t) product_run \<Rightarrow> ('l, 'n mark_t) product_run \<Rightarrow> bool" where
  "extends st st' \<longleftrightarrow> (\<exists>ps. product_states st' = product_states st @ ps) \<and> twa_acc (res st') = twa_acc (res st) \<and>
    init_number (res st') = init_number (res st)"

lemma extends_refl: "extends st st"
  by (simp add: extends_def)

lemma extends_trans: "extends a b \<Longrightarrow> extends b c \<Longrightarrow> extends a c"
  unfolding extends_def by fastforce

lemma naming_named:
  assumes "naming st" "i < length (product_states st)" "(j, x) \<in> set (succs (graph (res st)) i)"
  shows "j < length (product_states st)"
  using assms succs_less [of "graph (res st)" i j] unfolding naming_def by force

lemma product_new_state_spec:
  assumes "product_inv L R mm q k xs st" "a < num_states (graph L)" "b < num_states (graph R)" "k < length (product_states st)"
  obtains st' n where "product_new_state a b st = (st', n)" "product_inv L R mm q k xs st'" "extends st st'"
    "n < length (product_states st')" "product_states st' ! n = (a, b)"
proof (cases "s2n st (a, b)")
  case (Some n)
  have nm: "naming st" using assms(1) unfolding product_inv_def by blast
  then have "n < length (product_states st)" "product_states st ! n = (a, b)" using Some unfolding naming_def by blast+
  moreover have "product_new_state a b st = (st, n)" using Some by (simp add: product_new_state_def)
  ultimately show thesis using assms(1) extends_refl by (intro that)
next
  case None
  let ?ps = "product_states st" and ?g = "graph (res st)"
  have nm: "wf_twa_graph ?g" "num_states ?g = length ?ps" "distinct ?ps"
    "\<And>x i. s2n st x = Some i \<longleftrightarrow> i < length ?ps \<and> ?ps ! i = x"
    and inv: "set ?ps \<subseteq> {..<num_states (graph L)} \<times> {..<num_states (graph R)}"
    "todo st = map (\<lambda>i. (?ps ! i, i)) [q..<length ?ps]" "q \<le> length ?ps"
    "\<And>i. i < k \<Longrightarrow> named_succs st i = pair_succs mm (edge_pairs L R (?ps ! i))"
    "named_succs st k = xs" "\<And>i. k < i \<Longrightarrow> i < length ?ps \<Longrightarrow> named_succs st i = []"
    using assms(1,4) unfolding product_inv_def naming_def by blast+
  define h where "h = fst (new_state ?g ())"
  have wg: "wf_graph ?g" "is_existential ?g" using nm(1) by (auto simp: wf_twa_graph_def)
  note sp = succs_new_state [OF wg(1), where d = "()", folded h_def]
  define st' where "st' = \<lparr>s2n = (s2n st)((a, b) \<mapsto> length ?ps), todo = todo st @ [((a, b), length ?ps)],
    product_states = ?ps @ [(a, b)], res = (res st)\<lparr>graph := h\<rparr>\<rparr>"
  have "twa_new_state (res st) = ((res st)\<lparr>graph := h\<rparr>, length ?ps)"
    using sp(3) nm(2) unfolding h_def by (cases "new_state ?g ()") (simp add: twa_new_state_def)
  then have eq: "product_new_state a b st = (st', length ?ps)"
    using None by (simp add: product_new_state_def st'_def Let_def)
  have new: "(a, b) \<notin> set ?ps"
  proof
    assume "(a, b) \<in> set ?ps"
    then obtain i where "i < length ?ps" "?ps ! i = (a, b)" by (metis in_set_conv_nth)
    then show False using nm(4) None by (metis option.distinct(1))
  qed
  have old: "named_succs st' i = named_succs st i" if "i < length ?ps" for i
  proof -
    have "naming st" using assms(1) unfolding product_inv_def by blast
    then have "?ps ! j = (?ps @ [(a, b)]) ! j" if "(j, x) \<in> set (succs ?g i)" for j x
      using naming_named [OF _ \<open>i < length ?ps\<close> that] by (simp add: nth_append)
    then show ?thesis using sp(4) [of i] that nm(2) by (auto simp: named_succs_def st'_def)
  qed
  have "wf_twa_graph h" using nm(1) sp unfolding wf_succs by (fastforce simp: less_Suc_eq)
  moreover have "s2n st' x = Some i \<longleftrightarrow> i < length (?ps @ [(a, b)]) \<and> (?ps @ [(a, b)]) ! i = x" for x i
    using nm(4) [of x i] new None by (auto simp: st'_def nth_append less_Suc_eq)
  ultimately have "naming st'" using nm(2,3) new sp(2) by (simp add: naming_def st'_def)
  moreover have "todo st' = map (\<lambda>i. (product_states st' ! i, i)) [q..<length (product_states st')]"
    using inv(2,3) by (auto simp: st'_def nth_append)
  moreover have "named_succs st' (length ?ps) = []"
    using sp(5) [of "length ?ps"] nm(2) by (simp add: named_succs_def st'_def)
  moreover have "product_states st' = ?ps @ [(a, b)]" by (simp add: st'_def)
  ultimately have "product_inv L R mm q k xs st'"
    unfolding product_inv_def using old inv assms(2-4) by (auto simp: nth_append less_Suc_eq)
  moreover have "extends st st'" by (simp add: extends_def st'_def)
  ultimately show thesis using eq by (intro that [of st' "length ?ps"]) (simp_all add: st'_def)
qed

lemma product_edge_spec:
  assumes "product_inv L R mm q k xs st" "k < length (product_states st)"
    and "e_dst l < num_states (graph L)" "e_dst r < num_states (graph R)"
    and "merge_acc (e_acc l) (e_acc r) = Inr (mm (e_acc l) (e_acc r))"
  obtains st' where "product_edge merge_acc k (l, r) st = Inr st'" "product_inv L R mm q k (xs @ pair_edge mm (l, r)) st'"
    "extends st st'"
proof (cases "e_cond l \<inter> e_cond r = {}")
  case True
  then show thesis using assms(1) extends_refl by (intro that [of st]) (simp_all add: product_edge_def pair_edge_def)
next
  case False
  let ?m = "mm (e_acc l) (e_acc r)" and ?c = "e_cond l \<inter> e_cond r"
  obtain s1 n where s1: "product_new_state (e_dst l) (e_dst r) st = (s1, n)" "product_inv L R mm q k xs s1" "extends st s1"
    "n < length (product_states s1)" "product_states s1 ! n = (e_dst l, e_dst r)"
    by (rule product_new_state_spec [OF assms(1,3,4,2)]) (rule that; assumption)
  have nm: "naming s1" using s1(2) unfolding product_inv_def by blast
  then have g: "wf_twa_graph (graph (res s1))" "num_states (graph (res s1)) = length (product_states s1)"
    unfolding naming_def by blast+
  have k: "k < length (product_states s1)" using assms(2) s1(3) unfolding extends_def by auto
  define h where "h = fst (new_edge (graph (res s1)) k n \<lparr>cond = ?c, acc = ?m\<rparr>)"
  have wg: "wf_graph (graph (res s1))" "is_existential (graph (res s1))" using g(1) by (auto simp: wf_twa_graph_def)
  have kn: "k < num_states (graph (res s1))" using k g(2) by simp
  note sp = succs_new_edge [OF wg(1) kn, where d = n and x = "\<lparr>cond = ?c, acc = ?m\<rparr>", folded h_def]
  define s2 where "s2 = s1\<lparr>res := (res s1)\<lparr>graph := h\<rparr>\<rparr>"
  have "fst (twa_new_edge (res s1) k n ?c ?m) = (res s1)\<lparr>graph := h\<rparr>"
    by (simp add: twa_new_edge_def h_def split: prod.split)
  then have eq: "product_edge merge_acc k (l, r) st = Inr s2"
    using False s1(1) assms(5) by (simp add: product_edge_def s2_def)
  have "wf_twa_graph h"
    using g s1(4) sp unfolding wf_succs by auto
  then have "naming s2" using nm sp(2) by (simp add: naming_def s2_def)
  moreover have "named_succs s2 i = named_succs s1 i @ (if i = k then [((e_dst l, e_dst r), \<lparr>cond = ?c, acc = ?m\<rparr>)] else [])"
    if "i < length (product_states s1)" for i
    using sp(3) [of i] that g(2) s1(5) by (simp add: named_succs_def s2_def)
  moreover have "product_states s2 = product_states s1" "todo s2 = todo s1" by (simp_all add: s2_def)
  ultimately have "product_inv L R mm q k (xs @ pair_edge mm (l, r)) s2"
    using s1(2) k False unfolding product_inv_def by (simp add: pair_edge_def)
  moreover have "extends st s2" using s1(3) by (simp add: extends_def s2_def)
  ultimately show thesis using eq by (intro that)
qed

lemma product_edges_spec:
  assumes "product_inv L R mm q k xs st" "k < length (product_states st)"
    and "\<forall>(l, r) \<in> set es. e_dst l < num_states (graph L) \<and> e_dst r < num_states (graph R) \<and>
      merge_acc (e_acc l) (e_acc r) = Inr (mm (e_acc l) (e_acc r))"
  shows "\<exists>st'. product_edges merge_acc k es st = Inr st' \<and> product_inv L R mm q k (xs @ pair_succs mm es) st' \<and> extends st st'"
  using assms
proof (induction es arbitrary: st xs)
  case Nil
  then show ?case by (simp add: pair_succs_def extends_refl)
next
  case (Cons e es)
  obtain l r where e: "e = (l, r)" by fastforce
  obtain s1 where s1: "product_edge merge_acc k (l, r) st = Inr s1" "product_inv L R mm q k (xs @ pair_edge mm (l, r)) s1" "extends st s1"
    using product_edge_spec [OF Cons.prems(1,2), of l r merge_acc] Cons.prems(3) unfolding e by auto
  have "k < length (product_states s1)" using Cons.prems(2) s1(3) unfolding extends_def by auto
  from Cons.IH [OF s1(2) this] Cons.prems(3) obtain s2 where "product_edges merge_acc k es s1 = Inr s2"
    "product_inv L R mm q k ((xs @ pair_edge mm (l, r)) @ pair_succs mm es) s2" "extends s1 s2" by auto
  with s1 show ?case unfolding e using extends_trans by (auto simp: pair_succs_def)
qed

text \<open>
  The queue holds each pair once, so that as many iterations as there are pairs of states are enough.
\<close>

definition merges_ok :: "('l, 'n::len) twa_graph \<Rightarrow> ('l, 'n) twa_graph \<Rightarrow> 'n merge \<Rightarrow> ('n mark_t \<Rightarrow> 'n mark_t \<Rightarrow> 'n mark_t) \<Rightarrow> bool" where
  "merges_ok L R merge_acc mm \<longleftrightarrow> (\<forall>ml mr. merge_acc ml mr = Inr (mm ml mr))"

lemma edge_pairs_bounds:
  assumes "wf_twa L" "wf_twa R" "a < num_states (graph L)" "b < num_states (graph R)" "(l, r) \<in> set (edge_pairs L R (a, b))"
  shows "e_dst l < num_states (graph L)" "e_dst r < num_states (graph R)"
proof -
  have "e_dst t < num_states (graph A)" if "wf_twa A" "c < num_states (graph A)" "t \<in> set (out_edges A c)" for A :: "('a, 'b) twa_graph" and t c
    using succs_less [of "graph A" c "e_dst t"] that unfolding wf_twa_def out_edges_def succs_def by force
  then show "e_dst l < num_states (graph L)" "e_dst r < num_states (graph R)"
    using assms unfolding edge_pairs_def by auto
qed

lemma product_inv_count:
  assumes "product_inv L R mm q k xs st"
  shows "length (product_states st) \<le> num_states (graph L) * num_states (graph R)"
proof -
  let ?B = "{..<num_states (graph L)} \<times> {..<num_states (graph R)}"
  have "set (product_states st) \<subseteq> ?B" "distinct (product_states st)"
    using assms unfolding product_inv_def naming_def by blast+
  then have "length (product_states st) \<le> card ?B"
    by (metis card_mono distinct_card finite_SigmaI finite_lessThan)
  then show ?thesis by simp
qed

lemma product_loop_spec:
  assumes wf: "wf_twa L" "wf_twa R" "merges_ok L R merge_acc mm"
    and "product_inv L R mm k k [] st" "num_states (graph L) * num_states (graph R) \<le> k + n"
  shows "\<exists>r. product_loop n L R merge_acc aborter st = Inr r \<and> (aborter = None \<longrightarrow> r \<noteq> None) \<and>
    (\<forall>st'. r = Some st' \<longrightarrow> extends st st' \<and> product_inv L R mm (length (product_states st')) (length (product_states st')) [] st')"
  using assms(4,5)
proof (induction n arbitrary: k st)
  case 0
  have "k \<le> length (product_states st)" using 0(1) unfolding product_inv_def by blast
  with product_inv_count [OF 0(1)] 0(2) have "k = length (product_states st)" by simp
  moreover from this have "todo st = []" using 0(1) unfolding product_inv_def by simp
  ultimately show ?case using 0(1) extends_refl by auto
next
  case (Suc n)
  let ?ps = "product_states st"
  have todo: "todo st = map (\<lambda>i. (?ps ! i, i)) [k..<length ?ps]" and k: "k \<le> length ?ps"
    and sub: "set ?ps \<subseteq> {..<num_states (graph L)} \<times> {..<num_states (graph R)}"
    using Suc.prems(1) unfolding product_inv_def by blast+
  show ?case
  proof (cases "k = length ?ps")
    case True
    then show ?thesis using todo Suc.prems(1) extends_refl by auto
  next
    case False
    then have kl: "k < length ?ps" using k by simp
    obtain a b where ab: "?ps ! k = (a, b)" by fastforce
    have bounds: "a < num_states (graph L)" "b < num_states (graph R)" using nth_mem [OF kl] sub unfolding ab by auto
    let ?rest = "map (\<lambda>i. (?ps ! i, i)) [Suc k..<length ?ps]"
    have td: "todo st = ((a, b), k) # ?rest" unfolding todo using kl ab by (simp add: upt_conv_Cons)
    show ?thesis
    proof (cases "too_large aborter (res st)")
      case True
      then have "aborter \<noteq> None" by (auto simp: too_large_def split: option.splits)
      with True td show ?thesis by simp
    next
      case False
      have "product_inv L R mm (Suc k) k [] (st\<lparr>todo := ?rest\<rparr>)"
        using Suc.prems(1) kl unfolding product_inv_def naming_def named_succs_def by simp
      moreover have "\<forall>(l, r) \<in> set (edge_pairs L R (a, b)). e_dst l < num_states (graph L) \<and> e_dst r < num_states (graph R) \<and>
        merge_acc (e_acc l) (e_acc r) = Inr (mm (e_acc l) (e_acc r))"
        using edge_pairs_bounds [OF wf(1,2) bounds] wf(3) unfolding merges_ok_def by blast
      ultimately obtain s1 where s1: "product_edges merge_acc k (edge_pairs L R (a, b)) (st\<lparr>todo := ?rest\<rparr>) = Inr s1"
        "product_inv L R mm (Suc k) k (pair_succs mm (edge_pairs L R (a, b))) s1" "extends st s1"
        using product_edges_spec [of L R mm "Suc k" k "[]" "st\<lparr>todo := ?rest\<rparr>" "edge_pairs L R (a, b)" merge_acc] kl
        by (auto simp: extends_def)
      have k1: "k < length (product_states s1)" "product_states s1 ! k = (a, b)"
        using s1(3) kl ab unfolding extends_def by (auto simp: nth_append)
      have "product_inv L R mm (Suc k) (Suc k) [] s1"
        using s1(2) k1 unfolding product_inv_def by (auto simp: less_Suc_eq)
      from Suc.IH [OF this] Suc.prems(2) obtain r where r: "product_loop n L R merge_acc aborter s1 = Inr r"
        "aborter = None \<longrightarrow> r \<noteq> None"
        "\<forall>st'. r = Some st' \<longrightarrow> extends s1 st' \<and> product_inv L R mm (length (product_states st')) (length (product_states st')) [] st'"
        by auto
      have "product_loop (Suc n) L R merge_acc aborter st = Inr r" using td False s1(1) r(1) by simp
      with r(2,3) s1(3) extends_trans show ?thesis by blast
    qed
  qed
qed

text \<open>The start: one state, for the pair of the initial states.\<close>

definition blank :: "('l, 'n::len) twa_graph \<Rightarrow> bool" where
  "blank r \<longleftrightarrow> graph r = digraph0 \<lparr>cond = {}, acc = 0\<rparr>"

lemma product_start:
  assumes "blank r" "ls < num_states (graph L)" "rs < num_states (graph R)"
  obtains st where "product_new_state ls rs \<lparr>s2n = Map.empty, todo = [], product_states = [], res = r\<rparr> = (st, 0)"
    "product_inv L R mm 0 0 [] st" "product_states st = [(ls, rs)]" "twa_acc (res st) = twa_acc r"
    "succs (graph (res st)) 0 = []"
proof -
  let ?g = "digraph0 \<lparr>cond = {}, acc = 0\<rparr> :: (unit, ('a, 'b mark_t) edge_label) digraph"
  define h where "h = fst (new_state ?g ())"
  have "wf_graph ?g" by (rule wf_digraph0)
  note sp = succs_new_state [OF this, where d = "()", folded h_def]
  have n0: "num_states ?g = 0" "is_existential ?g" by (simp_all add: num_states_def digraph0_def is_existential_def)
  define st where "st = \<lparr>s2n = Map.empty((ls, rs) \<mapsto> 0), todo = [((ls, rs), 0)], product_states = [(ls, rs)], res = r\<lparr>graph := h\<rparr>\<rparr>"
  have "twa_new_state r = (r\<lparr>graph := h\<rparr>, 0)"
    using sp(3) n0 assms(1) unfolding h_def blank_def by (cases "new_state ?g ()") (simp add: twa_new_state_def)
  then have eq: "product_new_state ls rs \<lparr>s2n = Map.empty, todo = [], product_states = [], res = r\<rparr> = (st, 0)"
    by (simp add: product_new_state_def st_def Let_def)
  have "wf_twa_graph h" using sp n0 unfolding wf_succs by simp
  then have "naming st" using sp(2) n0 by (auto simp: naming_def st_def)
  moreover have "succs h 0 = []" using sp(5) [of 0] n0 by simp
  ultimately have inv: "product_inv L R mm 0 0 [] st" using assms(2,3) by (simp add: product_inv_def st_def named_succs_def)
  show thesis
    by (rule that [OF eq inv]) (use \<open>succs h 0 = []\<close> in \<open>simp_all add: st_def\<close>)
qed

section \<open>Paths of the product\<close>

definition pair_delta :: "('l, 'n::len) twa_graph \<Rightarrow> ('l, 'n) twa_graph \<Rightarrow> nat \<times> nat \<Rightarrow> 'l \<Rightarrow> 'n mark_t \<times> 'n mark_t \<Rightarrow> nat \<times> nat \<Rightarrow> bool" where
  "pair_delta L R = (\<lambda>(p, q) a (ml, mr) (p', q'). delta (graph L) p a ml p' \<and> delta (graph R) q a mr q')"

definition finished :: "('l, 'n::len) twa_graph \<Rightarrow> ('l, 'n) twa_graph \<Rightarrow> ('n mark_t \<Rightarrow> 'n mark_t \<Rightarrow> 'n mark_t) \<Rightarrow>
    ('l, 'n mark_t) product_run \<Rightarrow> bool" where
  "finished L R mm st \<longleftrightarrow> product_inv L R mm (length (product_states st)) (length (product_states st)) [] st"

definition is_pair :: "('l, 'n::len) twa_graph \<Rightarrow> ('l, 'n) twa_graph \<Rightarrow> ('n mark_t \<Rightarrow> 'n mark_t \<Rightarrow> 'n mark_t) \<Rightarrow>
    ('l, 'n mark_t) product_run \<Rightarrow> nat \<times> nat \<Rightarrow> nat \<Rightarrow> bool" where
  "is_pair L R mm st x i \<longleftrightarrow> finished L R mm st \<and> i < length (product_states st) \<and> product_states st ! i = x"

lemma out_edges_delta:
  "p < num_states (graph A) \<Longrightarrow>
    delta (graph A) p a m q \<longleftrightarrow> (\<exists>e \<in> set (out_edges A p). e_dst e = q \<and> a \<in> e_cond e \<and> e_acc e = m)"
  by (auto simp: delta_def out_edges_def)

lemma pair_succs_mem:
  "(pq, x) \<in> set (pair_succs mm (edge_pairs L R (p, q))) \<longleftrightarrow>
    (\<exists>l \<in> set (out_edges L p). \<exists>r \<in> set (out_edges R q). e_cond l \<inter> e_cond r \<noteq> {} \<and> pq = (e_dst l, e_dst r) \<and>
       x = \<lparr>cond = e_cond l \<inter> e_cond r, acc = mm (e_acc l) (e_acc r)\<rparr>)"
  by (auto simp: pair_succs_def edge_pairs_def pair_edge_def split: if_splits)

lemma finished_facts:
  assumes "finished L R mm st" "i < length (product_states st)"
  shows "num_states (graph (res st)) = length (product_states st)"
    "fst (product_states st ! i) < num_states (graph L)" "snd (product_states st ! i) < num_states (graph R)"
    "named_succs st i = pair_succs mm (edge_pairs L R (product_states st ! i))"
    "naming st"
proof -
  have "set (product_states st) \<subseteq> {..<num_states (graph L)} \<times> {..<num_states (graph R)}" and nm: "naming st"
    and succ: "named_succs st i = pair_succs mm (edge_pairs L R (product_states st ! i))"
    using assms unfolding finished_def product_inv_def by blast+
  then show "fst (product_states st ! i) < num_states (graph L)" "snd (product_states st ! i) < num_states (graph R)"
    using nth_mem [OF assms(2)] by auto
  show "naming st" by (rule nm)
  then show "num_states (graph (res st)) = length (product_states st)" unfolding naming_def by blast
  show "named_succs st i = pair_succs mm (edge_pairs L R (product_states st ! i))" by (rule succ)
qed

lemma product_step_fwd:
  assumes "is_pair L R mm st (p, q) i" "delta (graph L) p a ml p'" "delta (graph R) q a mr q'"
  shows "\<exists>j. delta (graph (res st)) i a (mm ml mr) j \<and> is_pair L R mm st (p', q') j"
proof -
  have f: "finished L R mm st" "i < length (product_states st)" "product_states st ! i = (p, q)"
    using assms(1) unfolding is_pair_def by blast+
  note ff = finished_facts [OF f(1,2), unfolded f(3) fst_conv snd_conv]
  obtain l r where lr: "l \<in> set (out_edges L p)" "e_dst l = p'" "a \<in> e_cond l" "e_acc l = ml"
    "r \<in> set (out_edges R q)" "e_dst r = q'" "a \<in> e_cond r" "e_acc r = mr"
    using assms(2,3) unfolding out_edges_delta [OF ff(2)] out_edges_delta [OF ff(3)] by blast
  let ?x = "\<lparr>cond = e_cond l \<inter> e_cond r, acc = mm ml mr\<rparr>"
  have "((p', q'), ?x) \<in> set (named_succs st i)"
    unfolding ff(4) pair_succs_mem using lr by blast
  then obtain j where j: "(j, ?x) \<in> set (succs (graph (res st)) i)" "product_states st ! j = (p', q')"
    unfolding named_succs_def by auto
  moreover have "j < length (product_states st)" using naming_named [OF ff(5) f(2) j(1)] .
  ultimately have "is_pair L R mm st (p', q') j" using f(1) by (simp add: is_pair_def)
  moreover have "delta (graph (res st)) i a (mm ml mr) j"
    unfolding delta_succs ff(1) using f(2) j(1) lr(3,7) by (intro conjI exI [of _ ?x]) simp_all
  ultimately show ?thesis by blast
qed

lemma product_step_bwd:
  assumes "is_pair L R mm st (p, q) i" "delta (graph (res st)) i a m j"
  shows "\<exists>p' q' ml mr. delta (graph L) p a ml p' \<and> delta (graph R) q a mr q' \<and> m = mm ml mr \<and> is_pair L R mm st (p', q') j"
proof -
  have f: "finished L R mm st" "i < length (product_states st)" "product_states st ! i = (p, q)"
    using assms(1) unfolding is_pair_def by blast+
  note ff = finished_facts [OF f(1,2), unfolded f(3) fst_conv snd_conv]
  obtain x where x: "(j, x) \<in> set (succs (graph (res st)) i)" "a \<in> cond x" "acc x = m"
    using assms(2) unfolding delta_succs by blast
  then have "(product_states st ! j, x) \<in> set (named_succs st i)" unfolding named_succs_def by force
  then obtain l r where lr: "l \<in> set (out_edges L p)" "r \<in> set (out_edges R q)" "product_states st ! j = (e_dst l, e_dst r)"
    "x = \<lparr>cond = e_cond l \<inter> e_cond r, acc = mm (e_acc l) (e_acc r)\<rparr>"
    unfolding ff(4) pair_succs_mem by blast
  have "delta (graph L) p a (e_acc l) (e_dst l)" "delta (graph R) q a (e_acc r) (e_dst r)"
    unfolding out_edges_delta [OF ff(2)] out_edges_delta [OF ff(3)] using lr x(2) by auto
  moreover have "is_pair L R mm st (e_dst l, e_dst r) j"
    using f(1) naming_named [OF ff(5) f(2) x(1)] lr(3) by (simp add: is_pair_def)
  moreover have "m = mm (e_acc l) (e_acc r)" using x(3) lr(4) by simp
  ultimately show ?thesis by blast
qed

interpretation product_fwd: path_simulation "pair_delta L R" "delta (graph (res st))" "is_pair L R mm st"
  "\<lambda>(ml, mr) m. m = mm ml mr" for L R mm st
proof
  fix x i a and ms :: "'b word \<times> 'b word" and x'
  assume "is_pair L R mm st x i" "pair_delta L R x a ms x'"
  then show "\<exists>j n. delta (graph (res st)) i a n j \<and> (case ms of (ml, mr) \<Rightarrow> \<lambda>m. m = mm ml mr) n \<and> is_pair L R mm st x' j"
    using product_step_fwd by (cases x; cases x'; cases ms) (fastforce simp: pair_delta_def)
qed

interpretation product_bwd: path_simulation "delta (graph (res st))" "pair_delta L R" "\<lambda>i x. is_pair L R mm st x i"
  "\<lambda>m (ml, mr). m = mm ml mr" for L R mm st
proof
  fix i x a and m :: "'b word" and j
  assume a: "is_pair L R mm st x i" "delta (graph (res st)) i a m j"
  obtain p q where x: "x = (p, q)" by fastforce
  obtain p' q' ml mr where "delta (graph L) p a ml p'" "delta (graph R) q a mr q'" "m = mm ml mr" "is_pair L R mm st (p', q') j"
    using product_step_bwd [OF a(1) [unfolded x] a(2)] by blast
  then show "\<exists>x' ms. pair_delta L R x a ms x' \<and> (case ms of (ml, mr) \<Rightarrow> m = mm ml mr) \<and> is_pair L R mm st x' j"
    by (intro exI [of _ "(p', q')"] exI [of _ "(ml, mr)"]) (simp add: pair_delta_def x)
qed

text \<open>The runs of the product are the pairs of runs over the same word.\<close>

definition both_runs :: "('l, 'n::len) twa_graph \<Rightarrow> ('l, 'n) twa_graph \<Rightarrow> nat \<Rightarrow> nat \<Rightarrow> (nat \<Rightarrow> 'l) \<Rightarrow>
    (nat \<Rightarrow> 'n mark_t) \<Rightarrow> (nat \<Rightarrow> 'n mark_t) \<Rightarrow> bool" where
  "both_runs L R ls rs w ml mr \<longleftrightarrow> (\<exists>pl pr. pl 0 = ls \<and> pr 0 = rs \<and>
     is_path (delta (graph L)) w pl ml \<and> is_path (delta (graph R)) w pr mr)"

lemma product_runs:
  assumes "is_pair L R mm st (ls, rs) 0"
  shows "(\<exists>p m. p 0 = 0 \<and> is_path (delta (graph (res st))) w p m \<and> P m) \<longleftrightarrow>
    (\<exists>ml mr. both_runs L R ls rs w ml mr \<and> P (\<lambda>i. mm (ml i) (mr i)))"
proof
  assume "\<exists>p m. p 0 = 0 \<and> is_path (delta (graph (res st))) w p m \<and> P m"
  then obtain p m where p: "p 0 = 0" "is_path (delta (graph (res st))) w p m" "P m" by blast
  have "is_pair L R mm st (ls, rs) (p 0)" using assms p(1) by simp
  from product_bwd.lift_path [OF p(2) this] obtain x ms where x: "x 0 = (ls, rs)" "is_path (pair_delta L R) w x ms"
    "\<forall>i. m i = mm (fst (ms i)) (snd (ms i))" by (auto simp: case_prod_unfold)
  have "both_runs L R ls rs w (fst \<circ> ms) (snd \<circ> ms)"
    unfolding both_runs_def
    by (intro exI [of _ "fst \<circ> x"] exI [of _ "snd \<circ> x"]) (use x in \<open>auto simp: is_path_def pair_delta_def case_prod_unfold\<close>)
  moreover have "m = (\<lambda>i. mm ((fst \<circ> ms) i) ((snd \<circ> ms) i))" using x(3) by auto
  ultimately show "\<exists>ml mr. both_runs L R ls rs w ml mr \<and> P (\<lambda>i. mm (ml i) (mr i))" using p(3) by blast
next
  assume "\<exists>ml mr. both_runs L R ls rs w ml mr \<and> P (\<lambda>i. mm (ml i) (mr i))"
  then obtain ml mr pl pr where r: "pl 0 = ls" "pr 0 = rs" "is_path (delta (graph L)) w pl ml" "is_path (delta (graph R)) w pr mr"
    "P (\<lambda>i. mm (ml i) (mr i))" unfolding both_runs_def by blast
  have "is_path (pair_delta L R) w (\<lambda>i. (pl i, pr i)) (\<lambda>i. (ml i, mr i))"
    using r(3,4) by (simp add: is_path_def pair_delta_def)
  from product_fwd.lift_path [OF this, of mm st 0] assms r(1,2) obtain p m where
    p: "p 0 = 0" "is_path (delta (graph (res st))) w p m" "\<forall>i. m i = mm (ml i) (mr i)" by auto
  then have "m = (\<lambda>i. mm (ml i) (mr i))" by auto
  with p r(5) show "\<exists>p m. p 0 = 0 \<and> is_path (delta (graph (res st))) w p m \<and> P m" by blast
qed

lemma is_f_rejects:
  assumes "wf_acc a" "cond_is_f a"
  shows "\<not> cond_accepting a n"
proof -
  obtain t where t: "get_acceptance a = enc t" "tree_ok t" "plain t" using assms(1) unfolding wf_acc_def by blast
  then have "t = TFin 0" using assms(2) is_f_enc [OF t(2)] by (simp add: cond_is_f_def)
  then show ?thesis unfolding cond_accepting_def t(1) using accepting_enc [OF t(2,3), of n bot] by simp
qed

lemma is_t_accepts:
  assumes "wf_acc a" "cond_is_t a"
  shows "cond_accepting a n"
proof -
  obtain t where t: "get_acceptance a = enc t" "tree_ok t" "plain t" using assms(1) unfolding wf_acc_def by blast
  then have "t = TT \<or> t = TInf 0" using assms(2) is_t_enc [OF t(2)] by (simp add: cond_is_t_def)
  then show ?thesis unfolding cond_accepting_def t(1) using accepting_enc [OF t(2,3), of n bot] by auto
qed

lemma product_main_spec:
  assumes wf: "wf_twa L" "wf_twa R" "merges_ok L R merge_acc mm" "blank r" "ls < num_states (graph L)" "rs < num_states (graph R)"
    and rc: "wf_acc (twa_acc r)"
  shows "\<exists>x. product_main L R ls rs r merge_acc aborter = Inr x \<and> (aborter = None \<longrightarrow> x \<noteq> None) \<and>
    (\<forall>st. x = Some st \<longrightarrow> wf_twa (res st) \<and> twa_acc (res st) = twa_acc r \<and> product_states st ! 0 = (ls, rs) \<and>
      num_states (graph (res st)) = length (product_states st) \<and>
      length (product_states st) \<le> num_states (graph L) * num_states (graph R) \<and>
      (\<forall>w. accepts (res st) w \<longleftrightarrow> (\<exists>ml mr. both_runs L R ls rs w ml mr \<and>
         cond_accepting (twa_acc r) (inf_mark (\<lambda>i. mm (ml i) (mr i))))))"
proof -
  obtain s0 where s0: "product_new_state ls rs \<lparr>s2n = Map.empty, todo = [], product_states = [], res = r\<rparr> = (s0, 0)"
    "product_inv L R mm 0 0 [] s0" "product_states s0 = [(ls, rs)]" "twa_acc (res s0) = twa_acc r" "succs (graph (res s0)) 0 = []"
    by (rule product_start [OF wf(4-6)]) (rule that; assumption)
  define s1 where "s1 = s0\<lparr>res := (res s0)\<lparr>init_number := 0\<rparr>\<rparr>"
  have inv: "product_inv L R mm 0 0 [] s1" using s0(2) by (simp add: product_inv_def naming_def named_succs_def s1_def)
  have n1: "num_states (graph (res s1)) = 1" "wf_twa_graph (graph (res s1))"
    using inv s0(3) unfolding product_inv_def naming_def by (simp_all add: s1_def)
  have "set_init_state (res s0) 0 = Inr ((res s0)\<lparr>init_number := 0\<rparr>)"
    using n1 by (simp add: set_init_state_def is_univ_dest_def univ_bit_def s1_def)
  then have main: "product_main L R ls rs r merge_acc aborter = (if cond_is_f (twa_acc r) then Inr (Some s1)
      else product_loop (num_states (graph L) * num_states (graph R)) L R merge_acc aborter s1)"
    unfolding product_main_def s0(1) by (simp add: s0(4) s1_def cond_is_f_def Let_def)
  show ?thesis
  proof (cases "cond_is_f (twa_acc r)")
    case True
    note rej = is_f_rejects [OF rc True]
    have "wf_twa (res s1)" using n1 by (simp add: wf_twa_def s1_def)
    moreover have "\<not> accepts (res s1) w" for w using rej s0(4) unfolding accepts_def by (simp add: s1_def)
    moreover have "product_states s1 = [(ls, rs)]" "twa_acc (res s1) = twa_acc r" by (simp_all add: s1_def s0)
    moreover have "1 \<le> num_states (graph L) * num_states (graph R)" using wf(5,6) by (simp add: Suc_le_eq)
    ultimately show ?thesis unfolding main using True rej n1(1) by simp
  next
    case False
    obtain x where x: "product_loop (num_states (graph L) * num_states (graph R)) L R merge_acc aborter s1 = Inr x"
      "aborter = None \<longrightarrow> x \<noteq> None"
      "\<forall>st. x = Some st \<longrightarrow> extends s1 st \<and> product_inv L R mm (length (product_states st)) (length (product_states st)) [] st"
      using product_loop_spec [OF wf(1-3) inv, of "num_states (graph L) * num_states (graph R)" aborter] by auto
    have "wf_twa (res st) \<and> twa_acc (res st) = twa_acc r \<and> product_states st ! 0 = (ls, rs) \<and>
        num_states (graph (res st)) = length (product_states st) \<and>
        length (product_states st) \<le> num_states (graph L) * num_states (graph R) \<and>
        (\<forall>w. accepts (res st) w \<longleftrightarrow> (\<exists>ml mr. both_runs L R ls rs w ml mr \<and>
          cond_accepting (twa_acc r) (inf_mark (\<lambda>i. mm (ml i) (mr i)))))" if st: "x = Some st" for st
    proof -
      have e: "extends s1 st" and i: "product_inv L R mm (length (product_states st)) (length (product_states st)) [] st"
        using x(3) st by blast+
      obtain ps where ps: "product_states st = (ls, rs) # ps" using e s0(3) unfolding extends_def by (auto simp: s1_def)
      have a: "twa_acc (res st) = twa_acc r" "init_number (res st) = 0" using e s0(4) unfolding extends_def by (auto simp: s1_def)
      have "naming st" using i unfolding product_inv_def by blast
      then have g: "wf_twa_graph (graph (res st))" "num_states (graph (res st)) = length (product_states st)"
        unfolding naming_def by blast+
      have "is_pair L R mm st (ls, rs) 0" using i ps by (simp add: is_pair_def finished_def)
      from product_runs [OF this, of _ "\<lambda>m. cond_accepting (twa_acc r) (inf_mark m)"]
      show ?thesis unfolding accepts_def a using g ps product_inv_count [OF i] a(2) by (simp add: wf_twa_def)
    qed
    then show ?thesis unfolding main using False x(1,2) by auto
  qed
qed

section \<open>Acceptance of the merged marks\<close>

lemma inf_mark_tail:
  assumes "\<And>j. i \<le> j \<Longrightarrow> m j = m' j"
  shows "inf_mark m = (inf_mark m' :: 'n::len mark_t)"
proof (rule bit_word_eqI)
  fix b assume b: "b < LENGTH('n)"
  have "{n. bit (m n) b} - {..<i} = {n. bit (m' n) b} - {..<i}" using assms by auto
  then have "inf_often m b \<longleftrightarrow> inf_often m' b"
    unfolding inf_often_def by (metis finite_lessThan finite_Diff2)
  then show "bit (inf_mark m) b \<longleftrightarrow> bit (inf_mark m') b" using b by simp
qed

text \<open>
  The interface of a merge of marks: \<open>PL\<close> and \<open>PR\<close> say which runs the arguments have, \<open>op\<close> is the
  operation to implement, \<open>rc\<close> the acceptance condition of the result.
\<close>

locale merged_acceptance =
  fixes la ra rc :: "'n::len cond" and mm :: "'n mark_t \<Rightarrow> 'n mark_t \<Rightarrow> 'n mark_t" and comb :: "bool \<Rightarrow> bool \<Rightarrow> bool"
    and PL PR :: "(nat \<Rightarrow> 'n mark_t) \<Rightarrow> bool"
  assumes law: "PL ml \<Longrightarrow> PR mr \<Longrightarrow>
    cond_accepting rc (inf_mark (\<lambda>i. mm (ml i) (mr i))) \<longleftrightarrow> comb (cond_accepting la (inf_mark ml)) (cond_accepting ra (inf_mark mr))"
begin

lemma merged_runs:
  assumes "\<And>pl ml. is_path (delta (graph L)) w pl ml \<Longrightarrow> PL ml" "\<And>pr mr. is_path (delta (graph R)) w pr mr \<Longrightarrow> PR mr"
  shows "(\<exists>ml mr. both_runs L R ls rs w ml mr \<and> cond_accepting rc (inf_mark (\<lambda>i. mm (ml i) (mr i)))) \<longleftrightarrow>
    (\<exists>ml mr. both_runs L R ls rs w ml mr \<and> comb (cond_accepting la (inf_mark ml)) (cond_accepting ra (inf_mark mr)))"
proof -
  have "cond_accepting rc (inf_mark (\<lambda>i. mm (ml i) (mr i))) \<longleftrightarrow> comb (cond_accepting la (inf_mark ml)) (cond_accepting ra (inf_mark mr))"
    if "both_runs L R ls rs w ml mr" for ml mr
    using that assms law unfolding both_runs_def by blast
  then show ?thesis by blast
qed

end

text \<open>A run on which the acceptance of the single marks is that of the run, from some point on.\<close>

definition decided :: "'n::len cond \<Rightarrow> (nat \<Rightarrow> 'n mark_t) \<Rightarrow> bool" where
  "decided a m \<longleftrightarrow> (\<exists>i. \<forall>j \<ge> i. cond_accepting a (m j) = cond_accepting a (inf_mark m))"

lemma settles_decided: "settles m \<Longrightarrow> decided a m"
  unfolding settles_def decided_def using inf_mark_eventually by metis

lemma constant_decided: "(\<And>n. cond_accepting a n = b) \<Longrightarrow> decided a m"
  by (simp add: decided_def)

definition chosen :: "prod_op \<Rightarrow> 'n::len cond \<Rightarrow> 'n cond \<Rightarrow> 'n mark_t \<Rightarrow> 'n mark_t \<Rightarrow> 'n mark_t \<Rightarrow> 'n mark_t \<Rightarrow> 'n mark_t" where
  "chosen op la ra accmark rejmark ml mr =
    (if op_bool op (cond_accepting la ml) (cond_accepting ra mr) then accmark else rejmark)"

definition choice_ok :: "prod_op \<Rightarrow> 'n::len cond \<Rightarrow> 'n cond \<Rightarrow> 'n cond \<Rightarrow> 'n mark_t \<Rightarrow> 'n mark_t \<Rightarrow> bool" where
  "choice_ok op la ra rc accmark rejmark \<longleftrightarrow>
    (\<forall>m n. cond_accepting rc (chosen op la ra accmark rejmark m n) \<longleftrightarrow> op_bool op (cond_accepting la m) (cond_accepting ra n))"

interpretation weak_choice: merged_acceptance la ra rc "chosen op la ra accmark rejmark" "op_bool op"
  "\<lambda>m. decided la m \<and> choice_ok op la ra rc accmark rejmark" "decided ra" for la ra rc op accmark rejmark
proof
  fix ml mr :: "nat \<Rightarrow> 'a word"
  assume "decided la ml \<and> choice_ok op la ra rc accmark rejmark" "decided ra mr"
  then obtain i k where ik: "\<And>j. i \<le> j \<Longrightarrow> cond_accepting la (ml j) = cond_accepting la (inf_mark ml)"
    "\<And>j. k \<le> j \<Longrightarrow> cond_accepting ra (mr j) = cond_accepting ra (inf_mark mr)" and ok: "choice_ok op la ra rc accmark rejmark"
    unfolding decided_def by blast
  have "inf_mark (\<lambda>j. chosen op la ra accmark rejmark (ml j) (mr j)) = chosen op la ra accmark rejmark (inf_mark ml) (inf_mark mr)"
    by (rule inf_mark_eventually [of "max i k"]) (simp add: chosen_def ik)
  then show "cond_accepting rc (inf_mark (\<lambda>j. chosen op la ra accmark rejmark (ml j) (mr j))) \<longleftrightarrow>
      op_bool op (cond_accepting la (inf_mark ml)) (cond_accepting ra (inf_mark mr))"
    using ok unfolding choice_ok_def by simp
qed

text \<open>The mark of the other argument, or a mark that decides: for \<open>and\<close> a rejecting one, for \<open>or\<close> an accepting one.\<close>

definition override :: "prod_op \<Rightarrow> 'n::len cond \<Rightarrow> 'n mark_t \<Rightarrow> 'n mark_t \<Rightarrow> 'n mark_t \<Rightarrow> 'n mark_t" where
  "override op weak_acc d mw m = (if cond_accepting weak_acc mw = (op = And_acc) then m else d)"

definition override_ok :: "prod_op \<Rightarrow> 'n::len cond \<Rightarrow> 'n mark_t \<Rightarrow> bool" where
  "override_ok op other d \<longleftrightarrow> op = And_acc \<and> \<not> cond_accepting other d \<or> op = Or_acc \<and> cond_accepting other d"

lemma override_law:
  assumes "decided weak_acc mw" "override_ok op other d"
  shows "cond_accepting other (inf_mark (\<lambda>i. override op weak_acc d (mw i) (m i))) \<longleftrightarrow>
    op_bool op (cond_accepting weak_acc (inf_mark mw)) (cond_accepting other (inf_mark m))"
proof -
  obtain i where i: "\<And>j. i \<le> j \<Longrightarrow> cond_accepting weak_acc (mw j) = cond_accepting weak_acc (inf_mark mw)"
    using assms(1) unfolding decided_def by blast
  show ?thesis
  proof (cases "cond_accepting weak_acc (inf_mark mw) = (op = And_acc)")
    case True
    then have "inf_mark (\<lambda>i. override op weak_acc d (mw i) (m i)) = inf_mark m"
      by (intro inf_mark_tail [of i]) (simp add: override_def i)
    then show ?thesis using True assms(2) unfolding override_ok_def by auto
  next
    case False
    then have "inf_mark (\<lambda>i. override op weak_acc d (mw i) (m i)) = d"
      by (intro inf_mark_eventually [of i]) (simp add: override_def i)
    then show ?thesis using False assms(2) unfolding override_ok_def by auto
  qed
qed

lemma op_bool_swap: "override_ok op other d \<Longrightarrow> op_bool op a b = op_bool op b a"
  unfolding override_ok_def by auto

interpretation weak_left: merged_acceptance la ra ra "override op la d" "op_bool op"
  "\<lambda>m. decided la m \<and> override_ok op ra d" "\<lambda>m. True" for la ra op d
  by unfold_locales (use override_law in blast)

interpretation weak_right: merged_acceptance la ra la "\<lambda>ml mr. override op ra d mr ml" "op_bool op"
  "\<lambda>m. override_ok op la d" "decided ra" for la ra op d
proof
  fix ml mr :: "nat \<Rightarrow> 'a word"
  assume a: "override_ok op la d" "decided ra mr"
  from override_law [OF a(2,1), of ml] op_bool_swap [OF a(1)]
  show "cond_accepting la (inf_mark (\<lambda>i. override op ra d (mr i) (ml i))) \<longleftrightarrow>
      op_bool op (cond_accepting la (inf_mark ml)) (cond_accepting ra (inf_mark mr))" by simp
qed

text \<open>The general case: the sets of the right argument follow those of the left one.\<close>

definition below :: "nat \<Rightarrow> (nat \<Rightarrow> 'n::len mark_t) \<Rightarrow> bool" where
  "below k m \<longleftrightarrow> (\<forall>i. bits (m i) \<subseteq> {..<k})"

definition appended :: "prod_op \<Rightarrow> 'n::len cond \<Rightarrow> 'n cond \<Rightarrow> 'n cond \<Rightarrow> bool" where
  "appended op la ra rc \<longleftrightarrow> num_sets la + num_sets ra \<le> LENGTH('n) \<and>
    (\<forall>m n. (\<forall>i < num_sets la. bit m i = bit n i) \<longrightarrow> cond_accepting la m = cond_accepting la n) \<and>
    (\<forall>m n. (\<forall>i < num_sets ra. bit m i = bit n i) \<longrightarrow> cond_accepting ra m = cond_accepting ra n) \<and>
    (\<forall>m. cond_accepting rc m \<longleftrightarrow> op_bool op (cond_accepting la m) (cond_accepting ra (drop_bit (num_sets la) m)))"

interpretation side_by_side: merged_acceptance la ra rc "\<lambda>ml mr. ml OR push_bit (num_sets la) mr" "op_bool op"
  "\<lambda>m. below (num_sets la) m \<and> appended op la ra rc" "\<lambda>m. True" for la ra rc op
proof
  fix ml mr :: "nat \<Rightarrow> 'a word"
  let ?k = "num_sets la" and ?m = "\<lambda>i. ml i OR push_bit (num_sets la) (mr i)"
  assume "below ?k ml \<and> appended op la ra rc"
  then have low: "\<And>i b. bit (ml i) b \<Longrightarrow> b < ?k" and len: "?k + num_sets ra \<le> LENGTH('a)"
    and la: "\<And>m n. (\<And>i. i < ?k \<Longrightarrow> bit m i = bit n i) \<Longrightarrow> cond_accepting la m = cond_accepting la n"
    and ra: "\<And>m n. (\<And>i. i < num_sets ra \<Longrightarrow> bit m i = bit n i) \<Longrightarrow> cond_accepting ra m = cond_accepting ra n"
    and rc: "\<And>m. cond_accepting rc m \<longleftrightarrow> op_bool op (cond_accepting la m) (cond_accepting ra (drop_bit ?k m))"
    unfolding below_def appended_def bits_def by blast+
  have "inf_often ?m b \<longleftrightarrow> inf_often ml b" if "b < ?k" for b
    using that unfolding inf_often_def by (simp add: bit_or_iff bit_push_bit_iff)
  then have "cond_accepting la (inf_mark ?m) = cond_accepting la (inf_mark ml)" by (intro la) simp
  moreover have "inf_often ?m (?k + b) \<longleftrightarrow> inf_often mr b" if "b < num_sets ra" for b
  proof -
    have "bit (?m i) (?k + b) \<longleftrightarrow> bit (mr i) b" for i
      using low [of i "?k + b"] that len by (auto simp: bit_or_iff bit_push_bit_iff)
    then show ?thesis unfolding inf_often_def by simp
  qed
  then have "cond_accepting ra (drop_bit ?k (inf_mark ?m)) = cond_accepting ra (inf_mark mr)"
    using len by (intro ra) (simp add: bit_drop_bit_eq)
  ultimately show "cond_accepting rc (inf_mark ?m) \<longleftrightarrow>
      op_bool op (cond_accepting la (inf_mark ml)) (cond_accepting ra (inf_mark mr))" unfolding rc by simp
qed

section \<open>The condition and the merge function of each branch\<close>

lemma denotes_wf_acc: "denotes (get_acceptance a) n P \<Longrightarrow> wf_acc a"
  unfolding denotes_def wf_acc_def by blast

lemma denotes_cond: "denotes (get_acceptance a) n P \<Longrightarrow> cond_accepting a m = P m"
  unfolding cond_accepting_def by (rule denotes_accepting)

lemma twa_set_acceptance_ok:
  fixes r :: "('l, 'n::len) twa_graph"
  assumes "n \<le> LENGTH('n)" "LENGTH('n) < 2 ^ 32"
  obtains a where "twa_set_acceptance r n c = Inr (r\<lparr>twa_acc := a\<rparr>)" "get_acceptance a = c"
proof -
  obtain a :: "'n cond" where "acc_cond n c = Inr a" "get_acceptance a = c"
    using acc_cond_ok [OF assms] by blast
  then show thesis by (intro that [of a]) (simp_all add: twa_set_acceptance_def)
qed

lemma one_set_ok:
  fixes r :: "('l, 'n::len) twa_graph"
  assumes "LENGTH('n) < 2 ^ 32"
  obtains a b where "set_buchi r = Inr (1, r\<lparr>twa_acc := a\<rparr>)" "denotes (get_acceptance a) 2 (\<lambda>m. bit m 0)"
    "set_co_buchi r = Inr (1, r\<lparr>twa_acc := b\<rparr>)" "denotes (get_acceptance b) 2 (\<lambda>m. \<not> bit m 0)"
proof -
  have one: "bits (1 :: 'n mark_t) = {0}" by (auto simp: bits_def bit_1_iff)
  have len: "1 \<le> LENGTH('n)" by (simp add: Suc_le_eq)
  obtain a where a: "twa_set_acceptance r 1 (inf_code 1) = Inr (r\<lparr>twa_acc := a\<rparr>)" "get_acceptance a = inf_code 1"
    by (rule twa_set_acceptance_ok [OF len assms])
  obtain b where b: "twa_set_acceptance r 1 (fin 1) = Inr (r\<lparr>twa_acc := b\<rparr>)" "get_acceptance b = fin 1"
    by (rule twa_set_acceptance_ok [OF len assms])
  have bu: "buchi = Inr (inf_code (1 :: 'n mark_t))" "cobuchi = Inr (fin (1 :: 'n mark_t))"
    by (simp_all add: buchi_def cobuchi_def inf1_def fin1_def)
  have "set_buchi r = Inr (1, r\<lparr>twa_acc := a\<rparr>)" "set_co_buchi r = Inr (1, r\<lparr>twa_acc := b\<rparr>)"
    unfolding set_buchi_def set_co_buchi_def bu lift_acc.simps bind_sum.simps a(1) b(1) by simp_all
  moreover have "denotes (get_acceptance a) 2 (\<lambda>m. bit m 0)" "denotes (get_acceptance b) 2 (\<lambda>m. \<not> bit m 0)"
    unfolding a(2) b(2) using denotes_inf [of "1 :: 'n mark_t"] denotes_fin [of "1 :: 'n mark_t"] by (simp_all only: one) (simp_all add: bits_def)
  ultimately show thesis by (intro that)
qed

lemma weak_true_always: "wf_acc la \<Longrightarrow> wf_acc ra \<Longrightarrow> weak_true op la ra \<Longrightarrow> op_bool op (cond_accepting la m) (cond_accepting ra n)"
  using is_t_accepts [of la] is_t_accepts [of ra] is_f_rejects [of la] is_f_rejects [of ra] by (cases op) auto

lemma weak_false_never: "wf_acc la \<Longrightarrow> wf_acc ra \<Longrightarrow> weak_false op la ra \<Longrightarrow> \<not> op_bool op (cond_accepting la m) (cond_accepting ra n)"
  using is_t_accepts [of la] is_t_accepts [of ra] is_f_rejects [of la] is_f_rejects [of ra] by (cases op) auto

lemma weak_weak_spec:
  fixes r :: "('l, 'n::len) twa_graph"
  assumes "wf_acc la" "wf_acc ra" "LENGTH('n) < 2 ^ 32"
  obtains r' a b where "weak_weak op la ra r = Inr (r', \<lambda>ml mr. Inr (chosen op la ra a b ml mr))"
    "choice_ok op la ra (twa_acc r') a b" "wf_acc (twa_acc r')" "graph r' = graph r"
proof -
  let ?r = "update_props (set_weak (trival_of_bool True)) r"
  have choose: "choose_mark op la ra a b = (\<lambda>ml mr. Inr (chosen op la ra a b ml mr))" for a b
    by (simp add: choose_mark_def chosen_def)
  obtain a b where ab: "set_buchi ?r = Inr (1, ?r\<lparr>twa_acc := a\<rparr>)" "denotes (get_acceptance a) 2 (\<lambda>m. bit m 0)"
    "set_co_buchi ?r = Inr (1, ?r\<lparr>twa_acc := b\<rparr>)" "denotes (get_acceptance b) 2 (\<lambda>m. \<not> bit m 0)"
    by (rule one_set_ok [OF assms(3)])
  obtain t where t: "twa_set_acceptance ?r 0 code_t = Inr (?r\<lparr>twa_acc := t\<rparr>)" "get_acceptance t = code_t"
    by (rule twa_set_acceptance_ok [OF le0 assms(3)])
  obtain f where f: "twa_set_acceptance ?r 0 code_f = Inr (?r\<lparr>twa_acc := f\<rparr>)" "get_acceptance f = code_f"
    by (rule twa_set_acceptance_ok [OF le0 assms(3)])
  define co where "co \<longleftrightarrow> is_co_buchi la \<and> (is_co_buchi ra \<or> num_sets ra = 0) \<or> num_sets la = 0 \<and> is_co_buchi ra"
  note ww = weak_weak_def [of op la ra r, unfolded Let_def, folded co_def]
  consider (co) co | (yes) "\<not> co" "weak_true op la ra" | (no) "\<not> co" "\<not> weak_true op la ra" "weak_false op la ra"
    | (buchi) "\<not> co" "\<not> weak_true op la ra" "\<not> weak_false op la ra" by blast
  then show thesis
  proof cases
    case co
    show thesis
      by (rule that [of "?r\<lparr>twa_acc := b\<rparr>" 0 1])
         (use co ab denotes_cond [OF ab(4)] in \<open>simp_all add: ww choose choice_ok_def chosen_def denotes_wf_acc\<close>)
  next
    case yes
    have "denotes (get_acceptance t) 0 (\<lambda>_. True)" unfolding t(2) by (rule denotes_t)
    note d = denotes_wf_acc [OF this] denotes_cond [OF this]
    show thesis
      by (rule that [of "?r\<lparr>twa_acc := t\<rparr>" 0 0])
         (use yes t d weak_true_always [OF assms(1,2) yes(2)] in \<open>simp_all add: ww choose choice_ok_def chosen_def\<close>)
  next
    case no
    have "denotes (get_acceptance f) 2 (\<lambda>_. False)" unfolding f(2) by (rule denotes_f)
    note d = denotes_wf_acc [OF this] denotes_cond [OF this]
    show thesis
      by (rule that [of "?r\<lparr>twa_acc := f\<rparr>" 0 0])
         (use no f d weak_false_never [OF assms(1,2) no(3)] in \<open>simp_all add: ww choose choice_ok_def chosen_def\<close>)
  next
    case buchi
    show thesis
      by (rule that [of "?r\<lparr>twa_acc := a\<rparr>" 1 0])
         (use buchi ab denotes_cond [OF ab(2)] in \<open>simp_all add: ww choose choice_ok_def chosen_def denotes_wf_acc\<close>)
  qed
qed

lemma denotes_complement:
  assumes "denotes c n P"
  shows "denotes (complement c) (max 2 n) (\<lambda>m. \<not> P m)"
proof -
  obtain t where t: "tree_ok t" "plain t" "c = enc t" "length c \<le> n" "\<And>m. tree_sat (bit m) bot t = P m"
    using assms by (auto simp: denotes_def)
  obtain t' where "complement (enc t) = enc t'" "tree_ok t'" "length (enc t') \<le> max 2 (length (enc t))"
    "\<And>I J. tree_sat I J t' \<longleftrightarrow> \<not> tree_sat I J t" "plain t \<Longrightarrow> plain t'"
    using complement_enc [OF t(1)] by blast
  then show ?thesis using t unfolding denotes_def by (intro exI [of _ t']) auto
qed

lemma general_code_denotes:
  assumes "denotes lc K P" "denotes rc K Q" "2 \<le> K" "K < 2 ^ 13"
  shows "denotes (general_code op lc rc) (4 * K + 3) (\<lambda>m. op_bool op (P m) (Q m))"
proof -
  note [simp] = max_absorb2 [OF assms(3)]
  have c: "denotes (complement lc) K (\<lambda>m. \<not> P m)" "denotes (complement rc) K (\<lambda>m. \<not> Q m)"
    using denotes_complement [OF assms(1)] denotes_complement [OF assms(2)] by simp_all
  have two: "denotes (and_code a b) (2 * K + 1) (\<lambda>m. A m \<and> B m)" if "denotes a K A" "denotes b K B" for a b :: "'a acc_code" and A B
    by (rule denotes_le [OF denotes_and [OF that]]) (use assms(3,4) in auto)
  have four: "denotes (or_code a b) (4 * K + 3) (\<lambda>m. A m \<or> B m)"
    if "denotes a (2 * K + 1) A" "denotes b (2 * K + 1) B" for a b :: "'a acc_code" and A B
    by (rule denotes_le [OF denotes_or [OF that]]) (use assms(3,4) in auto)
  show ?thesis
  proof (cases op)
    case And_acc
    have "denotes (and_code rc lc) (4 * K + 3) (\<lambda>m. P m \<and> Q m)"
      by (rule denotes_le [OF two [OF assms(2,1)]]) auto
    then show ?thesis using And_acc by simp
  next
    case Or_acc
    have "denotes (or_code rc lc) (4 * K + 3) (\<lambda>m. P m \<or> Q m)"
      by (rule denotes_le [OF denotes_or [OF assms(2,1)]]) (use assms(3,4) in auto)
    then show ?thesis using Or_acc by simp
  next
    case Xor_acc
    show ?thesis
      using four [OF two [OF assms(2) c(1)] two [OF c(2) assms(1)]] Xor_acc
      by (simp add: Let_def) (erule denotes_le; auto)
  next
    case Xnor_acc
    show ?thesis
      using four [OF two [OF c(2,1)] two [OF assms(2,1)]] Xnor_acc
      by (simp add: Let_def) (erule denotes_le; auto)
  qed
qed

lemma wf_acc_denotes: "wf_acc a \<Longrightarrow> length (get_acceptance a) \<le> n \<Longrightarrow> denotes (get_acceptance a) n (cond_accepting a)"
  unfolding wf_acc_def denotes_def cond_accepting_def by (elim exE conjE) (metis accepting_enc)

lemma accepting_used:
  assumes "wf_acc a" "bits (used_sets (get_acceptance a)) \<subseteq> {..<k}" "\<And>i. i < k \<Longrightarrow> bit m i = bit n i"
  shows "cond_accepting a m = cond_accepting a n"
proof -
  obtain t where t: "get_acceptance a = enc t" "tree_ok t" "plain t" using assms(1) unfolding wf_acc_def by blast
  have "i < k" if "l \<in> leaves t" "bit (leaf_mark l) i" for i l
    using that assms(2) unfolding t(1) used_sets_enc [OF t(2)] by blast
  then have "tree_sat (bit m) bot t = tree_sat (bit n) bot t" by (intro sat_cong) (use assms(3) in blast)
  then show ?thesis unfolding cond_accepting_def t(1) accepting_enc [OF t(2,3), of _ bot] .
qed

lemma code_shl_denotes:
  fixes a :: "'n::len cond"
  assumes "wf_acc a" "bits (used_sets (get_acceptance a)) \<subseteq> {..<n}" "k < LENGTH('n)" "k + n \<le> LENGTH('n)"
  obtains c where "code_shl (get_acceptance a) k = Inr c"
    "denotes c (length (get_acceptance a)) (\<lambda>m. cond_accepting a (drop_bit k m))"
proof -
  obtain t where t: "get_acceptance a = enc t" "tree_ok t" "plain t" using assms(1) unfolding wf_acc_def by blast
  let ?u = "map_acc_formula (push_bit k) t"
  have ok: "tree_ok ?u" "plain ?u" using t shift_ok by (auto simp: tree_ok_def shift_plain)
  have fits: "i + k < LENGTH('n)" if "l \<in> leaves t" "bit (leaf_mark l) i" for l i
  proof -
    have "i < n" using that assms(2) unfolding t(1) used_sets_enc [OF t(2)] by blast
    with assms(4) show ?thesis by simp
  qed
  have "tree_sat (bit m) bot ?u \<longleftrightarrow> cond_accepting a (drop_bit k m)" for m
  proof -
    have "tree_sat (bit m) bot ?u \<longleftrightarrow> tree_sat (\<lambda>i. bit m (i + k)) (\<lambda>i. bot (i + k)) t" by (rule shift_sat) (rule fits)
    also have "\<dots> \<longleftrightarrow> tree_sat (bit (drop_bit k m)) bot t"
      by (rule sat_cong) (simp add: bit_drop_bit_eq add.commute)
    finally show ?thesis unfolding cond_accepting_def t(1) accepting_enc [OF t(2,3), of _ bot] .
  qed
  then have "denotes (enc ?u) (length (get_acceptance a)) (\<lambda>m. cond_accepting a (drop_bit k m))"
    unfolding denotes_def using ok t(1) by (intro exI [of _ ?u]) simp
  with code_shl_enc [OF t(2) assms(3)] show thesis unfolding t(1) by (rule that [unfolded t(1)])
qed

lemma general_case_spec:
  fixes r :: "('l, 'n::len) twa_graph"
  assumes l: "wf_acc la" "bits (used_sets (get_acceptance la)) \<subseteq> {..<num_sets la}" "length (get_acceptance la) < 2 ^ 12"
    and r: "wf_acc ra" "bits (used_sets (get_acceptance ra)) \<subseteq> {..<num_sets ra}" "length (get_acceptance ra) < 2 ^ 12"
    and len: "num_sets la < LENGTH('n)" "num_sets la + num_sets ra \<le> LENGTH('n)" "LENGTH('n) < 2 ^ 32"
  obtains r' where "general_case op la ra r = Inr (r', \<lambda>ml mr. Inr (ml OR push_bit (num_sets la) mr))"
    "appended op la ra (twa_acc r')" "wf_acc (twa_acc r')" "graph r' = graph r"
proof -
  obtain c where c: "code_shl (get_acceptance ra) (num_sets la) = Inr c"
    "denotes c (length (get_acceptance ra)) (\<lambda>m. cond_accepting ra (drop_bit (num_sets la) m))"
    by (rule code_shl_denotes [OF r(1,2) len(1,2)])
  let ?g = "general_code op (get_acceptance la) c"
  obtain a where a: "twa_set_acceptance r (num_sets la + num_sets ra) ?g = Inr (r\<lparr>twa_acc := a\<rparr>)" "get_acceptance a = ?g"
    by (rule twa_set_acceptance_ok [OF len(2,3)])
  have "denotes (get_acceptance a) (4 * 2 ^ 12 + 3)
      (\<lambda>m. op_bool op (cond_accepting la m) (cond_accepting ra (drop_bit (num_sets la) m)))"
    unfolding a(2)
    by (rule general_code_denotes [OF wf_acc_denotes [OF l(1)] denotes_le [OF c(2)]]) (use l(3) r(3) in simp_all)
  note d = denotes_cond [OF this] denotes_wf_acc [OF this]
  have "appended op la ra a"
    unfolding appended_def using len(2) d(1) accepting_used [OF l(1,2)] accepting_used [OF r(1,2)] by blast
  moreover have "general_case op la ra r = Inr (r\<lparr>twa_acc := a\<rparr>, \<lambda>ml mr. Inr (ml OR push_bit (num_sets la) mr))"
    unfolding general_case_def Let_def c(1) lift_acc.simps bind_sum.simps a(1) using len(1) by (simp add: mark_shl_def)
  ultimately show thesis using d(2) by (intro that [of "r\<lparr>twa_acc := a\<rparr>"]) simp_all
qed

section \<open>Language of the product\<close>

text \<open>
  The arguments: well-formed automata whose conditions were built by the connectives, whose marks use
  declared sets, and that are weak when they are declared weak or very weak (the marks of a run are
  eventually constant).
\<close>

definition wf_operand :: "('l, 'n::len) twa_graph \<Rightarrow> bool" where
  "wf_operand A \<longleftrightarrow> wf_twa A \<and> cond_ok (twa_acc A) \<and> well_marked A \<and>
    (is_true (weak (props A)) \<or> is_true (very_weak (props A)) \<longrightarrow> settling A)"

lemma wf_operand_facts:
  assumes "wf_operand A"
  shows "wf_twa A" "wf_acc (twa_acc A)" "wf_sat (twa_acc A)" "length (get_acceptance (twa_acc A)) < 2 ^ 12"
    "bits (used_sets (get_acceptance (twa_acc A))) \<subseteq> {..<num_sets (twa_acc A)}"
    "is_path (delta (graph A)) w p m \<Longrightarrow> below (num_sets (twa_acc A)) m"
    "is_true (weak (props A)) \<Longrightarrow> is_path (delta (graph A)) w p m \<Longrightarrow> settles m"
proof -
  show "wf_twa A" "wf_acc (twa_acc A)" "wf_sat (twa_acc A)" "length (get_acceptance (twa_acc A)) < 2 ^ 12"
    using assms unfolding wf_operand_def cond_ok_def wf_sat_def wf_acc_def by blast+
  show "bits (used_sets (get_acceptance (twa_acc A))) \<subseteq> {..<num_sets (twa_acc A)}"
    using assms unfolding wf_operand_def cond_ok_def wf_sat_def by (elim conjE) simp
  have mark: "bits m \<subseteq> {..<num_sets (twa_acc A)}" if d: "delta (graph A) p a m q" for p a m q
  proof -
    have "p < num_states (graph A)" "m \<in> marks (succs (graph A) p)" using d unfolding delta_succs marks_def by force+
    then show ?thesis using assms unfolding wf_operand_def well_marked_def by blast
  qed
  show "below (num_sets (twa_acc A)) m" if "is_path (delta (graph A)) w p m"
    using mark that unfolding is_path_def below_def by blast
  show "settles m" if "is_true (weak (props A))" "is_path (delta (graph A)) w p m"
    using assms that unfolding wf_operand_def settling_def by blast
qed

definition sound_merge :: "prod_op \<Rightarrow> ('l, 'n::len) twa_graph \<Rightarrow> ('l, 'n) twa_graph \<Rightarrow> 'n cond \<Rightarrow> ('n mark_t \<Rightarrow> 'n mark_t \<Rightarrow> 'n mark_t) \<Rightarrow> bool" where
  "sound_merge op L R rc mm \<longleftrightarrow> (\<forall>ls rs w.
    (\<exists>ml mr. both_runs L R ls rs w ml mr \<and> cond_accepting rc (inf_mark (\<lambda>i. mm (ml i) (mr i)))) \<longleftrightarrow>
    (\<exists>ml mr. both_runs L R ls rs w ml mr \<and>
       op_bool op (cond_accepting (twa_acc L) (inf_mark ml)) (cond_accepting (twa_acc R) (inf_mark mr))))"

lemma half_weak_spec:
  assumes "wf_sat other"
  shows "half_weak op weak_acc other = None \<Longrightarrow> decided other m"
    "half_weak op weak_acc other = Some (Some f) \<Longrightarrow> \<exists>d. override_ok op other d \<and> f = override op weak_acc d"
proof -
  obtain fs s fu u where su: "sat_mark other = (fs, s)" "unsat_mark other = (fu, u)" by fastforce
  note sat = sat_unsat_mark_spec [OF assms su(1) [unfolded sat_mark_def]]
    and unsat = sat_unsat_mark_spec [OF assms su(2) [unfolded unsat_mark_def]]
  show "decided other m" if "half_weak op weak_acc other = None"
    using that sat unsat su constant_decided [of other True m] constant_decided [of other False m]
    by (cases op) (auto simp: half_weak_def split: if_splits)
  show "\<exists>d. override_ok op other d \<and> f = override op weak_acc d" if "half_weak op weak_acc other = Some (Some f)"
  proof (cases op)
    case And_acc
    then have "fu" "f = override op weak_acc u" using that su by (auto simp: half_weak_def override_def fun_eq_iff split: if_splits)
    then show ?thesis using unsat And_acc by (auto simp: override_ok_def)
  next
    case Or_acc
    then have "fs" "f = (\<lambda>mw m. if \<not> cond_accepting weak_acc mw then m else s)"
      using that su by (auto simp: half_weak_def split: if_splits)
    moreover from this Or_acc have "f = override op weak_acc s" by (simp add: override_def fun_eq_iff)
    ultimately show ?thesis using sat Or_acc by (auto simp: override_ok_def)
  qed (use that su in \<open>auto simp: half_weak_def split: if_splits\<close>)
qed

lemma weak_weak_sound:
  fixes L R :: "('l, 'n::len) twa_graph"
  assumes "wf_operand L" "wf_operand R" "LENGTH('n) < 2 ^ 32"
    and "\<And>w p m. is_path (delta (graph L)) w p m \<Longrightarrow> decided (twa_acc L) m"
    and "\<And>w p m. is_path (delta (graph R)) w p m \<Longrightarrow> decided (twa_acc R) m"
  obtains r' merge mm where "weak_weak op (twa_acc L) (twa_acc R) r = Inr (r', merge)" "merges_ok L R merge mm"
    "sound_merge op L R (twa_acc r') mm" "wf_acc (twa_acc r')" "graph r' = graph r"
proof -
  obtain r' a b where r: "weak_weak op (twa_acc L) (twa_acc R) r = Inr (r', \<lambda>ml mr. Inr (chosen op (twa_acc L) (twa_acc R) a b ml mr))"
    "choice_ok op (twa_acc L) (twa_acc R) (twa_acc r') a b" "wf_acc (twa_acc r')" "graph r' = graph r"
    by (rule weak_weak_spec [OF wf_operand_facts(2) [OF assms(1)] wf_operand_facts(2) [OF assms(2)] assms(3)])
  have sm: "sound_merge op L R (twa_acc r') (chosen op (twa_acc L) (twa_acc R) a b)"
    unfolding sound_merge_def by (intro allI weak_choice.merged_runs) (use assms(4,5) r(2) in blast)+
  show thesis by (rule that [OF r(1) _ sm r(3,4)]) (simp add: merges_ok_def)
qed

lemma general_case_sound:
  fixes L R :: "('l, 'n::len) twa_graph"
  assumes "wf_operand L" "wf_operand R" "LENGTH('n) < 2 ^ 32"
    and "num_sets (twa_acc L) < LENGTH('n)" "num_sets (twa_acc L) + num_sets (twa_acc R) \<le> LENGTH('n)"
  obtains r' merge mm where "general_case op (twa_acc L) (twa_acc R) r = Inr (r', merge)" "merges_ok L R merge mm"
    "sound_merge op L R (twa_acc r') mm" "wf_acc (twa_acc r')" "graph r' = graph r"
proof -
  note l = wf_operand_facts [OF assms(1)] and rr = wf_operand_facts [OF assms(2)]
  let ?mm = "\<lambda>ml mr. ml OR push_bit (num_sets (twa_acc L)) mr"
  obtain r' where r: "general_case op (twa_acc L) (twa_acc R) r = Inr (r', \<lambda>ml mr. Inr (?mm ml mr))"
    "appended op (twa_acc L) (twa_acc R) (twa_acc r')" "wf_acc (twa_acc r')" "graph r' = graph r"
    by (rule general_case_spec [OF l(2,5,4) rr(2,5,4) assms(4,5,3)])
  have sm: "sound_merge op L R (twa_acc r') ?mm"
    unfolding sound_merge_def by (intro allI side_by_side.merged_runs) (use l(6) r(2) in blast)+
  show thesis by (rule that [OF r(1) _ sm r(3,4)]) (simp add: merges_ok_def)
qed

lemma product_acceptance_sound:
  fixes L R :: "('l, 'n::len) twa_graph"
  assumes ops: "wf_operand L" "wf_operand R" and len: "LENGTH('n) < 2 ^ 32"
    "num_sets (twa_acc L) < LENGTH('n)" "num_sets (twa_acc L) + num_sets (twa_acc R) \<le> LENGTH('n)"
  obtains r' merge mm where "product_acceptance op L R r = Inr (r', merge)" "merges_ok L R merge mm"
    "sound_merge op L R (twa_acc r') mm" "wf_acc (twa_acc r')" "graph r' = graph r"
proof -
  let ?la = "twa_acc L" and ?ra = "twa_acc R"
  note l = wf_operand_facts [OF ops(1)] and rr = wf_operand_facts [OF ops(2)]
  obtain g mg kg where g: "general_case op ?la ?ra r = Inr (g, mg)" "merges_ok L R mg kg"
    "sound_merge op L R (twa_acc g) kg" "wf_acc (twa_acc g)" "graph g = graph r"
    by (rule general_case_sound [OF ops len])
  note result = that
  have ww: thesis if dl: "\<And>w p m. is_path (delta (graph L)) w p m \<Longrightarrow> decided ?la m"
    and dr: "\<And>w p m. is_path (delta (graph R)) w p m \<Longrightarrow> decided ?ra m"
    and eq: "product_acceptance op L R r = weak_weak op ?la ?ra r"
  proof -
    obtain r' merge mm where "weak_weak op ?la ?ra r = Inr (r', merge)" "merges_ok L R merge mm"
      "sound_merge op L R (twa_acc r') mm" "wf_acc (twa_acc r')" "graph r' = graph r"
      by (rule weak_weak_sound [OF ops len(1), of op r]) (use dl dr in blast)+
    then show thesis using eq result by simp
  qed
  define lw rw where "lw = is_true (weak (props L))" and "rw = is_true (weak (props R))"
  have dl: "decided ?la m" if "lw" "is_path (delta (graph L)) w p m" for w p m
    using settles_decided l(7) that unfolding lw_def by blast
  have dr: "decided ?ra m" if "rw" "is_path (delta (graph R)) w p m" for w p m
    using settles_decided rr(7) that unfolding rw_def by blast
  note pa = product_acceptance_def [of op L R r, unfolded Let_def, folded lw_def rw_def]
  consider (both) "lw" "rw" | (left) "lw" "\<not> rw" | (right) "\<not> lw" "rw" | (none) "\<not> lw" "\<not> rw" by blast
  then show thesis
  proof cases
    case both
    show thesis by (rule ww) (use dl dr both in \<open>simp_all add: pa\<close>)
  next
    case left
    show thesis
    proof (cases "half_weak op ?la ?ra")
      case None
      show thesis by (rule ww) (use dl left None half_weak_spec(1) [OF rr(3) None] in \<open>simp_all add: pa\<close>)
    next
      case (Some x)
      show thesis
      proof (cases x)
        case None
        with Some left g show thesis by (intro that [of g mg kg]) (simp_all add: pa)
      next
        case (Some f)
        obtain d where d: "override_ok op ?ra d" "f = override op ?la d"
          using half_weak_spec(2) [OF rr(3)] \<open>half_weak op ?la ?ra = Some x\<close> Some by blast
        have "sound_merge op L R ?ra f"
          unfolding sound_merge_def d(2) by (intro allI weak_left.merged_runs) (use dl left d(1) in blast)+
        then show thesis using rr(2) left Some \<open>half_weak op ?la ?ra = Some x\<close>
          by (intro that [of "copy_acceptance_of r R" "\<lambda>ml mr. Inr (f ml mr)" f]) (simp_all add: pa merges_ok_def copy_acceptance_of_def)
      qed
    qed
  next
    case right
    show thesis
    proof (cases "half_weak op ?ra ?la")
      case None
      show thesis by (rule ww) (use dr right None half_weak_spec(1) [OF l(3) None] in \<open>simp_all add: pa\<close>)
    next
      case (Some x)
      show thesis
      proof (cases x)
        case None
        with Some right g show thesis by (intro that [of g mg kg]) (simp_all add: pa)
      next
        case (Some f)
        obtain d where d: "override_ok op ?la d" "f = override op ?ra d"
          using half_weak_spec(2) [OF l(3)] \<open>half_weak op ?ra ?la = Some x\<close> Some by blast
        have "sound_merge op L R ?la (\<lambda>ml mr. f mr ml)"
          unfolding sound_merge_def d(2) by (intro allI weak_right.merged_runs) (use dr right d(1) in blast)+
        then show thesis using l(2) right Some \<open>half_weak op ?ra ?la = Some x\<close>
          by (intro that [of "copy_acceptance_of r L" "\<lambda>ml mr. Inr (f mr ml)" "\<lambda>ml mr. f mr ml"])
             (simp_all add: pa merges_ok_def copy_acceptance_of_def)
      qed
    qed
  next
    case none
    with g show thesis by (intro that [of g mg kg]) (simp_all add: pa)
  qed
qed

lemma copy_ap_of_fields [simp]:
  "graph (copy_ap_of A B) = graph A" "init_number (copy_ap_of A B) = init_number A" "twa_acc (copy_ap_of A B) = twa_acc A"
proof -
  have "graph (fold register_ap fs A) = graph A \<and> init_number (fold register_ap fs A) = init_number A \<and>
    twa_acc (fold register_ap fs A) = twa_acc A" for fs
    by (induction fs arbitrary: A) (auto simp: register_ap_def)
  then show "graph (copy_ap_of A B) = graph A" "init_number (copy_ap_of A B) = init_number A" "twa_acc (copy_ap_of A B) = twa_acc A"
    by (simp_all add: copy_ap_of_def)
qed

lemma product_props_fields:
  "graph (product_props L R r) = graph r" "init_number (product_props L R r) = init_number r"
  "twa_acc (product_props L R r) = twa_acc r"
  by (simp_all add: product_props_def Let_def)

lemma product_aux_sound:
  fixes L R :: "('l, 'n::len) twa_graph"
  assumes ops: "wf_operand L" "wf_operand R" "dict L = dict R" and len: "LENGTH('n) < 2 ^ 32"
    "num_sets (twa_acc L) < LENGTH('n)" "num_sets (twa_acc L) + num_sets (twa_acc R) \<le> LENGTH('n)"
    and init: "ls < num_states (graph L)" "rs < num_states (graph R)"
  shows "\<exists>x. product_aux L R ls rs op aborter = Inr x \<and> (aborter = None \<longrightarrow> x \<noteq> None) \<and>
    (\<forall>P ps. x = Some (P, ps) \<longrightarrow> wf_twa P \<and> ps ! 0 = (ls, rs) \<and> num_states (graph P) = length ps \<and>
      length ps \<le> num_states (graph L) * num_states (graph R) \<and>
      (\<forall>w. accepts P w \<longleftrightarrow> (\<exists>ml mr. both_runs L R ls rs w ml mr \<and>
         op_bool op (cond_accepting (twa_acc L) (inf_mark ml)) (cond_accepting (twa_acc R) (inf_mark mr)))))"
proof -
  define r where "r = copy_ap_of (copy_ap_of (make_twa_graph (dict L)) L) R"
  have blank: "graph r = digraph0 \<lparr>cond = {}, acc = 0\<rparr>" by (simp add: r_def make_twa_graph_def)
  obtain r' merge mm where r': "product_acceptance op L R r = Inr (r', merge)" "merges_ok L R merge mm"
    "sound_merge op L R (twa_acc r') mm" "wf_acc (twa_acc r')" "graph r' = graph r"
    by (rule product_acceptance_sound [OF ops(1,2) len])
  note wf = wf_operand_facts(1) [OF ops(1)] wf_operand_facts(1) [OF ops(2)]
  have "blank r'" using r'(5) blank by (simp add: blank_def)
  from product_main_spec [OF wf r'(2) this init r'(4), of aborter] obtain x where
    x: "product_main L R ls rs r' merge aborter = Inr x" "aborter = None \<longrightarrow> x \<noteq> None"
    "\<And>st. x = Some st \<Longrightarrow> wf_twa (res st) \<and> twa_acc (res st) = twa_acc r' \<and> product_states st ! 0 = (ls, rs) \<and>
      num_states (graph (res st)) = length (product_states st) \<and>
      length (product_states st) \<le> num_states (graph L) * num_states (graph R) \<and>
      (\<forall>w. accepts (res st) w \<longleftrightarrow> (\<exists>ml mr. both_runs L R ls rs w ml mr \<and>
         cond_accepting (twa_acc r') (inf_mark (\<lambda>i. mm (ml i) (mr i)))))" by blast
  have ex: "is_existential (graph L)" "is_existential (graph R)"
    using wf unfolding wf_twa_def wf_twa_graph_def by blast+
  have "product_aux L R ls rs op aborter = Inr (case x of None \<Rightarrow> None
      | Some st \<Rightarrow> Some (product_props L R (res st), product_states st))"
    using ex ops(3) r'(1) x(1) by (simp add: product_aux_def r_def)
  moreover have "wf_twa (product_props L R A) = wf_twa A" "accepts (product_props L R A) w = accepts A w" for A w
    by (simp_all add: wf_twa_def accepts_def product_props_fields)
  ultimately show ?thesis
    using x(2,3) r'(3) unfolding sound_merge_def by (cases x) (simp_all add: product_props_fields)
qed

definition runs_from :: "('l, 'n::len) twa_graph \<Rightarrow> nat \<Rightarrow> (nat \<Rightarrow> 'l) \<Rightarrow> (nat \<Rightarrow> 'n mark_t) \<Rightarrow> bool" where
  "runs_from A s w m \<longleftrightarrow> (\<exists>p. p 0 = s \<and> is_path (delta (graph A)) w p m)"

lemma both_runs_from: "both_runs L R ls rs w ml mr \<longleftrightarrow> runs_from L ls w ml \<and> runs_from R rs w mr"
  unfolding both_runs_def runs_from_def by blast

lemma accepts_runs: "accepts A w \<longleftrightarrow> (\<exists>m. runs_from A (init_number A) w m \<and> cond_accepting (twa_acc A) (inf_mark m))"
  unfolding accepts_def runs_from_def by blast

text \<open>
  Property C1: \<open>product\<close> terminates on automata with the same dictionary whose acceptance sets fit together in a mark; the
  product has at most as many states as there are pairs, its first state is the pair of the initial
  states, and it accepts the intersection of the two languages, in the general case and in those for weak
  arguments; only an aborter can make it return a null pointer.
\<close>

theorem product_intersection:
  fixes L R :: "('l, 'n::len) twa_graph"
  assumes "wf_operand L" "wf_operand R" "dict L = dict R" "LENGTH('n) < 2 ^ 32"
    and "num_sets (twa_acc L) < LENGTH('n)" "num_sets (twa_acc L) + num_sets (twa_acc R) \<le> LENGTH('n)"
  shows "\<exists>x. product L R aborter = Inr x \<and> (aborter = None \<longrightarrow> x \<noteq> None) \<and>
    (\<forall>P ps. x = Some (P, ps) \<longrightarrow> wf_twa P \<and> ps ! 0 = (init_number L, init_number R) \<and> num_states (graph P) = length ps \<and>
      length ps \<le> num_states (graph L) * num_states (graph R) \<and>
      (\<forall>w. accepts P w \<longleftrightarrow> accepts L w \<and> accepts R w))"
proof -
  have i: "init_number L < num_states (graph L)" "init_number R < num_states (graph R)"
    using assms(1,2) unfolding wf_operand_def wf_twa_def by blast+
  then have "product L R aborter = product_aux L R (init_number L) (init_number R) And_acc aborter"
    by (simp add: product_def product_from_def get_init_state_number_def)
  moreover have "(\<exists>ml mr. both_runs L R (init_number L) (init_number R) w ml mr \<and>
      op_bool And_acc (cond_accepting (twa_acc L) (inf_mark ml)) (cond_accepting (twa_acc R) (inf_mark mr))) \<longleftrightarrow>
    accepts L w \<and> accepts R w" for w
    unfolding both_runs_from accepts_runs op_bool.simps by blast
  ultimately show ?thesis using product_aux_sound [OF assms i, of And_acc aborter] by simp
qed

lemma island_operand: "wf_operand island"
proof -
  have acc: "twa_acc island = \<lparr>num_sets = 0, all_sets = 0, get_acceptance = code_t, uses_fin_acceptance = False\<rparr>"
    by (simp add: island_def explicit_twa_spec)
  have "wf_sat (twa_acc island)" unfolding wf_sat_def acc
    by (intro conjI exI [of _ TT]) (simp_all add: check_fin_acceptance_def code_t_def tree_ok_def nontrivial_def used_sets_def)
  moreover have zero: "bits (0 :: 32 mark_t) = {}" by (simp add: bits_def)
  ultimately have "cond_ok (twa_acc island)" by (simp add: cond_ok_def acc code_t_def)
  moreover have "acc x = 0" if "s < 3" "(q, x) \<in> set (succs (graph island) s)" for s q x
    using that by (auto simp: island_def explicit_twa_spec split: if_splits)
  then have "well_marked island"
    unfolding well_marked_def island_spec(2) using zero by (auto simp: marks_def)
  moreover have "\<not> is_true (weak (props island))" "\<not> is_true (very_weak (props island))" by code_simp+
  ultimately show ?thesis using island_spec(1) by (simp add: wf_operand_def)
qed

theorem product_intersection_witness:
  "\<exists>P ps. product island island None = Inr (Some (P, ps)) \<and> ps ! 0 = (0, 0) \<and> length ps \<le> 9 \<and>
    (\<forall>w. accepts P w \<longleftrightarrow> accepts island w)"
proof -
  have acc: "num_sets (twa_acc island) = 0" by (simp add: island_def explicit_twa_spec)
  from product_intersection [OF island_operand island_operand refl, of None] show ?thesis
    by (auto simp: acc island_spec)
qed

end
