(* ===== verification/ProductOr.thy ===== *)
theory ProductOr
  imports Product
begin

text \<open>
  The products that complete their arguments (twaalgos/product.cc): the sum \<open>product_or\<close>, and
  \<open>product_xor\<close> and \<open>product_xnor\<close> on deterministic automata.  A complete automaton has a run
  on every word, a deterministic one at most one run.
\<close>

section \<open>Runs of complete and of deterministic automata\<close>

lemma total_step:
  assumes "wf_twa A" "total A" "p < num_states (graph A)"
  shows "\<exists>m q. delta (graph A) p a m q \<and> q < num_states (graph A)"
proof -
  have "a \<in> (\<Union>(q, x) \<in> set (succs (graph A) p). cond x)" using assms(2,3) unfolding total_def by simp
  then obtain q x where x: "(q, x) \<in> set (succs (graph A) p)" "a \<in> cond x" by auto
  have "q < num_states (graph A)" using assms(1,3) x(1) unfolding wf_twa_def wf_succs by blast
  then show ?thesis using x assms(3) unfolding delta_succs by blast
qed

lemma total_run:
  assumes "wf_twa A" "total A" "s < num_states (graph A)"
  shows "\<exists>m. runs_from A s w m"
proof -
  have "\<exists>p. \<forall>i. (p i < num_states (graph A) \<and> (i = 0 \<longrightarrow> p i = s)) \<and> (\<exists>m. delta (graph A) (p i) (w i) m (p (Suc i)))"
    by (rule dependent_nat_choice) (use assms(3) total_step [OF assms(1,2)] in blast)+
  then obtain p m where "p 0 = s" "\<forall>i. delta (graph A) (p i) (w i) (m i) (p (Suc i))" by metis
  then show ?thesis unfolding runs_from_def is_path_def by blast
qed

lemma overlaps_unique:
  assumes "\<not> overlaps a (conds xs)" "(q, x) \<in> set xs" "(q', x') \<in> set xs" "l \<in> cond x" "l \<in> cond x'"
  shows "q = q' \<and> x = x'"
proof -
  have sub: "l \<in> a" if "\<not> overlaps a (conds xs)" "(q, x) \<in> set xs" "l \<in> cond x" for a q x and xs :: "(nat \<times> ('a, 'b) edge_label) list"
    using that by (induction xs arbitrary: a) (auto simp: conds_def split: if_splits)
  show ?thesis using assms(1-3)
  proof (induction xs arbitrary: a)
    case (Cons y ys)
    have rest: "\<not> overlaps (a - cond (snd y)) (conds ys)" using Cons.prems(1) by (auto simp: conds_def split: if_splits)
    show ?case
    proof (cases "(q, x) = y \<or> (q', x') = y")
      case True
      have "\<forall>e \<in> set ys. l \<in> cond (snd y) \<longrightarrow> l \<notin> cond (snd e)" using sub [OF rest] by fastforce
      then show ?thesis using True Cons.prems(2,3) assms(4,5) by (metis prod.inject set_ConsD snd_conv)
    next
      case False
      then show ?thesis using Cons.IH [OF rest] Cons.prems(2,3) by auto
    qed
  qed simp
qed

lemma no_overlap_runs:
  assumes "no_overlap A" "runs_from A s w m" "runs_from A s w m'"
  shows "m = m'"
proof -
  obtain p p' where p: "p 0 = s" "is_path (delta (graph A)) w p m" "p' 0 = s" "is_path (delta (graph A)) w p' m'"
    using assms(2,3) unfolding runs_from_def by blast
  have det: "m = m' \<and> q = q'" if d: "delta (graph A) s a m q" "delta (graph A) s a m' q'" for s a m q m' q'
  proof -
    obtain x where x: "s < num_states (graph A)" "(q, x) \<in> set (succs (graph A) s)" "a \<in> cond x" "acc x = m"
      using d(1) unfolding delta_succs by blast
    obtain x' where x': "(q', x') \<in> set (succs (graph A) s)" "a \<in> cond x'" "acc x' = m'"
      using d(2) unfolding delta_succs by blast
    have "\<not> overlaps UNIV (conds (succs (graph A) s))" using assms(1) x(1) unfolding no_overlap_def out_conds_conds by blast
    from overlaps_unique [OF this x(2) x'(1) x(3) x'(2)] show ?thesis using x(4) x'(3) by simp
  qed
  have same: "p i = p' i" for i
  proof (induction i)
    case (Suc i)
    then show ?case using det p(2,4) unfolding is_path_def by metis
  qed (simp add: p)
  show ?thesis
  proof
    fix i
    show "m i = m' i" using det p(2,4) same [of i] unfolding is_path_def by metis
  qed
qed

section \<open>Completed arguments\<close>

lemma twa_copy_dict: "dict (twa_copy A s) = dict A"
proof -
  have "dict (fold register_ap fs B) = dict B" for fs and B :: "('a, 'b) twa_graph"
    by (induction fs arbitrary: B) (auto simp: register_ap_def)
  then show ?thesis by (simp add: twa_copy_def Let_def copy_ap_of_def copy_acceptance_of_def make_twa_graph_def)
qed

lemma twa_copy_weak:
  assumes "is_true (weak (props (twa_copy A prop_set_all))) \<or> is_true (very_weak (props (twa_copy A prop_set_all)))"
  shows "is_true (weak (props A)) \<or> is_true (very_weak (props A))"
  using assms
  by (simp add: twa_copy_def Let_def prop_copy_def prop_set_all_def set_complete_def set_stutter_invariant_def
    set_unambiguous_def set_semi_deterministic_def set_universal_def set_inherently_weak_def set_very_weak_def
    set_weak_def set_terminal_def set_state_acc_def is_true_def trival_not_def split: if_splits)

text \<open>The size, the dictionary and the declaration of completeness that the completion relies on.\<close>

definition completable :: "('l, 'n::len) twa_graph \<Rightarrow> bool" where
  "completable A \<longleftrightarrow> wf_operand A \<and> num_states (graph A) < no_group \<and> (is_true (complete_prop (props A)) \<longrightarrow> total A)"

text \<open>A declared determinism that is true.\<close>

definition flag_ok :: "('l, 'n::len) twa_graph \<Rightarrow> bool" where
  "flag_ok A \<longleftrightarrow> (is_known (universal (props A)) \<longrightarrow> is_true (universal (props A)) = no_overlap A)"

lemma complete_operand:
  fixes A :: "('l, 'n::len) twa_graph"
  assumes "completable A" "LENGTH('n) < 2 ^ 32"
  obtains B where "complete A = Inr B" "wf_operand B" "total B" "\<And>w. accepts B w \<longleftrightarrow> accepts A w"
    "num_sets (twa_acc B) \<le> max 1 (num_sets (twa_acc A))" "init_number B = init_number A" "dict B = dict A"
    "no_overlap A \<Longrightarrow> no_overlap B"
proof -
  let ?A = "twa_copy A prop_set_all"
  have A: "wf_twa A" "cond_ok (twa_acc A)" "well_marked A" "num_states (graph A) < no_group"
    "is_true (complete_prop (props A)) \<longrightarrow> total A"
    "is_true (weak (props A)) \<or> is_true (very_weak (props A)) \<longrightarrow> settling A"
    using assms(1) unfolding completable_def wf_operand_def by blast+
  then have "wf_sat (twa_acc A)" unfolding cond_ok_def by blast
  from complete_kept [OF A(1) this A(4) assms(2) A(5)] obtain B B' where
    B: "complete A = Inr B" "wf_twa B" "total B" "\<And>w. accepts B w \<longleftrightarrow> accepts A w"
    "B = update_props (set_complete (trival_of_bool True)) B'" "kept ?A B'" by blast
  have k: "init_number B' = init_number A" "dict B' = dict A" "props B' = props ?A"
    "num_sets (twa_acc B') \<le> max 1 (num_sets (twa_acc A))" "cond_ok (twa_acc B')" "well_marked B'"
    "settling A \<longrightarrow> settling B'" "no_overlap A \<longrightarrow> no_overlap B'"
    using B(6) A(2,3) unfolding kept_def settling_def well_marked_def no_overlap_def out_conds_conds
    by (simp_all add: twa_copy_fields twa_copy_dict)
  have "weak (props B) = weak (props ?A)" "very_weak (props B) = very_weak (props ?A)"
    unfolding B(5) by (simp_all add: set_complete_def k(3))
  then have "is_true (weak (props B)) \<or> is_true (very_weak (props B)) \<longrightarrow> settling A"
    using twa_copy_weak [of A] A(6) by auto
  moreover have "well_marked B = well_marked B'" "settling B = settling B'" "no_overlap B = no_overlap B'" "twa_acc B = twa_acc B'"
    "init_number B = init_number B'" "dict B = dict B'"
    unfolding B(5) by (simp_all add: well_marked_def settling_def no_overlap_def out_conds_conds)
  ultimately show thesis
    using B(1-4) k by (intro that [of B]) (auto simp: wf_operand_def)
qed

lemma completed_product:
  fixes L R :: "('l, 'n::len) twa_graph"
  assumes ops: "completable L" "completable R" "dict L = dict R" and len: "LENGTH('n) < 2 ^ 32"
    "max 1 (num_sets (twa_acc L)) < LENGTH('n)" "max 1 (num_sets (twa_acc L)) + max 1 (num_sets (twa_acc R)) \<le> LENGTH('n)"
  obtains CL CR P ps where "complete L = Inr CL" "complete R = Inr CR"
    "product_aux CL CR (init_number L) (init_number R) op None = Inr (Some (P, ps))" "wf_twa P"
    "\<And>w. (\<exists>m. runs_from CL (init_number L) w m) \<and> (\<exists>m. runs_from CR (init_number R) w m)"
    "\<And>w. accepts P w \<longleftrightarrow> (\<exists>ml mr. runs_from CL (init_number L) w ml \<and> runs_from CR (init_number R) w mr \<and>
         op_bool op (cond_accepting (twa_acc CL) (inf_mark ml)) (cond_accepting (twa_acc CR) (inf_mark mr)))"
    "\<And>w. accepts L w \<longleftrightarrow> (\<exists>m. runs_from CL (init_number L) w m \<and> cond_accepting (twa_acc CL) (inf_mark m))"
    "\<And>w. accepts R w \<longleftrightarrow> (\<exists>m. runs_from CR (init_number R) w m \<and> cond_accepting (twa_acc CR) (inf_mark m))"
    "no_overlap L \<Longrightarrow> no_overlap CL" "no_overlap R \<Longrightarrow> no_overlap CR"
proof -
  obtain CL where l: "complete L = Inr CL" "wf_operand CL" "total CL" "\<And>w. accepts CL w \<longleftrightarrow> accepts L w"
    "num_sets (twa_acc CL) \<le> max 1 (num_sets (twa_acc L))" "init_number CL = init_number L" "dict CL = dict L"
    "no_overlap L \<Longrightarrow> no_overlap CL"
    by (rule complete_operand [OF ops(1) len(1)]) (rule that; assumption)
  obtain CR where r: "complete R = Inr CR" "wf_operand CR" "total CR" "\<And>w. accepts CR w \<longleftrightarrow> accepts R w"
    "num_sets (twa_acc CR) \<le> max 1 (num_sets (twa_acc R))" "init_number CR = init_number R" "dict CR = dict R"
    "no_overlap R \<Longrightarrow> no_overlap CR"
    by (rule complete_operand [OF ops(2) len(1)]) (rule that; assumption)
  have wf: "wf_twa CL" "wf_twa CR" using wf_operand_facts(1) [OF l(2)] wf_operand_facts(1) [OF r(2)] .
  then have i: "init_number L < num_states (graph CL)" "init_number R < num_states (graph CR)"
    using l(6) r(6) unfolding wf_twa_def by simp_all
  have n: "num_sets (twa_acc CL) < LENGTH('n)" "num_sets (twa_acc CL) + num_sets (twa_acc CR) \<le> LENGTH('n)"
    using l(5) r(5) len(2,3) by linarith+
  have d: "dict CL = dict CR" using l(7) r(7) ops(3) by simp
  from product_aux_sound [OF l(2) r(2) d len(1) n i, of op None] obtain P ps where
    P: "product_aux CL CR (init_number L) (init_number R) op None = Inr (Some (P, ps))" "wf_twa P"
    "\<And>w. accepts P w \<longleftrightarrow> (\<exists>ml mr. both_runs CL CR (init_number L) (init_number R) w ml mr \<and>
         op_bool op (cond_accepting (twa_acc CL) (inf_mark ml)) (cond_accepting (twa_acc CR) (inf_mark mr)))" by auto
  show thesis
  proof (rule that [OF l(1) r(1) P(1,2)])
    show "(\<exists>m. runs_from CL (init_number L) w m) \<and> (\<exists>m. runs_from CR (init_number R) w m)" for w
      using total_run [OF wf(1) l(3) i(1)] total_run [OF wf(2) r(3) i(2)] by blast
    show "accepts P w \<longleftrightarrow> (\<exists>ml mr. runs_from CL (init_number L) w ml \<and> runs_from CR (init_number R) w mr \<and>
         op_bool op (cond_accepting (twa_acc CL) (inf_mark ml)) (cond_accepting (twa_acc CR) (inf_mark mr)))" for w
      unfolding P(3) both_runs_from by blast
    show "accepts L w \<longleftrightarrow> (\<exists>m. runs_from CL (init_number L) w m \<and> cond_accepting (twa_acc CL) (inf_mark m))" for w
      using l(4) [of w] unfolding accepts_runs [of CL] l(6) by blast
    show "accepts R w \<longleftrightarrow> (\<exists>m. runs_from CR (init_number R) w m \<and> cond_accepting (twa_acc CR) (inf_mark m))" for w
      using r(4) [of w] unfolding accepts_runs [of CR] r(6) by blast
  qed (use l(8) r(8) in blast)+
qed

section \<open>Union\<close>

text \<open>
  Property C4: \<open>product_or\<close> completes its arguments and returns an automaton for the union of their
  languages, whatever the shortcut that it takes for weak arguments.
\<close>

theorem product_union:
  fixes L R :: "('l, 'n::len) twa_graph"
  assumes "completable L" "completable R" "dict L = dict R" "LENGTH('n) < 2 ^ 32"
    and "max 1 (num_sets (twa_acc L)) < LENGTH('n)" "max 1 (num_sets (twa_acc L)) + max 1 (num_sets (twa_acc R)) \<le> LENGTH('n)"
  shows "\<exists>P ps. product_or L R = Inr (Some (P, ps)) \<and> wf_twa P \<and> (\<forall>w. accepts P w \<longleftrightarrow> accepts L w \<or> accepts R w)"
proof -
  have i: "init_number L < num_states (graph L)" "init_number R < num_states (graph R)"
    using assms(1,2) unfolding completable_def wf_operand_def wf_twa_def by blast+
  obtain CL CR P ps where c: "complete L = Inr CL" "complete R = Inr CR"
    "product_aux CL CR (init_number L) (init_number R) Or_acc None = Inr (Some (P, ps))" "wf_twa P"
    "\<And>w. (\<exists>m. runs_from CL (init_number L) w m) \<and> (\<exists>m. runs_from CR (init_number R) w m)"
    "\<And>w. accepts P w \<longleftrightarrow> (\<exists>ml mr. runs_from CL (init_number L) w ml \<and> runs_from CR (init_number R) w mr \<and>
         op_bool Or_acc (cond_accepting (twa_acc CL) (inf_mark ml)) (cond_accepting (twa_acc CR) (inf_mark mr)))"
    "\<And>w. accepts L w \<longleftrightarrow> (\<exists>m. runs_from CL (init_number L) w m \<and> cond_accepting (twa_acc CL) (inf_mark m))"
    "\<And>w. accepts R w \<longleftrightarrow> (\<exists>m. runs_from CR (init_number R) w m \<and> cond_accepting (twa_acc CR) (inf_mark m))"
    by (rule completed_product [OF assms]) (rule that; assumption)
  have "product_or L R = Inr (Some (P, ps))"
    using i c(1-3) by (simp add: product_or_def product_or_from_def get_init_state_number_def)
  moreover have "accepts P w \<longleftrightarrow> accepts L w \<or> accepts R w" for w
    unfolding c(6-8) op_bool.simps using c(5) [of w] by blast
  ultimately show ?thesis using c(4) by blast
qed

lemma island_completable: "completable island" "num_sets (twa_acc island) = 0" "flag_ok island" "no_overlap island"
proof -
  have "complete_prop (props island) = maybe_value" "universal (props island) = maybe_value" by code_simp+
  then show "completable island" "flag_ok island"
    by (simp_all add: completable_def island_operand island_spec(2) no_group_def is_true_def flag_ok_def is_known_def)
  show "num_sets (twa_acc island) = 0" by (simp add: island_def explicit_twa_spec)
  have "conds (succs (graph island) s) = (if s = 0 then [{True}] else if s = 1 then [UNIV] else [{False}])" if "s < 3" for s
    using that by (auto simp: island_def explicit_twa_spec conds_def)
  then show "no_overlap island" unfolding no_overlap_def island_spec(2) out_conds_conds by simp
qed

theorem product_union_witness:
  "\<exists>P ps. product_or island island = Inr (Some (P, ps)) \<and> wf_twa P \<and> (\<forall>w. accepts P w \<longleftrightarrow> accepts island w)"
  using product_union [OF island_completable(1) island_completable(1) refl] by (simp add: island_completable(2))

section \<open>Symmetric difference\<close>

lemma is_deterministic_spec:
  assumes "wf_twa A" "flag_ok A"
  obtains f where "is_deterministic A = (no_overlap A, update_props f A)"
    "\<And>p. weak (f p) = weak p \<and> very_weak (f p) = very_weak p \<and> complete_prop (f p) = complete_prop p"
proof -
  have ex: "is_existential (graph A)" using assms(1) unfolding wf_twa_def wf_twa_graph_def by blast
  show thesis
  proof (cases "is_known (universal (props A))")
    case True
    then have "is_deterministic A = (no_overlap A, update_props id A)"
      using ex assms(2) by (simp add: is_deterministic_def is_universal_def flag_ok_def)
    then show thesis by (rule that) simp
  next
    case False
    let ?ns = "filter (\<lambda>s. overlaps UNIV (out_conds A s)) [0..<num_states (graph A)]"
    have "min 1 (length ?ns) = 0 \<longleftrightarrow> ?ns = []" by (cases ?ns) auto
    also have "\<dots> \<longleftrightarrow> no_overlap A" by (auto simp: no_overlap_def filter_empty_conv)
    finally have "is_deterministic A = (no_overlap A, update_props (set_universal (trival_of_bool (no_overlap A))) A)"
      using ex False by (simp add: is_deterministic_def is_universal_def count_nondet_states_aux_def Let_def)
    then show thesis by (rule that) (simp add: set_universal_def Let_def)
  qed
qed

text \<open>
  Property C5: \<open>product_xor\<close> and \<open>product_xnor\<close> refuse a nondeterministic argument, and on deterministic
  automata they return automata for the symmetric difference of the languages and for its complement.
\<close>

theorem product_difference:
  fixes L R :: "('l, 'n::len) twa_graph"
  assumes "completable L" "completable R" "dict L = dict R" "LENGTH('n) < 2 ^ 32" "flag_ok L" "flag_ok R"
    and "max 1 (num_sets (twa_acc L)) < LENGTH('n)" "max 1 (num_sets (twa_acc L)) + max 1 (num_sets (twa_acc R)) \<le> LENGTH('n)"
  shows "if no_overlap L \<and> no_overlap R
    then (\<exists>P ps. product_xor L R = Inr (Some (P, ps)) \<and> wf_twa P \<and> (\<forall>w. accepts P w \<longleftrightarrow> accepts L w \<noteq> accepts R w)) \<and>
      (\<exists>P ps. product_xnor L R = Inr (Some (P, ps)) \<and> wf_twa P \<and> (\<forall>w. accepts P w \<longleftrightarrow> accepts L w = accepts R w))
    else product_xor L R = Inl Not_deterministic \<and> product_xnor L R = Inl Not_deterministic"
proof -
  have wf: "wf_twa L" "wf_twa R" using assms(1,2) unfolding completable_def wf_operand_def by blast+
  obtain f where f: "is_deterministic L = (no_overlap L, update_props f L)"
    "\<And>p. weak (f p) = weak p \<and> very_weak (f p) = very_weak p \<and> complete_prop (f p) = complete_prop p"
    by (rule is_deterministic_spec [OF wf(1) assms(5)]) (rule that; assumption)
  obtain g where g: "is_deterministic R = (no_overlap R, update_props g R)"
    "\<And>p. weak (g p) = weak p \<and> very_weak (g p) = very_weak p \<and> complete_prop (g p) = complete_prop p"
    by (rule is_deterministic_spec [OF wf(2) assms(6)]) (rule that; assumption)
  let ?L = "update_props f L" and ?R = "update_props g R"
  have upd: "completable ?L" "completable ?R" "no_overlap ?L = no_overlap L" "no_overlap ?R = no_overlap R"
    "accepts ?L w = accepts L w" "accepts ?R w = accepts R w" for w
    using assms(1,2) f(2) g(2)
    by (simp_all add: completable_def wf_operand_def wf_twa_def well_marked_def settling_def total_def no_overlap_def
      out_conds_conds accepts_def)
  have dicts: "dict ?L = dict ?R" and ns: "max 1 (num_sets (twa_acc ?L)) < LENGTH('n)"
    "max 1 (num_sets (twa_acc ?L)) + max 1 (num_sets (twa_acc ?R)) \<le> LENGTH('n)" using assms by simp_all
  have i: "get_init_state_number ?L = Inr (init_number ?L)" "get_init_state_number ?R = Inr (init_number ?R)"
    using wf by (simp_all add: get_init_state_number_def wf_twa_def)
  have det: "\<exists>P ps. product_det op L R = Inr (Some (P, ps)) \<and> wf_twa P \<and>
      (\<forall>w. accepts P w \<longleftrightarrow> op_bool op (accepts L w) (accepts R w))" if no: "no_overlap L" "no_overlap R" for op
  proof -
    obtain CL CR P ps where c: "complete ?L = Inr CL" "complete ?R = Inr CR"
      "product_aux CL CR (init_number ?L) (init_number ?R) op None = Inr (Some (P, ps))" "wf_twa P"
      "\<And>w. (\<exists>m. runs_from CL (init_number ?L) w m) \<and> (\<exists>m. runs_from CR (init_number ?R) w m)"
      "\<And>w. accepts P w \<longleftrightarrow> (\<exists>ml mr. runs_from CL (init_number ?L) w ml \<and> runs_from CR (init_number ?R) w mr \<and>
           op_bool op (cond_accepting (twa_acc CL) (inf_mark ml)) (cond_accepting (twa_acc CR) (inf_mark mr)))"
      "\<And>w. accepts ?L w \<longleftrightarrow> (\<exists>m. runs_from CL (init_number ?L) w m \<and> cond_accepting (twa_acc CL) (inf_mark m))"
      "\<And>w. accepts ?R w \<longleftrightarrow> (\<exists>m. runs_from CR (init_number ?R) w m \<and> cond_accepting (twa_acc CR) (inf_mark m))"
      "no_overlap ?L \<Longrightarrow> no_overlap CL" "no_overlap ?R \<Longrightarrow> no_overlap CR"
      by (rule completed_product [OF upd(1,2) dicts assms(4) ns]) (rule that; assumption)
    have "product_det op L R = Inr (Some (P, ps))"
      using no i c(1-3) by (simp add: product_det_def f(1) g(1))
    moreover have "accepts P w \<longleftrightarrow> op_bool op (accepts L w) (accepts R w)" for w
    proof -
      obtain ml mr where m: "runs_from CL (init_number ?L) w ml" "runs_from CR (init_number ?R) w mr" using c(5) [of w] by blast
      have "runs_from CL (init_number ?L) w m \<longleftrightarrow> m = ml" "runs_from CR (init_number ?R) w m \<longleftrightarrow> m = mr" for m
        using no_overlap_runs [OF c(9)] no_overlap_runs [OF c(10)] m upd(3,4) no by blast+
      then show ?thesis using c(6-8) [of w] unfolding upd(5,6) by simp
    qed
    ultimately show ?thesis using c(4) by blast
  qed
  show ?thesis
    using det [of Xor_acc] det [of Xnor_acc] by (auto simp: product_xor_def product_xnor_def product_det_def f(1) g(1))
qed

theorem product_difference_witness:
  "(\<exists>P ps. product_xor island island = Inr (Some (P, ps)) \<and> wf_twa P \<and> (\<forall>w. \<not> accepts P w)) \<and>
   (\<exists>P ps. product_xnor island island = Inr (Some (P, ps)) \<and> wf_twa P \<and> (\<forall>w. accepts P w))"
  using product_difference [OF island_completable(1) island_completable(1) refl _ island_completable(3,3)]
  by (simp add: island_completable(2,4))

end
