(* ===== verification/CleanAcc.thy ===== *)
theory CleanAcc
  imports ProductOr
begin

unbundle bit_operations_syntax

text \<open>
  Cleaning the acceptance of an automaton (twaalgos/cleanacc.cc): \<open>cleanup_acceptance_here\<close> drops the
  sets that do not occur in the condition or on no edge, and those that are on all edges.  The code calls
  itself until nothing is left to drop; here the calls are counted, and their number is bounded by twice
  the number of sets.
\<close>

section \<open>The cleaning\<close>

text \<open>Removing the sets \<open>rem\<close> from the marks of all edges.\<close>

definition strip_marks :: "('l, 'n::len) twa_graph \<Rightarrow> 'n mark_t \<Rightarrow> ('l, 'n) twa_graph" where
  "strip_marks A rem = A\<lparr>graph := (graph A)\<lparr>edges := map (\<lambda>t. if is_valid_edge (graph A) t \<and> t \<noteq> 0
     then (edge A t)\<lparr>e_data := (e_data (edge A t))\<lparr>acc := mark_strip (e_acc (edge A t)) rem\<rparr>\<rparr>
     else edge A t) [0..<length (edges (graph A))]\<rparr>\<rparr>"

text \<open>The sets used by the edges, and the sets of the condition that all edges have.\<close>

definition used_in_aut :: "('l, 'n::len) twa_graph \<Rightarrow> 'n mark_t" where
  "used_in_aut A = fold (\<lambda>t m. m OR e_acc (edge A t)) (all_edges (graph A)) 0"

definition used_on_all_edges :: "('l, 'n::len) twa_graph \<Rightarrow> 'n mark_t" where
  "used_on_all_edges A = fold (\<lambda>t m. m AND e_acc (edge A t)) (all_edges (graph A)) (used_sets (get_acceptance (twa_acc A)))"

definition useful_sets :: "('l, 'n::len) twa_graph \<Rightarrow> 'n mark_t" where
  "useful_sets A = used_in_aut A AND used_sets (get_acceptance (twa_acc A))"

definition useless_sets_of :: "bool \<Rightarrow> ('l, 'n::len) twa_graph \<Rightarrow> 'n mark_t" where
  "useless_sets_of st A =
    (if st then comp (twa_acc A) (useful_sets A)
     else mark_minus (used_sets (get_acceptance (twa_acc A))) (used_in_aut A)) OR used_on_all_edges A"

definition cleanup_step :: "bool \<Rightarrow> ('l, 'n::len) twa_graph \<Rightarrow> twa_error + ('l, 'n) twa_graph" where
  "cleanup_step st A =
    (let c = get_acceptance (twa_acc A); useless = useless_sets_of st A;
         B = (if st then strip_marks A useless else A);
         c = (if used_on_all_edges A \<noteq> 0 then remove_sets c (used_on_all_edges A) False else c)
     in if st then twa_set_acceptance B (mark_count (useful_sets A)) (strip c useless True)
        else twa_set_acceptance B (twa_num_sets B) (remove_sets c useless True))"

fun cleanup_rec :: "nat \<Rightarrow> bool \<Rightarrow> ('l, 'n::len) twa_graph \<Rightarrow> twa_error + ('l, 'n) twa_graph option" where
  "cleanup_rec 0 st A = Inr None"
| "cleanup_rec (Suc n) st A =
    (if twa_num_sets A = 0 then Inr (Some A)
     else if useless_sets_of st A = 0 then Inr (Some A)
     else bind_sum (cleanup_step st A) (cleanup_rec n st))"

definition cleanup_acceptance_here :: "('l, 'n::len) twa_graph \<Rightarrow> bool \<Rightarrow> twa_error + ('l, 'n) twa_graph option" where
  "cleanup_acceptance_here A st = cleanup_rec (Suc (2 * twa_num_sets A)) st A"

definition cleanup_acceptance :: "('l, 'n::len) twa_graph \<Rightarrow> bool \<Rightarrow> twa_error + ('l, 'n) twa_graph option" where
  "cleanup_acceptance A st = cleanup_acceptance_here (twa_copy A prop_set_all) st"

section \<open>Conditions without some sets\<close>

lemma within_mono: "within Q t \<Longrightarrow> Q \<subseteq> R \<Longrightarrow> within R t"
  unfolding within_def by blast

lemma within_leaf: "within Q t \<Longrightarrow> l \<in> leaves t \<Longrightarrow> bits (leaf_mark l) \<subseteq> Q"
  unfolding within_def by blast

lemma used_within: "tree_ok t \<Longrightarrow> within Q t \<longleftrightarrow> bits (used_sets (enc t)) \<subseteq> Q"
  unfolding within_def using used_sets_enc [of t] by (auto simp: subset_iff)

lemma strip_leaf_within:
  assumes "is_leaf l" "plain l" "bits (leaf_mark l) \<subseteq> Q"
  shows "within (if st then renumber (bits rem) ` (Q - bits rem) else Q - bits rem) (strip_leaf rem mi st l)"
  using assms by (cases l) (auto simp: bits_mark_strip)

lemma strip_rec_within:
  assumes t: "node_ok t" "plain t" "within Q t"
  obtains t' where "strip_rec (enc t) rem mi st = enc t'" "tree_ok t'" "plain t'"
    "within (if st then renumber (bits rem) ` (Q - bits rem) else Q - bits rem) t'"
    "\<And>m J. tree_sat (bit (if st then mark_strip m rem else m)) J t' \<longleftrightarrow> tree_sat (bit (removed_view mi rem m)) J t"
proof -
  have ok: "\<forall>l\<in>leaves t. plain l" using t(2) plain_leaves by blast
  obtain t' where t': "strip_rec (enc t) rem mi st = enc t'" "tree_ok t'" "plain t'"
    "\<And>m J. tree_sat (bit (if st then mark_strip m rem else m)) J t' \<longleftrightarrow> tree_sat (bit (removed_view mi rem m)) J t"
    using strip_rec_enc [OF t(1,2)] by blast
  let ?r = "rewrite False (strip_leaf rem mi st) t"
  have r: "strip_rec (enc t) rem mi st = enc ?r" "tree_ok ?r" using stripping.rewrite_enc [OF t(1) ok] by blast+
  have "within (if st then renumber (bits rem) ` (Q - bits rem) else Q - bits rem) ?r"
  proof (rule stripping.rewrite_keeps [OF tree_and_within tree_or_within _ _ _ t(1) ok])
    fix l assume l: "l \<in> leaves t"
    show "within (if st then renumber (bits rem) ` (Q - bits rem) else Q - bits rem) (strip_leaf rem mi st l)"
      by (rule strip_leaf_within) (use l ok leaves_leaf within_leaf [OF t(3)] in blast)+
  qed auto
  then show thesis using t' r unfolding used_within [OF r(2)] used_within [OF t'(2), symmetric]
    by (intro that [OF t'(1-3)]) (simp_all add: used_within)
qed

text \<open>A condition over the sets \<open>Q\<close>.\<close>

definition code_over :: "nat set \<Rightarrow> 'n::len acc_code \<Rightarrow> bool" where
  "code_over Q c \<longleftrightarrow> (\<exists>t. c = enc t \<and> tree_ok t \<and> plain t \<and> within Q t)"

lemma code_over_used: "c = enc t \<Longrightarrow> tree_ok t \<Longrightarrow> plain t \<Longrightarrow> code_over (bits (used_sets c)) c"
  unfolding code_over_def using used_within by blast

lemma code_over_mono: "code_over Q c \<Longrightarrow> Q \<subseteq> R \<Longrightarrow> code_over R c"
  unfolding code_over_def using within_mono by blast

lemma used_code_over: "code_over Q c \<Longrightarrow> bits (used_sets c) \<subseteq> Q"
  unfolding code_over_def using used_within by blast

lemma accepting_code_over:
  assumes "code_over Q c" "\<And>i. i \<in> Q \<Longrightarrow> bit m i = bit n i"
  shows "accepting c m = accepting c n"
proof -
  obtain t where t: "c = enc t" "tree_ok t" "plain t" "within Q t" using assms(1) unfolding code_over_def by blast
  have "tree_sat (bit m) bot t = tree_sat (bit n) bot t"
    by (intro sat_cong) (use assms(2) within_leaf [OF t(4)] in \<open>auto simp: subset_iff\<close>)
  then show ?thesis unfolding t(1) accepting_enc [OF t(2,3), of _ bot] .
qed

lemma strip_over:
  assumes "code_over Q c"
  shows "code_over (Q - bits rem) (remove_sets c rem mi)"
    "code_over (renumber (bits rem) ` (Q - bits rem)) (strip c rem mi)"
    "accepting (remove_sets c rem mi) m = accepting c (removed_view mi rem m)"
    "accepting (strip c rem mi) (mark_strip m rem) = accepting c (removed_view mi rem m)"
proof -
  obtain t where t: "c = enc t" "tree_ok t" "plain t" "within Q t" using assms unfolding code_over_def by blast
  have "(code_over (Q - bits rem) (remove_sets c rem mi) \<and>
      code_over (renumber (bits rem) ` (Q - bits rem)) (strip c rem mi)) \<and>
    accepting (remove_sets c rem mi) m = accepting c (removed_view mi rem m) \<and>
    accepting (strip c rem mi) (mark_strip m rem) = accepting c (removed_view mi rem m)"
  proof (cases "is_t c \<or> is_f c")
    case True
    then have "t = TT \<or> t = TInf 0 \<or> t = TFin 0" unfolding t(1) using is_t_enc [OF t(2)] is_f_enc [OF t(2)] by auto
    then have "code_over R c" for R unfolding code_over_def t(1) using t(2) by (intro exI [of _ t]) auto
    moreover have "accepting c x = accepting c y" for x y using accepting_code_over [OF \<open>code_over {} c\<close>] by blast
    ultimately show ?thesis using True by (simp add: remove_sets_def strip_def)
  next
    case False
    then have n: "node_ok t" using t(1,2) by (auto simp: tree_ok_def)
    obtain r where r: "strip_rec c rem mi False = enc r" "tree_ok r" "plain r" "within (Q - bits rem) r"
      "\<And>m J. tree_sat (bit m) J r \<longleftrightarrow> tree_sat (bit (removed_view mi rem m)) J t"
      using strip_rec_within [OF n t(3,4), of rem mi False] unfolding t(1) by auto
    obtain s where s: "strip_rec c rem mi True = enc s" "tree_ok s" "plain s" "within (renumber (bits rem) ` (Q - bits rem)) s"
      "\<And>m J. tree_sat (bit (mark_strip m rem)) J s \<longleftrightarrow> tree_sat (bit (removed_view mi rem m)) J t"
      using strip_rec_within [OF n t(3,4), of rem mi True] unfolding t(1) by auto
    have "remove_sets c rem mi = enc r" "strip c rem mi = enc s" using False r(1) s(1) by (simp_all add: remove_sets_def strip_def)
    moreover have "accepting (enc r) m = accepting c (removed_view mi rem m)"
      "accepting (enc s) (mark_strip m rem) = accepting c (removed_view mi rem m)"
      unfolding t(1) accepting_enc [OF r(2,3), of _ bot] accepting_enc [OF s(2,3), of _ bot] accepting_enc [OF t(2,3), of _ bot]
      by (rule r(5) s(5))+
    ultimately show ?thesis unfolding code_over_def using r(2-4) s(2-4) by auto
  qed
  then show "code_over (Q - bits rem) (remove_sets c rem mi)"
    "code_over (renumber (bits rem) ` (Q - bits rem)) (strip c rem mi)"
    "accepting (remove_sets c rem mi) m = accepting c (removed_view mi rem m)"
    "accepting (strip c rem mi) (mark_strip m rem) = accepting c (removed_view mi rem m)" by blast+
qed

section \<open>One step of the cleaning\<close>

lemma bit_used_in_aut:
  fixes A :: "('l, 'n::len) twa_graph"
  shows "bit (used_in_aut A) i \<longleftrightarrow> (\<exists>t \<in> set (all_edges (graph A)). bit (e_acc (edge A t)) i)"
proof -
  have "bit (fold (\<lambda>t m. m OR f t) ts m) i \<longleftrightarrow> bit m i \<or> (\<exists>t \<in> set ts. bit (f t) i)" for ts m and f :: "nat \<Rightarrow> 'n word"
    by (induction ts arbitrary: m) (auto simp: bit_or_iff)
  then show ?thesis unfolding used_in_aut_def by simp
qed

lemma bit_used_on_all:
  fixes A :: "('l, 'n::len) twa_graph"
  shows "bit (used_on_all_edges A) i \<longleftrightarrow> bit (used_sets (get_acceptance (twa_acc A))) i \<and>
     (\<forall>t \<in> set (all_edges (graph A)). bit (e_acc (edge A t)) i)"
proof -
  have "bit (fold (\<lambda>t m. m AND f t) ts m) i \<longleftrightarrow> bit m i \<and> (\<forall>t \<in> set ts. bit (f t) i)" for ts m and f :: "nat \<Rightarrow> 'n word"
    by (induction ts arbitrary: m) (auto simp: bit_and_iff)
  then show ?thesis unfolding used_on_all_edges_def by simp
qed

lemma path_edges:
  assumes "wf_graph (graph A)" "is_path (delta (graph A)) w p m"
  shows "\<exists>t \<in> set (all_edges (graph A)). m i = e_acc (edge A t)"
proof -
  have "delta (graph A) (p i) (w i) (m i) (p (Suc i))" using assms(2) unfolding is_path_def by blast
  then obtain t where "0 < t" "is_valid_edge (graph A) t" "e_acc (edge A t) = m i" unfolding delta_valid [OF assms(1)] by blast
  then show ?thesis unfolding all_edges_live [OF assms(1)] by (intro bexI [of _ t]) (auto simp: is_valid_edge_def)
qed

lemma path_inf_mark:
  assumes "wf_graph (graph A)" "is_path (delta (graph A)) w p m"
  shows "bit (inf_mark m) i \<Longrightarrow> bit (used_in_aut A) i" "bit (used_on_all_edges A) i \<Longrightarrow> bit (inf_mark m) i"
proof -
  note e = path_edges [OF assms]
  show "bit (used_in_aut A) i" if "bit (inf_mark m) i"
  proof -
    have "inf_often m i" using that unfolding bit_inf_mark_iff .
    then have "\<exists>n. bit (m n) i" unfolding inf_often_def using not_finite_existsD by blast
    then show ?thesis using e unfolding bit_used_in_aut by metis
  qed
  show "bit (inf_mark m) i" if "bit (used_on_all_edges A) i"
  proof -
    have "\<forall>n. bit (m n) i" using e that unfolding bit_used_on_all by metis
    then show ?thesis unfolding bit_inf_mark_iff inf_often_def by simp
  qed
qed

lemma inf_mark_strip: "inf_mark (\<lambda>i. mark_strip (m i) rem) = mark_strip (inf_mark m) rem"
proof (rule bit_word_eqI)
  have strip: "bit (mark_strip x rem) j \<longleftrightarrow> (\<exists>i. \<not> bit rem i \<and> j = renumber (bits rem) i \<and> bit x i)" for x j
    using bits_mark_strip [of x rem] by (force simp: set_eq_iff)
  fix j
  show "bit (inf_mark (\<lambda>i. mark_strip (m i) rem)) j \<longleftrightarrow> bit (mark_strip (inf_mark m) rem) j"
  proof (cases "\<exists>i. \<not> bit rem i \<and> j = renumber (bits rem) i")
    case True
    then obtain i where i: "\<not> bit rem i" "j = renumber (bits rem) i" by blast
    show ?thesis unfolding i(2) bit_inf_mark_iff inf_often_def bit_mark_strip_renumber [OF i(1)] ..
  next
    case False
    then have "\<not> bit (mark_strip x rem) j" for x unfolding strip by blast
    then show ?thesis unfolding bit_inf_mark_iff inf_often_def by simp
  qed
qed

lemma strip_marks_spec:
  assumes "wf_twa A"
  shows "wf_twa (strip_marks A rem)" "num_states (graph (strip_marks A rem)) = num_states (graph A)"
    "s < num_states (graph A) \<Longrightarrow>
      succs (graph (strip_marks A rem)) s = map (\<lambda>(q, x). (q, x\<lparr>acc := mark_strip (acc x) rem\<rparr>)) (succs (graph A) s)"
    "twa_acc (strip_marks A rem) = twa_acc A" "init_number (strip_marks A rem) = init_number A"
proof -
  let ?g = "graph A"
  define es where "es = map (\<lambda>t. if is_valid_edge ?g t \<and> t \<noteq> 0
     then (edge A t)\<lparr>e_data := (e_data (edge A t))\<lparr>acc := mark_strip (e_acc (edge A t)) rem\<rparr>\<rparr> else edge A t) [0..<length (edges ?g)]"
  have B: "graph (strip_marks A rem) = ?g\<lparr>edges := es\<rparr>" by (simp add: strip_marks_def es_def)
  have wf: "wf_graph ?g" "is_existential ?g" "wf_twa_graph ?g" using assms by (auto simp: wf_twa_def wf_twa_graph_def)
  have len: "length es = length (edges ?g)" by (simp add: es_def)
  have "\<forall>t < length es. next_succ (es ! t) = next_succ (edges ?g ! t) \<and> e_src (es ! t) = e_src (edges ?g ! t) \<and>
      e_dst (es ! t) = e_dst (edges ?g ! t)" by (simp add: es_def)
  note sr = succs_relabel [OF wf(1) len this]
  show n: "num_states (graph (strip_marks A rem)) = num_states ?g" unfolding B by (rule sr)
  show su: "succs (graph (strip_marks A rem)) s = map (\<lambda>(q, x). (q, x\<lparr>acc := mark_strip (acc x) rem\<rparr>)) (succs ?g s)"
    if s: "s < num_states ?g" for s
  proof -
    have "e_data (es ! t) = (e_data (edge A t))\<lparr>acc := mark_strip (e_acc (edge A t)) rem\<rparr>" if "t \<in> set (out ?g s)" for t
      using that unfolding out_valid [OF wf(1) s] by (simp add: es_def is_valid_edge_def)
    then show ?thesis unfolding B sr(3) [OF s] by (simp add: succs_def)
  qed
  show acc: "twa_acc (strip_marks A rem) = twa_acc A" "init_number (strip_marks A rem) = init_number A"
    by (simp_all add: strip_marks_def)
  have "wf_twa_graph (graph (strip_marks A rem))" unfolding wf_succs n
  proof (intro conjI allI impI)
    show "wf_graph (graph (strip_marks A rem))" "is_existential (graph (strip_marks A rem))" unfolding B using sr wf by simp_all
    fix s assume s: "s < num_states ?g"
    show "\<forall>(q, x) \<in> set (succs (graph (strip_marks A rem)) s). q < num_states ?g"
      unfolding su [OF s] using wf(3) s unfolding wf_succs by auto
  qed
  then show "wf_twa (strip_marks A rem)" using assms unfolding wf_twa_def n acc by blast
qed

lemma strip_marks_delta:
  assumes "wf_twa A"
  shows "delta (graph (strip_marks A rem)) p a m q \<longleftrightarrow> (\<exists>n. delta (graph A) p a n q \<and> m = mark_strip n rem)"
  unfolding delta_succs strip_marks_spec(2) [OF assms] using strip_marks_spec(3) [OF assms, of p rem]
  by (cases "p < num_states (graph A)") force+

lemma strip_marks_paths:
  assumes "wf_twa A"
  shows "(\<exists>m. is_path (delta (graph (strip_marks A rem))) w p m \<and> P (inf_mark m)) \<longleftrightarrow>
    (\<exists>m. is_path (delta (graph A)) w p m \<and> P (mark_strip (inf_mark m) rem))"
proof -
  have "is_path (delta (graph (strip_marks A rem))) w p m \<longleftrightarrow> (\<exists>n. is_path (delta (graph A)) w p n \<and> m = (\<lambda>i. mark_strip (n i) rem))" for m
    unfolding is_path_def strip_marks_delta [OF assms] by (auto simp: fun_eq_iff choice_iff)
  then show ?thesis using inf_mark_strip by metis
qed

text \<open>A condition over declared sets.\<close>

definition fits :: "('l, 'n::len) twa_graph \<Rightarrow> bool" where
  "fits A \<longleftrightarrow> code_over (bits (all_sets (twa_acc A))) (get_acceptance (twa_acc A)) \<and>
     bits (all_sets (twa_acc A)) = {..<num_sets (twa_acc A)}"

abbreviation cond_size :: "('l, 'n::len) twa_graph \<Rightarrow> nat" where
  "cond_size A \<equiv> num_sets (twa_acc A) + card (bits (used_sets (get_acceptance (twa_acc A))))"

lemma cond_size_bound: "fits A \<Longrightarrow> cond_size A \<le> 2 * num_sets (twa_acc A)"
  using used_code_over [of _ "get_acceptance (twa_acc A)"] card_mono [of "{..<num_sets (twa_acc A)}"]
  unfolding fits_def by fastforce

lemma twa_set_acceptance_inv:
  fixes A :: "('l, 'n::len) twa_graph"
  assumes "n \<le> LENGTH('n)" "LENGTH('n) < 2 ^ 32"
  obtains a where "twa_set_acceptance A n c = Inr (A\<lparr>twa_acc := a\<rparr>)" "get_acceptance a = c" "num_sets a = n" "bits (all_sets a) = {..<n}"
proof -
  obtain a :: "'n cond" where "acc_cond n c = Inr a" "get_acceptance a = c" "num_sets a = n" "bits (all_sets a) = {..<n}"
    using acc_cond_ok [OF assms, of c] unfolding cond_inv_def by auto
  then show thesis by (intro that [of a]) (simp_all add: twa_set_acceptance_def)
qed

text \<open>What a step keeps.\<close>

definition cleaned :: "('l, 'n::len) twa_graph \<Rightarrow> ('l, 'n) twa_graph \<Rightarrow> bool" where
  "cleaned A B \<longleftrightarrow> wf_twa B \<and> fits B \<and> (\<forall>w. accepts B w \<longleftrightarrow> accepts A w) \<and>
     num_states (graph B) = num_states (graph A) \<and>
     (\<forall>s < num_states (graph A). map fst (succs (graph B) s) = map fst (succs (graph A) s) \<and> out_conds B s = out_conds A s) \<and>
     init_number B = init_number A \<and> props B = props A \<and> num_sets (twa_acc B) \<le> num_sets (twa_acc A)"

lemma cleaned_refl: "wf_twa A \<Longrightarrow> fits A \<Longrightarrow> cleaned A A"
  by (simp add: cleaned_def)

lemma cleaned_trans: "cleaned A B \<Longrightarrow> cleaned B C \<Longrightarrow> cleaned A C"
  unfolding cleaned_def by (elim conjE) (simp add: le_trans)

lemma cleanup_code:
  fixes A :: "('l, 'n::len) twa_graph"
  assumes "fits A" and "e = used_on_all_edges A" and "ul = useless_sets_of st A"
    and "c = get_acceptance (twa_acc A)" and "d = (if e \<noteq> 0 then remove_sets c e False else c)"
  shows "code_over (bits (used_sets c) - bits e) d"
    "\<And>m. bits e \<subseteq> bits m \<Longrightarrow> bits m \<subseteq> bits (used_in_aut A) \<Longrightarrow> accepting d (mark_minus m ul) = accepting c m"
proof -
  have c: "code_over (bits (used_sets c)) c"
    using assms(1) code_over_used unfolding fits_def assms(4) code_over_def by blast
  show d: "code_over (bits (used_sets c) - bits e) d"
  proof (cases "e = 0")
    case True
    then show ?thesis using c assms(5) by (simp add: bits_def)
  next
    case False
    then show ?thesis using strip_over(1) [OF c] assms(5) by simp
  qed
  have used: "bits (used_sets c) \<subseteq> bits (all_sets (twa_acc A))" using assms(1,4) used_code_over unfolding fits_def by blast
  show "accepting d (mark_minus m ul) = accepting c m" if e: "bits e \<subseteq> bits m" and m: "bits m \<subseteq> bits (used_in_aut A)" for m
  proof -
    have "m OR e = m"
      by (rule bit_word_eqI) (use e in \<open>auto simp: bit_or_iff\<close>)
    then have "accepting d m = accepting c m"
      using strip_over(3) [OF c, of e False m] assms(5) by (simp add: removed_view_def)
    moreover have "accepting d (mark_minus m ul) = accepting d m"
    proof (rule accepting_code_over [OF d])
      fix i assume i: "i \<in> bits (used_sets c) - bits e"
      have "\<not> (bit m i \<and> bit ul i)"
        using i m used unfolding assms(2-4) useless_sets_of_def useful_sets_def comp_def
        by (auto simp: bit_or_iff bit_xor_iff bit_and_iff mark_minus_def bit_not_iff)
      then show "bit (mark_minus m ul) i = bit m i" by (auto simp: mark_minus_def bit_and_iff bit_not_iff dest: bit_imp_le_length)
    qed
    ultimately show ?thesis by simp
  qed
qed

lemma cleanup_step_spec:
  fixes A :: "('l, 'n::len) twa_graph"
  assumes A: "wf_twa A" "fits A" and len: "num_sets (twa_acc A) \<le> LENGTH('n)" "LENGTH('n) < 2 ^ 32"
    and ul: "useless_sets_of st A \<noteq> 0"
  shows "\<exists>B. cleanup_step st A = Inr B \<and> cleaned A B \<and> cond_size B < cond_size A"
proof -
  define c where "c = get_acceptance (twa_acc A)"
  define e where "e = used_on_all_edges A"
  define ul where "ul = useless_sets_of st A"
  define d where "d = (if e \<noteq> 0 then remove_sets c e False else c)"
  note code = cleanup_code [OF A(2) e_def ul_def c_def d_def]
  have wf: "wf_graph (graph A)" using A(1) unfolding wf_twa_def wf_twa_graph_def by blast
  have used: "bits (used_sets c) \<subseteq> bits (all_sets (twa_acc A))" "bits (all_sets (twa_acc A)) = {..<num_sets (twa_acc A)}"
    using A(2) used_code_over unfolding fits_def c_def by blast+
  have e: "bits e \<subseteq> bits (used_sets c)" unfolding e_def c_def using bit_used_on_all [of A] by auto
  have inf: "accepting d (mark_minus (inf_mark m) ul) = accepting c (inf_mark m)" if "is_path (delta (graph A)) w p m" for w p m
    by (intro code(2)) (use path_inf_mark [OF wf that] in \<open>auto simp: e_def simp del: bit_inf_mark\<close>)
  show ?thesis
  proof (cases st)
    case True
    define B where "B = strip_marks A ul"
    note sp = strip_marks_spec [OF A(1), where rem = ul, folded B_def]
    let ?n = "mark_count (useful_sets A)"
    have n: "?n = card (bits (useful_sets A))" by (rule mark_count_card)
    have uf: "bits (useful_sets A) = bits (used_in_aut A) \<inter> bits (used_sets c)"
      unfolding useful_sets_def c_def by (auto simp: bit_and_iff)
    have "bits (useful_sets A) \<subseteq> {..<num_sets (twa_acc A)}" using uf used by blast
    then have le: "?n \<le> num_sets (twa_acc A)" unfolding n using card_mono [of "{..<num_sets (twa_acc A)}"] by simp
    obtain a where a: "twa_set_acceptance B ?n (strip d ul True) = Inr (B\<lparr>twa_acc := a\<rparr>)" "get_acceptance a = strip d ul True"
      "num_sets a = ?n" "bits (all_sets a) = {..<?n}"
      by (rule twa_set_acceptance_inv [OF le_trans [OF le len(1)] len(2)]) (rule that; assumption)
    have ul: "bits ul = ({..<num_sets (twa_acc A)} - bits (useful_sets A)) \<union> bits e"
      unfolding ul_def useless_sets_of_def comp_def e_def using True used uf by (auto simp: bit_or_iff bit_xor_iff set_eq_iff)
    have over: "code_over (renumber (bits ul) ` (bits (used_sets c) - bits e - bits ul)) (strip d ul True)"
      by (rule strip_over(2) [OF code(1)])
    have eq: "bits (used_sets c) - bits e - bits ul = bits (useful_sets A) - bits e" using ul uf used by auto
    have ren: "renumber (bits ul) i < ?n" if i: "i \<in> bits (useful_sets A)" for i
    proof -
      have "i \<in> {..<num_sets (twa_acc A)}" using i uf used by blast
      then have "{..<i} \<subseteq> {..<num_sets (twa_acc A)}" by auto
      moreover have "X - (N - U \<union> E) \<subseteq> U" if "X \<subseteq> N" for X N U E :: "nat set" using that by blast
      ultimately have "{..<i} - bits ul \<subseteq> bits (useful_sets A)" unfolding ul by metis
      moreover have "i \<notin> {..<i} - bits ul" by simp
      ultimately have "{..<i} - bits ul \<subset> bits (useful_sets A)" using i by blast
      then have "card ({..<i} - bits ul) < ?n" unfolding n by (rule psubset_card_mono [OF finite_bits])
      moreover have "card ({..<i} - bits ul) = i - card ({j \<in> bits ul. j < i})"
      proof -
        have "{..<i} \<inter> bits ul = {j \<in> bits ul. j < i}" by blast
        then show ?thesis by (simp add: card_Diff_subset_Int)
      qed
      ultimately show ?thesis by (simp add: renumber_def)
    qed
    let ?C = "B\<lparr>twa_acc := a\<rparr>"
    have "fits ?C" unfolding fits_def using a over ren unfolding eq
      by (auto intro: code_over_mono)
    moreover have "accepts ?C w \<longleftrightarrow> accepts A w" for w
    proof -
      have acc: "accepting (strip d ul True) (mark_strip m ul) = accepting d (mark_minus m ul)" for m
        using strip_over(4) [OF code(1), of ul True m] by (simp add: removed_view_def)
      have "accepts ?C w \<longleftrightarrow> (\<exists>p m. p 0 = init_number A \<and> is_path (delta (graph A)) w p m \<and> accepting d (mark_minus (inf_mark m) ul))"
        unfolding accepts_def using strip_marks_paths [OF A(1), of ul w, folded B_def, where P = "accepting (strip d ul True)"]
        by (auto simp: cond_accepting_def a(2) acc sp(5))
      also have "\<dots> \<longleftrightarrow> accepts A w" unfolding accepts_def cond_accepting_def c_def [symmetric] using inf by blast
      finally show ?thesis .
    qed
    moreover have "cond_size ?C < cond_size A"
    proof -
      have "bits (used_sets (strip d ul True)) \<subseteq> renumber (bits ul) ` (bits (useful_sets A) - bits e)"
        using used_code_over [OF over] unfolding eq .
      then have "card (bits (used_sets (strip d ul True))) \<le> card (renumber (bits ul) ` (bits (useful_sets A) - bits e))"
        by (intro card_mono) auto
      also have "\<dots> \<le> card (bits (useful_sets A) - bits e)" by (rule card_image_le) simp
      finally have u: "card (bits (used_sets (strip d ul True))) \<le> card (bits (useful_sets A) - bits e)" .
      have u2: "card (bits (useful_sets A) - bits e) \<le> ?n" "?n \<le> card (bits (used_sets c))"
        unfolding n uf by (intro card_mono; auto)+
      have "?n < num_sets (twa_acc A) \<or> card (bits (useful_sets A) - bits e) < ?n"
      proof (rule disjCI)
        assume "\<not> card (bits (useful_sets A) - bits e) < ?n"
        then have "bits (useful_sets A) - bits e = bits (useful_sets A)"
          unfolding n using psubset_card_mono [of "bits (useful_sets A)"] by auto
        then have "bits ul = {..<num_sets (twa_acc A)} - bits (useful_sets A) \<union> (bits e - bits (useful_sets A))" using ul by auto
        moreover have "ul \<noteq> 0" using assms(5) unfolding ul_def .
        then have "bits ul \<noteq> {}" by (auto simp: bits_def bit_eq_iff)
        ultimately have "bits (useful_sets A) \<noteq> {..<num_sets (twa_acc A)}" using e used by blast
        then show "?n < num_sets (twa_acc A)"
          unfolding n using psubset_card_mono [of "{..<num_sets (twa_acc A)}" "bits (useful_sets A)"] uf used by auto
      qed
      then show ?thesis using u u2 le a(2,3) unfolding c_def by auto
    qed
    moreover have "cleanup_step st A = Inr ?C"
      using True a(1) unfolding cleanup_step_def Let_def e_def [symmetric] ul_def [symmetric] c_def [symmetric] d_def [symmetric] B_def by simp
    moreover have "wf_twa ?C" using sp(1) by (simp add: wf_twa_def)
    moreover have "map fst (succs (graph B) s) = map fst (succs (graph A) s) \<and> conds (succs (graph B) s) = conds (succs (graph A) s)"
      if "s < num_states (graph A)" for s
      unfolding sp(3) [OF that] conds_def by (simp add: case_prod_unfold comp_def)
    ultimately show ?thesis
      unfolding cleaned_def out_conds_conds using sp(2,5) le a(3) by (intro exI [of _ ?C]) (simp add: B_def strip_marks_def)
  next
    case False
    obtain a where a: "twa_set_acceptance A (twa_num_sets A) (remove_sets d ul True) = Inr (A\<lparr>twa_acc := a\<rparr>)"
      "get_acceptance a = remove_sets d ul True" "num_sets a = twa_num_sets A" "bits (all_sets a) = {..<twa_num_sets A}"
      by (rule twa_set_acceptance_inv [OF len(1) [folded twa_num_sets_def] len(2)]) (rule that; assumption)
    have ul: "bits ul = (bits (used_sets c) - bits (used_in_aut A)) \<union> bits e"
      unfolding ul_def useless_sets_of_def e_def c_def using False
      by (auto simp: bit_or_iff mark_minus_def bit_and_iff bit_not_iff dest: bit_imp_le_length)
    have over: "code_over (bits (used_sets c) - bits e - bits ul) (remove_sets d ul True)" by (rule strip_over(1) [OF code(1)])
    let ?C = "A\<lparr>twa_acc := a\<rparr>"
    have "fits ?C" unfolding fits_def using a over used by (auto intro: code_over_mono simp: twa_num_sets_def)
    moreover have "accepts ?C w \<longleftrightarrow> accepts A w" for w
    proof -
      have acc: "accepting (remove_sets d ul True) m = accepting d (mark_minus m ul)" for m
        using strip_over(3) [OF code(1), of ul True m] by (simp add: removed_view_def)
      have "accepts ?C w \<longleftrightarrow> (\<exists>p m. p 0 = init_number A \<and> is_path (delta (graph A)) w p m \<and> accepting d (mark_minus (inf_mark m) ul))"
        by (simp add: accepts_def cond_accepting_def a(2) acc)
      also have "\<dots> \<longleftrightarrow> accepts A w" unfolding accepts_def cond_accepting_def c_def [symmetric] using inf by blast
      finally show ?thesis .
    qed
    moreover have "cond_size ?C < cond_size A"
    proof -
      have "bits (used_sets (remove_sets d ul True)) \<subseteq> bits (used_sets c) - bits ul" using used_code_over [OF over] by blast
      moreover have "ul \<noteq> 0" using assms(5) unfolding ul_def .
      then have "bits ul \<noteq> {}" by (auto simp: bits_def bit_eq_iff)
      ultimately have "bits (used_sets (remove_sets d ul True)) \<subset> bits (used_sets c)" using ul e by blast
      then have "card (bits (used_sets (remove_sets d ul True))) < card (bits (used_sets c))" by (intro psubset_card_mono) auto
      then show ?thesis using a(2,3) unfolding c_def by (simp add: twa_num_sets_def)
    qed
    moreover have "cleanup_step st A = Inr ?C"
      using False a(1) unfolding cleanup_step_def Let_def e_def [symmetric] ul_def [symmetric] c_def [symmetric] d_def [symmetric] by simp
    moreover have "wf_twa ?C" using A(1) by (simp add: wf_twa_def)
    ultimately show ?thesis
      unfolding cleaned_def out_conds_conds using a(3) by (intro exI [of _ ?C]) (simp add: twa_num_sets_def)
  qed
qed

section \<open>The cleaning ends and keeps the language\<close>

lemma cleanup_rec_spec:
  fixes A :: "('l, 'n::len) twa_graph"
  assumes "wf_twa A" "fits A" "num_sets (twa_acc A) \<le> LENGTH('n)" "LENGTH('n) < 2 ^ 32" "cond_size A < n"
  shows "\<exists>B. cleanup_rec n st A = Inr (Some B) \<and> cleaned A B \<and> (num_sets (twa_acc B) = 0 \<or> useless_sets_of st B = 0)"
  using assms
proof (induction n arbitrary: A)
  case (Suc n)
  show ?case
  proof (cases "twa_num_sets A = 0 \<or> useless_sets_of st A = 0")
    case True
    then show ?thesis using cleaned_refl [OF Suc.prems(1,2)] by (auto simp: twa_num_sets_def)
  next
    case False
    then obtain B where B: "cleanup_step st A = Inr B" "cleaned A B" "cond_size B < cond_size A"
      using cleanup_step_spec [OF Suc.prems(1-4)] by blast
    then have "wf_twa B" "fits B" "num_sets (twa_acc B) \<le> LENGTH('n)" using Suc.prems(3) unfolding cleaned_def by auto
    from Suc.IH [OF this Suc.prems(4)] B(3) Suc.prems(5) obtain C where
      "cleanup_rec n st B = Inr (Some C)" "cleaned B C" "num_sets (twa_acc C) = 0 \<or> useless_sets_of st C = 0" by auto
    then show ?thesis using B False cleaned_trans [OF B(2)] by auto
  qed
qed simp

lemma cleanup_here_spec:
  fixes A :: "('l, 'n::len) twa_graph"
  assumes "wf_twa A" "fits A" "num_sets (twa_acc A) \<le> LENGTH('n)" "LENGTH('n) < 2 ^ 32"
  shows "\<exists>B. cleanup_acceptance_here A st = Inr (Some B) \<and> cleaned A B \<and> (num_sets (twa_acc B) = 0 \<or> useless_sets_of st B = 0)"
  unfolding cleanup_acceptance_here_def
  by (rule cleanup_rec_spec [OF assms]) (use cond_size_bound [OF assms(2)] in \<open>simp add: twa_num_sets_def\<close>)

lemma nothing_useless:
  assumes "fits B" "useless_sets_of True B = 0" "i < num_sets (twa_acc B)"
  shows "i \<in> bits (used_sets (get_acceptance (twa_acc B))) \<and> (\<exists>t \<in> set (all_edges (graph B)). bit (e_acc (edge B t)) i) \<and>
    (\<exists>t \<in> set (all_edges (graph B)). \<not> bit (e_acc (edge B t)) i)"
proof -
  have "\<not> bit (useless_sets_of True B) i" using assms(2) by simp
  moreover have "bit (all_sets (twa_acc B)) i" using assms(1,3) unfolding fits_def by (auto simp: bits_def set_eq_iff)
  ultimately show ?thesis
    unfolding useless_sets_of_def comp_def useful_sets_def
    using bit_used_in_aut [of B i] bit_used_on_all [of B i] by (auto simp: bit_or_iff bit_xor_iff bit_and_iff)
qed

text \<open>
  Property C11: \<open>cleanup_acceptance_here\<close> ends within twice as many calls as there are sets, on an automaton with
  the same states, letters and language; with \<open>strip\<close>, each set that is left occurs in the condition, on some
  edge and not on all edges.
\<close>

theorem cleanup_acceptance_sound:
  fixes A :: "('l, 'n::len) twa_graph"
  assumes "wf_twa A" "fits A" "num_sets (twa_acc A) \<le> LENGTH('n)" "LENGTH('n) < 2 ^ 32"
  shows "\<exists>B. cleanup_acceptance_here A st = Inr (Some B) \<and> wf_twa B \<and> (\<forall>w. accepts B w \<longleftrightarrow> accepts A w) \<and>
    num_states (graph B) = num_states (graph A) \<and> (\<forall>s < num_states (graph A). out_conds B s = out_conds A s) \<and>
    num_sets (twa_acc B) \<le> num_sets (twa_acc A) \<and>
    (st \<longrightarrow> (\<forall>i < num_sets (twa_acc B). i \<in> bits (used_sets (get_acceptance (twa_acc B))) \<and>
       (\<exists>t \<in> set (all_edges (graph B)). bit (e_acc (edge B t)) i) \<and>
       (\<exists>t \<in> set (all_edges (graph B)). \<not> bit (e_acc (edge B t)) i)))"
proof -
  obtain B where B: "cleanup_acceptance_here A st = Inr (Some B)" "cleaned A B"
    "num_sets (twa_acc B) = 0 \<or> useless_sets_of st B = 0"
    using cleanup_here_spec [OF assms] by blast
  have "fits B" using B(2) unfolding cleaned_def by blast
  then have "st \<longrightarrow> (\<forall>i < num_sets (twa_acc B). i \<in> bits (used_sets (get_acceptance (twa_acc B))) \<and>
       (\<exists>t \<in> set (all_edges (graph B)). bit (e_acc (edge B t)) i) \<and>
       (\<exists>t \<in> set (all_edges (graph B)). \<not> bit (e_acc (edge B t)) i))"
    using B(3) nothing_useless [of B] by auto
  then show ?thesis using B(1,2) unfolding cleaned_def by blast
qed

text \<open>Three sets: \<open>0\<close> on one of two loops, \<open>1\<close> on both, \<open>2\<close> on none; the condition is \<open>Inf(0) & Inf(1) & Fin(2)\<close>.\<close>

definition three_sets :: "(bool, 32) twa_graph" where
  "three_sets = explicit_twa 1 0 \<lparr>num_sets = 3, all_sets = 7, get_acceptance = enc (TAnd [TInf 3, TFin 4]), uses_fin_acceptance = True\<rparr>
     [(0, 0, {True}, 3), (0, 0, {False}, 2)]"

lemma bits_mask: "n \<le> 32 \<Longrightarrow> bits (mask n :: 32 mark_t) = {..<n}"
  by (auto simp: bits_def bit_mask_iff)

lemma three_sets_ok: "wf_twa three_sets" "fits three_sets" "num_sets (twa_acc three_sets) = 3" "num_states (graph three_sets) = 1"
proof -
  have ok: "list_all (\<lambda>(s, d, c, m). s < (1 :: nat) \<and> d < (1 :: nat)) [(0, 0, {True}, 3 :: 32 mark_t), (0, 0, {False}, 2)]" "0 < (1 :: nat)"
    by simp_all
  note sp = explicit_twa_spec [OF ok, where a = "\<lparr>num_sets = 3, all_sets = 7, get_acceptance = enc (TAnd [TInf 3, TFin 4]), uses_fin_acceptance = True\<rparr>",
      folded three_sets_def]
  show "wf_twa three_sets" "num_states (graph three_sets) = 1" by (rule sp)+
  show "num_sets (twa_acc three_sets) = 3" unfolding sp(4) by simp
  have three: "bits (3 :: 32 mark_t) = {..<2}" and seven: "bits (7 :: 32 mark_t) = {..<3}"
    using bits_mask [of 2] bits_mask [of 3] by (simp_all add: mask_eq_exp_minus_1)
  have b: "bits (3 :: 32 mark_t) \<subseteq> {..<3}" "bits (4 :: 32 mark_t) \<subseteq> {..<3}"
    using three bits_exp [of 2, where 'n = 32] by auto
  have "within {..<3} (TAnd [TInf 3, TFin (4 :: 32 mark_t)])" by (simp add: b)
  then show "fits three_sets" unfolding fits_def sp(4) code_over_def using seven
    by (intro conjI exI [of _ "TAnd [TInf 3, TFin 4]"]) (simp_all add: tree_ok_def)
qed

theorem cleanup_acceptance_sound_witness:
  "\<exists>B. cleanup_acceptance_here three_sets True = Inr (Some B) \<and> wf_twa B \<and> (\<forall>w. accepts B w \<longleftrightarrow> accepts three_sets w) \<and>
     num_states (graph B) = 1 \<and> num_sets (twa_acc B) \<le> 3"
  using cleanup_acceptance_sound [OF three_sets_ok(1,2), of True] three_sets_ok(3,4) by auto

end
