(* ===== verification/Complement.thy ===== *)
theory Complement
  imports CleanAcc
begin

text \<open>
  Complementing a deterministic automaton (twaalgos/complement.cc, twaalgos/dualize.cc): \<open>dtwa_complement\<close>
  dualizes it, which for a deterministic automaton completes it, cleans its acceptance and negates the
  condition.  The part of the dualizer that handles nondeterministic and alternating automata, which works on
  BDDs over the states, is not modelled.
\<close>

section \<open>The complementation\<close>

text \<open>The dual of an automaton that accepts every word.\<close>

definition false_automaton :: "('l, 'n::len) twa_graph \<Rightarrow> twa_error + ('l, 'n) twa_graph" where
  "false_automaton A =
    (let res = copy_ap_of (make_twa_graph (dict A)) A;
         res = fst (twa_new_states res 1);
         res = fst (twa_new_edge res 0 0 UNIV 0); yes = trival_of_bool True
     in bind_sum (set_init_state res 0) (\<lambda>res. bind_sum (twa_set_acceptance res 0 code_f) (\<lambda>res.
        Inr (update_props (set_universal yes \<circ> set_complete yes \<circ> set_terminal yes) res))))"

text \<open>\<open>dualizer::run\<close> on an automaton found deterministic; each query may record its answer.\<close>

definition dualize_deterministic :: "('l, 'n::len) twa_graph \<Rightarrow> twa_error + ('l, 'n) twa_graph option" where
  "dualize_deterministic A =
    (let A = snd (is_universal A);
         (cmpl, A) = is_complete A;
         um = unsat_mark (twa_acc A)
     in if \<not> fst um \<and> cmpl then bind_sum (false_automaton A) (\<lambda>res. Inr (Some res))
        else let A = snd (is_deterministic A)
          in bind_sum (complete A) (\<lambda>res. bind_sum (cleanup_acceptance_here res True) (\<lambda>cleaned.
               case cleaned of None \<Rightarrow> Inr None
               | Some res \<Rightarrow> bind_sum (twa_set_acceptance res (twa_num_sets res) (complement (get_acceptance (twa_acc res))))
                   (\<lambda>res. Inr (Some (update_props (set_terminal trival_maybe \<circ> prop_keep prop_set_all) res))))))"

definition dtwa_complement :: "('l, 'n::len) twa_graph \<Rightarrow> twa_error + ('l, 'n) twa_graph option" where
  "dtwa_complement A =
    (let (det, A) = is_deterministic A in if \<not> det then Inl Not_deterministic else dualize_deterministic A)"

section \<open>The language of the complement\<close>

lemma is_complete_spec:
  assumes "wf_twa A" "is_true (complete_prop (props A)) \<longrightarrow> total A"
  obtains f where "snd (is_complete A) = update_props f A" "fst (is_complete A) \<longrightarrow> total A"
    "is_true (complete_prop (f (props A))) \<longrightarrow> total A"
proof -
  let ?n = "num_states (graph A)"
  have n: "0 < ?n" using assms(1) unfolding wf_twa_def by auto
  have t: "list_ex (\<lambda>s. missing (out_conds A s) \<noteq> {}) [0..<?n] \<longleftrightarrow> \<not> total A"
    unfolding total_missing by (auto simp: list_ex_iff)
  show thesis
  proof (cases "is_known (complete_prop (props A))")
    case True
    then show thesis using assms(2) by (intro that [of id]) (simp_all add: is_complete_def)
  next
    case False
    then show thesis using n t
      by (intro that [of "set_complete (trival_of_bool (total A))"])
        (auto simp: is_complete_def Let_def set_complete_def is_true_def trival_of_bool_def)
  qed
qed

lemma num_sets_fit:
  fixes a :: "'n::len cond"
  assumes "bits (all_sets a) = {..<num_sets a}"
  shows "num_sets a \<le> LENGTH('n)"
proof (rule ccontr)
  assume "\<not> num_sets a \<le> LENGTH('n)"
  then have "LENGTH('n) \<in> bits (all_sets a)" using assms by auto
  then show False using bit_imp_le_length by auto
qed

lemma cond_ok_fits:
  assumes "cond_ok (twa_acc A)"
  shows "fits A"
proof -
  obtain t where t: "get_acceptance (twa_acc A) = enc t" "tree_ok t" "plain t"
    using assms unfolding cond_ok_def wf_sat_def by blast
  have "bits (used_sets (get_acceptance (twa_acc A))) \<subseteq> bits (all_sets (twa_acc A))" "bits (all_sets (twa_acc A)) = {..<num_sets (twa_acc A)}"
    using assms unfolding cond_ok_def wf_sat_def by blast+
  then show ?thesis unfolding fits_def using code_over_mono [OF code_over_used [OF t]] by blast
qed

lemma copy_ap_fields: "graph (copy_ap_of B A) = graph B" "init_number (copy_ap_of B A) = init_number B"
proof -
  have "graph (fold register_ap fs B) = graph B \<and> init_number (fold register_ap fs B) = init_number B" for fs
    by (induction fs arbitrary: B) (auto simp: register_ap_def)
  then show "graph (copy_ap_of B A) = graph B" "init_number (copy_ap_of B A) = init_number B" by (simp_all add: copy_ap_of_def)
qed

lemma false_automaton_spec:
  fixes A :: "('l, 'n::len) twa_graph"
  assumes "LENGTH('n) < 2 ^ 32"
  shows "\<exists>B. false_automaton A = Inr B \<and> wf_twa B \<and> (\<forall>w. \<not> accepts B w)"
proof -
  let ?g = "digraph0 \<lparr>cond = {}, acc = 0\<rparr> :: (unit, ('l, 'n mark_t) edge_label) digraph"
  define g1 where "g1 = fst (new_states ?g 1 ())"
  define g2 where "g2 = fst (new_edge g1 0 0 \<lparr>cond = UNIV, acc = 0\<rparr>)"
  have g0: "wf_graph ?g" "num_states ?g = 0" "is_existential ?g"
    by (rule wf_digraph0, simp_all add: digraph0_def num_states_def is_existential_def)
  note g1 = succs_new_states [OF g0(1), where n = 1 and d = "()", folded g1_def]
  have n1: "num_states g1 = 1" using g1(2) g0(2) by simp
  have "0 < num_states g1" using n1 by simp
  note g2 = succs_new_edge [OF g1(1) this, where d = 0 and x = "\<lparr>cond = UNIV, acc = 0\<rparr>", folded g2_def]
  define C where "C = fst (twa_new_edge (fst (twa_new_states (copy_ap_of (make_twa_graph (dict A)) A) 1)) 0 0 UNIV (0 :: 'n mark_t))"
  have f: "graph (fst (twa_new_edge X s d c m)) = fst (new_edge (graph X) s d \<lparr>cond = c, acc = m\<rparr>)"
    "init_number (fst (twa_new_edge X s d c m)) = init_number X"
    "graph (fst (twa_new_states X k)) = fst (new_states (graph X) k ())" "init_number (fst (twa_new_states X k)) = init_number X"
    for X :: "('l, 'n) twa_graph" and s d c m k
    by (simp_all add: twa_new_edge_def twa_new_states_def split: prod.split)
  have C: "graph C = g2" "init_number C = 0"
    by (simp_all add: C_def f copy_ap_fields make_twa_graph_def g1_def g2_def)
  have gn: "num_states g2 = 1" using g2(2) n1 by simp
  have init: "set_init_state C 0 = Inr (C\<lparr>init_number := 0\<rparr>)" using gn by (simp add: set_init_state_def C is_univ_dest_def univ_bit_def)
  obtain a where a: "twa_set_acceptance (C\<lparr>init_number := 0\<rparr>) 0 code_f = Inr (C\<lparr>init_number := 0, twa_acc := a\<rparr>)"
    "get_acceptance a = (code_f :: 'n acc_code)"
    by (rule twa_set_acceptance_inv [OF le0 assms, where A = "C\<lparr>init_number := 0\<rparr>" and c = code_f]) (rule that; assumption)
  let ?f = "set_universal (trival_of_bool True) \<circ> set_complete (trival_of_bool True) \<circ> set_terminal (trival_of_bool True)"
  let ?B = "update_props ?f (C\<lparr>init_number := 0, twa_acc := a\<rparr>)"
  have "false_automaton A = Inr ?B"
    using init a(1) unfolding false_automaton_def Let_def C_def [symmetric] by simp
  moreover have "wf_twa ?B" unfolding wf_twa_def wf_succs using g1(5,6) g0(2,3) g2(1,3,4) gn n1 by (auto simp: C less_Suc_eq)
  moreover have "\<not> cond_accepting a m" for m
    using accepting_enc [of "TFin 0" m bot] a(2) by (simp add: cond_accepting_def code_f_def tree_ok_def)
  then have "\<not> accepts ?B w" for w by (simp add: accepts_def)
  ultimately show ?thesis by blast
qed

lemma negated_language:
  fixes A :: "('l, 'n::len) twa_graph"
  assumes A: "wf_twa A" "total A" "no_overlap A" "fits A" and len: "LENGTH('n) < 2 ^ 32"
  shows "\<exists>B. twa_set_acceptance A (twa_num_sets A) (complement (get_acceptance (twa_acc A))) = Inr B \<and> wf_twa B \<and>
    (\<forall>w. accepts B w \<longleftrightarrow> \<not> accepts A w)"
proof -
  let ?c = "get_acceptance (twa_acc A)"
  obtain t where t: "?c = enc t" "tree_ok t" "plain t" using A(4) unfolding fits_def code_over_def by blast
  obtain t' where t': "complement (enc t) = enc t'" "tree_ok t'" "plain t'" "\<And>I J. tree_sat I J t' \<longleftrightarrow> \<not> tree_sat I J t"
    using complement_enc [OF t(2)] t(3) by metis
  have neg: "accepting (complement ?c) m \<longleftrightarrow> \<not> accepting ?c m" for m
    unfolding t(1) t'(1) accepting_enc [OF t(2,3), of _ bot] accepting_enc [OF t'(2,3), of _ bot] t'(4) ..
  have "twa_num_sets A \<le> LENGTH('n)" using A(4) num_sets_fit unfolding fits_def twa_num_sets_def by blast
  then obtain a where a: "twa_set_acceptance A (twa_num_sets A) (complement ?c) = Inr (A\<lparr>twa_acc := a\<rparr>)"
    "get_acceptance a = complement ?c"
    by (rule twa_set_acceptance_inv [OF _ len]) (rule that; assumption)
  let ?B = "A\<lparr>twa_acc := a\<rparr>"
  have "accepts ?B w \<longleftrightarrow> \<not> accepts A w" for w
  proof -
    have "init_number A < num_states (graph A)" using A(1) unfolding wf_twa_def by blast
    from total_run [OF A(1,2) this] obtain m where m: "runs_from A (init_number A) w m" by blast
    have one: "runs_from A (init_number A) w n \<longleftrightarrow> n = m" for n using no_overlap_runs [OF A(3) _ m] m by blast
    have "runs_from ?B (init_number ?B) w n \<longleftrightarrow> n = m" for n using one unfolding runs_from_def by simp
    then have "accepts ?B w \<longleftrightarrow> accepting (complement ?c) (inf_mark m)"
      unfolding accepts_runs by (simp add: cond_accepting_def a(2))
    also have "\<dots> \<longleftrightarrow> \<not> accepts A w" unfolding accepts_runs one neg by (simp add: cond_accepting_def)
    finally show ?thesis .
  qed
  then show ?thesis using a(1) A(1) by (intro exI [of _ ?B]) (simp add: wf_twa_def)
qed

lemma complement_deterministic:
  fixes A :: "('l, 'n::len) twa_graph"
  assumes A: "wf_twa A" "cond_ok (twa_acc A)" "well_marked A" "num_states (graph A) < no_group" "no_overlap A"
    and flag: "is_true (complete_prop (props A)) \<longrightarrow> total A" and len: "LENGTH('n) < 2 ^ 32"
  shows "\<exists>C D E. complete A = Inr C \<and> cleanup_acceptance_here C True = Inr (Some D) \<and>
    twa_set_acceptance D (twa_num_sets D) (complement (get_acceptance (twa_acc D))) = Inr E \<and> wf_twa E \<and>
    (\<forall>w. accepts E w \<longleftrightarrow> \<not> accepts A w)"
proof -
  have "wf_sat (twa_acc A)" using A(2) unfolding cond_ok_def by blast
  from complete_kept [OF A(1) this A(4) len flag] obtain C C' where C: "complete A = Inr C" "wf_twa C" "total C"
    "\<And>w. accepts C w \<longleftrightarrow> accepts A w" "C = update_props (set_complete (trival_of_bool True)) C'" "kept (twa_copy A prop_set_all) C'"
    by blast
  have k: "cond_ok (twa_acc C)" "no_overlap C"
    using C(6) A(2,3,5) unfolding kept_def C(5) well_marked_def no_overlap_def out_conds_conds by (simp_all add: twa_copy_fields)
  note fits = cond_ok_fits [OF k(1)]
  have "num_sets (twa_acc C) \<le> LENGTH('n)" using fits num_sets_fit unfolding fits_def by blast
  from cleanup_here_spec [OF C(2) fits this len] obtain D where D: "cleanup_acceptance_here C True = Inr (Some D)" "cleaned C D" by blast
  have d: "wf_twa D" "fits D" "\<And>w. accepts D w \<longleftrightarrow> accepts C w" "num_states (graph D) = num_states (graph C)"
    "\<And>s. s < num_states (graph C) \<Longrightarrow> out_conds D s = out_conds C s" using D(2) unfolding cleaned_def by blast+
  have "total D" "no_overlap D" using C(3) k(2) d(4,5) unfolding total_missing no_overlap_def by simp_all
  from negated_language [OF d(1) this d(2) len] obtain E where
    "twa_set_acceptance D (twa_num_sets D) (complement (get_acceptance (twa_acc D))) = Inr E" "wf_twa E"
    "\<And>w. accepts E w \<longleftrightarrow> \<not> accepts D w" by blast
  then show ?thesis using C(1,4) D(1) d(3) by blast
qed

text \<open>The queries record their answer in the properties.\<close>

lemma query_props:
  "\<exists>h. snd (is_universal B) = update_props h B \<and> (\<forall>p. complete_prop (h p) = complete_prop p)"
  "\<exists>h. snd (is_deterministic B) = update_props h B \<and> (\<forall>p. complete_prop (h p) = complete_prop p)"
proof -
  show u: "\<exists>h. snd (is_universal B) = update_props h B \<and> (\<forall>p. complete_prop (h p) = complete_prop p)"
  proof (cases "is_known (universal (props B))")
    case True
    then show ?thesis by (intro exI [of _ id]) (simp add: is_universal_def)
  next
    case False
    obtain n where "snd (is_universal B) = update_props (set_universal n) B"
      using False by (simp add: is_universal_def count_nondet_states_aux_def Let_def)
    then show ?thesis by (intro exI [of _ "set_universal n"]) (simp add: set_universal_def Let_def)
  qed
  show "\<exists>h. snd (is_deterministic B) = update_props h B \<and> (\<forall>p. complete_prop (h p) = complete_prop p)"
  proof (cases "is_existential (graph B)")
    case True
    then show ?thesis using u by (simp add: is_deterministic_def)
  next
    case False
    then show ?thesis by (intro exI [of _ id]) (simp add: is_deterministic_def)
  qed
qed

text \<open>
  Property C2: \<open>dtwa_complement\<close> refuses a nondeterministic automaton; for a deterministic one it returns an
  automaton that accepts exactly the words that the given one rejects.
\<close>

theorem dtwa_complement_sound:
  fixes A :: "('l, 'n::len) twa_graph"
  assumes "wf_twa A" "cond_ok (twa_acc A)" "well_marked A" "num_states (graph A) < no_group" "LENGTH('n) < 2 ^ 32"
    and "is_true (complete_prop (props A)) \<longrightarrow> total A" "flag_ok A"
  shows "if no_overlap A
    then \<exists>B. dtwa_complement A = Inr (Some B) \<and> wf_twa B \<and> (\<forall>w. accepts B w \<longleftrightarrow> \<not> accepts A w)
    else dtwa_complement A = Inl Not_deterministic"
proof (cases "no_overlap A")
  case det: True
  obtain f where f: "is_deterministic A = (no_overlap A, update_props f A)"
    "\<And>p. complete_prop (f p) = complete_prop p"
    by (rule is_deterministic_spec [OF assms(1,7)]) (rule that, assumption, blast)
  let ?A1 = "update_props f A"
  obtain h where h: "snd (is_universal ?A1) = update_props h ?A1" "\<And>p. complete_prop (h p) = complete_prop p"
    using query_props(1) [of ?A1] by blast
  let ?A2 = "update_props h ?A1"
  have upd: "wf_twa (update_props k A) = wf_twa A" "total (update_props k A) = total A" "cond_ok (twa_acc (update_props k A)) = cond_ok (twa_acc A)"
    "well_marked (update_props k A) = well_marked A" "no_overlap (update_props k A) = no_overlap A"
    "accepts (update_props k A) w = accepts A w" for k w
    by (simp_all add: wf_twa_def total_def well_marked_def no_overlap_def out_conds_conds accepts_def)
  have A2: "?A2 = update_props (h \<circ> f) A" by simp
  obtain g where g: "snd (is_complete ?A2) = update_props g ?A2" "fst (is_complete ?A2) \<longrightarrow> total ?A2"
    "is_true (complete_prop (g (props ?A2))) \<longrightarrow> total ?A2"
    by (rule is_complete_spec [of ?A2]) (use assms(1,6) h(2) f(2) in \<open>simp_all add: wf_twa_def total_def\<close>)
  let ?A3 = "update_props g ?A2"
  obtain k where k: "snd (is_deterministic ?A3) = update_props k ?A3" "\<And>p. complete_prop (k p) = complete_prop p"
    using query_props(2) [of ?A3] by blast
  let ?q = "k \<circ> g \<circ> h \<circ> f"
  let ?A4 = "update_props ?q A"
  obtain cm where cmpl: "is_complete ?A2 = (cm, ?A3)" using g(1) by (metis prod.collapse)
  have dual: "dtwa_complement A = (if \<not> fst (unsat_mark (twa_acc A)) \<and> cm
      then bind_sum (false_automaton ?A3) (\<lambda>res. Inr (Some res))
      else bind_sum (complete ?A4) (\<lambda>res. bind_sum (cleanup_acceptance_here res True) (\<lambda>cleaned.
               case cleaned of None \<Rightarrow> Inr None
               | Some res \<Rightarrow> bind_sum (twa_set_acceptance res (twa_num_sets res) (complement (get_acceptance (twa_acc res))))
                   (\<lambda>res. Inr (Some (update_props (set_terminal trival_maybe \<circ> prop_keep prop_set_all) res))))))"
    using det k(1) [simplified] cmpl [simplified]
    by (simp add: dtwa_complement_def dualize_deterministic_def f(1) h(1) [simplified])
  show ?thesis
  proof (cases "\<not> fst (unsat_mark (twa_acc A)) \<and> cm")
    case True
    obtain B where B: "false_automaton ?A3 = Inr B" "wf_twa B" "\<forall>w. \<not> accepts B w" using false_automaton_spec [OF assms(5)] by blast
    have "total ?A2" using True g(2) cmpl by simp
    then have "total A" by (simp add: total_def)
    moreover have init: "init_number A < num_states (graph A)" using assms(1) unfolding wf_twa_def by blast
    ultimately have run: "\<exists>m. runs_from A (init_number A) w m" for w using total_run [OF assms(1)] by blast
    have "cond_accepting (twa_acc A) m" for m
      using True sat_unsat_mark_spec [of "twa_acc A" False] assms(2) unfolding unsat_mark_def cond_ok_def by (metis prod.collapse)
    then have "accepts A w" for w unfolding accepts_runs using run by blast
    then show ?thesis using det True B dual by (intro if_P [THEN iffD2]) auto
  next
    case False
    have flag: "is_true (complete_prop (props ?A4)) \<longrightarrow> total ?A4" using g(3) k(2) by (simp add: total_def)
    have "num_states (graph ?A4) < no_group" using assms(4) by simp
    from complement_deterministic [of ?A4, unfolded upd, OF assms(1-3) this det flag [unfolded upd] assms(5)]
    obtain C D E where C: "complete ?A4 = Inr C" "cleanup_acceptance_here C True = Inr (Some D)"
      "twa_set_acceptance D (twa_num_sets D) (complement (get_acceptance (twa_acc D))) = Inr E" "wf_twa E"
      "\<And>w. accepts E w \<longleftrightarrow> \<not> accepts A w" by blast
    let ?B = "update_props (set_terminal trival_maybe \<circ> prop_keep prop_set_all) E"
    have "dtwa_complement A = Inr (Some ?B)" using dual False C(1-3) by simp
    moreover have "wf_twa ?B" "\<And>w. accepts ?B w \<longleftrightarrow> accepts E w" using C(4) by (simp_all add: wf_twa_def accepts_def)
    ultimately show ?thesis using det C(5) by auto
  qed
next
  case False
  obtain f where "is_deterministic A = (no_overlap A, update_props f A)" by (rule is_deterministic_spec [OF assms(1,7)])
  then show ?thesis using False by (simp add: dtwa_complement_def)
qed

theorem dtwa_complement_sound_witness:
  "\<exists>B. dtwa_complement island = Inr (Some B) \<and> wf_twa B \<and> (\<forall>w. accepts B w \<longleftrightarrow> \<not> accepts island w)"
  using dtwa_complement_sound [of island] island_completable unfolding completable_def wf_operand_def by simp

end
