(* ===== verification/Game.thy ===== *)
theory Game
  imports Complete AccClassify
begin

unbundle bit_operations_syntax

text \<open>
  Parity games (misc/game.hh, misc/game.cc): an automaton with a max-odd parity condition, each state of
  which belongs to one of two players, and Zielonka's recursive algorithm for the winning regions and
  positional strategies of the players.  Player 1 is \<open>True\<close> and player 0 is \<open>False\<close>; the arrays \<open>w\<close> and
  \<open>s\<close> of length two are functions on \<open>bool\<close>.
\<close>

section \<open>The game\<close>

datatype game_error = Not_max_odd | Not_colorized | Size_mismatch | Game_acc_error acc_error | Out_of_fuel

record ('l, 'm) arena_game =
  arena :: "('l, 'm) twa"
  owner :: "bool list"

type_synonym ('l, 'n) parity_game = "('l, 'n mark_t) arena_game"

text \<open>The comparison of conditions by BDDs is the parameter of \<open>is_parity\<close>.\<close>

definition make_parity_game :: "('n::len acc_code \<Rightarrow> 'n acc_code \<Rightarrow> bool) \<Rightarrow> ('l, 'n) twa_graph \<Rightarrow> bool list \<Rightarrow>
    game_error + ('l, 'n) parity_game" where
  "make_parity_game equiv_codes A ow =
    (case is_parity equiv_codes (twa_acc A) True of
       Inl e \<Rightarrow> Inl (Game_acc_error e)
     | Inr (_, is_max, is_odd) \<Rightarrow>
         if \<not> (is_max \<and> is_odd) then Inl Not_max_odd
         else if list_ex (\<lambda>t. mark_max_set (e_acc (edge A t)) = 0) (all_edges (graph A)) then Inl Not_colorized
         else Inr \<lparr>arena = A, owner = ow\<rparr>)"

type_synonym region = "nat set"
type_synonym strategy = "nat \<Rightarrow> nat option"

definition game_states :: "('l, 'n::len) parity_game \<Rightarrow> nat" where
  "game_states G = num_states (graph (arena G))"

definition game_out :: "('l, 'n::len) parity_game \<Rightarrow> nat \<Rightarrow> ('l, 'n mark_t) edge_label edge_storage list" where
  "game_out G s = out_edges (arena G) s"

definition max_parity :: "('l, 'n::len) parity_game \<Rightarrow> nat" where
  "max_parity G =
    (let m = fold (\<lambda>t m. max m (mark_max_set (e_acc (edge (arena G) t)))) (all_edges (graph (arena G))) 0
     in if m = 0 then 2 ^ 32 - 1 else m - 1)"

section \<open>Attractors\<close>

definition max_acc :: "nat \<Rightarrow> 'n::len mark_t" where
  "max_acc max_par = fold (\<lambda>i m. mark_set m i) [0..<Suc max_par] 0"

definition usable :: "nat set \<Rightarrow> nat \<Rightarrow> ('l, 'n::len mark_t) edge_label edge_storage \<Rightarrow> bool" where
  "usable subgame max_par e \<longleftrightarrow> e_acc e AND max_acc max_par \<noteq> 0 \<and> e_dst e \<in> subgame"

definition attracted :: "nat set \<Rightarrow> nat \<Rightarrow> bool \<Rightarrow> ('l, 'n::len mark_t) edge_label edge_storage \<Rightarrow> bool" where
  "attracted target max_par attr_max e \<longleftrightarrow>
    e_dst e \<in> target \<or> attr_max \<and> mark_max_set (e_acc e) - 1 = max_par"

text \<open>The loop over the edges of a state: whether the state is won, and the edge to take.\<close>

fun attr_scan :: "bool \<Rightarrow> ('e \<Rightarrow> bool) \<Rightarrow> ('e \<Rightarrow> bool) \<Rightarrow> nat \<Rightarrow> 'e list \<Rightarrow> bool \<times> nat option" where
  "attr_scan is_owned use att i [] = (\<not> is_owned, None)"
| "attr_scan is_owned use att i (e # es) =
    (if use e
     then if att e
          then if is_owned then (True, Some i) else attr_scan is_owned use att (Suc i) es
          else if \<not> is_owned then (False, None) else attr_scan is_owned use att (Suc i) es
     else attr_scan is_owned use att (Suc i) es)"

text \<open>One pass over the states of \<open>complement\<close>; \<open>wins target s\<close> is the result of the scan.\<close>

fun attr_pass :: "(nat set \<Rightarrow> nat \<Rightarrow> bool \<times> nat option) \<Rightarrow> nat list \<Rightarrow> nat set \<Rightarrow> strategy \<Rightarrow>
    nat list \<times> nat set \<times> strategy \<times> bool" where
  "attr_pass wins [] target strat = ([], target, strat, False)"
| "attr_pass wins (s # compl) target strat =
    (case wins target s of (won, i) \<Rightarrow>
      let strat = (case i of None \<Rightarrow> strat | Some i \<Rightarrow> strat(s \<mapsto> i)) in
      if won
      then case attr_pass wins compl (insert s target) strat of (rest, target, strat, _) \<Rightarrow> (rest, target, strat, True)
      else case attr_pass wins compl target strat of (rest, target, strat, once_more) \<Rightarrow> (s # rest, target, strat, once_more))"

lemma attr_pass_length:
  "attr_pass wins cs target strat = (rest, won, strat', once_more) \<Longrightarrow>
    length rest \<le> length cs \<and> (once_more \<longrightarrow> length rest < length cs)"
  by (induction cs arbitrary: target strat rest won strat' once_more)
     (fastforce split: prod.splits if_splits simp: Let_def)+

function attr_loop :: "(nat set \<Rightarrow> nat \<Rightarrow> bool \<times> nat option) \<Rightarrow> nat list \<Rightarrow> nat set \<Rightarrow> strategy \<Rightarrow> nat set \<times> strategy" where
  "attr_loop wins compl target strat =
    (case attr_pass wins compl target strat of (compl, target, strat, once_more) \<Rightarrow>
      if once_more then attr_loop wins compl target strat else (target, strat))"
  by pat_completeness auto

termination
  by (relation "measure (\<lambda>(wins, compl, target, strat). length compl)") (auto dest!: attr_pass_length [OF sym])

declare attr_loop.simps [simp del]

definition attractor :: "('l, 'n::len) parity_game \<Rightarrow> nat set \<Rightarrow> nat set \<Rightarrow> nat \<Rightarrow> bool \<Rightarrow> bool \<Rightarrow> nat set \<times> strategy" where
  "attractor G subgame target max_par p attr_max =
    attr_loop (\<lambda>target s. attr_scan (owner G ! s = p) (usable subgame max_par) (attracted target max_par attr_max) 0 (game_out G s))
      (sorted_list_of_set (subgame - target)) target Map.empty"

section \<open>The recursive algorithm\<close>

text \<open>The map insertion of C++ keeps the value of a key that is present.\<close>

definition insert_strategy :: "strategy \<Rightarrow> strategy \<Rightarrow> strategy" where
  "insert_strategy s t = t ++ s"

type_synonym solution = "nat set \<times> (bool \<Rightarrow> nat set) \<times> (bool \<Rightarrow> strategy)"

text \<open>
  The subgame is passed by reference: the result holds its new value.  The first argument bounds the
  depth of the recursion.
\<close>

fun solve_rec :: "nat \<Rightarrow> ('l, 'n::len) parity_game \<Rightarrow> nat set \<Rightarrow> nat \<Rightarrow> game_error + solution" where
  "solve_rec 0 G subgame max_par = Inl Out_of_fuel"
| "solve_rec (Suc n) G subgame max_par =
    (if subgame = {} then Inr (subgame, (\<lambda>_. {}), (\<lambda>_. Map.empty))
     else
       let p = odd max_par;
           (u, strat_u) = attractor G subgame {} max_par p True
       in if max_par = 0 then Inr (subgame, (\<lambda>_. {})(p := u), (\<lambda>_. Map.empty)(p := strat_u))
       else bind_sum (solve_rec n G (subgame - u) (max_par - 1)) (\<lambda>(subgame, w0, s0).
         if card (w0 False) + card (w0 True) \<noteq> card subgame then Inl Size_mismatch
         else let subgame = subgame \<union> u in
         if card (w0 p) + card u = card subgame
         then Inr (subgame, (\<lambda>_. {})(p := subgame), (\<lambda>_. Map.empty)(p := insert_strategy strat_u (s0 p)))
         else
           let (wn, strat_wnp) = attractor G subgame (w0 (\<not> p)) max_par (\<not> p) False
           in bind_sum (solve_rec n G (subgame - wn) max_par) (\<lambda>(subgame, w1, s1).
             if card (w1 False) + card (w1 True) \<noteq> card subgame then Inl Size_mismatch
             else Inr (subgame \<union> wn, w1(\<not> p := w1 (\<not> p) \<union> wn),
               (\<lambda>_. Map.empty)(p := s1 p, \<not> p :=
                 insert_strategy (insert_strategy strat_wnp (s0 (\<not> p))) (s1 (\<not> p)))))))"

text \<open>Each call lowers the parity or the number of states.\<close>

definition solve :: "('l, 'n::len) parity_game \<Rightarrow> game_error + (bool \<Rightarrow> nat set) \<times> (bool \<Rightarrow> strategy)" where
  "solve G = bind_sum (solve_rec (Suc (max_parity G + game_states G)) G {0..<game_states G} (max_parity G))
     (\<lambda>(_, w, s). Inr (w, s))"

section \<open>Plays\<close>

text \<open>Every edge has one colour; a play is won by the player whose parity is that of the greatest recurring colour.\<close>

definition colour :: "('l, 'n::len mark_t) edge_label edge_storage \<Rightarrow> nat" where
  "colour e = mark_max_set (e_acc e) - 1"

definition coloured :: "('l, 'n::len) parity_game \<Rightarrow> bool" where
  "coloured G \<longleftrightarrow> (\<forall>s < game_states G. \<forall>e \<in> set (game_out G s). \<exists>c. bits (e_acc e) = {c})"

definition top_colour :: "(nat \<Rightarrow> ('l, 'n::len mark_t) edge_label edge_storage) \<Rightarrow> nat \<Rightarrow> bool" where
  "top_colour e c \<longleftrightarrow> (\<forall>n. \<exists>k \<ge> n. colour (e k) = c) \<and> (\<exists>n. \<forall>k \<ge> n. colour (e k) \<le> c)"

definition won :: "bool \<Rightarrow> (nat \<Rightarrow> ('l, 'n::len mark_t) edge_label edge_storage) \<Rightarrow> bool" where
  "won q e \<longleftrightarrow> (\<exists>c. odd c = q \<and> top_colour e c)"

definition is_play :: "('l, 'n::len) parity_game \<Rightarrow> nat set \<Rightarrow> nat \<Rightarrow> (nat \<Rightarrow> nat) \<Rightarrow>
    (nat \<Rightarrow> ('l, 'n mark_t) edge_label edge_storage) \<Rightarrow> bool" where
  "is_play G S m v e \<longleftrightarrow>
    (\<forall>k. v k \<in> S \<and> e k \<in> set (game_out G (v k)) \<and> usable S m (e k) \<and> e_dst (e k) = v (Suc k))"

definition follows :: "('l, 'n::len) parity_game \<Rightarrow> strategy \<Rightarrow> (nat \<Rightarrow> nat) \<Rightarrow>
    (nat \<Rightarrow> ('l, 'n mark_t) edge_label edge_storage) \<Rightarrow> bool" where
  "follows G \<sigma> v e \<longleftrightarrow> (\<forall>k i. \<sigma> (v k) = Some i \<longrightarrow> e k = game_out G (v k) ! i)"

text \<open>The player \<open>q\<close> wins the subgame from \<open>W\<close> with the positional strategy \<open>\<sigma>\<close>, without leaving \<open>W\<close>.\<close>

definition wins :: "('l, 'n::len) parity_game \<Rightarrow> nat set \<Rightarrow> nat \<Rightarrow> bool \<Rightarrow> nat set \<Rightarrow> strategy \<Rightarrow> bool" where
  "wins G S m q W \<sigma> \<longleftrightarrow> W \<subseteq> S \<and> dom \<sigma> \<subseteq> W \<and>
    (\<forall>s \<in> W. owner G ! s = q \<longrightarrow> (\<exists>i < length (game_out G s). \<sigma> s = Some i \<and> usable W m (game_out G s ! i))) \<and>
    (\<forall>s \<in> W. owner G ! s \<noteq> q \<longrightarrow> (\<forall>e \<in> set (game_out G s). usable S m e \<longrightarrow> e_dst e \<in> W)) \<and>
    (\<forall>v e. is_play G W m v e \<and> follows G \<sigma> v e \<longrightarrow> won q e)"

lemma winsD:
  assumes "wins G S m q W \<sigma>"
  shows "W \<subseteq> S" "dom \<sigma> \<subseteq> W"
    "s \<in> W \<Longrightarrow> owner G ! s = q \<Longrightarrow> \<exists>i < length (game_out G s). \<sigma> s = Some i \<and> usable W m (game_out G s ! i)"
    "s \<in> W \<Longrightarrow> owner G ! s \<noteq> q \<Longrightarrow> e \<in> set (game_out G s) \<Longrightarrow> usable S m e \<Longrightarrow> e_dst e \<in> W"
    "is_play G W m v e' \<Longrightarrow> follows G \<sigma> v e' \<Longrightarrow> won q e'"
  using assms unfolding wins_def by simp_all

definition closed :: "('l, 'n::len) parity_game \<Rightarrow> nat set \<Rightarrow> nat \<Rightarrow> bool" where
  "closed G S m \<longleftrightarrow> (\<forall>s \<in> S. \<exists>e \<in> set (game_out G s). usable S m e)"

lemma bit_max_acc: "bit (max_acc m :: 'n::len mark_t) i \<longleftrightarrow> i \<le> m \<and> i < LENGTH('n)"
proof -
  have "bit (fold (\<lambda>i m. mark_set m i) is (a :: 'n mark_t)) i \<longleftrightarrow> i \<in> set is \<and> i < LENGTH('n) \<or> bit a i" for "is" a
    by (induction "is" arbitrary: a) auto
  then show ?thesis by (simp add: max_acc_def less_Suc_eq_le del: upt_Suc)
qed

lemma colour_bits:
  assumes "bits (e_acc e) = {c}"
  shows "colour e = c"
proof -
  have "e_acc e \<noteq> 0" using assms by (auto simp: bits_def)
  then show ?thesis using mark_max_set_Max [of "e_acc e"] assms by (simp add: colour_def)
qed

lemma usable_colour:
  assumes "coloured G" "s < game_states G" "e \<in> set (game_out G s)"
  shows "usable S m e \<longleftrightarrow> colour e \<le> m \<and> e_dst e \<in> S"
proof -
  obtain c where c: "bits (e_acc e) = {c}" using assms unfolding coloured_def by blast
  have "e_acc e AND max_acc m \<noteq> 0 \<longleftrightarrow> (\<exists>i. bit (e_acc e) i \<and> i \<le> m)"
    by (auto simp: bit_eq_iff bit_and_iff bit_max_acc dest: bit_imp_le_length)
  also have "\<dots> \<longleftrightarrow> c \<le> m" using c unfolding bits_def by (metis (mono_tags, lifting) mem_Collect_eq singleton_iff)
  finally show ?thesis using colour_bits [OF c] by (simp add: usable_def)
qed

lemma won_suffix: "won q (\<lambda>k. e (n + k)) \<Longrightarrow> won q e"
proof -
  assume "won q (\<lambda>k. e (n + k))"
  then obtain c n' where c: "odd c = q" "\<And>l. \<exists>k \<ge> l. colour (e (n + k)) = c" "\<And>k. k \<ge> n' \<Longrightarrow> colour (e (n + k)) \<le> c"
    unfolding won_def top_colour_def by blast
  have "\<exists>k \<ge> l. colour (e k) = c" for l
  proof -
    obtain k where "k \<ge> l" "colour (e (n + k)) = c" using c(2) by blast
    then show ?thesis by (intro exI [of _ "n + k"]) simp
  qed
  moreover have "colour (e k) \<le> c" if "k \<ge> n + n'" for k using c(3) [of "k - n"] that by simp
  ultimately show ?thesis using c(1) unfolding won_def top_colour_def by blast
qed

lemma play_suffix: "is_play G S m v e \<Longrightarrow> is_play G S m (\<lambda>k. v (n + k)) (\<lambda>k. e (n + k))"
  unfolding is_play_def by simp

lemma follows_suffix: "follows G \<sigma> v e \<Longrightarrow> follows G \<sigma> (\<lambda>k. v (n + k)) (\<lambda>k. e (n + k))"
  unfolding follows_def by simp

lemma wins_stays:
  assumes "wins G S m q W \<sigma>" "is_play G S m v e" "follows G \<sigma> v e" "v n \<in> W"
  shows "v (n + k) \<in> W"
proof (induction k)
  case (Suc k)
  let ?s = "v (n + k)"
  have e: "e (n + k) \<in> set (game_out G ?s)" "usable S m (e (n + k))" "e_dst (e (n + k)) = v (Suc (n + k))"
    using assms(2) unfolding is_play_def by blast+
  show ?case
  proof (cases "owner G ! ?s = q")
    case True
    then obtain i where i: "\<sigma> ?s = Some i" "usable W m (game_out G ?s ! i)" using assms(1) Suc unfolding wins_def by blast
    then have "e (n + k) = game_out G ?s ! i" using assms(3) unfolding follows_def by blast
    then show ?thesis using i(2) e(3) unfolding usable_def by simp
  next
    case False
    then have "e_dst (e (n + k)) \<in> W" using assms(1) Suc e unfolding wins_def by blast
    then show ?thesis using e(3) by simp
  qed
qed (simp add: assms)

lemma wins_play:
  assumes "wins G S m q W \<sigma>" "is_play G S m v e" "follows G \<sigma> v e" "v n \<in> W"
  shows "won q e"
proof -
  have "v (n + k) \<in> W" for k by (rule wins_stays [OF assms])
  moreover from this [of "Suc _"] have "usable W m (e (n + k))" for k
    using assms(2) unfolding is_play_def usable_def by (metis add_Suc_right)
  ultimately have "is_play G W m (\<lambda>k. v (n + k)) (\<lambda>k. e (n + k))"
    using assms(2) unfolding is_play_def by (metis add_Suc_right)
  then have "won q (\<lambda>k. e (n + k))" using assms(1) follows_suffix [OF assms(3)] unfolding wins_def by blast
  then show ?thesis by (rule won_suffix)
qed

section \<open>Attractors\<close>

lemma attr_scan_spec:
  "attr_scan own use att i es = (w, r) \<Longrightarrow>
    (own \<longrightarrow> (if w then \<exists>j < length es. r = Some (i + j) \<and> use (es ! j) \<and> att (es ! j)
       else r = None \<and> (\<forall>e \<in> set es. use e \<longrightarrow> \<not> att e))) \<and>
    (\<not> own \<longrightarrow> r = None \<and> (w \<longleftrightarrow> (\<forall>e \<in> set es. use e \<longrightarrow> att e)))"
proof (induction es arbitrary: i)
  case (Cons e es)
  consider (stop) "use e" "att e = own" | (go) "\<not> (use e \<and> att e = own)" by blast
  then show ?case
  proof cases
    case stop
    with Cons.prems show ?thesis by (cases own) auto
  next
    case go
    then have s: "attr_scan own use att (Suc i) es = (w, r)" using Cons.prems by (cases "use e"; cases "att e"; cases own) simp_all
    note ih = Cons.IH [OF s]
    show ?thesis
    proof (cases own)
      case True
      show ?thesis
      proof (cases w)
        case True
        then obtain j where "j < length es" "r = Some (Suc i + j)" "use (es ! j)" "att (es ! j)" using ih \<open>own\<close> by auto
        then have "Suc j < length (e # es) \<and> r = Some (i + Suc j) \<and> use ((e # es) ! Suc j) \<and> att ((e # es) ! Suc j)" by simp
        then show ?thesis using True \<open>own\<close> by (metis (full_types))
      next
        case False
        then show ?thesis using ih go \<open>own\<close> by auto
      qed
    next
      case False
      then show ?thesis using ih go by auto
    qed
  qed
qed simp

text \<open>
  How the attractor of \<open>U\<close> is built: one state after the other, each of which is won by a scan with
  the states that are there already.
\<close>

definition scan_state :: "('l, 'n::len) parity_game \<Rightarrow> nat set \<Rightarrow> nat \<Rightarrow> bool \<Rightarrow> bool \<Rightarrow> nat set \<Rightarrow> nat \<Rightarrow> bool \<times> nat option" where
  "scan_state G S m p hi T s = attr_scan (owner G ! s = p) (usable S m) (attracted T m hi) 0 (game_out G s)"

definition add_choice :: "nat \<Rightarrow> nat option \<Rightarrow> strategy \<Rightarrow> strategy" where
  "add_choice s r \<sigma> = (case r of None \<Rightarrow> \<sigma> | Some i \<Rightarrow> \<sigma>(s \<mapsto> i))"

inductive built :: "('l, 'n::len) parity_game \<Rightarrow> nat set \<Rightarrow> nat \<Rightarrow> bool \<Rightarrow> bool \<Rightarrow> nat set \<Rightarrow> nat set \<Rightarrow> strategy \<Rightarrow> bool"
  for G S m p hi U where
  start: "built G S m p hi U U Map.empty"
| add: "built G S m p hi U T \<sigma> \<Longrightarrow> s \<in> S \<Longrightarrow> s \<notin> T \<Longrightarrow> scan_state G S m p hi T s = (True, r) \<Longrightarrow>
    built G S m p hi U (insert s T) (add_choice s r \<sigma>)"

lemma scan_owned:
  assumes "scan_state G S m p hi T s = (w, r)" "owner G ! s = p"
  shows "if w then \<exists>j < length (game_out G s). r = Some j \<and> usable S m (game_out G s ! j) \<and> attracted T m hi (game_out G s ! j)
    else r = None \<and> (\<forall>e \<in> set (game_out G s). usable S m e \<longrightarrow> \<not> attracted T m hi e)"
  using attr_scan_spec [OF assms(1) [unfolded scan_state_def]] assms(2) by auto

lemma scan_foreign:
  assumes "scan_state G S m p hi T s = (w, r)" "owner G ! s \<noteq> p"
  shows "r = None" "w \<longleftrightarrow> (\<forall>e \<in> set (game_out G s). usable S m e \<longrightarrow> attracted T m hi e)"
  using attr_scan_spec [OF assms(1) [unfolded scan_state_def]] assms(2) by auto

lemma scan_lost: "scan_state G S m p hi T s = (False, r) \<Longrightarrow> r = None"
  using scan_owned [of G S m p hi T s False r] scan_foreign(1) [of G S m p hi T s False r] by (cases "owner G ! s = p") auto

lemma attracted_mono: "attracted T m hi e \<Longrightarrow> T \<subseteq> T' \<Longrightarrow> attracted T' m hi e"
  by (auto simp: attracted_def)

lemma built_facts:
  "built G S m p hi U T \<sigma> \<Longrightarrow> U \<subseteq> T \<and> T \<subseteq> U \<union> S \<and> dom \<sigma> \<subseteq> T - U \<and>
    (\<forall>s \<in> T - U. if owner G ! s = p
       then \<exists>j < length (game_out G s). \<sigma> s = Some j \<and> usable S m (game_out G s ! j) \<and> attracted T m hi (game_out G s ! j)
       else \<forall>e \<in> set (game_out G s). usable S m e \<longrightarrow> attracted T m hi e)"
proof (induction rule: built.induct)
  case (add T \<sigma> s r)
  have dom: "dom (add_choice s r \<sigma>) \<subseteq> insert s T - U" using add by (auto simp: add_choice_def split: option.splits if_splits)
  have "if owner G ! t = p
     then \<exists>j < length (game_out G t). add_choice s r \<sigma> t = Some j \<and> usable S m (game_out G t ! j) \<and> attracted (insert s T) m hi (game_out G t ! j)
     else \<forall>e \<in> set (game_out G t). usable S m e \<longrightarrow> attracted (insert s T) m hi e" if t: "t \<in> insert s T - U" for t
  proof (cases "t = s")
    case True
    show ?thesis
    proof (cases "owner G ! s = p")
      case own: True
      from scan_owned [OF add.hyps(4) own] obtain j where "j < length (game_out G s)" "r = Some j"
        "usable S m (game_out G s ! j)" "attracted T m hi (game_out G s ! j)" by auto
      then show ?thesis using True own attracted_mono [of T m hi _ "insert s T"] by (auto simp: add_choice_def)
    next
      case False
      then show ?thesis using True scan_foreign(2) [OF add.hyps(4) False] attracted_mono [of T m hi _ "insert s T"] by auto
    qed
  next
    case False
    then have t: "t \<in> T - U" "add_choice s r \<sigma> t = \<sigma> t" using t by (auto simp: add_choice_def split: option.split)
    have mono: "attracted T m hi e \<Longrightarrow> attracted (insert s T) m hi e" for e :: "('a, 'b mark_t) edge_label edge_storage"
      by (rule attracted_mono) auto
    from add.IH t(1) have "if owner G ! t = p
       then \<exists>j < length (game_out G t). \<sigma> t = Some j \<and> usable S m (game_out G t ! j) \<and> attracted T m hi (game_out G t ! j)
       else \<forall>e \<in> set (game_out G t). usable S m e \<longrightarrow> attracted T m hi e" by blast
    then show ?thesis unfolding t(2) using mono by (auto split: if_splits)
  qed
  then show ?case using add dom by auto
qed simp

text \<open>A play that follows the strategy of the attractor reaches \<open>U\<close> or takes an edge of the greatest colour.\<close>

lemma built_reaches:
  assumes "built G S m p hi U T \<sigma>" "is_play G S m v e"
  shows "follows G \<sigma> v e \<Longrightarrow> v n \<in> T \<Longrightarrow> \<exists>k \<ge> n. v k \<in> U \<or> hi \<and> colour (e k) = m"
  using assms(1)
proof (induction arbitrary: n rule: built.induct)
  case start
  then show ?case by blast
next
  case (add T \<sigma> s r)
  have none: "\<sigma> s = None" using built_facts [OF add.hyps(1)] add.hyps(3) by auto
  have f: "follows G \<sigma> v e"
    unfolding follows_def
  proof (intro allI impI)
    fix k i assume i: "\<sigma> (v k) = Some i"
    then have "v k \<noteq> s" using none by auto
    then have "add_choice s r \<sigma> (v k) = Some i" using i by (simp add: add_choice_def split: option.split)
    then show "e k = game_out G (v k) ! i" using add.prems(1) unfolding follows_def by blast
  qed
  note ih = add.IH [OF f]
  show ?case
  proof (cases "v n = s")
    case True
    have e: "e n \<in> set (game_out G s)" "usable S m (e n)" "e_dst (e n) = v (Suc n)"
      using assms(2) True unfolding is_play_def by blast+
    have "attracted T m hi (e n)"
    proof (cases "owner G ! s = p")
      case own: True
      from scan_owned [OF add.hyps(4) own] obtain j where j: "r = Some j" "attracted T m hi (game_out G s ! j)" by auto
      then have "add_choice s r \<sigma> (v n) = Some j" using True by (simp add: add_choice_def)
      then have "e n = game_out G s ! j" using add.prems(1) True unfolding follows_def by blast
      with j show ?thesis by simp
    next
      case False
      then show ?thesis using scan_foreign(2) [OF add.hyps(4) False] e by simp
    qed
    then consider "v (Suc n) \<in> T" | "hi" "colour (e n) = m" unfolding attracted_def e(3) colour_def by blast
    then show ?thesis
    proof cases
      case 1
      from ih [OF this] obtain k where "Suc n \<le> k" "v k \<in> U \<or> hi \<and> colour (e k) = m" by blast
      then show ?thesis using Suc_leD by blast
    next
      case 2
      then show ?thesis by blast
    qed
  next
    case False
    then show ?thesis using ih add.prems(2) by blast
  qed
qed

lemma attr_pass_spec:
  "attr_pass (scan_state G S m p hi) cs T \<sigma> = (rest, T', \<sigma>', more') \<Longrightarrow> built G S m p hi U T \<sigma> \<Longrightarrow>
    distinct cs \<Longrightarrow> set cs \<inter> T = {} \<Longrightarrow> set cs \<subseteq> S \<Longrightarrow>
    built G S m p hi U T' \<sigma>' \<and> T \<subseteq> T' \<and> set rest \<union> T' = set cs \<union> T \<and> set rest \<inter> T' = {} \<and> distinct rest \<and>
    (\<not> more' \<longrightarrow> T' = T \<and> (\<forall>s \<in> set cs. \<not> fst (scan_state G S m p hi T s)) \<and> rest = cs)"
proof (induction cs arbitrary: T \<sigma> rest T' \<sigma>' more')
  case (Cons s cs)
  obtain w r where sc: "scan_state G S m p hi T s = (w, r)" by fastforce
  have choice: "(case r of None \<Rightarrow> \<sigma> | Some i \<Rightarrow> \<sigma>(s \<mapsto> i)) = add_choice s r \<sigma>" by (simp add: add_choice_def)
  show ?case
  proof (cases w)
    case True
    obtain rest1 T1 \<sigma>1 b where p: "attr_pass (scan_state G S m p hi) cs (insert s T) (add_choice s r \<sigma>) = (rest1, T1, \<sigma>1, b)"
      by (metis prod_cases4)
    have e: "rest = rest1" "T' = T1" "\<sigma>' = \<sigma>1" "more'" using Cons.prems(1) sc True p by (simp_all add: choice Let_def)
    have bt: "built G S m p hi U (insert s T) (add_choice s r \<sigma>)"
      by (rule built.add) (use Cons.prems sc True in auto)
    from Cons.IH [OF p bt] Cons.prems e show ?thesis by auto
  next
    case False
    then have r: "r = None" using scan_lost [of G S m p hi T s r] sc by simp
    obtain rest1 T1 \<sigma>1 b where p: "attr_pass (scan_state G S m p hi) cs T \<sigma> = (rest1, T1, \<sigma>1, b)"
      by (metis prod_cases4)
    have e: "rest = s # rest1" "T' = T1" "\<sigma>' = \<sigma>1" "more' = b" using Cons.prems(1) sc False p r by (simp_all add: Let_def)
    have ih: "built G S m p hi U T1 \<sigma>1 \<and> T \<subseteq> T1 \<and> set rest1 \<union> T1 = set cs \<union> T \<and> set rest1 \<inter> T1 = {} \<and> distinct rest1 \<and>
      (\<not> b \<longrightarrow> T1 = T \<and> (\<forall>s \<in> set cs. \<not> fst (scan_state G S m p hi T s)) \<and> rest1 = cs)"
      by (rule Cons.IH [OF p Cons.prems(2)]) (use Cons.prems(3-5) in auto)
    have "s \<notin> T1" "s \<notin> set rest1" using ih Cons.prems(3,4) by auto
    then show ?thesis using ih e sc False by auto
  qed
qed simp

lemma attr_loop_spec:
  "attr_loop (scan_state G S m p hi) cs T \<sigma> = (T', \<sigma>') \<Longrightarrow> built G S m p hi U T \<sigma> \<Longrightarrow>
    distinct cs \<Longrightarrow> set cs \<inter> T = {} \<Longrightarrow> set cs \<union> T = S \<Longrightarrow>
    built G S m p hi U T' \<sigma>' \<and> (\<forall>s \<in> S - T'. \<not> fst (scan_state G S m p hi T' s))"
proof (induction "length cs" arbitrary: cs T \<sigma> rule: less_induct)
  case less
  obtain rest T1 \<sigma>1 b where p: "attr_pass (scan_state G S m p hi) cs T \<sigma> = (rest, T1, \<sigma>1, b)" by (metis prod_cases4)
  have sp: "built G S m p hi U T1 \<sigma>1 \<and> T \<subseteq> T1 \<and> set rest \<union> T1 = set cs \<union> T \<and> set rest \<inter> T1 = {} \<and> distinct rest \<and>
    (\<not> b \<longrightarrow> T1 = T \<and> (\<forall>s \<in> set cs. \<not> fst (scan_state G S m p hi T s)) \<and> rest = cs)"
    by (rule attr_pass_spec [OF p less.prems(2-4)]) (use less.prems(5) in blast)
  show ?case
  proof (cases b)
    case True
    then have "length rest < length cs" using attr_pass_length [OF p] by blast
    moreover have "attr_loop (scan_state G S m p hi) rest T1 \<sigma>1 = (T', \<sigma>')"
      using less.prems(1) p True by (subst (asm) attr_loop.simps) simp
    ultimately show ?thesis using less.hyps [of rest T1 \<sigma>1] sp less.prems(5) by simp
  next
    case False
    then have "T' = T1" "\<sigma>' = \<sigma>1" using less.prems(1) p by (subst (asm) attr_loop.simps; simp)+
    moreover have "S - T = set cs" "T1 = T" using less.prems(4,5) sp False by blast+
    ultimately show ?thesis using sp False by (metis)
  qed
qed

lemma attractor_spec:
  assumes "attractor G S U m p hi = (T, \<sigma>)" "finite S" "U \<subseteq> S"
  shows "built G S m p hi U T \<sigma>" "U \<subseteq> T" "T \<subseteq> S" "dom \<sigma> \<subseteq> T - U"
    "s \<in> S - T \<Longrightarrow> owner G ! s = p \<Longrightarrow> e \<in> set (game_out G s) \<Longrightarrow> usable S m e \<Longrightarrow> e_dst e \<notin> T \<and> \<not> (hi \<and> colour e = m)"
    "s \<in> S - T \<Longrightarrow> owner G ! s \<noteq> p \<Longrightarrow> \<exists>e \<in> set (game_out G s). usable S m e \<and> e_dst e \<notin> T \<and> \<not> (hi \<and> colour e = m)"
    "s \<in> T - U \<Longrightarrow> owner G ! s = p \<Longrightarrow> \<exists>j < length (game_out G s). \<sigma> s = Some j \<and> usable S m (game_out G s ! j) \<and>
       (e_dst (game_out G s ! j) \<in> T \<or> hi)"
    "s \<in> T - U \<Longrightarrow> owner G ! s \<noteq> p \<Longrightarrow> \<not> hi \<Longrightarrow> e \<in> set (game_out G s) \<Longrightarrow> usable S m e \<Longrightarrow> e_dst e \<in> T"
proof -
  have fin: "finite (S - U)" using assms(2) by blast
  have "attr_loop (scan_state G S m p hi) (sorted_list_of_set (S - U)) U Map.empty = (T, \<sigma>)"
    using assms(1) unfolding attractor_def scan_state_def by simp
  from attr_loop_spec [OF this built.start] fin assms(3) have b: "built G S m p hi U T \<sigma>"
    and nt: "\<And>s. s \<in> S - T \<Longrightarrow> \<not> fst (scan_state G S m p hi T s)" by auto
  note f = built_facts [OF b]
  show "built G S m p hi U T \<sigma>" "U \<subseteq> T" "T \<subseteq> S" "dom \<sigma> \<subseteq> T - U" using b f assms(3) by auto
  show "e_dst e \<notin> T \<and> \<not> (hi \<and> colour e = m)"
    if a: "s \<in> S - T" "owner G ! s = p" "e \<in> set (game_out G s)" "usable S m e"
  proof -
    obtain r where "scan_state G S m p hi T s = (False, r)" using nt [OF a(1)] by (metis (full_types) prod.collapse)
    from scan_owned [OF this a(2)] a(3,4) show ?thesis by (auto simp: attracted_def colour_def)
  qed
  show "\<exists>e \<in> set (game_out G s). usable S m e \<and> e_dst e \<notin> T \<and> \<not> (hi \<and> colour e = m)"
    if a: "s \<in> S - T" "owner G ! s \<noteq> p"
  proof -
    obtain r where "scan_state G S m p hi T s = (False, r)" using nt [OF a(1)] by (metis (full_types) prod.collapse)
    from scan_foreign(2) [OF this a(2)] show ?thesis by (auto simp: attracted_def colour_def)
  qed
  show "\<exists>j < length (game_out G s). \<sigma> s = Some j \<and> usable S m (game_out G s ! j) \<and> (e_dst (game_out G s ! j) \<in> T \<or> hi)"
    if a: "s \<in> T - U" "owner G ! s = p"
  proof -
    have "if owner G ! s = p
       then \<exists>j < length (game_out G s). \<sigma> s = Some j \<and> usable S m (game_out G s ! j) \<and> attracted T m hi (game_out G s ! j)
       else \<forall>e \<in> set (game_out G s). usable S m e \<longrightarrow> attracted T m hi e" using f a(1) by blast
    then show ?thesis using a(2) by (auto simp: attracted_def)
  qed
  show "e_dst e \<in> T" if a: "s \<in> T - U" "owner G ! s \<noteq> p" "\<not> hi" "e \<in> set (game_out G s)" "usable S m e"
  proof -
    have "if owner G ! s = p
       then \<exists>j < length (game_out G s). \<sigma> s = Some j \<and> usable S m (game_out G s ! j) \<and> attracted T m hi (game_out G s ! j)
       else \<forall>e \<in> set (game_out G s). usable S m e \<longrightarrow> attracted T m hi e" using f a(1) by blast
    then show ?thesis using a(2-) by (auto simp: attracted_def)
  qed
qed

lemma attractor_top:
  assumes "attractor G S {} m p True = (T, \<sigma>)" "finite S"
  shows "built G S m p True {} T \<sigma>" "T \<subseteq> S" "dom \<sigma> \<subseteq> T"
    "s \<in> S \<Longrightarrow> s \<notin> T \<Longrightarrow> owner G ! s = p \<Longrightarrow> e \<in> set (game_out G s) \<Longrightarrow> usable S m e \<Longrightarrow> e_dst e \<notin> T \<and> colour e \<noteq> m"
    "s \<in> S \<Longrightarrow> s \<notin> T \<Longrightarrow> owner G ! s \<noteq> p \<Longrightarrow> \<exists>e \<in> set (game_out G s). usable S m e \<and> e_dst e \<notin> T \<and> colour e \<noteq> m"
    "s \<in> T \<Longrightarrow> owner G ! s = p \<Longrightarrow> \<exists>j < length (game_out G s). \<sigma> s = Some j \<and> usable S m (game_out G s ! j)"
  using attractor_spec(1-4) [OF assms empty_subsetI] attractor_spec(5,8) [OF assms empty_subsetI, of s e]
    attractor_spec(6,7) [OF assms empty_subsetI, of s] by blast+

lemma attractor_to:
  assumes "attractor G S U m q False = (T, \<sigma>)" "finite S" "U \<subseteq> S"
  shows "built G S m q False U T \<sigma>" "U \<subseteq> T" "T \<subseteq> S" "dom \<sigma> \<subseteq> T - U"
    "s \<in> S \<Longrightarrow> s \<notin> T \<Longrightarrow> owner G ! s = q \<Longrightarrow> e \<in> set (game_out G s) \<Longrightarrow> usable S m e \<Longrightarrow> e_dst e \<notin> T"
    "s \<in> S \<Longrightarrow> s \<notin> T \<Longrightarrow> owner G ! s \<noteq> q \<Longrightarrow> \<exists>e \<in> set (game_out G s). usable S m e \<and> e_dst e \<notin> T"
    "s \<in> T \<Longrightarrow> s \<notin> U \<Longrightarrow> owner G ! s = q \<Longrightarrow> \<exists>j < length (game_out G s). \<sigma> s = Some j \<and> usable S m (game_out G s ! j) \<and>
       e_dst (game_out G s ! j) \<in> T"
    "s \<in> T \<Longrightarrow> s \<notin> U \<Longrightarrow> owner G ! s \<noteq> q \<Longrightarrow> e \<in> set (game_out G s) \<Longrightarrow> usable S m e \<Longrightarrow> e_dst e \<in> T"
  using attractor_spec(1-4) [OF assms] attractor_spec(5,8) [OF assms, of s e] attractor_spec(6,7) [OF assms, of s] by blast+

section \<open>The recursive algorithm\<close>

lemma follows_append:
  assumes "follows G (insert_strategy \<sigma> \<tau>) v e" "dom \<sigma> \<inter> dom \<tau> = {}"
  shows "follows G \<sigma> v e" "follows G \<tau> v e"
proof -
  have "insert_strategy \<sigma> \<tau> s = Some i" if "\<sigma> s = Some i \<or> \<tau> s = Some i" for s i
    using that assms(2) by (auto simp: insert_strategy_def map_add_def split: option.splits)
  then show "follows G \<sigma> v e" "follows G \<tau> v e" using assms(1) unfolding follows_def by blast+
qed

lemma insert_strategy_apply:
  "insert_strategy \<sigma> \<tau> s = (case \<sigma> s of None \<Rightarrow> \<tau> s | Some i \<Rightarrow> Some i)"
  by (simp add: insert_strategy_def map_add_def)

lemma dom_insert_strategy: "dom (insert_strategy \<sigma> \<tau>) = dom \<sigma> \<union> dom \<tau>"
  by (auto simp: insert_strategy_def)

lemma usable_subset: "usable W m e \<longleftrightarrow> usable S m e \<and> e_dst e \<in> W" if "W \<subseteq> S"
  using that by (auto simp: usable_def)

text \<open>The edges that remain when the attractor of the greatest colour is removed.\<close>

lemma remove_top:
  assumes col: "coloured G" and S: "S \<subseteq> {..<game_states G}" "closed G S m" and m: "0 < m"
    and at: "attractor G S {} m p True = (U, \<sigma>)"
  shows "closed G (S - U) (m - 1)"
    "s \<in> S - U \<Longrightarrow> owner G ! s = p \<Longrightarrow> e \<in> set (game_out G s) \<Longrightarrow> usable S m e \<Longrightarrow> usable (S - U) (m - 1) e"
proof -
  have fin: "finite S" using S(1) finite_subset by blast
  note a = attractor_top [OF at fin]
  have low: "usable (S - U) (m - 1) e"
    if s: "s \<in> S" "e \<in> set (game_out G s)" "usable S m e" "e_dst e \<notin> U" "colour e \<noteq> m" for s e
  proof -
    have "s < game_states G" using s(1) S(1) by blast
    note u = usable_colour [OF col this s(2)]
    from s(3-5) show ?thesis unfolding u by auto
  qed
  show own: "usable (S - U) (m - 1) e" if "s \<in> S - U" "owner G ! s = p" "e \<in> set (game_out G s)" "usable S m e" for s e
    using low [of s e] a(4) [of s e] that by blast
  show "closed G (S - U) (m - 1)" unfolding closed_def
  proof
    fix s assume s: "s \<in> S - U"
    show "\<exists>e \<in> set (game_out G s). usable (S - U) (m - 1) e"
    proof (cases "owner G ! s = p")
      case True
      obtain e where "e \<in> set (game_out G s)" "usable S m e" using S(2) s unfolding closed_def by blast
      with own [OF s True] show ?thesis by blast
    next
      case False
      from a(5) [OF _ _ False] s low [of s] show ?thesis by blast
    qed
  qed
qed

text \<open>The attractor wins everything when the colour is zero.\<close>

lemma zero_colour:
  assumes col: "coloured G" and S: "S \<subseteq> {..<game_states G}" "closed G S 0"
    and at: "attractor G S {} 0 p True = (U, \<sigma>)"
  shows "U = S"
proof (rule ccontr)
  have fin: "finite S" using S(1) finite_subset by blast
  note a = attractor_top [OF at fin]
  assume "U \<noteq> S"
  then obtain s where s: "s \<in> S" "s \<notin> U" using a(2) by blast
  have "s < game_states G" using s(1) S(1) by blast
  note u = usable_colour [OF col this]
  show False
  proof (cases "owner G ! s = p")
    case True
    obtain e where "e \<in> set (game_out G s)" "usable S 0 e" using S(2) s unfolding closed_def by blast
    then show False using a(4) [OF s True] u by blast
  next
    case False
    from a(5) [OF s False] obtain e where "e \<in> set (game_out G s)" "usable S 0 e" "colour e \<noteq> 0" by blast
    then show False using u by simp
  qed
qed

text \<open>A play of the subgame that takes the greatest colour infinitely often.\<close>

lemma won_recurring:
  assumes col: "coloured G" and S: "S \<subseteq> {..<game_states G}" and p: "is_play G S m v e" "p = odd m"
    and inf: "\<And>n. \<exists>k \<ge> n. colour (e k) = m"
  shows "won p e"
proof -
  have "colour (e k) \<le> m" for k
  proof -
    have e: "e k \<in> set (game_out G (v k))" "usable S m (e k)" "v k \<in> S" using p(1) unfolding is_play_def by blast+
    have "v k < game_states G" using e(3) S by blast
    from usable_colour [OF col this e(1)] e(2) show ?thesis by blast
  qed
  then show ?thesis using inf p(2) unfolding won_def top_colour_def by blast
qed

lemma wins_empty: "wins G S m q {} Map.empty"
  unfolding wins_def is_play_def by simp

text \<open>The player of the greatest colour wins the subgame when the opponent wins nothing in the smaller one.\<close>

lemma wins_all:
  assumes col: "coloured G" and S: "S \<subseteq> {..<game_states G}" "closed G S m" and m: "0 < m" and p: "p = odd m"
    and at: "attractor G S {} m p True = (U, \<sigma>)" and w: "wins G (S - U) (m - 1) p (S - U) \<tau>"
  shows "wins G S m p S (insert_strategy \<sigma> \<tau>)"
proof -
  have fin: "finite S" using S(1) finite_subset by blast
  note a = attractor_top [OF at fin]
  have dom: "dom \<tau> \<subseteq> S - U" using w unfolding wins_def by blast
  have dj: "dom \<sigma> \<inter> dom \<tau> = {}" using dom a(3) by blast
  have strat: "\<exists>i < length (game_out G s). insert_strategy \<sigma> \<tau> s = Some i \<and> usable S m (game_out G s ! i)"
    if s: "s \<in> S" "owner G ! s = p" for s
  proof (cases "s \<in> U")
    case True
    from a(6) [OF True s(2)] show ?thesis by (auto simp: insert_strategy_apply)
  next
    case False
    then have "\<sigma> s = None" using a(3) by blast
    moreover obtain i where i: "i < length (game_out G s)" "\<tau> s = Some i" "usable (S - U) (m - 1) (game_out G s ! i)"
      using w s False unfolding wins_def by blast
    have "s < game_states G" using s(1) S(1) by blast
    from usable_colour [OF col this nth_mem [OF i(1)]] i(3) have "usable S m (game_out G s ! i)" by auto
    ultimately show ?thesis using i by (simp add: insert_strategy_apply)
  qed
  have "won p e" if pl: "is_play G S m v e" "follows G (insert_strategy \<sigma> \<tau>) v e" for v e
  proof (cases "\<forall>n. \<exists>k \<ge> n. colour (e k) = m")
    case True
    then show ?thesis using won_recurring [OF col S(1) pl(1) p] by blast
  next
    case False
    then obtain n where n: "\<And>k. k \<ge> n \<Longrightarrow> colour (e k) \<noteq> m" by blast
    have out: "v k \<notin> U" if "k \<ge> n" for k
    proof
      assume "v k \<in> U"
      from built_reaches [OF a(1) pl(1) follows_append(1) [OF pl(2) dj] this] obtain j where "j \<ge> k" "colour (e j) = m" by auto
      then show False using n [of j] that by simp
    qed
    have "is_play G (S - U) (m - 1) (\<lambda>k. v (n + k)) (\<lambda>k. e (n + k))"
      unfolding is_play_def
    proof (intro allI conjI)
      fix k
      have e: "v (n + k) \<in> S" "e (n + k) \<in> set (game_out G (v (n + k)))" "usable S m (e (n + k))" "e_dst (e (n + k)) = v (Suc (n + k))"
        using pl(1) unfolding is_play_def by blast+
      show "v (n + k) \<in> S - U" "e (n + k) \<in> set (game_out G (v (n + k)))" "e_dst (e (n + k)) = v (n + Suc k)"
        using e out [of "n + k"] by auto
      have "v (n + k) < game_states G" using e(1) S(1) by blast
      note u = usable_colour [OF col this e(2)]
      have "e_dst (e (n + k)) \<notin> U" using out [of "Suc (n + k)"] e(4) by simp
      then show "usable (S - U) (m - 1) (e (n + k))" using e(3) n [of "n + k"] unfolding u by auto
    qed
    moreover have "follows G \<tau> (\<lambda>k. v (n + k)) (\<lambda>k. e (n + k))" by (rule follows_suffix [OF follows_append(2) [OF pl(2) dj]])
    ultimately have "won p (\<lambda>k. e (n + k))" using w unfolding wins_def by blast
    then show ?thesis by (rule won_suffix)
  qed
  moreover have "e_dst e \<in> S" if "usable S m e" for e :: "('a, 'b mark_t) edge_label edge_storage"
    using that by (simp add: usable_def)
  ultimately show ?thesis
    unfolding wins_def dom_insert_strategy using strat dom a(2,3) by blast
qed

text \<open>
  The second recursive call: the opponent \<open>q\<close> of the greatest colour wins the attractor \<open>X\<close> of what it wins in
  the smaller game, and its region of what is left; the other player keeps its region of what is left.
\<close>

lemma remove_attractor:
  assumes S: "S \<subseteq> {..<game_states G}" "closed G S m" and X: "attractor G S W m q False = (X, \<sigma>)" "W \<subseteq> S"
  shows "closed G (S - X) m"
    "s \<in> S - X \<Longrightarrow> owner G ! s = q \<Longrightarrow> e \<in> set (game_out G s) \<Longrightarrow> usable S m e \<Longrightarrow> usable (S - X) m e"
proof -
  have fin: "finite S" using S(1) finite_subset by blast
  note a = attractor_to [OF X(1) fin X(2)]
  have low: "usable (S - X) m e" if "usable S m e" "e_dst e \<notin> X" for e :: "('a, 'b mark_t) edge_label edge_storage"
    using that by (simp add: usable_def)
  show own: "usable (S - X) m e" if "s \<in> S - X" "owner G ! s = q" "e \<in> set (game_out G s)" "usable S m e" for s e
    using low a(5) [of s e] that by blast
  show "closed G (S - X) m" unfolding closed_def
  proof
    fix s assume s: "s \<in> S - X"
    show "\<exists>e \<in> set (game_out G s). usable (S - X) m e"
    proof (cases "owner G ! s = q")
      case True
      obtain e where "e \<in> set (game_out G s)" "usable S m e" using S(2) s unfolding closed_def by blast
      with own [OF s True] show ?thesis by blast
    next
      case False
      from a(6) [OF _ _ False] s low show ?thesis by blast
    qed
  qed
qed

lemma wins_rest:
  assumes S: "S \<subseteq> {..<game_states G}" and X: "attractor G S W m q False = (X, \<sigma>)" "W \<subseteq> S"
    and w: "wins G (S - X) m (\<not> q) Y \<tau>"
  shows "wins G S m (\<not> q) Y \<tau>"
proof -
  have fin: "finite S" using S(1) finite_subset by blast
  note a = attractor_to [OF X(1) fin X(2)]
  have Y: "Y \<subseteq> S - X" using w unfolding wins_def by blast
  have "e_dst e \<in> Y" if s: "s \<in> Y" "owner G ! s \<noteq> (\<not> q)" "e \<in> set (game_out G s)" "usable S m e" for s e
  proof -
    have "e_dst e \<notin> X" using a(5) [of s e] s Y by blast
    then have "usable (S - X) m e" using s(4) by (simp add: usable_def)
    then show ?thesis using w s(1-3) unfolding wins_def by blast
  qed
  then show ?thesis using w unfolding wins_def by blast
qed

lemma wins_attracted:
  assumes col: "coloured G" and S: "S \<subseteq> {..<game_states G}" and m: "0 < m" and U: "U \<subseteq> S"
    and esc: "\<And>s e. s \<in> S - U \<Longrightarrow> owner G ! s \<noteq> q \<Longrightarrow> e \<in> set (game_out G s) \<Longrightarrow> usable S m e \<Longrightarrow> usable (S - U) (m - 1) e"
    and w0: "wins G (S - U) (m - 1) q W \<tau>0" and X: "attractor G S W m q False = (X, \<sigma>)"
    and w1: "wins G (S - X) m q Y \<tau>1"
  shows "wins G S m q (Y \<union> X) (insert_strategy (insert_strategy \<sigma> \<tau>0) \<tau>1)" (is "wins G S m q _ ?\<sigma>")
proof -
  have fin: "finite S" using S(1) finite_subset by blast
  have W: "W \<subseteq> S - U" "dom \<tau>0 \<subseteq> W" "Y \<subseteq> S - X" "dom \<tau>1 \<subseteq> Y"
    using winsD(1,2) [OF w0] winsD(1,2) [OF w1] by simp_all
  then have WS: "W \<subseteq> S" by blast
  note a = attractor_to [OF X fin WS]
  have dj: "dom \<sigma> \<inter> dom \<tau>0 = {}" "dom (insert_strategy \<sigma> \<tau>0) \<inter> dom \<tau>1 = {}"
    unfolding dom_insert_strategy using a(2,4) W by blast+
  have s0: "\<exists>i < length (game_out G s). ?\<sigma> s = Some i \<and> usable W m (game_out G s ! i)" if s: "s \<in> W" "owner G ! s = q" for s
  proof -
    obtain i where i: "i < length (game_out G s)" "\<tau>0 s = Some i" "usable W (m - 1) (game_out G s ! i)"
      using w0 s unfolding wins_def by blast
    have "\<sigma> s = None" using a(4) s(1) by blast
    then have "?\<sigma> s = Some i" using i(2) by (simp add: insert_strategy_apply)
    moreover have "s < game_states G" using s(1) WS S(1) by blast
    from usable_colour [OF col this nth_mem [OF i(1)]] i(3) have "usable W m (game_out G s ! i)" by auto
    ultimately show ?thesis using i by blast
  qed
  have f0: "e_dst e \<in> W" if s: "s \<in> W" "owner G ! s \<noteq> q" "e \<in> set (game_out G s)" "usable S m e" for s e
    using esc [OF _ s(2-4)] s w0 W(1) unfolding wins_def by blast
  have up: "usable (Y \<union> X) m e" if "usable W m e \<or> usable S m e \<and> e_dst e \<in> X \<or> usable Y m e" for e :: "('a, 'b mark_t) edge_label edge_storage"
    using that a(2) by (auto simp: usable_def)
  have own: "\<exists>i < length (game_out G s). ?\<sigma> s = Some i \<and> usable (Y \<union> X) m (game_out G s ! i)"
    if s: "s \<in> Y \<union> X" "owner G ! s = q" for s
  proof -
    consider "s \<in> W" | "s \<in> X - W" | "s \<in> Y" using s(1) by blast
    then show ?thesis
    proof cases
      case 1
      from s0 [OF this s(2)] up show ?thesis by blast
    next
      case 2
      from a(7) [of s] 2 s(2) obtain j where "j < length (game_out G s)" "\<sigma> s = Some j" "usable S m (game_out G s ! j)"
        "e_dst (game_out G s ! j) \<in> X" by blast
      with up show ?thesis by (auto simp: insert_strategy_apply)
    next
      case 3
      obtain i where i: "i < length (game_out G s)" "\<tau>1 s = Some i" "usable Y m (game_out G s ! i)"
        using w1 3 s(2) unfolding wins_def by blast
      have "\<sigma> s = None" "\<tau>0 s = None" using a(2,4) W(2,3) 3 by blast+
      then have "?\<sigma> s = Some i" using i(2) by (simp add: insert_strategy_apply)
      with i up show ?thesis by blast
    qed
  qed
  have foreign: "e_dst e \<in> Y \<union> X" if s: "s \<in> Y \<union> X" "owner G ! s \<noteq> q" "e \<in> set (game_out G s)" "usable S m e" for s e
  proof -
    consider "s \<in> W" | "s \<in> X - W" | "s \<in> Y" using s(1) by blast
    then show ?thesis
    proof cases
      case 1
      from f0 [OF this s(2-4)] a(2) show ?thesis by blast
    next
      case 2
      then show ?thesis using a(8) [of s e] s(2-4) by blast
    next
      case 3
      show ?thesis
      proof (cases "e_dst e \<in> X")
        case False
        then have "usable (S - X) m e" using s(4) by (simp add: usable_def)
        then show ?thesis using w1 3 s(2,3) unfolding wins_def by blast
      qed simp
    qed
  qed
  have "won q e" if pl: "is_play G (Y \<union> X) m v e" "follows G ?\<sigma> v e" for v e
  proof -
    have fo: "follows G \<sigma> v e" "follows G \<tau>0 v e" "follows G \<tau>1 v e"
      using follows_append [OF pl(2) dj(2)] follows_append [OF _ dj(1)] by blast+
    have step: "v k \<in> Y \<union> X" "e k \<in> set (game_out G (v k))" "usable (Y \<union> X) m (e k)" "e_dst (e k) = v (Suc k)" for k
      using pl(1) unfolding is_play_def by blast+
    have sub: "Y \<union> X \<subseteq> S" using W(3) a(3) by blast
    have uS: "usable S m (e k)" for k using step(3) [of k] sub by (auto simp: usable_def)
    show ?thesis
    proof (cases "\<exists>k. v k \<in> X")
      case True
      then obtain k where k: "v k \<in> X" ..
      have "is_play G S m v e" unfolding is_play_def using step uS sub by blast
      from built_reaches [OF a(1) this fo(1) k] obtain n where n: "v n \<in> W" by blast
      have stay: "v (n + j) \<in> W" for j
      proof (induction j)
        case (Suc j)
        show ?case
        proof (cases "owner G ! v (n + j) = q")
          case True
          from s0 [OF Suc True] obtain i where i: "?\<sigma> (v (n + j)) = Some i" "usable W m (game_out G (v (n + j)) ! i)" by blast
          then have "e (n + j) = game_out G (v (n + j)) ! i" using pl(2) unfolding follows_def by blast
          then show ?thesis using i(2) step(4) [of "n + j"] by (simp add: usable_def)
        next
          case False
          from f0 [OF Suc False step(2) uS] step(4) [of "n + j"] show ?thesis by simp
        qed
      qed (simp add: n)
      have "is_play G W (m - 1) (\<lambda>j. v (n + j)) (\<lambda>j. e (n + j))"
        unfolding is_play_def
      proof (intro allI conjI)
        fix j
        show "v (n + j) \<in> W" "e (n + j) \<in> set (game_out G (v (n + j)))" "e_dst (e (n + j)) = v (n + Suc j)"
          using stay step by auto
        have dst: "e_dst (e (n + j)) \<in> W" using stay [of "Suc j"] step(4) [of "n + j"] by simp
        have "v (n + j) < game_states G" using stay [of j] WS S(1) by blast
        note u = usable_colour [OF col this step(2)]
        show "usable W (m - 1) (e (n + j))"
        proof (cases "owner G ! v (n + j) = q")
          case True
          obtain i where i: "\<tau>0 (v (n + j)) = Some i" "usable W (m - 1) (game_out G (v (n + j)) ! i)"
            using w0 stay [of j] True unfolding wins_def by blast
          then have "e (n + j) = game_out G (v (n + j)) ! i" using fo(2) unfolding follows_def by blast
          with i show ?thesis by simp
        next
          case False
          have "usable (S - U) (m - 1) (e (n + j))" by (rule esc [OF _ False step(2) uS]) (use stay [of j] W(1) in blast)
          then show ?thesis using dst unfolding u by blast
        qed
      qed
      then have "won q (\<lambda>j. e (n + j))" using w0 follows_suffix [OF fo(2)] unfolding wins_def by blast
      then show ?thesis by (rule won_suffix)
    next
      case False
      then have "is_play G Y m v e" unfolding is_play_def
      proof (intro allI conjI)
        fix k
        show "v k \<in> Y" "e k \<in> set (game_out G (v k))" "e_dst (e k) = v (Suc k)" using step [of k] False by auto
        have "v (Suc k) \<in> Y" using step(1) [of "Suc k"] False by blast
        then show "usable Y m (e k)" using step(3,4) [of k] by (simp add: usable_def)
      qed
      then show ?thesis using w1 fo(3) unfolding wins_def by blast
    qed
  qed
  moreover have "Y \<union> X \<subseteq> S" "dom ?\<sigma> \<subseteq> Y \<union> X" unfolding dom_insert_strategy using a(2,3,4) W by blast+
  ultimately show ?thesis unfolding wins_def using own foreign by blast
qed

definition solved :: "('l, 'n::len) parity_game \<Rightarrow> nat set \<Rightarrow> nat \<Rightarrow> (bool \<Rightarrow> nat set) \<Rightarrow> (bool \<Rightarrow> strategy) \<Rightarrow> bool" where
  "solved G S m w \<sigma> \<longleftrightarrow> w False \<union> w True = S \<and> w False \<inter> w True = {} \<and> (\<forall>q. wins G S m q (w q) (\<sigma> q))"

lemma solved_bool: "solved G S m w \<sigma> \<longleftrightarrow>
    w p \<union> w (\<not> p) = S \<and> w p \<inter> w (\<not> p) = {} \<and> wins G S m p (w p) (\<sigma> p) \<and> wins G S m (\<not> p) (w (\<not> p)) (\<sigma> (\<not> p))"
  unfolding solved_def by (cases p) (auto simp: all_bool_eq)

lemma solved_card:
  assumes "solved G S m w \<sigma>" "finite S"
  shows "card (w False) + card (w True) = card S"
proof -
  have "finite (w False)" "finite (w True)" using assms unfolding solved_def by (metis finite_Un)+
  then show ?thesis using assms(1) unfolding solved_def by (metis card_Un_disjoint)
qed

lemma solve_rec_sound:
  assumes col: "coloured G"
  shows "S \<subseteq> {..<game_states G} \<Longrightarrow> closed G S m \<Longrightarrow> m + card S < n \<Longrightarrow>
    \<exists>w \<sigma>. solve_rec n G S m = Inr (S, w, \<sigma>) \<and> solved G S m w \<sigma>"
proof (induction n arbitrary: S m)
  case (Suc n)
  note S = Suc.prems(1,2)
  have fin: "finite S" using S(1) finite_subset by blast
  define p where "p = odd m"
  obtain U \<sigma>u where U: "attractor G S {} m p True = (U, \<sigma>u)" by fastforce
  note a = attractor_top [OF U fin]
  show ?case
  proof (cases "S = {}")
    case True
    then show ?thesis by (simp add: solved_def wins_empty)
  next
    case ne: False
    show ?thesis
    proof (cases "m = 0")
      case True
      have US: "U = S" using zero_colour [OF col S(1)] S(2) U True by blast
      have p: "p = False" by (simp add: p_def True)
      have "won p e" if pl: "is_play G S m v e" "follows G \<sigma>u v e" for v e
      proof (rule won_recurring [OF col S(1) pl(1) p_def])
        fix n
        have "v n \<in> U" using pl(1) US unfolding is_play_def by blast
        from built_reaches [OF a(1) pl(1,2) this] show "\<exists>k \<ge> n. colour (e k) = m" by blast
      qed
      then have "wins G S m p S \<sigma>u"
        unfolding wins_def using a(3,6) US by (auto simp: usable_def)
      then have "solved G S m ((\<lambda>_. {})(p := U)) ((\<lambda>_. Map.empty)(p := \<sigma>u))"
        unfolding solved_bool [where p = p] using US wins_empty by simp
      then show ?thesis using ne True U by (simp add: p_def Let_def)
    next
      case False
      then have m: "0 < m" by simp
      note rt = remove_top [OF col S m U]
      have S': "S - U \<subseteq> {..<game_states G}" using S(1) by blast
      have "m - 1 + card (S - U) < n" using Suc.prems(3) m card_mono [OF fin Diff_subset, of U] by linarith
      from Suc.IH [OF S' rt(1) this] obtain w0 s0 where r0: "solve_rec n G (S - U) (m - 1) = Inr (S - U, w0, s0)"
        "solved G (S - U) (m - 1) w0 s0" by blast
      have f': "finite (S - U)" using fin by blast
      note c0 = solved_card [OF r0(2) f']
      note b0 = r0(2) [unfolded solved_bool [where p = p]]
      have whole: "S - U \<union> U = S" using a(2) by blast
      have cS: "card (S - U) + card U = card S"
        using card_Diff_subset [of U S] a(2) fin card_mono [OF fin a(2)] finite_subset by (metis le_add_diff_inverse2)
      have fw: "finite (w0 p)" "finite (w0 (\<not> p))" using b0 f' by (metis finite_Un)+
      show ?thesis
      proof (cases "card (w0 p) + card U = card S")
        case True
        have "card (w0 p) = card (S - U)" using True cS by linarith
        moreover have "w0 p \<subseteq> S - U" using b0 by blast
        ultimately have all: "w0 p = S - U" using f' card_subset_eq by blast
        have "wins G S m p S (insert_strategy \<sigma>u (s0 p))"
          by (rule wins_all [OF col S m p_def U]) (use b0 all in simp)
        then have "solved G S m ((\<lambda>_. {})(p := S)) ((\<lambda>_. Map.empty)(p := insert_strategy \<sigma>u (s0 p)))"
          unfolding solved_bool [where p = p] using wins_empty by simp
        moreover have "solve_rec (Suc n) G S m = Inr (S, (\<lambda>_. {})(p := S), (\<lambda>_. Map.empty)(p := insert_strategy \<sigma>u (s0 p)))"
          using ne False U r0(1) c0 True whole by (simp add: p_def Let_def)
        ultimately show ?thesis by blast
      next
        case rest: False
        let ?W = "w0 (\<not> p)"
        have W: "?W \<subseteq> S" using b0 by blast
        obtain X \<sigma>x where X: "attractor G S ?W m (\<not> p) False = (X, \<sigma>x)" by fastforce
        note x = attractor_to [OF X fin W]
        note ra = remove_attractor [OF S X W]
        have "?W \<noteq> {}"
        proof
          assume "?W = {}"
          then have "w0 p = S - U" using b0 by blast
          then show False using rest cS by simp
        qed
        then have "S - X \<subset> S" using x(2) W by blast
        then have "card (S - X) < card S" by (rule psubset_card_mono [OF fin])
        then have "m + card (S - X) < n" using Suc.prems(3) by linarith
        moreover have S'': "S - X \<subseteq> {..<game_states G}" using S(1) by blast
        ultimately obtain w1 s1 where r1: "solve_rec n G (S - X) m = Inr (S - X, w1, s1)" "solved G (S - X) m w1 s1"
          using Suc.IH [OF _ ra(1)] by blast
        have "finite (S - X)" using fin by blast
        note c1 = solved_card [OF r1(2) this]
        note b1 = r1(2) [unfolded solved_bool [where p = p]]
        have wx: "wins G (S - X) m (\<not> \<not> p) (w1 p) (s1 p)" using b1 by simp
        have wp: "wins G S m p (w1 p) (s1 p)" using wins_rest [OF S(1) X W wx] by simp
        have wq: "wins G S m (\<not> p) (w1 (\<not> p) \<union> X) (insert_strategy (insert_strategy \<sigma>x (s0 (\<not> p))) (s1 (\<not> p)))"
        proof (rule wins_attracted [OF col S(1) m a(2) _ _ X])
          show "usable (S - U) (m - 1) e" if "s \<in> S - U" "owner G ! s \<noteq> (\<not> p)" "e \<in> set (game_out G s)" "usable S m e" for s e
            using rt(2) that by blast
        qed (use b0 b1 in blast)+
        have "S - X \<union> X = S" using x(3) by blast
        have "solve_rec (Suc n) G S m = Inr (S, w1(\<not> p := w1 (\<not> p) \<union> X),
            (\<lambda>_. Map.empty)(p := s1 p, \<not> p := insert_strategy (insert_strategy \<sigma>x (s0 (\<not> p))) (s1 (\<not> p))))"
          using ne False U r0(1) c0 whole rest X r1(1) c1 \<open>S - X \<union> X = S\<close> by (simp add: p_def [symmetric] Let_def)
        moreover have "solved G S m (w1(\<not> p := w1 (\<not> p) \<union> X))
            ((\<lambda>_. Map.empty)(p := s1 p, \<not> p := insert_strategy (insert_strategy \<sigma>x (s0 (\<not> p))) (s1 (\<not> p))))"
          unfolding solved_bool [where p = p] using wp wq b1 x(3) by auto
        ultimately show ?thesis by blast
      qed
    qed
  qed
qed simp

section \<open>The solution of a game\<close>

lemma is_parity_max_odd:
  fixes a :: "'n::len cond"
  assumes "is_parity eq a True = Inr (b, True, True)" "num_sets a \<noteq> 0" "num_sets a \<le> LENGTH('n)" "LENGTH('n) < 2 ^ 12"
    and "wf_code (get_acceptance a)" "\<And>c d m. eq c d \<Longrightarrow> accepting c m \<longleftrightarrow> accepting d m"
  shows "cond_accepting a m \<longleftrightarrow> (if \<exists>i < num_sets a. bit m i then odd (Max {i. i < num_sets a \<and> bit m i}) else True)"
proof -
  let ?n = "num_sets a" and ?u = "fst (used_inf_fin_sets (get_acceptance a))"
  have n: "3 * ?n + 2 < 2 ^ 16" using assms(3,4) by simp
  obtain c :: "'n acc_code" where c: "parity True True ?n = Inr c" "wf_code c"
    and cm: "\<forall>m. accepting c m \<longleftrightarrow> (if \<exists>i < ?n. bit m i then odd (Max {i. i < ?n \<and> bit m i}) else True)"
    using parity_code [OF assms(3) n, of True True] by (auto simp only: if_True simp_thms)
  let ?o = "\<not> mark_has ?u 0"
  have nl: "\<not> list_ex (\<lambda>s. odd s \<noteq> ?o) (mark_sets ?u)"
  proof
    assume "list_ex (\<lambda>s. odd s \<noteq> ?o) (mark_sets ?u)"
    then have "is_parity eq a True = Inr (False, False, ?o)" using assms(2) by (simp add: is_parity_def Let_def)
    then show False using assms(1) by simp
  qed
  have eq: "is_parity eq a True = bind_sum (parity True ?o ?n) (\<lambda>max_code.
      if code_eq max_code (get_acceptance a) then Inr (True, True, ?o)
      else bind_sum (parity False ?o ?n) (\<lambda>min_code.
            if code_eq min_code (get_acceptance a) then Inr (True, False, ?o)
            else if eq (get_acceptance a) max_code then Inr (True, True, ?o)
            else if eq (get_acceptance a) min_code then Inr (True, False, ?o)
            else Inr (False, False, ?o)))"
    using assms(2) nl unfolding is_parity_def Let_def by (simp only: if_False not_True_eq_False)
  have odd: "?o = True"
    using assms(1) unfolding eq
    by (cases "parity True ?o ?n :: acc_error + 'n acc_code"; cases "parity False ?o ?n :: acc_error + 'n acc_code")
       (simp_all split: if_split_asm)
  then have "(if code_eq c (get_acceptance a) then Inr (True, True, True)
      else bind_sum (parity False True ?n) (\<lambda>min_code.
            if code_eq min_code (get_acceptance a) then Inr (True, False, True)
            else if eq (get_acceptance a) c then Inr (True, True, True)
            else if eq (get_acceptance a) min_code then Inr (True, False, True)
            else Inr (False, False, True))) = Inr (b, True, True)"
    using assms(1) unfolding eq odd c(1) bind_sum.simps by blast
  then have "code_eq c (get_acceptance a) \<or> eq (get_acceptance a) c"
    by (cases "parity False True ?n :: acc_error + 'n acc_code") (auto split: if_splits)
  then have "accepting (get_acceptance a) m \<longleftrightarrow> accepting c m" for m
    using code_eq_iff [OF c(2) assms(5)] assms(6) by blast
  then show ?thesis using cm by (simp only: cond_accepting_def)
qed

lemma make_parity_game_ok:
  assumes "make_parity_game eq A ow = Inr G"
  obtains b where "is_parity eq (twa_acc A) True = Inr (b, True, True)" "G = \<lparr>arena = A, owner = ow\<rparr>"
proof (cases "is_parity eq (twa_acc A) True")
  case (Inl e)
  then show thesis using assms by (simp add: make_parity_game_def)
next
  case (Inr x)
  obtain b mx od where x: "x = (b, mx, od)" by (rule prod_cases3)
  show thesis
  proof (cases "mx \<and> od \<and> \<not> list_ex (\<lambda>t. mark_max_set (e_acc (edge A t)) = 0) (all_edges (graph A))")
    case True
    then show thesis using assms Inr x by (intro that [of b]) (simp_all add: make_parity_game_def)
  next
    case False
    then have "make_parity_game eq A ow \<noteq> Inr G" using Inr x by (auto simp: make_parity_game_def)
    then show thesis using assms by blast
  qed
qed

lemma fold_max_le:
  fixes f :: "'a \<Rightarrow> nat"
  shows "k \<le> fold (\<lambda>t m. max m (f t)) ts k \<and> (\<forall>t \<in> set ts. f t \<le> fold (\<lambda>t m. max m (f t)) ts k)"
proof (induction ts arbitrary: k)
  case (Cons t ts)
  from Cons.IH [of "max k (f t)"] show ?case by auto
qed simp

lemma out_all_edges:
  assumes "wf_twa A" "s < num_states (graph A)" "e \<in> set (out_edges A s)"
  obtains t where "t \<in> set (all_edges (graph A))" "e = edge A t"
proof -
  have wf: "wf_graph (graph A)" using assms(1) unfolding wf_twa_def wf_twa_graph_def by blast
  obtain t where t: "t \<in> set (out (graph A) s)" "e = edge A t" using assms(3) unfolding out_edges_def by auto
  then have "0 < t" "is_valid_edge (graph A) t" "t < length (edges (graph A))"
    using out_valid [OF wf assms(2)] by (auto simp: is_valid_edge_def)
  then have "t \<in> set (all_edges (graph A))" unfolding all_edges_live [OF wf] by auto
  then show thesis using t(2) by (rule that)
qed

lemma won_accepting:
  assumes "won q e" "\<And>k. \<exists>c. bits (e_acc (e k)) = {c}" "\<And>k. bits (e_acc (e k)) \<subseteq> {..<n}"
    and acc: "\<And>m. cond_accepting a m \<longleftrightarrow> (if \<exists>i < n. bit m i then odd (Max {i. i < n \<and> bit m i}) else True)"
  shows "cond_accepting a (inf_mark (\<lambda>k. e_acc (e k))) = q"
proof -
  let ?m = "inf_mark (\<lambda>k. e_acc (e k))"
  obtain c where c: "odd c = q" "top_colour e c" using assms(1) unfolding won_def by blast
  have bit: "bit (e_acc (e k)) i \<longleftrightarrow> colour (e k) = i" for k i
  proof -
    obtain d where d: "bits (e_acc (e k)) = {d}" using assms(2) by blast
    then have "bit (e_acc (e k)) i \<longleftrightarrow> i = d" unfolding bits_def by blast
    then show ?thesis using colour_bits [OF d] by auto
  qed
  have inf: "bit ?m i \<longleftrightarrow> (\<forall>n. \<exists>k \<ge> n. colour (e k) = i)" for i
    unfolding bit_inf_mark_iff inf_often_def infinite_nat_iff_unbounded_le bit by simp
  have low: "i < n" if b: "bit ?m i" for i
  proof -
    obtain k where "colour (e k) = i" using b inf by blast
    then have "i \<in> bits (e_acc (e k))" using bit by (simp add: bits_def)
    then show ?thesis using assms(3) by blast
  qed
  have "bit ?m c" using c(2) inf unfolding top_colour_def by blast
  moreover have "i \<le> c" if "bit ?m i" for i
    using that c(2) inf unfolding top_colour_def by (metis order_trans nle_le)
  ultimately have "Max {i. i < n \<and> bit ?m i} = c" using low by (intro Max_eqI) auto
  then show ?thesis unfolding acc using low \<open>bit ?m c\<close> c(1) by auto
qed

text \<open>The arenas: each state has a successor, and each edge exactly one of the declared colours.\<close>

definition proper_arena :: "('l, 'n::len) twa_graph \<Rightarrow> bool" where
  "proper_arena A \<longleftrightarrow> wf_twa A \<and> wf_code (get_acceptance (twa_acc A)) \<and> num_sets (twa_acc A) \<le> LENGTH('n) \<and>
    (\<forall>s < num_states (graph A). out_edges A s \<noteq> [] \<and>
      (\<forall>e \<in> set (out_edges A s). \<exists>c < num_sets (twa_acc A). bits (e_acc e) = {c}))"

text \<open>
  Property C3: \<open>solve\<close> terminates on a game that the constructor accepts; the winning regions of the two
  players partition the states, the strategy of a player gives an edge for each state that it owns in its
  region, and the player wins every play that starts in its region and follows its strategy: player 1 the
  accepting plays, player 0 the rejecting ones.
\<close>

theorem parity_game_solved:
  fixes A :: "('l, 'n::len) twa_graph"
  assumes "proper_arena A" "LENGTH('n) < 2 ^ 12" "make_parity_game eq A ow = Inr G"
    and eq: "\<And>c d m. eq c d \<Longrightarrow> accepting c m \<longleftrightarrow> accepting d m"
  shows "\<exists>w \<sigma>. solve G = Inr (w, \<sigma>) \<and> w False \<union> w True = {..<num_states (graph A)} \<and> w False \<inter> w True = {} \<and>
    (\<forall>q. \<forall>s \<in> w q. ow ! s = q \<longrightarrow> (\<exists>i < length (out_edges A s). \<sigma> q s = Some i \<and> e_dst (out_edges A s ! i) \<in> w q)) \<and>
    (\<forall>q v e. v 0 \<in> w q \<and> (\<forall>k. e k \<in> set (out_edges A (v k)) \<and> e_dst (e k) = v (Suc k)) \<and> follows G (\<sigma> q) v e \<longrightarrow>
       cond_accepting (twa_acc A) (inf_mark (\<lambda>k. e_acc (e k))) = q)"
proof -
  let ?n = "num_states (graph A)" and ?c = "num_sets (twa_acc A)"
  have A: "wf_twa A" "wf_code (get_acceptance (twa_acc A))" "?c \<le> LENGTH('n)"
    "\<And>s. s < ?n \<Longrightarrow> out_edges A s \<noteq> []" "\<And>s e. s < ?n \<Longrightarrow> e \<in> set (out_edges A s) \<Longrightarrow> \<exists>c < ?c. bits (e_acc e) = {c}"
    using assms(1) unfolding proper_arena_def by blast+
  obtain b where par: "is_parity eq (twa_acc A) True = Inr (b, True, True)" and G: "G = \<lparr>arena = A, owner = ow\<rparr>"
    by (rule make_parity_game_ok [OF assms(3)])
  have gs: "game_states G = ?n" "game_out G = out_edges A" "owner G = ow" by (simp_all add: G game_states_def game_out_def fun_eq_iff)
  have col: "coloured G" unfolding coloured_def gs using A(5) by blast
  have i: "init_number A < ?n" using A(1) unfolding wf_twa_def by blast
  have "?c \<noteq> 0"
  proof -
    obtain e where "e \<in> set (out_edges A (init_number A))" using A(4) [OF i] by (cases "out_edges A (init_number A)") auto
    then show ?thesis using A(5) [OF i] by fastforce
  qed
  note acc = is_parity_max_odd [OF par this A(3) assms(2) A(2) eq]
  have us: "usable {..<?n} (max_parity G) e" if s: "s < ?n" "e \<in> set (out_edges A s)" for s e
  proof -
    obtain t where t: "t \<in> set (all_edges (graph A))" "e = edge A t" by (rule out_all_edges [OF A(1) s])
    let ?m = "fold (\<lambda>t m. max m (mark_max_set (e_acc (edge A t)))) (all_edges (graph A)) 0"
    have le: "mark_max_set (e_acc e) \<le> ?m" using fold_max_le [where k = 0 and ts = "all_edges (graph A)" and f = "\<lambda>t. mark_max_set (e_acc (edge A t))"] t by blast
    obtain c where "bits (e_acc e) = {c}" using A(5) [OF s] by blast
    then have "e_acc e \<noteq> 0" by (auto simp: bits_def)
    then have "?m \<noteq> 0" using le mark_max_set_Max [of "e_acc e"] by auto
    then have "colour e \<le> max_parity G" using le by (simp add: max_parity_def G colour_def Let_def)
    moreover have "e_dst e < ?n"
    proof -
      have "(e_dst e, e_data e) \<in> set (succs (graph A) s)" using s(2) by (auto simp: out_edges_def succs_def)
      then show ?thesis using A(1) s(1) unfolding wf_twa_def wf_succs by blast
    qed
    ultimately show ?thesis using usable_colour [OF col, of s e] s unfolding gs by auto
  qed
  have "closed G {..<?n} (max_parity G)" unfolding closed_def gs
  proof
    fix s assume s: "s \<in> {..<?n}"
    then obtain e where "e \<in> set (out_edges A s)" using A(4) [of s] by (metis lessThan_iff list.set_intros(1) neq_Nil_conv)
    then show "\<exists>e \<in> set (out_edges A s). usable {..<?n} (max_parity G) e" using us [of s e] s by blast
  qed
  then obtain w \<sigma> where r: "solve_rec (Suc (max_parity G + ?n)) G {..<?n} (max_parity G) = Inr ({..<?n}, w, \<sigma>)"
    "solved G {..<?n} (max_parity G) w \<sigma>"
    using solve_rec_sound [OF col, of "{..<?n}" "max_parity G" "Suc (max_parity G + ?n)"] gs(1) by auto
  have w: "w False \<union> w True = {..<?n}" "w False \<inter> w True = {}" "\<And>q. wins G {..<?n} (max_parity G) q (w q) (\<sigma> q)"
    using r(2) unfolding solved_def by blast+
  have "solve G = Inr (w, \<sigma>)" using r(1) by (simp add: solve_def gs lessThan_atLeast0)
  moreover have "\<exists>i < length (out_edges A s). \<sigma> q s = Some i \<and> e_dst (out_edges A s ! i) \<in> w q" if "s \<in> w q" "ow ! s = q" for q s
    using winsD(3) [OF w(3) that(1)] that(2) unfolding gs usable_def by blast
  moreover have "cond_accepting (twa_acc A) (inf_mark (\<lambda>k. e_acc (e k))) = q"
    if v: "v 0 \<in> w q" "\<forall>k. e k \<in> set (out_edges A (v k)) \<and> e_dst (e k) = v (Suc k)" "follows G (\<sigma> q) v e" for q v e
  proof -
    have sub: "w q \<subseteq> {..<?n}" using winsD(1) [OF w(3)] .
    have n: "v k < ?n" for k
    proof (induction k)
      case 0
      then show ?case using v(1) sub by blast
    next
      case (Suc k)
      from us [OF Suc, of "e k"] v(2) have "e_dst (e k) < ?n" by (simp add: usable_def)
      then show ?case using v(2) by simp
    qed
    have "is_play G {..<?n} (max_parity G) v e"
      unfolding is_play_def gs using v(2) n us by blast
    then have won: "won q e" using wins_play [OF w(3) _ v(3), of "0"] v(1) by blast
    have c: "\<exists>c < ?c. bits (e_acc (e k)) = {c}" for k using A(5) [OF n] v(2) by blast
    have c1: "\<exists>c. bits (e_acc (e k)) = {c}" and c2: "bits (e_acc (e k)) \<subseteq> {..<?c}" for k using c [of k] by auto
    show ?thesis by (rule won_accepting [OF won c1 c2 acc])
  qed
  ultimately show ?thesis using w(1,2) by blast
qed

lemma proper_colorized:
  assumes "proper_arena A"
  shows "\<not> list_ex (\<lambda>t. mark_max_set (e_acc (edge A t)) = 0) (all_edges (graph A))"
proof -
  have wf: "wf_graph (graph A)" using assms unfolding proper_arena_def wf_twa_def wf_twa_graph_def by blast
  have "mark_max_set (e_acc (edge A t)) \<noteq> 0" if t: "t \<in> set (all_edges (graph A))" for t
  proof -
    have v: "0 < t" "is_valid_edge (graph A) t" using t unfolding all_edges_live [OF wf] by auto
    then have s: "e_src (edge A t) < num_states (graph A)" using wf unfolding wf_graph_def is_valid_edge_def num_states_def by auto
    have "t \<in> set (out (graph A) (e_src (edge A t)))" using out_valid [OF wf s] v by blast
    then have "edge A t \<in> set (out_edges A (e_src (edge A t)))" by (simp add: out_edges_def)
    then obtain c where "bits (e_acc (edge A t)) = {c}" using assms s unfolding proper_arena_def by blast
    then have "e_acc (edge A t) \<noteq> 0" by (auto simp: bits_def)
    then show ?thesis using mark_max_set_Max [of "e_acc (edge A t)"] by simp
  qed
  then show ?thesis by (simp add: list_ex_iff)
qed

definition two_colours :: "32 cond" where
  "two_colours = \<lparr>num_sets = 2, all_sets = 3, get_acceptance = enc (TOr [TInf 2, TFin 1]), uses_fin_acceptance = True\<rparr>"

definition small_arena :: "(bool, 32) twa_graph" where
  "small_arena = explicit_twa 3 0 two_colours [(0, 1, UNIV, 2), (0, 0, UNIV, 1), (1, 1, UNIV, 1), (2, 2, UNIV, 2)]"

lemma small_arena_proper: "proper_arena small_arena" "num_states (graph small_arena) = 3"
proof -
  have wf: "wf_twa small_arena" "num_states (graph small_arena) = 3" "twa_acc small_arena = two_colours"
    by (simp_all add: small_arena_def explicit_twa_spec)
  have "wf_code (get_acceptance two_colours)" unfolding wf_code_def two_colours_def
    by (intro exI [of _ "TOr [TInf 2, TFin 1]"]) (simp add: tree_ok_def)
  moreover have b: "bits (1 :: 32 mark_t) = {0}" "bits (2 :: 32 mark_t) = {1}"
    by (auto simp: bits_def bit_1_iff bit_2_iff)
  have "out_edges small_arena s \<noteq> [] \<and> (\<forall>e \<in> set (out_edges small_arena s). e_acc e = 1 \<or> e_acc e = 2)" if "s < 3" for s
  proof -
    have "succs (graph small_arena) s \<noteq> [] \<and> (\<forall>(q, x) \<in> set (succs (graph small_arena) s). acc x = 1 \<or> acc x = 2)"
      using that by (auto simp: small_arena_def explicit_twa_spec)
    then show ?thesis by (auto simp: succs_def out_edges_def)
  qed
  moreover have "\<exists>c < num_sets two_colours. bits m = {c}" if "m = 1 \<or> m = 2" for m :: "32 mark_t"
    using that b by (auto simp: two_colours_def)
  moreover have "num_sets two_colours \<le> 32" by (simp add: two_colours_def)
  ultimately show "proper_arena small_arena" "num_states (graph small_arena) = 3"
    using wf unfolding proper_arena_def by simp_all
qed

lemma small_arena_game:
  "make_parity_game (\<lambda>_ _. False) small_arena [True, False, True] = Inr \<lparr>arena = small_arena, owner = [True, False, True]\<rparr>"
proof -
  have "is_parity (\<lambda>_ _. False) two_colours True = Inr (True, True, True)" 
  proof -
    have "used_inf_fin_sets (get_acceptance two_colours) = (2, 1)" by code_simp
    moreover have "mark_sets (2 :: 32 mark_t) = [1]" by code_simp
    moreover have "parity True True 2 = Inr (get_acceptance two_colours)"
    proof -
      have "and_code code_t (fin (1 :: 32 mark_t)) = fin 1" by code_simp
      moreover have "or_code (fin (1 :: 32 mark_t)) (inf_code 2) = get_acceptance two_colours"
        by (simp add: or_code_def splice_def splice_words_def fin_def inf_code_def is_t_def is_f_def top_is_def two_colours_def
          Let_def u16_def)
      moreover have "fin1 0 = Inr (fin (1 :: 32 mark_t))" "inf1 1 = Inr (inf_code (2 :: 32 mark_t))" by (simp_all add: fin1_def inf1_def)
      moreover have "[0..<2] = [0, 1 :: nat]" by (simp add: upt_rec)
      ultimately show ?thesis by (simp add: parity_def parity_start_def)
    qed
    moreover have "code_eq (get_acceptance two_colours) (get_acceptance two_colours)" by code_simp
    moreover have "\<not> mark_has (2 :: 32 mark_t) 0" by code_simp
    moreover have "num_sets two_colours = 2" by (simp add: two_colours_def)
    ultimately show ?thesis by (simp add: is_parity_def del: mark_has_bit)
  qed
  moreover note proper_colorized [OF small_arena_proper(1)]
  moreover have "twa_acc small_arena = two_colours" by (simp add: small_arena_def explicit_twa_spec)
  ultimately show ?thesis by (simp add: make_parity_game_def)
qed

theorem parity_game_solved_witness:
  "\<exists>w \<sigma>. solve \<lparr>arena = small_arena, owner = [True, False, True]\<rparr> = Inr (w, \<sigma>) \<and>
    w False \<union> w True = {..<3} \<and> w False \<inter> w True = {}"
  using parity_game_solved [OF small_arena_proper(1) _ small_arena_game] small_arena_proper(2) by auto

end
