(* ===== verification/Unabbrev.thy ===== *)
theory Unabbrev
  imports FormulaProps
begin

text \<open>
  Removing operators from a formula (tl/unabbrev.hh, tl/unabbrev.cc): the unabbreviator rewrites the
  operators that its options name with the remaining ones.  Formulas are rebuilt by their constructors,
  with the trivial identities.  The cache of rewritten subformulas, which holds results of \<open>run\<close>, is left
  out; its entries that are still being computed are never read, since each of them has a removed operator
  that the subformulas and the rewritten formulas passed to \<open>run\<close> meanwhile do not contain.  As some rewritten formulas are rewritten again, \<open>run\<close> takes a fuel.
\<close>

section \<open>The unabbreviator\<close>

record unabbreviator =
  re_e :: bool
  re_f :: bool
  re_g :: bool
  re_i :: bool
  re_m :: bool
  re_r :: bool
  re_w :: bool
  re_xor :: bool
  re_some_bool :: bool
  re_some_f_g :: bool
  re_some_other :: bool















section \<open>Operators of a formula\<close>

fun ltl_ok :: "fnode \<Rightarrow> bool" where
  "ltl_ok eword = False"
| "ltl_ok (Unary o1 f) = (o1 \<in> {UNot, UX, UF, UG, UStrongX} \<and> ltl_ok f)"
| "ltl_ok (Binary o2 f g) = (o2 \<in> {BXor, BImplies, BEquiv, BU, BR, BW, BM} \<and> ltl_ok f \<and> ltl_ok g)"
| "ltl_ok (Multi on fs) = (on \<in> {MAnd, MOr} \<and> fs \<noteq> [] \<and> list_all ltl_ok fs)"
| "ltl_ok (Starred os f mn mx) = False"
| "ltl_ok f = True"

fun ops :: "fnode \<Rightarrow> (unary + binary) set" where
  "ops (Unary o1 f) = insert (Inl o1) (ops f)"
| "ops (Binary o2 f g) = insert (Inr o2) (ops f \<union> ops g)"
| "ops (Multi on fs) = \<Union> (set (map ops fs))"
| "ops (Starred os f mn mx) = ops f"
| "ops f = {}"

text \<open>A formula of the logic whose operators are among \<open>S\<close>.\<close>

definition over :: "(unary + binary) set \<Rightarrow> fnode \<Rightarrow> bool" where
  "over S f \<longleftrightarrow> ltl_ok f \<and> ops f \<subseteq> S"

lemma over_simps [simp]:
  "over S ff" "over S tt" "over S (ap a)" "\<not> over S eword" "\<not> over S (Starred os f mn mx)"
  "over S (Unary o1 f) \<longleftrightarrow> o1 \<in> {UNot, UX, UF, UG, UStrongX} \<and> Inl o1 \<in> S \<and> over S f"
  "over S (Binary o2 f g) \<longleftrightarrow> o2 \<in> {BXor, BImplies, BEquiv, BU, BR, BW, BM} \<and> Inr o2 \<in> S \<and> over S f \<and> over S g"
  "over S (Multi on fs) \<longleftrightarrow> on \<in> {MAnd, MOr} \<and> fs \<noteq> [] \<and> list_all (over S) fs"
  by (auto simp: over_def list.pred_set)











section \<open>Identities of the temporal operators\<close>










section \<open>Rewriting the root\<close>

definition removable :: "unabbreviator \<Rightarrow> (unary + binary) set" where
  "removable u = (if re_e u then {Inr BEquiv} else {}) \<union> (if re_f u then {Inl UF} else {}) \<union>
     (if re_g u then {Inl UG} else {}) \<union> (if re_i u then {Inr BImplies} else {}) \<union> (if re_m u then {Inr BM} else {}) \<union>
     (if re_r u then {Inr BR} else {}) \<union> (if re_w u then {Inr BW} else {}) \<union> (if re_xor u then {Inr BXor} else {})"


lemma remaining [simp]:
  "Inl UNot \<notin> removable u" "Inl UX \<notin> removable u" "Inl UStrongX \<notin> removable u" "Inr BU \<notin> removable u"
  "Inl UF \<in> removable u \<longleftrightarrow> re_f u" "Inl UG \<in> removable u \<longleftrightarrow> re_g u"
  "Inr BXor \<in> removable u \<longleftrightarrow> re_xor u" "Inr BImplies \<in> removable u \<longleftrightarrow> re_i u"
  "Inr BEquiv \<in> removable u \<longleftrightarrow> re_e u" "Inr BR \<in> removable u \<longleftrightarrow> re_r u"
  "Inr BW \<in> removable u \<longleftrightarrow> re_w u" "Inr BM \<in> removable u \<longleftrightarrow> re_m u"
  by (auto simp: removable_def)
























section \<open>The recursion\<close>































section \<open>Removing the operators\<close>







end
