(* ===== verification/Spec2Isabelle.thy ===== *)
theory Spec2Isabelle
  imports Trival Bitset Mark AccCode AccEval AccTransform AccQuery AccBuild AccCond AccClassify
    Formula Psl FormulaSound Sere SereMultop FormulaProps Hierarchy Stutter DiGraph DiGraphRebuild
    Twa TwaLang TwaPurge TwaDead TwaMerge AccSat Complete Product ProductOr CleanAcc Complement Game Unabbrev
begin

text \<open>
  Verification of the core of Spot, a library for \<open>\<omega>\<close>-automata and temporal logic.

  \<^bold>\<open>The program.\<close>  An acceptance condition (\<^verbatim>\<open>spot/twa/acc.hh\<close>, \<^verbatim>\<open>spot/twa/acc.cc\<close>) is a positive Boolean
  formula over \<open>Inf\<close> and \<open>Fin\<close> of numbered sets, stored as an array of words; the edges of an automaton
  carry the sets that they belong to, a \<open>mark_t\<close>, which is a fixed-size bit set (\<^verbatim>\<open>spot/misc/bitset.hh\<close>).
  Automata (\<^verbatim>\<open>spot/twa/twa.hh\<close>, \<^verbatim>\<open>spot/twa/twagraph.hh\<close>) are stored in a graph whose edges are chained in a vector
  (\<^verbatim>\<open>spot/graph/graph.hh\<close>), with an acceptance condition and cached three-valued properties
  (\<^verbatim>\<open>spot/misc/trival.hh\<close>).  Algorithms simplify them (\<^verbatim>\<open>twagraph.cc\<close>) or build new ones
  (\<^verbatim>\<open>spot/twaalgos\<close>), or solve a game on them (\<^verbatim>\<open>spot/misc/game.cc\<close>).  Formulas (\<^verbatim>\<open>spot/tl/formula.hh\<close>,
  \<^verbatim>\<open>formula.cc\<close>) are trees built by constructors that apply trivial identities and compute flags; other
  passes rewrite them (\<^verbatim>\<open>spot/tl\<close>).

  \<^bold>\<open>Acceptance.\<close>
  \<^item> Prelude: theorem collections and generic facts on lists, numbers and words.
  \<^item> Trival: class \<open>trival\<close>.  Bitset: class \<open>bitset\<close>, arrays of 32-bit words.  Mark: \<open>acc_cond::mark_t\<close> on machine
    words of any length, and its refinement by bit sets for 32 and 64 sets.
  \<^item> AccCode: \<open>acc_cond::acc_code\<close>, as the list of words from the last one to the first; trees as its
    specification (\<open>enc\<close>); the connectives \<open>operator&=\<close> and \<open>operator|=\<close>.
  \<^item> AccEval: \<open>eval\<close>, \<open>accepting\<close>, \<open>maybe_accepting\<close>, \<open>check_fin_acceptance\<close>; acceptance of runs.
  \<^item> AccTransform: \<open>complement\<close>, \<open>strip\<close>, \<open>remove\<close>, \<open>force_inf\<close>, and the definitions of the queries; AccQuery: what the
    queries return (\<open>used_sets\<close>, \<open>fin_one\<close>, \<open>top_conjuncts\<close>, shifts, normal forms).
  \<^item> AccBuild: the builders of named conditions.  AccCond: class \<open>acc_cond\<close>.  AccClassify: recognition of
    Rabin, Streett, generalized and parity conditions.  AccSat: \<open>sat_mark\<close> and \<open>unsat_mark\<close>.

  \<^bold>\<open>Automata.\<close>
  \<^item> DiGraph: the storage, \<open>new_state\<close>, \<open>new_edge\<close>, universal destinations, the erasing iterator and the invariant
    \<open>wf_graph\<close>.  DiGraphRebuild: \<open>remove_dead_edges_\<close>, \<open>sort_edges_\<close>, \<open>chain_edges_\<close>, \<open>defrag_states\<close>.
  \<^item> Twa: classes \<open>twa\<close> and \<open>twa_graph\<close>.  TwaLang: paths, the marks seen infinitely often, acceptance, and the
    interface \<open>path_simulation\<close> by which operations carry paths over.
  \<^item> TwaPurge, TwaDead, TwaMerge: \<open>purge_unreachable_states\<close>, \<open>purge_dead_states\<close>, \<open>merge_edges\<close>, \<open>merge_states\<close>.
  \<^item> Complete: \<^verbatim>\<open>isdet.cc\<close> and \<^verbatim>\<open>complete.cc\<close>.  Product and ProductOr: \<^verbatim>\<open>product.cc\<close>.  CleanAcc: \<^verbatim>\<open>cleanacc.cc\<close>.
    Complement: \<^verbatim>\<open>complement.cc\<close> and the deterministic case of \<^verbatim>\<open>dualize.cc\<close>, which composes the completion,
    the cleaning of the acceptance and the negation of the condition.  Game: \<^verbatim>\<open>game.cc\<close>.

  \<^bold>\<open>Formulas.\<close>
  \<^item> Formula: nodes, flags (\<open>setup_props\<close>), \<open>unop\<close>, \<open>binop\<close>, \<open>multop\<close>, \<open>bunop\<close>.  The order of the operands of commutative operators,
    which depends on addresses in the code, is an argument \<open>lt\<close>, about which nothing is assumed.
  \<^item> Psl: the documented semantics (\<^verbatim>\<open>doc/tl/tl.tex\<close>).  FormulaSound, Sere, SereMultop: the constructors keep the
    meaning.  FormulaProps, Hierarchy, Stutter: the flags are sound.  Unabbrev: \<^verbatim>\<open>unabbrev.cc\<close>.

  \<^bold>\<open>What the lemmas show.\<close>  For the acceptance formulas: the operations on arrays of words refine operations on
  trees, whose satisfaction by a run is proved as expected, with the bounds on the size field of 16 bits.  For
  automata: well-formedness of the storage is kept, and each algorithm keeps the language or gives the
  intersection, union, symmetric difference or complement of languages; the traversals end.  For
  games: the computed regions are the winning regions, with positional strategies.  For formulas:
  identities and flags are sound, or are refuted by an example where they are not.  Several claims show a
  defect of the code, in general or by evaluating it on an input; these are listed as findings.

  \<^bold>\<open>Bounds and fuel.\<close>  Loops that are not structural take a fuel and return an option.  The traversal of
  \<open>purge_unreachable_states\<close> takes the number of states, since a state is pushed once; that of \<open>purge_dead_states\<close>
  the states and edges, and its sweeps the number of edges; the product the number of pairs of states; the game
  solver the largest priority plus the number of states, one of which drops at each call; \<open>cleanup_acceptance_here\<close>
  twice the number of sets, since the declared sets or the sets of the condition decrease.  For each of these
  it is proved that the fuel is enough.  \<open>unabbreviate\<close> is shown to return for every large enough fuel.  Languages are
  defined for automata without universal branching; the traversals of alternating automata are modelled, but
  their fuel is not shown to be enough.  Conditions of 4096 words or more are excluded where two of them are combined, so that the
  size field cannot overflow.

  \<^bold>\<open>Not modelled.\<close>  A BDD is the set of letters, or the Boolean function, that it denotes; the vendored BDD and SAT
  libraries are outside.  The BDD equivalence used by \<open>is_parity\<close> is a parameter.  Of named properties only the pairs of
  states of a product are kept.  The hash-consing and reference counts of formulas, the cache of the unabbreviator,
  hashes, printers, and the random generators are left out.  Not reached: the formula simplifier, the
  translation to automata, strongly connected components and emptiness checks, degeneralization,
  determinization, simulation, removal of \<open>Fin\<close>, dualization of nondeterministic automata, testing automata, on-the-fly state spaces,
  the parsers and the command-line tools.
\<close>

end
